(* ===== verification/Prelude.thy ===== *)
theory Prelude
  imports Main "HOL-Library.Word" "HOL-Library.Monad_Syntax"
begin

text \<open>
  Shared vocabulary of the development: the machine types of the kernel, byte buffers as
  lists (a C array of bytes is a list whose length never changes), little-endian encoding,
  and the lemmas about them that every component uses.

  A C computation that may leave defined behaviour (a null dereference, an access outside an
  array) or that may never return is a function into \<open>option\<close>: \<open>None\<close> stands for either, so a
  theorem that such a function yields \<open>Some\<close> says that the code is safe and returns.
\<close>

unbundle bit_operations_syntax

type_synonym u8 = "8 word"
type_synonym u16 = "16 word"
type_synonym u32 = "32 word"

named_theorems frame_simps \<open>what an operation leaves unchanged\<close>
named_theorems buf_simps \<open>lengths and elements of byte buffers\<close>

section \<open>Byte buffers\<close>

text \<open>\<open>slice off n bs\<close> reads \<open>n\<close> bytes at \<open>off\<close>; \<open>blit off src dst\<close> is \<open>memmove(dst + off, src, length src)\<close>
  between two different arrays.\<close>

definition slice :: "nat \<Rightarrow> nat \<Rightarrow> 'a list \<Rightarrow> 'a list" where
  "slice off n bs = take n (drop off bs)"

definition blit :: "nat \<Rightarrow> 'a list \<Rightarrow> 'a list \<Rightarrow> 'a list" where
  "blit off src dst = take off dst @ src @ drop (off + length src) dst"

lemma length_slice [buf_simps]: "off + n \<le> length bs \<Longrightarrow> length (slice off n bs) = n"
  by (simp add: slice_def)

lemma length_blit [buf_simps]:
  "off + length src \<le> length dst \<Longrightarrow> length (blit off src dst) = length dst"
  by (simp add: blit_def)

lemma nth_slice [buf_simps]: "off + n \<le> length bs \<Longrightarrow> i < n \<Longrightarrow> slice off n bs ! i = bs ! (off + i)"
  by (simp add: slice_def)

lemma nth_blit:
  assumes "off + length src \<le> length dst" "i < length dst"
  shows "blit off src dst ! i = (if off \<le> i \<and> i < off + length src then src ! (i - off) else dst ! i)"
  using assms by (auto simp: blit_def nth_append min_def)

lemma slice_blit_same [buf_simps]:
  "off + length src \<le> length dst \<Longrightarrow> slice off (length src) (blit off src dst) = src"
  by (simp add: slice_def blit_def)

lemma slice_blit_other [buf_simps]:
  assumes "off + length src \<le> length dst" "o2 + n \<le> length dst" "o2 + n \<le> off \<or> off + length src \<le> o2"
  shows "slice o2 n (blit off src dst) = slice o2 n dst"
proof (rule nth_equalityI)
  show "length (slice o2 n (blit off src dst)) = length (slice o2 n dst)"
    using assms by (simp add: buf_simps)
next
  fix i assume "i < length (slice o2 n (blit off src dst))"
  then have "i < n" using assms by (simp add: buf_simps)
  then show "slice o2 n (blit off src dst) ! i = slice o2 n dst ! i"
    using assms by (auto simp: buf_simps nth_blit)
qed

lemma slice_all [simp]: "n = length bs \<Longrightarrow> slice 0 n bs = bs"
  by (simp add: slice_def)

lemma slice_append_left [simp]: "length xs = n \<Longrightarrow> slice 0 n (xs @ ys) = xs"
  by (simp add: slice_def)

lemma slice_append_right: "length xs \<le> off \<Longrightarrow> slice off n (xs @ ys) = slice (off - length xs) n ys"
  by (simp add: slice_def)

lemma slice_slice: "o2 + m \<le> n \<Longrightarrow> slice o2 m (slice off n bs) = slice (off + o2) m bs"
  by (simp add: slice_def drop_take add.commute min_def)

section \<open>Little-endian encoding\<close>

text \<open>The machine is little-endian: \<open>to_le n w\<close> are the low \<open>n\<close> bytes of \<open>w\<close>, lowest first.\<close>

primrec to_le :: "nat \<Rightarrow> 'a::len word \<Rightarrow> u8 list" where
  "to_le 0 w = []"
| "to_le (Suc n) w = ucast w # to_le n (drop_bit 8 w)"

primrec of_le :: "u8 list \<Rightarrow> 'a::len word" where
  "of_le [] = 0"
| "of_le (b # bs) = ucast b OR push_bit 8 (of_le bs)"

lemma length_to_le [simp, buf_simps]: "length (to_le n w) = n"
  by (induction n arbitrary: w) auto

lemma bit_of_le:
  "bit (of_le bs :: 'a::len word) i \<longleftrightarrow> i < LENGTH('a) \<and> i div 8 < length bs \<and> bit (bs ! (i div 8)) (i mod 8)"
proof (induction bs arbitrary: i)
  case Nil
  then show ?case by simp
next
  case (Cons b bs)
  show ?case
  proof (cases "i < 8")
    case True
    then show ?thesis
      by (auto simp: bit_simps)
  next
    case False
    then have *: "\<not> bit b i" using bit_imp_le_length[of b i] by auto
    have "i div 8 = Suc ((i - 8) div 8)" "i mod 8 = (i - 8) mod 8"
      using False by (simp_all add: le_div_geq le_mod_geq)
    then show ?thesis
      using False * Cons.IH[of "i - 8"] by (auto simp: bit_simps)
  qed
qed

lemma nth_to_le: "i < n \<Longrightarrow> to_le n w ! i = ucast (drop_bit (8 * i) w)"
proof (induction n arbitrary: w i)
  case 0
  then show ?case by simp
next
  case (Suc n)
  then show ?case by (cases i) (simp_all add: drop_bit_drop_bit ac_simps)
qed

lemma bit_nth_to_le:
  fixes w :: "'a::len word"
  shows "i < n \<Longrightarrow> k < 8 \<Longrightarrow> bit (to_le n w ! i) k \<longleftrightarrow> bit w (8 * i + k)"
  by (simp add: nth_to_le bit_simps)

lemma of_le_to_le:
  fixes w :: "'a::len word"
  assumes "LENGTH('a) \<le> 8 * n"
  shows "of_le (to_le n w) = w"
proof (rule bit_word_eqI)
  fix i assume i: "i < LENGTH('a)"
  then have "i div 8 < n" using assms by (simp add: div_less_iff_less_mult)
  then show "bit (of_le (to_le n w) :: 'a word) i \<longleftrightarrow> bit w i"
    using i by (simp add: bit_of_le bit_nth_to_le)
qed

lemma to_le_of_le:
  assumes "length bs = n" "8 * n \<le> LENGTH('a::len)"
  shows "to_le n (of_le bs :: 'a word) = bs"
proof (rule nth_equalityI)
  show "length (to_le n (of_le bs :: 'a word)) = length bs" using assms by simp
next
  fix i assume "i < length (to_le n (of_le bs :: 'a word))"
  then have i: "i < n" by simp
  show "to_le n (of_le bs :: 'a word) ! i = bs ! i"
  proof (rule bit_word_eqI)
    fix k assume "k < LENGTH(8)"
    then have k: "k < 8" by simp
    then have "8 * i + k < LENGTH('a)" using i assms by linarith
    then show "bit (to_le n (of_le bs :: 'a word) ! i) k \<longleftrightarrow> bit (bs ! i) k"
      using i k assms by (simp add: bit_nth_to_le bit_of_le)
  qed
qed

lemma of_le_to_le32 [simp]: "of_le (to_le 4 w) = (w :: u32)"
  by (rule of_le_to_le) simp

lemma of_le_to_le16 [simp]: "of_le (to_le 2 w) = (w :: u16)"
  by (rule of_le_to_le) simp

text \<open>A 16 or 32-bit field inside a byte buffer.\<close>

definition rd16 :: "nat \<Rightarrow> u8 list \<Rightarrow> u16" where "rd16 off bs = of_le (slice off 2 bs)"
definition rd32 :: "nat \<Rightarrow> u8 list \<Rightarrow> u32" where "rd32 off bs = of_le (slice off 4 bs)"
definition wr32 :: "nat \<Rightarrow> u32 \<Rightarrow> u8 list \<Rightarrow> u8 list" where "wr32 off w bs = blit off (to_le 4 w) bs"

lemma length_wr32 [buf_simps]: "off + 4 \<le> length bs \<Longrightarrow> length (wr32 off w bs) = length bs"
  by (simp add: wr32_def length_blit)

lemma rd32_wr32_same [buf_simps]: "off + 4 \<le> length bs \<Longrightarrow> rd32 off (wr32 off w bs) = w"
  using slice_blit_same[of off "to_le 4 w" bs] by (simp add: rd32_def wr32_def)

lemma rd32_wr32_other [buf_simps]:
  "off + 4 \<le> length bs \<Longrightarrow> o2 + 4 \<le> length bs \<Longrightarrow> o2 + 4 \<le> off \<or> off + 4 \<le> o2 \<Longrightarrow>
   rd32 o2 (wr32 off w bs) = rd32 o2 bs"
  by (simp add: rd32_def wr32_def slice_blit_other)

section \<open>Options\<close>

lemma bind_SomeI: "m = Some a \<Longrightarrow> Option.bind m f = f a"
  by simp

lemma findSomeD: "find P xs = Some x \<Longrightarrow> P x \<and> x \<in> set xs"
  by (induction xs) (auto split: if_splits)

lemma unat_of_nat_u32: "k < 2 ^ 32 \<Longrightarrow> unat (of_nat k :: u32) = k"
  by (simp add: unat_of_nat take_bit_eq_mod)

end
