(* ===== verification/Machine.thy ===== *)
theory Machine
  imports Prelude
begin

text \<open>
  The machine under the kernel: port input and output (cpu/ports.c and the inline assembly of
  include/x86.h), the text-mode video memory, and the byte routines of libc/mem.c.

  What a device answers on a port is the environment's choice: \<open>env_in p n\<close> is the \<open>n\<close>-th byte
  read from port \<open>p\<close>. The one exception is the VGA cursor register file behind ports 0x3d4 and
  0x3d5, which reads back what was written. \<open>out_reg\<close> is the last byte written to each port and
  \<open>out_log\<close> the whole output, newest first.
\<close>

unbundle bit_operations_syntax

record machine =
  vidmem :: "int \<Rightarrow> u8"
  crtc_reg :: "u8 \<Rightarrow> u8"
  out_reg :: "u16 \<Rightarrow> u8"
  out_log :: "(u16 \<times> u8) list"
  env_in :: "u16 \<Rightarrow> nat \<Rightarrow> u8"
  in_pos :: "u16 \<Rightarrow> nat"

section \<open>Ports\<close>

definition port_byte_out :: "u16 \<Rightarrow> u8 \<Rightarrow> 'a machine_scheme \<Rightarrow> 'a machine_scheme" where
  "port_byte_out p v s =
     (let s1 = s\<lparr>out_reg := (out_reg s)(p := v), out_log := (p, v) # out_log s\<rparr>
      in if p = 0x3d5 then s1\<lparr>crtc_reg := (crtc_reg s)(out_reg s 0x3d4 := v)\<rparr> else s1)"

definition port_byte_in :: "u16 \<Rightarrow> 'a machine_scheme \<Rightarrow> u8 \<times> 'a machine_scheme" where
  "port_byte_in p s =
     (if p = 0x3d5 then (crtc_reg s (out_reg s 0x3d4), s)
      else (env_in s p (in_pos s p), s\<lparr>in_pos := (in_pos s)(p := Suc (in_pos s p))\<rparr>))"

text \<open>\<open>inb\<close> and \<open>outb\<close> of include/x86.h are the same two instructions.\<close>

definition inb :: "u16 \<Rightarrow> 'a machine_scheme \<Rightarrow> u8 \<times> 'a machine_scheme" where
  "inb p s = port_byte_in p s"

definition outb :: "u16 \<Rightarrow> u8 \<Rightarrow> 'a machine_scheme \<Rightarrow> 'a machine_scheme" where
  "outb p v s = port_byte_out p v s"

lemma port_byte_out_frame [simp, frame_simps]:
  "vidmem (port_byte_out p v s) = vidmem s"
  "env_in (port_byte_out p v s) = env_in s"
  "in_pos (port_byte_out p v s) = in_pos s"
  "out_reg (port_byte_out p v s) = (out_reg s)(p := v)"
  "out_log (port_byte_out p v s) = (p, v) # out_log s"
  "machine.more (port_byte_out p v s) = machine.more s"
  by (simp_all add: port_byte_out_def Let_def)

lemma crtc_reg_port_byte_out [simp]:
  "crtc_reg (port_byte_out p v s) =
     (if p = 0x3d5 then (crtc_reg s)(out_reg s 0x3d4 := v) else crtc_reg s)"
  by (simp add: port_byte_out_def Let_def)

lemma port_byte_in_crtc [simp]: "port_byte_in 0x3d5 s = (crtc_reg s (out_reg s 0x3d4), s)"
  by (simp add: port_byte_in_def)

section \<open>libc/mem.c\<close>

text \<open>Byte memory is a function of the address; the loops copy upwards, one byte at a time.\<close>

primrec memory_copy :: "int \<Rightarrow> int \<Rightarrow> nat \<Rightarrow> (int \<Rightarrow> u8) \<Rightarrow> int \<Rightarrow> u8" where
  "memory_copy source dest 0 m = m"
| "memory_copy source dest (Suc i) m =
     (let m1 = memory_copy source dest i m in m1(dest + int i := m1 (source + int i)))"

primrec memory_set :: "int \<Rightarrow> u8 \<Rightarrow> nat \<Rightarrow> (int \<Rightarrow> u8) \<Rightarrow> int \<Rightarrow> u8" where
  "memory_set dest val 0 m = m"
| "memory_set dest val (Suc len) m = memory_set (dest + 1) val len (m(dest := val))"

lemma memory_copy_disjoint:
  assumes "dest + int n \<le> source \<or> source + int n \<le> dest"
  shows "memory_copy source dest n m a =
           (if dest \<le> a \<and> a < dest + int n then m (source + (a - dest)) else m a)"
  using assms
proof (induction n arbitrary: a)
  case 0
  then show ?case by auto
next
  case (Suc n)
  then have "memory_copy source dest n m a = (if dest \<le> a \<and> a < dest + int n then m (source + (a - dest)) else m a)" for a
    by auto
  then show ?case using Suc.prems by (auto simp: Let_def)
qed

lemma memory_set_apply:
  "memory_set dest val n m a = (if dest \<le> a \<and> a < dest + int n then val else m a)"
  by (induction n arbitrary: dest m) auto

text \<open>
  The early bump allocator of libc/mem.c: \<open>align = 1\<close> rounds the bump pointer up to a page when
  it has any bit at or above the page size. The result is the address handed out and the new
  pointer; the physical address written through \<open>phys_addr\<close> is the same address.
\<close>

definition kmalloc :: "u32 \<Rightarrow> bool \<Rightarrow> u32 \<Rightarrow> u32 \<times> u32" where
  "kmalloc size0 align free_mem_addr =
     (let a = (if align \<and> free_mem_addr AND 0xFFFFF000 \<noteq> 0
               then (free_mem_addr AND 0xFFFFF000) + 0x1000 else free_mem_addr)
      in (a, a + size0))"

end
