(* ===== verification/Screen.thy ===== *)
theory Screen
  imports Machine "HOL-Library.Signed_Division"
begin

text \<open>
  drivers/screen.c: the text console. The screen is 25 rows of 80 cells of two bytes (character,
  attribute) at the start of video memory; the cursor lives in the VGA registers 14 and 15.
  Offsets are C \<open>int\<close>s, so they are HOL integers with C's division (\<open>sdiv\<close> truncates to zero).
\<close>

unbundle bit_operations_syntax

definition MAX_ROWS :: int where "MAX_ROWS = 25"
definition MAX_COLS :: int where "MAX_COLS = 80"
definition WHITE_ON_BLACK :: u8 where "WHITE_ON_BLACK = 0x0f"
definition RED_ON_BLACK :: u8 where "RED_ON_BLACK = 0x0c"

lemmas screen_consts = MAX_ROWS_def MAX_COLS_def WHITE_ON_BLACK_def RED_ON_BLACK_def

definition get_offset :: "int \<Rightarrow> int \<Rightarrow> int" where
  "get_offset col row = 2 * (row * MAX_COLS + col)"

definition get_offset_row :: "int \<Rightarrow> int" where
  "get_offset_row offset = offset sdiv (2 * MAX_COLS)"

definition get_offset_col :: "int \<Rightarrow> int" where
  "get_offset_col offset = (offset - get_offset_row offset * 2 * MAX_COLS) sdiv 2"

definition get_cursor_offset :: "'a machine_scheme \<Rightarrow> int \<times> 'a machine_scheme" where
  "get_cursor_offset s =
     (let s1 = port_byte_out 0x3d4 14 s;
          (hi, s2) = port_byte_in 0x3d5 s1;
          s3 = port_byte_out 0x3d4 15 s2;
          (lo, s4) = port_byte_in 0x3d5 s3
      in ((push_bit 8 (uint hi) + uint lo) * 2, s4))"

definition set_cursor_offset :: "int \<Rightarrow> 'a machine_scheme \<Rightarrow> 'a machine_scheme" where
  "set_cursor_offset offset s =
     (let off = offset sdiv 2;
          s1 = port_byte_out 0x3d4 14 s;
          s2 = port_byte_out 0x3d5 (word_of_int (drop_bit 8 off)) s1;
          s3 = port_byte_out 0x3d4 15 s2
      in port_byte_out 0x3d5 (word_of_int (off AND 0xff)) s3)"

text \<open>The scroll loop of \<open>print_char\<close>: rows 1 to 24 move up one row, the last row is zeroed.\<close>

primrec scroll_rows :: "nat \<Rightarrow> (int \<Rightarrow> u8) \<Rightarrow> int \<Rightarrow> u8" where
  "scroll_rows 0 m = m"
| "scroll_rows (Suc i) m =
     memory_copy (get_offset 0 (int (Suc i))) (get_offset 0 (int (Suc i) - 1)) (nat (MAX_COLS * 2))
       (scroll_rows i m)"

primrec zero_bytes :: "int \<Rightarrow> nat \<Rightarrow> (int \<Rightarrow> u8) \<Rightarrow> int \<Rightarrow> u8" where
  "zero_bytes base 0 m = m"
| "zero_bytes base (Suc i) m = (zero_bytes base i m)(base + int i := 0)"

definition scroll :: "(int \<Rightarrow> u8) \<Rightarrow> int \<Rightarrow> u8" where
  "scroll m = zero_bytes (get_offset 0 (MAX_ROWS - 1)) (nat (MAX_COLS * 2)) (scroll_rows (nat MAX_ROWS - 1) m)"

definition print_char :: "u8 \<Rightarrow> int \<Rightarrow> int \<Rightarrow> u8 \<Rightarrow> 'a machine_scheme \<Rightarrow> int \<times> 'a machine_scheme" where
  "print_char c col row attr0 s0 =
     (let attr = (if attr0 = 0 then WHITE_ON_BLACK else attr0);
          (offset, s) = (if col \<ge> 0 \<and> row \<ge> 0 then (get_offset col row, s0) else get_cursor_offset s0);
          (row1, offset1, s1) =
            (if c = 10 then (get_offset_row offset, get_offset 0 (get_offset_row offset + 1), s)
             else if c = 8 then (row, offset, s\<lparr>vidmem := (vidmem s)(offset := 0x20, offset + 1 := attr)\<rparr>)
             else (row, offset + 2, s\<lparr>vidmem := (vidmem s)(offset := c, offset + 1 := attr)\<rparr>));
          (offset2, s2) =
            (if offset1 \<ge> MAX_COLS * MAX_ROWS * 2
             then (offset1 - 2 * MAX_COLS, s1\<lparr>vidmem := scroll (vidmem s1)\<rparr>)
             else (offset1, s1))
      in if col \<ge> MAX_COLS \<or> row1 \<ge> MAX_ROWS
         then (get_offset col row1,
               s2\<lparr>vidmem := (vidmem s2)(2 * MAX_ROWS * MAX_COLS - 2 := 0x45,
                                         2 * MAX_ROWS * MAX_COLS - 1 := RED_ON_BLACK)\<rparr>)
         else (offset2, set_cursor_offset offset2 s2))"

text \<open>\<open>kprint_at\<close> runs over the message up to its terminating zero; the message here is the bytes
  before it.\<close>

primrec kprint_loop :: "u8 list \<Rightarrow> int \<Rightarrow> int \<Rightarrow> 'a machine_scheme \<Rightarrow> 'a machine_scheme" where
  "kprint_loop [] col row s = s"
| "kprint_loop (c # cs) col row s =
     (let (offset, s1) = print_char c col row RED_ON_BLACK s
      in kprint_loop cs (get_offset_col offset) (get_offset_row offset) s1)"

definition kprint_at :: "u8 list \<Rightarrow> int \<Rightarrow> int \<Rightarrow> 'a machine_scheme \<Rightarrow> 'a machine_scheme" where
  "kprint_at message col row s =
     (if col \<ge> 0 \<and> row \<ge> 0 then kprint_loop message col row s
      else let (offset, s1) = get_cursor_offset s
           in kprint_loop message (get_offset_col offset) (get_offset_row offset) s1)"

definition cstr :: "string \<Rightarrow> u8 list" where
  "cstr cs = map of_char cs"

definition kprint :: "string \<Rightarrow> 'a machine_scheme \<Rightarrow> 'a machine_scheme" where
  "kprint message s = kprint_at (cstr message) (-1) (-1) s"

definition kprint_backspace :: "'a machine_scheme \<Rightarrow> 'a machine_scheme" where
  "kprint_backspace s =
     (let (cur, s1) = get_cursor_offset s; offset = cur - 2
      in snd (print_char 8 (get_offset_col offset) (get_offset_row offset) WHITE_ON_BLACK s1))"

definition kputchar :: "u8 \<Rightarrow> 'a machine_scheme \<Rightarrow> 'a machine_scheme" where
  "kputchar c s = snd (print_char c (-1) (-1) WHITE_ON_BLACK s)"

primrec kputs :: "u8 list \<Rightarrow> 'a machine_scheme \<Rightarrow> 'a machine_scheme" where
  "kputs [] s = s"
| "kputs (c # cs) s = kputs cs (kputchar c s)"

text \<open>\<open>clear_screen\<close>: every cell becomes a white blank.\<close>

primrec clear_cells :: "nat \<Rightarrow> (int \<Rightarrow> u8) \<Rightarrow> int \<Rightarrow> u8" where
  "clear_cells 0 m = m"
| "clear_cells (Suc i) m = (clear_cells i m)(int i * 2 := 0x20, int i * 2 + 1 := WHITE_ON_BLACK)"

definition clear_screen :: "'a machine_scheme \<Rightarrow> 'a machine_scheme" where
  "clear_screen s =
     set_cursor_offset (get_offset 0 0) (s\<lparr>vidmem := clear_cells (nat (MAX_COLS * MAX_ROWS)) (vidmem s)\<rparr>)"

section \<open>Number and format printing\<close>

text \<open>
  \<open>kprintint\<close> collects the digits of \<open>x\<close> in \<open>buf[16]\<close>, lowest first; the first argument of
  \<open>kdigits\<close> is the room left in the buffer, and running out of it is a write past its end.
\<close>

definition digit_char :: "nat \<Rightarrow> u8" where
  "digit_char d = cstr ''0123456789abcdef'' ! d"

fun kdigits :: "nat \<Rightarrow> u32 \<Rightarrow> u32 \<Rightarrow> u8 list option" where
  "kdigits 0 x base = None"
| "kdigits (Suc room) x base =
     (if base = 0 \<or> 16 < base then None
      else let d = digit_char (unat (x mod base)); x' = x div base
           in if x' \<noteq> 0 then map_option ((#) d) (kdigits room x' base) else Some [d])"

definition kprintint :: "u32 \<Rightarrow> u32 \<Rightarrow> bool \<Rightarrow> 'a machine_scheme \<Rightarrow> 'a machine_scheme option" where
  "kprintint xx base sign s =
     (let neg = sign \<and> sint xx < 0; x = (if neg then - xx else xx)
      in do {
        ds \<leftarrow> kdigits 16 x base;
        buf \<leftarrow> (if neg then (if length ds < 16 then Some (ds @ [0x2d]) else None) else Some ds);
        Some (kputs (rev buf) s)
      })"

text \<open>The variable arguments of \<open>kprintf\<close>: an \<open>int\<close> or a string. Fetching an argument that was not
  passed, or of the other kind, is undefined.\<close>

datatype karg = KInt u32 | KStr "u8 list"

text \<open>
  The format is the bytes before its terminating zero. A \<open>%\<close> that ends the format makes the code
  step over the terminating zero and read on, hence \<open>None\<close>. An unknown conversion prints nothing.
\<close>

fun kprintf_loop :: "u8 list \<Rightarrow> karg list \<Rightarrow> 'a machine_scheme \<Rightarrow> 'a machine_scheme option" where
  "kprintf_loop [] args s = Some s"
| "kprintf_loop [c] args s = (if c = 0x25 then None else Some (kputchar c s))"
| "kprintf_loop (c # f # fmt) args s =
     (if c \<noteq> 0x25 then kprintf_loop (f # fmt) args (kputchar c s)
      else if f = 0x73 then
        (case args of KStr str # as \<Rightarrow> kprintf_loop fmt as (kputs str s) | _ \<Rightarrow> None)
      else if f = 0x63 then
        (case args of KInt i # as \<Rightarrow> kprintf_loop fmt as (kputchar (ucast i) s) | _ \<Rightarrow> None)
      else if f = 0x64 then
        (case args of KInt i # as \<Rightarrow> Option.bind (kprintint i 10 True s) (kprintf_loop fmt as) | _ \<Rightarrow> None)
      else if f = 0x70 then
        (case args of KInt i # as \<Rightarrow> Option.bind (kprintint i 10 False s) (kprintf_loop fmt as) | _ \<Rightarrow> None)
      else if f = 0x78 then
        (case args of KInt i # as \<Rightarrow> Option.bind (kprintint i 16 False s) (kprintf_loop fmt as) | _ \<Rightarrow> None)
      else kprintf_loop fmt args s)"

definition kprintf :: "string \<Rightarrow> karg list \<Rightarrow> 'a machine_scheme \<Rightarrow> 'a machine_scheme option" where
  "kprintf fmt args s = kprintf_loop (cstr fmt) args (kprint ''kern:'' s)"

section \<open>The cursor\<close>

definition cursor :: "'a machine_scheme \<Rightarrow> int" where
  "cursor s = 2 * (256 * uint (crtc_reg s 14) + uint (crtc_reg s 15))"

lemma sdiv_nonneg [simp]: "0 \<le> (a::int) \<Longrightarrow> 0 < b \<Longrightarrow> a sdiv b = a div b"
  by (simp add: signed_divide_int_def sgn_if)

lemma cursor_vidmem_update [simp]: "cursor (s\<lparr>vidmem := v\<rparr>) = cursor s"
  by (simp add: cursor_def)

lemma get_cursor_offset_fst [simp]: "fst (get_cursor_offset s) = cursor s"
  by (simp add: get_cursor_offset_def cursor_def push_bit_eq_mult Let_def)

lemma get_cursor_offset_snd [simp]:
  "vidmem (snd (get_cursor_offset s)) = vidmem s"
  "crtc_reg (snd (get_cursor_offset s)) = crtc_reg s"
  "env_in (snd (get_cursor_offset s)) = env_in s"
  "in_pos (snd (get_cursor_offset s)) = in_pos s"
  "machine.more (snd (get_cursor_offset s)) = machine.more s"
  by (simp_all add: get_cursor_offset_def Let_def)

lemma set_cursor_offset_frame [simp]:
  "vidmem (set_cursor_offset off s) = vidmem s"
  "env_in (set_cursor_offset off s) = env_in s"
  "in_pos (set_cursor_offset off s) = in_pos s"
  "machine.more (set_cursor_offset off s) = machine.more s"
  by (simp_all add: set_cursor_offset_def Let_def)

lemma cursor_set_cursor_offset:
  assumes "0 \<le> off" "off < 131072" "even off"
  shows "cursor (set_cursor_offset off s) = off"
proof -
  define k where "k = off div 2"
  have k: "0 \<le> k" "k < 65536" "off = 2 * k" using assms by (auto simp: k_def)
  have hi: "uint (word_of_int (drop_bit 8 k) :: u8) = k div 256"
    using k by (simp add: uint_word_of_int drop_bit_eq_div)
  have lo: "uint (word_of_int (k AND 255) :: u8) = k mod 256"
    using take_bit_eq_mask[of 8 k] by (simp add: uint_word_of_int take_bit_eq_mod mask_eq_exp_minus_1)
  show ?thesis
    using k hi lo by (simp add: cursor_def set_cursor_offset_def Let_def)
qed

section \<open>Memory safety of the console\<close>

text \<open>The cursor is on the screen, at an even offset.\<close>

definition on_screen :: "int \<Rightarrow> bool" where
  "on_screen off \<longleftrightarrow> 0 \<le> off \<and> off < 4000 \<and> even off"

lemma scroll_rows_apply:
  "scroll_rows i m a = (if 0 \<le> a \<and> a < 160 * int i then m (a + 160) else m a)"
proof (induction i arbitrary: a)
  case 0
  then show ?case by auto
next
  case (Suc i)
  have "scroll_rows (Suc i) m a =
    (if 160 * int i \<le> a \<and> a < 160 * int i + 160
     then scroll_rows i m (160 * (int i + 1) + (a - 160 * int i)) else scroll_rows i m a)"
    by (simp add: memory_copy_disjoint get_offset_def screen_consts algebra_simps)
  then show ?case using Suc.IH by (auto simp: algebra_simps)
qed

lemma zero_bytes_apply:
  "zero_bytes base n m a = (if base \<le> a \<and> a < base + int n then 0 else m a)"
  by (induction n) auto

lemma scroll_apply:
  "scroll m a = (if 0 \<le> a \<and> a < 3840 then m (a + 160) else if 3840 \<le> a \<and> a < 4000 then 0 else m a)"
  by (simp add: scroll_def zero_bytes_apply scroll_rows_apply get_offset_def screen_consts)

text \<open>The specification of one character: the new offset and the new video memory.\<close>

definition put_char :: "u8 \<Rightarrow> u8 \<Rightarrow> int \<Rightarrow> (int \<Rightarrow> u8) \<Rightarrow> int \<times> (int \<Rightarrow> u8)" where
  "put_char c attr off m =
     (let raw = (if c = 10 then 160 * (off div 160 + 1) else if c = 8 then off else off + 2);
          m1 = (if c = 10 then m else if c = 8 then m(off := 0x20, off + 1 := attr)
                else m(off := c, off + 1 := attr))
      in if raw \<ge> 4000 then (raw - 160, scroll m1) else (raw, m1))"

lemma put_char_on_screen: "on_screen off \<Longrightarrow> on_screen (fst (put_char c attr off m))"
  by (auto simp: put_char_def on_screen_def Let_def)

lemma put_char_safe:
  "on_screen off \<Longrightarrow> a < 0 \<or> 4000 \<le> a \<Longrightarrow> snd (put_char c attr off m) a = m a"
  by (auto simp: put_char_def on_screen_def Let_def scroll_apply)

definition char_pos :: "int \<Rightarrow> int \<Rightarrow> 'a machine_scheme \<Rightarrow> int" where
  "char_pos col row s = (if 0 \<le> col \<and> 0 \<le> row then get_offset col row else cursor s)"

lemma print_char_eq:
  assumes pos: "on_screen (char_pos col row s)" and range: "col < 80" "row < 25" and attr: "attr \<noteq> 0"
  shows "fst (print_char c col row attr s) = fst (put_char c attr (char_pos col row s) (vidmem s))"
    and "vidmem (snd (print_char c col row attr s)) = snd (put_char c attr (char_pos col row s) (vidmem s))"
    and "cursor (snd (print_char c col row attr s)) = fst (put_char c attr (char_pos col row s) (vidmem s))"
    and "machine.more (snd (print_char c col row attr s)) = machine.more s"
    and "env_in (snd (print_char c col row attr s)) = env_in s"
    and "in_pos (snd (print_char c col row attr s)) = in_pos s"
proof -
  define off where "off = char_pos col row s"
  obtain s1 where s1: "(if col \<ge> 0 \<and> row \<ge> 0 then (get_offset col row, s) else get_cursor_offset s) = (off, s1)"
    "vidmem s1 = vidmem s" "machine.more s1 = machine.more s" "env_in s1 = env_in s" "in_pos s1 = in_pos s"
    by (cases "col \<ge> 0 \<and> row \<ge> 0")
      (auto simp: off_def char_pos_def prod_eq_iff intro!: exI[of _ "snd (get_cursor_offset s)"])
  have off: "0 \<le> off" "off < 4000" "even off" using pos by (auto simp: off_def on_screen_def)
  have row_off: "get_offset_row off < 25"
    using off by (simp add: get_offset_row_def screen_consts)
  define s' where "s' = snd (print_char c col row attr s)"
  have same: "s1\<lparr>vidmem := vidmem s\<rparr> = s1" by (simp add: s1(2)[symmetric])
  have fin: "print_char c col row attr s =
      (let (o2, v) = put_char c attr off (vidmem s) in (o2, set_cursor_offset o2 (s1\<lparr>vidmem := v\<rparr>)))"
    using range row_off off s1(2) attr unfolding print_char_def s1(1)
    by (simp add: put_char_def Let_def screen_consts get_offset_row_def get_offset_def same)
  have cur: "cursor (set_cursor_offset o2 x) = o2" if "o2 = fst (put_char c attr off (vidmem s))" for o2 x
    using put_char_on_screen[of off c attr "vidmem s"] pos that
    by (intro cursor_set_cursor_offset) (auto simp: off_def on_screen_def)
  show "fst (print_char c col row attr s) = fst (put_char c attr (char_pos col row s) (vidmem s))"
    "vidmem (snd (print_char c col row attr s)) = snd (put_char c attr (char_pos col row s) (vidmem s))"
    "cursor (snd (print_char c col row attr s)) = fst (put_char c attr (char_pos col row s) (vidmem s))"
    "machine.more (snd (print_char c col row attr s)) = machine.more s"
    "env_in (snd (print_char c col row attr s)) = env_in s"
    "in_pos (snd (print_char c col row attr s)) = in_pos s"
    unfolding fin off_def[symmetric] using s1 cur by (auto simp: split_beta)
qed

lemma offset_col_row:
  assumes "on_screen off"
  shows "get_offset (get_offset_col off) (get_offset_row off) = off"
    and "0 \<le> get_offset_col off" "get_offset_col off < 80" "0 \<le> get_offset_row off" "get_offset_row off < 25"
proof -
  have row: "get_offset_row off = off div 160"
    using assms by (simp add: get_offset_row_def screen_consts on_screen_def)
  have m: "off - off div 160 * 160 = off mod 160" by (simp add: minus_div_mult_eq_mod)
  then have col: "get_offset_col off = off mod 160 div 2"
    by (simp add: get_offset_col_def row screen_consts mult.assoc)
  have ev: "even (off mod 160)" using assms by (simp add: on_screen_def dvd_mod)
  have "2 * (off mod 160 div 2) = off mod 160" using ev by simp
  then show "get_offset (get_offset_col off) (get_offset_row off) = off"
    by (simp add: get_offset_def row col screen_consts algebra_simps)
  show "0 \<le> get_offset_col off" "get_offset_col off < 80" "0 \<le> get_offset_row off" "get_offset_row off < 25"
    using assms by (auto simp: row col on_screen_def)
qed

text \<open>The specification of a whole message.\<close>

primrec put_chars :: "u8 list \<Rightarrow> u8 \<Rightarrow> int \<Rightarrow> (int \<Rightarrow> u8) \<Rightarrow> int \<times> (int \<Rightarrow> u8)" where
  "put_chars [] attr off m = (off, m)"
| "put_chars (c # cs) attr off m = (let (o1, m1) = put_char c attr off m in put_chars cs attr o1 m1)"

lemma put_chars_safe:
  assumes "on_screen off"
  shows "on_screen (fst (put_chars cs attr off m)) \<and>
    (\<forall>a. a < 0 \<or> 4000 \<le> a \<longrightarrow> snd (put_chars cs attr off m) a = m a)"
  using assms
proof (induction cs arbitrary: off m)
  case Nil
  then show ?case by simp
next
  case (Cons c cs)
  then show ?case
    using put_char_on_screen[OF Cons.prems] put_char_safe[OF Cons.prems]
    by (auto simp: split_beta)
qed

definition screen_frame :: "'a machine_scheme \<Rightarrow> 'a machine_scheme \<Rightarrow> bool" where
  "screen_frame s s' \<longleftrightarrow> machine.more s' = machine.more s \<and> env_in s' = env_in s \<and> in_pos s' = in_pos s"

lemma print_char_at_cursor:
  assumes "on_screen off"
  shows "fst (print_char c (get_offset_col off) (get_offset_row off) RED_ON_BLACK s) = fst (put_char c RED_ON_BLACK off (vidmem s))"
    and "vidmem (snd (print_char c (get_offset_col off) (get_offset_row off) RED_ON_BLACK s)) = snd (put_char c RED_ON_BLACK off (vidmem s))"
    and "cursor (snd (print_char c (get_offset_col off) (get_offset_row off) RED_ON_BLACK s)) = fst (put_char c RED_ON_BLACK off (vidmem s))"
    and "screen_frame s (snd (print_char c (get_offset_col off) (get_offset_row off) RED_ON_BLACK s))"
proof -
  have pos: "char_pos (get_offset_col off) (get_offset_row off) s = off"
    using offset_col_row[OF assms] by (simp add: char_pos_def)
  have attr: "RED_ON_BLACK \<noteq> 0" by (simp add: screen_consts)
  note eqs = print_char_eq[of "get_offset_col off" "get_offset_row off" s RED_ON_BLACK c, unfolded pos,
      OF assms offset_col_row(3,5)[OF assms] attr]
  show "fst (print_char c (get_offset_col off) (get_offset_row off) RED_ON_BLACK s) = fst (put_char c RED_ON_BLACK off (vidmem s))"
    "vidmem (snd (print_char c (get_offset_col off) (get_offset_row off) RED_ON_BLACK s)) = snd (put_char c RED_ON_BLACK off (vidmem s))"
    "cursor (snd (print_char c (get_offset_col off) (get_offset_row off) RED_ON_BLACK s)) = fst (put_char c RED_ON_BLACK off (vidmem s))"
    "screen_frame s (snd (print_char c (get_offset_col off) (get_offset_row off) RED_ON_BLACK s))"
    using eqs by (simp_all add: screen_frame_def)
qed

lemma kprint_loop_eq:
  assumes "on_screen off" "cursor s = off"
  shows "vidmem (kprint_loop cs (get_offset_col off) (get_offset_row off) s) = snd (put_chars cs RED_ON_BLACK off (vidmem s)) \<and>
    cursor (kprint_loop cs (get_offset_col off) (get_offset_row off) s) = fst (put_chars cs RED_ON_BLACK off (vidmem s)) \<and>
    screen_frame s (kprint_loop cs (get_offset_col off) (get_offset_row off) s)"
  using assms
proof (induction cs arbitrary: off s)
  case Nil
  then show ?case by (simp add: screen_frame_def)
next
  case (Cons c cs)
  note step = print_char_at_cursor[OF Cons.prems(1), where c = c and s = s]
  have "on_screen (fst (put_char c RED_ON_BLACK off (vidmem s)))"
    using Cons.prems(1) by (rule put_char_on_screen)
  from Cons.IH[OF this step(3)] show ?case
    using step by (simp add: split_beta screen_frame_def)
qed

lemma kprint_eq:
  assumes "on_screen (cursor s)"
  shows "vidmem (kprint msg s) = snd (put_chars (cstr msg) RED_ON_BLACK (cursor s) (vidmem s))"
    and "cursor (kprint msg s) = fst (put_chars (cstr msg) RED_ON_BLACK (cursor s) (vidmem s))"
    and "screen_frame s (kprint msg s)"
proof -
  define s1 where "s1 = snd (get_cursor_offset s)"
  have c1: "cursor s1 = cursor s" by (simp add: s1_def cursor_def)
  have eq: "kprint msg s = kprint_loop (cstr msg) (get_offset_col (cursor s)) (get_offset_row (cursor s)) s1"
    by (simp add: kprint_def kprint_at_def split_beta s1_def)
  note k = kprint_loop_eq[OF assms c1, of "cstr msg"]
  show "vidmem (kprint msg s) = snd (put_chars (cstr msg) RED_ON_BLACK (cursor s) (vidmem s))"
    "cursor (kprint msg s) = fst (put_chars (cstr msg) RED_ON_BLACK (cursor s) (vidmem s))"
    "screen_frame s (kprint msg s)"
    using k by (simp_all add: eq s1_def screen_frame_def)
qed

end
