(* ===== verification/Ide.thy ===== *)
theory Ide
  imports Screen
begin

text \<open>
  drivers/ide.c: the IDE driver. Requests are the kernel's \<open>struct buf\<close>s, linked through \<open>qnext\<close>
  in a queue whose head is the request the controller is serving; the interrupt handler finishes
  the head and starts the next one; \<open>iderw\<close> enqueues a buffer and spins until it is synced.

  A buffer's address is a number: \<open>bufs s b\<close> is the struct at address \<open>b\<close> (0 to 29 are
  \<open>bcache.buf[]\<close>, 30 is \<open>bcache.head\<close>, see \<open>Bio\<close>), and a pointer that may be null is an option.

  The controller is the machine's: the registers 0x1f3 to 0x1f6 hold the sector number and the
  drive, 0x1f7 the command (the table in boot/start.c); the data port 0x1f0 transfers the 512
  bytes of the selected sector. What the status register answers is the environment's choice.
  While \<open>iderw\<close> spins, the only thing that happens is the disk interrupt.
\<close>

unbundle bit_operations_syntax

record buf =
  b_flags :: u32
  b_dev :: u32
  b_blockno :: u32
  b_refcnt :: u32
  b_prev :: nat
  b_next :: nat
  b_qnext :: "nat option"
  b_data :: "u8 list"

record ide = machine +
  disk :: "u32 \<Rightarrow> u32 \<Rightarrow> u8 list"
  bufs :: "nat \<Rightarrow> buf"
  idequeue :: "nat option"
  havedisk1 :: bool

definition BSIZE :: nat where "BSIZE = 512"
definition B_VALID :: u32 where "B_VALID = 2"
definition B_DIRTY :: u32 where "B_DIRTY = 4"
definition FSSIZE :: u32 where "FSSIZE = 1000"

lemmas ide_consts = BSIZE_def B_VALID_def B_DIRTY_def FSSIZE_def

definition upd_buf :: "nat \<Rightarrow> (buf \<Rightarrow> buf) \<Rightarrow> 'a ide_scheme \<Rightarrow> 'a ide_scheme" where
  "upd_buf b f s = s\<lparr>bufs := (bufs s)(b := f (bufs s b))\<rparr>"

section \<open>The controller\<close>

definition ata_drive :: "'a machine_scheme \<Rightarrow> u32" where
  "ata_drive s = ucast (drop_bit 4 (out_reg s 0x1f6)) AND 1"

definition ata_lba :: "'a machine_scheme \<Rightarrow> u32" where
  "ata_lba s = ucast (out_reg s 0x1f3) OR push_bit 8 (ucast (out_reg s 0x1f4))
     OR push_bit 16 (ucast (out_reg s 0x1f5)) OR push_bit 24 (ucast (out_reg s 0x1f6 AND 0x0f))"

definition outsl_data :: "u8 list \<Rightarrow> 'a ide_scheme \<Rightarrow> 'a ide_scheme" where
  "outsl_data bs s =
     (if out_reg s 0x1f7 = 0x30
      then s\<lparr>disk := (disk s)(ata_drive s := (disk s (ata_drive s))(ata_lba s := bs))\<rparr> else s)"

definition insl_data :: "'a ide_scheme \<Rightarrow> u8 list" where
  "insl_data s = disk s (ata_drive s) (ata_lba s)"

section \<open>The driver\<close>

text \<open>Spin until the status is "ready and not busy"; may spin for ever.\<close>

partial_function (option) idewait :: "bool \<Rightarrow> 'a machine_scheme \<Rightarrow> (int \<times> 'a machine_scheme) option" where
  [code]: "idewait checkerr s =
     (let r = fst (inb 0x1f7 s); s1 = snd (inb 0x1f7 s)
      in if r AND (0x80 OR 0x40) \<noteq> 0x40 then idewait checkerr s1
         else Some (if checkerr \<and> r AND (0x20 OR 0x01) \<noteq> 0 then - 1 else 0, s1))"

primrec ide_probe :: "nat \<Rightarrow> 'a ide_scheme \<Rightarrow> 'a ide_scheme" where
  "ide_probe 0 s = s"
| "ide_probe (Suc n) s =
     (let (r, s1) = inb 0x1f7 s
      in if r \<noteq> 0 then kprint ''dectected disk1\<newline>'' (s1\<lparr>havedisk1 := True\<rparr>) else ide_probe n s1)"

definition ideinit :: "'a ide_scheme \<Rightarrow> 'a ide_scheme option" where
  "ideinit s = do {
     (r, s1) \<leftarrow> idewait False s;
     let s2 = ide_probe 1000 (outb 0x1f6 (0xe0 OR push_bit 4 1) s1);
     Some (outb 0x1f6 (0xe0 OR push_bit 4 0) s2)
   }"

definition idestart :: "nat \<Rightarrow> 'a ide_scheme \<Rightarrow> 'a ide_scheme option" where
  "idestart b s0 =
     (let s = (if b_blockno (bufs s0 b) \<ge> FSSIZE then kprint ''incorrect blockno'' s0 else s0);
          sector = b_blockno (bufs s b) * 1
      in do {
        (r, s1) \<leftarrow> idewait False s;
        let s2 = outb 0x3f6 0 s1;
        let s3 = outb 0x1f2 1 s2;
        let s4 = outb 0x1f3 (ucast (sector AND 0xff)) s3;
        let s5 = outb 0x1f4 (ucast (drop_bit 8 sector AND 0xff)) s4;
        let s6 = outb 0x1f5 (ucast (drop_bit 16 sector AND 0xff)) s5;
        let s7 = outb 0x1f6 (ucast (0xe0 OR push_bit 4 (b_dev (bufs s b) AND 1) OR (drop_bit 24 sector AND 0x0f))) s6;
        Some (if b_flags (bufs s b) AND B_DIRTY \<noteq> 0
              then outsl_data (b_data (bufs s b)) (outb 0x1f7 0x30 s7)
              else outb 0x1f7 0x20 s7)
      })"

text \<open>The interrupt handler.\<close>

definition ideint_callback :: "'a ide_scheme \<Rightarrow> 'a ide_scheme option" where
  "ideint_callback s =
     (case idequeue s of None \<Rightarrow> Some s
      | Some b \<Rightarrow> do {
          let s1 = s\<lparr>idequeue := b_qnext (bufs s b)\<rparr>;
          s2 \<leftarrow> (if b_flags (bufs s1 b) AND B_DIRTY = 0
                 then do { (r, s') \<leftarrow> idewait True s1;
                           Some (if r \<ge> 0 then upd_buf b (b_data_update (\<lambda>_. insl_data s')) s' else s') }
                 else Some s1);
          let s3 = upd_buf b (\<lambda>x. x\<lparr>b_flags := b_flags x OR B_VALID\<rparr>) s2;
          let s4 = upd_buf b (\<lambda>x. x\<lparr>b_flags := b_flags x AND NOT B_DIRTY\<rparr>) s3;
          (case idequeue s4 of None \<Rightarrow> Some s4 | Some q \<Rightarrow> idestart q s4)
        })"

text \<open>The address of the last buffer of the queue that starts at \<open>q\<close>; a cyclic queue is walked for ever.\<close>

partial_function (option) idq_last :: "nat \<Rightarrow> (nat \<Rightarrow> buf) \<Rightarrow> nat option" where
  [code]: "idq_last q h = (case b_qnext (h q) of None \<Rightarrow> Some q | Some r \<Rightarrow> idq_last r h)"

definition idq_append :: "nat \<Rightarrow> 'a ide_scheme \<Rightarrow> 'a ide_scheme option" where
  "idq_append b s =
     (case idequeue s of None \<Rightarrow> Some (s\<lparr>idequeue := Some b\<rparr>)
      | Some q \<Rightarrow> do { l \<leftarrow> idq_last q (bufs s); Some (upd_buf l (b_qnext_update (\<lambda>_. Some b)) s) })"

text \<open>The wait loop of \<open>iderw\<close>: interrupts are served until the buffer is valid and clean.\<close>

partial_function (option) ide_spin :: "nat \<Rightarrow> 'a ide_scheme \<Rightarrow> 'a ide_scheme option" where
  [code]: "ide_spin b s =
     (if b_flags (bufs s b) AND (B_VALID OR B_DIRTY) = B_VALID then Some s
      else Option.bind (ideint_callback s) (ide_spin b))"

definition iderw :: "nat \<Rightarrow> 'a ide_scheme \<Rightarrow> 'a ide_scheme option" where
  "iderw b s0 =
     (let s1 = (if b_flags (bufs s0 b) AND (B_VALID OR B_DIRTY) = B_VALID
                then kprint ''iderw: nothing to do'' s0 else s0);
          s2 = (if b_dev (bufs s1 b) \<noteq> 0 \<and> \<not> havedisk1 s1
                then kprint ''iderw: ide disk 1 not present'' s1 else s1);
          s3 = upd_buf b (b_qnext_update (\<lambda>_. None)) s2
      in do {
        s4 \<leftarrow> idq_append b s3;
        s5 \<leftarrow> (if idequeue s4 = Some b then idestart b s4 else Some s4);
        ide_spin b s5
      })"

section \<open>The environment's obligations and the wait for the controller\<close>

text \<open>\<open>ata_live\<close>: the controller becomes ready again and again; \<open>ata_clean\<close>: when it is ready it reports
  neither a device fault nor an error.\<close>

definition ata_live :: "'a machine_scheme \<Rightarrow> bool" where
  "ata_live s \<longleftrightarrow> (\<forall>n. \<exists>m\<ge>n. env_in s 0x1f7 m AND 0xc0 = 0x40)"

definition ata_clean :: "'a machine_scheme \<Rightarrow> bool" where
  "ata_clean s \<longleftrightarrow> (\<forall>n. env_in s 0x1f7 n AND 0xc0 = 0x40 \<longrightarrow> env_in s 0x1f7 n AND 0x21 = 0)"

lemma inb_status: "inb 0x1f7 s = (env_in s 0x1f7 (in_pos s 0x1f7), s\<lparr>in_pos := (in_pos s)(0x1f7 := Suc (in_pos s 0x1f7))\<rparr>)"
  by (simp add: inb_def port_byte_in_def)

lemma ors: "(0x80 OR 0x40 :: u8) = 0xc0" "(0x20 OR 0x01 :: u8) = 0x21" by simp_all

lemma idewait_ready:
  assumes "in_pos s 0x1f7 \<le> m" "env_in s 0x1f7 m AND 0xc0 = 0x40"
    and "\<And>k. in_pos s 0x1f7 \<le> k \<Longrightarrow> k < m \<Longrightarrow> env_in s 0x1f7 k AND 0xc0 \<noteq> 0x40"
  shows "idewait ce s = Some (if ce \<and> env_in s 0x1f7 m AND 0x21 \<noteq> 0 then - 1 else 0,
           s\<lparr>in_pos := (in_pos s)(0x1f7 := Suc m)\<rparr>)"
  using assms
proof (induction "m - in_pos s 0x1f7" arbitrary: s)
  case 0
  then have "in_pos s 0x1f7 = m" by simp
  with 0 show ?case
    by (subst idewait.simps) (simp add: inb_status Let_def)
next
  case (Suc d)
  define s1 where "s1 = snd (inb 0x1f7 s)"
  have s1: "in_pos s1 0x1f7 = Suc (in_pos s 0x1f7)" "env_in s1 = env_in s"
    "s1\<lparr>in_pos := (in_pos s1)(0x1f7 := Suc m)\<rparr> = s\<lparr>in_pos := (in_pos s)(0x1f7 := Suc m)\<rparr>"
    by (simp_all add: s1_def inb_status)
  have lt: "in_pos s 0x1f7 < m" using Suc.hyps(2) by simp
  have "d = m - in_pos s1 0x1f7" using Suc.hyps(2) s1 by simp
  from Suc.hyps(1)[OF this] have "idewait ce s1 = Some (if ce \<and> env_in s 0x1f7 m AND 0x21 \<noteq> 0 then - 1 else 0,
           s\<lparr>in_pos := (in_pos s)(0x1f7 := Suc m)\<rparr>)"
    using s1 Suc.prems lt by simp
  moreover have "idewait ce s = idewait ce s1"
    using Suc.prems(3)[of "in_pos s 0x1f7"] lt
    by (subst idewait.simps) (simp add: inb_status Let_def s1_def)
  ultimately show ?case by simp
qed

lemma idewait_live:
  assumes "ata_live s"
  obtains k r where "idewait ce s = Some (r, s\<lparr>in_pos := (in_pos s)(0x1f7 := k)\<rparr>)"
    "ata_clean s \<Longrightarrow> r = 0"
proof -
  let ?P = "\<lambda>m. in_pos s 0x1f7 \<le> m \<and> env_in s 0x1f7 m AND 0xc0 = 0x40"
  define m where "m = (LEAST m. ?P m)"
  have "\<exists>m. ?P m" using assms unfolding ata_live_def by blast
  then have P: "?P m" unfolding m_def by (rule LeastI_ex)
  have least: "env_in s 0x1f7 k AND 0xc0 \<noteq> 0x40" if "in_pos s 0x1f7 \<le> k" "k < m" for k
    using not_less_Least[of k ?P] that unfolding m_def by blast
  show ?thesis
  proof (rule that)
    show "idewait ce s = Some (if ce \<and> env_in s 0x1f7 m AND 0x21 \<noteq> 0 then - 1 else 0,
           s\<lparr>in_pos := (in_pos s)(0x1f7 := Suc m)\<rparr>)"
      using P least by (intro idewait_ready) blast+
    show "ata_clean s \<Longrightarrow> (if ce \<and> env_in s 0x1f7 m AND 0x21 \<noteq> 0 then - 1 else 0 :: int) = 0"
      using P unfolding ata_clean_def by simp
  qed
qed

lemma byte_masks:
  "(0xff :: u32) = mask 8" "(0x0f :: u32) = mask 4" "(0x0f :: u8) = mask 4"
  "(0x0fffffff :: u32) = mask 28" "(0xe0 :: u32) = push_bit 5 (mask 3)"
  by (simp_all add: mask_eq_exp_minus_1)

lemma lba_bytes:
  fixes w :: u32
  shows "ucast (ucast (w AND 0xff) :: u8) OR push_bit 8 (ucast (ucast (drop_bit 8 w AND 0xff) :: u8))
     OR push_bit 16 (ucast (ucast (drop_bit 16 w AND 0xff) :: u8))
     OR push_bit 24 (ucast ((ucast (0xe0 OR push_bit 4 (d AND 1) OR (drop_bit 24 w AND 0x0f)) :: u8) AND 0x0f)) = w AND (0x0fffffff :: u32)"
  (is "?l = ?r")
proof (rule bit_word_eqI)
  fix i assume "i < LENGTH(32)"
  then have "i < 32" by simp
  then consider "i < 8" | "8 \<le> i" "i < 16" | "16 \<le> i" "i < 24" | "24 \<le> i" "i < 28" | "28 \<le> i" "i < 32"
    by linarith
  then show "bit ?l i \<longleftrightarrow> bit ?r i"
    unfolding byte_masks by cases (auto simp: bit_simps)
qed

lemma drive_bits:
  fixes d x :: u32
  shows "ucast (drop_bit 4 (ucast (0xe0 OR push_bit 4 (d AND 1) OR (x AND 0x0f)) :: u8)) AND 1 = d AND (1 :: u32)"
proof (rule bit_word_eqI)
  fix i assume "i < LENGTH(32)"
  show "bit (ucast (drop_bit 4 (ucast (0xe0 OR push_bit 4 (d AND 1) OR (x AND 0x0f)) :: u8)) AND (1 :: u32)) i \<longleftrightarrow> bit (d AND 1) i"
    unfolding byte_masks by (cases "i = 0") (simp_all add: bit_simps)
qed

definition ide_frame :: "'a ide_scheme \<Rightarrow> 'a ide_scheme \<Rightarrow> bool" where
  "ide_frame s s' \<longleftrightarrow> vidmem s' = vidmem s \<and> crtc_reg s' = crtc_reg s \<and> env_in s' = env_in s
     \<and> havedisk1 s' = havedisk1 s \<and> ide.more s' = ide.more s"

lemma ide_frame_refl [simp]: "ide_frame s s"
  by (simp add: ide_frame_def)

lemma ide_frame_trans: "ide_frame s t \<Longrightarrow> ide_frame t u \<Longrightarrow> ide_frame s u"
  by (simp add: ide_frame_def)

lemma upd_buf_simps [simp]:
  "bufs (upd_buf b f s) = (bufs s)(b := f (bufs s b))"
  "disk (upd_buf b f s) = disk s" "idequeue (upd_buf b f s) = idequeue s"
  "in_pos (upd_buf b f s) = in_pos s" "out_reg (upd_buf b f s) = out_reg s"
  "env_in (upd_buf b f s) = env_in s" "havedisk1 (upd_buf b f s) = havedisk1 s"
  "vidmem (upd_buf b f s) = vidmem s" "crtc_reg (upd_buf b f s) = crtc_reg s"
  "ide.more (upd_buf b f s) = ide.more s"
  "ide_frame t (upd_buf b f s) = ide_frame t s"
  by (simp_all add: upd_buf_def ide_frame_def)

lemma outb_simps [simp]:
  "vidmem (outb p v s) = vidmem s" "env_in (outb p v s) = env_in s" "in_pos (outb p v s) = in_pos s"
  "out_reg (outb p v s) = (out_reg s)(p := v)" "machine.more (outb p v s) = machine.more s"
  "crtc_reg (outb p v s) = (if p = 0x3d5 then (crtc_reg s)(out_reg s 0x3d4 := v) else crtc_reg s)"
  by (simp_all add: outb_def)

lemma outb_ide [simp]:
  "disk (outb p v s) = disk s" "bufs (outb p v s) = bufs s" "idequeue (outb p v s) = idequeue s"
  "havedisk1 (outb p v s) = havedisk1 s" "ide.more (outb p v s) = ide.more s"
  by (simp_all add: outb_def port_byte_out_def Let_def)

lemma ata_live_cong: "env_in s' = env_in s \<Longrightarrow> ata_live s' = ata_live s"
  by (simp add: ata_live_def)

lemma ata_clean_cong: "env_in s' = env_in s \<Longrightarrow> ata_clean s' = ata_clean s"
  by (simp add: ata_clean_def)

lemma small_block [simp]: "(w :: u32) < 1000 \<Longrightarrow> w AND 0x0fffffff = w"
proof -
  assume "w < 1000"
  then have "unat w < 2 ^ 28" by (simp add: word_less_nat_alt)
  then have "unat (take_bit 28 w) = unat w" by (simp add: unsigned_take_bit_eq take_bit_nat_eq_self)
  then have "take_bit 28 w = w" by (rule unsigned_word_eqI)
  then show ?thesis by (simp add: take_bit_eq_mask byte_masks(4))
qed

lemma idestart_ok:
  assumes live: "ata_live s" and blk: "b_blockno (bufs s b) < FSSIZE"
  obtains s' where "idestart b s = Some s'" "ide_frame s s'" "bufs s' = bufs s" "idequeue s' = idequeue s"
    "ata_drive s' = b_dev (bufs s b) AND 1" "ata_lba s' = b_blockno (bufs s b)"
    "disk s' = (if b_flags (bufs s b) AND B_DIRTY \<noteq> 0
       then (disk s)(b_dev (bufs s b) AND 1 := (disk s (b_dev (bufs s b) AND 1))(b_blockno (bufs s b) := b_data (bufs s b)))
       else disk s)"
proof -
  obtain k r where w: "idewait False s = Some (r, s\<lparr>in_pos := (in_pos s)(0x1f7 := k)\<rparr>)"
    using idewait_live[OF live] by metis
  have blk': "\<not> FSSIZE \<le> b_blockno (bufs s b)" "b_blockno (bufs s b) AND 0x0fffffff = b_blockno (bufs s b)"
    using blk by (auto simp: FSSIZE_def)
  show ?thesis
    apply (rule that[of "the (idestart b s)"])
          apply (simp_all add: idestart_def blk' w Let_def ide_frame_def outsl_data_def ata_drive_def ata_lba_def drive_bits[simplified] lba_bytes[simplified])
    done
qed

definition rw_dirty :: "'a ide_scheme \<Rightarrow> nat \<Rightarrow> bool" where
  "rw_dirty s b \<longleftrightarrow> b_flags (bufs s b) AND B_DIRTY \<noteq> 0"

definition rw_buf :: "'a ide_scheme \<Rightarrow> nat \<Rightarrow> buf" where
  "rw_buf s b = (bufs s b)\<lparr>b_flags := (b_flags (bufs s b) OR B_VALID) AND NOT B_DIRTY, b_qnext := None,
     b_data := (if rw_dirty s b then b_data (bufs s b)
                else disk s (b_dev (bufs s b) AND 1) (b_blockno (bufs s b)))\<rparr>"

definition rw_disk :: "'a ide_scheme \<Rightarrow> nat \<Rightarrow> u32 \<Rightarrow> u32 \<Rightarrow> u8 list" where
  "rw_disk s b = (if rw_dirty s b
     then (disk s)(b_dev (bufs s b) AND 1 := (disk s (b_dev (bufs s b) AND 1))(b_blockno (bufs s b) := b_data (bufs s b)))
     else disk s)"

lemma bit_B_VALID [simp]: "bit B_VALID n \<longleftrightarrow> n = 1"
  by (auto simp: B_VALID_def bit_2_iff)

lemma bit_B_DIRTY [simp]: "bit B_DIRTY n \<longleftrightarrow> n = 2"
proof -
  have "bit (2 ^ 2 :: u32) n \<longleftrightarrow> n = 2" unfolding bit_exp_iff by auto
  then show ?thesis by (simp add: B_DIRTY_def)
qed

lemma synced_flags: "((f OR B_VALID) AND NOT B_DIRTY) AND (B_VALID OR B_DIRTY) = B_VALID"
  by (rule bit_word_eqI) (auto simp: bit_simps)

lemma dirty_flag_keep: "(f OR B_VALID) AND B_DIRTY = f AND B_DIRTY"
  by (rule bit_word_eqI) (auto simp: bit_simps)

lemma ideint_callback_single:
  assumes q: "idequeue s = Some b" "b_qnext (bufs s b) = None"
    and live: "ata_live s" "ata_clean s"
    and sel: "ata_drive s = b_dev (bufs s b) AND 1" "ata_lba s = b_blockno (bufs s b)"
  obtains s' where "ideint_callback s = Some s'" "ide_frame s s'" "idequeue s' = None" "disk s' = disk s"
    "bufs s' = (bufs s)(b := rw_buf s b)"
proof -
  define s1 where "s1 = s\<lparr>idequeue := None\<rparr>"
  have s1: "ata_live s1" "ata_clean s1" using live by (simp_all add: s1_def ata_live_def ata_clean_def)
  obtain k where w: "idewait True s1 = Some (0, s1\<lparr>in_pos := (in_pos s1)(0x1f7 := k)\<rparr>)"
    using idewait_live[OF s1(1), of True] s1(2) by metis
  let ?s2 = "s1\<lparr>in_pos := (in_pos s1)(0x1f7 := k)\<rparr>"
  have ins: "insl_data ?s2 = disk s (b_dev (bufs s b) AND 1) (b_blockno (bufs s b))"
    using sel by (simp add: insl_data_def ata_drive_def ata_lba_def s1_def)
  have qb: "(bufs s b)\<lparr>b_qnext := None\<rparr> = bufs s b" using q(2) by (cases "bufs s b") simp
  then have qb': "(bufs s b)\<lparr>b_flags := x, b_qnext := None\<rparr> = (bufs s b)\<lparr>b_flags := x\<rparr>" for x
    using q(2) by (cases "bufs s b") simp
  show ?thesis
  proof (cases "rw_dirty s b")
    case True
    then show ?thesis
      using q s1_def
      by (intro that[of "the (ideint_callback s)"])
        (simp_all add: ideint_callback_def rw_dirty_def rw_buf_def ide_frame_def qb')
  next
    case False
    then have cb: "ideint_callback s = Some (upd_buf b (\<lambda>x. x\<lparr>b_flags := b_flags x AND NOT B_DIRTY\<rparr>)
        (upd_buf b (\<lambda>x. x\<lparr>b_flags := b_flags x OR B_VALID\<rparr>)
          (upd_buf b (b_data_update (\<lambda>_. disk s (b_dev (bufs s b) AND 1) (b_blockno (bufs s b)))) ?s2)))"
      using q w ins by (simp add: ideint_callback_def rw_dirty_def s1_def)
    have "(bufs s b)\<lparr>b_data := disk s (b_dev (bufs s b) AND 1) (b_blockno (bufs s b)),
        b_flags := (b_flags (bufs s b) OR B_VALID) AND NOT B_DIRTY\<rparr> = rw_buf s b"
      using False q(2) by (cases "bufs s b") (simp add: rw_buf_def)
    then show ?thesis
      by (intro that[OF cb]) (simp_all add: ide_frame_def s1_def)
  qed
qed

lemma iderw_idle:
  assumes q: "idequeue s = None" and live: "ata_live s" "ata_clean s"
    and todo: "b_flags (bufs s b) AND (B_VALID OR B_DIRTY) \<noteq> B_VALID"
    and dev: "b_dev (bufs s b) = 0 \<or> havedisk1 s" and blk: "b_blockno (bufs s b) < FSSIZE"
  obtains s' where "iderw b s = Some s'" "ide_frame s s'" "idequeue s' = None"
    "bufs s' = (bufs s)(b := rw_buf s b)" "disk s' = rw_disk s b"
proof -
  define s3 where "s3 = upd_buf b (b_qnext_update (\<lambda>_. None)) s"
  define s4 where "s4 = s3\<lparr>idequeue := Some b\<rparr>"
  have s4: "bufs s4 = (bufs s)(b := (bufs s b)\<lparr>b_qnext := None\<rparr>)" "disk s4 = disk s" "env_in s4 = env_in s"
    "idequeue s4 = Some b" "ide_frame s s4"
    by (simp_all add: s4_def s3_def ide_frame_def)
  have "ata_live s4" "b_blockno (bufs s4 b) < FSSIZE" using live blk s4 by (simp_all add: ata_live_def)
  then obtain s5 where s5: "idestart b s4 = Some s5" "ide_frame s4 s5" "bufs s5 = bufs s4" "idequeue s5 = idequeue s4"
    "ata_drive s5 = b_dev (bufs s4 b) AND 1" "ata_lba s5 = b_blockno (bufs s4 b)"
    "disk s5 = rw_disk s4 b"
    unfolding rw_disk_def rw_dirty_def by (rule idestart_ok) blast
  have e5: "env_in s5 = env_in s" using s5(2) s4(3) by (simp add: ide_frame_def)
  have q5: "idequeue s5 = Some b" "b_qnext (bufs s5 b) = None" using s5 s4 by simp_all
  obtain s6 where s6: "ideint_callback s5 = Some s6" "ide_frame s5 s6" "idequeue s6 = None" "disk s6 = disk s5"
    "bufs s6 = (bufs s5)(b := rw_buf s5 b)"
    by (rule ideint_callback_single[OF q5])
      (use live e5 s5 in \<open>simp_all add: ata_live_def ata_clean_def\<close>)
  have flags5: "b_flags (bufs s5 b) = b_flags (bufs s b)" using s5 s4 by simp
  have todo5: "b_flags (bufs s5 b) AND (B_VALID OR B_DIRTY) \<noteq> B_VALID" using todo flags5 by simp
  have done6: "b_flags (bufs s6 b) AND (B_VALID OR B_DIRTY) = B_VALID"
    using s6 by (simp add: rw_buf_def synced_flags)
  have "ide_spin b s5 = ide_spin b s6"
    using todo5 s6(1) by (subst ide_spin.simps) simp
  also have "\<dots> = Some s6" using done6 by (subst ide_spin.simps) simp
  finally have spin: "ide_spin b s5 = Some s6" .
  have "iderw b s = Some s6"
    using q todo dev s5(1) spin s4(4)
    by (auto simp add: iderw_def idq_append_def s4_def s3_def Let_def)
  moreover have "ide_frame s s6" using s4(5) s5(2) s6(2) by (blast intro: ide_frame_trans)
  moreover have "disk s6 = rw_disk s b"
    using s6(4) s5(7) s4 by (simp add: rw_disk_def rw_dirty_def)
  moreover have "bufs s6 = (bufs s)(b := rw_buf s b)"
    using s6(5) s5(3,7) s4 by (simp add: rw_buf_def rw_dirty_def rw_disk_def fun_eq_iff)
  ultimately show ?thesis using s6(3) by (intro that)
qed

end
