(* ===== verification/Block_Store.thy ===== *)
theory Block_Store
  imports Prelude
begin

text \<open>
  The interface between the file system (fs/fs.c) and the buffer cache (fs/bio.c), as a locale:
  the operations a client calls, an abstract view of the state (which block each buffer holds, how
  often it is pinned, the contents of the file-system disk, and everything outside the cache), and
  what each call promises. The client's lemmas below are about the shapes in which the file system
  uses a block: read it and release it, change it, and hold it across other operations.
\<close>

locale block_cache =
  fixes bread :: "u32 \<Rightarrow> u32 \<Rightarrow> 's \<Rightarrow> (nat \<times> 's) option"
    and bwrite :: "nat \<Rightarrow> 's \<Rightarrow> 's option"
    and brelse :: "nat \<Rightarrow> 's \<Rightarrow> 's"
    and bdata :: "'s \<Rightarrow> nat \<Rightarrow> u8 list"
    and set_bdata :: "nat \<Rightarrow> u8 list \<Rightarrow> 's \<Rightarrow> 's"
    and ok :: "'s \<Rightarrow> bool"
    and pins :: "'s \<Rightarrow> nat \<Rightarrow> nat"
    and key :: "'s \<Rightarrow> nat \<Rightarrow> u32"
    and blocks :: "'s \<Rightarrow> u32 \<Rightarrow> u8 list"
    and outside :: "'s \<Rightarrow> 'r"
    and nbuf :: nat
    and nblocks :: u32
    and bsize :: nat
  assumes bread: "ok s \<Longrightarrow> n < nblocks \<Longrightarrow> sum (pins s) {..<nbuf} < nbuf \<Longrightarrow>
      \<exists>b s'. bread 1 n s = Some (b, s') \<and> b < nbuf \<and> ok s' \<and> pins s' = (pins s)(b := pins s b + 1)
        \<and> key s' b = n \<and> bdata s' b = blocks s n \<and> blocks s' = blocks s \<and> outside s' = outside s
        \<and> (\<forall>c. pins s c > 0 \<longrightarrow> key s' c = key s c)"
    and bwrite: "ok s \<Longrightarrow> pins s b > 0 \<Longrightarrow> length d = bsize \<Longrightarrow>
      \<exists>s'. bwrite b (set_bdata b d s) = Some s' \<and> ok s' \<and> pins s' = pins s \<and> key s' = key s
        \<and> blocks s' = (blocks s)(key s b := d) \<and> outside s' = outside s"
    and brelse: "ok s \<Longrightarrow> pins s b > 0 \<Longrightarrow>
      ok (brelse b s) \<and> pins (brelse b s) = (pins s)(b := pins s b - 1) \<and> key (brelse b s) = key s
        \<and> blocks (brelse b s) = blocks s \<and> outside (brelse b s) = outside s"
    and held: "ok s \<Longrightarrow> pins s b > 0 \<Longrightarrow> bdata s b = blocks s (key s b) \<and> b < nbuf"
    and block_length: "ok s \<Longrightarrow> length (blocks s n) = bsize"
begin

text \<open>\<open>evolves s D s'\<close>: from \<open>s\<close> to \<open>s'\<close> the disk became \<open>D\<close>, every pinned buffer kept its block, no pin
  was gained or lost, and nothing outside the cache changed.\<close>

definition evolves :: "'s \<Rightarrow> (u32 \<Rightarrow> u8 list) \<Rightarrow> 's \<Rightarrow> bool" where
  "evolves s D s' \<longleftrightarrow> ok s' \<and> pins s' = pins s \<and> blocks s' = D \<and> outside s' = outside s
     \<and> (\<forall>c. pins s c > 0 \<longrightarrow> key s' c = key s c)"

definition room :: "nat \<Rightarrow> 's \<Rightarrow> bool" where
  "room k s \<longleftrightarrow> sum (pins s) {..<nbuf} + k \<le> nbuf"

text \<open>\<open>holds s n b s1\<close>: \<open>s1\<close> is \<open>s\<close> after a \<open>bread\<close> of block \<open>n\<close> that returned \<open>b\<close>.\<close>

definition holds :: "'s \<Rightarrow> u32 \<Rightarrow> nat \<Rightarrow> 's \<Rightarrow> bool" where
  "holds s n b s1 \<longleftrightarrow> b < nbuf \<and> ok s1 \<and> pins s1 = (pins s)(b := pins s b + 1) \<and> key s1 b = n
     \<and> blocks s1 = blocks s \<and> outside s1 = outside s \<and> (\<forall>c. pins s c > 0 \<longrightarrow> key s1 c = key s c)"

lemma evolves_refl: "ok s \<Longrightarrow> evolves s (blocks s) s"
  by (simp add: evolves_def)

lemma evolves_trans: "evolves s D t \<Longrightarrow> evolves t E u \<Longrightarrow> evolves s E u"
  by (simp add: evolves_def)

lemma evolvesD:
  assumes "evolves s D s'"
  shows "ok s'" "pins s' = pins s" "blocks s' = D" "outside s' = outside s" "room k s' = room k s"
  using assms by (simp_all add: evolves_def room_def)

lemma room_mono: "room k s \<Longrightarrow> j \<le> k \<Longrightarrow> room j s"
  by (simp add: room_def)

lemma bread_holds:
  assumes "ok s" "n < nblocks" "room (Suc k) s"
  obtains b s1 where "bread 1 n s = Some (b, s1)" "holds s n b s1" "bdata s1 b = blocks s n" "room k s1"
proof -
  have r: "sum (pins s) {..<nbuf} < nbuf" using assms(3) by (simp add: room_def)
  obtain b s1 where b: "bread 1 n s = Some (b, s1)" "b < nbuf" "ok s1" "pins s1 = (pins s)(b := pins s b + 1)"
    "key s1 b = n" "bdata s1 b = blocks s n" "blocks s1 = blocks s" "outside s1 = outside s"
    "\<forall>c. pins s c > 0 \<longrightarrow> key s1 c = key s c"
    using bread[OF assms(1,2) r] by blast
  have "sum (pins s1) {..<nbuf} = Suc (sum (pins s) {..<nbuf})"
    using b(2,4) by (simp add: sum.remove[of "{..<nbuf}" b])
  then have "room k s1" using assms(3) by (simp add: room_def)
  then show ?thesis using b by (intro that) (auto simp: holds_def)
qed

lemma holds_data:
  assumes "holds s n b s1" "evolves s1 D s2"
  shows "bdata s2 b = D n"
  using assms held[of s2 b] by (auto simp: holds_def evolves_def)

text \<open>Releasing a held block after anything that respects pins.\<close>

lemma release:
  assumes "holds s n b s1" "evolves s1 D s2"
  shows "evolves s D (brelse b s2)"
proof -
  have p: "pins s2 = (pins s)(b := pins s b + 1)" using assms by (simp add: holds_def evolves_def)
  then have "pins s2 b > 0" by simp
  note r = brelse[OF evolvesD(1)[OF assms(2)] this]
  have "pins (brelse b s2) = pins s" using r p by auto
  moreover have "key s2 c = key s c" if "pins s c > 0" for c
    using assms that by (auto simp: holds_def evolves_def)
  ultimately show ?thesis using r assms by (auto simp: holds_def evolves_def)
qed

text \<open>Overwriting a held block.\<close>

lemma overwrite:
  assumes "holds s n b s1" "evolves s1 D s2" "length d = bsize"
  obtains s3 where "bwrite b (set_bdata b d s2) = Some s3" "evolves s1 (D(n := d)) s3"
proof -
  have p: "pins s2 b > 0" "key s2 b = n" "blocks s2 = D" "ok s2"
    using assms by (auto simp: holds_def evolves_def)
  obtain s3 where "bwrite b (set_bdata b d s2) = Some s3" "ok s3" "pins s3 = pins s2" "key s3 = key s2"
    "blocks s3 = (blocks s2)(key s2 b := d)" "outside s3 = outside s2"
    using bwrite[OF p(4,1) assms(3)] by blast
  then show ?thesis using assms p by (intro that) (auto simp: holds_def evolves_def)
qed

text \<open>The two commonest shapes: look at a block; replace a block by a function of its bytes.\<close>

lemma read_block:
  assumes "ok s" "n < nblocks" "room 1 s"
  obtains b s1 where "bread 1 n s = Some (b, s1)" "bdata s1 b = blocks s n" "outside s1 = outside s"
    "evolves s (blocks s) (brelse b s1)"
proof -
  have "room (Suc 0) s" using assms(3) by simp
  then obtain b s1 where b: "bread 1 n s = Some (b, s1)" "holds s n b s1" "bdata s1 b = blocks s n" "room 0 s1"
    by (rule bread_holds[OF assms(1,2)])
  have "evolves s1 (blocks s1) s1" using b(2) by (intro evolves_refl) (simp add: holds_def)
  then have "evolves s (blocks s1) (brelse b s1)" by (rule release[OF b(2)])
  then show ?thesis using b by (intro that) (auto simp: holds_def)
qed

lemma update_block:
  assumes "ok s" "n < nblocks" "room 1 s" "length (f (blocks s n)) = bsize"
  obtains b s1 s2 where "bread 1 n s = Some (b, s1)" "bdata s1 b = blocks s n" "outside s1 = outside s"
    "bwrite b (set_bdata b (f (blocks s n)) s1) = Some s2"
    "evolves s ((blocks s)(n := f (blocks s n))) (brelse b s2)"
proof -
  have "room (Suc 0) s" using assms(3) by simp
  then obtain b s1 where b: "bread 1 n s = Some (b, s1)" "holds s n b s1" "bdata s1 b = blocks s n" "room 0 s1"
    by (rule bread_holds[OF assms(1,2)])
  have e: "evolves s1 (blocks s1) s1" using b(2) by (intro evolves_refl) (simp add: holds_def)
  obtain s2 where s2: "bwrite b (set_bdata b (f (blocks s n)) s1) = Some s2"
    "evolves s1 ((blocks s1)(n := f (blocks s n))) s2"
    by (rule overwrite[OF b(2) e assms(4)])
  have "evolves s ((blocks s)(n := f (blocks s n))) (brelse b s2)"
    using release[OF b(2) s2(2)] b(2) by (simp add: holds_def)
  then show ?thesis using b s2 by (intro that) (auto simp: holds_def)
qed

end

end
