(* ===== verification/Bio.thy ===== *)
theory Bio
  imports Ide Block_Store
begin

text \<open>
  fs/bio.c: the buffer cache, thirty buffers on a circular doubly-linked list in order of use
  (\<open>head.next\<close> is the most recently released), searched forwards for a cached block and backwards
  for a victim. The links are addresses: buffer \<open>i\<close> of the array is \<open>i\<close>, the list head is 30.

  \<open>ring\<close> abstracts the two link fields to the list of buffers; \<open>bio_ok\<close> is the invariant of the
  cache (the list is a permutation of the buffers, a block is cached at most once, a valid buffer
  holds what the disk holds); the laws of \<open>bread\<close>, \<open>bwrite\<close> and \<open>brelse\<close> are stated once, as the
  locale \<open>block_cache\<close>, over the abstract contents of the disk.
\<close>

unbundle bit_operations_syntax

definition NBUF :: nat where "NBUF = 30"
definition bhead :: nat where "bhead = 30"

definition set_next :: "nat \<Rightarrow> nat \<Rightarrow> 'a ide_scheme \<Rightarrow> 'a ide_scheme" where
  "set_next a v s = upd_buf a (b_next_update (\<lambda>_. v)) s"

definition set_prev :: "nat \<Rightarrow> nat \<Rightarrow> 'a ide_scheme \<Rightarrow> 'a ide_scheme" where
  "set_prev a v s = upd_buf a (b_prev_update (\<lambda>_. v)) s"

definition nx :: "'a ide_scheme \<Rightarrow> nat \<Rightarrow> nat" where "nx s i = b_next (bufs s i)"
definition pv :: "'a ide_scheme \<Rightarrow> nat \<Rightarrow> nat" where "pv s i = b_prev (bufs s i)"

text \<open>Link \<open>b\<close> in right behind the head: the four assignments of \<open>binit\<close> and \<open>brelse\<close>.\<close>

definition link_front :: "nat \<Rightarrow> 'a ide_scheme \<Rightarrow> 'a ide_scheme" where
  "link_front b s =
     (let s1 = set_next b (nx s bhead) s;
          s2 = set_prev b bhead s1;
          s3 = set_prev (nx s2 bhead) b s2
      in set_next bhead b s3)"

primrec binit_loop :: "nat \<Rightarrow> 'a ide_scheme \<Rightarrow> 'a ide_scheme" where
  "binit_loop 0 s = s"
| "binit_loop (Suc n) s = link_front n (binit_loop n s)"

definition binit :: "'a ide_scheme \<Rightarrow> 'a ide_scheme" where
  "binit s = binit_loop NBUF (set_next bhead bhead (set_prev bhead bhead s))"

text \<open>The two searches of \<open>bget\<close>: \<open>Some None\<close> when the search comes back to the head.\<close>

partial_function (option) bget_cached :: "u32 \<Rightarrow> u32 \<Rightarrow> (nat \<Rightarrow> buf) \<Rightarrow> nat \<Rightarrow> nat option option" where
  [code]: "bget_cached dev blockno h b =
     (if b = bhead then Some None
      else if b_dev (h b) = dev \<and> b_blockno (h b) = blockno then Some (Some b)
      else bget_cached dev blockno h (b_next (h b)))"

partial_function (option) bget_victim :: "(nat \<Rightarrow> buf) \<Rightarrow> nat \<Rightarrow> nat option option" where
  [code]: "bget_victim h b =
     (if b = bhead then Some None
      else if b_refcnt (h b) = 0 \<and> b_flags (h b) AND B_DIRTY = 0 then Some (Some b)
      else bget_victim h (b_prev (h b)))"

definition bget :: "u32 \<Rightarrow> u32 \<Rightarrow> 'a ide_scheme \<Rightarrow> (nat option \<times> 'a ide_scheme) option" where
  "bget dev blockno s = do {
     c \<leftarrow> bget_cached dev blockno (bufs s) (nx s bhead);
     (case c of
        Some b \<Rightarrow> Some (Some b, upd_buf b (\<lambda>x. x\<lparr>b_refcnt := b_refcnt x + 1\<rparr>) s)
      | None \<Rightarrow> do {
          v \<leftarrow> bget_victim (bufs s) (pv s bhead);
          (case v of
             Some b \<Rightarrow> Some (Some b,
               upd_buf b (\<lambda>x. x\<lparr>b_flags := 0, b_dev := dev, b_blockno := blockno, b_refcnt := 1\<rparr>) s)
           | None \<Rightarrow> Some (None, kprint ''bget: no buffers'' s))
        })
   }"

definition bread :: "u32 \<Rightarrow> u32 \<Rightarrow> 'a ide_scheme \<Rightarrow> (nat \<times> 'a ide_scheme) option" where
  "bread dev blockno s = do {
     (p, s1) \<leftarrow> bget dev blockno s;
     b \<leftarrow> p;
     s2 \<leftarrow> (if b_flags (bufs s1 b) AND B_VALID = 0 then iderw b s1 else Some s1);
     Some (b, s2)
   }"

definition bwrite :: "nat \<Rightarrow> 'a ide_scheme \<Rightarrow> 'a ide_scheme option" where
  "bwrite b s = iderw b (upd_buf b (\<lambda>x. x\<lparr>b_flags := b_flags x OR B_DIRTY\<rparr>) s)"

definition brelse :: "nat \<Rightarrow> 'a ide_scheme \<Rightarrow> 'a ide_scheme" where
  "brelse b s =
     (let s1 = upd_buf b (\<lambda>x. x\<lparr>b_refcnt := b_refcnt x - 1\<rparr>) s
      in if b_refcnt (bufs s1 b) = 0
         then let s2 = set_prev (nx s1 b) (pv s1 b) s1;
                  s3 = set_next (pv s2 b) (nx s2 b) s2
              in link_front b s3
         else s1)"

text \<open>Reading and assigning the bytes \<open>bp->data\<close> of a buffer.\<close>

definition bdata :: "'a ide_scheme \<Rightarrow> nat \<Rightarrow> u8 list" where
  "bdata s b = b_data (bufs s b)"

definition set_bdata :: "nat \<Rightarrow> u8 list \<Rightarrow> 'a ide_scheme \<Rightarrow> 'a ide_scheme" where
  "set_bdata b d s = upd_buf b (b_data_update (\<lambda>_. d)) s"

section \<open>Chains of links\<close>

primrec chain :: "(nat \<Rightarrow> nat) \<Rightarrow> nat \<Rightarrow> nat list \<Rightarrow> nat \<Rightarrow> bool" where
  "chain f x [] y \<longleftrightarrow> x = y"
| "chain f x (a # as) y \<longleftrightarrow> x = a \<and> chain f (f a) as y"

lemma chain_append: "chain f x (as @ bs) z \<longleftrightarrow> (\<exists>y. chain f x as y \<and> chain f y bs z)"
  by (induction as arbitrary: x) auto

lemma chain_upd: "u \<notin> set as \<Longrightarrow> chain (f(u := v)) x as y = chain f x as y"
  by (induction as arbitrary: x) auto

lemma chain_hd: "chain f x as y \<Longrightarrow> x = hd (as @ [y])"
  by (cases as) auto

text \<open>Taking \<open>b\<close> out of a circular chain through \<open>e\<close>: its predecessor now points past it.\<close>

lemma chain_unlink:
  assumes "chain f (f e) (ys @ b # zs) e" "distinct (e # ys @ b # zs)"
  shows "f b = hd (zs @ [e])"
    and "chain (f(last (e # ys) := f b)) ((f(last (e # ys) := f b)) e) (ys @ zs) e"
proof -
  have b: "chain f (f e) ys b" "chain f (f b) zs e"
    using assms(1) by (auto simp: chain_append)
  show "f b = hd (zs @ [e])" using b(2) by (rule chain_hd)
  show "chain (f(last (e # ys) := f b)) ((f(last (e # ys) := f b)) e) (ys @ zs) e"
  proof (cases ys rule: rev_cases)
    case Nil
    then show ?thesis using b(2) assms(2) by (simp add: chain_upd)
  next
    case (snoc ys' p)
    then have "chain f (f e) ys' p" "p \<notin> set ys'" "p \<notin> set zs" "p \<noteq> e"
      using b assms(2) by (auto simp: chain_append)
    then show ?thesis using snoc b(2) by (auto simp: chain_append chain_upd)
  qed
qed

lemma chain_push:
  assumes "chain f (f e) xs e" "b \<notin> set (e # xs)" "e \<notin> set xs"
  shows "chain (f(b := f e, e := b)) b (b # xs) e"
  using assms by (simp add: chain_upd)

lemma chain_snoc:
  assumes "chain f (f e) xs e" "b \<notin> set (e # xs)" "distinct (e # xs)"
  shows "chain (f(b := e, last (e # xs) := b)) ((f(b := e, last (e # xs) := b)) e) (xs @ [b]) e"
proof (cases xs rule: rev_cases)
  case Nil
  then show ?thesis using assms by simp
next
  case (snoc ys p)
  then have "chain f (f e) ys p" "p \<notin> set ys" "p \<noteq> e" "p \<noteq> b"
    using assms by (auto simp: chain_append)
  then show ?thesis using snoc assms(2) by (auto simp: chain_append chain_upd)
qed

section \<open>The list of buffers\<close>

definition ring :: "'a ide_scheme \<Rightarrow> nat list \<Rightarrow> bool" where
  "ring s xs \<longleftrightarrow> chain (nx s) (nx s bhead) xs bhead \<and> chain (pv s) (pv s bhead) (rev xs) bhead
     \<and> distinct (bhead # xs)"

lemma link_fields [simp]:
  "nx (set_next a v s) = (nx s)(a := v)" "pv (set_next a v s) = pv s"
  "nx (set_prev a v s) = nx s" "pv (set_prev a v s) = (pv s)(a := v)"
  by (auto simp: set_next_def set_prev_def nx_def pv_def fun_eq_iff)

lemma ring_cong: "nx s' = nx s \<Longrightarrow> pv s' = pv s \<Longrightarrow> ring s' xs = ring s xs"
  by (simp add: ring_def)

lemma link_front_ring:
  assumes r: "ring s xs" and b: "b \<notin> set (bhead # xs)"
  shows "ring (link_front b s) (b # xs)"
proof -
  have n: "chain (nx s) (nx s bhead) xs bhead" and p: "chain (pv s) (pv s bhead) (rev xs) bhead"
    and d: "distinct (bhead # xs)" using r by (auto simp: ring_def)
  have first: "nx s bhead = last (bhead # rev xs)"
    using chain_hd[OF n] by (cases xs) auto
  have bb: "b \<noteq> bhead" using b by simp
  have nx': "nx (link_front b s) = (nx s)(b := nx s bhead, bhead := b)"
    and pv0: "pv (link_front b s) = (pv s)(b := bhead, nx s bhead := b)"
    using bb by (auto simp: link_front_def Let_def)
  note pv' = pv0[unfolded first]
  show ?thesis
    unfolding ring_def nx' pv'
    using chain_push[OF n b] chain_snoc[OF p] d b by simp
qed

lemma unlink_ring:
  assumes r: "ring s (ys @ b # zs)"
  shows "ring (set_next (pv s b) (nx s b) (set_prev (nx s b) (pv s b) s)) (ys @ zs)"
proof -
  have n: "chain (nx s) (nx s bhead) (ys @ b # zs) bhead"
    and p: "chain (pv s) (pv s bhead) (rev zs @ b # rev ys) bhead"
    and d: "distinct (bhead # ys @ b # zs)" using r by (auto simp: ring_def)
  have d': "distinct (bhead # rev zs @ b # rev ys)" using d by auto
  note un = chain_unlink[OF n d] and up = chain_unlink[OF p d']
  have "pv s b = last (bhead # ys)" using up(1) by (cases ys rule: rev_cases) auto
  moreover have "nx s b = last (bhead # rev zs)" using un(1) by (cases zs) auto
  ultimately show ?thesis
    using un(2) up(2) d by (simp add: ring_def)
qed

lemma binit_loop_ring:
  assumes "n \<le> NBUF"
  shows "ring (binit_loop n (set_next bhead bhead (set_prev bhead bhead s))) (rev [0..<n])"
  using assms
proof (induction n)
  case 0
  show ?case by (simp add: ring_def)
next
  case (Suc n)
  then show ?case by (auto simp: NBUF_def bhead_def intro!: link_front_ring)
qed

lemma binit_ring: "ring (binit s) (rev [0..<NBUF])"
  by (simp add: binit_def binit_loop_ring)

section \<open>The searches of bget\<close>

lemma bget_cached_chain:
  assumes "chain (\<lambda>i. b_next (h i)) x xs bhead" "bhead \<notin> set xs"
  shows "bget_cached dev blockno h x = Some (find (\<lambda>b. b_dev (h b) = dev \<and> b_blockno (h b) = blockno) xs)"
  using assms
proof (induction xs arbitrary: x)
  case Nil
  then show ?case by (subst bget_cached.simps) simp
next
  case (Cons a as)
  then show ?case by (subst bget_cached.simps) auto
qed

lemma bget_victim_chain:
  assumes "chain (\<lambda>i. b_prev (h i)) x xs bhead" "bhead \<notin> set xs"
  shows "bget_victim h x = Some (find (\<lambda>b. b_refcnt (h b) = 0 \<and> b_flags (h b) AND B_DIRTY = 0) xs)"
  using assms
proof (induction xs arbitrary: x)
  case Nil
  then show ?case by (subst bget_victim.simps) simp
next
  case (Cons a as)
  then show ?case by (subst bget_victim.simps) auto
qed

lemma nx_eta: "nx s = (\<lambda>i. b_next (bufs s i))" and pv_eta: "pv s = (\<lambda>i. b_prev (bufs s i))"
  by (auto simp: nx_def pv_def)

text \<open>What \<open>bget\<close> does on a well-formed list: the cached buffer, or the least recently used free one.\<close>

lemma bget_ring:
  assumes "ring s xs"
  shows "bget dev blockno s =
    (case find (\<lambda>b. b_dev (bufs s b) = dev \<and> b_blockno (bufs s b) = blockno) xs of
       Some b \<Rightarrow> Some (Some b, upd_buf b (\<lambda>x. x\<lparr>b_refcnt := b_refcnt x + 1\<rparr>) s)
     | None \<Rightarrow> (case find (\<lambda>b. b_refcnt (bufs s b) = 0 \<and> b_flags (bufs s b) AND B_DIRTY = 0) (rev xs) of
         Some b \<Rightarrow> Some (Some b, upd_buf b (\<lambda>x. x\<lparr>b_flags := 0, b_dev := dev, b_blockno := blockno, b_refcnt := 1\<rparr>) s)
       | None \<Rightarrow> Some (None, kprint ''bget: no buffers'' s)))"
proof -
  have "chain (\<lambda>i. b_next (bufs s i)) (nx s bhead) xs bhead" "chain (\<lambda>i. b_prev (bufs s i)) (pv s bhead) (rev xs) bhead"
    "bhead \<notin> set xs" "bhead \<notin> set (rev xs)"
    using assms by (auto simp: ring_def nx_eta pv_eta)
  then show ?thesis by (simp add: bget_def bget_cached_chain bget_victim_chain split: option.split)
qed

section \<open>The invariant of the cache\<close>

definition buf_ok :: "'a ide_scheme \<Rightarrow> nat \<Rightarrow> bool" where
  "buf_ok s i \<longleftrightarrow>
     b_dev (bufs s i) = 0 \<and> b_flags (bufs s i) = 0 \<and> b_refcnt (bufs s i) = 0
   \<or> b_dev (bufs s i) = 1 \<and> b_blockno (bufs s i) < FSSIZE \<and> b_flags (bufs s i) = B_VALID
       \<and> b_data (bufs s i) = disk s 1 (b_blockno (bufs s i))"

definition env_ok :: "'a ide_scheme \<Rightarrow> bool" where
  "env_ok s \<longleftrightarrow> idequeue s = None \<and> ata_live s \<and> ata_clean s \<and> havedisk1 s"

definition bio_ok :: "'a ide_scheme \<Rightarrow> bool" where
  "bio_ok s \<longleftrightarrow> env_ok s
     \<and> (\<exists>xs. ring s xs \<and> set xs = {..<NBUF})
     \<and> (\<forall>i<NBUF. buf_ok s i)
     \<and> (\<forall>i<NBUF. \<forall>j<NBUF. i \<noteq> j \<longrightarrow> b_dev (bufs s i) = 1 \<longrightarrow> b_dev (bufs s j) = 1 \<longrightarrow>
          b_blockno (bufs s i) \<noteq> b_blockno (bufs s j))
     \<and> (\<forall>n. length (disk s 1 n) = BSIZE)"

definition pins :: "'a ide_scheme \<Rightarrow> nat \<Rightarrow> nat" where
  "pins s b = (if b < NBUF then unat (b_refcnt (bufs s b)) else 0)"

definition npins :: "(nat \<Rightarrow> nat) \<Rightarrow> nat" where
  "npins p = sum p {..<NBUF}"

definition bkey :: "'a ide_scheme \<Rightarrow> nat \<Rightarrow> u32" where
  "bkey s b = b_blockno (bufs s b)"

definition blocks :: "'a ide_scheme \<Rightarrow> u32 \<Rightarrow> u8 list" where
  "blocks s n = disk s 1 n"

definition outside :: "'a ide_scheme \<Rightarrow> (int \<Rightarrow> u8) \<times> (u8 \<Rightarrow> u8) \<times> (u16 \<Rightarrow> nat \<Rightarrow> u8) \<times> 'a" where
  "outside s = (vidmem s, crtc_reg s, env_in s, ide.more s)"

lemma ide_frame_outside: "ide_frame s s' \<Longrightarrow> outside s' = outside s"
  by (simp add: ide_frame_def outside_def)

lemma outside_upd_buf [simp]: "outside (upd_buf b f s) = outside s"
  by (simp add: outside_def)

lemma env_ok_frame: "ide_frame s s' \<Longrightarrow> idequeue s' = idequeue s \<Longrightarrow> env_ok s' = env_ok s"
  by (simp add: env_ok_def ide_frame_def ata_live_def ata_clean_def)

lemma npins_upd: "b < NBUF \<Longrightarrow> npins (p(b := k)) + p b = npins p + k"
  by (simp add: npins_def sum.remove[of "{..<NBUF}" b])

lemma npins_free:
  assumes "npins p < NBUF"
  obtains b where "b < NBUF" "p b = 0"
proof -
  have "\<not> (\<forall>b<NBUF. 1 \<le> p b)"
  proof
    assume "\<forall>b<NBUF. 1 \<le> p b"
    then have "sum (\<lambda>_. 1) {..<NBUF} \<le> sum p {..<NBUF}" by (intro sum_mono) auto
    then show False using assms by (simp add: npins_def)
  qed
  then obtain b where "b < NBUF" "p b = 0" by (auto simp: not_le)
  then show ?thesis by (rule that)
qed

lemma npins_le: "b < NBUF \<Longrightarrow> p b \<le> npins p"
  unfolding npins_def by (rule member_le_sum) auto

lemma bio_okD:
  assumes "bio_ok s"
  shows "env_ok s" "\<exists>xs. ring s xs \<and> set xs = {..<NBUF}" "i < NBUF \<Longrightarrow> buf_ok s i"
    "i < NBUF \<Longrightarrow> j < NBUF \<Longrightarrow> b_dev (bufs s i) = 1 \<Longrightarrow> b_dev (bufs s j) = 1 \<Longrightarrow>
      b_blockno (bufs s i) = b_blockno (bufs s j) \<Longrightarrow> i = j"
    "length (disk s 1 n) = BSIZE"
  using assms unfolding bio_ok_def by blast+

text \<open>Pinning one more reference on a buffer of the cache.\<close>

lemma pins_incr:
  assumes "b < NBUF" "npins (pins s) < NBUF" "pins s b = unat (b_refcnt (bufs s b))"
    and "bufs s' = (bufs s)(b := x)" "b_refcnt x = b_refcnt (bufs s b) + 1"
  shows "pins s' = (pins s)(b := pins s b + 1)"
proof
  fix c
  have "pins s b < NBUF" using npins_le[OF assms(1), of "pins s"] assms(2) by simp
  then have "unat (b_refcnt (bufs s b)) < 30" using assms(3) by (simp add: NBUF_def)
  then have "unat (b_refcnt (bufs s b) + 1) = unat (b_refcnt (bufs s b)) + 1"
    by (simp add: unat_word_ariths)
  then show "pins s' c = ((pins s)(b := pins s b + 1)) c"
    using assms by (simp add: pins_def)
qed

text \<open>A buffer changed in its flags, reference count or data only keeps the list.\<close>

lemma ring_upd:
  assumes "bufs s' = (bufs s)(b := x)" "b_next x = b_next (bufs s b)" "b_prev x = b_prev (bufs s b)"
  shows "ring s' xs = ring s xs"
  by (rule ring_cong) (use assms in \<open>auto simp: nx_def pv_def fun_eq_iff\<close>)

lemma bread_hit:
  assumes ok: "bio_ok s" and pins: "npins (pins s) < NBUF" and b: "b < NBUF" "b_dev (bufs s b) = 1"
    and s': "s' = upd_buf b (\<lambda>x. x\<lparr>b_refcnt := b_refcnt x + 1\<rparr>) s"
  shows "bio_ok s'" "pins s' = (pins s)(b := pins s b + 1)" "bkey s' = bkey s" "blocks s' = blocks s" "outside s' = outside s"
    and "b_flags (bufs s' b) AND B_VALID \<noteq> 0" "bdata s' b = blocks s (bkey s b)"
proof -
  have bo: "buf_ok s b" using ok b by (simp add: bio_okD)
  then have fl: "b_flags (bufs s b) = B_VALID" "b_data (bufs s b) = disk s 1 (b_blockno (bufs s b))"
    using b(2) by (auto simp: buf_ok_def)
  have x: "bufs s' = (bufs s)(b := (bufs s b)\<lparr>b_refcnt := b_refcnt (bufs s b) + 1\<rparr>)" by (simp add: s')
  have ring: "ring s' xs = ring s xs" for xs by (rule ring_upd[OF x]) simp_all
  have bk: "buf_ok s' i" if "i < NBUF" for i
    using bio_okD(3)[OF ok that] bo b fl by (auto simp: buf_ok_def s')
  have env: "env_ok s'" using bio_okD(1)[OF ok] by (simp add: env_ok_def s' ata_live_def ata_clean_def)
  have uniq: "b_dev (bufs s' i) = b_dev (bufs s i)" "b_blockno (bufs s' i) = b_blockno (bufs s i)" for i
    by (simp_all add: s')
  show "bio_ok s'" unfolding bio_ok_def ring uniq using env bk ok by (auto simp: bio_ok_def s')
  show "pins s' = (pins s)(b := pins s b + 1)"
    using b by (intro pins_incr[OF b(1) pins _ x]) (simp_all add: pins_def)
  show "bkey s' = bkey s" "blocks s' = blocks s" "outside s' = outside s"
    by (auto simp: s' bkey_def blocks_def fun_eq_iff)
  show "b_flags (bufs s' b) AND B_VALID \<noteq> 0" "bdata s' b = blocks s (bkey s b)"
    using fl by (simp_all add: s' B_VALID_def bdata_def blocks_def bkey_def)
qed

lemma bread_miss:
  assumes ok: "bio_ok s" and pins: "npins (pins s) < NBUF" and b: "b < NBUF" "b_refcnt (bufs s b) = 0"
    and fresh: "\<And>i. i < NBUF \<Longrightarrow> b_dev (bufs s i) = 1 \<Longrightarrow> b_blockno (bufs s i) \<noteq> n" and n: "n < FSSIZE"
    and s1: "s1 = upd_buf b (\<lambda>x. x\<lparr>b_flags := 0, b_dev := 1, b_blockno := n, b_refcnt := 1\<rparr>) s"
  obtains s' where "iderw b s1 = Some s'" "bio_ok s'" "pins s' = (pins s)(b := pins s b + 1)"
    "bkey s' = (bkey s)(b := n)" "blocks s' = blocks s" "outside s' = outside s" "bdata s' b = blocks s n"
proof -
  have env1: "env_ok s1" using bio_okD(1)[OF ok] by (simp add: env_ok_def s1 ata_live_def ata_clean_def)
  have b1: "bufs s1 b = (bufs s b)\<lparr>b_flags := 0, b_dev := 1, b_blockno := n, b_refcnt := 1\<rparr>"
    by (simp add: s1)
  obtain s' where s': "iderw b s1 = Some s'" "ide_frame s1 s'" "idequeue s' = None"
    "bufs s' = (bufs s1)(b := rw_buf s1 b)" "disk s' = rw_disk s1 b"
    by (rule iderw_idle[of s1 b]) (use env1 n b1 in \<open>simp_all add: env_ok_def B_VALID_def\<close>)
  have nd: "\<not> rw_dirty s1 b" by (simp add: rw_dirty_def b1)
  have x: "bufs s' = (bufs s)(b := rw_buf s1 b)" using s'(4) by (simp add: s1)
  have rb: "b_flags (rw_buf s1 b) = B_VALID" "b_dev (rw_buf s1 b) = 1" "b_blockno (rw_buf s1 b) = n"
    "b_refcnt (rw_buf s1 b) = 1" "b_data (rw_buf s1 b) = disk s 1 n"
    "b_next (rw_buf s1 b) = b_next (bufs s b)" "b_prev (rw_buf s1 b) = b_prev (bufs s b)"
    using nd by (simp_all add: rw_buf_def b1 ide_consts) (simp_all add: s1)
  have d: "disk s' = disk s" using s'(5) nd by (simp add: rw_disk_def s1)
  have ring: "ring s' xs = ring s xs" for xs by (rule ring_upd[OF x]) (simp_all add: rb)
  have bk: "buf_ok s' i" if "i < NBUF" for i
    using bio_okD(3)[OF ok that] n by (auto simp: buf_ok_def x rb d)
  have env: "env_ok s'" using env1 s'(2,3) env_ok_frame[of s1 s'] by (simp add: env_ok_def)
  have un: "b_blockno (bufs s' i) \<noteq> b_blockno (bufs s' j)"
    if "i < NBUF" "j < NBUF" "i \<noteq> j" "b_dev (bufs s' i) = 1" "b_dev (bufs s' j) = 1" for i j
    using that fresh bio_okD(4)[OF ok, of i j] by (auto simp: x rb split: if_splits)
  have len: "length (disk s' 1 k) = BSIZE" for k using ok by (simp add: d bio_ok_def)
  have "bio_ok s'" unfolding bio_ok_def ring using env bk un len bio_okD(2)[OF ok] by blast
  moreover have "pins s' = (pins s)(b := pins s b + 1)"
    using b pins by (intro pins_incr[OF b(1) pins _ x]) (simp_all add: pins_def rb)
  moreover have "bkey s' = (bkey s)(b := n)" "blocks s' = blocks s" "bdata s' b = blocks s n"
    by (auto simp: x rb d bkey_def blocks_def bdata_def fun_eq_iff)
  moreover have "outside s' = outside s" using ide_frame_outside[OF s'(2)] by (simp add: s1)
  ultimately show ?thesis by (intro that[OF s'(1)])
qed

lemma bread_law:
  assumes ok: "bio_ok s" and n: "n < FSSIZE" and pins: "npins (pins s) < NBUF"
  shows "\<exists>b s'. bread 1 n s = Some (b, s') \<and> b < NBUF \<and> bio_ok s' \<and> pins s' = (pins s)(b := pins s b + 1)
    \<and> bkey s' b = n \<and> bdata s' b = blocks s n \<and> blocks s' = blocks s \<and> outside s' = outside s
    \<and> (\<forall>c. pins s c > 0 \<longrightarrow> bkey s' c = bkey s c)"
proof -
  obtain xs where xs: "ring s xs" "set xs = {..<NBUF}" using bio_okD(2)[OF ok] by blast
  let ?hit = "\<lambda>b. b_dev (bufs s b) = 1 \<and> b_blockno (bufs s b) = n"
  let ?free = "\<lambda>b. b_refcnt (bufs s b) = 0 \<and> b_flags (bufs s b) AND B_DIRTY = 0"
  show ?thesis
  proof (cases "find ?hit xs")
    case (Some b)
    then have b: "b < NBUF" "b_dev (bufs s b) = 1" "b_blockno (bufs s b) = n"
      using xs(2) by (auto simp: find_Some_iff)
    define s' where "s' = upd_buf b (\<lambda>x. x\<lparr>b_refcnt := b_refcnt x + 1\<rparr>) s"
    note h = bread_hit[OF ok pins b(1,2) s'_def]
    have "bread 1 n s = Some (b, s')"
      using Some h(6) by (simp add: bread_def bget_ring[OF xs(1)] s'_def)
    moreover have "bkey s b = n" by (simp add: bkey_def b)
    ultimately show ?thesis using h b by auto
  next
    case None
    then have fresh: "\<And>i. i < NBUF \<Longrightarrow> b_dev (bufs s i) = 1 \<Longrightarrow> b_blockno (bufs s i) \<noteq> n"
      using xs(2) by (auto simp: find_None_iff)
    obtain f where f: "f < NBUF" "pins s f = 0" using npins_free[OF pins] .
    then have "b_refcnt (bufs s f) = 0" by (simp add: pins_def unat_eq_0)
    moreover have "b_flags (bufs s f) AND B_DIRTY = 0"
      using bio_okD(3)[OF ok f(1)] by (auto simp: buf_ok_def ide_consts)
    ultimately have "find ?free (rev xs) \<noteq> None" using f xs(2) by (auto simp: find_None_iff)
    then obtain b where fb: "find ?free (rev xs) = Some b" by blast
    have b: "b < NBUF" "b_refcnt (bufs s b) = 0" using findSomeD[OF fb] xs(2) by simp_all
    obtain s' where s': "iderw b (upd_buf b (\<lambda>x. x\<lparr>b_flags := 0, b_dev := 1, b_blockno := n, b_refcnt := 1\<rparr>) s) = Some s'"
      "bio_ok s'" "pins s' = (pins s)(b := pins s b + 1)"
      "bkey s' = (bkey s)(b := n)" "blocks s' = blocks s" "outside s' = outside s" "bdata s' b = blocks s n"
      by (rule bread_miss[OF ok pins b fresh n refl])
    have "bread 1 n s = Some (b, s')"
      using None fb s'(1) by (simp add: bread_def bget_ring[OF xs(1)])
    moreover have "pins s b = 0" using b by (simp add: pins_def)
    ultimately show ?thesis using s' b by auto
  qed
qed

lemma pins_held: "pins s b > 0 \<Longrightarrow> b < NBUF"
  by (simp add: pins_def split: if_splits)

lemma held_buf:
  assumes "bio_ok s" "pins s b > 0"
  shows "b_dev (bufs s b) = 1" "b_blockno (bufs s b) < FSSIZE" "b_flags (bufs s b) = B_VALID"
    "b_data (bufs s b) = disk s 1 (b_blockno (bufs s b))"
  using bio_okD(3)[OF assms(1) pins_held[OF assms(2)]] assms(2)
  by (auto simp: buf_ok_def pins_def split: if_splits)

lemma bdata_held: "bio_ok s \<Longrightarrow> pins s b > 0 \<Longrightarrow> bdata s b = blocks s (bkey s b)"
  by (simp add: held_buf bdata_def blocks_def bkey_def)

lemma bkey_held: "bio_ok s \<Longrightarrow> pins s b > 0 \<Longrightarrow> bkey s b < FSSIZE"
  by (simp add: held_buf bkey_def)

lemma bwrite_law:
  assumes ok: "bio_ok s" and held: "pins s b > 0" and d: "length d = BSIZE"
  shows "\<exists>s'. bwrite b (set_bdata b d s) = Some s' \<and> bio_ok s' \<and> pins s' = pins s \<and> bkey s' = bkey s
    \<and> blocks s' = (blocks s)(bkey s b := d) \<and> outside s' = outside s"
proof -
  have b: "b < NBUF" using pins_held[OF held] .
  note h = held_buf[OF ok held]
  define s1 where "s1 = upd_buf b (\<lambda>x. x\<lparr>b_flags := b_flags x OR B_DIRTY\<rparr>) (set_bdata b d s)"
  have b1: "bufs s1 b = (bufs s b)\<lparr>b_data := d, b_flags := B_VALID OR B_DIRTY\<rparr>"
    using h by (simp add: s1_def set_bdata_def)
  have env1: "env_ok s1" using bio_okD(1)[OF ok] by (simp add: env_ok_def s1_def set_bdata_def ata_live_def ata_clean_def)
  obtain s' where s': "iderw b s1 = Some s'" "ide_frame s1 s'" "idequeue s' = None"
    "bufs s' = (bufs s1)(b := rw_buf s1 b)" "disk s' = rw_disk s1 b"
    by (rule iderw_idle[of s1 b]) (use env1 b1 h in \<open>simp_all add: env_ok_def ide_consts\<close>)
  have dirty: "rw_dirty s1 b" by (simp add: rw_dirty_def b1 ide_consts)
  have x: "bufs s' = (bufs s)(b := rw_buf s1 b)" using s'(4) by (simp add: s1_def set_bdata_def)
  have rb: "b_flags (rw_buf s1 b) = B_VALID" "b_dev (rw_buf s1 b) = 1" "b_blockno (rw_buf s1 b) = b_blockno (bufs s b)"
    "b_refcnt (rw_buf s1 b) = b_refcnt (bufs s b)" "b_data (rw_buf s1 b) = d"
    "b_next (rw_buf s1 b) = b_next (bufs s b)" "b_prev (rw_buf s1 b) = b_prev (bufs s b)"
    using dirty h by (simp_all add: rw_buf_def b1 ide_consts)
  have dk: "disk s' = (disk s)(1 := (disk s 1)(b_blockno (bufs s b) := d))"
    using s'(5) dirty h by (simp add: rw_disk_def b1) (simp add: s1_def set_bdata_def)
  have ring: "ring s' xs = ring s xs" for xs by (rule ring_upd[OF x]) (simp_all add: rb)
  have un: "i = j" if "i < NBUF" "j < NBUF" "b_dev (bufs s' i) = 1" "b_dev (bufs s' j) = 1"
    "b_blockno (bufs s' i) = b_blockno (bufs s' j)" for i j
    using that bio_okD(4)[OF ok, of i j] h by (auto simp: x rb split: if_splits)
  have bk: "buf_ok s' i" if "i < NBUF" for i
    using bio_okD(3)[OF ok that] h bio_okD(4)[OF ok that b] by (auto simp: buf_ok_def x rb dk)
  have env: "env_ok s'" using env1 s'(2,3) env_ok_frame[of s1 s'] by (simp add: env_ok_def)
  have len: "length (disk s' 1 k) = BSIZE" for k using ok d by (simp add: dk bio_ok_def)
  have "bio_ok s'" unfolding bio_ok_def ring using env bk un len bio_okD(2)[OF ok] by blast
  moreover have "pins s' = pins s" "bkey s' = bkey s" "blocks s' = (blocks s)(bkey s b := d)"
    by (auto simp: x rb dk pins_def bkey_def blocks_def fun_eq_iff)
  moreover have "outside s' = outside s" using ide_frame_outside[OF s'(2)] by (simp add: s1_def set_bdata_def)
  ultimately show ?thesis using s'(1) by (auto simp: bwrite_def s1_def)
qed

lemma env_ok_upd_buf [simp]: "env_ok (upd_buf b f s) = env_ok s"
  by (simp add: env_ok_def ata_live_def ata_clean_def)

lemma set_link_simps [simp]:
  "outside (set_next a v s) = outside s" "outside (set_prev a v s) = outside s"
  "disk (set_next a v s) = disk s" "disk (set_prev a v s) = disk s"
  "env_ok (set_next a v s) = env_ok s" "env_ok (set_prev a v s) = env_ok s"
  by (simp_all add: set_next_def set_prev_def env_ok_def ata_live_def ata_clean_def)

lemma set_link_buf [simp]:
  "b_dev (bufs (set_next a v s) i) = b_dev (bufs s i)" "b_dev (bufs (set_prev a v s) i) = b_dev (bufs s i)"
  "b_blockno (bufs (set_next a v s) i) = b_blockno (bufs s i)" "b_blockno (bufs (set_prev a v s) i) = b_blockno (bufs s i)"
  "b_flags (bufs (set_next a v s) i) = b_flags (bufs s i)" "b_flags (bufs (set_prev a v s) i) = b_flags (bufs s i)"
  "b_refcnt (bufs (set_next a v s) i) = b_refcnt (bufs s i)" "b_refcnt (bufs (set_prev a v s) i) = b_refcnt (bufs s i)"
  "b_data (bufs (set_next a v s) i) = b_data (bufs s i)" "b_data (bufs (set_prev a v s) i) = b_data (bufs s i)"
  by (simp_all add: set_next_def set_prev_def)

text \<open>\<open>brelse\<close> drops one reference and, at the last one, moves the buffer to the front of the list.\<close>

lemma brelse_ring:
  assumes "ring s xs" "b \<in> set xs"
  shows "ring (brelse b s) (if b_refcnt (bufs s b) = 1 then b # remove1 b xs else xs)"
proof -
  define s1 where "s1 = upd_buf b (\<lambda>x. x\<lparr>b_refcnt := b_refcnt x - 1\<rparr>) s"
  have r1: "ring s1 xs" using assms(1) ring_upd[of s1 s b "bufs s1 b" xs] by (simp add: s1_def)
  obtain ys zs where xs: "xs = ys @ b # zs" "b \<notin> set ys" using split_list_first[OF assms(2)] by blast
  have d: "distinct (bhead # xs)" using assms(1) by (simp add: ring_def)
  have bn: "nx s1 b \<noteq> b"
  proof -
    have "nx s1 b = hd (zs @ [bhead])"
      using chain_unlink(1)[of "nx s1" bhead ys b zs] r1 d xs by (simp add: ring_def)
    then show ?thesis using d xs by (cases zs) auto
  qed
  have pvb: "pv (set_prev (nx s1 b) (pv s1 b) s1) b = pv s1 b" using bn by simp
  show ?thesis
  proof (cases "b_refcnt (bufs s b) = 1")
    case True
    have "ring (link_front b (set_next (pv s1 b) (nx s1 b) (set_prev (nx s1 b) (pv s1 b) s1))) (b # ys @ zs)"
      using r1 xs d by (intro link_front_ring unlink_ring) auto
    moreover have "brelse b s = link_front b (set_next (pv s1 b) (nx s1 b) (set_prev (nx s1 b) (pv s1 b) s1))"
      using True pvb by (simp add: brelse_def s1_def[symmetric] Let_def) (simp add: s1_def)
    ultimately show ?thesis using True xs by (simp add: remove1_append)
  next
    case False
    then have "brelse b s = s1" by (simp add: brelse_def s1_def Let_def)
    then show ?thesis using False r1 by simp
  qed
qed

lemma link_front_simps [simp]:
  "outside (link_front b s) = outside s" "disk (link_front b s) = disk s" "env_ok (link_front b s) = env_ok s"
  "b_dev (bufs (link_front b s) i) = b_dev (bufs s i)" "b_blockno (bufs (link_front b s) i) = b_blockno (bufs s i)"
  "b_flags (bufs (link_front b s) i) = b_flags (bufs s i)" "b_refcnt (bufs (link_front b s) i) = b_refcnt (bufs s i)"
  "b_data (bufs (link_front b s) i) = b_data (bufs s i)"
  by (simp_all add: link_front_def Let_def)

lemma brelse_fields:
  "outside (brelse b s) = outside s" "disk (brelse b s) = disk s" "env_ok (brelse b s) = env_ok s"
  "b_dev (bufs (brelse b s) i) = b_dev (bufs s i)" "b_blockno (bufs (brelse b s) i) = b_blockno (bufs s i)"
  "b_flags (bufs (brelse b s) i) = b_flags (bufs s i)" "b_data (bufs (brelse b s) i) = b_data (bufs s i)"
  "b_refcnt (bufs (brelse b s) i) = (if i = b then b_refcnt (bufs s b) - 1 else b_refcnt (bufs s i))"
  by (simp_all add: brelse_def Let_def)

lemma brelse_law:
  assumes ok: "bio_ok s" and held: "pins s b > 0"
  shows "bio_ok (brelse b s)" "pins (brelse b s) = (pins s)(b := pins s b - 1)" "bkey (brelse b s) = bkey s"
    "blocks (brelse b s) = blocks s" "outside (brelse b s) = outside s"
proof -
  have b: "b < NBUF" using pins_held[OF held] .
  obtain xs where xs: "ring s xs" "set xs = {..<NBUF}" using bio_okD(2)[OF ok] by blast
  have bx: "b \<in> set xs" using b xs by simp
  have "set (if b_refcnt (bufs s b) = 1 then b # remove1 b xs else xs) = {..<NBUF}"
    using xs bx by (auto simp: ring_def set_remove1_eq)
  then have rg: "\<exists>ys. ring (brelse b s) ys \<and> set ys = {..<NBUF}"
    using brelse_ring[OF xs(1) bx] by blast
  have bk: "buf_ok (brelse b s) i" if "i < NBUF" for i
    using bio_okD(3)[OF ok that] held_buf[OF ok held] by (auto simp: buf_ok_def brelse_fields)
  show "bio_ok (brelse b s)"
    unfolding bio_ok_def brelse_fields using rg bk ok by (simp add: bio_ok_def)
  have "unat (b_refcnt (bufs s b) - 1) = unat (b_refcnt (bufs s b)) - 1"
    using held b by (simp add: pins_def unat_minus_one unat_gt_0)
  then show "pins (brelse b s) = (pins s)(b := pins s b - 1)"
    using b by (auto simp: pins_def brelse_fields fun_eq_iff)
  show "bkey (brelse b s) = bkey s" "blocks (brelse b s) = blocks s" "outside (brelse b s) = outside s"
    by (auto simp: bkey_def blocks_def brelse_fields fun_eq_iff)
qed

section \<open>The cache provides the block store\<close>

interpretation bc: block_cache bread bwrite brelse bdata set_bdata bio_ok pins bkey blocks outside NBUF FSSIZE BSIZE
proof unfold_locales
  fix s :: "'a ide_scheme" and n :: u32
  assume "bio_ok s" "n < FSSIZE" "sum (pins s) {..<NBUF} < NBUF"
  then show "\<exists>b s'. bread 1 n s = Some (b, s') \<and> b < NBUF \<and> bio_ok s' \<and> pins s' = (pins s)(b := pins s b + 1)
      \<and> bkey s' b = n \<and> bdata s' b = blocks s n \<and> blocks s' = blocks s \<and> outside s' = outside s
      \<and> (\<forall>c. pins s c > 0 \<longrightarrow> bkey s' c = bkey s c)"
    using bread_law[of s n] by (simp add: npins_def)
next
  fix s :: "'a ide_scheme" and b :: nat and d :: "u8 list"
  assume "bio_ok s" "0 < pins s b" "length d = BSIZE"
  then show "\<exists>s'. bwrite b (set_bdata b d s) = Some s' \<and> bio_ok s' \<and> pins s' = pins s \<and> bkey s' = bkey s
      \<and> blocks s' = (blocks s)(bkey s b := d) \<and> outside s' = outside s"
    by (rule bwrite_law)
next
  fix s :: "'a ide_scheme" and b :: nat and n :: u32
  assume ok: "bio_ok s"
  show "length (blocks s n) = BSIZE" using bio_okD(5)[OF ok] by (simp add: blocks_def)
  assume "0 < pins s b"
  with ok show "bio_ok (brelse b s) \<and> pins (brelse b s) = (pins s)(b := pins s b - 1) \<and> bkey (brelse b s) = bkey s
      \<and> blocks (brelse b s) = blocks s \<and> outside (brelse b s) = outside s"
    "bdata s b = blocks s (bkey s b) \<and> b < NBUF"
    by (simp_all add: brelse_law bdata_held pins_held)
qed

end
