(* ===== verification/Fs_Layout.thy ===== *)
theory Fs_Layout
  imports Bio
begin

text \<open>
  include/fs.h, include/file.h and include/stat.h: the structures of the file system on disk
  (super block, inode, directory entry) and in memory (inode cache), the layout macros, and the
  state of fs/fs.c. On-disk structures are byte strings; the encoders and decoders below are the
  C layouts of the structs (little-endian, no padding), and they are inverse to each other.
\<close>

unbundle bit_operations_syntax

definition NDIRECT :: nat where "NDIRECT = 12"
definition NINDIRECT :: nat where "NINDIRECT = BSIZE div 4"
definition MAXFILE :: nat where "MAXFILE = NDIRECT + NINDIRECT"
definition NINODE :: nat where "NINODE = 50"
definition NDEV :: int where "NDEV = 10"
definition ROOTDEV :: u32 where "ROOTDEV = 1"
definition ROOTINO :: u32 where "ROOTINO = 1"
definition IPB :: nat where "IPB = BSIZE div 64"
definition BPB :: nat where "BPB = BSIZE * 8"
definition DIRSIZ :: nat where "DIRSIZ = 14"
definition T_DIR :: u16 where "T_DIR = 1"
definition T_FILE :: u16 where "T_FILE = 2"
definition T_DEV :: u16 where "T_DEV = 3"

lemmas fs_consts = NDIRECT_def NINDIRECT_def MAXFILE_def NINODE_def NDEV_def IPB_def BPB_def DIRSIZ_def
  BSIZE_def ROOTDEV_def ROOTINO_def T_DIR_def T_FILE_def T_DEV_def

section \<open>Structures\<close>

record superblock =
  sb_size :: u32
  sb_nblocks :: u32
  sb_ninodes :: u32
  sb_nlog :: u32
  sb_logstart :: u32
  sb_inodestart :: u32
  sb_bmapstart :: u32

record dinode =
  d_type :: u16
  d_major :: u16
  d_minor :: u16
  d_nlink :: u16
  d_size :: u32
  d_addrs :: "u32 list"

record inode =
  i_dev :: u32
  i_inum :: u32
  i_ref :: int
  i_valid :: bool
  i_type :: u16
  i_major :: u16
  i_minor :: u16
  i_nlink :: u16
  i_size :: u32
  i_addrs :: "u32 list"

record stat =
  st_type :: u16
  st_dev :: u32
  st_ino :: u32
  st_nlink :: u16
  st_size :: u32

text \<open>The function pointers of the device table: the console's write routine is the only one the
  kernel ever installs.\<close>

datatype dev_fn = Screenewrite

record devsw_entry =
  dev_read :: "dev_fn option"
  dev_write :: "dev_fn option"

record fs = ide +
  sb :: superblock
  icache :: "nat \<Rightarrow> inode"
  devsw :: "nat \<Rightarrow> devsw_entry"

definition upd_inode :: "nat \<Rightarrow> (inode \<Rightarrow> inode) \<Rightarrow> 'a fs_scheme \<Rightarrow> 'a fs_scheme" where
  "upd_inode ip f s = s\<lparr>icache := (icache s)(ip := f (icache s ip))\<rparr>"

section \<open>Layout on disk\<close>

definition BBLOCK :: "u32 \<Rightarrow> superblock \<Rightarrow> u32" where
  "BBLOCK b x = b div of_nat BPB + sb_bmapstart x"

definition IBLOCK :: "u32 \<Rightarrow> superblock \<Rightarrow> u32" where
  "IBLOCK i x = i div of_nat IPB + sb_inodestart x"

text \<open>The byte offset of inode \<open>inum\<close> in its block: \<open>(struct dinode* )bp->data + inum%IPB\<close>.\<close>

definition dinode_off :: "u32 \<Rightarrow> nat" where
  "dinode_off inum = 64 * (unat inum mod IPB)"

definition dec_superblock :: "u8 list \<Rightarrow> superblock" where
  "dec_superblock bs = \<lparr>sb_size = rd32 0 bs, sb_nblocks = rd32 4 bs, sb_ninodes = rd32 8 bs, sb_nlog = rd32 12 bs,
     sb_logstart = rd32 16 bs, sb_inodestart = rd32 20 bs, sb_bmapstart = rd32 24 bs\<rparr>"

definition enc_superblock :: "superblock \<Rightarrow> u8 list" where
  "enc_superblock x = to_le 4 (sb_size x) @ to_le 4 (sb_nblocks x) @ to_le 4 (sb_ninodes x) @ to_le 4 (sb_nlog x)
     @ to_le 4 (sb_logstart x) @ to_le 4 (sb_inodestart x) @ to_le 4 (sb_bmapstart x)"

definition enc_words :: "u32 list \<Rightarrow> u8 list" where
  "enc_words ws = concat (map (to_le 4) ws)"

definition dec_words :: "nat \<Rightarrow> u8 list \<Rightarrow> u32 list" where
  "dec_words n bs = map (\<lambda>k. rd32 (4 * k) bs) [0..<n]"

definition enc_dinode :: "dinode \<Rightarrow> u8 list" where
  "enc_dinode d = to_le 2 (d_type d) @ to_le 2 (d_major d) @ to_le 2 (d_minor d) @ to_le 2 (d_nlink d)
     @ to_le 4 (d_size d) @ enc_words (d_addrs d)"

definition dec_dinode :: "u8 list \<Rightarrow> dinode" where
  "dec_dinode bs = \<lparr>d_type = rd16 0 bs, d_major = rd16 2 bs, d_minor = rd16 4 bs, d_nlink = rd16 6 bs,
     d_size = rd32 8 bs, d_addrs = dec_words (NDIRECT + 1) (drop 12 bs)\<rparr>"

definition enc_dirent :: "u16 \<Rightarrow> u8 list \<Rightarrow> u8 list" where
  "enc_dirent inum name = to_le 2 inum @ name"

definition de_inum :: "u8 list \<Rightarrow> u16" where "de_inum bs = rd16 0 bs"
definition de_name :: "u8 list \<Rightarrow> u8 list" where "de_name bs = slice 2 DIRSIZ bs"

lemma length_enc_words [simp]: "length (enc_words ws) = 4 * length ws"
  by (induction ws) (simp_all add: enc_words_def)

lemma rd32_enc_words:
  "k < length ws \<Longrightarrow> rd32 (4 * k) (enc_words ws @ rest) = ws ! k"
proof (induction ws arbitrary: k)
  case Nil
  then show ?case by simp
next
  case (Cons w ws)
  show ?case
  proof (cases k)
    case 0
    then show ?thesis by (simp add: enc_words_def rd32_def)
  next
    case (Suc j)
    then have "rd32 (4 * k) (enc_words (w # ws) @ rest) = rd32 (4 * j) (enc_words ws @ rest)"
      by (simp add: enc_words_def rd32_def slice_append_right)
    then show ?thesis using Suc Cons by simp
  qed
qed

lemma dec_enc_words: "length ws = n \<Longrightarrow> dec_words n (enc_words ws @ rest) = ws"
  by (rule nth_equalityI) (auto simp: dec_words_def rd32_enc_words)

text \<open>The on-disk form of an inode is 64 bytes and decodes to the inode.\<close>

lemma length_enc_dinode [simp]: "length (enc_dinode d) = 12 + 4 * length (d_addrs d)"
  by (simp add: enc_dinode_def)

lemma dec_enc_dinode:
  assumes "length (d_addrs d) = NDIRECT + 1"
  shows "dec_dinode (enc_dinode d @ rest) = d"
  using assms
  by (cases d) (simp add: dec_dinode_def enc_dinode_def rd16_def rd32_def slice_append_right
      dec_enc_words numeral_2_eq_2[symmetric])

lemma length_enc_superblock [simp]: "length (enc_superblock x) = 28"
  by (simp add: enc_superblock_def)

lemma dec_enc_superblock: "dec_superblock (enc_superblock x @ rest) = x"
  by (cases x) (simp add: dec_superblock_def enc_superblock_def rd32_def slice_append_right)

lemma dirent_roundtrip:
  assumes "length name = DIRSIZ"
  shows "length (enc_dirent inum name) = 16" "de_inum (enc_dirent inum name) = inum"
    "de_name (enc_dirent inum name) = name"
  using assms by (simp_all add: enc_dirent_def de_inum_def de_name_def rd16_def slice_append_right fs_consts)

section \<open>Layering\<close>

text \<open>What the cache leaves alone is in particular the state of the file system.\<close>

lemma outside_fs:
  assumes "outside s' = outside (s :: 'a fs_scheme)"
  shows "sb s' = sb s" "icache s' = icache s" "devsw s' = devsw s" "fs.more s' = fs.more s"
    "vidmem s' = vidmem s" "crtc_reg s' = crtc_reg s" "env_in s' = env_in s"
  using assms by (cases s; cases s'; simp add: outside_def)+

lemma holds_fs:
  assumes "bc.holds (s :: 'a fs_scheme) n b s1"
  shows "sb s1 = sb s" "icache s1 = icache s" "bio_ok s1" "blocks s1 = blocks s"
  using assms by (auto simp: bc.holds_def dest: outside_fs)

lemma evolves_fs:
  assumes "bc.evolves (s :: 'a fs_scheme) D s1"
  shows "sb s1 = sb s" "icache s1 = icache s" "bio_ok s1" "blocks s1 = D" "bc.room k s1 = bc.room k s"
  using assms by (auto simp: bc.evolves_def bc.room_def dest: outside_fs)

lemma icache_update_bio [simp]:
  "bio_ok (s\<lparr>icache := c\<rparr>) = bio_ok s" "pins (s\<lparr>icache := c\<rparr>) = pins s" "bkey (s\<lparr>icache := c\<rparr>) = bkey s"
  "blocks (s\<lparr>icache := c\<rparr>) = blocks s"
  by (simp_all add: bio_ok_def env_ok_def ata_live_def ata_clean_def ring_def nx_eta pv_eta buf_ok_def
      pins_def bkey_def blocks_def fun_eq_iff)

lemma sb_update_bio [simp]:
  "bio_ok (s\<lparr>sb := c\<rparr>) = bio_ok s" "pins (s\<lparr>sb := c\<rparr>) = pins s" "bkey (s\<lparr>sb := c\<rparr>) = bkey s"
  "blocks (s\<lparr>sb := c\<rparr>) = blocks s"
  by (simp_all add: bio_ok_def env_ok_def ata_live_def ata_clean_def ring_def nx_eta pv_eta buf_ok_def
      pins_def bkey_def blocks_def fun_eq_iff)

text \<open>
  A step of the file system: the disk becomes \<open>D\<close>, buffers are neither leaked nor stolen, and
  everything above the file system, the console and the super block are as before. The inode
  cache is free to change.
\<close>

definition fs_step :: "'a fs_scheme \<Rightarrow> (u32 \<Rightarrow> u8 list) \<Rightarrow> 'a fs_scheme \<Rightarrow> bool" where
  "fs_step s D s' \<longleftrightarrow> bio_ok s' \<and> pins s' = pins s \<and> blocks s' = D \<and> (\<forall>c. pins s c > 0 \<longrightarrow> bkey s' c = bkey s c)
     \<and> vidmem s' = vidmem s \<and> crtc_reg s' = crtc_reg s \<and> env_in s' = env_in s
     \<and> sb s' = sb s \<and> devsw s' = devsw s \<and> fs.more s' = fs.more s"

lemma evolves_fs_step: "bc.evolves s D s' \<Longrightarrow> fs_step s D s'"
  by (auto simp: fs_step_def bc.evolves_def dest: outside_fs)

lemma fs_step_evolves: "fs_step s D s' \<Longrightarrow> icache s' = icache s \<Longrightarrow> bc.evolves s D s'"
  by (cases s; cases s') (auto simp: fs_step_def bc.evolves_def outside_def)

lemma fs_step_trans: "fs_step s D t \<Longrightarrow> fs_step t E u \<Longrightarrow> fs_step s E u"
  by (simp add: fs_step_def)

lemma fs_step_refl: "bio_ok s \<Longrightarrow> fs_step s (blocks s) s"
  by (simp add: fs_step_def)

lemma fs_step_upd_inode:
  "bio_ok s \<Longrightarrow> fs_step s (blocks s) (upd_inode ip f s)"
  by (simp add: fs_step_def upd_inode_def)

lemma fs_stepD:
  assumes "fs_step s D s'"
  shows "bio_ok s'" "pins s' = pins s" "blocks s' = D" "sb s' = sb s" "devsw s' = devsw s" "bc.room k s' = bc.room k s"
  using assms by (simp_all add: fs_step_def bc.room_def)

end
