(* ===== verification/Balloc.thy ===== *)
theory Balloc
  imports Fs_Layout
begin

text \<open>
  fs/fs.c, the block layer: reading the super block, zeroing a block, and the bitmap allocator
  \<open>balloc\<close> / \<open>bfree\<close>. The abstract specification (\<open>used\<close>, \<open>mark\<close>, \<open>unmark\<close>) is over the contents
  of the disk; the operations are shown to implement it through the laws of the block cache.
\<close>

unbundle bit_operations_syntax

definition readsb :: "u32 \<Rightarrow> 'a fs_scheme \<Rightarrow> (superblock \<times> 'a fs_scheme) option" where
  "readsb dev s = do {
     (bp, s1) \<leftarrow> bread dev 1 s;
     let x = dec_superblock (bdata s1 bp);
     Some (x, brelse bp s1)
   }"

definition bzero :: "u32 \<Rightarrow> u32 \<Rightarrow> 'a fs_scheme \<Rightarrow> 'a fs_scheme option" where
  "bzero dev bno s = do {
     (bp, s1) \<leftarrow> bread dev bno s;
     s2 \<leftarrow> bwrite bp (set_bdata bp (replicate BSIZE 0) s1);
     Some (brelse bp s2)
   }"

text \<open>The inner loop of \<open>balloc\<close>: the first clear bit of this bitmap block, below the disk's size.\<close>

function balloc_bit :: "nat \<Rightarrow> nat \<Rightarrow> nat \<Rightarrow> u8 list \<Rightarrow> nat option" where
  "balloc_bit b bi sz bits =
     (if bi < BPB \<and> b + bi < sz
      then (if bits ! (bi div 8) AND push_bit (bi mod 8) 1 = 0 then Some bi else balloc_bit b (Suc bi) sz bits)
      else None)"
  by pat_completeness auto
termination by (relation "measure (\<lambda>(b, bi, sz, bits). BPB - bi)") auto

declare balloc_bit.simps [simp del]

text \<open>The outer loop: \<open>b\<close> is a C \<open>int\<close>, whose overflow is undefined.\<close>

partial_function (option) balloc_loop :: "u32 \<Rightarrow> nat \<Rightarrow> 'a fs_scheme \<Rightarrow> (u32 \<times> 'a fs_scheme) option" where
  [code]: "balloc_loop dev b s =
     (if b < unat (sb_size (sb s))
      then Option.bind (bread dev (BBLOCK (of_nat b) (sb s)) s) (\<lambda>(bp, s1).
        case balloc_bit b 0 (unat (sb_size (sb s1))) (bdata s1 bp) of
          Some bi \<Rightarrow>
            do {
              let d = bdata s1 bp;
              s2 \<leftarrow> bwrite bp (set_bdata bp (d[bi div 8 := d ! (bi div 8) OR push_bit (bi mod 8) 1]) s1);
              let s3 = brelse bp s2;
              s4 \<leftarrow> bzero dev (of_nat (b + bi)) s3;
              Some (of_nat (b + bi), s4)
            }
        | None \<Rightarrow> if b + BPB < 2 ^ 31 then balloc_loop dev (b + BPB) (brelse bp s1) else None)
      else Some (- 1, kprint ''balloc: out of blocks'' s))"

definition balloc :: "u32 \<Rightarrow> 'a fs_scheme \<Rightarrow> (u32 \<times> 'a fs_scheme) option" where
  "balloc dev s = balloc_loop dev 0 s"

definition bfree :: "u32 \<Rightarrow> u32 \<Rightarrow> 'a fs_scheme \<Rightarrow> 'a fs_scheme option" where
  "bfree dev b s = do {
     (x, s1) \<leftarrow> readsb dev s;
     let s2 = s1\<lparr>sb := x\<rparr>;
     (bp, s3) \<leftarrow> bread dev (BBLOCK b (sb s2)) s2;
     let bi = unat b mod BPB;
     let m = push_bit (bi mod 8) 1;
     let s4 = (if bdata s3 bp ! (bi div 8) AND m = 0 then kprint ''freeing free block'' s3 else s3);
     let d = bdata s4 bp;
     s5 \<leftarrow> bwrite bp (set_bdata bp (d[bi div 8 := d ! (bi div 8) AND NOT m]) s4);
     Some (brelse bp s5)
   }"

section \<open>The bitmap\<close>

definition bit_set :: "u8 list \<Rightarrow> nat \<Rightarrow> bool" where
  "bit_set bs k \<longleftrightarrow> bit (bs ! (k div 8)) (k mod 8)"

definition set_bit_at :: "nat \<Rightarrow> u8 list \<Rightarrow> u8 list" where
  "set_bit_at k bs = bs[k div 8 := bs ! (k div 8) OR push_bit (k mod 8) 1]"

definition clear_bit_at :: "nat \<Rightarrow> u8 list \<Rightarrow> u8 list" where
  "clear_bit_at k bs = bs[k div 8 := bs ! (k div 8) AND NOT (push_bit (k mod 8) 1)]"

lemma length_bit_at [simp]: "length (set_bit_at k bs) = length bs" "length (clear_bit_at k bs) = length bs"
  by (simp_all add: set_bit_at_def clear_bit_at_def)

lemma test_bit_mask: "(x AND push_bit j 1 = 0) = (\<not> bit (x :: u8) j)"
proof -
  have "x AND push_bit j 1 = (if bit x j then push_bit j 1 else 0)"
    by (rule bit_word_eqI) (auto simp: bit_simps)
  moreover have "push_bit j (1 :: u8) \<noteq> 0" if "bit x j"
    using bit_imp_le_length[OF that] by (auto simp: push_bit_eq_0_iff dest!: arg_cong[where f = "\<lambda>w. bit w j"])
  ultimately show ?thesis by auto
qed

lemma bit_set_set_bit_at:
  assumes "k < 8 * length bs"
  shows "bit_set (set_bit_at k bs) j \<longleftrightarrow> j = k \<or> bit_set bs j"
proof -
  have "k div 8 < length bs" using assms by linarith
  then show ?thesis
    by (cases "j div 8 = k div 8") (auto simp: bit_set_def set_bit_at_def bit_simps nth_list_update,
        (metis div_mult_mod_eq)+)
qed

lemma bit_set_clear_bit_at:
  assumes "k < 8 * length bs"
  shows "bit_set (clear_bit_at k bs) j \<longleftrightarrow> j \<noteq> k \<and> bit_set bs j"
proof -
  have "k div 8 < length bs" using assms by linarith
  then show ?thesis
    by (cases "j div 8 = k div 8") (auto simp: bit_set_def clear_bit_at_def bit_simps nth_list_update,
        (metis div_mult_mod_eq)+)
qed

section \<open>The abstract allocator\<close>

definition used :: "superblock \<Rightarrow> (u32 \<Rightarrow> u8 list) \<Rightarrow> nat \<Rightarrow> bool" where
  "used x D k \<longleftrightarrow> bit_set (D (sb_bmapstart x)) k"

definition mark :: "superblock \<Rightarrow> nat \<Rightarrow> (u32 \<Rightarrow> u8 list) \<Rightarrow> u32 \<Rightarrow> u8 list" where
  "mark x k D = D(sb_bmapstart x := set_bit_at k (D (sb_bmapstart x)))"

definition unmark :: "superblock \<Rightarrow> nat \<Rightarrow> (u32 \<Rightarrow> u8 list) \<Rightarrow> u32 \<Rightarrow> u8 list" where
  "unmark x k D = D(sb_bmapstart x := clear_bit_at k (D (sb_bmapstart x)))"

definition first_free :: "superblock \<Rightarrow> (u32 \<Rightarrow> u8 list) \<Rightarrow> nat option" where
  "first_free x D = find (\<lambda>k. \<not> used x D k) [0..<unat (sb_size x)]"

definition alloc_blk :: "superblock \<Rightarrow> nat \<Rightarrow> (u32 \<Rightarrow> u8 list) \<Rightarrow> u32 \<Rightarrow> u8 list" where
  "alloc_blk x k D = (mark x k D)(of_nat k := replicate BSIZE 0)"

text \<open>The disk fits the driver's limit and the bitmap is one block of it.\<close>

definition sb_ok :: "superblock \<Rightarrow> bool" where
  "sb_ok x \<longleftrightarrow> sb_size x \<le> FSSIZE \<and> sb_bmapstart x < FSSIZE"

lemma sb_ok_size: "sb_ok x \<Longrightarrow> unat (sb_size x) \<le> 1000"
  by (simp add: sb_ok_def FSSIZE_def word_le_nat_alt)

lemma first_free_bound: "sb_ok x \<Longrightarrow> first_free x D = Some k \<Longrightarrow> k < 1000 \<and> \<not> used x D k \<and> k < unat (sb_size x)"
  using sb_ok_size[of x] by (auto simp: first_free_def dest!: findSomeD)

lemma of_nat_block: "k < 1000 \<Longrightarrow> (of_nat k :: u32) < FSSIZE \<and> unat (of_nat k :: u32) = k"
  by (simp add: FSSIZE_def word_less_nat_alt unat_of_nat_u32)

lemma BBLOCK_small: "b < 4096 \<Longrightarrow> BBLOCK (of_nat b) x = sb_bmapstart x"
proof -
  assume b: "b < 4096"
  then have "unat ((of_nat b :: u32) div 4096) = 0" by (simp add: unat_div unat_of_nat_u32)
  then have "(of_nat b :: u32) div 4096 = 0" by (simp add: unat_eq_0)
  then show ?thesis by (simp add: BBLOCK_def fs_consts)
qed

lemma balloc_bit_find:
  "bi \<le> BPB \<Longrightarrow> sz \<le> BPB \<Longrightarrow> balloc_bit 0 bi sz bits = find (\<lambda>k. \<not> bit_set bits k) [bi..<sz]"
proof (induction "0 :: nat" bi sz bits rule: balloc_bit.induct)
  case (1 bi sz bits)
  show ?case
  proof (cases "bi < sz")
    case True
    then have "[bi..<sz] = bi # [Suc bi..<sz]" by (rule upt_conv_Cons)
    then show ?thesis using 1 True
      by (subst balloc_bit.simps) (auto simp: test_bit_mask[simplified] bit_set_def)
  next
    case False
    then show ?thesis by (subst balloc_bit.simps) simp
  qed
qed

lemma length_blocks: "bio_ok s \<Longrightarrow> length (blocks s n) = BSIZE"
  by (rule bc.block_length)

lemma bzero_ok:
  assumes "bio_ok s" "n < FSSIZE" "bc.room 1 s"
  obtains s' where "bzero 1 n s = Some s'" "bc.evolves s ((blocks s)(n := replicate BSIZE 0)) s'"
proof -
  obtain b s1 s2 where "bread 1 n s = Some (b, s1)" "bdata s1 b = blocks s n" "outside s1 = outside s"
    "bwrite b (set_bdata b (replicate BSIZE 0) s1) = Some s2"
    "bc.evolves s ((blocks s)(n := replicate BSIZE 0)) (brelse b s2)"
    by (rule bc.update_block[OF assms, of "\<lambda>_. replicate BSIZE 0"]) simp
  then show ?thesis by (intro that) (simp_all add: bzero_def)
qed

lemma balloc_ok:
  assumes ok: "bio_ok s" and sb: "sb_ok (sb s)" and room: "bc.room 1 s"
    and free: "first_free (sb s) (blocks s) = Some k"
  obtains s' where "balloc 1 s = Some (of_nat k, s')" "bc.evolves s (alloc_blk (sb s) k (blocks s)) s'"
proof -
  let ?bm = "sb_bmapstart (sb s)"
  have sz: "unat (sb_size (sb s)) \<le> BPB" using sb_ok_size[OF sb] by (simp add: fs_consts)
  have k: "k < 1000" "k < unat (sb_size (sb s))" using first_free_bound[OF sb free] by simp_all
  have bm: "?bm < FSSIZE" using sb by (simp add: sb_ok_def)
  have len: "length (set_bit_at k (blocks s ?bm)) = BSIZE" using length_blocks[OF ok] by simp
  obtain b s1 s2 where b: "bread 1 ?bm s = Some (b, s1)" "bdata s1 b = blocks s ?bm" "outside s1 = outside s"
    "bwrite b (set_bdata b (set_bit_at k (blocks s ?bm)) s1) = Some s2"
    and ev: "bc.evolves s ((blocks s)(?bm := set_bit_at k (blocks s ?bm))) (brelse b s2)"
    by (rule bc.update_block[where f = "set_bit_at k", OF ok bm room len])
  have s1: "sb s1 = sb s" using b(3) by (rule outside_fs)
  have bit: "balloc_bit 0 0 (unat (sb_size (sb s))) (blocks s ?bm) = Some k"
    using free sz by (simp add: balloc_bit_find first_free_def used_def[abs_def])
  note e1 = bc.evolvesD[OF ev]
  obtain s4 where s4: "bzero 1 (of_nat k) (brelse b s2) = Some s4"
    "bc.evolves (brelse b s2) ((blocks (brelse b s2))(of_nat k := replicate BSIZE 0)) s4"
    using bzero_ok[of "brelse b s2" "of_nat k"] e1(1,5) room of_nat_block[OF k(1)] by blast
  have "bc.evolves s (alloc_blk (sb s) k (blocks s)) s4"
    using bc.evolves_trans[OF ev s4(2)] e1(3) by (simp add: alloc_blk_def mark_def)
  moreover have "balloc 1 s = Some (of_nat k, s4)"
    using b s4(1) bit k s1 unfolding balloc_def
    by (subst balloc_loop.simps) (simp add: BBLOCK_small[of 0, simplified] set_bit_at_def)
  ultimately show ?thesis by (intro that)
qed

lemma balloc_full:
  assumes ok: "bio_ok s" and sb: "sb_ok (sb s)" and room: "bc.room 1 s"
    and full: "first_free (sb s) (blocks s) = None" and sz0: "sb_size (sb s) \<noteq> 0"
  obtains s1 where "bc.evolves s (blocks s) s1" "balloc 1 s = Some (- 1, kprint ''balloc: out of blocks'' s1)"
proof -
  let ?bm = "sb_bmapstart (sb s)"
  have sz: "unat (sb_size (sb s)) \<le> BPB" using sb_ok_size[OF sb] by (simp add: fs_consts)
  have bm: "?bm < FSSIZE" using sb by (simp add: sb_ok_def)
  have "bc.room (Suc 0) s" using room by simp
  then obtain b s1 where b: "bread 1 ?bm s = Some (b, s1)" "bc.holds s ?bm b s1" "bdata s1 b = blocks s ?bm" "bc.room 0 s1"
    by (rule bc.bread_holds[OF ok bm])
  note h = holds_fs[OF b(2)]
  from bc.release[OF b(2) bc.evolves_refl[OF h(3)]] have ev: "bc.evolves s (blocks s) (brelse b s1)" by (simp add: h)
  note s1 = h(1) and s2 = evolves_fs(1)[OF ev]
  have bit: "balloc_bit 0 0 (unat (sb_size (sb s))) (blocks s ?bm) = None"
    using full sz by (simp add: balloc_bit_find first_free_def used_def[abs_def])
  have "balloc 1 s = balloc_loop 1 (0 + BPB) (brelse b s1)"
    using b bit s1 sz0 unfolding balloc_def
    by (subst balloc_loop.simps) (simp add: BBLOCK_small[of 0, simplified] BPB_def BSIZE_def unat_gt_0)
  also have "\<dots> = Some (- 1, kprint ''balloc: out of blocks'' (brelse b s1))"
    using sz s2 by (subst balloc_loop.simps) simp
  finally show ?thesis using ev by (intro that)
qed

lemma readsb_ok:
  assumes "bio_ok s" "bc.room 1 s"
  obtains s' where "readsb 1 s = Some (dec_superblock (blocks s 1), s')" "bc.evolves s (blocks s) s'"
proof -
  have "(1 :: u32) < FSSIZE" by (simp add: FSSIZE_def)
  then obtain b s1 where "bread 1 1 s = Some (b, s1)" "bdata s1 b = blocks s 1" "outside s1 = outside s"
    "bc.evolves s (blocks s) (brelse b s1)"
    by (rule bc.read_block[OF assms(1) _ assms(2)])
  then show ?thesis by (intro that) (simp_all add: readsb_def)
qed

lemma bfree_ok:
  assumes ok: "bio_ok s" and sb: "sb_ok (sb s)" and room: "bc.room 1 s"
    and disk: "dec_superblock (blocks s 1) = sb s" and b: "unat b < unat (sb_size (sb s))"
    and used: "used (sb s) (blocks s) (unat b)"
  obtains s' where "bfree 1 b s = Some s'" "bc.evolves s (unmark (sb s) (unat b) (blocks s)) s'"
proof -
  let ?bm = "sb_bmapstart (sb s)"
  obtain s1 where s1: "readsb 1 s = Some (sb s, s1)" "bc.evolves s (blocks s) s1"
    using readsb_ok[OF ok room] disk by metis
  note e1 = bc.evolvesD[OF s1(2)]
  have "sb s1 = sb s" using s1(2) by (rule evolves_fs)
  then have sb1: "s1\<lparr>sb := sb s\<rparr> = s1" by (cases s1) simp
  have bm: "?bm < FSSIZE" using sb by (simp add: sb_ok_def)
  have b': "unat b < 4096" "unat b mod BPB = unat b" using b sb_ok_size[OF sb] by (simp_all add: fs_consts)
  have bb: "BBLOCK b (sb s) = ?bm" using BBLOCK_small[OF b'(1), of "sb s"] by simp
  have len: "length (clear_bit_at (unat b) (blocks s1 ?bm)) = BSIZE" using length_blocks[OF e1(1)] by simp
  have room1: "bc.room 1 s1" using e1(5) room by simp
  obtain p s2 s3 where p: "bread 1 ?bm s1 = Some (p, s2)" "bdata s2 p = blocks s1 ?bm" "outside s2 = outside s1"
    "bwrite p (set_bdata p (clear_bit_at (unat b) (blocks s1 ?bm)) s2) = Some s3"
    and ev: "bc.evolves s1 ((blocks s1)(?bm := clear_bit_at (unat b) (blocks s1 ?bm))) (brelse p s3)"
    by (rule bc.update_block[where f = "clear_bit_at (unat b)", OF e1(1) bm room1 len])
  have "bfree 1 b s = Some (brelse p s3)"
    using s1 p e1(3) b' used unfolding bfree_def
    by (simp add: sb1 Let_def bb test_bit_mask[simplified] clear_bit_at_def used_def bit_set_def)
  then show ?thesis
    using bc.evolves_trans[OF s1(2) ev] e1(3) by (intro that) (simp_all add: unmark_def)
qed

end
