(* ===== verification/File_Map.thy ===== *)
theory File_Map
  imports Balloc
begin

text \<open>
  The abstract view of a file, over the contents \<open>D\<close> of the disk: which block holds which part of
  the file (\<open>file_addr\<close>), what a well-formed inode is (\<open>wf_file\<close>), the contents block by block
  (\<open>fblock\<close>, a hole reads as zeros), and how the three ways of adding a block in \<open>bmap\<close> change it.
\<close>

unbundle bit_operations_syntax

definition file_addr :: "(u32 \<Rightarrow> u8 list) \<Rightarrow> u32 list \<Rightarrow> nat \<Rightarrow> u32" where
  "file_addr D as bn =
     (if bn < NDIRECT then as ! bn
      else if as ! NDIRECT = 0 then 0 else rd32 (4 * (bn - NDIRECT)) (D (as ! NDIRECT)))"

definition fblock :: "(u32 \<Rightarrow> u8 list) \<Rightarrow> u32 list \<Rightarrow> nat \<Rightarrow> u8 list" where
  "fblock D as bn = (if file_addr D as bn = 0 then replicate BSIZE 0 else D (file_addr D as bn))"

text \<open>A block in the data area (behind the bitmap) that the bitmap says is in use.\<close>

definition data_blk :: "superblock \<Rightarrow> (u32 \<Rightarrow> u8 list) \<Rightarrow> u32 \<Rightarrow> bool" where
  "data_blk x D a \<longleftrightarrow> sb_bmapstart x < a \<and> a < sb_size x \<and> used x D (unat a)"

definition wf_file :: "superblock \<Rightarrow> (u32 \<Rightarrow> u8 list) \<Rightarrow> u32 list \<Rightarrow> bool" where
  "wf_file x D as \<longleftrightarrow> length as = NDIRECT + 1
     \<and> (\<forall>i<MAXFILE. file_addr D as i \<noteq> 0 \<longrightarrow> data_blk x D (file_addr D as i) \<and> file_addr D as i \<noteq> as ! NDIRECT)
     \<and> (as ! NDIRECT \<noteq> 0 \<longrightarrow> data_blk x D (as ! NDIRECT))
     \<and> (\<forall>i<MAXFILE. \<forall>j<MAXFILE. file_addr D as i \<noteq> 0 \<longrightarrow> file_addr D as i = file_addr D as j \<longrightarrow> i = j)"

text \<open>The well-formed disk: every block up to and including the bitmap is in use, blocks have the
  right length, the bitmap lies inside the disk.\<close>

definition wf_disk :: "superblock \<Rightarrow> (u32 \<Rightarrow> u8 list) \<Rightarrow> bool" where
  "wf_disk x D \<longleftrightarrow> sb_ok x \<and> sb_bmapstart x < sb_size x \<and> (\<forall>n. length (D n) = BSIZE)
     \<and> (\<forall>k \<le> unat (sb_bmapstart x). used x D k)"

definition nfree :: "superblock \<Rightarrow> (u32 \<Rightarrow> u8 list) \<Rightarrow> nat" where
  "nfree x D = card {k. k < unat (sb_size x) \<and> \<not> used x D k}"

lemma wf_diskD:
  assumes "wf_disk x D"
  shows "sb_ok x" "length (D n) = BSIZE" "k \<le> unat (sb_bmapstart x) \<Longrightarrow> used x D k" "sb_bmapstart x < sb_size x"
  using assms by (auto simp: wf_disk_def)

lemma first_free_nfree: "(first_free x D = None) = (nfree x D = 0)"
  by (auto simp: first_free_def find_None_iff nfree_def)

text \<open>A block handed out by the allocator lies behind the bitmap.\<close>

lemma first_free_data:
  assumes wf: "wf_disk x D" and k: "first_free x D = Some k"
  shows "k < 1000" "\<not> used x D k" "sb_bmapstart x < of_nat k" "(of_nat k :: u32) < sb_size x"
    "unat (of_nat k :: u32) = k" "(of_nat k :: u32) \<noteq> 0" "(of_nat k :: u32) \<noteq> sb_bmapstart x"
proof -
  note b = first_free_bound[OF wf_diskD(1)[OF wf] k]
  show "k < 1000" "\<not> used x D k" using b by simp_all
  then have u: "unat (of_nat k :: u32) = k" using of_nat_block by blast
  have "unat (sb_bmapstart x) < k" using wf_diskD(3)[OF wf, of k] b by force
  then show 1: "sb_bmapstart x < of_nat k" by (simp add: word_less_nat_alt u)
  show "(of_nat k :: u32) < sb_size x" using b by (simp add: word_less_nat_alt u)
  show "unat (of_nat k :: u32) = k" by (rule u)
  show "(of_nat k :: u32) \<noteq> 0" "(of_nat k :: u32) \<noteq> sb_bmapstart x" using 1 by auto
qed

lemma used_bit_range: "wf_disk x D \<Longrightarrow> k < 1000 \<Longrightarrow> k < 8 * length (D n)"
  by (simp add: wf_diskD BSIZE_def)

lemma used_alloc_blk:
  assumes "wf_disk x D" "first_free x D = Some k"
  shows "used x (alloc_blk x k D) j \<longleftrightarrow> j = k \<or> used x D j"
  using assms first_free_data[OF assms] used_bit_range[OF assms(1), of k]
  by (simp add: used_def alloc_blk_def mark_def bit_set_set_bit_at)

lemma alloc_blk_apply:
  assumes "wf_disk x D" "first_free x D = Some k"
  shows "alloc_blk x k D (of_nat k) = replicate BSIZE 0"
    and "a \<noteq> of_nat k \<Longrightarrow> a \<noteq> sb_bmapstart x \<Longrightarrow> alloc_blk x k D a = D a"
  using first_free_data[OF assms] by (simp_all add: alloc_blk_def mark_def)

lemma data_blk_alloc:
  assumes "wf_disk x D" "first_free x D = Some k" "data_blk x D a"
  shows "data_blk x (alloc_blk x k D) a" "a \<noteq> of_nat k" "alloc_blk x k D a = D a"
proof -
  show "data_blk x (alloc_blk x k D) a" using assms by (simp add: data_blk_def used_alloc_blk)
  show n: "a \<noteq> of_nat k" using assms first_free_data[OF assms(1,2)] by (auto simp: data_blk_def)
  show "alloc_blk x k D a = D a" using n assms by (intro alloc_blk_apply) (auto simp: data_blk_def)
qed

lemma data_blk_new:
  assumes "wf_disk x D" "first_free x D = Some k"
  shows "data_blk x (alloc_blk x k D) (of_nat k)"
  using first_free_data[OF assms] assms by (simp add: data_blk_def used_alloc_blk)

lemma wf_disk_alloc:
  assumes "wf_disk x D" "first_free x D = Some k"
  shows "wf_disk x (alloc_blk x k D)"
  using assms by (auto simp: wf_disk_def used_alloc_blk[OF assms]) (simp add: alloc_blk_def mark_def)

lemma nfree_alloc:
  assumes "wf_disk x D" "first_free x D = Some k"
  shows "nfree x D = Suc (nfree x (alloc_blk x k D))"
proof -
  have "{j. j < unat (sb_size x) \<and> \<not> used x (alloc_blk x k D) j} = {j. j < unat (sb_size x) \<and> \<not> used x D j} - {k}"
    by (auto simp: used_alloc_blk[OF assms])
  moreover have "k \<in> {j. j < unat (sb_size x) \<and> \<not> used x D j}"
    using first_free_bound[OF wf_diskD(1)[OF assms(1)] assms(2)] by simp
  moreover have "finite {j. j < unat (sb_size x) \<and> \<not> used x D j}" by simp
  ultimately show ?thesis unfolding nfree_def by (metis card.remove)
qed

section \<open>Adding a block to a file\<close>

lemma wf_fileD:
  assumes "wf_file x D as"
  shows "length as = NDIRECT + 1"
    "i < MAXFILE \<Longrightarrow> file_addr D as i \<noteq> 0 \<Longrightarrow> data_blk x D (file_addr D as i)"
    "i < MAXFILE \<Longrightarrow> file_addr D as i \<noteq> 0 \<Longrightarrow> file_addr D as i \<noteq> as ! NDIRECT"
    "as ! NDIRECT \<noteq> 0 \<Longrightarrow> data_blk x D (as ! NDIRECT)"
    "i < MAXFILE \<Longrightarrow> j < MAXFILE \<Longrightarrow> file_addr D as i \<noteq> 0 \<Longrightarrow> file_addr D as i = file_addr D as j \<Longrightarrow> i = j"
  using assms unfolding wf_file_def by blast+

lemma rd32_zeros: "off + 4 \<le> n \<Longrightarrow> rd32 off (replicate n 0) = 0"
  by (simp add: rd32_def slice_def drop_replicate take_replicate min_def numeral_eq_Suc)

text \<open>The file keeps its map while the allocator takes a block from elsewhere.\<close>

lemma file_addr_alloc:
  assumes "wf_disk x D" "first_free x D = Some k" "wf_file x D as"
  shows "file_addr (alloc_blk x k D) as i = file_addr D as i"
  using wf_fileD(4)[OF assms(3)] data_blk_alloc[OF assms(1,2)] by (auto simp: file_addr_def)

lemma wf_file_alloc:
  assumes "wf_disk x D" "first_free x D = Some k" "wf_file x D as"
  shows "wf_file x (alloc_blk x k D) as"
  using assms(3) data_blk_alloc(1)[OF assms(1,2)] unfolding wf_file_def file_addr_alloc[OF assms] by blast

lemma file_not_new:
  assumes "wf_disk x D" "first_free x D = Some k" "wf_file x D as"
  shows "i < MAXFILE \<Longrightarrow> file_addr D as i \<noteq> of_nat k" "as ! NDIRECT \<noteq> of_nat k"
proof -
  note n = data_blk_alloc(2)[OF assms(1,2)] and z = first_free_data(6)[OF assms(1,2)]
  show "file_addr D as i \<noteq> of_nat k" if "i < MAXFILE"
    using n wf_fileD(2)[OF assms(3) that] z by (cases "file_addr D as i = 0") auto
  show "as ! NDIRECT \<noteq> of_nat k" using n wf_fileD(4)[OF assms(3)] z by (cases "as ! NDIRECT = 0") auto
qed

lemma add_direct:
  assumes wd: "wf_disk x D" and k: "first_free x D = Some k" and wf: "wf_file x D as"
    and bn: "bn < NDIRECT" and hole: "as ! bn = 0"
  shows "file_addr (alloc_blk x k D) (as[bn := of_nat k]) i = (if i = bn then of_nat k else file_addr D as i)"
    and "wf_file x (alloc_blk x k D) (as[bn := of_nat k])"
proof -
  have len: "length as = NDIRECT + 1" using wf by (rule wf_fileD)
  have fa: "file_addr (alloc_blk x k D) (as[bn := of_nat k]) i = (if i = bn then of_nat k else file_addr D as i)" for i
    using file_addr_alloc[OF wd k wf, of i] bn len by (auto simp: file_addr_def)
  then show "file_addr (alloc_blk x k D) (as[bn := of_nat k]) i = (if i = bn then of_nat k else file_addr D as i)" .
  have ind: "as[bn := of_nat k] ! NDIRECT = as ! NDIRECT" using bn by simp
  note new = data_blk_new[OF wd k] and old = data_blk_alloc(1)[OF wd k] and fresh = file_not_new[OF wd k wf]
  show "wf_file x (alloc_blk x k D) (as[bn := of_nat k])"
    unfolding wf_file_def fa ind
  proof (intro conjI allI impI)
    show "length (as[bn := of_nat k]) = NDIRECT + 1" using len by simp
  next
    fix i assume "i < MAXFILE" "(if i = bn then of_nat k else file_addr D as i) \<noteq> 0"
    then show "data_blk x (alloc_blk x k D) (if i = bn then of_nat k else file_addr D as i)"
      "(if i = bn then of_nat k else file_addr D as i) \<noteq> as ! NDIRECT"
      using new old fresh wf_fileD(2,3)[OF wf] by (auto split: if_splits)
  next
    assume "as ! NDIRECT \<noteq> 0"
    then show "data_blk x (alloc_blk x k D) (as ! NDIRECT)" using old wf_fileD(4)[OF wf] by blast
  next
    fix i j assume "i < MAXFILE" "j < MAXFILE" "(if i = bn then of_nat k else file_addr D as i) \<noteq> (0 :: u32)"
      "(if i = bn then of_nat k else file_addr D as i) = (if j = bn then of_nat k else file_addr D as j)"
    then show "i = j" using fresh(1) wf_fileD(5)[OF wf] by (auto split: if_splits dest: sym)
  qed
qed

lemma add_indirect_block:
  assumes wd: "wf_disk x D" and k: "first_free x D = Some k" and wf: "wf_file x D as" and hole: "as ! NDIRECT = 0"
  shows "i < MAXFILE \<Longrightarrow> file_addr (alloc_blk x k D) (as[NDIRECT := of_nat k]) i = file_addr D as i"
    and "wf_file x (alloc_blk x k D) (as[NDIRECT := of_nat k])"
proof -
  have len: "length as = NDIRECT + 1" using wf by (rule wf_fileD)
  have fa: "file_addr (alloc_blk x k D) (as[NDIRECT := of_nat k]) i = file_addr D as i" if "i < MAXFILE" for i
    using hole len that first_free_data(6)[OF wd k]
    by (auto simp: file_addr_def alloc_blk_apply[OF wd k] rd32_zeros fs_consts)
  then show "i < MAXFILE \<Longrightarrow> file_addr (alloc_blk x k D) (as[NDIRECT := of_nat k]) i = file_addr D as i" .
  have ind: "as[NDIRECT := of_nat k] ! NDIRECT = of_nat k" using len by simp
  show "wf_file x (alloc_blk x k D) (as[NDIRECT := of_nat k])"
    unfolding wf_file_def ind
    using len fa data_blk_new[OF wd k] data_blk_alloc(1)[OF wd k] file_not_new(1)[OF wd k wf]
      wf_fileD(2,5)[OF wf] by auto
qed

definition add_entry :: "superblock \<Rightarrow> nat \<Rightarrow> u32 \<Rightarrow> nat \<Rightarrow> (u32 \<Rightarrow> u8 list) \<Rightarrow> u32 \<Rightarrow> u8 list" where
  "add_entry x k ind j D = (let D1 = alloc_blk x k D in D1(ind := wr32 (4 * j) (of_nat k) (D1 ind)))"

lemma add_through_indirect:
  assumes wd: "wf_disk x D" and k: "first_free x D = Some k" and wf: "wf_file x D as"
    and bn: "NDIRECT \<le> bn" "bn < MAXFILE" and ind: "as ! NDIRECT \<noteq> 0" and hole: "file_addr D as bn = 0"
  defines "D' \<equiv> add_entry x k (as ! NDIRECT) (bn - NDIRECT) D"
  shows "i < MAXFILE \<Longrightarrow> file_addr D' as i = (if i = bn then of_nat k else file_addr D as i)"
    and "wf_file x D' as" "wf_disk x D'" "used x D' = used x (alloc_blk x k D)"
    "a \<noteq> as ! NDIRECT \<Longrightarrow> D' a = alloc_blk x k D a"
proof -
  let ?I = "as ! NDIRECT" and ?D1 = "alloc_blk x k D"
  have db: "data_blk x D ?I" using wf_fileD(4)[OF wf ind] .
  note al = data_blk_alloc[OF wd k db]
  have len: "length (D ?I) = BSIZE" using wd by (rule wf_diskD)
  have D'I: "D' ?I = wr32 (4 * (bn - NDIRECT)) (of_nat k) (D ?I)"
    by (simp add: D'_def add_entry_def al Let_def)
  show D'o: "D' a = ?D1 a" if "a \<noteq> ?I" for a using that by (simp add: D'_def add_entry_def Let_def)
  have bmI: "?I \<noteq> sb_bmapstart x" using db by (auto simp: data_blk_def)
  show us: "used x D' = used x ?D1" using bmI by (simp add: used_def fun_eq_iff D'o)
  have fa: "file_addr D' as i = (if i = bn then of_nat k else file_addr D as i)" if "i < MAXFILE" for i
  proof (cases "i < NDIRECT")
    case True
    then show ?thesis using bn by (auto simp: file_addr_def)
  next
    case False
    have "4 * (i - NDIRECT) + 4 \<le> length (D ?I)" "4 * (bn - NDIRECT) + 4 \<le> length (D ?I)"
      using False that bn len by (simp_all add: fs_consts)
    moreover have "4 * (i - NDIRECT) + 4 \<le> 4 * (bn - NDIRECT) \<or> 4 * (bn - NDIRECT) + 4 \<le> 4 * (i - NDIRECT)" if "i \<noteq> bn"
      using that False bn by linarith
    ultimately show ?thesis
      using False bn ind by (auto simp: file_addr_def D'I buf_simps)
  qed
  then show "i < MAXFILE \<Longrightarrow> file_addr D' as i = (if i = bn then of_nat k else file_addr D as i)" .
  have dd: "data_blk x D' a = data_blk x ?D1 a" for a by (simp add: data_blk_def us)
  note new = data_blk_new[OF wd k] and old = data_blk_alloc(1)[OF wd k] and fresh = file_not_new[OF wd k wf]
  show "wf_file x D' as"
    unfolding wf_file_def dd
  proof (intro conjI allI impI)
    show "length as = NDIRECT + 1" using wf by (rule wf_fileD)
  next
    fix i assume "i < MAXFILE" "file_addr D' as i \<noteq> 0"
    then show "data_blk x ?D1 (file_addr D' as i)" "file_addr D' as i \<noteq> ?I"
      using new old fresh wf_fileD(2,3)[OF wf] by (auto simp: fa split: if_splits)
  next
    show "data_blk x ?D1 ?I" using al(1) .
  next
    fix i j assume "i < MAXFILE" "j < MAXFILE" "file_addr D' as i \<noteq> 0" "file_addr D' as i = file_addr D' as j"
    then show "i = j" using fresh(1) wf_fileD(5)[OF wf] by (auto simp: fa split: if_splits dest: sym)
  qed
  have "4 * (bn - NDIRECT) + 4 \<le> length (D ?I)" using bn len by (simp add: fs_consts)
  then have "length (D' ?I) = BSIZE" by (simp add: D'I length_wr32 len)
  moreover have "length (?D1 a) = BSIZE" for a using wf_disk_alloc[OF wd k] by (rule wf_diskD)
  ultimately have "length (D' a) = BSIZE" for a by (cases "a = ?I") (simp_all add: D'o)
  then show "wf_disk x D'" using wf_disk_alloc[OF wd k] unfolding wf_disk_def us by blast
qed

section \<open>The specification of bmap\<close>

definition ensure_indirect :: "superblock \<Rightarrow> (u32 \<Rightarrow> u8 list) \<Rightarrow> u32 list \<Rightarrow> ((u32 \<Rightarrow> u8 list) \<times> u32 list) option" where
  "ensure_indirect x D as =
     (if as ! NDIRECT = 0
      then map_option (\<lambda>k. (alloc_blk x k D, as[NDIRECT := of_nat k])) (first_free x D)
      else Some (D, as))"

definition bmap_abs :: "superblock \<Rightarrow> nat \<Rightarrow> (u32 \<Rightarrow> u8 list) \<Rightarrow> u32 list \<Rightarrow> (u32 \<times> (u32 \<Rightarrow> u8 list) \<times> u32 list) option" where
  "bmap_abs x bn D as =
     (if file_addr D as bn \<noteq> 0 then Some (file_addr D as bn, D, as)
      else if bn < NDIRECT
      then map_option (\<lambda>k. (of_nat k, alloc_blk x k D, as[bn := of_nat k])) (first_free x D)
      else do {
        (D1, as1) \<leftarrow> ensure_indirect x D as;
        k \<leftarrow> first_free x D1;
        Some (of_nat k, add_entry x k (as1 ! NDIRECT) (bn - NDIRECT) D1, as1)
      })"

text \<open>What a change of the file's map may touch: \<open>keeps D as D' as'\<close> says that the file reads the same,
  that no block in use was given away, and that blocks of others are untouched.\<close>

definition keeps :: "superblock \<Rightarrow> (u32 \<Rightarrow> u8 list) \<Rightarrow> u32 list \<Rightarrow> (u32 \<Rightarrow> u8 list) \<Rightarrow> u32 list \<Rightarrow> bool" where
  "keeps x D as D' as' \<longleftrightarrow> wf_disk x D' \<and> wf_file x D' as'
     \<and> (\<forall>i<MAXFILE. fblock D' as' i = fblock D as i)
     \<and> (\<forall>i<MAXFILE. file_addr D as i \<noteq> 0 \<longrightarrow> file_addr D' as' i = file_addr D as i)
     \<and> (as ! NDIRECT \<noteq> 0 \<longrightarrow> as' ! NDIRECT = as ! NDIRECT)
     \<and> (\<forall>k. used x D k \<longrightarrow> used x D' k)
     \<and> (\<forall>b. used x D (unat b) \<longrightarrow> b \<noteq> sb_bmapstart x \<longrightarrow> b \<noteq> as ! NDIRECT \<or> b = 0 \<longrightarrow> D' b = D b)"

lemma keepsD:
  assumes "keeps x D as D' as'"
  shows "wf_disk x D'" "wf_file x D' as'" "i < MAXFILE \<Longrightarrow> fblock D' as' i = fblock D as i"
    "i < MAXFILE \<Longrightarrow> file_addr D as i \<noteq> 0 \<Longrightarrow> file_addr D' as' i = file_addr D as i"
    "as ! NDIRECT \<noteq> 0 \<Longrightarrow> as' ! NDIRECT = as ! NDIRECT"
    "used x D k \<Longrightarrow> used x D' k"
    "used x D (unat b) \<Longrightarrow> b \<noteq> sb_bmapstart x \<Longrightarrow> b \<noteq> as ! NDIRECT \<or> b = 0 \<Longrightarrow> D' b = D b"
  using assms unfolding keeps_def by blast+

lemma keeps_refl: "wf_disk x D \<Longrightarrow> wf_file x D as \<Longrightarrow> keeps x D as D as"
  by (simp add: keeps_def)

lemma fblock_new: "file_addr D as i = 0 \<Longrightarrow> file_addr D' as' i = a \<Longrightarrow> D' a = replicate BSIZE 0 \<Longrightarrow> fblock D' as' i = fblock D as i"
  by (simp add: fblock_def)

lemma fblock_same: "file_addr D' as' i = file_addr D as i \<Longrightarrow> (file_addr D as i \<noteq> 0 \<Longrightarrow> D' (file_addr D as i) = D (file_addr D as i)) \<Longrightarrow> fblock D' as' i = fblock D as i"
  by (simp add: fblock_def)

lemma keeps_direct:
  assumes wd: "wf_disk x D" and k: "first_free x D = Some k" and wf: "wf_file x D as"
    and bn: "bn < NDIRECT" and hole: "as ! bn = 0"
  shows "keeps x D as (alloc_blk x k D) (as[bn := of_nat k])"
proof -
  note fa = add_direct(1)[OF assms] and al = alloc_blk_apply[OF wd k]
  have fb: "fblock (alloc_blk x k D) (as[bn := of_nat k]) i = fblock D as i" if "i < MAXFILE" for i
  proof (cases "i = bn")
    case True
    have "file_addr D as bn = 0" using bn hole by (simp add: file_addr_def)
    then show ?thesis using True fa[of i] by (simp add: fblock_def al(1))
  next
    case False
    then show ?thesis
      using fa[of i] data_blk_alloc(3)[OF wd k] wf_fileD(2)[OF wf that] by (intro fblock_same) simp_all
  qed
  have fr: "alloc_blk x k D b = D b" if "used x D (unat b)" "b \<noteq> sb_bmapstart x" for b
    using that first_free_data[OF wd k] by (intro al(2)) auto
  show ?thesis
    unfolding keeps_def
    using wf_disk_alloc[OF wd k] add_direct(2)[OF assms] fb fa bn hole fr used_alloc_blk[OF wd k]
    by (auto simp: file_addr_def)
qed

lemma keeps_indirect_block:
  assumes wd: "wf_disk x D" and k: "first_free x D = Some k" and wf: "wf_file x D as" and hole: "as ! NDIRECT = 0"
  shows "keeps x D as (alloc_blk x k D) (as[NDIRECT := of_nat k])"
proof -
  note fa = add_indirect_block(1)[OF assms] and al = alloc_blk_apply[OF wd k]
  have fb: "fblock (alloc_blk x k D) (as[NDIRECT := of_nat k]) i = fblock D as i" if "i < MAXFILE" for i
    using fa[OF that] data_blk_alloc(3)[OF wd k] wf_fileD(2)[OF wf that] by (intro fblock_same) simp_all
  have fr: "alloc_blk x k D b = D b" if "used x D (unat b)" "b \<noteq> sb_bmapstart x" for b
    using that first_free_data[OF wd k] by (intro al(2)) auto
  show ?thesis
    unfolding keeps_def
    using wf_disk_alloc[OF wd k] add_indirect_block(2)[OF assms] fb fa hole fr used_alloc_blk[OF wd k] by simp
qed

lemma keeps_through_indirect:
  assumes wd: "wf_disk x D" and k: "first_free x D = Some k" and wf: "wf_file x D as"
    and bn: "NDIRECT \<le> bn" "bn < MAXFILE" and ind: "as ! NDIRECT \<noteq> 0" and hole: "file_addr D as bn = 0"
  shows "keeps x D as (add_entry x k (as ! NDIRECT) (bn - NDIRECT) D) as"
proof -
  let ?D' = "add_entry x k (as ! NDIRECT) (bn - NDIRECT) D"
  note th = add_through_indirect[OF assms] and al = alloc_blk_apply[OF wd k]
  note fn = file_not_new[OF wd k wf]
  have fb: "fblock ?D' as i = fblock D as i" if i: "i < MAXFILE" for i
  proof (cases "i = bn")
    case True
    have "?D' (of_nat k) = replicate BSIZE 0" using th(5)[of "of_nat k"] fn(2) al(1) by auto
    then show ?thesis using True hole th(1)[OF i] by (intro fblock_new) simp_all
  next
    case False
    have "?D' (file_addr D as i) = D (file_addr D as i)" if "file_addr D as i \<noteq> 0"
      using th(5)[of "file_addr D as i"] wf_fileD(3)[OF wf i that] data_blk_alloc(3)[OF wd k wf_fileD(2)[OF wf i that]]
      by simp
    then show ?thesis using False th(1)[OF i] by (intro fblock_same) simp_all
  qed
  have fr: "?D' b = D b" if "used x D (unat b)" "b \<noteq> sb_bmapstart x" "b \<noteq> as ! NDIRECT \<or> b = 0" for b
  proof -
    have "b \<noteq> as ! NDIRECT" using that(3) ind by auto
    then show ?thesis using that first_free_data[OF wd k] th(5) by (metis al(2))
  qed
  show ?thesis
    unfolding keeps_def
    using th(1-4) fb fr hole used_alloc_blk[OF wd k] by auto
qed

lemma keeps_trans:
  assumes 1: "keeps x D as D1 as1" and 2: "keeps x D1 as1 D2 as2" and "wf_disk x D"
    and ind: "as1 ! NDIRECT = as ! NDIRECT \<or> as ! NDIRECT = 0 \<and> \<not> used x D (unat (as1 ! NDIRECT))"
  shows "keeps x D as D2 as2"
  unfolding keeps_def
proof (intro conjI allI impI)
  show "wf_disk x D2" "wf_file x D2 as2" using 2 by (simp_all add: keepsD)
  show "fblock D2 as2 i = fblock D as i" if "i < MAXFILE" for i
    using keepsD(3)[OF 1 that] keepsD(3)[OF 2 that] by simp
  show "file_addr D2 as2 i = file_addr D as i" if "i < MAXFILE" "file_addr D as i \<noteq> 0" for i
    using keepsD(4)[OF 1 that] keepsD(4)[OF 2 that(1)] that by simp
  show "as2 ! NDIRECT = as ! NDIRECT" if "as ! NDIRECT \<noteq> 0"
    using keepsD(5)[OF 1 that] keepsD(5)[OF 2] that by simp
  show "used x D2 k" if "used x D k" for k using keepsD(6)[OF 2 keepsD(6)[OF 1 that]] .
  show "D2 b = D b" if "used x D (unat b)" "b \<noteq> sb_bmapstart x" "b \<noteq> as ! NDIRECT \<or> b = 0" for b
  proof -
    have "b \<noteq> as1 ! NDIRECT \<or> b = 0" using ind that by auto
    then show ?thesis using keepsD(7)[OF 1 that] keepsD(7)[OF 2 keepsD(6)[OF 1 that(1)] that(2)] by simp
  qed
qed

lemma first_free_some: "0 < nfree x D \<Longrightarrow> \<exists>k. first_free x D = Some k"
  using first_free_nfree[of x D] by auto

lemma bmap_abs_ok:
  assumes wd: "wf_disk x D" and wf: "wf_file x D as" and bn: "bn < MAXFILE"
    and b: "bmap_abs x bn D as = Some (a, D', as')"
  shows "keeps x D as D' as'" "a \<noteq> 0" "file_addr D' as' bn = a"
proof -
  have "keeps x D as D' as' \<and> a \<noteq> 0 \<and> file_addr D' as' bn = a"
  proof (cases "file_addr D as bn = 0")
    case False
    then show ?thesis using b keeps_refl[OF wd wf] by (auto simp: bmap_abs_def)
  next
    case hole: True
    show ?thesis
    proof (cases "bn < NDIRECT")
      case True
      then obtain k where k: "first_free x D = Some k" "a = of_nat k" "D' = alloc_blk x k D" "as' = as[bn := of_nat k]"
        using b hole by (auto simp: bmap_abs_def)
      have "as ! bn = 0" using hole True by (simp add: file_addr_def)
      then show ?thesis
        using keeps_direct[OF wd k(1) wf True] add_direct(1)[OF wd k(1) wf True] first_free_data(6)[OF wd k(1)] k by simp
    next
      case False
      then have nb: "NDIRECT \<le> bn" by simp
      obtain D1 k where e: "ensure_indirect x D as = Some (D1, as')" and k: "first_free x D1 = Some k"
        and r: "a = of_nat k" "D' = add_entry x k (as' ! NDIRECT) (bn - NDIRECT) D1"
        using b hole False by (auto simp: bmap_abs_def split: bind_splits prod.splits)
      have e1: "keeps x D as D1 as'" "as' ! NDIRECT \<noteq> 0"
        "as' ! NDIRECT = as ! NDIRECT \<or> as ! NDIRECT = 0 \<and> \<not> used x D (unat (as' ! NDIRECT))"
        "file_addr D1 as' bn = 0"
      proof -
        consider "as ! NDIRECT = 0" | "as ! NDIRECT \<noteq> 0" by blast
        then have "keeps x D as D1 as' \<and> as' ! NDIRECT \<noteq> 0 \<and>
          (as' ! NDIRECT = as ! NDIRECT \<or> as ! NDIRECT = 0 \<and> \<not> used x D (unat (as' ! NDIRECT))) \<and> file_addr D1 as' bn = 0"
        proof cases
          case 1
          then obtain j where j: "first_free x D = Some j" "D1 = alloc_blk x j D" "as' = as[NDIRECT := of_nat j]"
            using e by (auto simp: ensure_indirect_def)
          then show ?thesis
            using keeps_indirect_block[OF wd j(1) wf 1] first_free_data[OF wd j(1)] wf_fileD(1)[OF wf] 1
              add_indirect_block(1)[OF wd j(1) wf 1 bn] hole by simp
        next
          case 2
          then show ?thesis using e keeps_refl[OF wd wf] hole by (simp add: ensure_indirect_def)
        qed
        then show "keeps x D as D1 as'" "as' ! NDIRECT \<noteq> 0"
          "as' ! NDIRECT = as ! NDIRECT \<or> as ! NDIRECT = 0 \<and> \<not> used x D (unat (as' ! NDIRECT))"
          "file_addr D1 as' bn = 0" by auto
      qed
      note w = keepsD(1,2)[OF e1(1)]
      have "keeps x D1 as' D' as'" unfolding r using w k nb bn e1 by (intro keeps_through_indirect)
      moreover have "file_addr D' as' bn = a"
        unfolding r using add_through_indirect(1)[OF w(1) k w(2) nb bn e1(2,4) bn] by simp
      ultimately show ?thesis
        using keeps_trans[OF e1(1) _ wd e1(3)] r first_free_data(6)[OF w(1) k] by simp
    qed
  qed
  then show "keeps x D as D' as'" "a \<noteq> 0" "file_addr D' as' bn = a" by auto
qed

lemma nfree_add_entry:
  assumes "wf_disk x D" "first_free x D = Some k" "ind \<noteq> sb_bmapstart x"
  shows "nfree x D = Suc (nfree x (add_entry x k ind j D))"
  using nfree_alloc[OF assms(1,2)] assms(3) by (simp add: nfree_def used_def add_entry_def Let_def)

lemma bmap_abs_total:
  assumes wd: "wf_disk x D" and wf: "wf_file x D as" and free: "2 \<le> nfree x D"
  shows "\<exists>a D' as'. bmap_abs x bn D as = Some (a, D', as') \<and> nfree x D \<le> nfree x D' + 2"
proof -
  obtain k where k: "first_free x D = Some k" using first_free_some[of x D] free by auto
  let ?D1 = "alloc_blk x k D"
  have n1: "nfree x D = Suc (nfree x ?D1)" using nfree_alloc[OF wd k] .
  obtain k2 where k2: "first_free x ?D1 = Some k2" using first_free_some[of x ?D1] n1 free by auto
  have bm: "(of_nat k :: u32) \<noteq> sb_bmapstart x" using first_free_data[OF wd k] by simp
  show ?thesis
  proof (cases "file_addr D as bn = 0 \<and> \<not> bn < NDIRECT")
    case False
    then show ?thesis using k n1 by (auto simp: bmap_abs_def)
  next
    case True
    show ?thesis
    proof (cases "as ! NDIRECT = 0")
      case hole: True
      have "nfree x ?D1 = Suc (nfree x (add_entry x k2 (of_nat k) (bn - NDIRECT) ?D1))"
        by (rule nfree_add_entry[OF wf_disk_alloc[OF wd k] k2 bm])
      moreover have "as[NDIRECT := of_nat k] ! NDIRECT = of_nat k" using wf_fileD(1)[OF wf] by simp
      ultimately show ?thesis
        using True hole k k2 n1 by (simp add: bmap_abs_def ensure_indirect_def)
    next
      case False
      then have "as ! NDIRECT \<noteq> sb_bmapstart x" using wf_fileD(4)[OF wf] by (auto simp: data_blk_def)
      from nfree_add_entry[OF wd k this] show ?thesis
        using True False k by (simp add: bmap_abs_def ensure_indirect_def)
    qed
  qed
qed

end
