(* ===== verification/Inode.thy ===== *)
theory Inode
  imports File_Map
begin

text \<open>
  fs/fs.c, the inode layer: the inode cache (\<open>iget\<close>, \<open>idup\<close>, \<open>iput\<close>), the copies between memory and
  disk (\<open>ialloc\<close>, \<open>iupdate\<close>, \<open>ilock\<close>), and an inode's blocks (\<open>bmap\<close>, \<open>itrunc\<close>). An inode pointer is
  its index in \<open>icache.inode[]\<close>; where the code goes on to dereference a null pointer the
  operation yields \<open>None\<close>.
\<close>

unbundle bit_operations_syntax

definition dinode_of :: "inode \<Rightarrow> dinode" where
  "dinode_of ip = \<lparr>d_type = i_type ip, d_major = i_major ip, d_minor = i_minor ip, d_nlink = i_nlink ip,
     d_size = i_size ip, d_addrs = i_addrs ip\<rparr>"

definition load_dinode :: "dinode \<Rightarrow> inode \<Rightarrow> inode" where
  "load_dinode d ip = ip\<lparr>i_type := d_type d, i_major := d_major d, i_minor := d_minor d, i_nlink := d_nlink d,
     i_size := d_size d, i_addrs := d_addrs d\<rparr>"

section \<open>The inode cache\<close>

text \<open>\<open>iget\<close>: the cached entry if there is one, else the first free slot met; with neither, the code
  complains and then writes through a null pointer.\<close>

definition iget :: "u32 \<Rightarrow> u32 \<Rightarrow> 'a fs_scheme \<Rightarrow> (nat \<times> 'a fs_scheme) option" where
  "iget dev inum s =
     (case find (\<lambda>ip. i_ref (icache s ip) > 0 \<and> i_dev (icache s ip) = dev \<and> i_inum (icache s ip) = inum) [0..<NINODE] of
        Some ip \<Rightarrow> Some (ip, upd_inode ip (\<lambda>x. x\<lparr>i_ref := i_ref x + 1\<rparr>) s)
      | None \<Rightarrow>
          (case find (\<lambda>ip. i_ref (icache s ip) = 0) [0..<NINODE] of
             None \<Rightarrow> None
           | Some ip \<Rightarrow> Some (ip, upd_inode ip (\<lambda>x. x\<lparr>i_dev := dev, i_inum := inum, i_ref := 1, i_valid := False\<rparr>) s)))"

definition idup :: "nat \<Rightarrow> 'a fs_scheme \<Rightarrow> nat \<times> 'a fs_scheme" where
  "idup ip s = (ip, upd_inode ip (\<lambda>x. x\<lparr>i_ref := i_ref x + 1\<rparr>) s)"

section \<open>Copies between memory and disk\<close>

partial_function (option) ialloc_loop :: "u32 \<Rightarrow> u16 \<Rightarrow> nat \<Rightarrow> 'a fs_scheme \<Rightarrow> (nat option \<times> 'a fs_scheme) option" where
  [code]: "ialloc_loop dev type inum s =
     (if inum < unat (sb_ninodes (sb s))
      then Option.bind (bread dev (IBLOCK (of_nat inum) (sb s)) s) (\<lambda>(bp, s1).
        let off = dinode_off (of_nat inum); d = bdata s1 bp
        in if rd16 off d = 0
           then Option.bind (bwrite bp (set_bdata bp (blit off (to_le 2 type @ replicate 62 0) d) s1)) (\<lambda>s2.
                Option.bind (iget dev (of_nat inum) (brelse bp s2)) (\<lambda>(ip, s3). Some (Some ip, s3)))
           else if Suc inum < 2 ^ 31 then ialloc_loop dev type (Suc inum) (brelse bp s1) else None)
      else Some (None, kprint ''ialloc: no inodes'' s))"

definition ialloc :: "u32 \<Rightarrow> u16 \<Rightarrow> 'a fs_scheme \<Rightarrow> (nat option \<times> 'a fs_scheme) option" where
  "ialloc dev type s = ialloc_loop dev type 1 s"

definition iupdate :: "nat \<Rightarrow> 'a fs_scheme \<Rightarrow> 'a fs_scheme option" where
  "iupdate ip s = do {
     (bp, s1) \<leftarrow> bread (i_dev (icache s ip)) (IBLOCK (i_inum (icache s ip)) (sb s)) s;
     let x = icache s1 ip;
     let d = blit (dinode_off (i_inum x)) (enc_dinode (dinode_of x)) (bdata s1 bp);
     s2 \<leftarrow> bwrite bp (set_bdata bp d s1);
     Some (brelse bp s2)
   }"

definition ilock :: "nat \<Rightarrow> 'a fs_scheme \<Rightarrow> 'a fs_scheme option" where
  "ilock ip s0 =
     (let s = (if i_ref (icache s0 ip) < 1 then kprint ''ilock\<newline>'' s0 else s0)
      in if i_valid (icache s ip) then Some s
         else do {
           (bp, s1) \<leftarrow> bread (i_dev (icache s ip)) (IBLOCK (i_inum (icache s ip)) (sb s)) s;
           let d = dec_dinode (drop (dinode_off (i_inum (icache s1 ip))) (bdata s1 bp));
           let s2 = upd_inode ip (load_dinode d) s1;
           let s3 = upd_inode ip (i_valid_update (\<lambda>_. True)) (brelse bp s2);
           Some (if i_type (icache s3 ip) = 0 then kprint ''ilock: no type'' s3 else s3)
         })"

definition iunlock :: "nat \<Rightarrow> 'a fs_scheme \<Rightarrow> 'a fs_scheme" where
  "iunlock ip s = (if i_ref (icache s ip) < 1 then kprint ''iunlock\<newline>'' s else s)"

section \<open>The blocks of an inode\<close>

definition bmap :: "nat \<Rightarrow> u32 \<Rightarrow> 'a fs_scheme \<Rightarrow> (u32 \<times> 'a fs_scheme) option" where
  "bmap ip bn0 s =
     (if bn0 < of_nat NDIRECT
      then let addr = i_addrs (icache s ip) ! unat bn0
           in if addr = 0
              then do {
                (a, s1) \<leftarrow> balloc (i_dev (icache s ip)) s;
                Some (a, upd_inode ip (\<lambda>x. x\<lparr>i_addrs := (i_addrs x)[unat bn0 := a]\<rparr>) s1)
              }
              else Some (addr, s)
      else let bn = bn0 - of_nat NDIRECT
           in if bn < of_nat NINDIRECT
              then do {
                (ind, s1) \<leftarrow> (if i_addrs (icache s ip) ! NDIRECT = 0
                   then do {
                     (a, s') \<leftarrow> balloc (i_dev (icache s ip)) s;
                     Some (a, upd_inode ip (\<lambda>x. x\<lparr>i_addrs := (i_addrs x)[NDIRECT := a]\<rparr>) s')
                   }
                   else Some (i_addrs (icache s ip) ! NDIRECT, s));
                (bp, s2) \<leftarrow> bread (i_dev (icache s1 ip)) ind s1;
                let addr = rd32 (4 * unat bn) (bdata s2 bp);
                if addr = 0
                then do {
                  (a, s3) \<leftarrow> balloc (i_dev (icache s2 ip)) s2;
                  s4 \<leftarrow> bwrite bp (set_bdata bp (wr32 (4 * unat bn) a (bdata s3 bp)) s3);
                  Some (a, brelse bp s4)
                }
                else Some (addr, brelse bp s2)
              }
              else Some (- 1, kprint ''bmap: out of range'' s))"

primrec itrunc_direct :: "nat \<Rightarrow> nat list \<Rightarrow> 'a fs_scheme \<Rightarrow> 'a fs_scheme option" where
  "itrunc_direct ip [] s = Some s"
| "itrunc_direct ip (i # is) s =
     (let addr = i_addrs (icache s ip) ! i
      in if addr \<noteq> 0
         then do {
           s1 \<leftarrow> bfree (i_dev (icache s ip)) addr s;
           itrunc_direct ip is (upd_inode ip (\<lambda>x. x\<lparr>i_addrs := (i_addrs x)[i := 0]\<rparr>) s1)
         }
         else itrunc_direct ip is s)"

primrec itrunc_indirect :: "nat \<Rightarrow> nat \<Rightarrow> nat list \<Rightarrow> 'a fs_scheme \<Rightarrow> 'a fs_scheme option" where
  "itrunc_indirect ip bp [] s = Some s"
| "itrunc_indirect ip bp (j # js) s =
     (let a = rd32 (4 * j) (bdata s bp)
      in if a \<noteq> 0
         then do { s1 \<leftarrow> bfree (i_dev (icache s ip)) a s; itrunc_indirect ip bp js s1 }
         else itrunc_indirect ip bp js s)"

definition itrunc :: "nat \<Rightarrow> 'a fs_scheme \<Rightarrow> 'a fs_scheme option" where
  "itrunc ip s = do {
     s1 \<leftarrow> itrunc_direct ip [0..<NDIRECT] s;
     s2 \<leftarrow> (if i_addrs (icache s1 ip) ! NDIRECT \<noteq> 0
        then do {
          (bp, t1) \<leftarrow> bread (i_dev (icache s1 ip)) (i_addrs (icache s1 ip) ! NDIRECT) s1;
          t2 \<leftarrow> itrunc_indirect ip bp [0..<NINDIRECT] t1;
          let t3 = brelse bp t2;
          t4 \<leftarrow> bfree (i_dev (icache t3 ip)) (i_addrs (icache t3 ip) ! NDIRECT) t3;
          Some (upd_inode ip (\<lambda>x. x\<lparr>i_addrs := (i_addrs x)[NDIRECT := 0]\<rparr>) t4)
        }
        else Some s1);
     iupdate ip (upd_inode ip (i_size_update (\<lambda>_. 0)) s2)
   }"

text \<open>\<open>iput\<close>: dropping the last reference of an unlinked inode frees it on disk.\<close>

definition iput :: "nat \<Rightarrow> 'a fs_scheme \<Rightarrow> 'a fs_scheme option" where
  "iput ip s = do {
     s1 \<leftarrow> (if i_valid (icache s ip) \<and> i_nlink (icache s ip) = 0
        then if i_ref (icache s ip) = 1
             then do {
               t1 \<leftarrow> itrunc ip s;
               t2 \<leftarrow> iupdate ip (upd_inode ip (i_type_update (\<lambda>_. 0)) t1);
               Some (upd_inode ip (i_valid_update (\<lambda>_. False)) t2)
             }
             else Some s
        else Some s);
     Some (upd_inode ip (\<lambda>x. x\<lparr>i_ref := i_ref x - 1\<rparr>) s1)
   }"

definition iunlockput :: "nat \<Rightarrow> 'a fs_scheme \<Rightarrow> 'a fs_scheme option" where
  "iunlockput ip s = iput ip (iunlock ip s)"

definition stati :: "nat \<Rightarrow> 'a fs_scheme \<Rightarrow> stat" where
  "stati ip s = \<lparr>st_type = i_type (icache s ip), st_dev = i_dev (icache s ip), st_ino = i_inum (icache s ip),
     st_nlink = i_nlink (icache s ip), st_size = i_size (icache s ip)\<rparr>"

text \<open>\<open>iinit\<close>: read the super block and report it.\<close>

definition iinit :: "u32 \<Rightarrow> 'a fs_scheme \<Rightarrow> 'a fs_scheme option" where
  "iinit dev s = do {
     (x, s1) \<leftarrow> readsb dev s;
     kprintf ''sb: size %d nblocks %d ninodes %d  inodestart %d bmap start %d\<newline>''
       [KInt (sb_size x), KInt (sb_nblocks x), KInt (sb_ninodes x), KInt (sb_inodestart x), KInt (sb_bmapstart x)]
       (s1\<lparr>sb := x\<rparr>)
   }"

section \<open>bmap implements its specification\<close>

definition set_addrs :: "nat \<Rightarrow> u32 list \<Rightarrow> (nat \<Rightarrow> inode) \<Rightarrow> nat \<Rightarrow> inode" where
  "set_addrs ip as c = c(ip := (c ip)\<lparr>i_addrs := as\<rparr>)"

lemma set_addrs_simps [simp]:
  "set_addrs ip (i_addrs (c ip)) c = c" "set_addrs ip bs (set_addrs ip as c) = set_addrs ip bs c"
  "i_addrs (set_addrs ip as c ip) = as" "i_dev (set_addrs ip as c q) = i_dev (c q)"
  "i_inum (set_addrs ip as c q) = i_inum (c q)" "i_size (set_addrs ip as c q) = i_size (c q)"
  "i_ref (set_addrs ip as c q) = i_ref (c q)" "i_valid (set_addrs ip as c q) = i_valid (c q)"
  "i_type (set_addrs ip as c q) = i_type (c q)" "i_nlink (set_addrs ip as c q) = i_nlink (c q)"
  "i_major (set_addrs ip as c q) = i_major (c q)" "i_minor (set_addrs ip as c q) = i_minor (c q)"
  "q \<noteq> ip \<Longrightarrow> set_addrs ip as c q = c q"
  by (auto simp: set_addrs_def)

lemma upd_inode_addrs:
  "icache (upd_inode ip (\<lambda>x. x\<lparr>i_addrs := (i_addrs x)[n := a]\<rparr>) s) = set_addrs ip ((i_addrs (icache s ip))[n := a]) (icache s)"
  by (simp add: upd_inode_def set_addrs_def)

lemma bn_direct:
  assumes "bn < MAXFILE"
  shows "((of_nat bn :: u32) < of_nat NDIRECT) = (bn < NDIRECT)" "unat (of_nat bn :: u32) = bn"
  using assms by (simp_all add: word_less_nat_alt unat_of_nat_u32 fs_consts)

lemma bn_indirect:
  assumes "bn < MAXFILE" "NDIRECT \<le> bn"
  shows "(of_nat bn :: u32) - of_nat NDIRECT = of_nat (bn - NDIRECT)"
    "(of_nat (bn - NDIRECT) :: u32) < of_nat NINDIRECT" "unat (of_nat (bn - NDIRECT) :: u32) = bn - NDIRECT"
proof -
  have b: "bn - NDIRECT < NINDIRECT" using assms by (simp add: fs_consts)
  show "(of_nat bn :: u32) - of_nat NDIRECT = of_nat (bn - NDIRECT)" using assms by (simp add: of_nat_diff)
  show u: "unat (of_nat (bn - NDIRECT) :: u32) = bn - NDIRECT"
    using b by (intro unat_of_nat_u32) (simp add: fs_consts)
  have "unat (of_nat NINDIRECT :: u32) = NINDIRECT" by (intro unat_of_nat_u32) (simp add: fs_consts)
  then show "(of_nat (bn - NDIRECT) :: u32) < of_nat NINDIRECT"
    using b by (simp only: word_less_nat_alt u)
qed

lemma data_blk_FSSIZE: "sb_ok x \<Longrightarrow> data_blk x D a \<Longrightarrow> a < FSSIZE"
  by (auto simp: sb_ok_def data_blk_def)

definition advances :: "'a fs_scheme \<Rightarrow> (u32 \<Rightarrow> u8 list) \<Rightarrow> (nat \<Rightarrow> inode) \<Rightarrow> 'a fs_scheme \<Rightarrow> bool" where
  "advances s D c s' \<longleftrightarrow> fs_step s D s' \<and> icache s' = c"

lemma advances_refl: "bio_ok s \<Longrightarrow> advances s (blocks s) (icache s) s"
  by (simp add: advances_def fs_step_refl)

lemma advances_trans: "advances s D c t \<Longrightarrow> advances t E d u \<Longrightarrow> advances s E d u"
  by (auto simp: advances_def intro: fs_step_trans)

lemma evolves_advances: "bc.evolves s D s' \<Longrightarrow> advances s D (icache s) s'"
  by (simp add: advances_def evolves_fs_step evolves_fs)

lemma advances_evolves: "advances s D (icache s) s' \<Longrightarrow> bc.evolves s D s'"
  by (simp add: advances_def fs_step_evolves)

lemma advancesD:
  assumes "advances s D c s'"
  shows "bio_ok s'" "blocks s' = D" "sb s' = sb s" "icache s' = c" "devsw s' = devsw s" "bc.room k s' = bc.room k s"
    "fs.more s' = fs.more s"
  using assms by (auto simp: advances_def fs_step_def bc.room_def)

lemma advances_upd_inode:
  "advances s D c t \<Longrightarrow> advances s D (icache (upd_inode ip f t)) (upd_inode ip f t)"
  using fs_step_upd_inode[of t ip f] by (auto simp: advances_def fs_step_def upd_inode_def)

lemma ballocs:
  assumes "bio_ok s" "wf_disk (sb s) (blocks s)" "bc.room 1 s" "first_free (sb s) (blocks s) = Some k"
  obtains s' where "balloc 1 s = Some (of_nat k, s')" "bc.evolves s (alloc_blk (sb s) k (blocks s)) s'"
  using balloc_ok[OF assms(1) wf_diskD(1)[OF assms(2)] assms(3,4)] by blast

lemma bmap_indirect_step:
  assumes ok: "bio_ok s" and wd: "wf_disk (sb s) (blocks s)" and fk: "i_dev (icache s ip) = 1"
    and wf: "wf_file (sb s) (blocks s) (i_addrs (icache s ip))"
    and room: "bc.room 2 s" and e: "ensure_indirect (sb s) (blocks s) (i_addrs (icache s ip)) = Some (D1, as1)"
  obtains s1 where "(if i_addrs (icache s ip) ! NDIRECT = 0
       then do { (a, s') \<leftarrow> balloc (i_dev (icache s ip)) s;
                 Some (a, upd_inode ip (\<lambda>x. x\<lparr>i_addrs := (i_addrs x)[NDIRECT := a]\<rparr>) s') }
       else Some (i_addrs (icache s ip) ! NDIRECT, s)) = Some (as1 ! NDIRECT, s1)"
    "advances s D1 (set_addrs ip as1 (icache s)) s1"
proof (cases "i_addrs (icache s ip) ! NDIRECT = 0")
  case True
  then obtain k where k: "first_free (sb s) (blocks s) = Some k" "D1 = alloc_blk (sb s) k (blocks s)"
    "as1 = (i_addrs (icache s ip))[NDIRECT := of_nat k]"
    using e by (auto simp: ensure_indirect_def)
  have room1: "bc.room 1 s" using room by (rule bc.room_mono) simp
  obtain t where t: "balloc 1 s = Some (of_nat k, t)" "bc.evolves s D1 t"
    using ballocs[OF ok wd room1 k(1)] k(2) by blast
  have "icache t = icache s" using t(2) by (rule evolves_fs)
  then show ?thesis
    using True t fk k(3) wf_fileD(1)[OF wf] advances_upd_inode[OF evolves_advances[OF t(2)], of ip "\<lambda>x. x\<lparr>i_addrs := (i_addrs x)[NDIRECT := of_nat k]\<rparr>"]
    by (intro that) (simp_all add: upd_inode_addrs)
next
  case False
  then show ?thesis using e advances_refl[OF ok] by (intro that) (auto simp: ensure_indirect_def)
qed

text \<open>Behind the direct blocks \<open>bmap_abs\<close> first sees to the indirect block, then to its entry.\<close>

lemma bmap_abs_indirect:
  assumes wd: "wf_disk x D" and wf: "wf_file x D as" and bn: "bn < MAXFILE" and nb: "NDIRECT \<le> bn"
    and b: "bmap_abs x bn D as = Some (a, D', as')"
  obtains D1 as1 where "ensure_indirect x D as = Some (D1, as1)"
    "(if file_addr D1 as1 bn \<noteq> 0 then Some (file_addr D1 as1 bn, D1, as1)
      else do { k \<leftarrow> first_free x D1; Some (of_nat k, add_entry x k (as1 ! NDIRECT) (bn - NDIRECT) D1, as1) }) = Some (a, D', as')"
    "wf_disk x D1" "wf_file x D1 as1" "as1 ! NDIRECT \<noteq> 0"
proof (cases "as ! NDIRECT = 0")
  case False
  then have e: "ensure_indirect x D as = Some (D, as)" by (simp add: ensure_indirect_def)
  show ?thesis
    using e b nb wd wf False by (intro that) (auto simp: bmap_abs_def split: if_splits)
next
  case True
  then have hole: "file_addr D as bn = 0" using nb by (simp add: file_addr_def)
  obtain D1 as1 where e: "ensure_indirect x D as = Some (D1, as1)"
    and r: "do { k \<leftarrow> first_free x D1; Some (of_nat k, add_entry x k (as1 ! NDIRECT) (bn - NDIRECT) D1, as1) } = Some (a, D', as')"
    using b hole nb by (auto simp: bmap_abs_def split: bind_splits prod.splits)
  obtain k where k: "first_free x D = Some k" "D1 = alloc_blk x k D" "as1 = as[NDIRECT := of_nat k]"
    using e True by (auto simp: ensure_indirect_def)
  show ?thesis
    using keepsD(1,2)[OF keeps_indirect_block[OF wd k(1) wf True]] add_indirect_block(1)[OF wd k(1) wf True bn]
      first_free_data(6)[OF wd k(1)] wf_fileD(1)[OF wf] hole e r k
    by (intro that[of D1 as1]) simp_all
qed

lemma bmap_refines:
  assumes ok: "bio_ok s" and wd: "wf_disk (sb s) (blocks s)" and dev: "i_dev (icache s ip) = 1"
    and wf: "wf_file (sb s) (blocks s) (i_addrs (icache s ip))"
    and room: "bc.room 2 s" and bn: "bn < MAXFILE"
    and b: "bmap_abs (sb s) bn (blocks s) (i_addrs (icache s ip)) = Some (a, D', as')"
  obtains s' where "bmap ip (of_nat bn) s = Some (a, s')" "advances s D' (set_addrs ip as' (icache s)) s'"
proof (cases "bn < NDIRECT")
  case direct: True
  have room1: "bc.room 1 s" using room by (rule bc.room_mono) simp
  have fa: "file_addr (blocks s) (i_addrs (icache s ip)) bn = i_addrs (icache s ip) ! bn" using direct by (simp add: file_addr_def)
  show ?thesis
  proof (cases "i_addrs (icache s ip) ! bn = 0")
    case True
    then obtain k where k: "first_free (sb s) (blocks s) = Some k" "a = of_nat k" "D' = alloc_blk (sb s) k (blocks s)"
      "as' = (i_addrs (icache s ip))[bn := of_nat k]"
      using b direct fa by (auto simp: bmap_abs_def)
    obtain t where t: "balloc 1 s = Some (of_nat k, t)" "bc.evolves s D' t"
      using ballocs[OF ok wd room1 k(1)] k(3) by blast
    have "icache t = icache s" using t(2) by (rule evolves_fs)
    then show ?thesis
      using True t dev k direct bn_direct[OF bn] advances_upd_inode[OF evolves_advances[OF t(2)], of ip "\<lambda>x. x\<lparr>i_addrs := (i_addrs x)[bn := a]\<rparr>"]
      by (intro that) (simp_all add: upd_inode_addrs bmap_def)
  next
    case False
    then show ?thesis
      using b direct fa bn_direct[OF bn] advances_refl[OF ok] by (intro that[of s]) (auto simp: bmap_abs_def bmap_def)
  qed
next
  case False
  then have nb: "NDIRECT \<le> bn" by simp
  note bi = bn_indirect[OF bn nb]
  let ?x = "sb s" and ?as = "i_addrs (icache s ip)" and ?j = "bn - NDIRECT"
  \<comment> \<open>in both cases the indirect block exists after the first step\<close>
  obtain D1 as1 where e: "ensure_indirect ?x (blocks s) ?as = Some (D1, as1)"
    and rest: "(if file_addr D1 as1 bn \<noteq> 0 then Some (file_addr D1 as1 bn, D1, as1)
       else do { k \<leftarrow> first_free ?x D1; Some (of_nat k, add_entry ?x k (as1 ! NDIRECT) ?j D1, as1) }) = Some (a, D', as')"
    and w1: "wf_disk ?x D1" "wf_file ?x D1 as1" "as1 ! NDIRECT \<noteq> 0"
    by (rule bmap_abs_indirect[OF wd wf bn nb b])
  obtain s1 where s1: "(if ?as ! NDIRECT = 0
       then do { (a, s') \<leftarrow> balloc (i_dev (icache s ip)) s;
                 Some (a, upd_inode ip (\<lambda>x. x\<lparr>i_addrs := (i_addrs x)[NDIRECT := a]\<rparr>) s') }
       else Some (?as ! NDIRECT, s)) = Some (as1 ! NDIRECT, s1)"
    and ad1: "advances s D1 (set_addrs ip as1 (icache s)) s1"
    by (rule bmap_indirect_step[OF ok wd dev wf room e])
  note A = advancesD[OF ad1]
  let ?I = "as1 ! NDIRECT"
  have I: "?I < FSSIZE" using data_blk_FSSIZE[OF wf_diskD(1)[OF w1(1)] wf_fileD(4)[OF w1(2,3)]] .
  have room2: "bc.room (Suc 1) s1" using room A(6) by (simp add: numeral_2_eq_2)
  obtain p s2 where p: "bread 1 ?I s1 = Some (p, s2)" "bc.holds s1 ?I p s2" "bdata s2 p = D1 ?I" "bc.room 1 s2"
    using A(2) by (metis bc.bread_holds[OF A(1) I room2])
  note h = holds_fs[OF p(2)]
  have fa: "file_addr D1 as1 bn = rd32 (4 * ?j) (D1 ?I)" using False w1(3) by (simp add: file_addr_def)
  have dev1: "i_dev (icache s1 ip) = 1" "i_dev (icache s2 ip) = 1" using dev by (simp_all add: h A(4))
  have bm: "bmap ip (of_nat bn) s = do {
                let addr = rd32 (4 * ?j) (D1 ?I);
                if addr = 0
                then do {
                  (a, s3) \<leftarrow> balloc 1 s2;
                  s4 \<leftarrow> bwrite p (set_bdata p (wr32 (4 * ?j) a (bdata s3 p)) s3);
                  Some (a, brelse p s4)
                }
                else Some (addr, brelse p s2)
              }"
    unfolding bmap_def Let_def bi(1) bn_direct[OF bn] s1
    by (simp only: False bi(2,3) p(1,3) dev1 if_False if_True bind.simps prod.case)
  show ?thesis
  proof (cases "file_addr D1 as1 bn = 0")
    case False
    have ev: "bc.evolves s1 D1 (brelse p s2)"
      using bc.release[OF p(2) bc.evolves_refl[OF h(3)]] by (simp add: h A(2))
    have "advances s D1 (set_addrs ip as1 (icache s)) (brelse p s2)"
      by (rule advances_trans[OF ad1 evolves_advances[OF ev], unfolded A(4)])
    then show ?thesis using False rest fa bm by (intro that) auto
  next
    case True
    have "do { k \<leftarrow> first_free ?x D1; Some (of_nat k, add_entry ?x k ?I ?j D1, as1) } = Some (a, D', as')"
      using rest unfolding True by simp
    then obtain k where k: "first_free ?x D1 = Some k" "a = of_nat k" "D' = add_entry ?x k ?I ?j D1" "as' = as1"
      unfolding Option.bind_eq_Some_conv option.inject prod.inject by blast
    have x2: "sb s2 = ?x" "blocks s2 = D1" by (simp_all add: h A)
    obtain s3 where s3: "balloc 1 s2 = Some (of_nat k, s3)" "bc.evolves s2 (alloc_blk ?x k D1) s3"
      using ballocs[OF h(3) _ p(4), of k] w1(1) k(1) x2 by metis
    have d3: "bdata s3 p = alloc_blk ?x k D1 ?I" using bc.holds_data[OF p(2) s3(2)] .
    have ln: "length (wr32 (4 * ?j) (of_nat k) (alloc_blk ?x k D1 ?I)) = BSIZE"
      using wf_disk_alloc[OF w1(1) k(1)] bn nb by (simp add: length_wr32 wf_diskD(2) fs_consts)
    obtain s4 where s4: "bwrite p (set_bdata p (wr32 (4 * ?j) (of_nat k) (alloc_blk ?x k D1 ?I)) s3) = Some s4"
      "bc.evolves s2 D' s4"
      using bc.overwrite[OF p(2) s3(2) ln] by (metis k(3) add_entry_def)
    have ev: "bc.evolves s1 D' (brelse p s4)" by (rule bc.release[OF p(2) s4(2)])
    have "advances s D' (set_addrs ip as1 (icache s)) (brelse p s4)"
      by (rule advances_trans[OF ad1 evolves_advances[OF ev], unfolded A(4)])
    moreover have "bmap ip (of_nat bn) s = Some (a, brelse p s4)"
      unfolding bm fa[symmetric] True Let_def using s3(1) s4(1) d3 k(2) by simp
    ultimately show ?thesis using k(4) by (intro that) simp_all
  qed
qed

section \<open>The inodes on disk\<close>

definition disk_inode :: "superblock \<Rightarrow> (u32 \<Rightarrow> u8 list) \<Rightarrow> u32 \<Rightarrow> dinode" where
  "disk_inode x D inum = dec_dinode (drop (dinode_off inum) (D (IBLOCK inum x)))"

definition put_inode :: "superblock \<Rightarrow> u32 \<Rightarrow> dinode \<Rightarrow> (u32 \<Rightarrow> u8 list) \<Rightarrow> u32 \<Rightarrow> u8 list" where
  "put_inode x inum d D =
     D(IBLOCK inum x := blit (dinode_off inum) (enc_dinode d) (D (IBLOCK inum x)))"

lemma dinode_off_bound: "dinode_off inum + 64 \<le> BSIZE"
  using mod_less_divisor[of 8 "unat inum"] by (simp add: dinode_off_def fs_consts)

lemma dec_dinode_slice:
  assumes "o1 + 64 \<le> length bs"
  shows "dec_dinode (drop o1 bs) = dec_dinode (slice o1 64 bs)"
proof -
  have "rd32 (4 * k) (drop 12 (drop o1 bs)) = rd32 (4 * k) (drop 12 (slice o1 64 bs))" if "k < 13" for k
    using that by (simp add: rd32_def slice_def drop_take take_drop[symmetric] min_def)
  then show ?thesis
    by (simp add: dec_dinode_def dec_words_def fs_consts rd16_def rd32_def slice_def drop_take min_def)
qed

lemma slot_differs:
  assumes "IBLOCK i x = IBLOCK j x" "i \<noteq> j"
  shows "dinode_off i + 64 \<le> dinode_off j \<or> dinode_off j + 64 \<le> dinode_off i"
proof -
  have "unat (i div 8) = unat (j div 8)" using assms(1) by (simp add: IBLOCK_def fs_consts)
  then have d: "unat i div 8 = unat j div 8" by (simp add: unat_div)
  have "unat i \<noteq> unat j" using assms(2) by (simp add: word_unat_eq_iff)
  then have "unat i mod 8 \<noteq> unat j mod 8" using d by (metis div_mult_mod_eq)
  then show ?thesis by (auto simp: dinode_off_def fs_consts)
qed

lemma disk_inode_put:
  assumes "length (D (IBLOCK inum x)) = BSIZE" "length (d_addrs d) = NDIRECT + 1"
  shows "disk_inode x (put_inode x inum d D) j = (if j = inum then d else disk_inode x D j)"
proof -
  let ?o = "dinode_off inum" and ?B = "D (IBLOCK inum x)"
  have len: "length (enc_dinode d) = 64" using assms(2) by (simp add: fs_consts)
  note b = dinode_off_bound[of inum] dinode_off_bound[of j]
  show ?thesis
  proof (cases "j = inum")
    case True
    have "drop ?o (blit ?o (enc_dinode d) ?B) = enc_dinode d @ drop (?o + 64) ?B"
      using b(1) assms(1) len by (simp add: blit_def)
    then show ?thesis using True dec_enc_dinode[OF assms(2)] by (simp add: disk_inode_def put_inode_def)
  next
    case False
    show ?thesis
    proof (cases "IBLOCK j x = IBLOCK inum x")
      case True
      have "slice (dinode_off j) 64 (blit ?o (enc_dinode d) ?B) = slice (dinode_off j) 64 ?B"
        using slot_differs[OF True False] b assms(1) len by (intro slice_blit_other) auto
      then show ?thesis
        using False True b assms(1) len by (simp add: disk_inode_def put_inode_def dec_dinode_slice length_blit)
    qed (use False in \<open>simp add: disk_inode_def put_inode_def\<close>)
  qed
qed

lemma length_put_inode:
  assumes "\<And>n. length (D n) = BSIZE" "length (d_addrs d) = NDIRECT + 1"
  shows "length (put_inode x inum d D n) = BSIZE"
  using assms dinode_off_bound[of inum] by (simp add: put_inode_def length_blit fs_consts)

lemma upd_inode_buf:
  "bufs (upd_inode ip f s) = bufs s" "nx (upd_inode ip f s) = nx s" "pv (upd_inode ip f s) = pv s"
  "upd_buf b g (upd_inode ip f s) = upd_inode ip f (upd_buf b g s)"
  by (simp_all add: upd_inode_def upd_buf_def nx_def pv_def fun_eq_iff)

lemma upd_inode_link:
  "set_next a v (upd_inode ip f s) = upd_inode ip f (set_next a v s)"
  "set_prev a v (upd_inode ip f s) = upd_inode ip f (set_prev a v s)"
  "link_front b (upd_inode ip f s) = upd_inode ip f (link_front b s)"
  by (simp_all add: set_next_def set_prev_def link_front_def Let_def upd_inode_buf)

lemma brelse_upd_inode: "brelse b (upd_inode ip f s) = upd_inode ip f (brelse b s)"
  by (simp add: brelse_def upd_inode_buf upd_inode_link Let_def)

lemma iupdate_ok:
  assumes ok: "bio_ok s" and dev: "i_dev (icache s ip) = 1" and ib: "IBLOCK (i_inum (icache s ip)) (sb s) < FSSIZE"
    and room: "bc.room 1 s" and len: "length (i_addrs (icache s ip)) = NDIRECT + 1"
  obtains s' where "iupdate ip s = Some s'"
    "advances s (put_inode (sb s) (i_inum (icache s ip)) (dinode_of (icache s ip)) (blocks s)) (icache s) s'"
proof -
  let ?x = "icache s ip"
  let ?n = "IBLOCK (i_inum ?x) (sb s)" and ?f = "blit (dinode_off (i_inum ?x)) (enc_dinode (dinode_of ?x))"
  have "length (?f (blocks s ?n)) = BSIZE"
    using dinode_off_bound[of "i_inum ?x"] len by (simp add: length_blit length_blocks[OF ok] dinode_of_def fs_consts)
  then obtain b s1 s2 where b: "bread 1 ?n s = Some (b, s1)" "bdata s1 b = blocks s ?n" "outside s1 = outside s"
    "bwrite b (set_bdata b (?f (blocks s ?n)) s1) = Some s2"
    "bc.evolves s ((blocks s)(?n := ?f (blocks s ?n))) (brelse b s2)"
    by (rule bc.update_block[OF ok ib room])
  have "icache s1 = icache s" using b(3) by (rule outside_fs)
  then have "iupdate ip s = Some (brelse b s2)" using b(1,2,4) dev by (simp add: iupdate_def)
  moreover have "advances s (put_inode (sb s) (i_inum ?x) (dinode_of ?x) (blocks s)) (icache s) (brelse b s2)"
    using evolves_advances[OF b(5)] by (simp add: put_inode_def)
  ultimately show ?thesis by (rule that)
qed

lemma ilock_valid: "i_ref (icache s ip) \<ge> 1 \<Longrightarrow> i_valid (icache s ip) \<Longrightarrow> ilock ip s = Some s"
  by (simp add: ilock_def)

definition loaded :: "dinode \<Rightarrow> inode \<Rightarrow> inode" where
  "loaded d x = (load_dinode d x)\<lparr>i_valid := True\<rparr>"

lemma ilock_load:
  assumes ok: "bio_ok s" and dev: "i_dev (icache s ip) = 1" and ib: "IBLOCK (i_inum (icache s ip)) (sb s) < FSSIZE"
    and room: "bc.room 1 s" and ref: "i_ref (icache s ip) \<ge> 1" and inv: "\<not> i_valid (icache s ip)"
    and ty: "d_type (disk_inode (sb s) (blocks s) (i_inum (icache s ip))) \<noteq> 0"
  obtains s' where "ilock ip s = Some s'"
    "advances s (blocks s) ((icache s)(ip := loaded (disk_inode (sb s) (blocks s) (i_inum (icache s ip))) (icache s ip))) s'"
proof -
  let ?x = "icache s ip"
  let ?n = "IBLOCK (i_inum ?x) (sb s)" and ?d = "disk_inode (sb s) (blocks s) (i_inum ?x)"
  have "bc.room (Suc 0) s" using room by simp
  then obtain b s1 where b: "bread 1 ?n s = Some (b, s1)" "bc.holds s ?n b s1" "bdata s1 b = blocks s ?n"
    by (rule bc.bread_holds[OF ok ib])
  note h = holds_fs[OF b(2)]
  let ?s2 = "upd_inode ip (load_dinode ?d) s1"
  let ?s' = "upd_inode ip (i_valid_update (\<lambda>_. True)) (brelse b ?s2)"
  have held: "bc.holds s ?n b s1" by (rule b(2))
  have br: "brelse b ?s2 = upd_inode ip (load_dinode ?d) (brelse b s1)"
    by (simp add: brelse_upd_inode)
  have "bc.evolves s (blocks s) (brelse b s1)"
    using bc.release[OF b(2) bc.evolves_refl[OF h(3)]] by (simp add: h)
  note ad = evolves_advances[OF this]
  have ic: "icache (brelse b s1) = icache s" using advancesD(4)[OF ad] .
  have "icache ?s' = (icache s)(ip := loaded ?d ?x)"
    unfolding br by (simp add: upd_inode_def ic loaded_def)
  moreover have "advances s (blocks s) (icache ?s') ?s'"
    unfolding br by (rule advances_upd_inode[OF advances_upd_inode[OF ad]])
  moreover have "i_type (icache ?s' ip) = d_type ?d" unfolding br by (simp add: upd_inode_def ic load_dinode_def)
  moreover have "ilock ip s = Some ?s'"
    using b(1,3) dev ref inv ty calculation(3) h(2)
    by (simp add: ilock_def Let_def disk_inode_def[symmetric])
  ultimately show ?thesis by (intro that) simp_all
qed


section \<open>Releasing the blocks of a file\<close>

definition unmark_list :: "superblock \<Rightarrow> u32 list \<Rightarrow> (u32 \<Rightarrow> u8 list) \<Rightarrow> u32 \<Rightarrow> u8 list" where
  "unmark_list x bs D = fold (\<lambda>b. unmark x (unat b)) bs D"

lemma unmark_list_simps [simp]:
  "unmark_list x [] D = D" "unmark_list x (b # bs) D = unmark_list x bs (unmark x (unat b) D)"
  "unmark_list x (as @ bs) D = unmark_list x bs (unmark_list x as D)"
  by (simp_all add: unmark_list_def)

lemma unmark_other: "a \<noteq> sb_bmapstart x \<Longrightarrow> unmark x k D a = D a"
  by (simp add: unmark_def)

lemma unmark_list_other: "a \<noteq> sb_bmapstart x \<Longrightarrow> unmark_list x bs D a = D a"
  by (induction bs arbitrary: D) (simp_all add: unmark_other)

lemma length_unmark_list: "(\<And>n. length (D n) = BSIZE) \<Longrightarrow> length (unmark_list x bs D n) = BSIZE"
  by (induction bs arbitrary: D) (simp_all add: unmark_def)

lemma used_unmark:
  assumes "length (D (sb_bmapstart x)) = BSIZE" "k < 1000"
  shows "used x (unmark x k D) j \<longleftrightarrow> used x D j \<and> j \<noteq> k"
  using assms by (auto simp: used_def unmark_def bit_set_clear_bit_at BSIZE_def)

lemma used_unmark_list:
  assumes "\<And>n. length (D n) = BSIZE" "\<forall>b\<in>set bs. unat b < 1000"
  shows "used x (unmark_list x bs D) j \<longleftrightarrow> used x D j \<and> j \<notin> unat ` set bs"
  using assms
proof (induction bs arbitrary: D)
  case Nil
  then show ?case by simp
next
  case (Cons b bs)
  have "\<And>n. length (unmark x (unat b) D n) = BSIZE" using Cons.prems(1) by (simp add: unmark_def)
  then show ?case using Cons by (auto simp: used_unmark)
qed

text \<open>The file system at rest: the copy of the super block in memory is the one on disk.\<close>

definition fs_ok :: "'a fs_scheme \<Rightarrow> bool" where
  "fs_ok s \<longleftrightarrow> bio_ok s \<and> sb_ok (sb s) \<and> sb_bmapstart (sb s) \<noteq> 1 \<and> dec_superblock (blocks s 1) = sb s"

lemma fs_okD:
  assumes "fs_ok s"
  shows "bio_ok s" "sb_ok (sb s)" "sb_bmapstart (sb s) \<noteq> 1" "dec_superblock (blocks s 1) = sb s" "length (blocks s n) = BSIZE"
  using assms length_blocks by (auto simp: fs_ok_def)

lemma fs_ok_advances:
  assumes "fs_ok s" "advances s D c s'" "D 1 = blocks s 1"
  shows "fs_ok s'"
  using assms advancesD[OF assms(2)] by (simp add: fs_ok_def)

lemma bfree_step:
  assumes ok: "fs_ok s" and room: "bc.room 1 s" and b: "data_blk (sb s) (blocks s) b"
  obtains s' where "bfree 1 b s = Some s'" "bc.evolves s (unmark (sb s) (unat b) (blocks s)) s'"
proof -
  have "unat b < unat (sb_size (sb s))" "used (sb s) (blocks s) (unat b)"
    using b by (simp_all add: data_blk_def word_less_nat_alt)
  then show ?thesis by (rule bfree_ok[OF fs_okD(1,2)[OF ok] room fs_okD(4)[OF ok]]) (rule that)
qed

definition zero_at :: "nat list \<Rightarrow> u32 list \<Rightarrow> u32 list" where
  "zero_at is as = fold (\<lambda>i a. a[i := 0]) is as"

lemma zero_at_simps [simp]: "zero_at [] as = as" "zero_at (i # is) as = zero_at is (as[i := 0])"
  by (simp_all add: zero_at_def)

lemma length_zero_at [simp]: "length (zero_at is as) = length as"
  by (induction "is" arbitrary: as) simp_all

lemma nth_zero_at: "j < length as \<Longrightarrow> zero_at is as ! j = (if j \<in> set is then 0 else as ! j)"
  by (induction "is" arbitrary: as) (auto simp: nth_list_update)

definition live :: "u32 list \<Rightarrow> u32 list" where
  "live as = filter (\<lambda>a. a \<noteq> 0) as"

lemma data_blk_unmark:
  assumes "data_blk x D a" "b \<noteq> a" "length (D (sb_bmapstart x)) = BSIZE" "unat b < 1000"
  shows "data_blk x (unmark x (unat b) D) a"
  using assms by (auto simp: data_blk_def used_unmark word_unat_eq_iff)

lemma data_blk_1000: "sb_ok x \<Longrightarrow> data_blk x D a \<Longrightarrow> unat a < 1000"
  using sb_ok_size[of x] by (auto simp: data_blk_def word_less_nat_alt)

lemma itrunc_direct_ok:
  assumes "fs_ok s" "bc.room 1 s" "i_dev (icache s ip) = 1"
    and "distinct is" "distinct (live (map (\<lambda>i. i_addrs (icache s ip) ! i) is))"
    and "\<forall>a\<in>set (live (map (\<lambda>i. i_addrs (icache s ip) ! i) is)). data_blk (sb s) (blocks s) a"
  shows "\<exists>s'. itrunc_direct ip is s = Some s'
    \<and> advances s (unmark_list (sb s) (live (map (\<lambda>i. i_addrs (icache s ip) ! i) is)) (blocks s))
                 (set_addrs ip (zero_at is (i_addrs (icache s ip))) (icache s)) s'"
  using assms
proof (induction "is" arbitrary: s)
  case Nil
  then show ?case using advances_refl[OF fs_okD(1)] by (simp add: live_def)
next
  case (Cons i "is")
  let ?as = "i_addrs (icache s ip)" and ?a = "i_addrs (icache s ip) ! i"
  show ?case
  proof (cases "?a = 0")
    case True
    then have "?as[i := 0] = ?as" by (metis list_update_id)
    moreover have "\<exists>s'. itrunc_direct ip is s = Some s'
      \<and> advances s (unmark_list (sb s) (live (map (\<lambda>i. ?as ! i) is)) (blocks s)) (set_addrs ip (zero_at is ?as) (icache s)) s'"
      using Cons.prems True by (intro Cons.IH) (simp_all add: live_def)
    ultimately show ?thesis using True by (simp add: live_def)
  next
    case False
    obtain s1 where s1: "bfree 1 ?a s = Some s1" "bc.evolves s (unmark (sb s) (unat ?a) (blocks s)) s1"
      using bfree_step[OF Cons.prems(1,2), of ?a] Cons.prems(6) False by (auto simp: live_def)
    note e = evolves_fs[OF s1(2)]
    let ?s2 = "upd_inode ip (\<lambda>x. x\<lparr>i_addrs := (i_addrs x)[i := 0]\<rparr>) s1"
    have ic2: "icache ?s2 = set_addrs ip (?as[i := 0]) (icache s)" by (simp add: upd_inode_addrs e)
    have ad: "advances s (unmark (sb s) (unat ?a) (blocks s)) (icache ?s2) ?s2"
      by (rule advances_upd_inode[OF evolves_advances[OF s1(2)]])
    note A = advancesD[OF ad]
    have nth: "map (\<lambda>j. ?as[i := 0] ! j) is = map (\<lambda>j. ?as ! j) is" using Cons.prems(4) by (auto intro!: nth_list_update_neq)
    have ok2: "fs_ok ?s2"
      by (rule fs_ok_advances[OF Cons.prems(1) ad]) (use fs_okD(3)[OF Cons.prems(1)] in \<open>simp add: unmark_def\<close>)
    have db: "data_blk (sb s) (unmark (sb s) (unat ?a) (blocks s)) b" if "b \<in> set (live (map (\<lambda>j. ?as ! j) is))" for b
      using that Cons.prems(5,6) False fs_okD[OF Cons.prems(1)]
      by (intro data_blk_unmark) (auto simp: live_def data_blk_1000)
    have "\<exists>s'. itrunc_direct ip is ?s2 = Some s'
      \<and> advances ?s2 (unmark_list (sb ?s2) (live (map (\<lambda>j. i_addrs (icache ?s2 ip) ! j) is)) (blocks ?s2))
                   (set_addrs ip (zero_at is (i_addrs (icache ?s2 ip))) (icache ?s2)) s'"
      using ok2 A(6) Cons.prems db False by (intro Cons.IH) (simp_all add: ic2 nth A(2,3) live_def)
    then obtain s' where s': "itrunc_direct ip is ?s2 = Some s'"
      "advances ?s2 (unmark_list (sb s) (live (map (\<lambda>j. ?as ! j) is)) (unmark (sb s) (unat ?a) (blocks s)))
                   (set_addrs ip (zero_at is (?as[i := 0])) (set_addrs ip (?as[i := 0]) (icache s))) s'"
      by (auto simp: ic2 nth A(2,3))
    have "itrunc_direct ip (i # is) s = Some s'"
      using False s1(1) Cons.prems(3) s'(1) by simp
    moreover have "advances s (unmark_list (sb s) (live (map (\<lambda>j. ?as ! j) (i # is))) (blocks s))
                   (set_addrs ip (zero_at (i # is) ?as) (icache s)) s'"
      using advances_trans[OF ad s'(2)] False by (simp add: live_def)
    ultimately show ?thesis by blast
  qed
qed

lemma itrunc_indirect_ok:
  assumes "fs_ok s" "bc.room 1 s" "i_dev (icache s ip) = 1"
    and "pins s bp > 0" "bkey s bp \<noteq> sb_bmapstart (sb s)"
    and "distinct (live (map (\<lambda>j. rd32 (4 * j) (blocks s (bkey s bp))) js))"
    and "\<forall>a\<in>set (live (map (\<lambda>j. rd32 (4 * j) (blocks s (bkey s bp))) js)). data_blk (sb s) (blocks s) a"
  shows "\<exists>s'. itrunc_indirect ip bp js s = Some s'
    \<and> bc.evolves s (unmark_list (sb s) (live (map (\<lambda>j. rd32 (4 * j) (blocks s (bkey s bp))) js)) (blocks s)) s'"
  using assms
proof (induction js arbitrary: s)
  case Nil
  then show ?case using bc.evolves_refl[OF fs_okD(1)] by (simp add: live_def)
next
  case (Cons j js)
  let ?B = "blocks s (bkey s bp)"
  let ?a = "rd32 (4 * j) ?B"
  have bd: "bdata s bp = ?B" using bdata_held[OF fs_okD(1)[OF Cons.prems(1)] Cons.prems(4)] .
  show ?case
  proof (cases "?a = 0")
    case True
    have "\<exists>s'. itrunc_indirect ip bp js s = Some s'
      \<and> bc.evolves s (unmark_list (sb s) (live (map (\<lambda>j. rd32 (4 * j) ?B) js)) (blocks s)) s'"
      using Cons.prems True by (intro Cons.IH) (simp_all add: live_def)
    then show ?thesis using True by (simp add: live_def bd)
  next
    case False
    obtain s1 where s1: "bfree 1 ?a s = Some s1" "bc.evolves s (unmark (sb s) (unat ?a) (blocks s)) s1"
      using bfree_step[OF Cons.prems(1,2), of ?a] Cons.prems(7) False by (auto simp: live_def)
    note e = evolves_fs[OF s1(2)]
    have k1: "bkey s1 bp = bkey s bp" "pins s1 = pins s" using s1(2) Cons.prems(4) by (simp_all add: bc.evolves_def)
    have B1: "blocks s1 (bkey s1 bp) = ?B" using Cons.prems(5) by (simp add: e k1 unmark_def)
    have ok1: "fs_ok s1"
      by (rule fs_ok_advances[OF Cons.prems(1) evolves_advances[OF s1(2)]])
        (use fs_okD(3)[OF Cons.prems(1)] in \<open>simp add: unmark_def\<close>)
    have db: "data_blk (sb s) (unmark (sb s) (unat ?a) (blocks s)) b" if "b \<in> set (live (map (\<lambda>j. rd32 (4 * j) ?B) js))" for b
      using that Cons.prems(6,7) False fs_okD[OF Cons.prems(1)]
      by (intro data_blk_unmark) (auto simp: live_def data_blk_1000)
    have "\<exists>s'. itrunc_indirect ip bp js s1 = Some s'
      \<and> bc.evolves s1 (unmark_list (sb s1) (live (map (\<lambda>j. rd32 (4 * j) (blocks s1 (bkey s1 bp))) js)) (blocks s1)) s'"
      using ok1 Cons.prems db False by (intro Cons.IH) (unfold B1, simp_all add: k1 e live_def)
    then obtain s' where s': "itrunc_indirect ip bp js s1 = Some s'"
      "bc.evolves s1 (unmark_list (sb s) (live (map (\<lambda>j. rd32 (4 * j) ?B) js)) (unmark (sb s) (unat ?a) (blocks s))) s'"
      unfolding B1 by (auto simp: e)
    have "itrunc_indirect ip bp (j # js) s = Some s'"
      using False s1(1) Cons.prems(3) s'(1) by (simp add: bd)
    moreover have "bc.evolves s (unmark_list (sb s) (live (map (\<lambda>j. rd32 (4 * j) ?B) (j # js))) (blocks s)) s'"
      using bc.evolves_trans[OF s1(2) s'(2)] False by (simp add: live_def)
    ultimately show ?thesis by blast
  qed
qed

text \<open>The blocks of a file: those holding data and the indirect block itself.\<close>

definition file_blocks :: "(u32 \<Rightarrow> u8 list) \<Rightarrow> u32 list \<Rightarrow> u32 list" where
  "file_blocks D as = live (map (file_addr D as) [0..<MAXFILE] @ [as ! NDIRECT])"

lemma live_append [simp]: "live (xs @ ys) = live xs @ live ys" "live [] = []" "live (x # xs) = (if x = 0 then live xs else x # live xs)"
  by (simp_all add: live_def)

lemma set_live [simp]: "set (live xs) = set xs - {0}"
  by (auto simp: live_def)

lemma upt_MAXFILE: "[0..<MAXFILE] = [0..<NDIRECT] @ map (\<lambda>j. NDIRECT + j) [0..<NINDIRECT]"
proof -
  have "map (\<lambda>j. NDIRECT + j) [0..<NINDIRECT] = [NDIRECT..<NDIRECT + NINDIRECT]"
    by (rule nth_equalityI) simp_all
  then show ?thesis using upt_add_eq_append[of 0 NDIRECT NINDIRECT] by (simp add: MAXFILE_def)
qed

lemma file_blocks_parts:
  "file_blocks D as = live (map (\<lambda>i. as ! i) [0..<NDIRECT])
     @ (if as ! NDIRECT = 0 then [] else live (map (\<lambda>j. rd32 (4 * j) (D (as ! NDIRECT))) [0..<NINDIRECT]) @ [as ! NDIRECT])"
proof -
  have "map (file_addr D as) [0..<NDIRECT] = map (\<lambda>i. as ! i) [0..<NDIRECT]" by (intro map_cong) (simp_all add: file_addr_def)
  moreover have "map (file_addr D as) (map (\<lambda>j. NDIRECT + j) [0..<NINDIRECT])
      = (if as ! NDIRECT = 0 then replicate NINDIRECT 0 else map (\<lambda>j. rd32 (4 * j) (D (as ! NDIRECT))) [0..<NINDIRECT])"
    by (simp add: file_addr_def map_replicate_trivial[symmetric] comp_def)
  moreover have "live (replicate NINDIRECT 0) = []" by (simp add: live_def)
  ultimately show ?thesis unfolding file_blocks_def upt_MAXFILE map_append live_append by (simp only: if_distrib[of live]) simp
qed

lemma distinct_live_map:
  "(\<And>i j. i \<in> set xs \<Longrightarrow> j \<in> set xs \<Longrightarrow> f i \<noteq> 0 \<Longrightarrow> f i = f j \<Longrightarrow> i = j) \<Longrightarrow> distinct xs \<Longrightarrow> distinct (live (map f xs))"
proof (induction xs)
  case (Cons x xs)
  have "f x \<notin> f ` set xs" if "f x \<noteq> 0"
  proof
    assume "f x \<in> f ` set xs"
    then obtain y where "y \<in> set xs" "f x = f y" by auto
    then show False using Cons.prems(1)[of x y] Cons.prems(2) that by auto
  qed
  moreover have "distinct (live (map f xs))"
  proof (rule Cons.IH)
    show "i = j" if "i \<in> set xs" "j \<in> set xs" "f i \<noteq> 0" "f i = f j" for i j
      using Cons.prems(1)[of i j] that by simp
  qed (use Cons.prems(2) in simp)
  ultimately show ?case by simp
qed simp

lemma file_blocks_wf:
  assumes "wf_file x D as"
  shows "distinct (file_blocks D as)" "\<forall>a\<in>set (file_blocks D as). data_blk x D a"
proof -
  have "distinct (live (map (file_addr D as) [0..<MAXFILE]))"
    using wf_fileD(5)[OF assms] by (intro distinct_live_map) auto
  then show "distinct (file_blocks D as)" using wf_fileD(3)[OF assms] by (auto simp: file_blocks_def) blast
  show "\<forall>a\<in>set (file_blocks D as). data_blk x D a"
  proof
    fix a assume "a \<in> set (file_blocks D as)"
    then consider i where "i < MAXFILE" "a = file_addr D as i" "a \<noteq> 0" | "a = as ! NDIRECT" "a \<noteq> 0"
      by (auto simp: file_blocks_def split: if_splits)
    then show "data_blk x D a" using wf_fileD(2,4)[OF assms] by cases auto
  qed
qed

lemma zero_at_12: "length as = NDIRECT + 1 \<Longrightarrow> (zero_at [0..<NDIRECT] as)[NDIRECT := 0] = replicate (NDIRECT + 1) 0"
  by (rule nth_equalityI) (auto simp: nth_zero_at nth_list_update simp del: replicate_Suc)

text \<open>\<open>itrunc\<close> gives every block of the file back and writes the empty inode to disk.\<close>

definition trunc_inode :: "inode \<Rightarrow> inode" where
  "trunc_inode x = x\<lparr>i_addrs := replicate (NDIRECT + 1) 0, i_size := 0\<rparr>"

lemma itrunc_direct_part:
  assumes ok: "fs_ok s" and room: "bc.room 1 s" and dev: "i_dev (icache s ip) = 1"
    and wf: "wf_file (sb s) (blocks s) (i_addrs (icache s ip))"
  obtains s1 where "itrunc_direct ip [0..<NDIRECT] s = Some s1"
    "advances s (unmark_list (sb s) (live (map (\<lambda>i. i_addrs (icache s ip) ! i) [0..<NDIRECT])) (blocks s))
       (set_addrs ip (zero_at [0..<NDIRECT] (i_addrs (icache s ip))) (icache s)) s1"
proof -
  let ?l = "live (map (\<lambda>i. i_addrs (icache s ip) ! i) [0..<NDIRECT])"
  have "distinct ?l" "\<forall>a\<in>set ?l. data_blk (sb s) (blocks s) a"
    using file_blocks_wf[OF wf] unfolding file_blocks_parts by (simp_all del: set_live)
  then show ?thesis using itrunc_direct_ok[OF ok room dev distinct_upt] that by blast
qed


lemma data_blk_unmark_list:
  assumes "data_blk x D a" "a \<notin> set bs" "\<And>n. length (D n) = BSIZE" "\<forall>b\<in>set bs. unat b < 1000"
  shows "data_blk x (unmark_list x bs D) a"
proof -
  have "unat a \<notin> unat ` set bs" using assms(2) by (auto dest: word_unat_eq_iff[THEN iffD2])
  then show ?thesis using assms by (simp add: data_blk_def used_unmark_list)
qed

lemma fs_ok_unmark:
  assumes "fs_ok s" "advances s (unmark_list (sb s) bs (blocks s)) c s'"
  shows "fs_ok s'"
  using assms(1) fs_okD(3)[OF assms(1)] by (intro fs_ok_advances[OF assms]) (simp add: unmark_list_other)

text \<open>The indirect block, when there is one: its entries, then the block itself.\<close>

lemma itrunc_indirect_part:
  assumes ok: "fs_ok s" and room: "bc.room 2 s" and dev: "i_dev (icache s ip) = 1"
    and I: "i_addrs (icache s ip) ! NDIRECT \<noteq> 0"
  defines "ind \<equiv> i_addrs (icache s ip) ! NDIRECT"
  defines "bs \<equiv> live (map (\<lambda>j. rd32 (4 * j) (blocks s ind)) [0..<NINDIRECT])"
  assumes db: "\<forall>a\<in>set (bs @ [ind]). data_blk (sb s) (blocks s) a" and d: "distinct (bs @ [ind])"
  obtains bp t1 t2 t4 where "bread 1 ind s = Some (bp, t1)" "itrunc_indirect ip bp [0..<NINDIRECT] t1 = Some t2"
    "icache (brelse bp t2) = icache s" "bfree 1 ind (brelse bp t2) = Some t4" "icache t1 = icache s"
    "bc.evolves s (unmark_list (sb s) (bs @ [ind]) (blocks s)) t4"
proof -
  have dI: "data_blk (sb s) (blocks s) ind" using db by simp
  have n: "ind < FSSIZE" using data_blk_FSSIZE[OF fs_okD(2)[OF ok] dI] .
  have "bc.room (Suc 1) s" using room by (simp add: numeral_2_eq_2)
  then obtain bp t1 where b: "bread 1 ind s = Some (bp, t1)" "bc.holds s ind bp t1" "bdata t1 bp = blocks s ind" "bc.room 1 t1"
    by (rule bc.bread_holds[OF fs_okD(1)[OF ok] n])
  note h = holds_fs[OF b(2)]
  have hp: "pins t1 bp > 0" "bkey t1 bp = ind" using b(2) by (simp_all add: bc.holds_def)
  have ok1: "fs_ok t1" using ok h by (simp add: fs_ok_def)
  have nb: "ind \<noteq> sb_bmapstart (sb s)" using dI by (auto simp: data_blk_def)
  obtain t2 where t2: "itrunc_indirect ip bp [0..<NINDIRECT] t1 = Some t2"
    "bc.evolves t1 (unmark_list (sb s) bs (blocks s)) t2"
    using itrunc_indirect_ok[OF ok1 b(4), of ip bp "[0..<NINDIRECT]"] h hp nb db d dev by (auto simp: bs_def[symmetric])
  have ev: "bc.evolves s (unmark_list (sb s) bs (blocks s)) (brelse bp t2)" by (rule bc.release[OF b(2) t2(2)])
  note e = evolves_fs[OF ev]
  have ok3: "fs_ok (brelse bp t2)" by (rule fs_ok_unmark[OF ok evolves_advances[OF ev]])
  have r3: "bc.room 1 (brelse bp t2)" using bc.room_mono[OF room, of 1] e(5) by simp
  have "data_blk (sb s) (unmark_list (sb s) bs (blocks s)) ind"
    using dI d db data_blk_1000[OF fs_okD(2)[OF ok]] by (intro data_blk_unmark_list) (auto simp: fs_okD[OF ok])
  then obtain t4 where t4: "bfree 1 ind (brelse bp t2) = Some t4"
    "bc.evolves (brelse bp t2) (unmark (sb s) (unat ind) (unmark_list (sb s) bs (blocks s))) t4"
    using bfree_step[OF ok3 r3, of ind] by (auto simp: e)
  show ?thesis
    using that[OF b(1) t2(1) e(2) t4(1) h(2)] bc.evolves_trans[OF ev t4(2)] by simp
qed

lemma itrunc_ok:
  assumes ok: "fs_ok s" and room: "bc.room 2 s" and dev: "i_dev (icache s ip) = 1"
    and wf: "wf_file (sb s) (blocks s) (i_addrs (icache s ip))"
    and ib: "IBLOCK (i_inum (icache s ip)) (sb s) < FSSIZE"
  obtains s' where "itrunc ip s = Some s'"
    "advances s (put_inode (sb s) (i_inum (icache s ip)) (dinode_of (trunc_inode (icache s ip)))
        (unmark_list (sb s) (file_blocks (blocks s) (i_addrs (icache s ip))) (blocks s)))
      ((icache s)(ip := trunc_inode (icache s ip))) s'"
proof -
  let ?as = "i_addrs (icache s ip)" and ?x = "sb s" and ?D = "blocks s"
  let ?L = "live (map (\<lambda>i. ?as ! i) [0..<NDIRECT])" and ?as1 = "zero_at [0..<NDIRECT] (i_addrs (icache s ip))"
  have len: "length ?as = NDIRECT + 1" using wf by (rule wf_fileD)
  have room1: "bc.room 1 s" using room by (rule bc.room_mono) simp
  obtain s1 where s1: "itrunc_direct ip [0..<NDIRECT] s = Some s1"
    "advances s (unmark_list ?x ?L ?D) (set_addrs ip ?as1 (icache s)) s1"
    by (rule itrunc_direct_part[OF ok room1 dev wf])
  note A = advancesD[OF s1(2)]
  have ok1: "fs_ok s1" by (rule fs_ok_unmark[OF ok s1(2)])
  have I1: "i_addrs (icache s1 ip) ! NDIRECT = ?as ! NDIRECT" "i_dev (icache s1 ip) = 1"
    using len dev by (simp_all add: A(4) nth_zero_at)
  let ?mid = "if i_addrs (icache s1 ip) ! NDIRECT \<noteq> 0
        then do {
          (bp, t1) \<leftarrow> bread (i_dev (icache s1 ip)) (i_addrs (icache s1 ip) ! NDIRECT) s1;
          t2 \<leftarrow> itrunc_indirect ip bp [0..<NINDIRECT] t1;
          let t3 = brelse bp t2;
          t4 \<leftarrow> bfree (i_dev (icache t3 ip)) (i_addrs (icache t3 ip) ! NDIRECT) t3;
          Some (upd_inode ip (\<lambda>x. x\<lparr>i_addrs := (i_addrs x)[NDIRECT := 0]\<rparr>) t4)
        }
        else Some s1"
  have "\<exists>s2. ?mid = Some s2 \<and> advances s (unmark_list ?x (file_blocks ?D ?as) ?D)
      (set_addrs ip (?as1[NDIRECT := 0]) (icache s)) s2"
  proof (cases "?as ! NDIRECT = 0")
    case True
    then have "?as1[NDIRECT := 0] = ?as1" using len by (metis list_update_id nth_zero_at less_add_one)
    then show ?thesis using s1(2) True I1 by (simp add: file_blocks_parts)
  next
    case False
    let ?I = "?as ! NDIRECT"
    let ?bs = "live (map (\<lambda>j. rd32 (4 * j) (?D ?I)) [0..<NINDIRECT])"
    have fb: "file_blocks ?D ?as = ?L @ ?bs @ [?I]" using False by (simp add: file_blocks_parts)
    note w = file_blocks_wf[OF wf, unfolded fb]
    have nb: "?I \<noteq> sb_bmapstart ?x" using w(2) by (auto simp: data_blk_def)
    have B1: "blocks s1 ?I = ?D ?I" using nb by (simp add: A(2) unmark_list_other)
    have db: "data_blk (sb s1) (blocks s1) a" if "a \<in> set (?bs @ [?I])" for a
      using that w data_blk_1000[OF fs_okD(2)[OF ok]] unfolding A(2,3)
      by (intro data_blk_unmark_list) (auto simp: fs_okD[OF ok] simp del: set_live set_map)
    obtain bp t1 t2 t4 where t: "bread 1 ?I s1 = Some (bp, t1)" "itrunc_indirect ip bp [0..<NINDIRECT] t1 = Some t2"
      "icache (brelse bp t2) = icache s1" "bfree 1 ?I (brelse bp t2) = Some t4" "icache t1 = icache s1"
      "bc.evolves s1 (unmark_list (sb s1) (?bs @ [?I]) (blocks s1)) t4"
      by (rule itrunc_indirect_part[OF ok1 _ I1(2), unfolded I1 B1])
        (use room A(6) False db w(1) in \<open>simp_all del: set_live set_map\<close>)
    let ?s2 = "upd_inode ip (\<lambda>x. x\<lparr>i_addrs := (i_addrs x)[NDIRECT := 0]\<rparr>) t4"
    have ic: "icache ?s2 = set_addrs ip (?as1[NDIRECT := 0]) (icache s)"
      using evolves_fs(2)[OF t(6)] by (simp add: upd_inode_addrs A(4))
    have "advances s (unmark_list ?x (file_blocks ?D ?as) ?D) (icache ?s2) ?s2"
      using advances_upd_inode[OF advances_trans[OF s1(2) evolves_advances[OF t(6)]]] by (simp add: fb A(2,3))
    moreover have "?mid = Some ?s2" using False t(1-5) I1 by simp
    ultimately show ?thesis unfolding ic by blast
  qed
  then obtain s2 where s2: "?mid = Some s2"
    "advances s (unmark_list ?x (file_blocks ?D ?as) ?D) (set_addrs ip (?as1[NDIRECT := 0]) (icache s)) s2"
    by blast
  let ?s3 = "upd_inode ip (i_size_update (\<lambda>_. 0)) s2"
  have ad: "advances s (unmark_list ?x (file_blocks ?D ?as) ?D) (icache ?s3) ?s3"
    by (rule advances_upd_inode[OF s2(2)])
  have ic: "icache ?s3 = (icache s)(ip := trunc_inode (icache s ip))"
    using advancesD(4)[OF s2(2)] zero_at_12[OF len] by (simp add: upd_inode_def set_addrs_def trunc_inode_def)
  note A3 = advancesD[OF ad]
  obtain s' where s': "iupdate ip ?s3 = Some s'"
    "advances ?s3 (put_inode (sb ?s3) (i_inum (icache ?s3 ip)) (dinode_of (icache ?s3 ip)) (blocks ?s3)) (icache ?s3) s'"
    by (rule iupdate_ok[OF A3(1), of ip])
      (use A3(3,6) room1 dev ib in \<open>simp_all only: ic, simp_all add: trunc_inode_def\<close>)
  have "itrunc ip s = Some s'" using s1(1) s2(1) s'(1) by (simp add: itrunc_def)
  moreover have "i_inum (trunc_inode (icache s ip)) = i_inum (icache s ip)" by (simp add: trunc_inode_def)
  ultimately show ?thesis
    using advances_trans[OF ad s'(2)] A3(2,3) by (intro that) (simp_all add: ic)
qed

section \<open>The inode cache as a set of references\<close>

text \<open>\<open>live_at c ip dev inum\<close>: entry \<open>ip\<close> is referenced and stands for the inode. The cache is
  consistent when no inode has two entries, so pointer equality is inode equality.\<close>

definition live_at :: "(nat \<Rightarrow> inode) \<Rightarrow> nat \<Rightarrow> u32 \<Rightarrow> u32 \<Rightarrow> bool" where
  "live_at c ip dev inum \<longleftrightarrow> ip < NINODE \<and> i_ref (c ip) > 0 \<and> i_dev (c ip) = dev \<and> i_inum (c ip) = inum"

definition icache_ok :: "(nat \<Rightarrow> inode) \<Rightarrow> bool" where
  "icache_ok c \<longleftrightarrow> (\<forall>p<NINODE. i_ref (c p) \<ge> 0)
     \<and> (\<forall>p q dev inum. live_at c p dev inum \<longrightarrow> live_at c q dev inum \<longrightarrow> p = q)"

definition icache_full :: "(nat \<Rightarrow> inode) \<Rightarrow> bool" where
  "icache_full c \<longleftrightarrow> (\<forall>p<NINODE. i_ref (c p) > 0)"

lemma icache_upd_inode [simp]: "icache (upd_inode ip f s) = (icache s)(ip := f (icache s ip))"
  by (simp add: upd_inode_def)

lemma find_first: "find P xs = None \<Longrightarrow> x \<in> set xs \<Longrightarrow> \<not> P x"
  by (simp add: find_None_iff)

lemma iget_hit:
  assumes ok: "icache_ok (icache s)" and l: "live_at (icache s) ip dev inum"
  shows "iget dev inum s = Some (ip, upd_inode ip (\<lambda>x. x\<lparr>i_ref := i_ref x + 1\<rparr>) s)"
proof -
  let ?P = "\<lambda>ip. i_ref (icache s ip) > 0 \<and> i_dev (icache s ip) = dev \<and> i_inum (icache s ip) = inum"
  have "find ?P [0..<NINODE] \<noteq> None" using l by (auto simp: find_None_iff live_at_def)
  then obtain q where q: "find ?P [0..<NINODE] = Some q" by blast
  then have "live_at (icache s) q dev inum" using findSomeD[OF q] by (simp add: live_at_def)
  then have "q = ip" using ok l by (auto simp: icache_ok_def)
  then show ?thesis using q by (simp add: iget_def)
qed

lemma iget_miss:
  assumes ok: "icache_ok (icache s)" and nl: "\<And>ip. \<not> live_at (icache s) ip dev inum" and nf: "\<not> icache_full (icache s)"
  obtains ip where "iget dev inum s = Some (ip, upd_inode ip (\<lambda>x. x\<lparr>i_dev := dev, i_inum := inum, i_ref := 1, i_valid := False\<rparr>) s)"
    "ip < NINODE" "i_ref (icache s ip) = 0"
proof -
  have 1: "find (\<lambda>ip. i_ref (icache s ip) > 0 \<and> i_dev (icache s ip) = dev \<and> i_inum (icache s ip) = inum) [0..<NINODE] = None"
    using nl by (auto simp: find_None_iff live_at_def)
  obtain p where p: "p < NINODE" "\<not> i_ref (icache s p) > 0" using nf by (auto simp: icache_full_def)
  then have "i_ref (icache s p) = 0" using ok by (fastforce simp: icache_ok_def)
  then have "find (\<lambda>ip. i_ref (icache s ip) = 0) [0..<NINODE] \<noteq> None" using p by (auto simp: find_None_iff)
  then obtain q where q: "find (\<lambda>ip. i_ref (icache s ip) = 0) [0..<NINODE] = Some q" by blast
  show ?thesis using findSomeD[OF q] q 1 by (intro that[of q]) (simp_all add: iget_def)
qed

lemma iget_full:
  assumes "\<And>ip. \<not> live_at (icache s) ip dev inum" "icache_full (icache s)"
  shows "iget dev inum s = None"
proof -
  have 1: "find (\<lambda>ip. i_ref (icache s ip) > 0 \<and> i_dev (icache s ip) = dev \<and> i_inum (icache s ip) = inum) [0..<NINODE] = None"
    using assms(1) by (auto simp: find_None_iff live_at_def)
  have 2: "find (\<lambda>ip. i_ref (icache s ip) = 0) [0..<NINODE] = None"
    using assms(2) by (auto simp: find_None_iff icache_full_def)
  show ?thesis by (simp add: iget_def 1 2)
qed

lemma live_at_upd:
  "live_at (c(ip := x)) q dev inum \<longleftrightarrow>
     (if q = ip then ip < NINODE \<and> i_ref x > 0 \<and> i_dev x = dev \<and> i_inum x = inum else live_at c q dev inum)"
  by (auto simp: live_at_def)

lemma icache_ok_upd:
  assumes "icache_ok c" "i_ref x \<ge> 0"
    and "i_ref x > 0 \<Longrightarrow> \<forall>q. q \<noteq> ip \<longrightarrow> \<not> live_at c q (i_dev x) (i_inum x)"
  shows "icache_ok (c(ip := x))"
  using assms by (auto simp: icache_ok_def live_at_upd split: if_splits)

text \<open>\<open>iget\<close> gives a referenced entry for the inode and keeps the cache consistent.\<close>

lemma iget_spec:
  assumes ok: "icache_ok (icache s)" and g: "iget dev inum s = Some (ip, s')"
  shows "icache_ok (icache s')" "live_at (icache s') ip dev inum" "ip < NINODE"
    "\<And>q. q \<noteq> ip \<Longrightarrow> icache s' q = icache s q"
    "i_ref (icache s' ip) = i_ref (icache s ip) + 1"
    "live_at (icache s) ip dev inum \<Longrightarrow> icache s' ip = (icache s ip)\<lparr>i_ref := i_ref (icache s ip) + 1\<rparr>"
    "\<not> live_at (icache s) ip dev inum \<Longrightarrow> \<not> i_valid (icache s' ip)"
    "s' = s\<lparr>icache := icache s'\<rparr>"
    "\<not> live_at (icache s) ip dev inum \<Longrightarrow> i_ref (icache s ip) = 0"
proof -
  have "icache_ok (icache s') \<and> live_at (icache s') ip dev inum \<and> ip < NINODE \<and> (\<forall>q. q \<noteq> ip \<longrightarrow> icache s' q = icache s q)
    \<and> i_ref (icache s' ip) = i_ref (icache s ip) + 1
    \<and> (live_at (icache s) ip dev inum \<longrightarrow> icache s' ip = (icache s ip)\<lparr>i_ref := i_ref (icache s ip) + 1\<rparr>)
    \<and> (\<not> live_at (icache s) ip dev inum \<longrightarrow> \<not> i_valid (icache s' ip)) \<and> s' = s\<lparr>icache := icache s'\<rparr>
    \<and> (\<not> live_at (icache s) ip dev inum \<longrightarrow> i_ref (icache s ip) = 0)"
  proof (cases "\<exists>q. live_at (icache s) q dev inum")
    case True
    then obtain q where q: "live_at (icache s) q dev inum" by blast
    then have e: "ip = q" "s' = upd_inode q (\<lambda>x. x\<lparr>i_ref := i_ref x + 1\<rparr>) s"
      using g unfolding iget_hit[OF ok q] by blast+
    have u: "\<forall>p. p \<noteq> q \<longrightarrow> \<not> live_at (icache s) p dev inum" using q ok by (auto simp: icache_ok_def)
    have "icache_ok (icache s')" unfolding e icache_upd_inode
      using q u by (intro icache_ok_upd[OF ok]) (auto simp: live_at_def)
    then show ?thesis using q e by (auto simp: live_at_def upd_inode_def)
  next
    case False
    then have nl: "\<And>q. \<not> live_at (icache s) q dev inum" by blast
    have nf: "\<not> icache_full (icache s)" using g iget_full[OF nl] by auto
    obtain q where q: "iget dev inum s = Some (q, upd_inode q (\<lambda>x. x\<lparr>i_dev := dev, i_inum := inum, i_ref := 1, i_valid := False\<rparr>) s)"
      "q < NINODE" "i_ref (icache s q) = 0"
      by (rule iget_miss[OF ok nl nf])
    then have e: "ip = q" "s' = upd_inode q (\<lambda>x. x\<lparr>i_dev := dev, i_inum := inum, i_ref := 1, i_valid := False\<rparr>) s"
      using g by simp_all
    have "icache_ok (icache s')" unfolding e icache_upd_inode
      using q nl by (intro icache_ok_upd[OF ok]) auto
    then show ?thesis using q e nl by (auto simp: live_at_def upd_inode_def)
  qed
  then show "icache_ok (icache s')" "live_at (icache s') ip dev inum" "ip < NINODE"
    "\<And>q. q \<noteq> ip \<Longrightarrow> icache s' q = icache s q"
    "i_ref (icache s' ip) = i_ref (icache s ip) + 1"
    "live_at (icache s) ip dev inum \<Longrightarrow> icache s' ip = (icache s ip)\<lparr>i_ref := i_ref (icache s ip) + 1\<rparr>"
    "\<not> live_at (icache s) ip dev inum \<Longrightarrow> \<not> i_valid (icache s' ip)"
    "s' = s\<lparr>icache := icache s'\<rparr>" "\<not> live_at (icache s) ip dev inum \<Longrightarrow> i_ref (icache s ip) = 0" by blast+
qed

lemma icache_ok_ref:
  assumes "icache_ok c" "live_at c ip dev inum" "r \<ge> 0"
  shows "icache_ok (c(ip := (c ip)\<lparr>i_ref := r\<rparr>))"
  using assms by (intro icache_ok_upd) (auto simp: icache_ok_def live_at_def)

text \<open>\<open>iput\<close>: a reference less; and the last one of an unlinked file frees the file.\<close>

lemma iput_drop:
  assumes "\<not> (i_valid (icache s ip) \<and> i_nlink (icache s ip) = 0 \<and> i_ref (icache s ip) = 1)"
  shows "iput ip s = Some (upd_inode ip (\<lambda>x. x\<lparr>i_ref := i_ref x - 1\<rparr>) s)"
  using assms by (auto simp: iput_def)

lemma iput_drop_ok:
  assumes "icache_ok (icache s)" "live_at (icache s) ip dev inum"
  shows "icache_ok (icache (upd_inode ip (\<lambda>x. x\<lparr>i_ref := i_ref x - 1\<rparr>) s))"
  using icache_ok_ref[OF assms, of "i_ref (icache s ip) - 1"] assms(2) by (simp add: live_at_def)

lemma iput_free:
  assumes ok: "fs_ok s" and room: "bc.room 2 s" and dev: "i_dev (icache s ip) = 1"
    and wf: "wf_file (sb s) (blocks s) (i_addrs (icache s ip))"
    and ib: "IBLOCK (i_inum (icache s ip)) (sb s) < FSSIZE"
    and last: "i_valid (icache s ip)" "i_nlink (icache s ip) = 0" "i_ref (icache s ip) = 1"
  defines "x \<equiv> (trunc_inode (icache s ip))\<lparr>i_type := 0\<rparr>"
  obtains s' where "iput ip s = Some s'"
    "advances s (put_inode (sb s) (i_inum (icache s ip)) (dinode_of x)
        (put_inode (sb s) (i_inum (icache s ip)) (dinode_of (trunc_inode (icache s ip)))
           (unmark_list (sb s) (file_blocks (blocks s) (i_addrs (icache s ip))) (blocks s))))
      ((icache s)(ip := x\<lparr>i_valid := False, i_ref := 0\<rparr>)) s'"
proof -
  have room1: "bc.room 1 s" using room by (rule bc.room_mono) simp
  obtain s1 where s1: "itrunc ip s = Some s1"
    "advances s (put_inode (sb s) (i_inum (icache s ip)) (dinode_of (trunc_inode (icache s ip)))
        (unmark_list (sb s) (file_blocks (blocks s) (i_addrs (icache s ip))) (blocks s)))
      ((icache s)(ip := trunc_inode (icache s ip))) s1"
    by (rule itrunc_ok[OF ok room dev wf ib])
  let ?s2 = "upd_inode ip (i_type_update (\<lambda>_. 0)) s1"
  note A1 = advancesD[OF s1(2)]
  have ad2: "advances s (put_inode (sb s) (i_inum (icache s ip)) (dinode_of (trunc_inode (icache s ip)))
        (unmark_list (sb s) (file_blocks (blocks s) (i_addrs (icache s ip))) (blocks s))) (icache ?s2) ?s2"
    by (rule advances_upd_inode[OF s1(2)])
  note A2 = advancesD[OF ad2]
  have ic2: "icache ?s2 = (icache s)(ip := x)" using A1(4) by (simp add: x_def)
  have xf: "i_dev x = 1" "i_inum x = i_inum (icache s ip)" "length (i_addrs x) = NDIRECT + 1"
    using dev by (simp_all add: x_def trunc_inode_def)
  obtain s3 where s3: "iupdate ip ?s2 = Some s3"
    "advances ?s2 (put_inode (sb ?s2) (i_inum (icache ?s2 ip)) (dinode_of (icache ?s2 ip)) (blocks ?s2)) (icache ?s2) s3"
    by (rule iupdate_ok[OF A2(1), of ip]) (use A2(3,6) room1 ib xf in \<open>simp_all only: ic2 fun_upd_same\<close>)
  have ad3: "advances s (put_inode (sb s) (i_inum (icache s ip)) (dinode_of x)
        (put_inode (sb s) (i_inum (icache s ip)) (dinode_of (trunc_inode (icache s ip)))
           (unmark_list (sb s) (file_blocks (blocks s) (i_addrs (icache s ip))) (blocks s))))
      ((icache s)(ip := x)) s3"
    using advances_trans[OF ad2 s3(2)] A2(2,3) xf by (simp only: ic2 fun_upd_same)
  let ?s4 = "upd_inode ip (i_valid_update (\<lambda>_. False)) s3"
  let ?s5 = "upd_inode ip (\<lambda>x. x\<lparr>i_ref := i_ref x - 1\<rparr>) ?s4"
  have "iput ip s = Some ?s5" using last s1(1) s3(1) by (simp add: iput_def)
  moreover have "icache ?s5 = (icache s)(ip := x\<lparr>i_valid := False, i_ref := 0\<rparr>)"
    using advancesD(4)[OF ad3] last by (simp add: x_def trunc_inode_def)
  ultimately show ?thesis
    using advances_upd_inode[OF advances_upd_inode[OF ad3], of ip "\<lambda>x. x\<lparr>i_ref := i_ref x - 1\<rparr>" ip "i_valid_update (\<lambda>_. False)"]
    by (intro that) simp_all
qed

text \<open>\<open>ialloc\<close>: the first inode whose type on disk is 0, claimed by writing its type.\<close>

definition free_inode :: "superblock \<Rightarrow> (u32 \<Rightarrow> u8 list) \<Rightarrow> nat \<Rightarrow> bool" where
  "free_inode x D k \<longleftrightarrow> d_type (disk_inode x D (of_nat k)) = 0"

definition first_inode :: "superblock \<Rightarrow> (u32 \<Rightarrow> u8 list) \<Rightarrow> nat option" where
  "first_inode x D = find (free_inode x D) [1..<unat (sb_ninodes x)]"

definition new_dinode :: "u16 \<Rightarrow> dinode" where
  "new_dinode type = \<lparr>d_type = type, d_major = 0, d_minor = 0, d_nlink = 0, d_size = 0, d_addrs = replicate (NDIRECT + 1) 0\<rparr>"

lemma enc_new_dinode: "enc_dinode (new_dinode type) = to_le 2 type @ replicate 62 0"
  by (simp add: enc_dinode_def new_dinode_def enc_words_def fs_consts numeral_eq_Suc)

lemma disk_type: "rd16 (dinode_off i) (D (IBLOCK i x)) = d_type (disk_inode x D i)"
  by (simp add: disk_inode_def dec_dinode_def rd16_def slice_def)

lemma ialloc_loop_ok:
  assumes "bio_ok s" "bc.room 1 s" "k \<le> m" "m < unat (sb_ninodes (sb s))" "unat (sb_ninodes (sb s)) < 2 ^ 31"
    and "\<forall>i. k \<le> i \<longrightarrow> i \<le> m \<longrightarrow> IBLOCK (of_nat i) (sb s) < FSSIZE"
    and "\<forall>i. k \<le> i \<longrightarrow> i < m \<longrightarrow> \<not> free_inode (sb s) (blocks s) i" "free_inode (sb s) (blocks s) m"
  shows "\<exists>s1. bc.evolves s (put_inode (sb s) (of_nat m) (new_dinode type) (blocks s)) s1
    \<and> ialloc_loop 1 type k s = Option.bind (iget 1 (of_nat m) s1) (\<lambda>(ip, s2). Some (Some ip, s2))"
  using assms
proof (induction "m - k" arbitrary: k s)
  case 0
  then have k: "k = m" by simp
  let ?n = "IBLOCK (of_nat m) (sb s)"
  let ?f = "blit (dinode_off (of_nat m)) (enc_dinode (new_dinode type))"
  have n: "?n < FSSIZE" using 0 by simp
  have "length (?f (blocks s ?n)) = BSIZE"
    using dinode_off_bound[of "of_nat m"] by (simp add: length_blit length_blocks[OF 0(2)] new_dinode_def fs_consts)
  then obtain b s1 s2 where b: "bread 1 ?n s = Some (b, s1)" "bdata s1 b = blocks s ?n" "outside s1 = outside s"
    "bwrite b (set_bdata b (?f (blocks s ?n)) s1) = Some s2"
    "bc.evolves s ((blocks s)(?n := ?f (blocks s ?n))) (brelse b s2)"
    by (rule bc.update_block[OF 0(2) n 0(3)])
  have "rd16 (dinode_off (of_nat m)) (blocks s ?n) = 0"
    using 0(9) by (simp add: disk_type free_inode_def)
  then have "ialloc_loop 1 type k s = Option.bind (iget 1 (of_nat m) (brelse b s2)) (\<lambda>(ip, s3). Some (Some ip, s3))"
    using b 0(5) by (subst ialloc_loop.simps) (simp add: k enc_new_dinode Let_def)
  then show ?case using b(5) unfolding put_inode_def by blast
next
  case (Suc d)
  have km: "k < m" using Suc.hyps(2) by simp
  let ?n = "IBLOCK (of_nat k) (sb s)"
  have n: "?n < FSSIZE" using Suc.prems(6) km by simp
  obtain b s1 where b: "bread 1 ?n s = Some (b, s1)" "bdata s1 b = blocks s ?n" "outside s1 = outside s"
    "bc.evolves s (blocks s) (brelse b s1)"
    by (rule bc.read_block[OF Suc.prems(1) n Suc.prems(2)])
  note e = evolves_fs[OF b(4)]
  have "rd16 (dinode_off (of_nat k)) (blocks s ?n) \<noteq> 0"
    using Suc.prems(7) km by (simp add: disk_type free_inode_def)
  then have step: "ialloc_loop 1 type k s = ialloc_loop 1 type (Suc k) (brelse b s1)"
    using b(1,2) Suc.prems(4,5) km by (subst ialloc_loop.simps) (simp add: Let_def)
  have "\<exists>s2. bc.evolves (brelse b s1) (put_inode (sb (brelse b s1)) (of_nat m) (new_dinode type) (blocks (brelse b s1))) s2
    \<and> ialloc_loop 1 type (Suc k) (brelse b s1) = Option.bind (iget 1 (of_nat m) s2) (\<lambda>(ip, s3). Some (Some ip, s3))"
    using Suc.hyps(2) Suc.prems km by (intro Suc.hyps(1)) (simp_all add: e)
  then obtain s2 where s2: "bc.evolves (brelse b s1) (put_inode (sb s) (of_nat m) (new_dinode type) (blocks s)) s2"
    "ialloc_loop 1 type (Suc k) (brelse b s1) = Option.bind (iget 1 (of_nat m) s2) (\<lambda>(ip, s3). Some (Some ip, s3))"
    by (auto simp: e)
  show ?case unfolding step s2(2) using bc.evolves_trans[OF b(4) s2(1)] by blast
qed

text \<open>The inode blocks lie inside the disk.\<close>

definition inodes_ok :: "superblock \<Rightarrow> bool" where
  "inodes_ok x \<longleftrightarrow> unat (sb_inodestart x) + unat (sb_ninodes x) div IPB < 1000"

lemma inodes_ok_IBLOCK:
  assumes "inodes_ok x" "i \<le> unat (sb_ninodes x)"
  shows "IBLOCK (of_nat i) x < FSSIZE"
proof -
  have "unat (sb_ninodes x) < 2 ^ 32" by (rule order_less_le_trans[OF unsigned_less]) simp
  then have i: "unat (of_nat i :: u32) = i" using assms(2) by (intro unat_of_nat_u32) simp
  have "i div 8 \<le> unat (sb_ninodes x) div 8" using assms(2) by (rule div_le_mono)
  then have "i div 8 + unat (sb_inodestart x) < 1000" using assms(1) by (simp add: inodes_ok_def fs_consts)
  then have "unat ((of_nat i :: u32) div 8 + sb_inodestart x) < 1000"
    by (simp add: unat_word_ariths unat_div i)
  then show ?thesis by (simp add: IBLOCK_def fs_consts FSSIZE_def word_less_nat_alt)
qed

lemma ialloc_ok:
  assumes ok: "bio_ok s" and room: "bc.room 1 s" and ino: "inodes_ok (sb s)"
    and f: "first_inode (sb s) (blocks s) = Some m" and nf: "\<not> icache_full (icache s)" and ic: "icache_ok (icache s)"
  obtains s1 ip s' where "bc.evolves s (put_inode (sb s) (of_nat m) (new_dinode type) (blocks s)) s1"
    "iget 1 (of_nat m) s1 = Some (ip, s')" "ialloc 1 type s = Some (Some ip, s')"
proof -
  let ?N = "unat (sb_ninodes (sb s))"
  have m: "1 \<le> m" "m < ?N" "free_inode (sb s) (blocks s) m" using findSomeD[OF f[unfolded first_inode_def]] by simp_all
  have before: "\<forall>i. 1 \<le> i \<longrightarrow> i < m \<longrightarrow> \<not> free_inode (sb s) (blocks s) i"
  proof (intro allI impI)
    fix i assume i: "1 \<le> i" "i < m"
    obtain j where j: "j < length [1..<?N]" "[1..<?N] ! j = m" "\<forall>l<j. \<not> free_inode (sb s) (blocks s) ([1..<?N] ! l)"
      using f unfolding first_inode_def find_Some_iff by auto
    then have "i - 1 < j" "[1..<?N] ! (i - 1) = i" using i m by auto
    then show "\<not> free_inode (sb s) (blocks s) i" using j(3) by metis
  qed
  have big: "?N < 2 ^ 31" using ino by (auto simp: inodes_ok_def fs_consts)
  have ib: "\<forall>i. 1 \<le> i \<longrightarrow> i \<le> m \<longrightarrow> IBLOCK (of_nat i) (sb s) < FSSIZE"
    using inodes_ok_IBLOCK[OF ino] m(2) by simp
  obtain s1 where s1: "bc.evolves s (put_inode (sb s) (of_nat m) (new_dinode type) (blocks s)) s1"
    "ialloc_loop 1 type 1 s = Option.bind (iget 1 (of_nat m) s1) (\<lambda>(ip, s2). Some (Some ip, s2))"
    using ialloc_loop_ok[OF ok room m(1,2) big ib before m(3)] by blast
  have c: "icache s1 = icache s" using s1(1) by (rule evolves_fs)
  have "\<exists>ip s'. iget 1 (of_nat m) s1 = Some (ip, s')"
  proof (cases "\<exists>q. live_at (icache s1) q 1 (of_nat m)")
    case True
    then show ?thesis using iget_hit[of s1] ic by (auto simp: c)
  next
    case False
    then show ?thesis using iget_miss[of s1 1 "of_nat m"] ic nf unfolding c by blast
  qed
  then show ?thesis using s1 that by (auto simp: ialloc_def)
qed

lemma ialloc_none_loop:
  assumes "bio_ok s" "bc.room 1 s" "k \<le> unat (sb_ninodes (sb s))" "unat (sb_ninodes (sb s)) < 2 ^ 31"
    and "\<forall>i. k \<le> i \<longrightarrow> i < unat (sb_ninodes (sb s)) \<longrightarrow> IBLOCK (of_nat i) (sb s) < FSSIZE \<and> \<not> free_inode (sb s) (blocks s) i"
  shows "\<exists>s1. bc.evolves s (blocks s) s1 \<and> ialloc_loop 1 type k s = Some (None, kprint ''ialloc: no inodes'' s1)"
  using assms
proof (induction "unat (sb_ninodes (sb s)) - k" arbitrary: k s)
  case 0
  then have "ialloc_loop 1 type k s = Some (None, kprint ''ialloc: no inodes'' s)"
    by (subst ialloc_loop.simps) simp
  then show ?case using bc.evolves_refl[OF 0(2)] by blast
next
  case (Suc d)
  have km: "k < unat (sb_ninodes (sb s))" using Suc.hyps(2) by simp
  let ?n = "IBLOCK (of_nat k) (sb s)"
  have n: "?n < FSSIZE" using Suc.prems(5) km by simp
  obtain b s1 where b: "bread 1 ?n s = Some (b, s1)" "bdata s1 b = blocks s ?n" "outside s1 = outside s"
    "bc.evolves s (blocks s) (brelse b s1)"
    by (rule bc.read_block[OF Suc.prems(1) n Suc.prems(2)])
  note e = evolves_fs[OF b(4)]
  have "rd16 (dinode_off (of_nat k)) (blocks s ?n) \<noteq> 0"
    using Suc.prems(5) km by (simp add: disk_type free_inode_def)
  then have step: "ialloc_loop 1 type k s = ialloc_loop 1 type (Suc k) (brelse b s1)"
    using b(1,2) Suc.prems(4) km by (subst ialloc_loop.simps) (simp add: Let_def)
  have "\<exists>s2. bc.evolves (brelse b s1) (blocks (brelse b s1)) s2
     \<and> ialloc_loop 1 type (Suc k) (brelse b s1) = Some (None, kprint ''ialloc: no inodes'' s2)"
    using Suc.hyps(2) Suc.prems km by (intro Suc.hyps(1)) (simp_all add: e)
  then show ?case unfolding step using bc.evolves_trans[OF b(4)] by (auto simp: e)
qed

lemma put_inode_twice:
  assumes "length (D (IBLOCK n x)) = BSIZE" "length (d_addrs d) = NDIRECT + 1" "length (d_addrs d0) = NDIRECT + 1"
  shows "put_inode x n d (put_inode x n d0 D) = put_inode x n d D"
proof -
  have "length (enc_dinode d) = 64" "length (enc_dinode d0) = 64" using assms(2,3) by (simp_all add: fs_consts)
  then have "blit (dinode_off n) (enc_dinode d) (blit (dinode_off n) (enc_dinode d0) (D (IBLOCK n x))) = blit (dinode_off n) (enc_dinode d) (D (IBLOCK n x))"
    using dinode_off_bound[of n] assms(1) by (simp add: blit_def)
  then show ?thesis by (simp add: put_inode_def)
qed

text \<open>The disk when the blocks of an inode have been freed and the inode saved: bitmap, inodes, and the block with the inode.\<close>

lemma freed_disk:
  assumes ok: "fs_ok s" and wf: "wf_file (sb s) (blocks s) as" and ad: "length (d_addrs d) = NDIRECT + 1"
    and ib: "IBLOCK n (sb s) \<noteq> sb_bmapstart (sb s)" and D': "D' = put_inode (sb s) n d (unmark_list (sb s) (file_blocks (blocks s) as) (blocks s))"
  shows "used (sb s) D' k \<longleftrightarrow> used (sb s) (blocks s) k \<and> k \<notin> unat ` set (file_blocks (blocks s) as)"
    "b \<noteq> sb_bmapstart (sb s) \<Longrightarrow> b \<noteq> IBLOCK n (sb s) \<Longrightarrow> D' b = blocks s b"
    "D' (IBLOCK n (sb s)) = blit (dinode_off n) (enc_dinode d) (blocks s (IBLOCK n (sb s)))"
    "IBLOCK j (sb s) \<noteq> sb_bmapstart (sb s) \<Longrightarrow> disk_inode (sb s) D' j = (if j = n then d else disk_inode (sb s) (blocks s) j)"
proof -
  let ?x = "sb s" and ?U = "unmark_list (sb s) (file_blocks (blocks s) as) (blocks s)"
  note len = fs_okD(5)[OF ok]
  have small: "\<forall>b\<in>set (file_blocks (blocks s) as). unat b < 1000"
    using file_blocks_wf(2)[OF wf] data_blk_1000[OF fs_okD(2)[OF ok]] by blast
  have "D' (sb_bmapstart ?x) = ?U (sb_bmapstart ?x)" using ib by (simp add: D' put_inode_def)
  then have "used ?x D' k = used ?x ?U k" by (simp add: used_def)
  then show "used ?x D' k \<longleftrightarrow> used ?x (blocks s) k \<and> k \<notin> unat ` set (file_blocks (blocks s) as)"
    using used_unmark_list[where D = "blocks s", OF len small] by simp
  show "D' b = blocks s b" if "b \<noteq> sb_bmapstart ?x" "b \<noteq> IBLOCK n ?x"
    using that by (simp add: D' put_inode_def unmark_list_other)
  show "D' (IBLOCK n ?x) = blit (dinode_off n) (enc_dinode d) (blocks s (IBLOCK n ?x))"
    using ib by (simp add: D' put_inode_def unmark_list_other)
  show "disk_inode ?x D' j = (if j = n then d else disk_inode ?x (blocks s) j)" if "IBLOCK j ?x \<noteq> sb_bmapstart ?x"
  proof -
    have "length (?U m) = BSIZE" for m using len by (rule length_unmark_list)
    from disk_inode_put[where D = ?U, OF this ad, of ?x n j]
    have "disk_inode ?x D' j = (if j = n then d else disk_inode ?x ?U j)" by (simp add: D')
    then show ?thesis using that by (simp add: disk_inode_def unmark_list_other)
  qed
qed

end
