(* ===== verification/File_Data.thy ===== *)
theory File_Data
  imports Inode
begin

text \<open>
  fs/fs.c, reading and writing the contents of an inode (\<open>readi\<close>, \<open>writei\<close>), and the console as a
  device file (\<open>screenewrite\<close>, \<open>screeninit\<close> of drivers/screen.c, reached through \<open>devsw\<close>). A user or kernel
  buffer is a byte list, and an access behind its end is \<open>None\<close>. The specification is byte by byte: \<open>fbyte\<close>.
\<close>

unbundle bit_operations_syntax

section \<open>The console as a device\<close>

definition CONSOLE :: nat where "CONSOLE = 1"

definition screenewrite :: "nat \<Rightarrow> u8 list \<Rightarrow> int \<Rightarrow> 'a fs_scheme \<Rightarrow> (int \<times> 'a fs_scheme) option" where
  "screenewrite ip buf n s =
     (if nat n \<le> length buf
      then do { s2 \<leftarrow> ilock ip (kputs (take (nat n) buf) (iunlock ip s)); Some (n, s2) }
      else None)"

definition screeninit :: "'a fs_scheme \<Rightarrow> 'a fs_scheme" where
  "screeninit s = s\<lparr>devsw := (devsw s)(CONSOLE := \<lparr>dev_read = None, dev_write = Some Screenewrite\<rparr>)\<rparr>"

definition call_dev :: "dev_fn \<Rightarrow> nat \<Rightarrow> u8 list \<Rightarrow> int \<Rightarrow> 'a fs_scheme \<Rightarrow> (int \<times> 'a fs_scheme) option" where
  "call_dev f ip buf n s = (case f of Screenewrite \<Rightarrow> screenewrite ip buf n s)"

section \<open>Reading and writing\<close>

text \<open>The loops count in natural numbers: the guards in front of them exclude that \<open>off + n\<close> wraps.\<close>

function readi_loop :: "nat \<Rightarrow> nat \<Rightarrow> nat \<Rightarrow> nat \<Rightarrow> u8 list \<Rightarrow> 'a fs_scheme \<Rightarrow> (u8 list \<times> 'a fs_scheme) option" where
  "readi_loop ip tot n off dst s =
     (if tot < n
      then let m = min (n - tot) (BSIZE - off mod BSIZE)
           in Option.bind (bmap ip (of_nat (off div BSIZE)) s) (\<lambda>(a, s1).
              Option.bind (bread (i_dev (icache s1 ip)) a s1) (\<lambda>(bp, s2).
                if tot + m \<le> length dst
                then readi_loop ip (tot + m) n (off + m) (blit tot (slice (off mod BSIZE) m (bdata s2 bp)) dst) (brelse bp s2)
                else None))
      else Some (dst, s))"
  by pat_completeness auto
termination
  by (relation "measure (\<lambda>(ip, tot, n, off, dst, s). n - tot)") (auto simp: min_def BSIZE_def)

declare readi_loop.simps [simp del]

definition readi :: "nat \<Rightarrow> u8 list \<Rightarrow> u32 \<Rightarrow> u32 \<Rightarrow> 'a fs_scheme \<Rightarrow> (int \<times> u8 list \<times> 'a fs_scheme) option" where
  "readi ip dst off n s =
     (let x = icache s ip
      in if i_type x = T_DEV
         then if sint (i_major x) < 0 \<or> sint (i_major x) \<ge> NDEV
              then Some (- 1, dst, s)
              else case dev_read (devsw s (unat (i_major x))) of
                     None \<Rightarrow> Some (- 1, dst, s)
                   | Some f \<Rightarrow> do { (r, s1) \<leftarrow> call_dev f ip dst (sint n) s; Some (r, dst, s1) }
         else if off > i_size x \<or> off + n < off then Some (- 1, dst, s)
         else let n' = (if off + n > i_size x then i_size x - off else n)
              in do {
                (d, s1) \<leftarrow> readi_loop ip 0 (unat n') (unat off) dst s;
                Some (sint n', d, s1)
              })"

function writei_loop :: "nat \<Rightarrow> nat \<Rightarrow> nat \<Rightarrow> nat \<Rightarrow> u8 list \<Rightarrow> 'a fs_scheme \<Rightarrow> (nat \<times> 'a fs_scheme) option" where
  "writei_loop ip tot n off src s =
     (if tot < n
      then let m = min (n - tot) (BSIZE - off mod BSIZE)
           in Option.bind (bmap ip (of_nat (off div BSIZE)) s) (\<lambda>(a, s1).
              Option.bind (bread (i_dev (icache s1 ip)) a s1) (\<lambda>(bp, s2).
                if tot + m \<le> length src
                then Option.bind (bwrite bp (set_bdata bp (blit (off mod BSIZE) (slice tot m src) (bdata s2 bp)) s2)) (\<lambda>s3.
                       writei_loop ip (tot + m) n (off + m) src (brelse bp s3))
                else None))
      else Some (off, s))"
  by pat_completeness auto
termination
  by (relation "measure (\<lambda>(ip, tot, n, off, src, s). n - tot)") (auto simp: min_def BSIZE_def)

declare writei_loop.simps [simp del]

definition writei :: "nat \<Rightarrow> u8 list \<Rightarrow> u32 \<Rightarrow> u32 \<Rightarrow> 'a fs_scheme \<Rightarrow> (int \<times> 'a fs_scheme) option" where
  "writei ip src off n s =
     (let x = icache s ip
      in if i_type x = T_DEV
         then if sint (i_major x) < 0 \<or> sint (i_major x) \<ge> NDEV
              then Some (- 1, s)
              else case dev_write (devsw s (unat (i_major x))) of
                     None \<Rightarrow> Some (- 1, s)
                   | Some f \<Rightarrow> call_dev f ip src (sint n) s
         else if off > i_size x \<or> off + n < off then Some (- 1, s)
         else if off + n > of_nat (MAXFILE * BSIZE) then Some (- 1, s)
         else do {
           (off', s1) \<leftarrow> writei_loop ip 0 (unat n) (unat off) src s;
           s2 \<leftarrow> (if n > 0 \<and> of_nat off' > i_size (icache s1 ip)
              then iupdate ip (upd_inode ip (i_size_update (\<lambda>_. of_nat off')) s1)
              else Some s1);
           Some (sint n, s2)
         })"

section \<open>The contents of a file, byte by byte\<close>

definition fbyte :: "(u32 \<Rightarrow> u8 list) \<Rightarrow> u32 list \<Rightarrow> nat \<Rightarrow> u8" where
  "fbyte D as k = fblock D as (k div BSIZE) ! (k mod BSIZE)"

text \<open>\<open>updates x D as D' as' g\<close>: the file now reads as \<open>g\<close>; it kept the blocks it had, took new ones
  only from the free list, and every block in use elsewhere is untouched.\<close>

definition updates :: "superblock \<Rightarrow> (u32 \<Rightarrow> u8 list) \<Rightarrow> u32 list \<Rightarrow> (u32 \<Rightarrow> u8 list) \<Rightarrow> u32 list \<Rightarrow> (nat \<Rightarrow> u8) \<Rightarrow> bool" where
  "updates x D as D' as' g \<longleftrightarrow> wf_disk x D' \<and> wf_file x D' as'
     \<and> (\<forall>k<MAXFILE * BSIZE. fbyte D' as' k = g k)
     \<and> (\<forall>i<MAXFILE. file_addr D as i \<noteq> 0 \<longrightarrow> file_addr D' as' i = file_addr D as i)
     \<and> (\<forall>k. used x D k \<longrightarrow> used x D' k)
     \<and> (\<forall>a\<in>set (file_blocks D' as'). a \<in> set (file_blocks D as) \<or> \<not> used x D (unat a))
     \<and> (\<forall>b. used x D (unat b) \<longrightarrow> b \<noteq> sb_bmapstart x \<longrightarrow> b \<notin> set (file_blocks D as) \<longrightarrow> D' b = D b)"

lemma updatesD:
  assumes "updates x D as D' as' g"
  shows "wf_disk x D'" "wf_file x D' as'" "k < MAXFILE * BSIZE \<Longrightarrow> fbyte D' as' k = g k"
    "i < MAXFILE \<Longrightarrow> file_addr D as i \<noteq> 0 \<Longrightarrow> file_addr D' as' i = file_addr D as i"
    "used x D j \<Longrightarrow> used x D' j"
    "a \<in> set (file_blocks D' as') \<Longrightarrow> a \<in> set (file_blocks D as) \<or> \<not> used x D (unat a)"
    "used x D (unat b) \<Longrightarrow> b \<noteq> sb_bmapstart x \<Longrightarrow> b \<notin> set (file_blocks D as) \<Longrightarrow> D' b = D b"
  using assms unfolding updates_def by blast+

lemma updates_refl: "wf_disk x D \<Longrightarrow> wf_file x D as \<Longrightarrow> updates x D as D as (fbyte D as)"
  by (simp add: updates_def)

lemma updates_trans:
  assumes 1: "updates x D as D1 as1 g" and 2: "updates x D1 as1 D2 as2 h"
  shows "updates x D as D2 as2 h"
  unfolding updates_def
proof (intro conjI allI impI ballI)
  show "wf_disk x D2" "wf_file x D2 as2" using updatesD[OF 2] by blast+
  show "fbyte D2 as2 k = h k" if "k < MAXFILE * BSIZE" for k using updatesD(3)[OF 2 that] .
  show "file_addr D2 as2 i = file_addr D as i" if "i < MAXFILE" "file_addr D as i \<noteq> 0" for i
    using updatesD(4)[OF 1 that] updatesD(4)[OF 2 that(1)] that by simp
  show "used x D2 k" if "used x D k" for k using updatesD(5)[OF 2 updatesD(5)[OF 1 that]] .
  show "a \<in> set (file_blocks D as) \<or> \<not> used x D (unat a)" if "a \<in> set (file_blocks D2 as2)" for a
    using updatesD(6)[OF 2 that] updatesD(5)[OF 1] updatesD(6)[OF 1] by blast
  show "D2 b = D b" if "used x D (unat b)" "b \<noteq> sb_bmapstart x" "b \<notin> set (file_blocks D as)" for b
  proof -
    have "b \<notin> set (file_blocks D1 as1)" using updatesD(6)[OF 1] that by blast
    then show ?thesis using updatesD(7)[OF 1 that] updatesD(7)[OF 2 updatesD(5)[OF 1 that(1)] that(2)] by simp
  qed
qed

lemma updates_cong: "updates x D as D' as' g \<Longrightarrow> (\<And>k. k < MAXFILE * BSIZE \<Longrightarrow> g k = h k) \<Longrightarrow> updates x D as D' as' h"
  by (simp add: updates_def)

lemma file_addr_block: "i < MAXFILE \<Longrightarrow> file_addr D as i \<noteq> 0 \<Longrightarrow> file_addr D as i \<in> set (file_blocks D as)"
  by (auto simp: file_blocks_def)

lemma file_blocks_cases:
  assumes "a \<in> set (file_blocks D as)"
  obtains i where "i < MAXFILE" "a = file_addr D as i" "a \<noteq> 0" | "a = as ! NDIRECT" "a \<noteq> 0"
  using assms by (auto simp: file_blocks_def split: if_splits)

text \<open>The blocks \<open>bmap\<close> adds were free.\<close>

lemma first_free_unused: "first_free x D = Some k \<Longrightarrow> \<not> used x D k"
  by (auto simp: first_free_def dest: findSomeD)

lemma bmap_abs_fresh:
  assumes wd: "wf_disk x D" and wf: "wf_file x D as" and bn: "bn < MAXFILE"
    and b: "bmap_abs x bn D as = Some (a, D', as')"
  shows "\<forall>i<MAXFILE. file_addr D' as' i = file_addr D as i \<or> \<not> used x D (unat (file_addr D' as' i))"
    and "as' ! NDIRECT = as ! NDIRECT \<or> \<not> used x D (unat (as' ! NDIRECT))"
    and "file_addr D as bn \<noteq> 0 \<Longrightarrow> D' = D \<and> as' = as"
proof -
  show "file_addr D as bn \<noteq> 0 \<Longrightarrow> D' = D \<and> as' = as" using b by (simp add: bmap_abs_def)
  have "(\<forall>i<MAXFILE. file_addr D' as' i = file_addr D as i \<or> \<not> used x D (unat (file_addr D' as' i)))
    \<and> (as' ! NDIRECT = as ! NDIRECT \<or> \<not> used x D (unat (as' ! NDIRECT)))"
  proof (cases "bn < NDIRECT")
    case True
    show ?thesis
    proof (cases "as ! bn = 0")
      case False
      then show ?thesis using b True by (simp add: bmap_abs_def file_addr_def)
    next
      case hole: True
      then obtain k where k: "first_free x D = Some k" "D' = alloc_blk x k D" "as' = as[bn := of_nat k]"
        using b True by (auto simp: bmap_abs_def file_addr_def)
      then show ?thesis
        using add_direct(1)[OF wd k(1) wf True hole] first_free_data[OF wd k(1)] True by simp
    qed
  next
    case False
    then have nb: "NDIRECT \<le> bn" by simp
    obtain D1 as1 where e: "ensure_indirect x D as = Some (D1, as1)"
      and rest: "(if file_addr D1 as1 bn \<noteq> 0 then Some (file_addr D1 as1 bn, D1, as1)
       else do { k \<leftarrow> first_free x D1; Some (of_nat k, add_entry x k (as1 ! NDIRECT) (bn - NDIRECT) D1, as1) }) = Some (a, D', as')"
      and w1: "wf_disk x D1" "wf_file x D1 as1" "as1 ! NDIRECT \<noteq> 0"
      by (rule bmap_abs_indirect[OF wd wf bn nb b])
    have s1: "\<forall>i<MAXFILE. file_addr D1 as1 i = file_addr D as i" "\<And>k. used x D k \<Longrightarrow> used x D1 k"
      "as1 ! NDIRECT = as ! NDIRECT \<or> \<not> used x D (unat (as1 ! NDIRECT))"
    proof -
      have "(\<forall>i<MAXFILE. file_addr D1 as1 i = file_addr D as i) \<and> (\<forall>k. used x D k \<longrightarrow> used x D1 k)
        \<and> (as1 ! NDIRECT = as ! NDIRECT \<or> \<not> used x D (unat (as1 ! NDIRECT)))"
      proof (cases "as ! NDIRECT = 0")
        case True
        then obtain k where k: "first_free x D = Some k" "D1 = alloc_blk x k D" "as1 = as[NDIRECT := of_nat k]"
          using e by (auto simp: ensure_indirect_def)
        then show ?thesis
          using add_indirect_block(1)[OF wd k(1) wf True] first_free_data[OF wd k(1)] used_alloc_blk[OF wd k(1)]
            wf_fileD(1)[OF wf] by simp
      qed (use e in \<open>auto simp: ensure_indirect_def\<close>)
      then show "\<forall>i<MAXFILE. file_addr D1 as1 i = file_addr D as i" "\<And>k. used x D k \<Longrightarrow> used x D1 k"
        "as1 ! NDIRECT = as ! NDIRECT \<or> \<not> used x D (unat (as1 ! NDIRECT))" by blast+
    qed
    show ?thesis
    proof (cases "file_addr D1 as1 bn = 0")
      case False
      then show ?thesis using rest s1 by auto
    next
      case True
      have "do { k \<leftarrow> first_free x D1; Some (of_nat k, add_entry x k (as1 ! NDIRECT) (bn - NDIRECT) D1, as1) } = Some (a, D', as')"
        using rest unfolding True by simp
      then obtain k where k: "first_free x D1 = Some k" "D' = add_entry x k (as1 ! NDIRECT) (bn - NDIRECT) D1" "as' = as1"
        unfolding Option.bind_eq_Some_conv option.inject prod.inject by blast
      note fa = add_through_indirect(1)[OF w1(1) k(1) w1(2) nb bn w1(3) True]
      have "\<not> used x D k" using s1(2) first_free_unused[OF k(1)] by blast
      then show ?thesis using fa s1 first_free_data(5)[OF w1(1) k(1)] k(2,3) by simp
    qed
  qed
  then show "\<forall>i<MAXFILE. file_addr D' as' i = file_addr D as i \<or> \<not> used x D (unat (file_addr D' as' i))"
    "as' ! NDIRECT = as ! NDIRECT \<or> \<not> used x D (unat (as' ! NDIRECT))" by blast+
qed

lemma bmap_abs_updates:
  assumes wd: "wf_disk x D" and wf: "wf_file x D as" and bn: "bn < MAXFILE"
    and b: "bmap_abs x bn D as = Some (a, D', as')"
  shows "updates x D as D' as' (fbyte D as)"
proof -
  note k = bmap_abs_ok(1)[OF assms]
  have fb: "fbyte D' as' i = fbyte D as i" if "i < MAXFILE * BSIZE" for i
    using keepsD(3)[OF k, of "i div BSIZE"] that by (simp add: fbyte_def less_mult_imp_div_less)
  have fr: "a \<in> set (file_blocks D as) \<or> \<not> used x D (unat a)" if "a \<in> set (file_blocks D' as')" for a
    using that
  proof (cases rule: file_blocks_cases)
    case (1 i)
    then show ?thesis using bmap_abs_fresh(1)[OF assms] file_addr_block[of i D as] by auto
  next
    case 2
    then show ?thesis using bmap_abs_fresh(2)[OF assms] by (auto simp: file_blocks_def)
  qed
  have "D' c = D c" if "used x D (unat c)" "c \<noteq> sb_bmapstart x" "c \<notin> set (file_blocks D as)" for c
    using that keepsD(7)[OF k, of c] by (auto simp: file_blocks_def split: if_splits)
  then show ?thesis unfolding updates_def using keepsD(1,2,4,6)[OF k] fb fr by blast
qed

lemma fbyte_block:
  "bn < MAXFILE \<Longrightarrow> file_addr D as bn = a \<Longrightarrow> a \<noteq> 0 \<Longrightarrow> k div BSIZE = bn \<Longrightarrow> fbyte D as k = D a ! (k mod BSIZE)"
  by (simp add: fbyte_def fblock_def)

text \<open>Overwriting one data block of the file.\<close>

lemma updates_block:
  assumes wd: "wf_disk x D" and wf: "wf_file x D as" and bn: "bn < MAXFILE" and a: "file_addr D as bn = a" "a \<noteq> 0"
    and d: "length d = BSIZE"
  shows "updates x D as (D(a := d)) as (\<lambda>k. if k div BSIZE = bn then d ! (k mod BSIZE) else fbyte D as k)"
    and "file_addr (D(a := d)) as = file_addr D as" "used x (D(a := d)) = used x D" "file_blocks (D(a := d)) as = file_blocks D as"
proof -
  have db: "data_blk x D a" using wf_fileD(2)[OF wf bn] a by simp
  have ne: "a \<noteq> sb_bmapstart x" "a \<noteq> as ! NDIRECT"
    using db wf_fileD(3)[OF wf bn] a by (auto simp: data_blk_def)
  show us: "used x (D(a := d)) = used x D" using ne by (simp add: used_def fun_eq_iff)
  show fa: "file_addr (D(a := d)) as = file_addr D as" using ne by (auto simp: file_addr_def fun_eq_iff)
  show fbs: "file_blocks (D(a := d)) as = file_blocks D as" by (simp add: file_blocks_def fa)
  have dd: "data_blk x (D(a := d)) = data_blk x D" by (simp add: data_blk_def us fun_eq_iff)
  have wd': "wf_disk x (D(a := d))" using wd d unfolding wf_disk_def us by auto
  have wf': "wf_file x (D(a := d)) as" using wf unfolding wf_file_def fa dd .
  have fb: "fbyte (D(a := d)) as k = (if k div BSIZE = bn then d ! (k mod BSIZE) else fbyte D as k)" if "k < MAXFILE * BSIZE" for k
  proof -
    have "k div BSIZE < MAXFILE" using that by (simp add: less_mult_imp_div_less)
    then have "file_addr D as (k div BSIZE) = a \<Longrightarrow> k div BSIZE = bn" using wf_fileD(5)[OF wf] bn a by metis
    then have "k div BSIZE \<noteq> bn \<Longrightarrow> (D(a := d)) (file_addr D as (k div BSIZE)) = D (file_addr D as (k div BSIZE))" by auto
    then show ?thesis using a by (cases "k div BSIZE = bn") (simp_all add: fbyte_def fblock_def fa)
  qed
  have aset: "a \<in> set (file_blocks D as)" using file_addr_block[OF bn] a by metis
  show "updates x D as (D(a := d)) as (\<lambda>k. if k div BSIZE = bn then d ! (k mod BSIZE) else fbyte D as k)"
    unfolding updates_def fa us fbs using wd' wf' fb aset by auto
qed

lemma block_end:
  assumes "off \<le> k" "k < off + m" "m \<le> 512 - off mod (512 :: nat)"
  shows "k < 512 * Suc (off div 512)" "512 * (off div 512) \<le> k"
proof -
  obtain q w where qw: "off = 512 * q + w" "w < 512" "off div 512 = q" "off mod 512 = w"
    by (metis mult_div_mod_eq mod_less_divisor zero_less_numeral)
  show "k < 512 * Suc (off div 512)" "512 * (off div 512) \<le> k" using assms qw(1,2) unfolding qw(3,4) by simp_all
qed

lemma other_block:
  assumes "off \<le> k" "k < off + m" "m \<le> 512 - off mod (512 :: nat)"
  shows "k div 512 = off div 512"
  using block_end[OF assms] by (intro div_nat_eqI) (auto simp: mult.commute)

text \<open>How many blocks the bytes \<open>off ..< off + r\<close> touch.\<close>

definition touched :: "nat \<Rightarrow> nat \<Rightarrow> nat" where
  "touched off r = (if r = 0 then 0 else (off + r - 1) div BSIZE - off div BSIZE + 1)"

lemma touched_step:
  assumes "0 < r" and "m = min r (BSIZE - off mod BSIZE)"
  shows "touched off r = Suc (touched (off + m) (r - m))"
proof (cases "r \<le> BSIZE - off mod BSIZE")
  case True
  then have m: "m = r" using assms(2) by simp
  have "off + r - 1 < 512 * Suc (off div 512)" "512 * (off div 512) \<le> off + r - 1"
    using block_end[of off "off + r - 1" r] True assms(1) unfolding BSIZE_def by simp_all
  then have "(off + r - 1) div BSIZE = off div BSIZE"
    unfolding BSIZE_def by (intro div_nat_eqI) (auto simp: mult.commute)
  then show ?thesis using assms(1) m by (simp add: touched_def)
next
  case False
  then have m: "m = BSIZE - off mod BSIZE" using assms(2) by simp
  obtain q w where qw: "off = 512 * q + w" "w < 512" "off div 512 = q" "off mod 512 = w"
    by (metis mult_div_mod_eq mod_less_divisor zero_less_numeral)
  have om: "off + m = 512 * Suc (off div 512)" using m qw(1,2) unfolding BSIZE_def qw(3,4) by simp
  then have d: "(off + m) div BSIZE = Suc (off div BSIZE)" by (simp add: BSIZE_def)
  have e: "off + m + (r - m) = off + r" "0 < r - m" using False m by simp_all
  have "Suc (off div BSIZE) \<le> (off + r - 1) div BSIZE"
  proof -
    have "off + m \<le> off + r - 1" using e by simp
    then show ?thesis using d by (metis div_le_mono)
  qed
  then show ?thesis using e d assms(1) by (simp add: touched_def)
qed


lemma data_blk_room:
  "sb_ok x \<Longrightarrow> wf_file x D as \<Longrightarrow> bn < MAXFILE \<Longrightarrow> file_addr D as bn = a \<Longrightarrow> a \<noteq> 0 \<Longrightarrow> a < FSSIZE"
  using data_blk_FSSIZE wf_fileD(2) by metis

lemma nfree_block: "a \<noteq> sb_bmapstart x \<Longrightarrow> nfree x (D(a := d)) = nfree x D"
  by (simp add: nfree_def used_def)

text \<open>Overwriting part of the block that \<open>bmap_abs\<close> found or added, as an update of the file.\<close>

lemma overwrite_part:
  fixes off :: nat and c :: "u8 list"
  assumes wd: "wf_disk x D" and wf: "wf_file x D as" and off: "off < MAXFILE * BSIZE"
    and b: "bmap_abs x (off div BSIZE) D as = Some (a, D', as')" and m: "length c \<le> BSIZE - off mod BSIZE"
  defines "d \<equiv> blit (off mod BSIZE) c (D' a)"
  shows "length d = BSIZE"
    and "updates x D as (D'(a := d)) as' (\<lambda>k. if off \<le> k \<and> k < off + length c then c ! (k - off) else fbyte D as k)"
    and "file_addr (D'(a := d)) as' = file_addr D' as'" "a \<noteq> sb_bmapstart x" "a < FSSIZE" "data_blk x D' a"
proof -
  let ?bn = "off div BSIZE"
  have bn: "?bn < MAXFILE" using off by (simp add: less_mult_imp_div_less)
  note kb = bmap_abs_ok[OF wd wf bn b] and u1 = bmap_abs_updates[OF wd wf bn b]
  note w = updatesD(1,2)[OF u1]
  have la: "length (D' a) = BSIZE" using w(1) by (rule wf_diskD)
  have om: "off mod BSIZE < BSIZE" by (simp add: BSIZE_def)
  show d: "length d = BSIZE" using m om la by (simp add: length_blit d_def)
  note ub = updates_block[OF w bn kb(3,2) d]
  show "file_addr (D'(a := d)) as' = file_addr D' as'" by (rule ub(2))
  show db: "data_blk x D' a" using wf_fileD(2)[OF w(2) bn] kb(2,3) by simp
  then show "a \<noteq> sb_bmapstart x" by (auto simp: data_blk_def)
  show "a < FSSIZE" using data_blk_FSSIZE[OF wf_diskD(1)[OF w(1)] db] .
  have g: "(if k div BSIZE = ?bn then d ! (k mod BSIZE) else fbyte D' as' k)
      = (if off \<le> k \<and> k < off + length c then c ! (k - off) else fbyte D as k)" if k: "k < MAXFILE * BSIZE" for k
  proof -
    have old: "fbyte D' as' k = fbyte D as k" using updatesD(3)[OF u1 k] .
    have q: "off = 512 * (off div 512) + off mod 512" "off mod 512 < 512" "k = 512 * (k div 512) + k mod 512" "k mod 512 < 512" by simp_all
    show ?thesis
    proof (cases "k div BSIZE = ?bn")
      case False
      then have "\<not> (off \<le> k \<and> k < off + length c)"
        using other_block[of off k "length c"] m by (auto simp: BSIZE_def)
      then show ?thesis using False old by auto
    next
      case True
      then have kk: "k mod BSIZE - off mod BSIZE = k - off" "off mod BSIZE \<le> k mod BSIZE \<longleftrightarrow> off \<le> k"
        "k mod BSIZE < off mod BSIZE + length c \<longleftrightarrow> k < off + length c"
        using q unfolding BSIZE_def by linarith+
      have "d ! (k mod BSIZE) = (if off \<le> k \<and> k < off + length c then c ! (k - off) else D' a ! (k mod BSIZE))"
        using m om la q(4) kk unfolding d_def by (subst nth_blit) (simp_all add: BSIZE_def)
      moreover have "fbyte D' as' k = D' a ! (k mod BSIZE)" by (rule fbyte_block[OF bn kb(3,2) True])
      ultimately show ?thesis using True old by simp
    qed
  qed
  show "updates x D as (D'(a := d)) as' (\<lambda>k. if off \<le> k \<and> k < off + length c then c ! (k - off) else fbyte D as k)"
    by (rule updates_cong[OF updates_trans[OF u1 ub(1)] g])
qed

text \<open>One round of the loop of \<open>writei\<close>: find (or add) the block, overwrite part of it.\<close>

lemma writei_round:
  assumes ok: "bio_ok s" and wd: "wf_disk (sb s) (blocks s)" and dev: "i_dev (icache s ip) = 1"
    and wf: "wf_file (sb s) (blocks s) (i_addrs (icache s ip))" and room: "bc.room 2 s"
    and free: "2 \<le> nfree (sb s) (blocks s)" and off: "off < MAXFILE * BSIZE"
    and m: "m \<le> BSIZE - off mod BSIZE" "tot + m \<le> length src"
  obtains a D1 as1 s1 bp s2 s3 where "bmap ip (of_nat (off div BSIZE)) s = Some (a, s1)" "bread 1 a s1 = Some (bp, s2)"
    "i_dev (icache s1 ip) = 1"
    "bwrite bp (set_bdata bp (blit (off mod BSIZE) (slice tot m src) (bdata s2 bp)) s2) = Some s3"
    "advances s D1 (set_addrs ip as1 (icache s)) (brelse bp s3)"
    "updates (sb s) (blocks s) (i_addrs (icache s ip)) D1 as1
       (\<lambda>k. if off \<le> k \<and> k < off + m then src ! (tot + (k - off)) else fbyte (blocks s) (i_addrs (icache s ip)) k)"
    "nfree (sb s) (blocks s) \<le> nfree (sb s) D1 + 2" "file_addr D1 as1 (off div BSIZE) \<noteq> 0"
    "file_addr (blocks s) (i_addrs (icache s ip)) (off div BSIZE) \<noteq> 0 \<Longrightarrow> as1 = i_addrs (icache s ip)"
proof -
  let ?x = "sb s" and ?D = "blocks s" and ?as = "i_addrs (icache s ip)" and ?bn = "off div BSIZE"
  have bn: "?bn < MAXFILE" using off by (simp add: less_mult_imp_div_less)
  obtain a D' as1 where b: "bmap_abs ?x ?bn ?D ?as = Some (a, D', as1)" and nf: "nfree ?x ?D \<le> nfree ?x D' + 2"
    using bmap_abs_total[OF wd wf free] by blast
  note kb = bmap_abs_ok[OF wd wf bn b]
  note u1 = bmap_abs_updates[OF wd wf bn b]
  note w = updatesD(1,2)[OF u1]
  obtain s1 where s1: "bmap ip (of_nat ?bn) s = Some (a, s1)" "advances s D' (set_addrs ip as1 (icache s)) s1"
    by (rule bmap_refines[OF ok wd dev wf room bn b])
  note A = advancesD[OF s1(2)]
  have a: "a < FSSIZE" using data_blk_room[OF wf_diskD(1)[OF w(1)] w(2) bn kb(3,2)] .
  have "bc.room 1 s1" using bc.room_mono[OF room, of 1] A(6) by simp
  then have "bc.room (Suc 0) s1" by simp
  then obtain bp s2 where p: "bread 1 a s1 = Some (bp, s2)" "bc.holds s1 a bp s2" "bdata s2 bp = blocks s1 a"
    by (rule bc.bread_holds[OF A(1) a])
  note h = holds_fs[OF p(2)]
  let ?c = "slice tot m src"
  have ls: "length ?c = m" using m(2) by (rule length_slice)
  then have "length ?c \<le> BSIZE - off mod BSIZE" using m(1) by simp
  note op = overwrite_part[OF wd wf off b this]
  let ?d = "blit (off mod BSIZE) ?c (D' a)"
  have ev2: "bc.evolves s2 D' s2" using bc.evolves_refl[OF h(3)] by (simp add: h A)
  obtain s3 where s3: "bwrite bp (set_bdata bp ?d s2) = Some s3" "bc.evolves s2 (D'(a := ?d)) s3"
    by (rule bc.overwrite[OF p(2) ev2 op(1)])
  have ev3: "bc.evolves s1 (D'(a := ?d)) (brelse bp s3)" by (rule bc.release[OF p(2) s3(2)])
  have u: "updates ?x ?D ?as (D'(a := ?d)) as1 (\<lambda>k. if off \<le> k \<and> k < off + m then src ! (tot + (k - off)) else fbyte ?D ?as k)"
    using op(2) by (rule updates_cong) (auto simp: ls nth_slice m(2))
  have n1: "i_dev (icache s1 ip) = 1" using dev by (simp add: A)
  have n2: "bwrite bp (set_bdata bp (blit (off mod BSIZE) (slice tot m src) (bdata s2 bp)) s2) = Some s3"
    using s3(1) by (simp add: p(3) A)
  have n3: "advances s (D'(a := ?d)) (set_addrs ip as1 (icache s)) (brelse bp s3)"
    by (rule advances_trans[OF s1(2) evolves_advances[OF ev3], unfolded A(4)])
  have n5: "nfree ?x ?D \<le> nfree ?x (D'(a := ?d)) + 2" using nf nfree_block[OF op(4), of D'] by simp
  have n6: "file_addr (D'(a := ?d)) as1 ?bn \<noteq> 0" using kb(2,3) op(3) by simp
  have n7: "as1 = ?as" if "file_addr ?D ?as ?bn \<noteq> 0" using bmap_abs_fresh(3)[OF wd wf bn b that] by simp
  show ?thesis
    by (rule that[OF s1(1) p(1) n1 n2 n3 u n5 n6 n7])
qed


text \<open>The blocks that the bytes \<open>off ..< off + r\<close> lie in.\<close>

definition in_range :: "nat \<Rightarrow> nat \<Rightarrow> nat \<Rightarrow> bool" where
  "in_range off r i \<longleftrightarrow> 0 < r \<and> off div BSIZE \<le> i \<and> BSIZE * i < off + r"

lemma in_range_step:
  assumes "0 < r" and "m = min r (BSIZE - off mod BSIZE)"
  shows "in_range off r i \<longleftrightarrow> i = off div BSIZE \<or> in_range (off + m) (r - m) i"
proof -
  obtain q w where qw: "off = 512 * q + w" "w < 512" "off div 512 = q" "off mod 512 = w"
    by (metis mult_div_mod_eq mod_less_divisor zero_less_numeral)
  show ?thesis
  proof (cases "r \<le> 512 - w")
    case True
    then have "m = r" using assms(2) by (simp add: BSIZE_def qw(4))
    then show ?thesis using True qw(1,2) assms(1) unfolding in_range_def BSIZE_def qw(3) by auto
  next
    case False
    then have m: "m = 512 - w" using assms(2) by (simp add: BSIZE_def qw(4))
    have om: "off + m = 512 * Suc q" "off + m + (r - m) = off + r" using False m qw(1,2) by simp_all
    have "(off + m) div 512 = Suc q" unfolding om(1) by simp
    then show ?thesis
      using False m qw(1,2) assms(1) unfolding in_range_def BSIZE_def qw(3) om(2) by auto
  qed
qed

lemma unat_plus_u32: "off \<le> off + n \<Longrightarrow> unat (off + n :: u32) = unat off + unat n"
  by (metis no_olen_add_nat unat_plus_simple word_le_nat_alt)

lemma sint_small_u32: "unat (n :: u32) < 2 ^ 31 \<Longrightarrow> sint n = int (unat n)"
proof -
  assume "unat n < 2 ^ 31"
  then have "int (unat n) < int (2 ^ 31)" by (simp only: of_nat_less_iff)
  then have "uint n < 2 ^ 31" by simp
  moreover have "- (2 ^ 31) \<le> uint n" by (rule order_trans[of _ 0]) simp_all
  ultimately have "signed_take_bit 31 (uint n) = uint n" by (rule signed_take_bit_int_eq_self[rotated])
  then show ?thesis by (simp add: sint_uint)
qed

text \<open>The whole loop, given enough free blocks: two for each block touched.\<close>

lemma writei_loop_ok:
  assumes "bio_ok s" "wf_disk (sb s) (blocks s)" "i_dev (icache s ip) = 1"
    and "wf_file (sb s) (blocks s) (i_addrs (icache s ip))" "bc.room 2 s"
    and "tot \<le> n" "off + (n - tot) \<le> MAXFILE * BSIZE" "n \<le> length src"
    and "2 * touched off (n - tot) \<le> nfree (sb s) (blocks s)"
  shows "\<exists>D' as' s'. writei_loop ip tot n off src s = Some (off + (n - tot), s')
    \<and> advances s D' (set_addrs ip as' (icache s)) s'
    \<and> updates (sb s) (blocks s) (i_addrs (icache s ip)) D' as'
        (\<lambda>k. if off \<le> k \<and> k < off + (n - tot) then src ! (tot + (k - off)) else fbyte (blocks s) (i_addrs (icache s ip)) k)
    \<and> (\<forall>i. in_range off (n - tot) i \<longrightarrow> file_addr D' as' i \<noteq> 0)
    \<and> ((\<forall>i. in_range off (n - tot) i \<longrightarrow> file_addr (blocks s) (i_addrs (icache s ip)) i \<noteq> 0)
        \<longrightarrow> as' = i_addrs (icache s ip))
    \<and> nfree (sb s) (blocks s) \<le> nfree (sb s) D' + 2 * touched off (n - tot)"
  using assms
proof (induction "n - tot" arbitrary: tot off s rule: less_induct)
  case less
  let ?x = "sb s" and ?D = "blocks s" and ?as = "i_addrs (icache s ip)"
  show ?case
  proof (cases "tot < n")
    case False
    have "writei_loop ip tot n off src s = Some (off, s)" using False by (subst writei_loop.simps) simp
    moreover have "updates ?x ?D ?as ?D ?as (\<lambda>k. if off \<le> k \<and> k < off + (n - tot) then src ! (tot + (k - off)) else fbyte ?D ?as k)"
      by (rule updates_cong[OF updates_refl[OF less.prems(2,4)]]) (use False in auto)
    ultimately show ?thesis
      using False advances_refl[OF less.prems(1)] by (intro exI[of _ ?D] exI[of _ ?as] exI[of _ s]) (simp add: in_range_def)
  next
    case True
    define m where "m = min (n - tot) (BSIZE - off mod BSIZE)"
    have m: "0 < m" "m \<le> BSIZE - off mod BSIZE" "tot + m \<le> n" using True by (simp_all add: m_def BSIZE_def)
    have t: "touched off (n - tot) = Suc (touched (off + m) (n - (tot + m)))"
      using touched_step[of "n - tot" m off] True by (simp add: m_def)
    have free: "2 \<le> nfree ?x ?D" using less.prems(9) t by simp
    have off: "off < MAXFILE * BSIZE" using less.prems(7) True by simp
    obtain a D1 as1 s1 bp s2 s3 where r: "bmap ip (of_nat (off div BSIZE)) s = Some (a, s1)" "bread 1 a s1 = Some (bp, s2)"
      "i_dev (icache s1 ip) = 1"
      "bwrite bp (set_bdata bp (blit (off mod BSIZE) (slice tot m src) (bdata s2 bp)) s2) = Some s3"
      "advances s D1 (set_addrs ip as1 (icache s)) (brelse bp s3)"
      and u1: "updates ?x ?D ?as D1 as1 (\<lambda>k. if off \<le> k \<and> k < off + m then src ! (tot + (k - off)) else fbyte ?D ?as k)"
      and nf: "nfree ?x ?D \<le> nfree ?x D1 + 2" and nz: "file_addr D1 as1 (off div BSIZE) \<noteq> 0"
      and sm: "file_addr ?D ?as (off div BSIZE) \<noteq> 0 \<Longrightarrow> as1 = ?as"
      by (rule writei_round[OF less.prems(1-5) free off m(2), of tot src]) (use m less.prems(8) in simp_all)
    let ?s' = "brelse bp s3"
    note A = advancesD[OF r(5)] and w1 = updatesD(1,2)[OF u1]
    have loop: "writei_loop ip tot n off src s = writei_loop ip (tot + m) n (off + m) src ?s'"
      using True r m less.prems(8) by (subst writei_loop.simps) (simp add: m_def[symmetric] Let_def)
    have "\<exists>D' as' s'. writei_loop ip (tot + m) n (off + m) src ?s' = Some (off + m + (n - (tot + m)), s')
      \<and> advances ?s' D' (set_addrs ip as' (icache ?s')) s'
      \<and> updates (sb ?s') (blocks ?s') (i_addrs (icache ?s' ip)) D' as'
          (\<lambda>k. if off + m \<le> k \<and> k < off + m + (n - (tot + m)) then src ! (tot + m + (k - (off + m))) else fbyte (blocks ?s') (i_addrs (icache ?s' ip)) k)
      \<and> (\<forall>i. in_range (off + m) (n - (tot + m)) i \<longrightarrow> file_addr D' as' i \<noteq> 0)
      \<and> ((\<forall>i. in_range (off + m) (n - (tot + m)) i \<longrightarrow> file_addr (blocks ?s') (i_addrs (icache ?s' ip)) i \<noteq> 0)
          \<longrightarrow> as' = i_addrs (icache ?s' ip))
      \<and> nfree (sb ?s') (blocks ?s') \<le> nfree (sb ?s') D' + 2 * touched (off + m) (n - (tot + m))"
    proof (rule less.hyps)
      show "n - (tot + m) < n - tot" using m True by simp
      show "bio_ok ?s'" "wf_disk (sb ?s') (blocks ?s')" "wf_file (sb ?s') (blocks ?s') (i_addrs (icache ?s' ip))"
        "i_dev (icache ?s' ip) = 1" "bc.room 2 ?s'"
        using A(1) w1 less.prems(3,5) A(6) by (simp_all add: A(2-4))
      show "tot + m \<le> n" "n \<le> length src" by fact+
      show "off + m + (n - (tot + m)) \<le> MAXFILE * BSIZE" using m less.prems(7) by simp
      show "2 * touched (off + m) (n - (tot + m)) \<le> nfree (sb ?s') (blocks ?s')"
        using nf less.prems(9) t by (simp add: A(2,3))
    qed
    moreover have e1: "off + m + (n - (tot + m)) = off + (n - tot)" using m(3) by simp
    ultimately obtain D' as' s' where i: "writei_loop ip (tot + m) n (off + m) src ?s' = Some (off + (n - tot), s')"
      "advances ?s' D' (set_addrs ip as' (set_addrs ip as1 (icache s))) s'"
      "updates ?x D1 as1 D' as' (\<lambda>k. if off + m \<le> k \<and> k < off + (n - tot) then src ! (tot + m + (k - (off + m))) else fbyte D1 as1 k)"
      "\<forall>i. in_range (off + m) (n - (tot + m)) i \<longrightarrow> file_addr D' as' i \<noteq> 0"
      "(\<forall>i. in_range (off + m) (n - (tot + m)) i \<longrightarrow> file_addr D1 as1 i \<noteq> 0) \<longrightarrow> as' = as1"
      "nfree ?x D1 \<le> nfree ?x D' + 2 * touched (off + m) (n - (tot + m))"
      unfolding A(2-4) e1 set_addrs_simps(3) by blast
    have step: "in_range off (n - tot) j \<longleftrightarrow> j = off div BSIZE \<or> in_range (off + m) (n - (tot + m)) j" for j
      using in_range_step[of "n - tot" m off j] True by (simp add: m_def)
    have u: "updates ?x ?D ?as D' as'
        (\<lambda>k. if off \<le> k \<and> k < off + (n - tot) then src ! (tot + (k - off)) else fbyte ?D ?as k)"
    proof (rule updates_cong[OF updates_trans[OF u1 i(3)]])
      fix k assume k: "k < MAXFILE * BSIZE"
      show "(if off + m \<le> k \<and> k < off + (n - tot) then src ! (tot + m + (k - (off + m))) else fbyte D1 as1 k)
          = (if off \<le> k \<and> k < off + (n - tot) then src ! (tot + (k - off)) else fbyte ?D ?as k)"
        using updatesD(3)[OF u1 k] m(3) by auto
    qed
    have bn: "off div BSIZE < MAXFILE" using off by (simp add: less_mult_imp_div_less)
    have nz': "file_addr D' as' (off div BSIZE) \<noteq> 0" using updatesD(4)[OF i(3) bn nz] nz by simp
    have same: "as' = ?as" if all: "\<forall>i. in_range off (n - tot) i \<longrightarrow> file_addr ?D ?as i \<noteq> 0"
    proof -
      have "as1 = ?as" using sm all step by blast
      moreover have "file_addr D1 as1 j \<noteq> 0" if "in_range (off + m) (n - (tot + m)) j" for j
      proof -
        have "BSIZE * j < BSIZE * MAXFILE"
          using that less.prems(7) e1 by (simp only: in_range_def mult.commute[of MAXFILE]) linarith
        then have "j < MAXFILE" by simp
        then show ?thesis using updatesD(4)[OF u1] all that step by metis
      qed
      ultimately show ?thesis using i(5) by blast
    qed
    have "advances s D' (set_addrs ip as' (icache s)) s'"
      using advances_trans[OF r(5) i(2)] by simp
    moreover have "nfree ?x ?D \<le> nfree ?x D' + 2 * touched off (n - tot)" using nf i(6) t by simp
    ultimately show ?thesis using loop i(1,4) u nz' same step by (intro exI conjI) (simp_all, blast+)
  qed
qed


section \<open>Reading\<close>

lemma blit_blit:
  assumes "length xs = m" "tot + m \<le> length dst"
  shows "blit (tot + m) ys (blit tot xs dst) = blit tot (xs @ ys) dst"
  using assms by (simp add: blit_def min_def ac_simps)

lemma readi_round:
  assumes ok: "bio_ok s" and wd: "wf_disk (sb s) (blocks s)" and dev: "i_dev (icache s ip) = 1"
    and wf: "wf_file (sb s) (blocks s) (i_addrs (icache s ip))" and room: "bc.room 2 s"
    and off: "off < MAXFILE * BSIZE" and nz: "file_addr (blocks s) (i_addrs (icache s ip)) (off div BSIZE) \<noteq> 0"
    and m: "m \<le> BSIZE - off mod BSIZE"
  obtains a s1 bp s2 where "bmap ip (of_nat (off div BSIZE)) s = Some (a, s1)" "bread 1 a s1 = Some (bp, s2)"
    "i_dev (icache s1 ip) = 1" "advances s (blocks s) (icache s) (brelse bp s2)"
    "slice (off mod BSIZE) m (bdata s2 bp) = map (fbyte (blocks s) (i_addrs (icache s ip))) [off..<off + m]"
proof -
  let ?x = "sb s" and ?D = "blocks s" and ?as = "i_addrs (icache s ip)" and ?bn = "off div BSIZE"
  let ?a = "file_addr ?D ?as ?bn"
  have bn: "?bn < MAXFILE" using off by (simp add: less_mult_imp_div_less)
  have b: "bmap_abs ?x ?bn ?D ?as = Some (?a, ?D, ?as)" using nz by (simp add: bmap_abs_def)
  obtain s1 where s1: "bmap ip (of_nat ?bn) s = Some (?a, s1)" "advances s ?D (set_addrs ip ?as (icache s)) s1"
    by (rule bmap_refines[OF ok wd dev wf room bn b])
  have ad: "advances s ?D (icache s) s1" using s1(2) by simp
  note A = advancesD[OF ad]
  have a: "?a < FSSIZE" using data_blk_room[OF wf_diskD(1)[OF wd] wf bn refl nz] .
  have "bc.room 1 s1" using bc.room_mono[OF room, of 1] A(6) by simp
  then obtain bp s2 where p: "bread 1 ?a s1 = Some (bp, s2)" "bdata s2 bp = blocks s1 ?a"
    "bc.evolves s1 (blocks s1) (brelse bp s2)"
    by (rule bc.read_block[OF A(1) a])
  have la: "length (?D ?a) = BSIZE" using wd by (rule wf_diskD)
  have om: "off mod BSIZE < BSIZE" by (simp add: BSIZE_def)
  have "slice (off mod BSIZE) m (?D ?a) = map (fbyte ?D ?as) [off..<off + m]"
  proof (rule nth_equalityI)
    show "length (slice (off mod BSIZE) m (?D ?a)) = length (map (fbyte ?D ?as) [off..<off + m])"
      using m om la by (simp add: length_slice)
  next
    fix i assume "i < length (slice (off mod BSIZE) m (?D ?a))"
    then have i: "i < m" using m om la by (simp add: length_slice)
    have q: "(off + i) div BSIZE = ?bn" using other_block[of off "off + i" m] i m by (simp add: BSIZE_def)
    then have "(off + i) mod BSIZE = off mod BSIZE + i"
      by (metis add.assoc add_left_cancel mult_div_mod_eq)
    then show "slice (off mod BSIZE) m (?D ?a) ! i = map (fbyte ?D ?as) [off..<off + m] ! i"
      using i m om la fbyte_block[OF bn refl nz q] by (simp add: nth_slice)
  qed
  then have d: "slice (off mod BSIZE) m (bdata s2 bp) = map (fbyte ?D ?as) [off..<off + m]" by (simp add: p(2) A(2))
  have "advances s ?D (icache s) (brelse bp s2)"
    using advances_trans[OF ad evolves_advances[OF p(3)]] by (simp add: A)
  moreover have "i_dev (icache s1 ip) = 1" using dev by (simp add: A)
  ultimately show ?thesis by (intro that[OF s1(1) p(1) _ _ d])
qed

lemma readi_loop_ok:
  assumes "bio_ok s" "wf_disk (sb s) (blocks s)" "i_dev (icache s ip) = 1"
    and "wf_file (sb s) (blocks s) (i_addrs (icache s ip))" "bc.room 2 s"
    and "tot \<le> n" "off + (n - tot) \<le> MAXFILE * BSIZE" "n \<le> length dst"
    and "\<forall>i. in_range off (n - tot) i \<longrightarrow> file_addr (blocks s) (i_addrs (icache s ip)) i \<noteq> 0"
  shows "\<exists>s'. readi_loop ip tot n off dst s =
      Some (blit tot (map (fbyte (blocks s) (i_addrs (icache s ip))) [off..<off + (n - tot)]) dst, s')
    \<and> advances s (blocks s) (icache s) s'"
  using assms
proof (induction "n - tot" arbitrary: tot off dst s rule: less_induct)
  case less
  let ?x = "sb s" and ?D = "blocks s" and ?as = "i_addrs (icache s ip)"
  show ?case
  proof (cases "tot < n")
    case False
    then have "readi_loop ip tot n off dst s = Some (dst, s)" by (subst readi_loop.simps) simp
    then show ?thesis using False advances_refl[OF less.prems(1)] by (simp add: blit_def)
  next
    case True
    define m where "m = min (n - tot) (BSIZE - off mod BSIZE)"
    have m: "0 < m" "m \<le> BSIZE - off mod BSIZE" "tot + m \<le> n" using True by (simp_all add: m_def BSIZE_def)
    have step: "in_range off (n - tot) j \<longleftrightarrow> j = off div BSIZE \<or> in_range (off + m) (n - (tot + m)) j" for j
      using in_range_step[of "n - tot" m off j] True by (simp add: m_def)
    have off: "off < MAXFILE * BSIZE" using less.prems(7) True by simp
    have nz: "file_addr ?D ?as (off div BSIZE) \<noteq> 0" using less.prems(9) step by blast
    obtain a s1 bp s2 where r: "bmap ip (of_nat (off div BSIZE)) s = Some (a, s1)" "bread 1 a s1 = Some (bp, s2)"
      "i_dev (icache s1 ip) = 1" "advances s ?D (icache s) (brelse bp s2)"
      "slice (off mod BSIZE) m (bdata s2 bp) = map (fbyte ?D ?as) [off..<off + m]"
      by (rule readi_round[OF less.prems(1-5) off nz m(2)])
    let ?s' = "brelse bp s2" and ?dst = "blit tot (map (fbyte ?D ?as) [off..<off + m]) dst"
    note A = advancesD[OF r(4)]
    have loop: "readi_loop ip tot n off dst s = readi_loop ip (tot + m) n (off + m) ?dst ?s'"
      using True r m less.prems(8) by (subst readi_loop.simps) (simp add: m_def[symmetric] Let_def)
    have "\<exists>s'. readi_loop ip (tot + m) n (off + m) ?dst ?s' =
        Some (blit (tot + m) (map (fbyte (blocks ?s') (i_addrs (icache ?s' ip))) [off + m..<off + m + (n - (tot + m))]) ?dst, s')
      \<and> advances ?s' (blocks ?s') (icache ?s') s'"
    proof (rule less.hyps)
      show "n - (tot + m) < n - tot" using m True by simp
      show "bio_ok ?s'" "wf_disk (sb ?s') (blocks ?s')" "wf_file (sb ?s') (blocks ?s') (i_addrs (icache ?s' ip))"
        "i_dev (icache ?s' ip) = 1" "bc.room 2 ?s'"
        using A(1) less.prems(2-5) A(6) by (simp_all add: A(2-4))
      show "tot + m \<le> n" by fact
      show "n \<le> length ?dst" using less.prems(8) m by (simp add: length_blit)
      show "off + m + (n - (tot + m)) \<le> MAXFILE * BSIZE" using m less.prems(7) by simp
      show "\<forall>i. in_range (off + m) (n - (tot + m)) i \<longrightarrow> file_addr (blocks ?s') (i_addrs (icache ?s' ip)) i \<noteq> 0"
        using less.prems(9) step by (simp add: A(2,4))
    qed
    then obtain s' where i: "readi_loop ip (tot + m) n (off + m) ?dst ?s' =
        Some (blit (tot + m) (map (fbyte ?D ?as) [off + m..<off + (n - tot)]) ?dst, s')"
      "advances ?s' ?D (icache s) s'"
      using m(3) by (auto simp: A(2-4))
    have "map (fbyte ?D ?as) [off..<off + m] @ map (fbyte ?D ?as) [off + m..<off + (n - tot)]
        = map (fbyte ?D ?as) [off..<off + (n - tot)]"
      using m(3) upt_add_eq_append[of off "off + m" "n - tot - m"] by (simp add: map_append[symmetric] del: map_append)
    then show ?thesis
      using loop i advances_trans[OF r(4) i(2)] m(3) less.prems(8) by (simp add: blit_blit)
  qed
qed


section \<open>readi and writei\<close>

text \<open>A file at rest: a well-formed map without holes below the size, an inode block of its own
  between the super block and the bitmap, and the copy on disk in step with the one in memory.\<close>

definition file_ok :: "nat \<Rightarrow> 'a fs_scheme \<Rightarrow> bool" where
  "file_ok ip s \<longleftrightarrow> i_dev (icache s ip) = 1 \<and> wf_file (sb s) (blocks s) (i_addrs (icache s ip))
     \<and> unat (i_size (icache s ip)) \<le> MAXFILE * BSIZE
     \<and> (\<forall>i. BSIZE * i < unat (i_size (icache s ip)) \<longrightarrow> file_addr (blocks s) (i_addrs (icache s ip)) i \<noteq> 0)
     \<and> 1 < IBLOCK (i_inum (icache s ip)) (sb s) \<and> IBLOCK (i_inum (icache s ip)) (sb s) < sb_bmapstart (sb s)
     \<and> disk_inode (sb s) (blocks s) (i_inum (icache s ip)) = dinode_of (icache s ip)"

definition contents :: "nat \<Rightarrow> 'a fs_scheme \<Rightarrow> u8 list" where
  "contents ip s = map (fbyte (blocks s) (i_addrs (icache s ip))) [0..<unat (i_size (icache s ip))]"

lemma file_okD:
  assumes "file_ok ip s"
  shows "i_dev (icache s ip) = 1" "wf_file (sb s) (blocks s) (i_addrs (icache s ip))"
    "unat (i_size (icache s ip)) \<le> MAXFILE * BSIZE"
    "BSIZE * i < unat (i_size (icache s ip)) \<Longrightarrow> file_addr (blocks s) (i_addrs (icache s ip)) i \<noteq> 0"
    "1 < IBLOCK (i_inum (icache s ip)) (sb s)" "IBLOCK (i_inum (icache s ip)) (sb s) < sb_bmapstart (sb s)"
    "disk_inode (sb s) (blocks s) (i_inum (icache s ip)) = dinode_of (icache s ip)"
  using assms unfolding file_ok_def by blast+

lemma length_contents [simp]: "length (contents ip s) = unat (i_size (icache s ip))"
  by (simp add: contents_def)

text \<open>Reading gives the bytes of the file from \<open>off\<close>, as many as asked for or as there are.\<close>

lemma readi_ok:
  assumes ok: "bio_ok s" and wd: "wf_disk (sb s) (blocks s)" and f: "file_ok ip s" and room: "bc.room 2 s"
    and ty: "i_type (icache s ip) \<noteq> T_DEV" and off: "off \<le> i_size (icache s ip)" and nw: "off \<le> off + n"
    and dst: "unat n \<le> length dst"
  defines "d \<equiv> take (unat n) (drop (unat off) (contents ip s))"
  obtains s' where "readi ip dst off n s = Some (int (length d), blit 0 d dst, s')" "advances s (blocks s) (icache s) s'"
proof -
  let ?sz = "i_size (icache s ip)"
  define n' where "n' = (if off + n > ?sz then ?sz - off else n)"
  have un: "unat (off + n) = unat off + unat n" using nw by (rule unat_plus_u32)
  have le: "unat off \<le> unat ?sz" using off by (simp add: word_le_nat_alt)
  have n': "unat off + unat n' \<le> unat ?sz" "unat n' \<le> unat n"
    "unat n' = min (unat n) (unat ?sz - unat off)"
    using un le by (auto simp: n'_def word_less_nat_alt unat_sub[OF off])
  have sz: "unat ?sz \<le> 71680" using file_okD(3)[OF f] by (simp add: fs_consts)
  have "\<forall>i. in_range (unat off) (unat n' - 0) i \<longrightarrow> file_addr (blocks s) (i_addrs (icache s ip)) i \<noteq> 0"
    using file_okD(4)[OF f] n'(1) by (auto simp: in_range_def)
  then obtain s' where s': "readi_loop ip 0 (unat n') (unat off) dst s =
      Some (blit 0 (map (fbyte (blocks s) (i_addrs (icache s ip))) [unat off..<unat off + unat n']) dst, s')"
    "advances s (blocks s) (icache s) s'"
    using readi_loop_ok[OF ok wd file_okD(1,2)[OF f] room, of 0 "unat n'" "unat off" dst] n' dst file_okD(3)[OF f] by auto
  have d: "d = map (fbyte (blocks s) (i_addrs (icache s ip))) [unat off..<unat off + unat n']"
    using n' le by (intro nth_equalityI) (simp_all add: d_def contents_def less_diff_conv add.commute)
  have "sint n' = int (unat n')" using n'(1) sz by (intro sint_small_u32) simp
  then have "readi ip dst off n s = Some (int (length d), blit 0 d dst, s')"
    using ty s'(1) leD[OF off] leD[OF nw] by (simp add: readi_def Let_def n'_def[symmetric] d)
  then show ?thesis using s'(2) by (rule that)
qed


text \<open>Writing an inode to disk leaves every file's data alone.\<close>

lemma put_inode_data:
  assumes wd: "wf_disk x D" and ib: "IBLOCK inum x < sb_bmapstart x" and len: "length (d_addrs d) = NDIRECT + 1"
  shows "wf_disk x (put_inode x inum d D)" "used x (put_inode x inum d D) = used x D"
    "data_blk x (put_inode x inum d D) = data_blk x D"
    "data_blk x D a \<Longrightarrow> put_inode x inum d D a = D a"
    "a \<noteq> IBLOCK inum x \<Longrightarrow> put_inode x inum d D a = D a"
proof -
  show o: "put_inode x inum d D a = D a" if "a \<noteq> IBLOCK inum x" for a using that by (simp add: put_inode_def)
  then show us: "used x (put_inode x inum d D) = used x D" using ib by (auto simp: used_def fun_eq_iff)
  show "data_blk x (put_inode x inum d D) = data_blk x D" by (simp add: data_blk_def us fun_eq_iff)
  show "data_blk x D a \<Longrightarrow> put_inode x inum d D a = D a" using ib by (intro o) (auto simp: data_blk_def)
  have "length (put_inode x inum d D n) = BSIZE" for n using wd len by (intro length_put_inode wf_diskD) auto
  then show "wf_disk x (put_inode x inum d D)" using wd by (simp add: wf_disk_def us)
qed

lemma put_inode_file:
  assumes wd: "wf_disk x D" and ib: "IBLOCK inum x < sb_bmapstart x" and len: "length (d_addrs d) = NDIRECT + 1"
    and wf: "wf_file x D as"
  shows "file_addr (put_inode x inum d D) as = file_addr D as" "wf_file x (put_inode x inum d D) as"
    "k < MAXFILE * BSIZE \<Longrightarrow> fbyte (put_inode x inum d D) as k = fbyte D as k"
    "file_blocks (put_inode x inum d D) as = file_blocks D as"
proof -
  note p = put_inode_data[OF wd ib len]
  show fa: "file_addr (put_inode x inum d D) as = file_addr D as"
    using p(4)[OF wf_fileD(4)[OF wf]] by (auto simp: file_addr_def fun_eq_iff)
  show "wf_file x (put_inode x inum d D) as" using wf unfolding wf_file_def fa p(3) .
  show "file_blocks (put_inode x inum d D) as = file_blocks D as" by (simp add: file_blocks_def fa)
  show "fbyte (put_inode x inum d D) as k = fbyte D as k" if "k < MAXFILE * BSIZE"
  proof -
    have "k div BSIZE < MAXFILE" using that by (simp add: less_mult_imp_div_less)
    then show ?thesis using p(4)[OF wf_fileD(2)[OF wf]] by (simp add: fbyte_def fblock_def fa)
  qed
qed

lemma touched_le: "off + r \<le> MAXFILE * BSIZE \<Longrightarrow> touched off r \<le> MAXFILE + 1"
proof -
  assume "off + r \<le> MAXFILE * BSIZE"
  then have "(off + r - 1) div BSIZE \<le> MAXFILE * BSIZE div BSIZE" by (intro div_le_mono) simp
  then have "(off + r - 1) div BSIZE - off div BSIZE \<le> MAXFILE" by (simp add: BSIZE_def)
  then show ?thesis by (simp add: touched_def)
qed

text \<open>The effect of \<open>writei\<close> on memory and disk.\<close>

lemma writei_ok:
  assumes ok: "bio_ok s" and wd: "wf_disk (sb s) (blocks s)" and f: "file_ok ip s" and room: "bc.room 2 s"
    and ty: "i_type (icache s ip) \<noteq> T_DEV" and off: "off \<le> i_size (icache s ip)" and nw: "off \<le> off + n"
    and max: "unat off + unat n \<le> MAXFILE * BSIZE" and src: "unat n \<le> length src"
    and free: "2 * touched (unat off) (unat n) \<le> nfree (sb s) (blocks s)"
  obtains D1 x' s' where "writei ip src off n s = Some (int (unat n), s')"
    "x' = (icache s ip)\<lparr>i_addrs := i_addrs x', i_size := max (i_size (icache s ip)) (off + n)\<rparr>"
    "updates (sb s) (blocks s) (i_addrs (icache s ip)) D1 (i_addrs x')
       (\<lambda>k. if unat off \<le> k \<and> k < unat off + unat n then src ! (k - unat off) else fbyte (blocks s) (i_addrs (icache s ip)) k)"
    "\<forall>i. in_range (unat off) (unat n) i \<longrightarrow> file_addr D1 (i_addrs x') i \<noteq> 0"
    "advances s (if i_size (icache s ip) < off + n then put_inode (sb s) (i_inum (icache s ip)) (dinode_of x') D1 else D1)
       ((icache s)(ip := x')) s'"
    "\<not> i_size (icache s ip) < off + n \<Longrightarrow> x' = icache s ip"
    "nfree (sb s) (blocks s) \<le> nfree (sb s) D1 + 2 * touched (unat off) (unat n)"
proof -
  let ?x = "sb s" and ?D = "blocks s" and ?as = "i_addrs (icache s ip)" and ?sz = "i_size (icache s ip)"
  have un: "unat (off + n) = unat off + unat n" using nw by (rule unat_plus_u32)
  have mx: "\<not> off + n > of_nat (MAXFILE * BSIZE)" using max by (simp add: word_less_nat_alt un fs_consts)
  obtain D1 as' s1 where l: "writei_loop ip 0 (unat n) (unat off) src s = Some (unat off + unat n, s1)"
    "advances s D1 (set_addrs ip as' (icache s)) s1"
    and u: "updates ?x ?D ?as D1 as' (\<lambda>k. if unat off \<le> k \<and> k < unat off + unat n then src ! (k - unat off) else fbyte ?D ?as k)"
    and nz: "\<forall>i. in_range (unat off) (unat n) i \<longrightarrow> file_addr D1 as' i \<noteq> 0"
    and same: "(\<forall>i. in_range (unat off) (unat n) i \<longrightarrow> file_addr ?D ?as i \<noteq> 0) \<longrightarrow> as' = ?as"
    and nf: "nfree ?x ?D \<le> nfree ?x D1 + 2 * touched (unat off) (unat n)"
    using writei_loop_ok[OF ok wd file_okD(1,2)[OF f] room le0, of "unat off" "unat n" src, unfolded add_0 diff_zero, OF max src free]
    by blast
  note A = advancesD[OF l(2)]
  define x' where "x' = (icache s ip)\<lparr>i_addrs := as', i_size := max ?sz (off + n)\<rparr>"
  have as': "i_addrs x' = as'" by (simp add: x'_def)
  have w: "writei ip src off n s = (do { s2 \<leftarrow> (if n > 0 \<and> off + n > ?sz
        then iupdate ip (upd_inode ip (i_size_update (\<lambda>_. off + n)) s1) else Some s1); Some (int (unat n), s2) })"
    using ty leD[OF off] leD[OF nw] mx l(1) max
    by (simp add: writei_def Let_def A(4) sint_small_u32 fs_consts)
  show ?thesis
  proof (cases "?sz < off + n")
    case True
    have n0: "n > 0"
    proof (rule ccontr)
      assume "\<not> n > 0"
      then have "n = 0" by (simp add: word_gt_0)
      then show False using True off by simp
    qed
    let ?s2 = "upd_inode ip (i_size_update (\<lambda>_. off + n)) s1"
    have ad: "advances s D1 (icache ?s2) ?s2" by (rule advances_upd_inode[OF l(2)])
    note B = advancesD[OF ad]
    have ic: "icache ?s2 = (icache s)(ip := x')"
      using True less_imp_le[OF True] by (simp add: A(4) set_addrs_def x'_def max_def)
    have xf: "i_inum x' = i_inum (icache s ip)" "i_dev x' = 1" "length (i_addrs x') = NDIRECT + 1"
      using file_okD(1)[OF f] wf_fileD(1)[OF updatesD(2)[OF u]] by (simp_all add: x'_def)
    have ib: "IBLOCK (i_inum (icache s ip)) ?x < FSSIZE"
      using file_okD(6)[OF f] wf_diskD(1)[OF wd] by (auto simp: sb_ok_def)
    have c2: "icache ?s2 ip = x'" unfolding ic by simp
    have r2: "bc.room 1 ?s2" using bc.room_mono[OF room, of 1] B(6)[of 1] by simp
    obtain s' where s': "iupdate ip ?s2 = Some s'"
      "advances ?s2 (put_inode (sb ?s2) (i_inum (icache ?s2 ip)) (dinode_of (icache ?s2 ip)) (blocks ?s2)) (icache ?s2) s'"
      by (rule iupdate_ok[OF B(1), of ip, unfolded c2 B(3) xf(1), OF xf(2) ib r2 xf(3)])
        (simp only: c2 B(3) xf(1))
    have "advances s (put_inode ?x (i_inum (icache s ip)) (dinode_of x') D1) ((icache s)(ip := x')) s'"
      using advances_trans[OF ad s'(2)] xf B(2,3) by (simp only: ic fun_upd_same)
    then show ?thesis
      using w True n0 s'(1) u nz as' nf by (intro that[of s' x' D1]) (simp_all, simp add: x'_def)
  next
    case False
    have "BSIZE * i < unat ?sz" if "in_range (unat off) (unat n) i" for i
      using that False un by (auto simp: in_range_def word_less_nat_alt)
    then have "as' = ?as" using same file_okD(4)[OF f] by blast
    moreover have "max ?sz (off + n) = ?sz" using False by (simp add: max_def)
    ultimately have x': "x' = icache s ip" by (simp add: x'_def)
    have "icache s1 = (icache s)(ip := x')" using A(4) \<open>as' = ?as\<close> x' by simp
    then show ?thesis
      using w False u nz as' nf x' l(2) A(4) \<open>max ?sz (off + n) = ?sz\<close> by (intro that[of s1 x' D1]) simp_all
  qed
qed

section \<open>What writing does to this and to every other file\<close>

definition disjoint_files :: "nat \<Rightarrow> nat \<Rightarrow> 'a fs_scheme \<Rightarrow> bool" where
  "disjoint_files p q s \<longleftrightarrow>
     set (file_blocks (blocks s) (i_addrs (icache s p))) \<inter> set (file_blocks (blocks s) (i_addrs (icache s q))) = {}"

lemma max_unat: "off \<le> off + n \<Longrightarrow> unat (max sz (off + n) :: u32) = max (unat sz) (unat off + unat n)"
  using unat_plus_u32[of off n] by (simp add: max_def word_le_nat_alt)

lemma in_range_cover:
  assumes "unat off \<le> sz" "BSIZE * i < max sz (unat off + n)"
  shows "BSIZE * i < sz \<or> in_range (unat off) n i"
proof (cases "BSIZE * i < sz")
  case False
  then have "unat off div BSIZE \<le> i" using assms(1) div_le_mono[of "unat off" "BSIZE * i" BSIZE] by (simp add: BSIZE_def)
  moreover have "0 < n \<and> BSIZE * i < unat off + n" using assms False by auto
  ultimately show ?thesis by (simp add: in_range_def)
qed simp

text \<open>Files that share no block with the one updated, and the inodes on disk, are not affected.\<close>

lemma updates_other:
  assumes u: "updates x D as D' as' g" and wf: "wf_file x D bs" and dj: "set (file_blocks D as) \<inter> set (file_blocks D bs) = {}"
  shows "file_addr D' bs = file_addr D bs" "wf_file x D' bs" "k < MAXFILE * BSIZE \<Longrightarrow> fbyte D' bs k = fbyte D bs k"
    "file_blocks D' bs = file_blocks D bs" "set (file_blocks D' as') \<inter> set (file_blocks D' bs) = {}"
proof -
  have db: "data_blk x D b" if "b \<in> set (file_blocks D bs)" for b using file_blocks_wf(2)[OF wf] that by blast
  have same: "D' b = D b" if "b \<in> set (file_blocks D bs)" for b
    using updatesD(7)[OF u, of b] db[OF that] that dj by (auto simp: data_blk_def)
  show fa: "file_addr D' bs = file_addr D bs"
  proof
    fix i
    have "bs ! NDIRECT \<noteq> 0 \<Longrightarrow> D' (bs ! NDIRECT) = D (bs ! NDIRECT)" by (rule same) (simp add: file_blocks_def)
    then show "file_addr D' bs i = file_addr D bs i" by (auto simp: file_addr_def)
  qed
  have "data_blk x D a \<Longrightarrow> data_blk x D' a" for a using updatesD(5)[OF u] by (auto simp: data_blk_def)
  then show "wf_file x D' bs" using wf unfolding wf_file_def fa by blast
  show fbs: "file_blocks D' bs = file_blocks D bs" by (simp add: file_blocks_def fa)
  show "fbyte D' bs k = fbyte D bs k" if "k < MAXFILE * BSIZE"
  proof -
    have "k div BSIZE < MAXFILE" using that by (simp add: less_mult_imp_div_less)
    then have "file_addr D bs (k div BSIZE) \<noteq> 0 \<Longrightarrow> D' (file_addr D bs (k div BSIZE)) = D (file_addr D bs (k div BSIZE))"
      by (intro same file_addr_block)
    then show ?thesis by (simp add: fbyte_def fblock_def fa)
  qed
  show "set (file_blocks D' as') \<inter> set (file_blocks D' bs) = {}"
    unfolding fbs using updatesD(6)[OF u] db dj by (auto simp: data_blk_def)
qed

lemma updates_inode:
  assumes u: "updates x D as D' as' g" and wd: "wf_disk x D" and wf: "wf_file x D as" and ib: "IBLOCK j x < sb_bmapstart x"
  shows "disk_inode x D' j = disk_inode x D j"
proof -
  have "used x D (unat (IBLOCK j x))" using wf_diskD(3)[OF wd] ib by (simp add: word_less_nat_alt)
  moreover have "IBLOCK j x \<notin> set (file_blocks D as)"
  proof
    assume "IBLOCK j x \<in> set (file_blocks D as)"
    then have "data_blk x D (IBLOCK j x)" using file_blocks_wf(2)[OF wf] by blast
    then show False using ib by (auto simp: data_blk_def)
  qed
  moreover have "IBLOCK j x \<noteq> sb_bmapstart x" using ib by auto
  ultimately have "D' (IBLOCK j x) = D (IBLOCK j x)" using updatesD(7)[OF u] by blast
  then show ?thesis by (simp add: disk_inode_def)
qed

text \<open>All that \<open>writei\<close> guarantees, in terms of the files' contents.\<close>

lemma writei_contents:
  assumes ok: "bio_ok s" and wd: "wf_disk (sb s) (blocks s)" and f: "file_ok ip s" and room: "bc.room 2 s"
    and ty: "i_type (icache s ip) \<noteq> T_DEV" and off: "off \<le> i_size (icache s ip)" and nw: "off \<le> off + n"
    and max: "unat off + unat n \<le> MAXFILE * BSIZE" and src: "unat n \<le> length src"
    and free: "2 * touched (unat off) (unat n) \<le> nfree (sb s) (blocks s)"
  obtains s' where "writei ip src off n s = Some (int (unat n), s')"
    "bio_ok s'" "wf_disk (sb s') (blocks s')" "bc.room 2 s'" "sb s' = sb s" "file_ok ip s'"
    "contents ip s' = blit (unat off) (take (unat n) src) (contents ip s)"
    "i_size (icache s' ip) = max (i_size (icache s ip)) (off + n)" "i_type (icache s' ip) = i_type (icache s ip)"
    "\<And>q. q \<noteq> ip \<Longrightarrow> icache s' q = icache s q"
    "\<And>q. file_ok q s \<Longrightarrow> disjoint_files ip q s \<Longrightarrow> i_inum (icache s q) \<noteq> i_inum (icache s ip) \<Longrightarrow> q \<noteq> ip \<Longrightarrow>
       contents q s' = contents q s \<and> file_ok q s'"
    "nfree (sb s) (blocks s) \<le> nfree (sb s') (blocks s') + 2 * touched (unat off) (unat n)"
    "icache s' ip = (icache s ip)\<lparr>i_addrs := i_addrs (icache s' ip), i_size := max (i_size (icache s ip)) (off + n)\<rparr>"
    "devsw s' = devsw s" "fs.more s' = fs.more s"
proof -
  let ?x = "sb s" and ?D = "blocks s" and ?as = "i_addrs (icache s ip)" and ?sz = "i_size (icache s ip)"
  let ?g = "\<lambda>k. if unat off \<le> k \<and> k < unat off + unat n then src ! (k - unat off) else fbyte ?D ?as k"
  obtain D1 x' s' where w: "writei ip src off n s = Some (int (unat n), s')"
    and x': "x' = (icache s ip)\<lparr>i_addrs := i_addrs x', i_size := max ?sz (off + n)\<rparr>"
    and u: "updates ?x ?D ?as D1 (i_addrs x') ?g"
    and nz: "\<forall>i. in_range (unat off) (unat n) i \<longrightarrow> file_addr D1 (i_addrs x') i \<noteq> 0"
    and ad: "advances s (if ?sz < off + n then put_inode ?x (i_inum (icache s ip)) (dinode_of x') D1 else D1) ((icache s)(ip := x')) s'"
    and same: "\<not> ?sz < off + n \<Longrightarrow> x' = icache s ip"
    and nf: "nfree ?x ?D \<le> nfree ?x D1 + 2 * touched (unat off) (unat n)"
    by (rule writei_ok[OF assms]) blast
  note A = advancesD[OF ad] and U = updatesD(1,2)[OF u]
  have xf: "i_dev x' = 1" "i_inum x' = i_inum (icache s ip)" "i_type x' = i_type (icache s ip)"
    "i_size x' = max ?sz (off + n)"
    using file_okD(1)[OF f] by (subst x', simp)+
  have usz: "unat (i_size x') = max (unat ?sz) (unat off + unat n)" using max_unat[OF nw] xf(4) by simp
  have le: "unat off \<le> unat ?sz" using off by (simp add: word_le_nat_alt)
  have len: "length (i_addrs x') = NDIRECT + 1" using wf_fileD(1)[OF U(2)] .
  have len': "length (d_addrs (dinode_of x')) = NDIRECT + 1" using len by (simp add: dinode_of_def)
  note ib = file_okD(5,6)[OF f]
  note pd = put_inode_data[OF U(1) ib(2) len'] and pf = put_inode_file[OF U(1) ib(2) len']
  let ?D' = "if ?sz < off + n then put_inode ?x (i_inum (icache s ip)) (dinode_of x') D1 else D1"
  have wd': "wf_disk ?x ?D'" using pd(1) U(1) by simp
  have fa: "file_addr ?D' as = file_addr D1 as" "wf_file ?x ?D' as" "file_blocks ?D' as = file_blocks D1 as"
    "k < MAXFILE * BSIZE \<Longrightarrow> fbyte ?D' as k = fbyte D1 as k" if "wf_file ?x D1 as" for as k
    using pf[OF that] that by simp_all
  have szmax: "unat (i_size x') \<le> MAXFILE * BSIZE" using usz max file_okD(3)[OF f] by simp
  have dsk: "disk_inode ?x ?D' j = (if j = i_inum (icache s ip) then dinode_of x' else disk_inode ?x ?D j)"
    if "IBLOCK j ?x < sb_bmapstart ?x" for j
  proof -
    have e: "disk_inode ?x D1 j = disk_inode ?x ?D j" by (rule updates_inode[OF u wd file_okD(2)[OF f] that])
    show ?thesis
    proof (cases "?sz < off + n")
      case True
      then show ?thesis
        using disk_inode_put[where D = D1, OF wf_diskD(2)[OF U(1)] len'] e by simp
    next
      case False
      then show ?thesis using e same file_okD(7)[OF f] by simp
    qed
  qed
  have nz': "file_addr D1 (i_addrs x') i \<noteq> 0" if "BSIZE * i < unat (i_size x')" for i
  proof (cases "in_range (unat off) (unat n) i")
    case False
    then have "BSIZE * i < unat ?sz" using in_range_cover[OF le, of i "unat n"] that usz by simp
    moreover have "i < MAXFILE" using that szmax by (simp add: fs_consts)
    ultimately show ?thesis using updatesD(4)[OF u] file_okD(4)[OF f] by metis
  qed (use nz in blast)
  have fok: "file_ok ip s'"
    unfolding file_ok_def A(2-4) fun_upd_same fa[OF U(2)] xf(2)
    using xf fa(2)[OF U(2)] szmax nz' ib dsk[OF ib(2)] by simp
  have cont: "contents ip s' = blit (unat off) (take (unat n) src) (contents ip s)"
  proof (rule nth_equalityI)
    show "length (contents ip s') = length (blit (unat off) (take (unat n) src) (contents ip s))"
      using src le by (simp add: A usz blit_def max_def min_def)
  next
    fix k assume "k < length (contents ip s')"
    then have k: "k < max (unat ?sz) (unat off + unat n)" by (simp add: A usz)
    then have "k < MAXFILE * BSIZE" using szmax unfolding usz[symmetric] by (rule less_le_trans)
    then have "contents ip s' ! k = ?g k"
      using k fa(4)[OF U(2)] updatesD(3)[OF u] by (simp add: contents_def A usz)
    also have "\<dots> = blit (unat off) (take (unat n) src) (contents ip s) ! k"
      using k src le by (auto simp: blit_def nth_append min_def contents_def)
    finally show "contents ip s' ! k = blit (unat off) (take (unat n) src) (contents ip s) ! k" .
  qed
  have oth: "contents q s' = contents q s \<and> file_ok q s'"
    if q: "file_ok q s" "disjoint_files ip q s" "i_inum (icache s q) \<noteq> i_inum (icache s ip)" "q \<noteq> ip" for q
  proof -
    let ?bs = "i_addrs (icache s q)"
    note fq = file_okD[OF q(1)]
    note uo = updates_other[OF u fq(2) q(2)[unfolded disjoint_files_def]]
    have fb: "fbyte ?D' ?bs k = fbyte ?D ?bs k" if "k < MAXFILE * BSIZE" for k
      using fa(4)[OF uo(2) that] uo(3)[OF that] by simp
    have "contents q s' = contents q s"
      using fb fq(3) q(4) by (auto simp: contents_def A simp del: if_split)
    moreover have "file_ok q s'"
      unfolding file_ok_def using fq fa(1,2)[OF uo(2)] uo(1) dsk[OF fq(6)] q(3,4) by (simp add: A del: if_split)
    ultimately show ?thesis by blast
  qed
  have nf': "nfree ?x ?D \<le> nfree ?x ?D' + 2 * touched (unat off) (unat n)"
    using nf nfree_block[of "IBLOCK (i_inum (icache s ip)) ?x" ?x D1] ib(2) by (auto simp: put_inode_def)
  show ?thesis
    by (rule that[OF w A(1) _ _ A(3) fok cont _ _ _ oth _ _ A(5,7)])
      (use wd' A(6) room xf nf' x' in \<open>simp_all add: A(2-4)\<close>)
qed

end
