(* ===== verification/Sample.thy ===== *)
theory Sample
  imports File_Data
begin

text \<open>
  The cold start: from zeroed buffers \<open>binit\<close> (fs/bio.c) establishes the invariant of the cache.
  And a small concrete system, on which the hypotheses of the theorems of the file system are
  checked: a disk of 20 blocks (super block, one block of inodes, bitmap, data), on it an empty
  directory (inode 1) and an empty file (inode 2), both in the inode cache.
\<close>

unbundle bit_operations_syntax

section \<open>binit establishes the invariant\<close>

definition blank_buf :: buf where
  "blank_buf = \<lparr>b_flags = 0, b_dev = 0, b_blockno = 0, b_refcnt = 0, b_prev = 0, b_next = 0, b_qnext = None,
     b_data = replicate BSIZE 0\<rparr>"

lemma binit_loop_simps:
  "env_ok (binit_loop n s) = env_ok s" "disk (binit_loop n s) = disk s" "outside (binit_loop n s) = outside s"
  "b_dev (bufs (binit_loop n s) i) = b_dev (bufs s i)" "b_blockno (bufs (binit_loop n s) i) = b_blockno (bufs s i)"
  "b_flags (bufs (binit_loop n s) i) = b_flags (bufs s i)" "b_refcnt (bufs (binit_loop n s) i) = b_refcnt (bufs s i)"
  by (induction n) simp_all

lemma binit_simps [simp]:
  "env_ok (binit s) = env_ok s" "disk (binit s) = disk s" "outside (binit s) = outside s"
  "b_dev (bufs (binit s) i) = b_dev (bufs s i)" "b_blockno (bufs (binit s) i) = b_blockno (bufs s i)"
  "b_flags (bufs (binit s) i) = b_flags (bufs s i)" "b_refcnt (bufs (binit s) i) = b_refcnt (bufs s i)"
  by (simp_all add: binit_def binit_loop_simps)

lemma binit_establishes:
  assumes "env_ok s" "\<And>n. length (disk s 1 n) = BSIZE"
    and "\<And>i. i < NBUF \<Longrightarrow> b_dev (bufs s i) = 0 \<and> b_flags (bufs s i) = 0 \<and> b_refcnt (bufs s i) = 0"
  shows "bio_ok (binit s)" "pins (binit s) = (\<lambda>_. 0)"
proof -
  have "\<exists>xs. ring (binit s) xs \<and> set xs = {..<NBUF}"
    using binit_ring[of s] by (intro exI[of _ "rev [0..<NBUF]"]) auto
  then show "bio_ok (binit s)"
    using assms by (simp add: bio_ok_def buf_ok_def)
  show "pins (binit s) = (\<lambda>_. 0)" using assms(3) by (auto simp: pins_def)
qed


section \<open>A small system\<close>

definition sample_sb :: superblock where
  "sample_sb = \<lparr>sb_size = 20, sb_nblocks = 16, sb_ninodes = 8, sb_nlog = 0, sb_logstart = 0, sb_inodestart = 2, sb_bmapstart = 3\<rparr>"

definition sample_dinode :: "u16 \<Rightarrow> dinode" where
  "sample_dinode ty = \<lparr>d_type = ty, d_major = 0, d_minor = 0, d_nlink = 1, d_size = 0, d_addrs = replicate 13 0\<rparr>"

definition sample_disk :: "u32 \<Rightarrow> u8 list" where
  "sample_disk n =
     (if n = 1 then enc_superblock sample_sb @ replicate 484 0
      else if n = 2 then replicate 64 0 @ enc_dinode (sample_dinode T_DIR) @ enc_dinode (sample_dinode T_FILE) @ replicate 320 0
      else if n = 3 then 15 # replicate 511 0
      else replicate 512 0)"

definition sample_inode :: "u32 \<Rightarrow> u16 \<Rightarrow> inode" where
  "sample_inode inum ty = load_dinode (sample_dinode ty)
     \<lparr>i_dev = 1, i_inum = inum, i_ref = 1, i_valid = True, i_type = 0, i_major = 0, i_minor = 0, i_nlink = 0, i_size = 0, i_addrs = []\<rparr>"

definition free_slot :: inode where
  "free_slot = \<lparr>i_dev = 0, i_inum = 0, i_ref = 0, i_valid = False, i_type = 0, i_major = 0, i_minor = 0, i_nlink = 0, i_size = 0,
     i_addrs = replicate 13 0\<rparr>"

definition cold_machine :: "(u32 \<Rightarrow> u8 list) \<Rightarrow> fs" where
  "cold_machine D = \<lparr>vidmem = (\<lambda>_. 0), crtc_reg = (\<lambda>_. 0), out_reg = (\<lambda>_. 0), out_log = [], env_in = (\<lambda>_ _. 0x40),
     in_pos = (\<lambda>_. 0), disk = (\<lambda>d n. if d = 1 then D n else replicate 512 0), bufs = (\<lambda>_. blank_buf), idequeue = None,
     havedisk1 = True, sb = sample_sb,
     icache = (\<lambda>_. free_slot)(0 := sample_inode 1 T_DIR, 1 := sample_inode 2 T_FILE),
     devsw = (\<lambda>_. \<lparr>dev_read = None, dev_write = None\<rparr>)\<rparr>"

definition booted :: "(u32 \<Rightarrow> u8 list) \<Rightarrow> fs" where
  "booted D = binit (cold_machine D)"

definition sample :: fs where
  "sample = booted sample_disk"

lemma length_sample_disk: "length (sample_disk n) = 512"
  by (simp add: sample_disk_def sample_dinode_def)

lemma booted_fields [simp]:
  "blocks (booted D) = D" "sb (booted D) = sample_sb"
  "icache (booted D) = (\<lambda>_. free_slot)(0 := sample_inode 1 T_DIR, 1 := sample_inode 2 T_FILE)"
  "devsw (booted D) = (\<lambda>_. \<lparr>dev_read = None, dev_write = None\<rparr>)"
proof -
  show "blocks (booted D) = D" by (simp add: booted_def cold_machine_def blocks_def fun_eq_iff)
  have o: "outside (booted D) = outside (cold_machine D)" by (simp add: booted_def)
  show "sb (booted D) = sample_sb"
    "icache (booted D) = (\<lambda>_. free_slot)(0 := sample_inode 1 T_DIR, 1 := sample_inode 2 T_FILE)"
    "devsw (booted D) = (\<lambda>_. \<lparr>dev_read = None, dev_write = None\<rparr>)"
    using outside_fs(1-3)[OF o] by (simp_all add: cold_machine_def)
qed

lemma booted_ok:
  assumes "\<And>n. length (D n) = 512"
  shows "pins (booted D) = (\<lambda>_. 0)" "bio_ok (booted D)" "k \<le> 30 \<Longrightarrow> bc.room k (booted D)"
proof -
  have e: "env_ok (cold_machine D)" by (auto simp: cold_machine_def env_ok_def ata_live_def ata_clean_def)
  show p: "pins (booted D) = (\<lambda>_. 0)" and "bio_ok (booted D)"
    unfolding booted_def by (rule binit_establishes[OF e]; simp add: cold_machine_def blank_buf_def assms BSIZE_def)+
  show "k \<le> 30 \<Longrightarrow> bc.room k (booted D)" unfolding bc.room_def p by (simp add: NBUF_def)
qed

lemma sample_fields [simp]:
  "blocks sample = sample_disk" "sb sample = sample_sb"
  "icache sample = (\<lambda>_. free_slot)(0 := sample_inode 1 T_DIR, 1 := sample_inode 2 T_FILE)"
  "devsw sample = (\<lambda>_. \<lparr>dev_read = None, dev_write = None\<rparr>)"
  by (simp_all add: sample_def)

lemmas sample_pins = booted_ok(1)[of sample_disk, OF length_sample_disk, folded sample_def]
  and sample_bio_ok = booted_ok(2)[of sample_disk, OF length_sample_disk, folded sample_def]
  and sample_room = booted_ok(3)[of sample_disk, OF length_sample_disk, folded sample_def]

lemma sample_used: "used sample_sb sample_disk k \<longleftrightarrow> bit_set (15 # replicate 511 0) k"
  by (simp add: used_def sample_sb_def sample_disk_def)

lemma bit_15: "bit (15 :: u8) n \<longleftrightarrow> n < 4"
proof -
  have "(15 :: u8) = mask 4" by (simp add: mask_eq_exp_minus_1)
  then have "bit (15 :: u8) n \<longleftrightarrow> n < min LENGTH(8) 4" by (simp only: bit_mask_iff possible_bit_word) auto
  then show ?thesis by simp
qed

lemma sample_used_iff: "k < 4096 \<Longrightarrow> used sample_sb sample_disk k \<longleftrightarrow> k < 4"
proof (cases "k < 8")
  case True
  then show ?thesis unfolding sample_used bit_set_def by (simp only: div_less mod_less nth_Cons_0 bit_15)
next
  case False
  assume "k < 4096"
  then have "k div 8 < 512" "k div 8 \<noteq> 0" using False by auto
  then show ?thesis using False by (simp add: sample_used bit_set_def nth_Cons')
qed

lemma sample_wf_disk: "wf_disk (sb sample) (blocks sample)"
proof -
  have "sb_ok sample_sb" "sb_bmapstart sample_sb < sb_size sample_sb" "unat (sb_bmapstart sample_sb) = 3"
    by (simp_all add: sb_ok_def sample_sb_def FSSIZE_def)
  then show ?thesis by (auto simp: wf_disk_def length_sample_disk BSIZE_def sample_used_iff)
qed

lemma sample_nfree: "16 \<le> nfree (sb sample) (blocks sample)"
proof -
  have "{4..<20} \<subseteq> {k. k < unat (sb_size sample_sb) \<and> \<not> used sample_sb sample_disk k}"
    by (auto simp: sample_used_iff) (simp add: sample_sb_def)
  then have "card {4..<20 :: nat} \<le> nfree sample_sb sample_disk"
    unfolding nfree_def by (intro card_mono) simp_all
  then show ?thesis by simp
qed

lemma sample_inode_fields:
  "i_dev (sample_inode n ty) = 1" "i_inum (sample_inode n ty) = n" "i_ref (sample_inode n ty) = 1" "i_valid (sample_inode n ty)"
  "i_type (sample_inode n ty) = ty" "i_size (sample_inode n ty) = 0" "i_addrs (sample_inode n ty) = replicate 13 0"
  "i_nlink (sample_inode n ty) = 1" "i_major (sample_inode n ty) = 0" "i_minor (sample_inode n ty) = 0"
  by (simp_all add: sample_inode_def load_dinode_def sample_dinode_def)

lemma no_blocks_addr: "i < MAXFILE \<Longrightarrow> file_addr D (replicate 13 0) i = 0"
  by (simp add: file_addr_def fs_consts nth_Cons')

lemma no_blocks_wf: "wf_file x D (replicate 13 0)"
  by (simp add: wf_file_def no_blocks_addr) (simp add: fs_consts)

lemma sample_disk_inode:
  "disk_inode sample_sb sample_disk 1 = sample_dinode T_DIR" "disk_inode sample_sb sample_disk 2 = sample_dinode T_FILE"
  by (simp_all add: disk_inode_def IBLOCK_def fs_consts sample_sb_def sample_disk_def dinode_off_def sample_dinode_def dec_enc_dinode)

lemma sample_file_ok: "file_ok 0 sample" "file_ok 1 sample"
  by (simp_all add: file_ok_def sample_inode_fields no_blocks_wf sample_disk_inode dinode_of_def)
    (simp_all add: sample_dinode_def IBLOCK_def fs_consts sample_sb_def)

lemma sample_icache_ok: "icache_ok (icache sample)"
  by (auto simp: icache_ok_def live_at_def sample_inode_fields free_slot_def split: if_splits)

end
