(* ===== verification/Clib.thy ===== *)
theory Clib
  imports Prelude
begin

text \<open>
  libc/string.c. A pointer into a character array is the list of bytes from there to the end of the
  array, so that running past the end is \<open>None\<close>; the string in it is what stands before the first zero
  byte (\<open>str_of\<close>). \<open>memmove\<close> and \<open>memset\<close>, whose arguments may overlap, work on a byte memory.
\<close>

unbundle bit_operations_syntax

definition str_of :: "u8 list \<Rightarrow> u8 list" where
  "str_of s = takeWhile (\<lambda>c. c \<noteq> 0) s"

definition terminated :: "u8 list \<Rightarrow> bool" where
  "terminated s \<longleftrightarrow> 0 \<in> set s"

section \<open>Strings in an array\<close>

fun strlen :: "u8 list \<Rightarrow> nat option" where
  "strlen [] = None"
| "strlen (c # cs) = (if c \<noteq> 0 then map_option Suc (strlen cs) else Some 0)"

definition append_char :: "u8 list \<Rightarrow> u8 \<Rightarrow> u8 list option" where
  "append_char s n = do {
     len \<leftarrow> strlen s;
     if len + 1 < length s then Some (s[len := n, len + 1 := 0]) else None
   }"

text \<open>\<open>backspace\<close> of the empty string writes in front of the array.\<close>

definition backspace :: "u8 list \<Rightarrow> u8 list option" where
  "backspace s = do { len \<leftarrow> strlen s; if len = 0 then None else Some (s[len - 1 := 0]) }"

function reverse_loop :: "u8 list \<Rightarrow> int \<Rightarrow> int \<Rightarrow> u8 list" where
  "reverse_loop s i j =
     (if i < j then reverse_loop (s[nat i := s ! nat j, nat j := s ! nat i]) (i + 1) (j - 1) else s)"
  by pat_completeness auto
termination by (relation "measure (\<lambda>(s, i, j). nat (j - i))") auto

declare reverse_loop.simps [simp del]

definition reverse :: "u8 list \<Rightarrow> u8 list option" where
  "reverse s = do { len \<leftarrow> strlen s; Some (reverse_loop s 0 (int len - 1)) }"

text \<open>\<open>int_to_ascii\<close>: the digits of \<open>n\<close>, lowest first, and then reversed. Negating the smallest integer
  overflows. The sign is computed but never stored.\<close>

definition digit10 :: "int \<Rightarrow> u8" where
  "digit10 n = word_of_int (n mod 10 + 48)"

function ita_loop :: "int \<Rightarrow> nat \<Rightarrow> u8 list \<Rightarrow> (nat \<times> u8 list) option" where
  "ita_loop n i str =
     (if i < length str
      then let str1 = str[i := digit10 n]
           in if n div 10 > 0 then ita_loop (n div 10) (Suc i) str1 else Some (Suc i, str1)
      else None)"
  by pat_completeness auto
termination by (relation "measure (\<lambda>(n, i, str). length str - i)") auto

declare ita_loop.simps [simp del]

definition int_to_ascii :: "u32 \<Rightarrow> u8 list \<Rightarrow> u8 list option" where
  "int_to_ascii n str =
     (if sint n = - (2 ^ 31) then None
      else do {
        (i, str1) \<leftarrow> ita_loop \<bar>sint n\<bar> 0 str;
        if i < length str1 then reverse (str1[i := 0]) else None
      })"

text \<open>\<open>hex_to_ascii\<close> appends to the string already there. The loop's test is \<open>tmp > 0xA\<close>, so a digit ten
  comes out as a colon unless it is the last.\<close>

fun hta_loop :: "u32 \<Rightarrow> nat list \<Rightarrow> bool \<Rightarrow> u8 list \<Rightarrow> u8 list option" where
  "hta_loop n [] zeros str = Some str"
| "hta_loop n (i # is) zeros str =
     (let tmp = drop_bit i n AND 0xF
      in if tmp = 0 \<and> \<not> zeros then hta_loop n is zeros str
         else do {
           str1 \<leftarrow> (if tmp > 0xA then append_char str (ucast tmp - 0xA + 97) else append_char str (ucast tmp + 48));
           hta_loop n is True str1
         })"

definition hex_to_ascii :: "u32 \<Rightarrow> u8 list \<Rightarrow> u8 list option" where
  "hex_to_ascii n str = do {
     str1 \<leftarrow> append_char str 48;
     str2 \<leftarrow> append_char str1 120;
     str3 \<leftarrow> hta_loop n [28, 24, 20, 16, 12, 8, 4] False str2;
     let tmp = n AND 0xF;
     if tmp \<ge> 0xA then append_char str3 (ucast tmp - 0xA + 97) else append_char str3 (ucast tmp + 48)
   }"

section \<open>Comparing and copying\<close>

text \<open>\<open>char\<close> is signed: \<open>strcmp\<close> subtracts signed characters, \<open>strncmp\<close> unsigned ones.\<close>

fun strcmp :: "u8 list \<Rightarrow> u8 list \<Rightarrow> int option" where
  "strcmp (a # s1) (b # s2) =
     (if a = b then (if a = 0 then Some 0 else strcmp s1 s2) else Some (sint a - sint b))"
| "strcmp _ _ = None"

fun strncmp :: "u8 list \<Rightarrow> u8 list \<Rightarrow> nat \<Rightarrow> int option" where
  "strncmp p q 0 = Some 0"
| "strncmp (a # p) (b # q) (Suc n) = (if a \<noteq> 0 \<and> a = b then strncmp p q n else Some (uint a - uint b))"
| "strncmp _ _ (Suc n) = None"

definition zero_fill :: "u8 list \<Rightarrow> nat \<Rightarrow> u8 list option" where
  "zero_fill s n = (if n \<le> length s then Some (replicate n 0 @ drop n s) else None)"

fun strncpy :: "u8 list \<Rightarrow> u8 list \<Rightarrow> nat \<Rightarrow> u8 list option" where
  "strncpy s t 0 = Some s"
| "strncpy (x # s) (c # t) (Suc n) = map_option ((#) c) (if c \<noteq> 0 then strncpy s t n else zero_fill s n)"
| "strncpy _ _ (Suc n) = None"

fun safestrcpy_loop :: "u8 list \<Rightarrow> u8 list \<Rightarrow> nat \<Rightarrow> u8 list option" where
  "safestrcpy_loop [] t n = None"
| "safestrcpy_loop (x # s) t 0 = Some (0 # s)"
| "safestrcpy_loop (x # s) [] (Suc n) = None"
| "safestrcpy_loop (x # s) (c # t) (Suc n) =
     map_option ((#) c) (if c \<noteq> 0 then safestrcpy_loop s t n else safestrcpy_loop s t 0)"

definition safestrcpy :: "u8 list \<Rightarrow> u8 list \<Rightarrow> int \<Rightarrow> u8 list option" where
  "safestrcpy s t n = (if n \<le> 0 then Some s else safestrcpy_loop s t (nat (n - 1)))"

section \<open>Memory\<close>

primrec move_down :: "nat \<Rightarrow> nat \<Rightarrow> nat \<Rightarrow> (nat \<Rightarrow> u8) \<Rightarrow> nat \<Rightarrow> u8" where
  "move_down s d 0 m = m"
| "move_down s d (Suc n) m = move_down s d n (m(d + n := m (s + n)))"

primrec move_up :: "nat \<Rightarrow> nat \<Rightarrow> nat \<Rightarrow> (nat \<Rightarrow> u8) \<Rightarrow> nat \<Rightarrow> u8" where
  "move_up s d 0 m = m"
| "move_up s d (Suc n) m = move_up (Suc s) (Suc d) n (m(d := m s))"

definition memmove :: "nat \<Rightarrow> nat \<Rightarrow> nat \<Rightarrow> (nat \<Rightarrow> u8) \<Rightarrow> nat \<Rightarrow> u8" where
  "memmove d s n m = (if s < d \<and> s + n > d then move_down s d n m else move_up s d n m)"

primrec stosb :: "nat \<Rightarrow> u8 \<Rightarrow> nat \<Rightarrow> (nat \<Rightarrow> u8) \<Rightarrow> nat \<Rightarrow> u8" where
  "stosb a c 0 m = m"
| "stosb a c (Suc n) m = stosb (Suc a) c n (m(a := c))"

primrec stosl :: "nat \<Rightarrow> u32 \<Rightarrow> nat \<Rightarrow> (nat \<Rightarrow> u8) \<Rightarrow> nat \<Rightarrow> u8" where
  "stosl a w 0 m = m"
| "stosl a w (Suc n) m = stosl (a + 4) w n (\<lambda>x. if a \<le> x \<and> x < a + 4 then to_le 4 w ! (x - a) else m x)"

definition memset :: "nat \<Rightarrow> u32 \<Rightarrow> nat \<Rightarrow> (nat \<Rightarrow> u8) \<Rightarrow> nat \<Rightarrow> u8" where
  "memset dst c n m =
     (if dst mod 4 = 0 \<and> n mod 4 = 0
      then let c' = c AND 0xFF
           in stosl dst (push_bit 24 c' OR push_bit 16 c' OR push_bit 8 c' OR c') (n div 4) m
      else stosb dst (ucast c) n m)"

section \<open>Correctness\<close>

lemma str_of_simps [simp]: "str_of [] = []" "str_of (c # cs) = (if c = 0 then [] else c # str_of cs)"
  by (simp_all add: str_of_def)

lemma terminated_simps [simp]: "\<not> terminated []" "terminated (c # cs) \<longleftrightarrow> c = 0 \<or> terminated cs"
  by (auto simp: terminated_def)

lemma str_of_nonzero: "0 \<notin> set (str_of s)"
  by (auto simp: str_of_def dest: set_takeWhileD)

lemma terminated_split: "terminated s \<Longrightarrow> \<exists>rest. s = str_of s @ 0 # rest"
  by (induction s) auto

lemma str_of_append: "0 \<notin> set xs \<Longrightarrow> str_of (xs @ 0 # rest) = xs"
  by (induction xs) auto

lemma strlen_eq: "strlen s = (if terminated s then Some (length (str_of s)) else None)"
  by (induction s) auto

lemma str_len_less: "terminated s \<Longrightarrow> length (str_of s) < length s"
  using terminated_split[of s] by (metis length_append length_Cons less_add_Suc1 add_Suc_right add.commute not_add_less1 linorder_neqE_nat)

lemma str_split:
  assumes "terminated s"
  obtains xs rest where "s = xs @ 0 # rest" "0 \<notin> set xs" "str_of s = xs"
  using terminated_split[OF assms] str_of_nonzero[of s] by blast

lemma append_char_ok:
  assumes "terminated s" "length (str_of s) + 1 < length s" "c \<noteq> 0"
  obtains s' where "append_char s c = Some s'" "str_of s' = str_of s @ [c]" "terminated s'" "length s' = length s"
proof -
  obtain xs rest where s: "s = xs @ 0 # rest" "0 \<notin> set xs" "str_of s = xs" by (rule str_split[OF assms(1)])
  obtain x r where r: "rest = x # r" using assms(2) s by (cases rest) auto
  let ?s' = "(xs @ [c]) @ 0 # r"
  have "append_char s c = Some ?s'"
    using s r by (simp add: append_char_def strlen_eq terminated_def list_update_append)
  moreover have "0 \<notin> set (xs @ [c])" using assms(3) s(2) by simp
  then have "str_of ?s' = str_of s @ [c]" unfolding s(3) by (rule str_of_append)
  ultimately show ?thesis using s r by (intro that[of ?s']) (simp_all add: terminated_def)
qed

lemma append_char_overflow:
  "terminated s \<Longrightarrow> length s \<le> length (str_of s) + 1 \<Longrightarrow> append_char s c = None"
  by (simp add: append_char_def strlen_eq)

lemma backspace_ok:
  assumes "terminated s" "str_of s \<noteq> []"
  obtains s' where "backspace s = Some s'" "str_of s' = butlast (str_of s)" "terminated s'" "length s' = length s"
proof -
  obtain xs rest where s: "s = xs @ 0 # rest" "0 \<notin> set xs" "str_of s = xs" by (rule str_split[OF assms(1)])
  obtain ys y where y: "xs = ys @ [y]" using assms(2) s by (cases xs rule: rev_cases) auto
  have "backspace s = Some (ys @ 0 # 0 # rest)"
    using s y by (simp add: backspace_def strlen_eq terminated_def)
  moreover have "str_of (ys @ 0 # 0 # rest) = butlast (str_of s)"
    using s y str_of_append[of ys "0 # rest"] by simp
  ultimately show ?thesis using s y by (intro that[of "ys @ 0 # 0 # rest"]) (simp_all add: terminated_def)
qed

lemma backspace_empty: "terminated s \<Longrightarrow> str_of s = [] \<Longrightarrow> backspace s = None"
  by (simp add: backspace_def strlen_eq)

text \<open>\<open>reverse\<close> reverses the string in place.\<close>

lemma reverse_loop_correct:
  assumes "0 \<le> i" "i \<le> j + 1" "j < int (length s)"
  shows "length (reverse_loop s i j) = length s \<and>
    (\<forall>k < length s. reverse_loop s i j ! k = (if i \<le> int k \<and> int k \<le> j then s ! nat (i + j - int k) else s ! k))"
  using assms
proof (induction s i j rule: reverse_loop.induct)
  case (1 s i j)
  show ?case
  proof (cases "i < j")
    case False
    then have "reverse_loop s i j = s" by (subst reverse_loop.simps) simp
    moreover have "nat (i + j - int k) = k" if "i \<le> int k" "int k \<le> j" for k using False that 1(3) by simp
    ultimately show ?thesis by auto
  next
    case True
    let ?s = "s[nat i := s ! nat j, nat j := s ! nat i]"
    have ih: "length (reverse_loop ?s (i + 1) (j - 1)) = length ?s \<and>
      (\<forall>k < length ?s. reverse_loop ?s (i + 1) (j - 1) ! k =
        (if i + 1 \<le> int k \<and> int k \<le> j - 1 then ?s ! nat (i + 1 + (j - 1) - int k) else ?s ! k))"
      using True 1(2-4) by (intro 1(1)) auto
    have e: "reverse_loop s i j = reverse_loop ?s (i + 1) (j - 1)" using True by (subst reverse_loop.simps) simp
    show ?thesis
    proof (intro conjI allI impI)
      show "length (reverse_loop s i j) = length s" using ih e by simp
    next
      fix k assume k: "k < length s"
      then have r: "reverse_loop s i j ! k = (if i + 1 \<le> int k \<and> int k \<le> j - 1 then ?s ! nat (i + j - int k) else ?s ! k)"
        using ih e by simp
      have ij: "nat i < length s" "nat j < length s" "nat i \<noteq> nat j" using True 1(2,4) by auto
      consider "k = nat i" | "k = nat j" | "i + 1 \<le> int k" "int k \<le> j - 1" | "int k < i \<or> j < int k"
        by linarith
      then show "reverse_loop s i j ! k = (if i \<le> int k \<and> int k \<le> j then s ! nat (i + j - int k) else s ! k)"
      proof cases
        case 1
        then show ?thesis using r ij True \<open>0 \<le> i\<close> by simp
      next
        case 2
        then show ?thesis using r ij True \<open>0 \<le> i\<close> by simp
      next
        case 3
        then have "nat (i + j - int k) \<noteq> nat i" "nat (i + j - int k) \<noteq> nat j" using \<open>0 \<le> i\<close> True by auto
        then show ?thesis using r 3 by simp
      next
        case 4
        then have "k \<noteq> nat i" "k \<noteq> nat j" using \<open>0 \<le> i\<close> True by (auto split: if_splits)
        then show ?thesis using r 4 by auto
      qed
    qed
  qed
qed

lemma reverse_ok:
  assumes "terminated s"
  obtains s' where "reverse s = Some s'" "str_of s' = rev (str_of s)" "terminated s'" "length s' = length s"
proof -
  obtain xs rest where s: "s = xs @ 0 # rest" "0 \<notin> set xs" "str_of s = xs" by (rule str_split[OF assms])
  let ?s' = "reverse_loop s 0 (int (length xs) - 1)"
  note c = reverse_loop_correct[of 0 "int (length xs) - 1" s]
  have "?s' = rev xs @ 0 # rest"
  proof (rule nth_equalityI)
    show "length ?s' = length (rev xs @ 0 # rest)" using c s by simp
  next
    fix k assume "k < length ?s'"
    then have k: "k < length s" using c s by simp
    have "nat (int (length xs) - 1 - int k) = length xs - Suc k" by simp
    then show "?s' ! k = (rev xs @ 0 # rest) ! k"
      using c k s by (auto simp: nth_append rev_nth)
  qed
  moreover have "str_of (rev xs @ 0 # rest) = rev xs" using s(2) by (intro str_of_append) simp
  moreover have "reverse s = Some ?s'" using s(3) assms by (simp add: reverse_def strlen_eq)
  ultimately show ?thesis using s by (intro that[of "rev xs @ 0 # rest"]) (simp_all add: terminated_def)
qed

section \<open>Numbers\<close>

text \<open>The decimal digits of a number, highest first, and their value.\<close>

function dec :: "int \<Rightarrow> u8 list" where
  "dec n = (if n div 10 > 0 then dec (n div 10) else []) @ [digit10 n]"
  by pat_completeness auto
termination by (relation "measure nat") auto

declare dec.simps [simp del]

definition dec_value :: "u8 list \<Rightarrow> int" where
  "dec_value ds = foldl (\<lambda>v c. 10 * v + (uint c - 48)) 0 ds"

lemma uint_digit10: "uint (digit10 n) = n mod 10 + 48"
proof -
  have "0 \<le> n mod 10" "n mod 10 < 10" by simp_all
  then show ?thesis unfolding digit10_def uint_word_of_int by simp
qed

lemma dec_value_dec: "0 \<le> n \<Longrightarrow> dec_value (dec n) = n"
proof (induction n rule: dec.induct)
  case (1 n)
  have "dec_value (dec n) = 10 * (if n div 10 > 0 then n div 10 else 0) + n mod 10"
    using 1 by (subst dec.simps) (simp add: dec_value_def uint_digit10)
  moreover have "\<not> n div 10 > 0 \<Longrightarrow> n div 10 = 0" using 1(2) by simp
  ultimately show ?case by (cases "n div 10 > 0") auto
qed

lemma dec_chars: "0 \<le> n \<Longrightarrow> c \<in> set (dec n) \<Longrightarrow> 48 \<le> c \<and> c \<le> 57"
proof (induction n rule: dec.induct)
  case (1 n)
  have "48 \<le> digit10 n" "digit10 n \<le> 57"
    by (simp_all add: word_le_def uint_digit10)
  moreover have "c \<in> set (dec (n div 10)) \<and> n div 10 > 0 \<or> c = digit10 n"
    using 1(3) by (subst (asm) dec.simps) (auto split: if_splits)
  ultimately show ?case using 1(1,2) by auto
qed

lemma length_dec: "0 \<le> n \<Longrightarrow> n < 10 ^ Suc k \<Longrightarrow> length (dec n) \<le> Suc k"
proof (induction k arbitrary: n)
  case 0
  then show ?case by (subst dec.simps) simp
next
  case (Suc k)
  then have "n div 10 < 10 ^ Suc k" by simp
  then show ?case using Suc by (subst dec.simps) auto
qed

lemma ita_loop_ok:
  assumes "0 \<le> n" "i + length (dec n) \<le> length str"
  shows "ita_loop n i str = Some (i + length (dec n), blit i (rev (dec n)) str)"
  using assms
proof (induction n i str rule: ita_loop.induct)
  case (1 n i str)
  have i: "i < length str" using 1(3) by (subst (asm) dec.simps) auto
  let ?c = "digit10 n"
  let ?s = "str[i := ?c]"
  show ?case
  proof (cases "n div 10 > 0")
    case False
    then have "dec n = [?c]" by (subst dec.simps) simp
    moreover have "?s = blit i [?c] str" using i by (simp add: blit_def upd_conv_take_nth_drop)
    ultimately show ?thesis using i False by (subst ita_loop.simps) simp
  next
    case True
    then have d: "dec n = dec (n div 10) @ [?c]" by (subst dec.simps) simp
    have "ita_loop (n div 10) (Suc i) ?s = Some (Suc i + length (dec (n div 10)), blit (Suc i) (rev (dec (n div 10))) ?s)"
      using True 1(2,3) i d by (intro 1(1)) auto
    moreover have "blit (Suc i) (rev (dec (n div 10))) ?s = blit i (?c # rev (dec (n div 10))) str"
      using i by (simp add: blit_def take_Suc_conv_app_nth)
    ultimately show ?thesis using i True d by (subst ita_loop.simps) (simp add: Let_def)
  qed
qed

lemma int_to_ascii_ok:
  assumes "sint n \<noteq> - (2 ^ 31)" "length (dec \<bar>sint n\<bar>) < length str"
  obtains s' where "int_to_ascii n str = Some s'" "str_of s' = dec \<bar>sint n\<bar>" "terminated s'" "length s' = length str"
proof -
  let ?d = "dec \<bar>sint n\<bar>"
  have l: "ita_loop \<bar>sint n\<bar> 0 str = Some (length ?d, blit 0 (rev ?d) str)"
    using ita_loop_ok[of "\<bar>sint n\<bar>" 0 str] assms(2) by simp
  let ?s = "(blit 0 (rev ?d) str)[length ?d := 0]"
  obtain x r where xr: "drop (length ?d) str = x # r" using assms(2) by (cases "drop (length ?d) str") auto
  have s: "?s = rev ?d @ 0 # r" by (simp add: blit_def xr list_update_append)
  have "0 \<notin> set (rev ?d)" using dec_chars[of "\<bar>sint n\<bar>" 0] by auto
  then have so: "str_of ?s = rev ?d" unfolding s by (rule str_of_append)
  have "terminated ?s" unfolding s by (simp add: terminated_def)
  then obtain s' where s': "reverse ?s = Some s'" "str_of s' = rev (str_of ?s)" "terminated s'" "length s' = length ?s"
    by (rule reverse_ok)
  have "int_to_ascii n str = Some s'"
    using assms s'(1) l by (simp add: int_to_ascii_def length_blit)
  then show ?thesis using s' so assms(2) by (intro that[of s']) (simp_all add: length_blit)
qed

section \<open>Comparing and copying\<close>

lemma strcmp_zero_iff:
  assumes "terminated s" "terminated t"
  shows "\<exists>r. strcmp s t = Some r \<and> (r = 0 \<longleftrightarrow> str_of s = str_of t)"
  using assms
proof (induction s t rule: strcmp.induct)
  case (1 a s b t)
  show ?case
  proof (cases "a = b")
    case True
    then show ?thesis using 1 by auto
  next
    case False
    then have "sint a \<noteq> sint b" by (auto dest: signed_word_eqI)
    then show ?thesis using False by (auto simp: str_of_def)
  qed
qed simp_all

lemma strncmp_zero_iff:
  assumes "terminated s \<or> n \<le> length s" "terminated t \<or> n \<le> length t"
  shows "\<exists>r. strncmp s t n = Some r \<and> (r = 0 \<longleftrightarrow> take n (str_of s) = take n (str_of t))"
  using assms
proof (induction s t n rule: strncmp.induct)
  case (2 a p b q n)
  show ?case
  proof (cases "a = b")
    case True
    then show ?thesis using 2 by auto
  next
    case False
    then have "uint a \<noteq> uint b" by (auto dest: unsigned_word_eqI)
    then show ?thesis using False by auto
  qed
qed simp_all

text \<open>The \<open>n\<close> bytes a string fills when padded with zeros or cut off.\<close>

definition padded :: "nat \<Rightarrow> u8 list \<Rightarrow> u8 list" where
  "padded n s = take n s @ replicate (n - length s) 0"

lemma length_padded [simp]: "length (padded n s) = n"
  by (simp add: padded_def)

lemma strncpy_ok:
  assumes "n \<le> length s" "terminated t \<or> n \<le> length t"
  shows "strncpy s t n = Some (padded n (str_of t) @ drop n s)"
  using assms
  by (induction s t n rule: strncpy.induct) (auto simp: padded_def zero_fill_def)

lemma str_of_padded: "str_of (padded n (str_of t)) = take n (str_of t)"
proof -
  have "0 \<notin> set (take n (str_of t))" using str_of_nonzero[of t] by (meson in_set_takeD)
  moreover have "0 \<notin> set xs \<Longrightarrow> str_of (xs @ ys) = xs @ str_of ys" for xs ys by (induction xs) auto
  ultimately have a: "str_of (take n (str_of t) @ ys) = take n (str_of t) @ str_of ys" for ys by blast
  show ?thesis unfolding padded_def a by (cases "n - length (str_of t)") simp_all
qed

lemma safestrcpy_loop_ok:
  assumes "n < length s" "terminated t \<or> n \<le> length t"
  obtains s' where "safestrcpy_loop s t n = Some s'" "str_of s' = take n (str_of t)" "terminated s'" "length s' = length s"
    "drop (Suc n) s' = drop (Suc n) s"
proof -
  have "\<exists>s'. safestrcpy_loop s t n = Some s' \<and> str_of s' = take n (str_of t) \<and> terminated s' \<and> length s' = length s
    \<and> drop (Suc n) s' = drop (Suc n) s"
    using assms
  proof (induction s t n rule: safestrcpy_loop.induct)
    case (4 x s c t n)
    show ?case
    proof (cases "c = 0")
      case True
      obtain y r where s: "s = y # r" using 4(3) by (cases s) auto
      then show ?thesis using True 4(3) by (cases n) auto
    next
      case False
      then show ?thesis using 4 by auto
    qed
  qed auto
  then show ?thesis using that by blast
qed

lemma safestrcpy_ok:
  assumes "0 < n" "nat n \<le> length s" "terminated t \<or> nat n \<le> Suc (length t)"
  obtains s' where "safestrcpy s t n = Some s'" "str_of s' = take (nat n - 1) (str_of t)" "terminated s'" "length s' = length s"
    "drop (nat n) s' = drop (nat n) s"
proof -
  have k: "nat (n - 1) < length s" "terminated t \<or> nat (n - 1) \<le> length t" "nat (n - 1) = nat n - 1" "Suc (nat (n - 1)) = nat n"
    using assms by auto
  obtain s' where "safestrcpy_loop s t (nat (n - 1)) = Some s'" "str_of s' = take (nat (n - 1)) (str_of t)" "terminated s'"
    "length s' = length s" "drop (Suc (nat (n - 1))) s' = drop (Suc (nat (n - 1))) s"
    by (rule safestrcpy_loop_ok[OF k(1,2)])
  then show ?thesis using k assms(1) by (intro that[of s']) (simp_all add: safestrcpy_def)
qed

section \<open>Memory\<close>

lemma move_down_apply:
  assumes "s < d"
  shows "move_down s d n m a = (if d \<le> a \<and> a < d + n then m (s + (a - d)) else m a)"
  using assms by (induction n arbitrary: m) (auto simp: le_less_Suc_eq add.commute)

lemma move_up_apply:
  assumes "d \<le> s \<or> s + n \<le> d"
  shows "move_up s d n m a = (if d \<le> a \<and> a < d + n then m (s + (a - d)) else m a)"
  using assms
proof (induction n arbitrary: s d m)
  case (Suc n)
  then have "move_up (Suc s) (Suc d) n (m(d := m s)) a =
    (if Suc d \<le> a \<and> a < Suc d + n then (m(d := m s)) (Suc s + (a - Suc d)) else (m(d := m s)) a)"
    by (intro Suc.IH) auto
  moreover have "Suc s + (a - Suc d) \<noteq> d" if "Suc d \<le> a" "a < Suc d + n" using Suc.prems that by auto
  moreover have "Suc s + (a - Suc d) = s + (a - d)" if "Suc d \<le> a" using that by simp
  ultimately show ?case by auto
qed auto

lemma memmove_apply:
  "memmove d s n m a = (if d \<le> a \<and> a < d + n then m (s + (a - d)) else m a)"
  by (auto simp: memmove_def move_down_apply move_up_apply)

lemma stosb_apply: "stosb p c n m a = (if p \<le> a \<and> a < p + n then c else m a)"
  by (induction n arbitrary: p m) auto

lemma stosl_apply:
  assumes "\<And>j. j < 4 \<Longrightarrow> to_le 4 w ! j = c"
  shows "stosl p w n m a = (if p \<le> a \<and> a < p + 4 * n then c else m a)"
  by (induction n arbitrary: p m) (auto simp: assms)

lemma spread_bytes:
  fixes c :: u32
  assumes "j < 4"
  shows "to_le 4 (push_bit 24 (c AND 0xFF) OR push_bit 16 (c AND 0xFF) OR push_bit 8 (c AND 0xFF) OR (c AND 0xFF)) ! j = (ucast c :: u8)"
proof (rule bit_word_eqI)
  have m: "(0xFF :: u32) = mask 8" by (simp add: mask_eq_exp_minus_1)
  fix i assume "i < LENGTH(8)"
  then have i: "i < 8" by simp
  consider "j = 0" | "j = 1" | "j = 2" | "j = 3" using assms by linarith
  then show "bit (to_le 4 (push_bit 24 (c AND 0xFF) OR push_bit 16 (c AND 0xFF) OR push_bit 8 (c AND 0xFF) OR (c AND 0xFF)) ! j) i
      \<longleftrightarrow> bit (ucast c :: u8) i"
    unfolding m using i assms by cases (auto simp: bit_nth_to_le bit_simps)
qed

lemma memset_apply: "memset p c n m a = (if p \<le> a \<and> a < p + n then ucast c else m a)"
proof (cases "p mod 4 = 0 \<and> n mod 4 = 0")
  case True
  then have "4 * (n div 4) = n" by auto
  then show ?thesis
    using True stosl_apply[OF spread_bytes, where p = p and n = "n div 4" and m = m and a = a] by (simp add: memset_def Let_def)
qed (auto simp: memset_def stosb_apply)


lemma int_to_ascii_correct:
  assumes "sint n \<noteq> - (2 ^ 31)" "length (dec \<bar>sint n\<bar>) < length str"
  shows "\<exists>s'. int_to_ascii n str = Some s' \<and> str_of s' = dec \<bar>sint n\<bar> \<and> dec_value (str_of s') = \<bar>sint n\<bar> \<and> length s' = length str"
  by (rule int_to_ascii_ok[OF assms]) (auto simp: dec_value_dec)

end
