(* ===== verification/Dir.thy ===== *)
theory Dir
  imports File_Data Clib
begin

text \<open>
  fs/fs.c, directories and paths: \<open>namecmp\<close>, \<open>dirlookup\<close>, \<open>dirlink\<close>, \<open>skipelem\<close>, \<open>namex\<close>, \<open>namei\<close>,
  \<open>nameiparent\<close>. Names and paths are pointers into byte arrays (see \<open>Clib\<close>). A directory is a file whose
  contents are 16-byte entries. The current directory of the calling process is the argument \<open>cwd\<close>.
\<close>

unbundle bit_operations_syntax

definition namecmp :: "u8 list \<Rightarrow> u8 list \<Rightarrow> int option" where
  "namecmp s t = strncmp s t DIRSIZ"

text \<open>
  The loop of \<open>dirlookup\<close>. The entry \<open>de\<close> is an uninitialised local: after a short read the code prints a
  complaint and goes on with what happens to be there, which is undefined; after a full read all its
  16 bytes come from the file.
\<close>

partial_function (option) dirlookup_loop ::
    "nat \<Rightarrow> u8 list \<Rightarrow> u32 \<Rightarrow> 'a fs_scheme \<Rightarrow> ((nat \<times> u32) option \<times> 'a fs_scheme) option" where
  [code]: "dirlookup_loop dp name off s =
     (if off < i_size (icache s dp)
      then Option.bind (readi dp (replicate 16 0) off 16 s) (\<lambda>(r, de, s1).
        if r \<noteq> 16 then None
        else if de_inum de = 0 then dirlookup_loop dp name (off + 16) s1
        else Option.bind (namecmp name (de_name de)) (\<lambda>c.
          if c = 0
          then Option.bind (iget (i_dev (icache s1 dp)) (ucast (de_inum de)) s1) (\<lambda>(ip, s2). Some (Some (ip, off), s2))
          else dirlookup_loop dp name (off + 16) s1))
      else Some (None, s))"

definition dirlookup :: "nat \<Rightarrow> u8 list \<Rightarrow> 'a fs_scheme \<Rightarrow> ((nat \<times> u32) option \<times> 'a fs_scheme) option" where
  "dirlookup dp name s =
     dirlookup_loop dp name 0 (if i_type (icache s dp) \<noteq> T_DIR then kprint ''dirlookup not DIR'' s else s)"

text \<open>The search of \<open>dirlink\<close> for an unused entry: its offset, or the end of the directory.\<close>

partial_function (option) dirlink_loop :: "nat \<Rightarrow> u32 \<Rightarrow> 'a fs_scheme \<Rightarrow> (u32 \<times> 'a fs_scheme) option" where
  [code]: "dirlink_loop dp off s =
     (if off < i_size (icache s dp)
      then Option.bind (readi dp (replicate 16 0) off 16 s) (\<lambda>(r, de, s1).
        if r \<noteq> 16 then None
        else if de_inum de = 0 then Some (off, s1)
        else dirlink_loop dp (off + 16) s1)
      else Some (off, s))"

definition dirlink :: "nat \<Rightarrow> u8 list \<Rightarrow> u32 \<Rightarrow> 'a fs_scheme \<Rightarrow> (int \<times> 'a fs_scheme) option" where
  "dirlink dp name inum s = do {
     (found, s1) \<leftarrow> dirlookup dp name s;
     case found of
       Some (ip, off) \<Rightarrow> do { s2 \<leftarrow> iput ip s1; Some (- 1, s2) }
     | None \<Rightarrow> do {
         (off, s2) \<leftarrow> dirlink_loop dp 0 s1;
         nm \<leftarrow> strncpy (replicate DIRSIZ 0) name DIRSIZ;
         (r, s3) \<leftarrow> writei dp (enc_dirent (ucast inum) nm) off 16 s2;
         Some (0, if r \<noteq> 16 then kprint ''dirlink'' s3 else s3)
       }
   }"

section \<open>Paths\<close>

text \<open>\<open>skipelem\<close>: \<open>None\<close> inside is the null pointer at the end of the path; otherwise the rest of the path and the
  new contents of \<open>name\<close>.\<close>

fun skip_slashes :: "u8 list \<Rightarrow> u8 list option" where
  "skip_slashes [] = None"
| "skip_slashes (c # cs) = (if c = 47 then skip_slashes cs else Some (c # cs))"

fun scan_elem :: "u8 list \<Rightarrow> (u8 list \<times> u8 list) option" where
  "scan_elem [] = None"
| "scan_elem (c # cs) =
     (if c \<noteq> 47 \<and> c \<noteq> 0 then map_option (\<lambda>(e, rest). (c # e, rest)) (scan_elem cs) else Some ([], c # cs))"

definition skipelem :: "u8 list \<Rightarrow> u8 list \<Rightarrow> (u8 list \<times> u8 list) option option" where
  "skipelem path name = do {
     p \<leftarrow> skip_slashes path;
     if hd p = 0 then Some None
     else do {
       (e, rest) \<leftarrow> scan_elem p;
       name' \<leftarrow> (if length e \<ge> DIRSIZ
          then (if DIRSIZ \<le> length name then Some (blit 0 (take DIRSIZ e) name) else None)
          else (if length e < length name then Some (blit 0 (e @ [0]) name) else None));
       rest' \<leftarrow> skip_slashes rest;
       Some (Some (rest', name'))
     }
   }"

partial_function (option) namex_loop ::
    "nat \<Rightarrow> u8 list \<Rightarrow> bool \<Rightarrow> u8 list \<Rightarrow> 'a fs_scheme \<Rightarrow> (nat option \<times> u8 list \<times> 'a fs_scheme) option" where
  [code]: "namex_loop ip path parent name s =
     Option.bind (skipelem path name) (\<lambda>p. case p of
       None \<Rightarrow> if parent then Option.bind (iput ip s) (\<lambda>s'. Some (None, name, s')) else Some (Some ip, name, s)
     | Some (path', name') \<Rightarrow>
         Option.bind (ilock ip s) (\<lambda>s1.
           if i_type (icache s1 ip) \<noteq> T_DIR then Option.bind (iunlockput ip s1) (\<lambda>s2. Some (None, name', s2))
           else if parent \<and> hd path' = 0 then Some (Some ip, name', iunlock ip s1)
           else Option.bind (dirlookup ip name' s1) (\<lambda>(found, s2).
             case found of
               None \<Rightarrow> Option.bind (iunlockput ip s2) (\<lambda>s3. Some (None, name', s3))
             | Some (nxt, off) \<Rightarrow> Option.bind (iunlockput ip s2) (\<lambda>s3. namex_loop nxt path' parent name' s3))))"

definition namex :: "nat \<Rightarrow> u8 list \<Rightarrow> bool \<Rightarrow> u8 list \<Rightarrow> 'a fs_scheme \<Rightarrow> (nat option \<times> u8 list \<times> 'a fs_scheme) option" where
  "namex cwd path parent name s =
     (if path = [] then None
      else do {
        (ip, s1) \<leftarrow> (if hd path = 47 then iget ROOTDEV ROOTINO s else Some (idup cwd s));
        namex_loop ip path parent name s1
      })"

definition namei :: "nat \<Rightarrow> u8 list \<Rightarrow> 'a fs_scheme \<Rightarrow> (nat option \<times> 'a fs_scheme) option" where
  "namei cwd path s = do { (r, name, s1) \<leftarrow> namex cwd path False (replicate DIRSIZ 0) s; Some (r, s1) }"

definition nameiparent :: "nat \<Rightarrow> u8 list \<Rightarrow> u8 list \<Rightarrow> 'a fs_scheme \<Rightarrow> (nat option \<times> u8 list \<times> 'a fs_scheme) option" where
  "nameiparent cwd path name s = namex cwd path True name s"

section \<open>Directories as lists of entries\<close>

definition entry :: "u8 list \<Rightarrow> nat \<Rightarrow> u8 list" where
  "entry c i = slice (16 * i) 16 c"

definition nentries :: "u8 list \<Rightarrow> nat" where
  "nentries c = length c div 16"

definition names :: "u8 list \<Rightarrow> u8 list \<Rightarrow> bool" where
  "names name e \<longleftrightarrow> de_inum e \<noteq> 0 \<and> take DIRSIZ (str_of name) = take DIRSIZ (str_of (de_name e))"

definition dir_find :: "u8 list \<Rightarrow> u8 list \<Rightarrow> nat option" where
  "dir_find name c = find (\<lambda>i. names name (entry c i)) [0..<nentries c]"

definition dir_slot :: "u8 list \<Rightarrow> nat" where
  "dir_slot c = (case find (\<lambda>i. de_inum (entry c i) = 0) [0..<nentries c] of Some i \<Rightarrow> i | None \<Rightarrow> nentries c)"

text \<open>A directory at rest, and a usable name.\<close>

definition dir_ok :: "nat \<Rightarrow> 'a fs_scheme \<Rightarrow> bool" where
  "dir_ok dp s \<longleftrightarrow> bio_ok s \<and> wf_disk (sb s) (blocks s) \<and> file_ok dp s \<and> bc.room 2 s
     \<and> i_type (icache s dp) = T_DIR \<and> 16 dvd unat (i_size (icache s dp))"

definition name_ok :: "u8 list \<Rightarrow> bool" where
  "name_ok name \<longleftrightarrow> terminated name \<or> DIRSIZ \<le> length name"

lemma dir_okD:
  assumes "dir_ok dp s"
  shows "bio_ok s" "wf_disk (sb s) (blocks s)" "file_ok dp s" "bc.room 2 s" "i_type (icache s dp) = T_DIR"
    "unat (i_size (icache s dp)) = 16 * nentries (contents dp s)" "nentries (contents dp s) \<le> 4480" "i_type (icache s dp) \<noteq> T_DEV"
proof -
  have "unat (i_size (icache s dp)) \<le> 71680" using assms file_okD(3)[of dp s] by (simp add: dir_ok_def fs_consts)
  then show "nentries (contents dp s) \<le> 4480" by (simp add: nentries_def)
qed (use assms in \<open>auto simp: dir_ok_def nentries_def fs_consts\<close>)

lemma quiet_step:
  assumes "advances s (blocks s) (icache s) s'"
  shows "file_ok ip s' = file_ok ip s" "contents ip s' = contents ip s" "dir_ok dp s \<Longrightarrow> dir_ok dp s'"
  using advancesD[OF assms] by (simp_all add: file_ok_def contents_def dir_ok_def)

lemma length_entry: "i < nentries c \<Longrightarrow> length (entry c i) = 16"
  by (simp add: entry_def nentries_def length_slice)

lemma readi_entry:
  assumes ok: "dir_ok dp s" and i: "i < nentries (contents dp s)"
  obtains s' where "readi dp (replicate 16 0) (of_nat (16 * i)) 16 s = Some (16, entry (contents dp s) i, s')"
    "advances s (blocks s) (icache s) s'"
proof -
  note d = dir_okD[OF ok]
  have u: "unat (of_nat (16 * i) :: u32) = 16 * i" "unat (of_nat (16 * i) + 16 :: u32) = 16 * i + 16"
  proof -
    show "unat (of_nat (16 * i) :: u32) = 16 * i" using d(7) i by (intro unat_of_nat_u32) simp
    have "(of_nat (16 * i) + 16 :: u32) = of_nat (16 * i + 16)" by simp
    then show "unat (of_nat (16 * i) + 16 :: u32) = 16 * i + 16" using d(7) i by (simp only:) (intro unat_of_nat_u32, simp)
  qed
  have le: "of_nat (16 * i) \<le> i_size (icache s dp)" "(of_nat (16 * i) :: u32) \<le> of_nat (16 * i) + 16"
    unfolding word_le_nat_alt u d(6) using i by simp_all
  have e: "take (unat (16 :: u32)) (drop (unat (of_nat (16 * i) :: u32)) (contents dp s)) = entry (contents dp s) i"
    unfolding u by (simp add: entry_def slice_def)
  obtain s' where "readi dp (replicate 16 0) (of_nat (16 * i)) 16 s
      = Some (int (length (entry (contents dp s) i)), blit 0 (entry (contents dp s) i) (replicate 16 0), s')"
    "advances s (blocks s) (icache s) s'"
    by (rule readi_ok[OF d(1-4,8) le, of "replicate 16 0", unfolded e]) simp
  then show ?thesis using length_entry[OF i] by (intro that) (simp_all add: blit_def)
qed

lemma off_size:
  assumes "dir_ok dp s" "i \<le> nentries (contents dp s)"
  shows "(of_nat (16 * i) :: u32) < i_size (icache s dp) \<longleftrightarrow> i < nentries (contents dp s)"
proof -
  note d = dir_okD[OF assms(1)]
  have "unat (of_nat (16 * i) :: u32) = 16 * i" using d(7) assms(2) by (intro unat_of_nat_u32) simp
  then show ?thesis by (simp only: word_less_nat_alt d(6)) simp
qed

lemma namecmp_names:
  assumes "name_ok name" "length e = 16" "de_inum e \<noteq> 0"
  shows "\<exists>c. namecmp name (de_name e) = Some c \<and> (c = 0 \<longleftrightarrow> names name e)"
proof -
  have "length (de_name e) = DIRSIZ" using assms(2) by (simp add: de_name_def length_slice fs_consts)
  then show ?thesis
    using strncmp_zero_iff[of name DIRSIZ "de_name e"] assms(1,3) by (auto simp: namecmp_def names_def name_ok_def)
qed

definition lookup_result :: "nat \<Rightarrow> u8 list \<Rightarrow> nat option \<Rightarrow> 'a fs_scheme \<Rightarrow> ((nat \<times> u32) option \<times> 'a fs_scheme) option" where
  "lookup_result dp c r s1 = (case r of None \<Rightarrow> Some (None, s1)
     | Some i \<Rightarrow> Option.bind (iget 1 (ucast (de_inum (entry c i))) s1) (\<lambda>(ip, s2). Some (Some (ip, of_nat (16 * i)), s2)))"

lemma dirlookup_loop_ok:
  assumes "dir_ok dp s" "name_ok name" "i \<le> nentries (contents dp s)"
  shows "\<exists>s1. advances s (blocks s) (icache s) s1 \<and> dirlookup_loop dp name (of_nat (16 * i)) s
    = lookup_result dp (contents dp s) (find (\<lambda>i. names name (entry (contents dp s) i)) [i..<nentries (contents dp s)]) s1"
  using assms
proof (induction "nentries (contents dp s) - i" arbitrary: i s)
  case 0
  then have "dirlookup_loop dp name (of_nat (16 * i)) s = Some (None, s)"
    using off_size[OF 0(2,4)] by (subst dirlookup_loop.simps) simp
  moreover have "[i..<nentries (contents dp s)] = []" using 0 by simp
  ultimately show ?case
    using advances_refl[OF dir_okD(1)[OF 0(2)]] by (auto simp: lookup_result_def)
next
  case (Suc d)
  let ?c = "contents dp s"
  have i: "i < nentries ?c" using Suc.hyps(2) by simp
  obtain s1 where r: "readi dp (replicate 16 0) (of_nat (16 * i)) 16 s = Some (16, entry ?c i, s1)"
    and ad: "advances s (blocks s) (icache s) s1"
    by (rule readi_entry[OF Suc.prems(1) i])
  note q = quiet_step[OF ad] and A = advancesD[OF ad]
  have lt: "(of_nat (16 * i) :: u32) < i_size (icache s dp)" using off_size[OF Suc.prems(1,3)] i by simp
  have nx: "(of_nat (16 * i) + 16 :: u32) = of_nat (16 * Suc i)" by simp
  have up: "[i..<nentries ?c] = i # [Suc i..<nentries ?c]" using i by (rule upt_conv_Cons)
  have ih: "\<exists>s2. advances s1 (blocks s1) (icache s1) s2 \<and> dirlookup_loop dp name (of_nat (16 * Suc i)) s1
    = lookup_result dp (contents dp s1) (find (\<lambda>i. names name (entry (contents dp s1) i)) [Suc i..<nentries (contents dp s1)]) s2"
    using Suc.hyps(2) Suc.prems(2) i q(3)[OF Suc.prems(1)] by (intro Suc.hyps(1)) (simp_all add: q(2))
  then obtain s2 where s2: "advances s (blocks s) (icache s) s2" "dirlookup_loop dp name (of_nat (16 * Suc i)) s1
    = lookup_result dp ?c (find (\<lambda>i. names name (entry ?c i)) [Suc i..<nentries ?c]) s2"
    using advances_trans[OF ad] unfolding q(2) A(2,4) by blast
  show ?case
  proof (cases "names name (entry ?c i)")
    case False
    have "dirlookup_loop dp name (of_nat (16 * i)) s = dirlookup_loop dp name (of_nat (16 * Suc i)) s1"
    proof (cases "de_inum (entry ?c i) = 0")
      case True
      then show ?thesis unfolding nx[symmetric] by (subst dirlookup_loop.simps) (simp only: lt r if_True bind.simps prod.case simp_thms if_False)
    next
      case nz: False
      then obtain c where c: "namecmp name (de_name (entry ?c i)) = Some c" "c \<noteq> 0"
        using namecmp_names[OF Suc.prems(2) length_entry[OF i] nz] False by blast
      then show ?thesis unfolding nx[symmetric]
        by (subst dirlookup_loop.simps) (simp only: lt r nz if_True bind.simps prod.case simp_thms if_False)
    qed
    then show ?thesis using s2 False unfolding up by auto
  next
    case True
    then have nz: "de_inum (entry ?c i) \<noteq> 0" by (simp add: names_def)
    obtain c where c: "namecmp name (de_name (entry ?c i)) = Some c" "c = 0"
      using namecmp_names[OF Suc.prems(2) length_entry[OF i] nz] True by blast
    have dev: "i_dev (icache s1 dp) = 1" using file_okD(1)[OF dir_okD(3)[OF Suc.prems(1)]] by (simp add: A)
    have "dirlookup_loop dp name (of_nat (16 * i)) s = lookup_result dp ?c (Some i) s1"
      by (subst dirlookup_loop.simps)
        (simp only: lt r nz c dev if_True bind.simps prod.case simp_thms if_False lookup_result_def option.case)
    then show ?thesis using ad True unfolding up by auto
  qed
qed

lemma dirlookup_ok:
  assumes "dir_ok dp s" "name_ok name"
  obtains s1 where "advances s (blocks s) (icache s) s1"
    "dirlookup dp name s = lookup_result dp (contents dp s) (dir_find name (contents dp s)) s1"
  using dirlookup_loop_ok[OF assms, of 0] dir_okD(5)[OF assms(1)] by (auto simp: dirlookup_def dir_find_def)

lemma dirlink_loop_ok:
  assumes "dir_ok dp s" "i \<le> nentries (contents dp s)"
  shows "\<exists>s1. advances s (blocks s) (icache s) s1 \<and> dirlink_loop dp (of_nat (16 * i)) s
    = Some (of_nat (16 * (case find (\<lambda>i. de_inum (entry (contents dp s) i) = 0) [i..<nentries (contents dp s)] of
        Some k \<Rightarrow> k | None \<Rightarrow> nentries (contents dp s))), s1)"
  using assms
proof (induction "nentries (contents dp s) - i" arbitrary: i s)
  case 0
  then have "dirlink_loop dp (of_nat (16 * i)) s = Some (of_nat (16 * i), s)"
    using off_size[OF 0(2,3)] by (subst dirlink_loop.simps) simp
  moreover have "[i..<nentries (contents dp s)] = []" "i = nentries (contents dp s)" using 0 by simp_all
  ultimately show ?case using advances_refl[OF dir_okD(1)[OF 0(2)]] by auto
next
  case (Suc d)
  let ?c = "contents dp s"
  have i: "i < nentries ?c" using Suc.hyps(2) by simp
  obtain s1 where r: "readi dp (replicate 16 0) (of_nat (16 * i)) 16 s = Some (16, entry ?c i, s1)"
    and ad: "advances s (blocks s) (icache s) s1"
    by (rule readi_entry[OF Suc.prems(1) i])
  note q = quiet_step[OF ad] and A = advancesD[OF ad]
  have lt: "(of_nat (16 * i) :: u32) < i_size (icache s dp)" using off_size[OF Suc.prems] i by simp
  have nx: "(of_nat (16 * i) + 16 :: u32) = of_nat (16 * Suc i)" by simp
  have up: "[i..<nentries ?c] = i # [Suc i..<nentries ?c]" using i by (rule upt_conv_Cons)
  have "\<exists>s2. advances s1 (blocks s1) (icache s1) s2 \<and> dirlink_loop dp (of_nat (16 * Suc i)) s1
    = Some (of_nat (16 * (case find (\<lambda>i. de_inum (entry (contents dp s1) i) = 0) [Suc i..<nentries (contents dp s1)] of
        Some k \<Rightarrow> k | None \<Rightarrow> nentries (contents dp s1))), s2)"
    using Suc.hyps(2) i q(3)[OF Suc.prems(1)] by (intro Suc.hyps(1)) (simp_all add: q(2))
  then obtain s2 where s2: "advances s (blocks s) (icache s) s2" "dirlink_loop dp (of_nat (16 * Suc i)) s1
    = Some (of_nat (16 * (case find (\<lambda>i. de_inum (entry ?c i) = 0) [Suc i..<nentries ?c] of Some k \<Rightarrow> k | None \<Rightarrow> nentries ?c)), s2)"
    using advances_trans[OF ad] unfolding q(2) A(2,4) by blast
  show ?case
  proof (cases "de_inum (entry ?c i) = 0")
    case True
    have "dirlink_loop dp (of_nat (16 * i)) s = Some (of_nat (16 * i), s1)"
      by (subst dirlink_loop.simps) (simp only: lt r True if_True bind.simps prod.case simp_thms if_False)
    then show ?thesis using ad True unfolding up by auto
  next
    case False
    have "dirlink_loop dp (of_nat (16 * i)) s = dirlink_loop dp (of_nat (16 * Suc i)) s1"
      unfolding nx[symmetric] by (subst dirlink_loop.simps) (simp only: lt r False if_True bind.simps prod.case simp_thms if_False)
    then show ?thesis using s2 False unfolding up by auto
  qed
qed

lemma touched_entry: "touched (16 * k) 16 = 1"
proof -
  have "(16 * k + 15) div (16 * 32) = k div 32" "16 * k div (16 * 32) = k div 32"
    unfolding div_mult2_eq by simp_all
  then show ?thesis by (simp add: touched_def BSIZE_def)
qed

lemma entry_blit:
  assumes "length e = 16" "16 * k \<le> length c"
  shows "entry (blit (16 * k) e c) k = e"
    and "i < k \<Longrightarrow> entry (blit (16 * k) e c) i = entry c i"
    and "k < i \<Longrightarrow> 16 * i + 16 \<le> length c \<Longrightarrow> entry (blit (16 * k) e c) i = entry c i"
proof -
  show "entry (blit (16 * k) e c) k = e" using assms by (simp add: entry_def slice_def blit_def)
  show "entry (blit (16 * k) e c) i = entry c i" if "i < k"
  proof -
    have "16 \<le> 16 * k - 16 * i" "16 \<le> length c - 16 * i" using that assms(2) by simp_all
    then show ?thesis using assms by (simp add: entry_def slice_def blit_def drop_take min_def)
  qed
  show "entry (blit (16 * k) e c) i = entry c i" if "k < i" "16 * i + 16 \<le> length c"
  proof -
    have "16 * k + 16 \<le> 16 * i" using that by simp
    then show ?thesis using assms that unfolding entry_def by (intro slice_blit_other) auto
  qed
qed

lemma dir_slot_le: "dir_slot c \<le> nentries c"
  by (auto simp: dir_slot_def split: option.splits dest: findSomeD)

text \<open>What \<open>dirlink\<close> leaves in the directory: the entry in the first unused slot, or at the end.\<close>

definition linked :: "u8 list \<Rightarrow> u16 \<Rightarrow> u8 list \<Rightarrow> u8 list" where
  "linked name inum c = blit (16 * dir_slot c) (enc_dirent inum (padded DIRSIZ (str_of name))) c"

lemma length_new_entry: "length (enc_dirent inum (padded DIRSIZ (str_of name))) = 16"
  by (simp add: enc_dirent_def fs_consts)

lemma linked_entries:
  assumes "16 dvd length c"
  shows "nentries (linked name inum c) = max (nentries c) (Suc (dir_slot c))"
    "entry (linked name inum c) (dir_slot c) = enc_dirent inum (padded DIRSIZ (str_of name))"
    "i < nentries c \<Longrightarrow> i \<noteq> dir_slot c \<Longrightarrow> entry (linked name inum c) i = entry c i"
    "length (linked name inum c) = max (length c) (16 * dir_slot c + 16)"
proof -
  obtain n where n: "length c = 16 * n" using assms by (auto elim: dvdE)
  have k: "dir_slot c \<le> n" using dir_slot_le[of c] n by (simp add: nentries_def)
  show l: "length (linked name inum c) = max (length c) (16 * dir_slot c + 16)"
    using k n by (auto simp: linked_def blit_def length_new_entry max_def)
  then show "nentries (linked name inum c) = max (nentries c) (Suc (dir_slot c))"
    using n k by (auto simp: nentries_def max_def)
  show "entry (linked name inum c) (dir_slot c) = enc_dirent inum (padded DIRSIZ (str_of name))"
    unfolding linked_def using k n by (intro entry_blit(1)) (simp_all add: length_new_entry)
  show "entry (linked name inum c) i = entry c i" if "i < nentries c" "i \<noteq> dir_slot c"
  proof (cases "i < dir_slot c")
    case True
    then show ?thesis unfolding linked_def using k n by (intro entry_blit(2)) (simp_all add: length_new_entry)
  next
    case False
    then show ?thesis unfolding linked_def using k n that
      by (intro entry_blit(3)) (simp_all add: length_new_entry nentries_def)
  qed
qed

lemma names_new:
  assumes "inum \<noteq> 0"
  shows "names name (enc_dirent inum (padded DIRSIZ (str_of name)))"
  using assms dirent_roundtrip[of "padded DIRSIZ (str_of name)" inum]
  by (simp add: names_def str_of_padded)

lemma find_unique:
  assumes "P k" "k < n" "\<And>i. i < n \<Longrightarrow> i \<noteq> k \<Longrightarrow> \<not> P i"
  shows "find P [0..<n] = Some k"
proof -
  have "find P [0..<n] \<noteq> None" using assms(1,2) by (auto simp: find_None_iff)
  then obtain j where "find P [0..<n] = Some j" by blast
  then show ?thesis using findSomeD[of P "[0..<n]" j] assms(3)[of j] by auto
qed

lemma dir_find_linked:
  assumes "16 dvd length c" "dir_find name c = None" "inum \<noteq> 0"
  shows "dir_find name (linked name inum c) = Some (dir_slot c)"
  unfolding dir_find_def
proof (rule find_unique)
  note l = linked_entries[where name = name and inum = inum, OF assms(1)]
  show "names name (entry (linked name inum c) (dir_slot c))" unfolding l(2) by (rule names_new[OF assms(3)])
  show "dir_slot c < nentries (linked name inum c)" by (simp add: l(1))
  fix i assume i: "i < nentries (linked name inum c)" "i \<noteq> dir_slot c"
  then have "i < nentries c" using l(1) dir_slot_le[of c] by (auto simp: max_def split: if_splits)
  then show "\<not> names name (entry (linked name inum c) i)"
    using assms(2) l(3) i(2) by (auto simp: dir_find_def find_None_iff)
qed

lemma dirlink_ok:
  assumes ok: "dir_ok dp s" and nm: "name_ok name" and new: "dir_find name (contents dp s) = None"
    and fits: "unat (i_size (icache s dp)) + 16 \<le> MAXFILE * BSIZE" and free: "2 \<le> nfree (sb s) (blocks s)"
  obtains s' where "dirlink dp name inum s = Some (0, s')" "dir_ok dp s'"
    "contents dp s' = linked name (ucast inum) (contents dp s)" "\<And>q. q \<noteq> dp \<Longrightarrow> icache s' q = icache s q"
    "\<And>q. file_ok q s \<Longrightarrow> disjoint_files dp q s \<Longrightarrow> i_inum (icache s q) \<noteq> i_inum (icache s dp) \<Longrightarrow> q \<noteq> dp \<Longrightarrow>
       contents q s' = contents q s \<and> file_ok q s'"
proof -
  let ?c = "contents dp s" and ?k = "dir_slot (contents dp s)"
  note d = dir_okD[OF ok]
  obtain s1 where s1: "advances s (blocks s) (icache s) s1" "dirlookup dp name s = Some (None, s1)"
    using dirlookup_ok[OF ok nm] new by (auto simp: lookup_result_def)
  have ok1: "dir_ok dp s1" using quiet_step(3)[OF s1(1) ok] .
  obtain s2 where "advances s1 (blocks s1) (icache s1) s2" "dirlink_loop dp 0 s1 = Some (of_nat (16 * dir_slot (contents dp s1)), s2)"
    using dirlink_loop_ok[OF ok1, of 0] by (auto simp: dir_slot_def)
  then have s2: "advances s (blocks s) (icache s) s2" "dirlink_loop dp 0 s1 = Some (of_nat (16 * ?k), s2)"
    using advances_trans[OF s1(1)] advancesD(2,4)[OF s1(1)] quiet_step(2)[OF s1(1)] by simp_all
  note A = advancesD[OF s2(1)] and q = quiet_step[OF s2(1)]
  note d2 = dir_okD[OF q(3)[OF ok]]
  have k: "?k \<le> nentries ?c" by (rule dir_slot_le)
  have u: "unat (of_nat (16 * ?k) :: u32) = 16 * ?k" "unat (of_nat (16 * ?k) + 16 :: u32) = 16 * ?k + 16"
  proof -
    show "unat (of_nat (16 * ?k) :: u32) = 16 * ?k" using d(7) k by (intro unat_of_nat_u32) simp
    have "(of_nat (16 * ?k) + 16 :: u32) = of_nat (16 * ?k + 16)" by simp
    then show "unat (of_nat (16 * ?k) + 16 :: u32) = 16 * ?k + 16" using d(7) k by (simp only:) (intro unat_of_nat_u32, simp)
  qed
  let ?e = "enc_dirent (ucast inum) (padded DIRSIZ (str_of name))"
  have le: "of_nat (16 * ?k) \<le> i_size (icache s2 dp)" "(of_nat (16 * ?k) :: u32) \<le> of_nat (16 * ?k) + 16"
    unfolding word_le_nat_alt u using d(6) k by (simp_all add: A)
  have room2: "unat (of_nat (16 * ?k) :: u32) + unat (16 :: u32) \<le> MAXFILE * BSIZE"
    unfolding u using fits d(6) k by simp
  have len2: "unat (16 :: u32) \<le> length ?e" by (simp add: length_new_entry)
  have free2: "2 * touched (unat (of_nat (16 * ?k) :: u32)) (unat (16 :: u32)) \<le> nfree (sb s2) (blocks s2)"
    unfolding u using free by (simp add: touched_entry A)
  have "\<exists>s3. writei dp ?e (of_nat (16 * ?k)) 16 s2 = Some (int (unat (16 :: u32)), s3)
    \<and> bio_ok s3 \<and> wf_disk (sb s3) (blocks s3) \<and> bc.room 2 s3 \<and> file_ok dp s3
    \<and> contents dp s3 = blit (unat (of_nat (16 * ?k) :: u32)) (take (unat (16 :: u32)) ?e) (contents dp s2)
    \<and> i_type (icache s3 dp) = i_type (icache s2 dp) \<and> (\<forall>q. q \<noteq> dp \<longrightarrow> icache s3 q = icache s2 q)
    \<and> (\<forall>q. file_ok q s2 \<longrightarrow> disjoint_files dp q s2 \<longrightarrow> i_inum (icache s2 q) \<noteq> i_inum (icache s2 dp) \<longrightarrow> q \<noteq> dp \<longrightarrow>
       contents q s3 = contents q s2 \<and> file_ok q s3)"
    by (rule writei_contents[OF d2(1-4,8) le room2 len2 free2]) blast
  then obtain s3 where s3: "writei dp ?e (of_nat (16 * ?k)) 16 s2 = Some (int (unat (16 :: u32)), s3)"
    "bio_ok s3" "wf_disk (sb s3) (blocks s3)" "bc.room 2 s3" "file_ok dp s3"
    "contents dp s3 = blit (unat (of_nat (16 * ?k) :: u32)) (take (unat (16 :: u32)) ?e) (contents dp s2)"
    "i_type (icache s3 dp) = i_type (icache s2 dp)" "\<forall>q. q \<noteq> dp \<longrightarrow> icache s3 q = icache s2 q"
    "\<forall>q. file_ok q s2 \<longrightarrow> disjoint_files dp q s2 \<longrightarrow> i_inum (icache s2 q) \<noteq> i_inum (icache s2 dp) \<longrightarrow> q \<noteq> dp \<longrightarrow>
       contents q s3 = contents q s2 \<and> file_ok q s3"
    by blast
  have c3: "contents dp s3 = linked name (ucast inum) ?c"
    using s3(6) by (simp only: u q(2)) (simp add: linked_def length_new_entry)
  have "unat (i_size (icache s3 dp)) = length (contents dp s3)" by simp
  moreover have "16 dvd length (contents dp s3)"
    using linked_entries(4)[where c = ?c and name = name and inum = "ucast inum"] d(6) by (simp add: c3 max_def)
  ultimately have "dir_ok dp s3" using s3(2-5,7) d(5) by (simp add: dir_ok_def A)
  moreover have "dirlink dp name inum s = Some (0, s3)"
    using s1(2) s2(2) s3(1) strncpy_ok[of DIRSIZ "replicate DIRSIZ 0" name] nm by (simp add: dirlink_def name_ok_def)
  moreover have "icache s3 q = icache s q" if "q \<noteq> dp" for q using s3(8) that by (simp add: A)
  moreover have "contents q s3 = contents q s \<and> file_ok q s3"
    if "file_ok q s" "disjoint_files dp q s" "i_inum (icache s q) \<noteq> i_inum (icache s dp)" "q \<noteq> dp" for q
    using s3(9)[rule_format, of q] that quiet_step(1,2)[OF s2(1), of q] by (simp add: disjoint_files_def A)
  ultimately show ?thesis using c3 by (intro that)
qed

section \<open>Path elements\<close>

text \<open>The elements of a path: what stands between slashes, each cut to \<open>DIRSIZ\<close> bytes.\<close>

function path_elems :: "u8 list \<Rightarrow> u8 list list" where
  "path_elems [] = []"
| "path_elems (c # cs) =
     (if c = 47 then path_elems cs
      else (c # takeWhile (\<lambda>x. x \<noteq> 47) cs) # path_elems (dropWhile (\<lambda>x. x \<noteq> 47) cs))"
  by pat_completeness auto
termination by (relation "measure length") (auto simp: le_imp_less_Suc length_dropWhile_le)

lemma skip_slashes_str:
  assumes "0 \<notin> set p"
  shows "skip_slashes (p @ 0 # r) = Some (dropWhile (\<lambda>x. x = 47) p @ 0 # r)"
  using assms by (induction p) auto

lemma scan_elem_str:
  assumes "0 \<notin> set p"
  shows "scan_elem (p @ 0 # r) = Some (takeWhile (\<lambda>x. x \<noteq> 47) p, dropWhile (\<lambda>x. x \<noteq> 47) p @ 0 # r)"
  using assms by (induction p) auto

lemma path_elems_dropWhile: "path_elems (dropWhile (\<lambda>x. x = 47) p) = path_elems p"
  by (induction p) auto

lemma path_elems_Nil_iff: "path_elems p = [] \<longleftrightarrow> dropWhile (\<lambda>x. x = 47) p = []"
  by (induction p) auto

text \<open>\<open>skipelem\<close> takes the first element off the path and leaves it in the name buffer, zero-terminated if it is shorter
  than the buffer, cut off if it is not.\<close>

lemma skipelem_ok:
  assumes p: "0 \<notin> set p" and nb: "length name = DIRSIZ"
  shows "path_elems p = [] \<Longrightarrow> skipelem (p @ 0 # r) name = Some None"
    and "path_elems p = e # es \<Longrightarrow> \<exists>p' name'. skipelem (p @ 0 # r) name = Some (Some (p' @ 0 # r, name'))
      \<and> 0 \<notin> set p' \<and> path_elems p' = es \<and> length name' = DIRSIZ \<and> str_of name' = take DIRSIZ e \<and> 0 \<notin> set e
      \<and> (p' = [] \<or> hd p' \<noteq> 47) \<and> (p' = [] \<longleftrightarrow> es = []) \<and> length p' < length p"
proof -
  let ?q = "dropWhile (\<lambda>x. x = 47) p"
  have q0: "0 \<notin> set ?q" using p by (auto dest: set_dropWhileD)
  note sk = skip_slashes_str[OF p, of r]
  show "skipelem (p @ 0 # r) name = Some None" if "path_elems p = []"
  proof -
    have "?q = []" using that path_elems_Nil_iff by blast
    then show ?thesis unfolding skipelem_def sk by (simp only: append_Nil) simp
  qed
  assume es: "path_elems p = e # es"
  then obtain c cs where q: "?q = c # cs" using path_elems_Nil_iff[of p] by (cases ?q) auto
  have c: "c \<noteq> 47" "c \<noteq> 0" using q q0 hd_dropWhile[of "\<lambda>x. x = 47" p] by (auto simp: q)
  have pe: "path_elems ?q = e # es" using es path_elems_dropWhile by simp
  then have e: "e = takeWhile (\<lambda>x. x \<noteq> 47) ?q" "es = path_elems (dropWhile (\<lambda>x. x \<noteq> 47) ?q)"
    using c by (simp_all add: q)
  have e': "e = c # takeWhile (\<lambda>x. x \<noteq> 47) cs" using e(1) c by (simp add: q)
  let ?d = "dropWhile (\<lambda>x. x \<noteq> 47) ?q"
  let ?p' = "dropWhile (\<lambda>x. x = 47) ?d"
  have d0: "0 \<notin> set ?d" using q0 by (auto dest: set_dropWhileD)
  have e0: "0 \<notin> set e" using q0 e(1) by (auto dest: set_takeWhileD)
  define name' where "name' = (if length e \<ge> DIRSIZ then blit 0 (take DIRSIZ e) name else blit 0 (e @ [0]) name)"
  have n': "length name' = DIRSIZ" using nb by (simp add: name'_def length_blit)
  have "str_of name' = take DIRSIZ e"
  proof (cases "length e \<ge> DIRSIZ")
    case True
    then have "name' = take DIRSIZ e" using nb by (simp add: name'_def blit_def)
    moreover have "0 \<notin> set (take DIRSIZ e)" using e0 by (meson in_set_takeD)
    ultimately show ?thesis by (simp add: str_of_def takeWhile_eq_all_conv) (metis e0 in_set_takeD)
  next
    case False
    then show ?thesis using str_of_append[OF e0] by (simp add: name'_def blit_def)
  qed
  moreover have "skipelem (p @ 0 # r) name = Some (Some (?p' @ 0 # r, name'))"
    using sk scan_elem_str[OF q0, of r] skip_slashes_str[OF d0, of r] c nb
    by (simp add: skipelem_def name'_def q e')
  moreover have "0 \<notin> set ?p'" using d0 by (auto dest: set_dropWhileD)
  moreover have "path_elems ?p' = es" using e(2) path_elems_dropWhile by simp
  moreover have "?p' = [] \<or> hd ?p' \<noteq> 47" using hd_dropWhile[of "\<lambda>x. x = 47" ?d] by auto
  moreover have "?p' = [] \<longleftrightarrow> es = []" using path_elems_Nil_iff[of ?d] e(2) by simp
  moreover have "length ?p' < length p"
  proof -
    have "length ?d < length ?q" using c by (simp add: q) (meson length_dropWhile_le less_Suc_eq_le)
    then show ?thesis using length_dropWhile_le[of "\<lambda>x. x = 47" ?d] length_dropWhile_le[of "\<lambda>x. x = 47" p] by linarith
  qed
  ultimately show "\<exists>p' name'. skipelem (p @ 0 # r) name = Some (Some (p' @ 0 # r, name'))
      \<and> 0 \<notin> set p' \<and> path_elems p' = es \<and> length name' = DIRSIZ \<and> str_of name' = take DIRSIZ e \<and> 0 \<notin> set e
      \<and> (p' = [] \<or> hd p' \<noteq> 47) \<and> (p' = [] \<longleftrightarrow> es = []) \<and> length p' < length p"
    using n' e0 by blast
qed

end
