(* ===== verification/File.thy ===== *)
theory File
  imports Dir
begin

text \<open>
  fs/file.c: the table of open files \<open>ftable\<close>, between the descriptors of a process and the inodes. An
  open file is an index into the table; the pointer \<open>ip\<close> is an index into the inode cache or null, and
  following a null pointer is \<open>None\<close>. The offset is what makes successive reads and writes of one
  open file continue each other. \<open>fileinit\<close> does nothing and has no definition.
\<close>

unbundle bit_operations_syntax

datatype ftype = FD_NONE | FD_PIPE | FD_INODE

record open_file =
  f_type :: ftype
  f_ref :: int
  f_readable :: bool
  f_writable :: bool
  f_ip :: "nat option"
  f_off :: u32

definition NFILE :: nat where "NFILE = 100"
definition NOFILE :: nat where "NOFILE = 16"
definition MAXOPBLOCKS :: nat where "MAXOPBLOCKS = 10"

record ftab = fs +
  ftable :: "nat \<Rightarrow> open_file"

definition upd_file :: "nat \<Rightarrow> (open_file \<Rightarrow> open_file) \<Rightarrow> 'a ftab_scheme \<Rightarrow> 'a ftab_scheme" where
  "upd_file f g s = s\<lparr>ftable := (ftable s)(f := g (ftable s f))\<rparr>"

section \<open>Operations\<close>

definition filealloc :: "'a ftab_scheme \<Rightarrow> nat option \<times> 'a ftab_scheme" where
  "filealloc s =
     (case find (\<lambda>f. f_ref (ftable s f) = 0) [0..<NFILE] of
        Some f \<Rightarrow> (Some f, upd_file f (\<lambda>x. x\<lparr>f_ref := 1\<rparr>) s)
      | None \<Rightarrow> (None, s))"

definition filedup :: "nat \<Rightarrow> 'a ftab_scheme \<Rightarrow> nat \<times> 'a ftab_scheme" where
  "filedup f s = (f, upd_file f (\<lambda>x. x\<lparr>f_ref := f_ref x + 1\<rparr>) s)"

definition fileclose :: "nat \<Rightarrow> 'a ftab_scheme \<Rightarrow> 'a ftab_scheme option" where
  "fileclose f s =
     (let s1 = upd_file f (\<lambda>x. x\<lparr>f_ref := f_ref x - 1\<rparr>) s
      in if f_ref (ftable s1 f) > 0 then Some s1
      else let ff = ftable s1 f;
               s2 = upd_file f (\<lambda>x. x\<lparr>f_ref := 0, f_type := FD_NONE\<rparr>) s1
           in if f_type ff = FD_INODE then Option.bind (f_ip ff) (\<lambda>ip. iput ip s2) else Some s2)"

definition filestat :: "nat \<Rightarrow> 'a ftab_scheme \<Rightarrow> (int \<times> stat option \<times> 'a ftab_scheme) option" where
  "filestat f s =
     (if f_type (ftable s f) = FD_INODE
      then do {
        ip \<leftarrow> f_ip (ftable s f);
        s1 \<leftarrow> ilock ip s;
        Some (0, Some (stati ip s1), iunlock ip s1)
      }
      else Some (- 1, None, s))"

definition fileread :: "nat \<Rightarrow> u8 list \<Rightarrow> int \<Rightarrow> 'a ftab_scheme \<Rightarrow> (int \<times> u8 list \<times> 'a ftab_scheme) option" where
  "fileread f addr n s =
     (if \<not> f_readable (ftable s f) then Some (- 1, addr, s)
      else if f_type (ftable s f) = FD_INODE
      then do {
        ip \<leftarrow> f_ip (ftable s f);
        s1 \<leftarrow> ilock ip s;
        (r, addr', s2) \<leftarrow> readi ip addr (f_off (ftable s1 f)) (word_of_int n) s1;
        let s3 = (if r > 0 then upd_file f (\<lambda>x. x\<lparr>f_off := f_off x + word_of_int r\<rparr>) s2 else s2);
        Some (r, addr', iunlock ip s3)
      }
      else Some (- 1, addr, kprint ''fileread'' s))"

text \<open>The largest piece that \<open>filewrite\<close> hands to \<open>writei\<close>, in bytes; and its loop over the pieces, which would not end if a
  write returned 0.\<close>

definition max_write :: int where
  "max_write = (int MAXOPBLOCKS - 1 - 1 - 2) div 2 * 512"

partial_function (option) filewrite_loop ::
    "nat \<Rightarrow> u8 list \<Rightarrow> int \<Rightarrow> int \<Rightarrow> 'a ftab_scheme \<Rightarrow> (int \<times> 'a ftab_scheme) option" where
  [code]: "filewrite_loop f addr n i s =
     (if i < n
      then let n1 = (if n - i > max_write then max_write else n - i)
           in Option.bind (f_ip (ftable s f)) (\<lambda>ip.
              Option.bind (ilock ip s) (\<lambda>s1.
              Option.bind (writei ip (drop (nat i) addr) (f_off (ftable s1 f)) (word_of_int n1) s1) (\<lambda>(r, s2).
                let s3 = (if r > 0 then upd_file f (\<lambda>x. x\<lparr>f_off := f_off x + word_of_int r\<rparr>) s2 else s2);
                    s4 = iunlock ip s3
                in if r < 0 then Some (i, s4)
                   else filewrite_loop f addr n (i + r) (if r \<noteq> n1 then kprint ''short filewrite'' s4 else s4))))
      else Some (i, s))"

definition filewrite :: "nat \<Rightarrow> u8 list \<Rightarrow> int \<Rightarrow> 'a ftab_scheme \<Rightarrow> (int \<times> 'a ftab_scheme) option" where
  "filewrite f addr n s =
     (if \<not> f_writable (ftable s f) then Some (- 1, s)
      else if f_type (ftable s f) = FD_INODE
      then do { (i, s') \<leftarrow> filewrite_loop f addr n 0 s; Some (if i = n then n else - 1, s') }
      else Some (- 1, kprint ''filewrite'' s))"

section \<open>The table and the layers below\<close>

lemma ftable_more: "fs.more s' = fs.more (s :: 'a ftab_scheme) \<Longrightarrow> ftable s' = ftable s \<and> ftab.more s' = ftab.more s"
  by (cases s; cases s') simp

lemma ftable_upd_file [simp]: "ftable (upd_file f g s) = (ftable s)(f := g (ftable s f))"
  by (simp add: upd_file_def)

lemma upd_file_fs [simp, frame_simps]:
  "bio_ok (upd_file f g s) = bio_ok s" "pins (upd_file f g s) = pins s" "bkey (upd_file f g s) = bkey s"
  "blocks (upd_file f g s) = blocks s" "sb (upd_file f g s) = sb s" "icache (upd_file f g s) = icache s"
  "devsw (upd_file f g s) = devsw s" "ftab.more (upd_file f g s) = ftab.more s"
  by (simp_all add: upd_file_def bio_ok_def env_ok_def ata_live_def ata_clean_def ring_def nx_eta pv_eta buf_ok_def
      pins_def bkey_def blocks_def fun_eq_iff)

lemma upd_file_room [simp, frame_simps]: "bc.room k (upd_file f g s) = bc.room k s"
  by (simp add: bc.room_def)

lemma upd_file_file [simp, frame_simps]:
  "file_ok ip (upd_file f g s) = file_ok ip s" "contents ip (upd_file f g s) = contents ip s"
  "disjoint_files p q (upd_file f g s) = disjoint_files p q s"
  by (simp_all add: file_ok_def contents_def disjoint_files_def)

lemma iunlock_valid: "i_ref (icache s ip) \<ge> 1 \<Longrightarrow> iunlock ip s = s"
  by (simp add: iunlock_def)

text \<open>Allocation and release of table entries.\<close>

lemma filealloc_some:
  assumes "filealloc s = (Some f, s')"
  shows "f < NFILE \<and> f_ref (ftable s f) = 0 \<and> s' = upd_file f (\<lambda>x. x\<lparr>f_ref := 1\<rparr>) s"
  using assms by (auto simp: filealloc_def split: option.splits dest: findSomeD)

lemma filealloc_none: "fst (filealloc s) = None \<longleftrightarrow> (\<forall>f<NFILE. f_ref (ftable s f) \<noteq> 0)"
  by (auto simp: filealloc_def find_None_iff split: option.splits dest!: findSomeD)

text \<open>An open file on a cached inode.\<close>

definition opened :: "nat \<Rightarrow> nat \<Rightarrow> 'a ftab_scheme \<Rightarrow> bool" where
  "opened f ip s \<longleftrightarrow> f_type (ftable s f) = FD_INODE \<and> f_ip (ftable s f) = Some ip
     \<and> i_ref (icache s ip) \<ge> 1 \<and> i_valid (icache s ip)"

lemma openedD:
  assumes "opened f ip s"
  shows "f_type (ftable s f) = FD_INODE" "f_ip (ftable s f) = Some ip" "ilock ip s = Some s" "i_ref (icache s ip) \<ge> 1"
    "i_valid (icache s ip)"
  using assms by (simp_all add: opened_def ilock_valid)

lemma fileread_ok:
  assumes o: "opened f ip s" and rd: "f_readable (ftable s f)"
    and ok: "bio_ok s" "wf_disk (sb s) (blocks s)" "file_ok ip s" "bc.room 2 s" "i_type (icache s ip) \<noteq> T_DEV"
    and off: "f_off (ftable s f) \<le> i_size (icache s ip)" and n: "n \<le> length addr" "n < 2 ^ 31"
  defines "d \<equiv> take n (drop (unat (f_off (ftable s f))) (contents ip s))"
  obtains s' where "fileread f addr (int n) s = Some (int (length d), blit 0 d addr, s')"
    "ftable s' = (ftable s)(f := (ftable s f)\<lparr>f_off := f_off (ftable s f) + of_nat (length d)\<rparr>)"
    "bio_ok s'" "blocks s' = blocks s" "sb s' = sb s" "icache s' = icache s" "devsw s' = devsw s"
    "\<And>k. bc.room k s' = bc.room k s" "ftab.more s' = ftab.more s"
proof -
  note O = openedD[OF o]
  let ?off = "f_off (ftable s f)" and ?n = "of_nat n :: u32"
  have un: "unat ?n = n" using n(2) by (simp add: unat_of_nat_u32)
  have "unat ?off \<le> 71680" using off file_okD(3)[OF ok(3)] by (simp add: word_le_nat_alt fs_consts)
  then have nw: "?off \<le> ?off + ?n" using n(2) un
    by (intro no_olen_add_nat[THEN iffD2]) simp
  obtain s1 where r: "readi ip addr ?off ?n s = Some (int (length d), blit 0 d addr, s1)" "advances s (blocks s) (icache s) s1"
    using readi_ok[OF ok off nw, of addr] n(1) unfolding un d_def by blast
  note A = advancesD[OF r(2)]
  have F: "ftable s1 = ftable s" "ftab.more s1 = ftab.more s" using ftable_more[OF A(7)] by simp_all
  let ?s2 = "if int (length d) > 0 then upd_file f (\<lambda>x. x\<lparr>f_off := f_off x + word_of_int (int (length d))\<rparr>) s1 else s1"
  have I: "iunlock ip ?s2 = ?s2" using O(4) by (intro iunlock_valid) (simp add: A)
  have e: "fileread f addr (int n) s = Some (int (length d), blit 0 d addr, ?s2)"
    using rd O(1-3) I by (simp add: fileread_def r(1) Let_def del: of_nat_0_less_iff split del: if_split)
  have t: "ftable ?s2 = (ftable s)(f := (ftable s f)\<lparr>f_off := ?off + of_nat (length d)\<rparr>)"
    by (auto simp: F)
  show ?thesis by (rule that[OF e t]) (simp_all add: A F)
qed

text \<open>Two writes in a row are one write.\<close>

lemma blit_append:
  assumes "o1 \<le> length c" "length xs = m"
  shows "blit (o1 + m) ys (blit o1 xs c) = blit o1 (xs @ ys) c"
proof -
  have "take (o1 + m) (blit o1 xs c) = take o1 c @ xs" using assms by (simp add: blit_def)
  moreover have "drop (o1 + m + length ys) (blit o1 xs c) = drop (o1 + (m + length ys)) c"
    using assms by (simp add: blit_def ac_simps)
  ultimately show ?thesis using assms(2) by (simp add: blit_def)
qed

lemma touched_chunk: "m \<le> 1536 \<Longrightarrow> touched off m \<le> 4"
proof -
  assume m: "m \<le> 1536"
  have "off + m - 1 \<le> off + 1535" using m by simp
  then have "(off + m - 1) div 512 \<le> (off + 3 * 512) div 512" by (intro div_le_mono) simp
  also have "\<dots> = off div 512 + 3" by simp
  finally show ?thesis by (auto simp: touched_def BSIZE_def)
qed

text \<open>What a write into an open file leaves: the file it wrote, the offset behind the bytes, everything else.\<close>

definition wrote :: "nat \<Rightarrow> nat \<Rightarrow> u8 list \<Rightarrow> 'a ftab_scheme \<Rightarrow> 'a ftab_scheme \<Rightarrow> bool" where
  "wrote f ip d s s' \<longleftrightarrow> bio_ok s' \<and> wf_disk (sb s') (blocks s') \<and> file_ok ip s' \<and> bc.room 2 s' \<and> sb s' = sb s
     \<and> contents ip s' = blit (unat (f_off (ftable s f))) d (contents ip s)
     \<and> ftable s' = (ftable s)(f := (ftable s f)\<lparr>f_off := f_off (ftable s f) + of_nat (length d)\<rparr>)
     \<and> icache s' ip = (icache s ip)\<lparr>i_addrs := i_addrs (icache s' ip), i_size := i_size (icache s' ip)\<rparr>
     \<and> (\<forall>q. q \<noteq> ip \<longrightarrow> icache s' q = icache s q) \<and> devsw s' = devsw s \<and> ftab.more s' = ftab.more s"

lemma wroteD:
  assumes "wrote f ip d s s'"
  shows "bio_ok s'" "wf_disk (sb s') (blocks s')" "file_ok ip s'" "bc.room 2 s'" "sb s' = sb s"
    "contents ip s' = blit (unat (f_off (ftable s f))) d (contents ip s)"
    "ftable s' = (ftable s)(f := (ftable s f)\<lparr>f_off := f_off (ftable s f) + of_nat (length d)\<rparr>)"
    "i_ref (icache s' ip) = i_ref (icache s ip)" "i_valid (icache s' ip) = i_valid (icache s ip)"
    "i_type (icache s' ip) = i_type (icache s ip)" "i_inum (icache s' ip) = i_inum (icache s ip)"
    "q \<noteq> ip \<Longrightarrow> icache s' q = icache s q" "devsw s' = devsw s" "ftab.more s' = ftab.more s"
proof -
  have x: "icache s' ip = (icache s ip)\<lparr>i_addrs := i_addrs (icache s' ip), i_size := i_size (icache s' ip)\<rparr>"
    using assms unfolding wrote_def by blast
  show "i_ref (icache s' ip) = i_ref (icache s ip)" "i_valid (icache s' ip) = i_valid (icache s ip)"
    "i_type (icache s' ip) = i_type (icache s ip)" "i_inum (icache s' ip) = i_inum (icache s ip)"
    by (subst x, simp)+
qed (use assms in \<open>unfold wrote_def, blast+\<close>)

lemma wrote_opened: "wrote f ip d s s' \<Longrightarrow> opened f ip s \<Longrightarrow> opened f ip s'"
  using wroteD[of f ip d s s'] by (simp add: opened_def)

lemma wrote_trans:
  assumes 1: "wrote f ip d s t" and 2: "wrote f ip e t u" and off: "f_off (ftable s f) \<le> i_size (icache s ip)"
    and nw: "unat (f_off (ftable s f)) + length d < 2 ^ 32"
  shows "wrote f ip (d @ e) s u"
proof -
  note A = wroteD[OF 1] and B = wroteD[OF 2]
  have x: "icache t ip = (icache s ip)\<lparr>i_addrs := i_addrs (icache t ip), i_size := i_size (icache t ip)\<rparr>"
    and y: "icache u ip = (icache t ip)\<lparr>i_addrs := i_addrs (icache u ip), i_size := i_size (icache u ip)\<rparr>"
    using 1 2 unfolding wrote_def by blast+
  have z: "icache u ip = (icache s ip)\<lparr>i_addrs := i_addrs (icache u ip), i_size := i_size (icache u ip)\<rparr>"
    by (subst y, subst x) simp
  have u: "unat (f_off (ftable t f)) = unat (f_off (ftable s f)) + length d"
    using nw by (simp add: A(7) unat_word_ariths unat_of_nat)
  have "contents ip u = blit (unat (f_off (ftable s f))) (d @ e) (contents ip s)"
    unfolding B(6) A(6) u using off by (intro blit_append) (simp_all add: word_le_nat_alt)
  then show ?thesis using A B z unfolding wrote_def by (simp add: add.assoc)
qed

lemma filewrite_chunk:
  assumes o: "opened f ip s" and ok: "bio_ok s" "wf_disk (sb s) (blocks s)" "file_ok ip s" "bc.room 2 s" "i_type (icache s ip) \<noteq> T_DEV"
    and off: "f_off (ftable s f) \<le> i_size (icache s ip)" and m: "0 < m" "m \<le> 1536" "m \<le> length src"
    and max: "unat (f_off (ftable s f)) + m \<le> MAXFILE * BSIZE" and free: "8 \<le> nfree (sb s) (blocks s)"
  obtains s1 where "writei ip src (f_off (ftable s f)) (of_nat m) s = Some (int m, s1)" "ftable s1 = ftable s"
    "wrote f ip (take m src) s (upd_file f (\<lambda>x. x\<lparr>f_off := f_off x + of_nat m\<rparr>) s1)"
    "nfree (sb s) (blocks s) \<le> nfree (sb s1) (blocks s1) + 8"
    "f_off (ftable s f) + of_nat m \<le> i_size (icache s1 ip)" "i_ref (icache s1 ip) = i_ref (icache s ip)"
    "\<And>q. file_ok q s \<Longrightarrow> disjoint_files ip q s \<Longrightarrow> i_inum (icache s q) \<noteq> i_inum (icache s ip) \<Longrightarrow> q \<noteq> ip \<Longrightarrow>
       contents q s1 = contents q s \<and> file_ok q s1"
proof -
  let ?off = "f_off (ftable s f)" and ?m = "of_nat m :: u32"
  have um: "unat ?m = m" using m(2) by (simp add: unat_of_nat_u32)
  have mx: "unat ?off + m \<le> 71680" using max by (simp add: fs_consts)
  have nw: "?off \<le> ?off + ?m" using mx um by (intro no_olen_add_nat[THEN iffD2]) simp
  have tc: "touched (unat ?off) m \<le> 4" using m(2) by (rule touched_chunk)
  have fr: "2 * touched (unat ?off) (unat ?m) \<le> nfree (sb s) (blocks s)" unfolding um using tc free by simp
  have pre: "unat ?off + unat ?m \<le> MAXFILE * BSIZE" "unat ?m \<le> length src" unfolding um using max m(3) by simp_all
  have "\<exists>s1. writei ip src ?off ?m s = Some (int (unat ?m), s1) \<and> bio_ok s1 \<and> wf_disk (sb s1) (blocks s1) \<and> bc.room 2 s1 \<and> sb s1 = sb s
    \<and> file_ok ip s1 \<and> contents ip s1 = blit (unat ?off) (take (unat ?m) src) (contents ip s)
    \<and> i_size (icache s1 ip) = max (i_size (icache s ip)) (?off + ?m) \<and> (\<forall>q. q \<noteq> ip \<longrightarrow> icache s1 q = icache s q)
    \<and> (\<forall>q. file_ok q s \<longrightarrow> disjoint_files ip q s \<longrightarrow> i_inum (icache s q) \<noteq> i_inum (icache s ip) \<longrightarrow> q \<noteq> ip \<longrightarrow>
       contents q s1 = contents q s \<and> file_ok q s1)
    \<and> nfree (sb s) (blocks s) \<le> nfree (sb s1) (blocks s1) + 2 * touched (unat ?off) (unat ?m)
    \<and> icache s1 ip = (icache s ip)\<lparr>i_addrs := i_addrs (icache s1 ip), i_size := max (i_size (icache s ip)) (?off + ?m)\<rparr>
    \<and> devsw s1 = devsw s \<and> fs.more s1 = fs.more s"
    by (rule writei_contents[OF ok off nw pre fr]) blast
  then obtain s1 where w: "writei ip src ?off ?m s = Some (int m, s1)" "bio_ok s1" "wf_disk (sb s1) (blocks s1)" "bc.room 2 s1" "sb s1 = sb s"
    "file_ok ip s1" "contents ip s1 = blit (unat ?off) (take m src) (contents ip s)"
    "i_size (icache s1 ip) = max (i_size (icache s ip)) (?off + ?m)" "\<forall>q. q \<noteq> ip \<longrightarrow> icache s1 q = icache s q"
    "\<forall>q. file_ok q s \<longrightarrow> disjoint_files ip q s \<longrightarrow> i_inum (icache s q) \<noteq> i_inum (icache s ip) \<longrightarrow> q \<noteq> ip \<longrightarrow>
       contents q s1 = contents q s \<and> file_ok q s1"
    "nfree (sb s) (blocks s) \<le> nfree (sb s1) (blocks s1) + 2 * touched (unat ?off) m"
    "icache s1 ip = (icache s ip)\<lparr>i_addrs := i_addrs (icache s1 ip), i_size := max (i_size (icache s ip)) (?off + ?m)\<rparr>"
    "devsw s1 = devsw s" "fs.more s1 = fs.more s"
    unfolding um by blast
  note F = ftable_more[OF w(14)]
  have x: "icache s1 ip = (icache s ip)\<lparr>i_addrs := i_addrs (icache s1 ip), i_size := i_size (icache s1 ip)\<rparr>"
    using w(12) w(8) by metis
  have wr: "wrote f ip (take m src) s (upd_file f (\<lambda>x. x\<lparr>f_off := f_off x + of_nat m\<rparr>) s1)"
    unfolding wrote_def using w(2-7,9,13) F x m(3) by (simp add: min_def)
  show ?thesis
  proof (rule that[OF w(1) _ wr])
    show "nfree (sb s) (blocks s) \<le> nfree (sb s1) (blocks s1) + 8" using w(11) tc by simp
    show "i_ref (icache s1 ip) = i_ref (icache s ip)" by (subst w(12)) simp
  qed (use F w(8,10) in auto)
qed


text \<open>The loop over the pieces of at most \<open>max_write\<close> bytes amounts to one write. Each piece touches at most four blocks.\<close>

lemma filewrite_loop_ok:
  assumes "opened f ip s" "bio_ok s" "wf_disk (sb s) (blocks s)" "file_ok ip s" "bc.room 2 s" "i_type (icache s ip) \<noteq> T_DEV"
    and "f_off (ftable s f) \<le> i_size (icache s ip)" "i \<le> n" "n \<le> length addr"
    and "unat (f_off (ftable s f)) + (n - i) \<le> MAXFILE * BSIZE" "8 * ((n - i + 1535) div 1536) \<le> nfree (sb s) (blocks s)"
  shows "\<exists>s'. filewrite_loop f addr (int n) (int i) s = Some (int n, s') \<and> wrote f ip (take (n - i) (drop i addr)) s s'"
  using assms
proof (induction "n - i" arbitrary: i s rule: less_induct)
  case less
  note P = less.prems
  show ?case
  proof (cases "i < n")
    case False
    then have "wrote f ip (take (n - i) (drop i addr)) s s" using P unfolding wrote_def by (simp add: blit_def)
    moreover have "filewrite_loop f addr (int n) (int i) s = Some (int n, s)"
      using False P(8) by (subst filewrite_loop.simps) simp
    ultimately show ?thesis by blast
  next
    case True
    let ?off = "f_off (ftable s f)"
    define m where "m = min (n - i) 1536"
    have m: "0 < m" "m \<le> 1536" "i + m \<le> n" "m \<le> n - i" using True by (auto simp: m_def)
    have chunks: "(n - i + 1535) div 1536 = Suc ((n - (i + m) + 1535) div 1536)"
    proof (cases "n - i \<le> 1536")
      case True
      then have "n - i + 1535 = 1536 + (n - i - 1)" "n - i - 1 < 1536" "m = n - i" using \<open>i < n\<close> by (auto simp: m_def)
      then show ?thesis by simp
    next
      case False
      then have "n - i + 1535 = 1536 + (n - (i + m) + 1535)" by (auto simp: m_def)
      then show ?thesis by simp
    qed
    have src: "m \<le> length (drop i addr)" using m(3) P(9) by simp
    have mx: "unat ?off + m \<le> MAXFILE * BSIZE" using P(10) m(4) by simp
    have fr: "8 \<le> nfree (sb s) (blocks s)" using P(11) unfolding chunks by simp
    obtain s1 where c: "writei ip (drop i addr) ?off (of_nat m) s = Some (int m, s1)" "ftable s1 = ftable s"
      "wrote f ip (take m (drop i addr)) s (upd_file f (\<lambda>x. x\<lparr>f_off := f_off x + of_nat m\<rparr>) s1)"
      "nfree (sb s) (blocks s) \<le> nfree (sb s1) (blocks s1) + 8"
      "?off + of_nat m \<le> i_size (icache s1 ip)" "i_ref (icache s1 ip) = i_ref (icache s ip)"
      by (rule filewrite_chunk[OF P(1-7) m(1,2) src mx fr]) blast
    let ?s2 = "upd_file f (\<lambda>x. x\<lparr>f_off := f_off x + of_nat m\<rparr>) s1"
    note O = openedD[OF P(1)] and W = wroteD[OF c(3)]
    have n1: "(if int n - int i > max_write then max_write else int n - int i) = int m"
      using True by (auto simp: max_write_def MAXOPBLOCKS_def m_def)
    have I: "iunlock ip ?s2 = ?s2" using O(4) c(6) by (intro iunlock_valid) simp
    have loop: "filewrite_loop f addr (int n) (int i) s = filewrite_loop f addr (int n) (int (i + m)) ?s2"
      using True m(1) O(2,3) c(1) I
      by (subst filewrite_loop.simps) (simp only: n1 Let_def bind.simps prod.case nat_int of_int_of_nat_eq if_True of_nat_0_less_iff of_nat_less_0_iff if_False simp_thms of_nat_less_iff of_nat_add)
    have mx2: "unat ?off + m \<le> 71680" using mx by (simp add: fs_consts)
    have u2: "unat (f_off (ftable ?s2 f)) = unat ?off + m"
      using mx2 by (simp add: c(2) unat_word_ariths unat_of_nat)
    have "\<exists>s'. filewrite_loop f addr (int n) (int (i + m)) ?s2 = Some (int n, s')
      \<and> wrote f ip (take (n - (i + m)) (drop (i + m) addr)) ?s2 s'"
    proof (rule less.hyps)
      show "n - (i + m) < n - i" using m(1) True by simp
      show "opened f ip ?s2" by (rule wrote_opened[OF c(3) P(1)])
      show "bio_ok ?s2" "wf_disk (sb ?s2) (blocks ?s2)" "file_ok ip ?s2" "bc.room 2 ?s2" "i_type (icache ?s2 ip) \<noteq> T_DEV"
        using W(1-4,10) P(6) by simp_all
      show "f_off (ftable ?s2 f) \<le> i_size (icache ?s2 ip)" using c(5) by (simp add: c(2))
      show "i + m \<le> n" "n \<le> length addr" using m(3) P(9) by simp_all
      show "unat (f_off (ftable ?s2 f)) + (n - (i + m)) \<le> MAXFILE * BSIZE" unfolding u2 using P(10) m by simp
      show "8 * ((n - (i + m) + 1535) div 1536) \<le> nfree (sb ?s2) (blocks ?s2)"
        using P(11) c(4) unfolding chunks by simp
    qed
    then obtain s' where s': "filewrite_loop f addr (int n) (int (i + m)) ?s2 = Some (int n, s')"
      "wrote f ip (take (n - (i + m)) (drop (i + m) addr)) ?s2 s'" by blast
    have "wrote f ip (take m (drop i addr) @ take (n - (i + m)) (drop (i + m) addr)) s s'"
      using mx2 by (intro wrote_trans[OF c(3) s'(2) P(7)]) simp
    moreover have "take m (drop i addr) @ take (n - (i + m)) (drop (i + m) addr) = take (n - i) (drop i addr)"
    proof -
      have "n - i = m + (n - (i + m))" using m by simp
      then show ?thesis by (metis take_add drop_drop add.commute)
    qed
    ultimately show ?thesis using loop s'(1) by auto
  qed
qed

lemma filewrite_ok:
  assumes "opened f ip s" "f_writable (ftable s f)" "bio_ok s" "wf_disk (sb s) (blocks s)" "file_ok ip s" "bc.room 2 s" "i_type (icache s ip) \<noteq> T_DEV"
    and "f_off (ftable s f) \<le> i_size (icache s ip)" "n \<le> length addr"
    and "unat (f_off (ftable s f)) + n \<le> MAXFILE * BSIZE" "8 * ((n + 1535) div 1536) \<le> nfree (sb s) (blocks s)"
  shows "\<exists>s'. filewrite f addr (int n) s = Some (int n, s') \<and> wrote f ip (take n addr) s s'"
  using filewrite_loop_ok[OF assms(1,3-8), of 0 n addr] assms(2,9-11) openedD(1)[OF assms(1)]
  by (auto simp: filewrite_def)

end
