(* ===== verification/Kalloc.thy ===== *)
theory Kalloc
  imports File
begin

text \<open>
  kernel/kalloc.c: the allocator of physical pages. The free list is threaded through the pages
  themselves: the first four bytes of a free page are the address of the next one. \<open>ram\<close> is memory as
  the kernel reaches it, at kernel virtual addresses (physical address plus \<open>KERNBASE\<close>), byte by byte;
  a 32-bit pointer \<open>p\<close> is the address \<open>unat p\<close>. Also the address macros of include/mmu.h.
\<close>

unbundle bit_operations_syntax

record kmem = ftab +
  ram :: "nat \<Rightarrow> u8"
  freelist :: u32

section \<open>Addresses\<close>

definition PGSIZE :: u32 where "PGSIZE = 4096"
definition KERNBASE :: u32 where "KERNBASE = 0x80000000"
definition PHYSTOP :: u32 where "PHYSTOP = 0xE000000"
definition EXTMEM :: u32 where "EXTMEM = 0x100000"
definition DEVSPACE :: u32 where "DEVSPACE = 0xFE000000"
definition KERNLINK :: u32 where "KERNLINK = 0x80100000"

definition PGROUNDUP :: "u32 \<Rightarrow> u32" where
  "PGROUNDUP sz = (sz + PGSIZE - 1) AND NOT (PGSIZE - 1)"

definition PGROUNDDOWN :: "u32 \<Rightarrow> u32" where
  "PGROUNDDOWN a = a AND NOT (PGSIZE - 1)"

definition V2P :: "u32 \<Rightarrow> u32" where "V2P a = a - KERNBASE"
definition P2V :: "u32 \<Rightarrow> u32" where "P2V a = a + KERNBASE"

text \<open>A 32-bit word in memory.\<close>

definition ld32 :: "(nat \<Rightarrow> u8) \<Rightarrow> nat \<Rightarrow> u32" where
  "ld32 m a = of_le [m a, m (a + 1), m (a + 2), m (a + 3)]"

definition st32 :: "nat \<Rightarrow> u32 \<Rightarrow> (nat \<Rightarrow> u8) \<Rightarrow> nat \<Rightarrow> u8" where
  "st32 a w m = (\<lambda>x. if a \<le> x \<and> x < a + 4 then to_le 4 w ! (x - a) else m x)"

section \<open>Operations\<close>

definition kfree :: "u32 \<Rightarrow> 'a kmem_scheme \<Rightarrow> 'a kmem_scheme" where
  "kfree v s = s\<lparr>ram := st32 (unat v) (freelist s) (memset (unat v) 1 (unat PGSIZE) (ram s)), freelist := v\<rparr>"

definition kalloc :: "'a kmem_scheme \<Rightarrow> u32 \<times> 'a kmem_scheme" where
  "kalloc s = (let r = freelist s in (r, if r \<noteq> 0 then s\<lparr>freelist := ld32 (ram s) (unat r)\<rparr> else s))"

partial_function (option) freerange_loop :: "u32 \<Rightarrow> u32 \<Rightarrow> 'a kmem_scheme \<Rightarrow> 'a kmem_scheme option" where
  [code]: "freerange_loop p vend s =
     (if p + PGSIZE \<le> vend then freerange_loop (p + PGSIZE) vend (kfree p s) else Some s)"

definition freerange :: "u32 \<Rightarrow> u32 \<Rightarrow> 'a kmem_scheme \<Rightarrow> 'a kmem_scheme option" where
  "freerange vstart vend s = freerange_loop (PGROUNDUP vstart) vend s"

definition kinit1 :: "u32 \<Rightarrow> u32 \<Rightarrow> 'a kmem_scheme \<Rightarrow> 'a kmem_scheme option" where
  "kinit1 vstart vend s = freerange vstart vend s"

definition kinit2 :: "u32 \<Rightarrow> u32 \<Rightarrow> 'a kmem_scheme \<Rightarrow> 'a kmem_scheme option" where
  "kinit2 vstart vend s = freerange vstart vend s"

section \<open>Pages\<close>

definition page_al :: "u32 \<Rightarrow> bool" where
  "page_al p \<longleftrightarrow> 4096 dvd unat p"

lemma PGSIZE_mask: "PGSIZE - 1 = mask 12" "unat PGSIZE = 4096"
  by (simp_all add: PGSIZE_def mask_eq_exp_minus_1)

lemma unat_and_not_mask12: "unat (x AND NOT (mask 12) :: u32) = unat x div 4096 * 4096"
proof -
  have "x AND NOT (mask 12) = push_bit 12 (drop_bit 12 x)"
    by (rule bit_word_eqI) (auto simp: bit_simps)
  moreover have x: "unat x < 2 ^ 32" using unsigned_less[of x] by simp
  then have "unat (push_bit 12 (drop_bit 12 x)) = (unat x div 4096 * 4096) mod 2 ^ 32"
    by (simp only: unsigned_push_bit_eq unsigned_drop_bit_eq) (simp add: take_bit_eq_mod push_bit_eq_mult drop_bit_eq_div)
  ultimately have "unat (x AND NOT (mask 12)) = (unat x div 4096 * 4096) mod 2 ^ 32" by simp
  moreover have "unat x div 4096 * 4096 \<le> unat x" by (rule div_times_less_eq_dividend)
  ultimately show ?thesis using x by simp
qed

lemma page_al_PGROUNDUP [simp]: "page_al (PGROUNDUP a)"
  and page_al_PGROUNDDOWN [simp]: "page_al (PGROUNDDOWN a)"
  by (simp_all add: page_al_def PGROUNDUP_def PGROUNDDOWN_def add_diff_eq[symmetric] PGSIZE_mask unat_and_not_mask12)

lemma unat_PGROUNDDOWN: "unat (PGROUNDDOWN a) = unat a div 4096 * 4096"
  by (simp add: PGROUNDDOWN_def PGSIZE_mask unat_and_not_mask12)

lemma unat_PGROUNDUP:
  assumes "unat a \<le> 2 ^ 32 - 4096"
  shows "unat (PGROUNDUP a) = (unat a + 4095) div 4096 * 4096"
proof -
  have "unat (a + 4095) = unat a + 4095" using assms by (simp add: unat_word_ariths)
  moreover have "a + mask 12 = a + 4095" by (simp add: mask_eq_exp_minus_1)
  ultimately show ?thesis
    by (simp only: PGROUNDUP_def add_diff_eq[symmetric] PGSIZE_mask unat_and_not_mask12)
qed

lemma page_al_KERNBASE: "page_al p \<Longrightarrow> page_al (p + KERNBASE)" "page_al p \<Longrightarrow> page_al (p - KERNBASE)"
proof -
  assume p: "page_al p"
  have "(4096::nat) dvd 2 ^ 32" "(4096::nat) dvd unat KERNBASE" by (simp_all add: KERNBASE_def)
  then show a: "page_al (p + KERNBASE)" using p by (simp add: page_al_def unat_word_ariths dvd_mod_iff)
  have "p - KERNBASE = p + KERNBASE" by (simp add: KERNBASE_def)
  then show "page_al (p - KERNBASE)" using a by (simp only:)
qed

lemma page_al_bound: "page_al p \<Longrightarrow> unat p + 4096 \<le> 2 ^ 32"
proof -
  assume "page_al p"
  then obtain k where k: "unat p = 4096 * k" by (auto simp: page_al_def)
  have "unat p < 2 ^ 32" using unsigned_less[of p] by simp
  then show ?thesis using k by simp
qed

text \<open>Two different pages share no byte.\<close>

definition in_page :: "u32 \<Rightarrow> nat \<Rightarrow> bool" where
  "in_page p a \<longleftrightarrow> unat p \<le> a \<and> a < unat p + 4096"

lemma in_page_unique: "page_al p \<Longrightarrow> page_al q \<Longrightarrow> in_page p a \<Longrightarrow> in_page q a \<Longrightarrow> p = q"
proof -
  assume "page_al p" "page_al q" and a: "in_page p a" "in_page q a"
  then obtain j k where jk: "unat p = 4096 * j" "unat q = 4096 * k" unfolding page_al_def by (meson dvdE)
  then have "j = k" using a by (auto simp: in_page_def)
  then show ?thesis using jk by (simp add: word_unat_eq_iff)
qed

lemma in_page_start [simp]: "k < 4096 \<Longrightarrow> in_page p (unat p + k)" "in_page p (unat p)"
  by (simp_all add: in_page_def)

text \<open>The bytes of memory outside one page.\<close>

definition same_outside :: "u32 set \<Rightarrow> (nat \<Rightarrow> u8) \<Rightarrow> (nat \<Rightarrow> u8) \<Rightarrow> bool" where
  "same_outside P m m' \<longleftrightarrow> (\<forall>a. (\<forall>p\<in>P. \<not> in_page p a) \<longrightarrow> m' a = m a)"

lemma same_outside_trans: "same_outside P m m1 \<Longrightarrow> same_outside P m1 m2 \<Longrightarrow> same_outside P m m2"
  by (simp add: same_outside_def)

lemma same_outside_mono: "same_outside P m m' \<Longrightarrow> P \<subseteq> Q \<Longrightarrow> same_outside Q m m'"
  by (auto simp: same_outside_def)

lemma same_outside_refl [simp]: "same_outside P m m"
  by (simp add: same_outside_def)

lemma ld32_cong:
  assumes "\<And>x. a \<le> x \<Longrightarrow> x < a + 4 \<Longrightarrow> m' x = m x"
  shows "ld32 m' a = ld32 m a"
  using assms by (simp add: ld32_def)

lemma ld32_outside:
  assumes "same_outside P m m'" "page_al q" "q \<notin> P" "\<forall>p\<in>P. page_al p" "k \<le> 4092"
  shows "ld32 m' (unat q + k) = ld32 m (unat q + k)"
proof (rule ld32_cong)
  fix x assume "unat q + k \<le> x" "x < unat q + k + 4"
  then have "in_page q x" using assms(5) by (auto simp: in_page_def)
  then have "\<forall>p\<in>P. \<not> in_page p x" using assms(2-4) in_page_unique by blast
  then show "m' x = m x" using assms(1) by (simp add: same_outside_def)
qed

lemma ld32_st32_same [simp]: "ld32 (st32 a w m) a = w"
proof -
  have "[st32 a w m a, st32 a w m (a + 1), st32 a w m (a + 2), st32 a w m (a + 3)] = to_le 4 w"
    by (rule nth_equalityI) (auto simp: st32_def nth_Cons' numeral_eq_Suc less_Suc_eq)
  then show ?thesis by (simp add: ld32_def)
qed

lemma ld32_st32_other: "a + 4 \<le> b \<or> b + 4 \<le> a \<Longrightarrow> ld32 (st32 a w m) b = ld32 m b"
  by (rule ld32_cong) (auto simp: st32_def)

lemma same_outside_st32: "k \<le> 4092 \<Longrightarrow> same_outside {p} m (st32 (unat p + k) w m)"
  by (auto simp: same_outside_def st32_def in_page_def)

lemma same_outside_memset: "same_outside {p} m (memset (unat p) c 4096 m)"
  by (auto simp: same_outside_def memset_apply in_page_def)

lemma ld32_zero: "k \<le> 4092 \<Longrightarrow> ld32 (memset (unat p) 0 4096 m) (unat p + k) = 0"
  by (simp add: ld32_def memset_apply)

section \<open>The free list\<close>

primrec run_list :: "(nat \<Rightarrow> u8) \<Rightarrow> u32 \<Rightarrow> u32 list \<Rightarrow> bool" where
  "run_list m p [] \<longleftrightarrow> p = 0"
| "run_list m p (q # qs) \<longleftrightarrow> p = q \<and> q \<noteq> 0 \<and> page_al q \<and> run_list m (ld32 m (unat q)) qs"

definition free_pages :: "'a kmem_scheme \<Rightarrow> u32 list \<Rightarrow> bool" where
  "free_pages s ps \<longleftrightarrow> run_list (ram s) (freelist s) ps \<and> distinct ps"

lemma run_list_al: "run_list m p ps \<Longrightarrow> q \<in> set ps \<Longrightarrow> page_al q \<and> q \<noteq> 0"
  by (induction ps arbitrary: p) auto

lemma free_pagesD:
  assumes "free_pages s ps" "q \<in> set ps"
  shows "page_al q" "q \<noteq> 0"
  using assms run_list_al by (auto simp: free_pages_def)

lemma run_list_cong:
  assumes "same_outside P m m'" "\<forall>p\<in>P. page_al p" "set ps \<inter> P = {}" "run_list m p ps"
  shows "run_list m' p ps"
  using assms(3,4)
proof (induction ps arbitrary: p)
  case (Cons q qs)
  have "ld32 m' (unat q) = ld32 m (unat q)"
    using ld32_outside[OF assms(1) _ _ assms(2), of q 0] Cons.prems by auto
  then show ?case using Cons by simp
qed simp

lemma free_pages_cong:
  assumes "free_pages s ps" "same_outside P (ram s) (ram s')" "\<forall>p\<in>P. page_al p" "set ps \<inter> P = {}" "freelist s' = freelist s"
  shows "free_pages s' ps"
  using assms run_list_cong[OF assms(2-4)] by (simp add: free_pages_def)

lemma kalloc_empty: "free_pages s [] \<Longrightarrow> kalloc s = (0, s)"
  by (simp add: free_pages_def kalloc_def)

lemma kalloc_cons:
  assumes "free_pages s (p # ps)"
  obtains s' where "kalloc s = (p, s')" "s' = s\<lparr>freelist := ld32 (ram s) (unat p)\<rparr>" "free_pages s' ps"
  using assms by (auto simp: free_pages_def kalloc_def Let_def)

lemma kfree_free:
  assumes "free_pages s ps" "page_al v" "v \<noteq> 0" "v \<notin> set ps"
  shows "free_pages (kfree v s) (v # ps)" "same_outside {v} (ram s) (ram (kfree v s))"
proof -
  have so: "same_outside {v} (ram s) (memset (unat v) 1 4096 (ram s))" by (rule same_outside_memset)
  have "same_outside {v} (memset (unat v) 1 4096 (ram s)) (ram (kfree v s))"
    using same_outside_st32[of 0 v] by (simp add: kfree_def PGSIZE_mask)
  then show o: "same_outside {v} (ram s) (ram (kfree v s))" by (rule same_outside_trans[OF so])
  have "run_list (ram (kfree v s)) (freelist s) ps"
    using assms by (intro run_list_cong[OF o]) (auto simp: free_pages_def)
  then show "free_pages (kfree v s) (v # ps)"
    using assms by (simp add: free_pages_def) (simp add: kfree_def)
qed

lemma kfree_fields [simp, frame_simps]:
  "ftable (kfree v s) = ftable s" "icache (kfree v s) = icache s" "sb (kfree v s) = sb s" "devsw (kfree v s) = devsw s"
  "bufs (kfree v s) = bufs s" "disk (kfree v s) = disk s" "freelist (kfree v s) = v" "kmem.more (kfree v s) = kmem.more s"
  by (simp_all add: kfree_def)

text \<open>Only memory and the free list change; the file system and everything else stay as they are.\<close>

definition mem_step :: "'a kmem_scheme \<Rightarrow> 'a kmem_scheme \<Rightarrow> bool" where
  "mem_step s s' \<longleftrightarrow> s' = s\<lparr>ram := ram s', freelist := freelist s'\<rparr>"

lemma mem_step_refl [simp]: "mem_step s s"
  by (simp add: mem_step_def)

lemma mem_step_trans: "mem_step s t \<Longrightarrow> mem_step t u \<Longrightarrow> mem_step s u"
  unfolding mem_step_def by (cases s; cases t; cases u) simp

lemma mem_step_update [simp]: "mem_step s (s\<lparr>ram := r, freelist := f\<rparr>)" "mem_step s (s\<lparr>ram := r\<rparr>)" "mem_step s (s\<lparr>freelist := f\<rparr>)"
  by (simp_all add: mem_step_def)

lemma mem_step_kfree [simp]: "mem_step s (kfree v s)"
  by (simp add: kfree_def)

lemma mem_step_kalloc: "kalloc s = (p, s') \<Longrightarrow> mem_step s s'"
  by (auto simp: kalloc_def Let_def split: if_splits)

lemma ram_update_bio [simp]:
  "bio_ok (s\<lparr>ram := r\<rparr>) = bio_ok s" "pins (s\<lparr>ram := r\<rparr>) = pins s" "bkey (s\<lparr>ram := r\<rparr>) = bkey s" "blocks (s\<lparr>ram := r\<rparr>) = blocks s"
  "bio_ok (s\<lparr>freelist := f\<rparr>) = bio_ok s" "pins (s\<lparr>freelist := f\<rparr>) = pins s" "bkey (s\<lparr>freelist := f\<rparr>) = bkey s"
  "blocks (s\<lparr>freelist := f\<rparr>) = blocks s"
  by (simp_all add: bio_ok_def env_ok_def ata_live_def ata_clean_def ring_def nx_eta pv_eta buf_ok_def
      pins_def bkey_def blocks_def fun_eq_iff)

lemma mem_stepD:
  assumes "mem_step s s'"
  shows "bio_ok s' = bio_ok s" "pins s' = pins s" "blocks s' = blocks s" "sb s' = sb s" "icache s' = icache s"
    "devsw s' = devsw s" "ftable s' = ftable s" "kmem.more s' = kmem.more s" "bc.room k s' = bc.room k s"
    "file_ok ip s' = file_ok ip s" "contents ip s' = contents ip s"
proof -
  have e: "s' = s\<lparr>ram := ram s', freelist := freelist s'\<rparr>" using assms by (simp only: mem_step_def)
  show "bio_ok s' = bio_ok s" "pins s' = pins s" "blocks s' = blocks s" "sb s' = sb s" "icache s' = icache s"
    "devsw s' = devsw s" "ftable s' = ftable s" "kmem.more s' = kmem.more s"
    by (subst e, simp)+
  then show "bc.room k s' = bc.room k s" "file_ok ip s' = file_ok ip s" "contents ip s' = contents ip s"
    by (simp_all add: bc.room_def file_ok_def contents_def)
qed

text \<open>The pages of a range, in the order they are freed.\<close>

definition page_range :: "u32 \<Rightarrow> nat \<Rightarrow> u32 list" where
  "page_range p n = map (\<lambda>i. p + of_nat (4096 * i)) [0..<n]"

lemma page_range_Suc: "page_range p (Suc n) = p # page_range (p + PGSIZE) n"
proof -
  have "[0..<Suc n] = 0 # map Suc [0..<n]" by (simp add: upt_conv_Cons map_Suc_upt)
  then show ?thesis by (simp add: page_range_def PGSIZE_def algebra_simps)
qed

lemma page_range_member:
  assumes "q \<in> set (page_range p n)" "unat p + 4096 * n \<le> 2 ^ 32"
  shows "unat p \<le> unat q \<and> unat q < unat p + 4096 * n"
proof -
  obtain i where i: "i < n" "q = p + of_nat (4096 * i)" using assms(1) by (auto simp: page_range_def)
  have "unat q = (unat p + 4096 * i) mod 2 ^ 32" unfolding i(2) by (simp add: unat_word_ariths unat_of_nat mod_simps)
  then show ?thesis using i(1) assms(2) by simp
qed

lemma freerange_loop_ok:
  assumes "page_al p" "p \<noteq> 0" "free_pages s ps" "unat p + 4096 * n \<le> unat vend" "unat vend < unat p + 4096 * Suc n"
    and "unat vend < 2 ^ 32 - 4096" "set (page_range p n) \<inter> set ps = {}"
  shows "\<exists>s'. freerange_loop p vend s = Some s' \<and> free_pages s' (rev (page_range p n) @ ps)
    \<and> same_outside (set (page_range p n)) (ram s) (ram s') \<and> mem_step s s'"
  using assms
proof (induction n arbitrary: p s ps)
  case 0
  have "\<not> p + PGSIZE \<le> vend"
  proof -
    have "unat (p + PGSIZE) = unat p + 4096" using 0(4,6) by (simp add: unat_word_ariths PGSIZE_def)
    then show ?thesis using 0(5) by (simp add: word_le_nat_alt)
  qed
  then show ?case using 0 by (subst freerange_loop.simps) (simp add: page_range_def)
next
  case (Suc n)
  have u: "unat (p + PGSIZE) = unat p + 4096" using Suc.prems(4,6) by (simp add: unat_word_ariths PGSIZE_def)
  have le: "p + PGSIZE \<le> vend" using Suc.prems(4) u by (simp add: word_le_nat_alt)
  have pn: "p \<notin> set ps" using Suc.prems(7) by (simp add: page_range_Suc)
  note k = kfree_free[OF Suc.prems(3,1,2) pn]
  have fresh: "p \<notin> set (page_range (p + PGSIZE) n)"
    using page_range_member[of p "p + PGSIZE" n] u Suc.prems(4,6) by auto
  have "\<exists>s'. freerange_loop (p + PGSIZE) vend (kfree p s) = Some s' \<and> free_pages s' (rev (page_range (p + PGSIZE) n) @ p # ps)
    \<and> same_outside (set (page_range (p + PGSIZE) n)) (ram (kfree p s)) (ram s') \<and> mem_step (kfree p s) s'"
  proof (rule Suc.IH)
    have "4096 dvd unat p + 4096" using Suc.prems(1) by (simp add: page_al_def)
    then show "page_al (p + PGSIZE)" by (simp add: page_al_def u)
    have "unat (p + PGSIZE) \<noteq> 0" by (simp add: u)
    then show "p + PGSIZE \<noteq> 0" by (metis unsigned_0)
    show "set (page_range (p + PGSIZE) n) \<inter> set (p # ps) = {}" using Suc.prems(7) fresh by (auto simp: page_range_Suc)
  qed (use k(1) u Suc.prems in simp_all)
  then obtain s' where s': "freerange_loop (p + PGSIZE) vend (kfree p s) = Some s'"
    "free_pages s' (rev (page_range (p + PGSIZE) n) @ p # ps)"
    "same_outside (set (page_range (p + PGSIZE) n)) (ram (kfree p s)) (ram s')" "mem_step (kfree p s) s'" by blast
  have "freerange_loop p vend s = Some s'" using le s'(1) by (subst freerange_loop.simps) simp
  moreover have "same_outside (set (page_range p (Suc n))) (ram s) (ram s')"
    using same_outside_trans[OF same_outside_mono[OF k(2)] same_outside_mono[OF s'(3)]] by (auto simp: page_range_Suc)
  moreover have "mem_step s s'" by (rule mem_step_trans[OF mem_step_kfree s'(4)])
  ultimately show ?case using s'(2) by (auto simp: page_range_Suc)
qed

text \<open>\<open>freerange\<close> hands every whole page between its arguments to the free list, and returns.\<close>

lemma freerange_ok:
  assumes "free_pages s ps" "0 < unat vstart" "unat vstart \<le> 2 ^ 32 - 4096" "unat vend < 2 ^ 32 - 4096"
    and "unat (PGROUNDUP vstart) \<le> unat vend"
  defines "r \<equiv> page_range (PGROUNDUP vstart) ((unat vend - unat (PGROUNDUP vstart)) div 4096)"
  assumes "set r \<inter> set ps = {}"
  shows "\<exists>s'. freerange vstart vend s = Some s' \<and> free_pages s' (rev r @ ps) \<and> same_outside (set r) (ram s) (ram s') \<and> mem_step s s'"
  unfolding freerange_def r_def
proof (rule freerange_loop_ok)
  have "0 < unat (PGROUNDUP vstart)" using assms(2,3) by (simp add: unat_PGROUNDUP)
  then show "PGROUNDUP vstart \<noteq> 0" by auto
  let ?d = "unat vend - unat (PGROUNDUP vstart)"
  have "4096 * (?d div 4096) \<le> ?d" "?d < 4096 * Suc (?d div 4096)" by simp_all
  then show "unat (PGROUNDUP vstart) + 4096 * (?d div 4096) \<le> unat vend" "unat vend < unat (PGROUNDUP vstart) + 4096 * Suc (?d div 4096)"
    using assms(5) by linarith+
qed (use assms in \<open>simp_all add: r_def\<close>)

end
