(* ===== verification/Vm.thy ===== *)
theory Vm
  imports Kalloc
begin

text \<open>
  kernel/vm.c: two-level page tables in memory, the kernel's own mappings, user memory. A page directory is
  the address of its page; an entry of a directory or table is a 32-bit word in \<open>ram\<close>. A null pointer that the
  code goes on to follow is \<open>None\<close>. \<open>data\<close>, the first address of the kernel's data, is set by the linker script and
  is an argument. Segment descriptors and the processor registers they are loaded into (include/mmu.h,
  include/x86.h) are here, too.
\<close>

unbundle bit_operations_syntax

section \<open>Segments and processor state\<close>

record segdesc =
  lim_15_0 :: u16
  base_15_0 :: u16
  base_23_16 :: u8
  seg_type :: "4 word"
  seg_s :: "1 word"
  seg_dpl :: "2 word"
  seg_p :: "1 word"
  lim_19_16 :: "4 word"
  seg_avl :: "1 word"
  seg_rsv1 :: "1 word"
  seg_db :: "1 word"
  seg_g :: "1 word"
  base_31_24 :: u8

definition SEG :: "4 word \<Rightarrow> u32 \<Rightarrow> u32 \<Rightarrow> 2 word \<Rightarrow> segdesc" where
  "SEG type base lim dpl = \<lparr>lim_15_0 = ucast (drop_bit 12 lim AND 0xFFFF), base_15_0 = ucast (base AND 0xFFFF),
     base_23_16 = ucast (drop_bit 16 base AND 0xFF), seg_type = type, seg_s = 1, seg_dpl = dpl, seg_p = 1,
     lim_19_16 = ucast (drop_bit 28 lim), seg_avl = 0, seg_rsv1 = 0, seg_db = 1, seg_g = 1, base_31_24 = ucast (drop_bit 24 base)\<rparr>"

definition SEG16 :: "4 word \<Rightarrow> u32 \<Rightarrow> u32 \<Rightarrow> 2 word \<Rightarrow> segdesc" where
  "SEG16 type base lim dpl = \<lparr>lim_15_0 = ucast (lim AND 0xFFFF), base_15_0 = ucast (base AND 0xFFFF),
     base_23_16 = ucast (drop_bit 16 base AND 0xFF), seg_type = type, seg_s = 1, seg_dpl = dpl, seg_p = 1,
     lim_19_16 = ucast (drop_bit 16 lim), seg_avl = 0, seg_rsv1 = 0, seg_db = 1, seg_g = 0, base_31_24 = ucast (drop_bit 24 base)\<rparr>"

definition SEG_KCODE :: nat where "SEG_KCODE = 1"
definition SEG_KDATA :: nat where "SEG_KDATA = 2"
definition SEG_UCODE :: nat where "SEG_UCODE = 3"
definition SEG_UDATA :: nat where "SEG_UDATA = 4"
definition SEG_TSS :: nat where "SEG_TSS = 5"
definition STA_X :: "4 word" where "STA_X = 8"
definition STA_W :: "4 word" where "STA_W = 2"
definition STA_R :: "4 word" where "STA_R = 2"
definition STS_T32A :: "4 word" where "STS_T32A = 9"
definition DPL_USER :: "2 word" where "DPL_USER = 3"

text \<open>The task state: the fields the kernel writes. \<open>gdtr\<close>, \<open>tr\<close>, \<open>cr3\<close> and the interrupt flag are processor registers.\<close>

record taskstate =
  ts_esp0 :: u32
  ts_ss0 :: u16
  ts_iomb :: u16

record vm = kmem +
  kpgdir :: u32
  gdt :: "nat \<Rightarrow> segdesc"
  ts :: taskstate
  gdtr :: "u16 \<times> u32"
  tr :: u16
  cr3 :: u32
  intr_on :: bool

definition lgdt :: "u32 \<Rightarrow> nat \<Rightarrow> 'a vm_scheme \<Rightarrow> 'a vm_scheme" where
  "lgdt p sz s = s\<lparr>gdtr := (of_nat (sz - 1), push_bit 16 (ucast (ucast (drop_bit 16 p) :: u16)) OR ucast (ucast p :: u16))\<rparr>"

definition ltr :: "u16 \<Rightarrow> 'a vm_scheme \<Rightarrow> 'a vm_scheme" where "ltr sel s = s\<lparr>tr := sel\<rparr>"
definition lcr3 :: "u32 \<Rightarrow> 'a vm_scheme \<Rightarrow> 'a vm_scheme" where "lcr3 v s = s\<lparr>cr3 := v\<rparr>"
definition cli :: "'a vm_scheme \<Rightarrow> 'a vm_scheme" where "cli s = s\<lparr>intr_on := False\<rparr>"
definition sti :: "'a vm_scheme \<Rightarrow> 'a vm_scheme" where "sti s = s\<lparr>intr_on := True\<rparr>"

text \<open>\<open>gdt_addr\<close> is the address of the table, the linker's choice; a descriptor has eight bytes.\<close>

definition seginit :: "u32 \<Rightarrow> 'a vm_scheme \<Rightarrow> 'a vm_scheme" where
  "seginit gdt_addr s =
     lgdt gdt_addr (6 * 8) (s\<lparr>gdt := (gdt s)
       (SEG_KCODE := SEG (STA_X OR STA_R) 0 0xFFFFFFFF 0,
        SEG_KDATA := SEG STA_W 0 0xFFFFFFFF 0,
        SEG_UCODE := SEG (STA_X OR STA_R) 0 0xFFFFFFFF DPL_USER,
        SEG_UDATA := SEG STA_W 0 0xFFFFFFFF DPL_USER)\<rparr>)"

section \<open>Page tables\<close>

definition PTE_P :: u32 where "PTE_P = 1"
definition PTE_W :: u32 where "PTE_W = 2"
definition PTE_U :: u32 where "PTE_U = 4"
definition NPDENTRIES :: nat where "NPDENTRIES = 1024"

definition PDX :: "u32 \<Rightarrow> u32" where "PDX va = drop_bit 22 va AND 0x3FF"
definition PTX :: "u32 \<Rightarrow> u32" where "PTX va = drop_bit 12 va AND 0x3FF"
definition PGADDR :: "u32 \<Rightarrow> u32 \<Rightarrow> u32 \<Rightarrow> u32" where
  "PGADDR d t off = push_bit 22 d OR push_bit 12 t OR off"
definition PTE_ADDR :: "u32 \<Rightarrow> u32" where "PTE_ADDR pte = pte AND NOT 0xFFF"

definition wr_pte :: "u32 \<Rightarrow> u32 \<Rightarrow> 'a kmem_scheme \<Rightarrow> 'a kmem_scheme" where
  "wr_pte p w s = s\<lparr>ram := st32 (unat p) w (ram s)\<rparr>"

definition rd_pte :: "u32 \<Rightarrow> 'a kmem_scheme \<Rightarrow> u32" where
  "rd_pte p s = ld32 (ram s) (unat p)"

definition walkpgdir :: "u32 \<Rightarrow> u32 \<Rightarrow> bool \<Rightarrow> 'a kmem_scheme \<Rightarrow> u32 \<times> 'a kmem_scheme" where
  "walkpgdir pgdir va alloc s =
     (let pde = pgdir + 4 * PDX va
      in if rd_pte pde s AND PTE_P \<noteq> 0
         then (P2V (PTE_ADDR (rd_pte pde s)) + 4 * PTX va, s)
         else if \<not> alloc then (0, s)
         else let (pgtab, s1) = kalloc s
              in if pgtab = 0 then (0, s1)
                 else (pgtab + 4 * PTX va,
                       wr_pte pde (V2P pgtab OR PTE_P OR PTE_W OR PTE_U)
                         (s1\<lparr>ram := memset (unat pgtab) 0 (unat PGSIZE) (ram s1)\<rparr>)))"

partial_function (option) mappages_loop :: "u32 \<Rightarrow> u32 \<Rightarrow> u32 \<Rightarrow> u32 \<Rightarrow> u32 \<Rightarrow> 'a kmem_scheme \<Rightarrow> (int \<times> 'a kmem_scheme) option" where
  [code]: "mappages_loop pgdir a lst pa perm s =
     (case walkpgdir pgdir a True s of (pte, s1) \<Rightarrow>
        if pte = 0 then Some (- 1, s1)
        else let s2 = wr_pte pte (pa OR perm OR PTE_P) s1
             in if a = lst then Some (0, s2)
                else mappages_loop pgdir (a + PGSIZE) lst (pa + PGSIZE) perm s2)"

definition mappages :: "u32 \<Rightarrow> u32 \<Rightarrow> u32 \<Rightarrow> u32 \<Rightarrow> u32 \<Rightarrow> 'a kmem_scheme \<Rightarrow> (int \<times> 'a kmem_scheme) option" where
  "mappages pgdir va sz pa perm s =
     mappages_loop pgdir (PGROUNDDOWN va) (PGROUNDDOWN (va + sz - 1)) pa perm s"

section \<open>User memory\<close>

partial_function (option) deallocuvm_loop :: "u32 \<Rightarrow> u32 \<Rightarrow> u32 \<Rightarrow> 'a kmem_scheme \<Rightarrow> 'a kmem_scheme option" where
  [code]: "deallocuvm_loop pgdir a oldsz s =
     (if a < oldsz
      then (case walkpgdir pgdir a False s of (pte, s1) \<Rightarrow>
        if pte = 0 then deallocuvm_loop pgdir (PGADDR (PDX a + 1) 0 0 - PGSIZE + PGSIZE) oldsz s1
        else if rd_pte pte s1 AND PTE_P \<noteq> 0
        then let pa = PTE_ADDR (rd_pte pte s1);
                 s2 = (if pa = 0 then kprint ''kfree faild'' s1 else s1)
             in deallocuvm_loop pgdir (a + PGSIZE) oldsz (wr_pte pte 0 (kfree (P2V pa) s2))
        else deallocuvm_loop pgdir (a + PGSIZE) oldsz s1)
      else Some s)"

definition deallocuvm :: "u32 \<Rightarrow> u32 \<Rightarrow> u32 \<Rightarrow> 'a kmem_scheme \<Rightarrow> (u32 \<times> 'a kmem_scheme) option" where
  "deallocuvm pgdir oldsz newsz s =
     (if newsz \<ge> oldsz then Some (oldsz, s)
      else do { s' \<leftarrow> deallocuvm_loop pgdir (PGROUNDUP newsz) oldsz s; Some (newsz, s') })"

primrec freevm_loop :: "u32 \<Rightarrow> nat list \<Rightarrow> 'a kmem_scheme \<Rightarrow> 'a kmem_scheme" where
  "freevm_loop pgdir [] s = s"
| "freevm_loop pgdir (i # is) s =
     freevm_loop pgdir is
       (if rd_pte (pgdir + of_nat (4 * i)) s AND PTE_P \<noteq> 0 then kfree (P2V (PTE_ADDR (rd_pte (pgdir + of_nat (4 * i)) s))) s else s)"

definition freevm :: "u32 \<Rightarrow> 'a kmem_scheme \<Rightarrow> 'a kmem_scheme option" where
  "freevm pgdir s = do {
     (sz, s1) \<leftarrow> deallocuvm pgdir KERNBASE 0 s;
     Some (kfree pgdir (freevm_loop pgdir [0..<NPDENTRIES] s1))
   }"

text \<open>The kernel's mappings: virtual address, start and end of the physical range, permissions.\<close>

definition kmap :: "u32 \<Rightarrow> (u32 \<times> u32 \<times> u32 \<times> u32) list" where
  "kmap data = [(KERNBASE, 0, EXTMEM, PTE_W), (KERNLINK, V2P KERNLINK, V2P data, 0),
                (data, V2P data, PHYSTOP, PTE_W), (DEVSPACE, DEVSPACE, 0, PTE_W)]"

primrec setupkvm_loop :: "u32 \<Rightarrow> (u32 \<times> u32 \<times> u32 \<times> u32) list \<Rightarrow> 'a kmem_scheme \<Rightarrow> (u32 \<times> 'a kmem_scheme) option" where
  "setupkvm_loop pgdir [] s = Some (pgdir, s)"
| "setupkvm_loop pgdir (k # ks) s =
     (case k of (virt, phys_start, phys_end, perm) \<Rightarrow> do {
        (r, s1) \<leftarrow> mappages pgdir virt (phys_end - phys_start) phys_start perm s;
        if r < 0 then do { s2 \<leftarrow> freevm pgdir s1; Some (0, s2) } else setupkvm_loop pgdir ks s1
      })"

definition setupkvm :: "u32 \<Rightarrow> 'a kmem_scheme \<Rightarrow> (u32 \<times> 'a kmem_scheme) option" where
  "setupkvm data s =
     (let (pgdir, s1) = kalloc s
      in if pgdir = 0 then Some (0, s1)
         else setupkvm_loop pgdir (kmap data) (s1\<lparr>ram := memset (unat pgdir) 0 (unat PGSIZE) (ram s1)\<rparr>))"

definition switchkvm :: "'a vm_scheme \<Rightarrow> 'a vm_scheme" where
  "switchkvm s = lcr3 (V2P (kpgdir s)) s"

definition kvmalloc :: "u32 \<Rightarrow> 'a vm_scheme \<Rightarrow> 'a vm_scheme option" where
  "kvmalloc data s = do { (d, s1) \<leftarrow> setupkvm data s; Some (switchkvm (s1\<lparr>kpgdir := d\<rparr>)) }"

text \<open>Bytes of a kernel array into memory, and out of it.\<close>

definition load_bytes :: "nat \<Rightarrow> nat \<Rightarrow> (nat \<Rightarrow> u8) \<Rightarrow> u8 list" where
  "load_bytes a n m = map (\<lambda>i. m (a + i)) [0..<n]"

definition store_bytes :: "nat \<Rightarrow> u8 list \<Rightarrow> (nat \<Rightarrow> u8) \<Rightarrow> nat \<Rightarrow> u8" where
  "store_bytes a bs m = (\<lambda>x. if a \<le> x \<and> x < a + length bs then bs ! (x - a) else m x)"

definition inituvm :: "u32 \<Rightarrow> u8 list \<Rightarrow> u32 \<Rightarrow> 'a kmem_scheme \<Rightarrow> 'a kmem_scheme option" where
  "inituvm pgdir init sz s =
     (let s0 = (if sz \<ge> PGSIZE then kprint ''inituvm: more than a page'' s else s);
          (mem, s1) = kalloc s0
      in if mem = 0 \<or> length init < unat sz then None
         else do {
           (r, s2) \<leftarrow> mappages pgdir 0 PGSIZE (V2P mem) (PTE_W OR PTE_U)
             (s1\<lparr>ram := memset (unat mem) 0 (unat PGSIZE) (ram s1)\<rparr>);
           Some (s2\<lparr>ram := store_bytes (unat mem) (take (unat sz) init) (ram s2)\<rparr>)
         })"

partial_function (option) allocuvm_loop :: "u32 \<Rightarrow> u32 \<Rightarrow> u32 \<Rightarrow> u32 \<Rightarrow> 'a kmem_scheme \<Rightarrow> (u32 \<times> 'a kmem_scheme) option" where
  [code]: "allocuvm_loop pgdir a oldsz newsz s =
     (if a < newsz
      then (case kalloc s of (mem, s1) \<Rightarrow>
        if mem = 0
        then Option.bind (kprintf ''allocuvm out of memory\<newline>'' [] s1) (\<lambda>s2.
             Option.bind (deallocuvm pgdir newsz oldsz s2) (\<lambda>(r, s3). Some (0, s3)))
        else Option.bind (mappages pgdir a PGSIZE (V2P mem) (PTE_W OR PTE_U)
                 (s1\<lparr>ram := memset (unat mem) 0 (unat PGSIZE) (ram s1)\<rparr>)) (\<lambda>(r, s2).
             if r < 0
             then Option.bind (kprintf ''allocuvm out of memory (2)\<newline>'' [] s2) (\<lambda>s3.
                  Option.bind (deallocuvm pgdir newsz oldsz s3) (\<lambda>(r, s4). Some (0, kfree mem s4)))
             else allocuvm_loop pgdir (a + PGSIZE) oldsz newsz s2))
      else Some (newsz, s))"

definition allocuvm :: "u32 \<Rightarrow> u32 \<Rightarrow> u32 \<Rightarrow> 'a kmem_scheme \<Rightarrow> (u32 \<times> 'a kmem_scheme) option" where
  "allocuvm pgdir oldsz newsz s =
     (if newsz \<ge> KERNBASE then Some (0, s)
      else if newsz < oldsz then Some (oldsz, s)
      else allocuvm_loop pgdir (PGROUNDUP oldsz) oldsz newsz s)"

partial_function (option) loaduvm_loop ::
    "u32 \<Rightarrow> u32 \<Rightarrow> nat \<Rightarrow> u32 \<Rightarrow> u32 \<Rightarrow> u32 \<Rightarrow> 'a kmem_scheme \<Rightarrow> (int \<times> 'a kmem_scheme) option" where
  [code]: "loaduvm_loop pgdir addr ip off sz i s =
     (if i < sz
      then (case walkpgdir pgdir (addr + i) False s of (pte, s1) \<Rightarrow>
        if pte = 0 then None
        else let pa = PTE_ADDR (rd_pte pte s1);
                 n = (if sz - i < PGSIZE then sz - i else PGSIZE)
             in Option.bind (readi ip (load_bytes (unat (P2V pa)) (unat n) (ram s1)) (off + i) n s1) (\<lambda>(r, d, s2).
                let s3 = s2\<lparr>ram := store_bytes (unat (P2V pa)) d (ram s2)\<rparr>
                in if r \<noteq> sint n then Some (- 1, s3) else loaduvm_loop pgdir addr ip off sz (i + PGSIZE) s3))
      else Some (0, s))"

definition loaduvm :: "u32 \<Rightarrow> u32 \<Rightarrow> nat \<Rightarrow> u32 \<Rightarrow> u32 \<Rightarrow> 'a kmem_scheme \<Rightarrow> (int \<times> 'a kmem_scheme) option" where
  "loaduvm pgdir addr ip off sz s =
     loaduvm_loop pgdir addr ip off sz 0
       (if addr mod PGSIZE \<noteq> 0 then kprint ''loaduvm: addr must be page aligned'' s else s)"

definition clearpteu :: "u32 \<Rightarrow> u32 \<Rightarrow> 'a kmem_scheme \<Rightarrow> 'a kmem_scheme option" where
  "clearpteu pgdir uva s =
     (case walkpgdir pgdir uva False s of (pte, s1) \<Rightarrow>
        if pte = 0 then None else Some (wr_pte pte (rd_pte pte s1 AND NOT PTE_U) s1))"

text \<open>\<open>uva2ka\<close> does not test the pointer it gets from \<open>walkpgdir\<close>.\<close>

definition uva2ka :: "u32 \<Rightarrow> u32 \<Rightarrow> 'a kmem_scheme \<Rightarrow> u32 option" where
  "uva2ka pgdir uva s =
     (case walkpgdir pgdir uva False s of (pte, s1) \<Rightarrow>
        if pte = 0 then None
        else if rd_pte pte s1 AND PTE_P = 0 then Some 0
        else if rd_pte pte s1 AND PTE_U = 0 then Some 0
        else Some (P2V (PTE_ADDR (rd_pte pte s1))))"

partial_function (option) copyout_loop :: "u32 \<Rightarrow> u32 \<Rightarrow> u8 list \<Rightarrow> u32 \<Rightarrow> 'a kmem_scheme \<Rightarrow> (int \<times> 'a kmem_scheme) option" where
  [code]: "copyout_loop pgdir va buf len s =
     (if len > 0
      then let va0 = PGROUNDDOWN va
           in Option.bind (uva2ka pgdir va0 s) (\<lambda>pa0.
                if pa0 = 0 then Some (- 1, s)
                else let n = (if PGSIZE - (va - va0) > len then len else PGSIZE - (va - va0))
                     in if unat n \<le> length buf
                        then copyout_loop pgdir (va0 + PGSIZE) (drop (unat n) buf) (len - n)
                               (s\<lparr>ram := store_bytes (unat (pa0 + (va - va0))) (take (unat n) buf) (ram s)\<rparr>)
                        else None)
      else Some (0, s))"

definition copyout :: "u32 \<Rightarrow> u32 \<Rightarrow> u8 list \<Rightarrow> u32 \<Rightarrow> 'a kmem_scheme \<Rightarrow> (int \<times> 'a kmem_scheme) option" where
  "copyout pgdir va p len s = copyout_loop pgdir va p len s"

section \<open>Page tables as maps\<close>

text \<open>Entry \<open>i\<close> of the directory or table at \<open>d\<close>, and the page a present entry points to.\<close>

definition ent :: "(nat \<Rightarrow> u8) \<Rightarrow> u32 \<Rightarrow> nat \<Rightarrow> u32" where
  "ent m d i = ld32 m (unat d + 4 * i)"

definition pt_page :: "u32 \<Rightarrow> u32" where "pt_page e = P2V (PTE_ADDR e)"

definition present :: "u32 \<Rightarrow> bool" where "present e \<longleftrightarrow> e AND PTE_P \<noteq> 0"

definition pdx :: "u32 \<Rightarrow> nat" where "pdx va = unat va div 4194304"
definition ptx :: "u32 \<Rightarrow> nat" where "ptx va = unat va div 4096 mod 1024"

text \<open>\<open>pmap d m va\<close> is the table entry that translates \<open>va\<close> under the directory \<open>d\<close>, 0 where there is no table.\<close>

definition pmap :: "u32 \<Rightarrow> (nat \<Rightarrow> u8) \<Rightarrow> u32 \<Rightarrow> u32" where
  "pmap d m va = (if present (ent m d (pdx va)) then ent m (pt_page (ent m d (pdx va))) (ptx va) else 0)"

definition tables :: "u32 \<Rightarrow> (nat \<Rightarrow> u8) \<Rightarrow> u32 set" where
  "tables d m = (\<lambda>i. pt_page (ent m d i)) ` {i. i < 1024 \<and> present (ent m d i)}"

definition pt_wf :: "u32 \<Rightarrow> (nat \<Rightarrow> u8) \<Rightarrow> bool" where
  "pt_wf d m \<longleftrightarrow> page_al d \<and> d \<noteq> 0 \<and> d \<notin> tables d m \<and> 0 \<notin> tables d m
     \<and> inj_on (\<lambda>i. pt_page (ent m d i)) {i. i < 1024 \<and> present (ent m d i)}"

text \<open>A directory in use, next to the free list: no page has two roles.\<close>

definition vm_ok :: "u32 \<Rightarrow> 'a kmem_scheme \<Rightarrow> u32 list \<Rightarrow> bool" where
  "vm_ok d s ps \<longleftrightarrow> free_pages s ps \<and> pt_wf d (ram s) \<and> d \<notin> set ps \<and> tables d (ram s) \<inter> set ps = {}"

lemma vm_okD:
  assumes "vm_ok d s ps"
  shows "free_pages s ps" "page_al d" "d \<noteq> 0" "d \<notin> tables d (ram s)" "0 \<notin> tables d (ram s)" "d \<notin> set ps"
    "tables d (ram s) \<inter> set ps = {}" "inj_on (\<lambda>i. pt_page (ent (ram s) d i)) {i. i < 1024 \<and> present (ent (ram s) d i)}"
  using assms by (auto simp: vm_ok_def pt_wf_def)

lemma unat_PDX: "unat (PDX va) = pdx va" and unat_PTX: "unat (PTX va) = ptx va"
proof -
  have m: "(0x3FF :: u32) = mask 10" by (simp add: mask_eq_exp_minus_1)
  have v: "unat va < 4294967296" using unsigned_less[of va] by simp
  have "unat va div 4194304 < 1024" using unsigned_less[of va] by (simp add: div_less_iff_less_mult)
  then show "unat (PDX va) = pdx va"
    by (simp only: PDX_def pdx_def m take_bit_eq_mask[symmetric] unsigned_take_bit_eq unsigned_drop_bit_eq)
      (use v in \<open>simp add: take_bit_eq_mod drop_bit_eq_div\<close>)
  show "unat (PTX va) = ptx va"
    by (simp only: PTX_def ptx_def m take_bit_eq_mask[symmetric] unsigned_take_bit_eq unsigned_drop_bit_eq)
      (use v in \<open>simp add: take_bit_eq_mod drop_bit_eq_div\<close>)
qed

lemma pdx_less [simp]: "pdx va < 1024"
proof -
  have "unat va < 2 ^ 32" using unsigned_less[of va] by simp
  then show ?thesis by (simp add: pdx_def div_less_iff_less_mult)
qed

lemma ptx_less [simp]: "ptx va < 1024"
  by (simp add: ptx_def)

lemma unat_entry:
  assumes "page_al p" "unat x < 1024"
  shows "unat (p + 4 * x) = unat p + 4 * unat x"
proof -
  have "unat p + 4096 \<le> 2 ^ 32" by (rule page_al_bound[OF assms(1)])
  then show ?thesis using assms(2) by (simp add: unat_word_ariths)
qed

lemma page_al_pt_page [simp]: "page_al (pt_page e)"
proof -
  have "(0xFFF :: u32) = mask 12" by (simp add: mask_eq_exp_minus_1)
  then have "page_al (PTE_ADDR e)" by (simp only: page_al_def PTE_ADDR_def unat_and_not_mask12) simp
  then show ?thesis by (simp add: pt_page_def P2V_def page_al_KERNBASE)
qed

lemma div_4096_iff: "(x :: nat) div 4096 = k \<longleftrightarrow> 4096 * k \<le> x \<and> x < 4096 * k + 4096"
proof
  assume "x div 4096 = k"
  moreover have "4096 * (x div 4096) \<le> x" "x < 4096 * (x div 4096) + 4096" by simp_all
  ultimately show "4096 * k \<le> x \<and> x < 4096 * k + 4096" by simp
next
  assume "4096 * k \<le> x \<and> x < 4096 * k + 4096"
  then show "x div 4096 = k" by (intro div_nat_eqI) (simp_all add: mult.commute)
qed

lemma same_page:
  assumes "page_al a"
  shows "pdx v = pdx a \<and> ptx v = ptx a \<longleftrightarrow> in_page a (unat v)"
proof -
  obtain k where k: "unat a = 4096 * k" using assms unfolding page_al_def by (rule dvdE)
  have d: "unat v div 4194304 = unat v div 4096 div 1024" "unat a div 4194304 = k div 1024"
    using div_mult2_eq[of "unat v" 4096 1024] div_mult2_eq[of "unat a" 4096 1024] k by simp_all
  have "pdx v = pdx a \<and> ptx v = ptx a \<longleftrightarrow> unat v div 4096 = k"
  proof -
    have k4: "4096 * k div 4096 = k" by simp
    have "q div 1024 = k div 1024 \<and> q mod 1024 = k mod 1024 \<longleftrightarrow> q = k" for q :: nat by (metis div_mult_mod_eq)
    then show ?thesis unfolding pdx_def ptx_def d unfolding k k4 .
  qed
  also have "\<dots> \<longleftrightarrow> in_page a (unat v)"
    unfolding in_page_def k by (rule div_4096_iff)
  finally show ?thesis .
qed

lemma rd_pde: "page_al d \<Longrightarrow> rd_pte (d + 4 * PDX va) s = ent (ram s) d (pdx va)"
  using unat_entry[of d "PDX va"] by (simp add: rd_pte_def ent_def unat_PDX)

lemma rd_pte_ent: "rd_pte (pt_page e + 4 * PTX va) s = ent (ram s) (pt_page e) (ptx va)"
  using unat_entry[of "pt_page e" "PTX va"] by (simp add: rd_pte_def ent_def unat_PTX)

lemma ram_wr_pde: "page_al d \<Longrightarrow> ram (wr_pte (d + 4 * PDX va) w s) = st32 (unat d + 4 * pdx va) w (ram s)"
  using unat_entry[of d "PDX va"] by (simp add: wr_pte_def unat_PDX)

lemma ram_wr_pte: "ram (wr_pte (pt_page e + 4 * PTX va) w s) = st32 (unat (pt_page e) + 4 * ptx va) w (ram s)"
  using unat_entry[of "pt_page e" "PTX va"] by (simp add: wr_pte_def unat_PTX)

lemma mem_step_wr_pte [simp]: "mem_step s (wr_pte p w s)"
  by (simp add: wr_pte_def)

lemma wr_pte_freelist [simp]: "freelist (wr_pte p w s) = freelist s"
  by (simp add: wr_pte_def)

lemma ent_other:
  "same_outside P m m' \<Longrightarrow> page_al q \<Longrightarrow> q \<notin> P \<Longrightarrow> \<forall>p\<in>P. page_al p \<Longrightarrow> i < 1024 \<Longrightarrow> ent m' q i = ent m q i"
  by (simp add: ent_def ld32_outside)

lemma ent_st32:
  "i < 1024 \<Longrightarrow> j < 1024 \<Longrightarrow> ent (st32 (unat q + 4 * j) w m) q i = (if i = j then w else ent m q i)"
  by (cases "i = j") (auto simp: ent_def intro!: ld32_st32_other)

lemma tables_al: "t \<in> tables d m \<Longrightarrow> page_al t"
  by (auto simp: tables_def)

lemma table_in: "i < 1024 \<Longrightarrow> present (ent m d i) \<Longrightarrow> pt_page (ent m d i) \<in> tables d m"
  by (auto simp: tables_def)

text \<open>Memory outside the directory and its tables does not matter for the translation.\<close>

lemma pmap_cong:
  assumes "same_outside P m m'" "\<forall>p\<in>P. page_al p" "page_al d" "d \<notin> P" "tables d m \<inter> P = {}"
  shows "pmap d m' = pmap d m" "tables d m' = tables d m" "pt_wf d m' = pt_wf d m"
proof -
  have e: "ent m' d i = ent m d i" if "i < 1024" for i using ent_other[OF assms(1,3,4,2) that] .
  then show t: "tables d m' = tables d m" by (auto simp: tables_def)
  have S: "{i. i < 1024 \<and> present (ent m' d i)} = {i. i < 1024 \<and> present (ent m d i)}" using e by auto
  have "inj_on (\<lambda>i. pt_page (ent m' d i)) {i. i < 1024 \<and> present (ent m' d i)}
      = inj_on (\<lambda>i. pt_page (ent m d i)) {i. i < 1024 \<and> present (ent m d i)}"
    unfolding S using e by (intro inj_on_cong) simp
  then show "pt_wf d m' = pt_wf d m" by (simp add: pt_wf_def t)
  show "pmap d m' = pmap d m"
  proof
    fix va
    have "ent m' (pt_page (ent m d (pdx va))) (ptx va) = ent m (pt_page (ent m d (pdx va))) (ptx va)"
      if "present (ent m d (pdx va))"
      using table_in[OF pdx_less that] assms(5) by (intro ent_other[OF assms(1) _ _ assms(2)]) auto
    then show "pmap d m' va = pmap d m va" by (simp add: pmap_def e)
  qed
qed

lemma pt_page_new:
  assumes "page_al q"
  shows "pt_page (V2P q OR PTE_P OR PTE_W OR PTE_U) = q" "present (V2P q OR PTE_P OR PTE_W OR PTE_U)"
proof -
  have m: "(0xFFF :: u32) = mask 12" by (simp add: mask_eq_exp_minus_1)
  have f: "PTE_P OR PTE_W OR PTE_U = mask 3" by (simp add: PTE_P_def PTE_W_def PTE_U_def mask_eq_exp_minus_1)
  have al: "page_al (V2P q)" using page_al_KERNBASE(2)[OF assms] by (simp add: V2P_def)
  have "(V2P q OR mask 3) AND NOT (mask 12) = V2P q AND NOT (mask 12)"
    by (rule bit_word_eqI) (auto simp: bit_simps)
  also have "\<dots> = V2P q"
    using al unat_and_not_mask12[of "V2P q"] by (simp add: page_al_def word_unat_eq_iff)
  finally have "PTE_ADDR (V2P q OR mask 3) = V2P q" by (simp only: PTE_ADDR_def m)
  then show "pt_page (V2P q OR PTE_P OR PTE_W OR PTE_U) = q"
    by (simp only: pt_page_def f) (simp add: P2V_def V2P_def)
  have "bit ((V2P q OR mask 3) AND PTE_P) 0" by (simp add: bit_simps PTE_P_def bit_1_iff)
  then show "present (V2P q OR PTE_P OR PTE_W OR PTE_U)" unfolding present_def f by auto
qed

section \<open>Walking and writing\<close>

lemma walk_present:
  assumes "page_al d" "present (ent (ram s) d (pdx va))"
  shows "walkpgdir d va alloc s = (pt_page (ent (ram s) d (pdx va)) + 4 * PTX va, s)"
  using assms by (simp add: walkpgdir_def rd_pde present_def pt_page_def)

lemma walk_absent:
  assumes "page_al d" "\<not> present (ent (ram s) d (pdx va))"
  shows "walkpgdir d va False s = (0, s)"
  using assms by (simp add: walkpgdir_def rd_pde present_def)

lemma pte_nonzero:
  assumes "page_al t" "t \<noteq> 0"
  shows "t + 4 * PTX va \<noteq> 0"
proof
  assume "t + 4 * PTX va = 0"
  moreover have "unat (t + 4 * PTX va) = unat t + 4 * unat (PTX va)"
    using assms(1) by (intro unat_entry) (simp_all add: unat_PTX)
  ultimately have "unat t = 0" by simp
  then show False using assms(2) by (simp add: unat_eq_zero)
qed

lemma write_pte:
  fixes w :: u32
  assumes ok: "vm_ok d s ps" and p: "present (ent (ram s) d (pdx a))"
  defines "t \<equiv> pt_page (ent (ram s) d (pdx a))"
  defines "s' \<equiv> wr_pte (t + 4 * PTX a) w s"
  shows "vm_ok d s' ps" "pmap d (ram s') = (\<lambda>v. if pdx v = pdx a \<and> ptx v = ptx a then w else pmap d (ram s) v)"
    "same_outside {t} (ram s) (ram s')" "tables d (ram s') = tables d (ram s)" "i < 1024 \<Longrightarrow> ent (ram s') d i = ent (ram s) d i"
proof -
  let ?m = "ram s" and ?m' = "ram s'"
  note V = vm_okD[OF ok]
  have m': "?m' = st32 (unat t + 4 * ptx a) w ?m" by (simp add: s'_def t_def ram_wr_pte)
  have t: "t \<in> tables d ?m" "page_al t" using table_in[OF pdx_less p] by (simp_all add: t_def)
  have kb: "4 * ptx a \<le> 4092" using ptx_less[of a] by linarith
  show so: "same_outside {t} ?m ?m'" unfolding m' using kb by (rule same_outside_st32)
  have td: "d \<noteq> t" using V(4) t(1) by blast
  have e: "ent ?m' d i = ent ?m d i" if "i < 1024" for i
    using ent_other[OF so V(2) _ _ that] td t(2) by simp
  then show "i < 1024 \<Longrightarrow> ent ?m' d i = ent ?m d i" .
  show tb: "tables d ?m' = tables d ?m" using e by (auto simp: tables_def)
  have S: "{i. i < 1024 \<and> present (ent ?m' d i)} = {i. i < 1024 \<and> present (ent ?m d i)}" using e by auto
  have "inj_on (\<lambda>i. pt_page (ent ?m' d i)) {i. i < 1024 \<and> present (ent ?m' d i)}"
    unfolding S using V(8) e by (subst inj_on_cong[where g = "\<lambda>i. pt_page (ent ?m d i)"]) simp_all
  moreover have "free_pages s' ps"
    using V(7) t by (intro free_pages_cong[OF V(1) so]) (auto simp: s'_def)
  ultimately show "vm_ok d s' ps" using V by (simp add: vm_ok_def pt_wf_def tb)
  show "pmap d ?m' = (\<lambda>v. if pdx v = pdx a \<and> ptx v = ptx a then w else pmap d ?m v)"
  proof
    fix v
    show "pmap d ?m' v = (if pdx v = pdx a \<and> ptx v = ptx a then w else pmap d ?m v)"
    proof (cases "pdx v = pdx a")
      case True
      have "ent ?m' t (ptx v) = (if ptx v = ptx a then w else ent ?m t (ptx v))"
        unfolding m' by (rule ent_st32) simp_all
      then show ?thesis using True p by (simp add: pmap_def e t_def)
    next
      case False
      have "ent ?m' (pt_page (ent ?m d (pdx v))) (ptx v) = ent ?m (pt_page (ent ?m d (pdx v))) (ptx v)"
        if "present (ent ?m d (pdx v))"
      proof (rule ent_other[OF so])
        show "pt_page (ent ?m d (pdx v)) \<notin> {t}"
          using V(8) that p False unfolding inj_on_def t_def by (metis (mono_tags, lifting) mem_Collect_eq pdx_less singletonD)
      qed (use t in simp_all)
      then show ?thesis using False by (simp add: pmap_def e)
    qed
  qed
qed

lemma walk_alloc:
  assumes ok: "vm_ok d s (q # ps)" and p: "\<not> present (ent (ram s) d (pdx a))"
  obtains s' where "walkpgdir d a True s = (q + 4 * PTX a, s')" "vm_ok d s' ps" "mem_step s s'"
    "pmap d (ram s') = pmap d (ram s)" "present (ent (ram s') d (pdx a))" "pt_page (ent (ram s') d (pdx a)) = q"
    "tables d (ram s') = insert q (tables d (ram s))" "same_outside {d, q} (ram s) (ram s')"
proof -
  note V = vm_okD[OF ok]
  let ?m = "ram s"
  let ?new = "V2P q OR PTE_P OR PTE_W OR PTE_U"
  have q: "page_al q" "q \<noteq> 0" "q \<noteq> d" "q \<notin> tables d ?m" "q \<notin> set ps"
    using free_pagesD[OF V(1), of q] V(1,6,7) by (auto simp: free_pages_def)
  note nw = pt_page_new[OF q(1)]
  obtain s1 where s1: "kalloc s = (q, s1)" "s1 = s\<lparr>freelist := ld32 (ram s) (unat q)\<rparr>" "free_pages s1 ps"
    by (rule kalloc_cons[OF V(1)])
  let ?m1 = "memset (unat q) 0 4096 ?m"
  let ?m2 = "st32 (unat d + 4 * pdx a) ?new ?m1"
  define s' where "s' = wr_pte (d + 4 * PDX a) ?new (s1\<lparr>ram := memset (unat q) 0 (unat PGSIZE) (ram s1)\<rparr>)"
  have m2: "ram s' = ?m2" by (simp add: s'_def s1(2) PGSIZE_mask ram_wr_pde[OF V(2)])
  have kb: "4 * pdx a \<le> 4092" using pdx_less[of a] by linarith
  have so1: "same_outside {q} ?m ?m1" by (rule same_outside_memset)
  have so2: "same_outside {d} ?m1 ?m2" using kb by (rule same_outside_st32)
  have so: "same_outside {d, q} ?m ?m2"
    by (rule same_outside_trans[OF same_outside_mono[OF so1] same_outside_mono[OF so2]]) simp_all
  have ed: "ent ?m2 d i = (if i = pdx a then ?new else ent ?m d i)" if "i < 1024" for i
  proof -
    have "ent ?m1 d i = ent ?m d i" using ent_other[OF so1 V(2) _ _ that] q(1,3) by simp
    then show ?thesis using ent_st32[OF that pdx_less, of d a ?new ?m1] by simp
  qed
  have eq: "ent ?m2 q j = 0" if "j < 1024" for j
  proof -
    have "ent ?m2 q j = ent ?m1 q j" using ent_other[OF so2 q(1) _ _ that] V(2) q(3) by simp
    also have "\<dots> = 0" using that by (simp add: ent_def ld32_zero)
    finally show ?thesis .
  qed
  have et: "ent ?m2 t j = ent ?m t j" if "t \<in> tables d ?m" "j < 1024" for t j
    using ent_other[OF so tables_al[OF that(1)] _ _ that(2)] that(1) q V(2,4) by auto
  have tb: "tables d ?m2 = insert q (tables d ?m)"
  proof -
    have "{i. i < 1024 \<and> present (ent ?m2 d i)} = insert (pdx a) {i. i < 1024 \<and> present (ent ?m d i)}"
      using ed nw(2) by auto
    moreover have "(\<lambda>i. pt_page (ent ?m2 d i)) ` {i. i < 1024 \<and> present (ent ?m d i)} = tables d ?m"
      unfolding tables_def using ed p by (intro image_cong) auto
    ultimately show ?thesis using ed[OF pdx_less] nw(1) by (simp add: tables_def)
  qed
  have pe: "present (ent ?m2 d (pdx a))" "pt_page (ent ?m2 d (pdx a)) = q" using ed[OF pdx_less, of a] nw by simp_all
  have pm: "pmap d ?m2 = pmap d ?m"
  proof
    fix v
    show "pmap d ?m2 v = pmap d ?m v"
    proof (cases "pdx v = pdx a")
      case True
      then show ?thesis using pe eq[OF ptx_less] p by (simp add: pmap_def)
    next
      case False
      then have "ent ?m2 d (pdx v) = ent ?m d (pdx v)" using ed[OF pdx_less, of v] by simp
      then show ?thesis using et[OF table_in[OF pdx_less] ptx_less] by (simp add: pmap_def)
    qed
  qed
  have inj: "inj_on (\<lambda>i. pt_page (ent ?m2 d i)) {i. i < 1024 \<and> present (ent ?m2 d i)}"
  proof (rule inj_onI)
    fix i j assume ij: "i \<in> {i. i < 1024 \<and> present (ent ?m2 d i)}" "j \<in> {i. i < 1024 \<and> present (ent ?m2 d i)}"
      and e: "pt_page (ent ?m2 d i) = pt_page (ent ?m2 d j)"
    have old: "k \<noteq> pdx a \<Longrightarrow> k < 1024 \<Longrightarrow> present (ent ?m2 d k) \<Longrightarrow> pt_page (ent ?m2 d k) \<noteq> q" for k
      using ed[of k] table_in[of k ?m d] q(4) by auto
    show "i = j"
    proof (cases "i = pdx a \<or> j = pdx a")
      case True
      then have "pt_page (ent ?m2 d i) = q" "pt_page (ent ?m2 d j) = q" using pe(2) e by auto
      then have "i = pdx a" "j = pdx a" using old[of i] old[of j] ij by auto
      then show ?thesis by simp
    next
      case False
      then show ?thesis using ij e ed V(8) by (auto simp: inj_on_def)
    qed
  qed
  have "free_pages s' ps"
    using free_pages_cong[OF s1(3), of "{d, q}" s'] so V(2,6) q by (simp add: m2 s1(2)) (simp add: s'_def s1(2))
  moreover have "d \<notin> set ps" "tables d ?m \<inter> set ps = {}" using V(6,7) by auto
  ultimately have vok: "vm_ok d s' ps"
    unfolding vm_ok_def pt_wf_def m2 tb using V(2-5) q(2,3,5) inj by blast
  have "mem_step s s1" using s1(1) by (rule mem_step_kalloc)
  then have ms: "mem_step s s'" unfolding s'_def by (rule mem_step_trans[OF mem_step_trans mem_step_wr_pte]) simp
  have w: "walkpgdir d a True s = (q + 4 * PTX a, s')"
    using p q(2) s1(1) by (simp add: walkpgdir_def rd_pde[OF V(2)] present_def s'_def)
  show ?thesis by (rule that[OF w vok ms]) (simp_all add: m2 pm pe tb so)
qed

lemma walk_full:
  assumes ok: "vm_ok d s []" and p: "\<not> present (ent (ram s) d (pdx a))"
  shows "walkpgdir d a True s = (0, s)"
  using kalloc_empty[OF vm_okD(1)[OF ok]] p by (simp add: walkpgdir_def rd_pde[OF vm_okD(2)[OF ok]] present_def)

section \<open>Mapping pages\<close>

text \<open>Pages that are directory, table or free: a step of mapping moves pages from the free list to the tables and writes no other page.\<close>

definition own :: "u32 \<Rightarrow> 'a kmem_scheme \<Rightarrow> u32 list \<Rightarrow> u32 set" where
  "own d s ps = tables d (ram s) \<union> set ps"

definition vm_step :: "u32 \<Rightarrow> 'a kmem_scheme \<Rightarrow> u32 list \<Rightarrow> (u32 \<Rightarrow> u32) \<Rightarrow> 'a kmem_scheme \<Rightarrow> u32 list \<Rightarrow> bool" where
  "vm_step d s ps M s' ps' \<longleftrightarrow> vm_ok d s' ps' \<and> mem_step s s' \<and> pmap d (ram s') = M \<and> own d s' ps' = own d s ps
     \<and> (\<exists>qs. ps = qs @ ps') \<and> same_outside (insert d (own d s ps)) (ram s) (ram s')
     \<and> tables d (ram s) \<subseteq> tables d (ram s')"

lemma vm_step_refl: "vm_ok d s ps \<Longrightarrow> vm_step d s ps (pmap d (ram s)) s ps"
  by (simp add: vm_step_def)

lemma vm_step_trans: "vm_step d s ps M t qs \<Longrightarrow> vm_step d t qs N u rs \<Longrightarrow> vm_step d s ps N u rs"
  unfolding vm_step_def using mem_step_trans same_outside_trans by (metis (no_types, lifting) append_assoc subset_trans)

lemma vm_stepD:
  assumes "vm_step d s ps M s' ps'"
  shows "vm_ok d s' ps'" "mem_step s s'" "pmap d (ram s') = M" "own d s' ps' = own d s ps" "\<exists>qs. ps = qs @ ps'"
    "same_outside (insert d (own d s ps)) (ram s) (ram s')"
  using assms by (simp_all add: vm_step_def)

lemma map_step:
  assumes ok: "vm_ok d s ps" and al: "page_al a"
  obtains (full) "ps = []" "walkpgdir d a True s = (0, s)"
  | (mapped) pte s1 ps1 where "walkpgdir d a True s = (pte, s1)" "pte \<noteq> 0"
      "vm_step d s ps (\<lambda>v. if in_page a (unat v) then w else pmap d (ram s) v) (wr_pte pte w s1) ps1" "length ps \<le> Suc (length ps1)"
proof (cases "present (ent (ram s) d (pdx a))")
  case True
  let ?t = "pt_page (ent (ram s) d (pdx a))"
  note V = vm_okD[OF ok] and W = write_pte[where w = w, OF ok True]
  have t: "?t \<in> tables d (ram s)" by (rule table_in[OF pdx_less True])
  have "?t + 4 * PTX a \<noteq> 0" using V(5) t by (intro pte_nonzero) auto
  moreover have "vm_step d s ps (\<lambda>v. if in_page a (unat v) then w else pmap d (ram s) v) (wr_pte (?t + 4 * PTX a) w s) ps"
    unfolding vm_step_def own_def
    using W(1,2,4) same_outside_mono[OF W(3)] t by (auto simp: same_page[OF al])
  ultimately show ?thesis using walk_present[OF V(2) True] le_SucI[OF order_refl, of "length ps"] by (intro mapped)
next
  case False
  show ?thesis
  proof (cases ps)
    case Nil
    then show ?thesis using walk_full[OF _ False] ok by (intro full) simp_all
  next
    case (Cons q qs)
    obtain s1 where s1: "walkpgdir d a True s = (q + 4 * PTX a, s1)" "vm_ok d s1 qs" "mem_step s s1"
      "pmap d (ram s1) = pmap d (ram s)" "present (ent (ram s1) d (pdx a))" "pt_page (ent (ram s1) d (pdx a)) = q"
      "tables d (ram s1) = insert q (tables d (ram s))" "same_outside {d, q} (ram s) (ram s1)"
      by (rule walk_alloc[OF ok[unfolded Cons] False])
    note W = write_pte[where w = w, OF s1(2,5), unfolded s1(6)]
    have q: "page_al q" "q \<noteq> 0" using free_pagesD[OF vm_okD(1)[OF ok], of q] Cons by simp_all
    have "q + 4 * PTX a \<noteq> 0" using q by (rule pte_nonzero)
    moreover have "vm_step d s ps (\<lambda>v. if in_page a (unat v) then w else pmap d (ram s) v) (wr_pte (q + 4 * PTX a) w s1) qs"
      unfolding vm_step_def own_def
    proof (intro conjI)
      show "mem_step s (wr_pte (q + 4 * PTX a) w s1)" by (rule mem_step_trans[OF s1(3) mem_step_wr_pte])
      show "same_outside (insert d (tables d (ram s) \<union> set ps)) (ram s) (ram (wr_pte (q + 4 * PTX a) w s1))"
        using same_outside_trans[OF same_outside_mono[OF s1(8)] same_outside_mono[OF W(3)]] Cons by auto
    qed (use W(1,2,4) s1(4,7) Cons same_page[OF al] in auto)
    moreover have "length ps \<le> Suc (length qs)" by (simp add: Cons)
    ultimately show ?thesis using s1(1) by (intro mapped)
  qed
qed

text \<open>A range of pages, mapped one after the other to consecutive frames.\<close>

definition mapped_range :: "u32 \<Rightarrow> nat \<Rightarrow> u32 \<Rightarrow> u32 \<Rightarrow> (u32 \<Rightarrow> u32) \<Rightarrow> u32 \<Rightarrow> u32" where
  "mapped_range a n pa perm M v =
     (if unat a \<le> unat v \<and> unat v < unat a + 4096 * n then (pa + (PGROUNDDOWN v - a)) OR perm OR PTE_P else M v)"

lemma PGROUNDDOWN_in_page: "page_al a \<Longrightarrow> in_page a (unat v) \<Longrightarrow> PGROUNDDOWN v = a"
proof -
  assume a: "page_al a" "in_page a (unat v)"
  have "4096 * (unat v div 4096) \<le> unat v" "unat v < 4096 * (unat v div 4096) + 4096" using div_4096_iff by blast+
  then have "in_page (PGROUNDDOWN v) (unat v)"
    by (simp add: in_page_def unat_PGROUNDDOWN mult.commute)
  then show ?thesis using in_page_unique[of "PGROUNDDOWN v" a] a by simp
qed

lemma mappages_loop_ok:
  assumes "vm_ok d s ps" "page_al a" "unat a + 4096 * Suc n \<le> 2 ^ 32"
  shows "\<exists>r s' ps'. mappages_loop d a (a + of_nat (4096 * n)) pa perm s = Some (r, s')
    \<and> (r = 0 \<and> length ps \<le> length ps' + Suc n \<and> vm_step d s ps (mapped_range a (Suc n) pa perm (pmap d (ram s))) s' ps'
       \<or> r = - 1 \<and> ps' = [] \<and> length ps \<le> n \<and> (\<exists>k\<le>n. vm_step d s ps (mapped_range a k pa perm (pmap d (ram s))) s' ps'))"
  using assms
proof (induction n arbitrary: a pa s ps)
  case 0
  show ?case
  proof (cases rule: map_step[where w = "pa OR perm OR PTE_P", OF 0(1,2)])
    case 1
    have "mapped_range a 0 pa perm M = M" for M by (auto simp: mapped_range_def fun_eq_iff)
    then show ?thesis using 1 vm_step_refl[OF 0(1)] by (subst mappages_loop.simps) auto
  next
    case (2 pte s1 ps1)
    have "mapped_range a (Suc 0) pa perm M = (\<lambda>v. if in_page a (unat v) then pa OR perm OR PTE_P else M v)" for M
      using PGROUNDDOWN_in_page[OF 0(2)] by (auto simp: mapped_range_def in_page_def fun_eq_iff)
    then show ?thesis using 2 by (subst mappages_loop.simps) (auto simp: Let_def)
  qed
next
  case (Suc n)
  have u: "unat (a + PGSIZE) = unat a + 4096" using Suc.prems(3) by (simp add: unat_word_ariths PGSIZE_def)
  have al: "page_al (a + PGSIZE)" using Suc.prems(2) by (simp add: page_al_def u)
  have ul: "unat (a + of_nat (4096 * Suc n)) = unat a + 4096 * Suc n"
    using Suc.prems(3) by (simp add: unat_word_ariths unat_of_nat del: of_nat_mult of_nat_Suc)
  have nl: "a \<noteq> a + of_nat (4096 * Suc n)"
  proof
    assume "a = a + of_nat (4096 * Suc n)"
    then have "unat a = unat a + 4096 * Suc n" using ul by simp
    then show False by simp
  qed
  have nx: "a + of_nat (4096 * Suc n) = a + PGSIZE + of_nat (4096 * n)" by (simp add: PGSIZE_def algebra_simps)
  show ?case
  proof (cases rule: map_step[where w = "pa OR perm OR PTE_P", OF Suc.prems(1,2)])
    case 1
    have "mapped_range a 0 pa perm M = M" for M by (auto simp: mapped_range_def fun_eq_iff)
    then have "vm_step d s ps (mapped_range a 0 pa perm (pmap d (ram s))) s ps" using vm_step_refl[OF Suc.prems(1)] by simp
    moreover have "mappages_loop d a (a + of_nat (4096 * Suc n)) pa perm s = Some (- 1, s)"
      using 1(2) by (subst mappages_loop.simps) simp
    moreover have "length ps \<le> Suc n" using 1(1) by simp
    ultimately show ?thesis using 1(1) by blast
  next
    case (2 pte s1 ps1)
    let ?w = "pa OR perm OR PTE_P"
    let ?s2 = "wr_pte pte ?w s1"
    have comp: "mapped_range (a + PGSIZE) k (pa + PGSIZE) perm (\<lambda>v. if in_page a (unat v) then ?w else M v)
        = mapped_range a (Suc k) pa perm M" for k M
    proof
      fix v
      show "mapped_range (a + PGSIZE) k (pa + PGSIZE) perm (\<lambda>v. if in_page a (unat v) then ?w else M v) v
          = mapped_range a (Suc k) pa perm M v"
      proof (cases "in_page a (unat v)")
        case True
        then show ?thesis using PGROUNDDOWN_in_page[OF Suc.prems(2) True] by (auto simp: mapped_range_def in_page_def u)
      next
        case False
        then have "unat a + 4096 \<le> unat v \<and> unat v < unat a + 4096 + 4096 * k \<longleftrightarrow> unat a \<le> unat v \<and> unat v < unat a + 4096 * Suc k"
          by (auto simp: in_page_def)
        moreover have "pa + PGSIZE + (PGROUNDDOWN v - (a + PGSIZE)) = pa + (PGROUNDDOWN v - a)" by simp
        ultimately show ?thesis using False unfolding mapped_range_def u by (simp only: if_False)
      qed
    qed
    have "\<exists>r s' ps'. mappages_loop d (a + PGSIZE) (a + PGSIZE + of_nat (4096 * n)) (pa + PGSIZE) perm ?s2 = Some (r, s')
      \<and> (r = 0 \<and> length ps1 \<le> length ps' + Suc n \<and> vm_step d ?s2 ps1 (mapped_range (a + PGSIZE) (Suc n) (pa + PGSIZE) perm (pmap d (ram ?s2))) s' ps'
       \<or> r = - 1 \<and> ps' = [] \<and> length ps1 \<le> n \<and> (\<exists>k\<le>n. vm_step d ?s2 ps1 (mapped_range (a + PGSIZE) k (pa + PGSIZE) perm (pmap d (ram ?s2))) s' ps'))"
      using vm_stepD(1)[OF 2(3)] al Suc.prems(3) u by (intro Suc.IH) simp_all
    then obtain r s' ps' where i: "mappages_loop d (a + PGSIZE) (a + PGSIZE + of_nat (4096 * n)) (pa + PGSIZE) perm ?s2 = Some (r, s')"
      "r = 0 \<and> length ps1 \<le> length ps' + Suc n \<and> vm_step d ?s2 ps1 (mapped_range a (Suc (Suc n)) pa perm (pmap d (ram s))) s' ps'
       \<or> r = - 1 \<and> ps' = [] \<and> length ps1 \<le> n \<and> (\<exists>k\<le>n. vm_step d ?s2 ps1 (mapped_range a (Suc k) pa perm (pmap d (ram s))) s' ps')"
      unfolding vm_stepD(3)[OF 2(3)] comp by blast
    have "mappages_loop d a (a + of_nat (4096 * Suc n)) pa perm s = Some (r, s')"
      unfolding nx[symmetric] using 2(1,2) nl i(1)[folded nx] by (subst mappages_loop.simps) (simp add: Let_def del: of_nat_mult of_nat_Suc)
    moreover have "k \<le> n \<Longrightarrow> Suc k \<le> Suc n" for k by simp
    moreover have "length ps \<le> length ps' + Suc (Suc n)" if "length ps1 \<le> length ps' + Suc n" using 2(4) that by simp
    moreover have "length ps \<le> Suc n" if "length ps1 \<le> n" using 2(4) that by simp
    ultimately show ?thesis using i(2) vm_step_trans[OF 2(3)] by blast
  qed
qed

definition npages :: "u32 \<Rightarrow> u32 \<Rightarrow> nat" where
  "npages va sz = (unat va + unat sz - 1) div 4096 - unat va div 4096 + 1"

text \<open>\<open>mappages\<close>, on every branch: all pages are mapped, or the free pages ran out and some first pages are.\<close>

lemma mappages_ok:
  assumes ok: "vm_ok d s ps" and sz: "0 < unat sz" and nw: "unat va + unat sz \<le> 2 ^ 32"
  shows "\<exists>r s' ps'. mappages d va sz pa perm s = Some (r, s')
    \<and> (r = 0 \<and> length ps \<le> length ps' + npages va sz
         \<and> vm_step d s ps (mapped_range (PGROUNDDOWN va) (npages va sz) pa perm (pmap d (ram s))) s' ps'
       \<or> r = - 1 \<and> ps' = [] \<and> length ps < npages va sz
         \<and> (\<exists>k<npages va sz. vm_step d s ps (mapped_range (PGROUNDDOWN va) k pa perm (pmap d (ram s))) s' ps'))"
proof -
  let ?a = "PGROUNDDOWN va" and ?l = "PGROUNDDOWN (va + sz - 1)"
  have ul: "unat (va + sz - 1) = unat va + unat sz - 1"
  proof -
    obtain k where k: "unat sz = Suc k" using sz by (cases "unat sz") auto
    then have "sz = of_nat (Suc k)" by (metis of_nat_unat ucast_id)
    then have eq: "va + sz - 1 = va + of_nat k" by (simp add: add_diff_eq[symmetric])
    have "unat (va + of_nat k) = unat va + k" using nw k by (simp add: unat_word_ariths unat_of_nat)
    then show ?thesis unfolding eq using k by simp
  qed
  define n where "n = (unat va + unat sz - 1) div 4096 - unat va div 4096"
  have mono: "unat va div 4096 \<le> (unat va + unat sz - 1) div 4096" using sz by (intro div_le_mono) simp
  have l: "unat ?l = unat ?a + 4096 * n"
  proof -
    have "(unat va + unat sz - 1) div 4096 = unat va div 4096 + n" using mono by (simp add: n_def)
    then show ?thesis by (simp only: unat_PGROUNDDOWN ul distrib_right mult.commute[of 4096])
  qed
  have fit: "unat ?a + 4096 * Suc n \<le> 2 ^ 32" using page_al_bound[of ?l] l by simp
  have "?l = ?a + of_nat (4096 * n)"
  proof (rule word_unat_eq_iff[THEN iffD2])
    show "unat ?l = unat (?a + of_nat (4096 * n))"
      using l fit by (simp add: unat_word_ariths unat_of_nat del: of_nat_mult)
  qed
  moreover have "npages va sz = Suc n" by (simp add: npages_def n_def)
  ultimately show ?thesis
    using mappages_loop_ok[OF ok page_al_PGROUNDDOWN fit, of pa perm] unfolding mappages_def by (simp only: less_Suc_eq_le)
qed

section \<open>User memory through the page tables\<close>

definition umapped :: "u32 \<Rightarrow> (nat \<Rightarrow> u8) \<Rightarrow> u32 \<Rightarrow> bool" where
  "umapped d m v \<longleftrightarrow> present (pmap d m v) \<and> pmap d m v AND PTE_U \<noteq> 0 \<and> pt_page (pmap d m v) \<noteq> 0"

definition user_byte :: "u32 \<Rightarrow> (nat \<Rightarrow> u8) \<Rightarrow> u32 \<Rightarrow> u8" where
  "user_byte d m v = m (unat (pt_page (pmap d m v)) + unat v mod 4096)"

text \<open>User pages have frames of their own: none is the directory, a table or free, and no two pages share one.\<close>

definition frames_ok :: "u32 \<Rightarrow> 'a kmem_scheme \<Rightarrow> u32 list \<Rightarrow> bool" where
  "frames_ok d s ps \<longleftrightarrow>
     (\<forall>v. umapped d (ram s) v \<longrightarrow> pt_page (pmap d (ram s) v) \<notin> insert d (own d s ps))
   \<and> (\<forall>v w. umapped d (ram s) v \<longrightarrow> umapped d (ram s) w \<longrightarrow> pt_page (pmap d (ram s) v) = pt_page (pmap d (ram s) w) \<longrightarrow>
        PGROUNDDOWN v = PGROUNDDOWN w)"

lemma umapped_cong: "pmap d m' = pmap d m \<Longrightarrow> umapped d m' = umapped d m"
  by (simp add: umapped_def fun_eq_iff)

lemma pmap_page: "pmap d m (PGROUNDDOWN v) = pmap d m v"
proof -
  have "in_page (PGROUNDDOWN v) (unat v)"
    using div_4096_iff[of "unat v" "unat v div 4096"] by (simp add: in_page_def unat_PGROUNDDOWN mult.commute)
  then have "pdx v = pdx (PGROUNDDOWN v)" "ptx v = ptx (PGROUNDDOWN v)" using same_page[of "PGROUNDDOWN v" v] by simp_all
  then show ?thesis by (simp add: pmap_def)
qed

lemma walk_pmap:
  assumes ok: "vm_ok d s ps" and p: "present (pmap d (ram s) v)"
  shows "\<exists>pte. walkpgdir d v al s = (pte, s) \<and> pte \<noteq> 0 \<and> rd_pte pte s = pmap d (ram s) v"
proof -
  note V = vm_okD[OF ok]
  have q: "present (ent (ram s) d (pdx v))" using p by (auto simp: pmap_def present_def split: if_splits)
  have "pt_page (ent (ram s) d (pdx v)) + 4 * PTX v \<noteq> 0" using V(5) table_in[OF pdx_less q] by (intro pte_nonzero) auto
  then show ?thesis using walk_present[OF V(2) q] q by (auto simp: pmap_def rd_pte_ent)
qed

lemma uva2ka_ok:
  assumes "vm_ok d s ps" "umapped d (ram s) v"
  shows "uva2ka d v s = Some (pt_page (pmap d (ram s) v))"
  using walk_pmap[OF assms(1), of v False] assms(2) by (auto simp: umapped_def uva2ka_def present_def pt_page_def)

lemma uva2ka_denied:
  assumes ok: "vm_ok d s ps" and v: "present (ent (ram s) d (pdx v))" and no: "\<not> (present (pmap d (ram s) v) \<and> pmap d (ram s) v AND PTE_U \<noteq> 0)"
  shows "uva2ka d v s = Some 0"
proof -
  note V = vm_okD[OF ok]
  have "pt_page (ent (ram s) d (pdx v)) + 4 * PTX v \<noteq> 0" using V(5) table_in[OF pdx_less v] by (intro pte_nonzero) auto
  then show ?thesis using walk_present[OF V(2) v] v no by (auto simp: uva2ka_def rd_pte_ent pmap_def present_def)
qed

lemma store_bytes_outside: "k + length bs \<le> 4096 \<Longrightarrow> same_outside {p} m (store_bytes (unat p + k) bs m)"
  by (auto simp: same_outside_def store_bytes_def in_page_def)

lemma vm_ok_frame:
  assumes ok: "vm_ok d s ps" and so: "same_outside {f} (ram s) (ram s')" and f: "page_al f" "f \<notin> insert d (own d s ps)"
    and fl: "freelist s' = freelist s"
  shows "vm_ok d s' ps" "pmap d (ram s') = pmap d (ram s)" "own d s' ps = own d s ps"
proof -
  note V = vm_okD[OF ok]
  have P: "\<forall>p\<in>{f}. page_al p" "d \<notin> {f}" "tables d (ram s) \<inter> {f} = {}" "set ps \<inter> {f} = {}" using f by (auto simp: own_def)
  note c = pmap_cong[OF so P(1) V(2) P(2,3)]
  show "pmap d (ram s') = pmap d (ram s)" "own d s' ps = own d s ps" by (simp_all add: c own_def)
  show "vm_ok d s' ps" using ok free_pages_cong[OF V(1) so P(1,4) fl] by (simp add: vm_ok_def c)
qed

text \<open>\<open>copyout\<close> changes exactly the bytes at \<open>va ..< va + len\<close> of the user's memory.\<close>

definition range_frames :: "u32 \<Rightarrow> (nat \<Rightarrow> u8) \<Rightarrow> nat \<Rightarrow> nat \<Rightarrow> u32 set" where
  "range_frames d m a n = {pt_page (pmap d m v) | v. a \<le> unat v \<and> unat v < a + n}"

lemma copyout_loop_ok:
  assumes "vm_ok d s ps" "frames_ok d s ps" "unat len \<le> length buf" "unat va + unat len \<le> 2 ^ 32"
    and "\<And>v. unat va \<le> unat v \<Longrightarrow> unat v < unat va + unat len \<Longrightarrow> umapped d (ram s) v"
  shows "\<exists>s'. copyout_loop d va buf len s = Some (0, s') \<and> vm_ok d s' ps \<and> mem_step s s' \<and> pmap d (ram s') = pmap d (ram s)
    \<and> same_outside (range_frames d (ram s) (unat va) (unat len)) (ram s) (ram s')
    \<and> (\<forall>v. umapped d (ram s) v \<longrightarrow> user_byte d (ram s') v =
         (if unat va \<le> unat v \<and> unat v < unat va + unat len then buf ! (unat v - unat va) else user_byte d (ram s) v))"
  using assms
proof (induction "unat len" arbitrary: va buf len s rule: less_induct)
  case less
  note ok = less.prems(1)
  show ?case
  proof (cases "len = 0")
    case True
    then show ?thesis using ok by (subst copyout_loop.simps) auto
  next
    case False
    then have l0: "0 < unat len" "len > 0" by (simp_all add: unat_gt_0 word_neq_0_conv)
    let ?p = "PGROUNDDOWN va"
    define k where "k = unat va mod 4096"
    define n where "n = min (4096 - k) (unat len)"
    define f where "f = pt_page (pmap d (ram s) va)"
    have va: "unat va = unat ?p + k" and k: "k < 4096" by (simp_all add: unat_PGROUNDDOWN k_def)
    have uk: "unat (of_nat k :: u32) = k" using k by (simp add: unat_of_nat)
    have vap: "va - ?p = of_nat k"
    proof (rule word_unat_eq_iff[THEN iffD2])
      have "?p \<le> va" using va by (simp add: word_le_nat_alt)
      then show "unat (va - ?p) = unat (of_nat k :: u32)" using va by (simp add: unat_sub uk)
    qed
    have um: "umapped d (ram s) va" using less.prems(5)[of va] l0 by simp
    then have ump: "umapped d (ram s) ?p" by (simp add: umapped_def pmap_page)
    have ka: "uva2ka d ?p s = Some f" using uva2ka_ok[OF ok ump] by (simp add: f_def pmap_page)
    have f: "f \<noteq> 0" "page_al f" "f \<notin> insert d (own d s ps)"
      using um less.prems(2) by (auto simp: umapped_def frames_ok_def f_def)
    have un: "unat (PGSIZE - of_nat k) = 4096 - k"
    proof -
      have "of_nat k \<le> PGSIZE" using k by (simp add: word_le_nat_alt PGSIZE_mask uk)
      then show ?thesis by (simp add: unat_sub PGSIZE_mask uk)
    qed
    have nn: "(if PGSIZE - (va - ?p) > len then len else PGSIZE - (va - ?p)) = of_nat n"
      unfolding vap by (rule word_unat_eq_iff[THEN iffD2]) (auto simp: word_less_nat_alt un n_def unat_of_nat min_def)
    have n: "0 < n" "n \<le> unat len" "k + n \<le> 4096" using l0 k by (auto simp: n_def)
    have unn: "unat (of_nat n :: u32) = n" using n(3) by (simp add: unat_of_nat)
    have fo: "unat (f + (va - ?p)) = unat f + k" unfolding vap using page_al_bound[OF f(2)] k by (simp add: unat_word_ariths uk)
    let ?s1 = "s\<lparr>ram := store_bytes (unat f + k) (take n buf) (ram s)\<rparr>"
    have so: "same_outside {f} (ram s) (ram ?s1)"
      using store_bytes_outside[of k "take n buf" f "ram s"] n(3) by (simp add: min_def)
    note F = vm_ok_frame[OF ok so f(2,3)]
    have pm: "pmap d (ram ?s1) = pmap d (ram s)" and ow: "own d ?s1 ps = own d s ps" and ok1: "vm_ok d ?s1 ps" using F by simp_all
    have umeq: "umapped d (ram ?s1) = umapped d (ram s)" by (rule umapped_cong[OF pm])
    have ub: "user_byte d (ram ?s1) w = store_bytes (unat f + k) (take n buf) (ram s) (unat (pt_page (pmap d (ram s) w)) + unat w mod 4096)" for w
      unfolding user_byte_def pm by simp
    have ub1: "user_byte d (ram ?s1) v = (if unat va \<le> unat v \<and> unat v < unat va + n then buf ! (unat v - unat va) else user_byte d (ram s) v)"
      if v: "umapped d (ram s) v" for v
    proof (cases "PGROUNDDOWN v = ?p")
      case True
      then have "pmap d (ram s) v = pmap d (ram s) va" using pmap_page by metis
      moreover define j where "j = unat v mod 4096"
      moreover have "unat v = unat ?p + j" unfolding True[symmetric] unat_PGROUNDDOWN j_def by (rule div_mult_mod_eq[symmetric])
      moreover have "n \<le> length buf" using n(2) less.prems(3) by simp
      ultimately show ?thesis using va n(3) unfolding ub
        by (auto simp: user_byte_def f_def[symmetric] store_bytes_def j_def[symmetric])
    next
      case False
      then have "pt_page (pmap d (ram s) v) \<noteq> f" using less.prems(2) v um unfolding frames_ok_def f_def by blast
      then have "\<not> in_page f (unat (pt_page (pmap d (ram s) v)) + unat v mod 4096)"
        using in_page_unique[OF page_al_pt_page f(2) in_page_start(1)[of "unat v mod 4096"]] by auto
      moreover have "\<not> (unat va \<le> unat v \<and> unat v < unat va + n)"
      proof
        assume "unat va \<le> unat v \<and> unat v < unat va + n"
        then have "in_page ?p (unat v)" using va n(3) by (simp add: in_page_def)
        then show False using False PGROUNDDOWN_in_page by simp
      qed
      ultimately show ?thesis using so unfolding ub by (auto simp: user_byte_def same_outside_def)
    qed
    have step: "copyout_loop d va buf len s = copyout_loop d (?p + PGSIZE) (drop n buf) (len - of_nat n) ?s1"
      using l0(2) ka f(1) n(2) less.prems(3)
      by (subst copyout_loop.simps) (simp add: Let_def nn unn fo)
    have ulen: "unat (len - of_nat n) = unat len - n"
    proof -
      have "of_nat n \<le> len" using n(2) by (simp add: word_le_nat_alt unn)
      then show ?thesis by (simp add: unat_sub unn)
    qed
    have "\<exists>s'. copyout_loop d (?p + PGSIZE) (drop n buf) (len - of_nat n) ?s1 = Some (0, s') \<and> vm_ok d s' ps \<and> mem_step ?s1 s'
      \<and> pmap d (ram s') = pmap d (ram ?s1) \<and> same_outside (range_frames d (ram ?s1) (unat va + n) (unat len - n)) (ram ?s1) (ram s') \<and> (\<forall>v. umapped d (ram ?s1) v \<longrightarrow> user_byte d (ram s') v =
         (if unat va + n \<le> unat v \<and> unat v < unat va + unat len then drop n buf ! (unat v - (unat va + n)) else user_byte d (ram ?s1) v))"
    proof (cases "n = unat len")
      case True
      then have "len - of_nat n = 0" using ulen by (simp add: unat_eq_zero)
      then show ?thesis using ok1 True by (subst copyout_loop.simps) auto
    next
      case nl: False
      then have n': "n = 4096 - k" "n < unat len" by (auto simp: n_def)
      have up: "unat (?p + PGSIZE) = unat va + n"
        using n' va k less.prems(4) by (simp add: unat_word_ariths PGSIZE_mask)
      have e: "unat (?p + PGSIZE) + unat (len - of_nat n) = unat va + unat len" using up ulen n' by simp
      show ?thesis unfolding up[symmetric] e[symmetric] ulen[symmetric]
      proof (rule less.hyps)
        show "unat (len - of_nat n) < unat len" using ulen n by simp
        show "vm_ok d ?s1 ps" by (rule ok1)
        show "frames_ok d ?s1 ps" using less.prems(2) unfolding frames_ok_def umeq pm ow .
        show "unat (len - of_nat n) \<le> length (drop n buf)" using ulen less.prems(3) by simp
        show "unat (?p + PGSIZE) + unat (len - of_nat n) \<le> 2 ^ 32" unfolding e by (rule less.prems(4))
        show "umapped d (ram ?s1) v" if "unat (?p + PGSIZE) \<le> unat v" "unat v < unat (?p + PGSIZE) + unat (len - of_nat n)" for v
          unfolding umeq using that e up by (intro less.prems(5)) linarith+
      qed
    qed
    then obtain s' where s': "copyout_loop d (?p + PGSIZE) (drop n buf) (len - of_nat n) ?s1 = Some (0, s')" "vm_ok d s' ps" "mem_step ?s1 s'"
      "pmap d (ram s') = pmap d (ram s)" "same_outside (range_frames d (ram s) (unat va + n) (unat len - n)) (ram ?s1) (ram s')" "\<forall>v. umapped d (ram s) v \<longrightarrow> user_byte d (ram s') v =
         (if unat va + n \<le> unat v \<and> unat v < unat va + unat len then drop n buf ! (unat v - (unat va + n)) else user_byte d (ram ?s1) v)"
      unfolding pm umeq range_frames_def by blast
    have fr: "f \<in> range_frames d (ram s) (unat va) (unat len)" using l0 by (auto simp: range_frames_def f_def)
    have "range_frames d (ram s) (unat va + n) (unat len - n) \<subseteq> range_frames d (ram s) (unat va) (unat len)"
      using n(2) by (auto simp: range_frames_def)
    then have "same_outside (range_frames d (ram s) (unat va) (unat len)) (ram s) (ram s')"
      using fr by (intro same_outside_trans[OF same_outside_mono[OF so] same_outside_mono[OF s'(5)]]) auto
    moreover have "user_byte d (ram s') v =
        (if unat va \<le> unat v \<and> unat v < unat va + unat len then buf ! (unat v - unat va) else user_byte d (ram s) v)"
      if "umapped d (ram s) v" for v
    proof -
      have "drop n buf ! (unat v - (unat va + n)) = buf ! (unat v - unat va)" if "unat va + n \<le> unat v" "unat v < unat va + unat len"
        using that less.prems(3) by simp
      then show ?thesis using s'(6)[rule_format, OF that] ub1[OF that] n by auto
    qed
    moreover have "mem_step s s'" by (rule mem_step_trans[OF _ s'(3)]) simp
    ultimately show ?thesis unfolding step using s'(1,2,4) by blast
  qed
qed

end
