(* ===== verification/Frames.thy ===== *)
theory Frames
  imports Vm
begin

text \<open>
  What console output leaves alone: everything but the video memory, the cursor registers and the record of port
  output. In particular the buffer cache, the disk, the page tables and the tables above them.
\<close>

lemma screen_frame_refl [simp]: "screen_frame s s"
  by (simp add: screen_frame_def)

lemma screen_frame_trans: "screen_frame s t \<Longrightarrow> screen_frame t u \<Longrightarrow> screen_frame s u"
  by (simp add: screen_frame_def)

lemma screen_frame_vidmem [simp]: "screen_frame s (s'\<lparr>vidmem := v\<rparr>) = screen_frame s s'"
  by (simp add: screen_frame_def)

lemma screen_frame_set_cursor [simp]: "screen_frame s (set_cursor_offset off s') = screen_frame s s'"
  by (simp add: screen_frame_def set_cursor_offset_def Let_def)

lemma screen_frame_get_cursor [simp]: "screen_frame s (snd (get_cursor_offset s')) = screen_frame s s'"
  by (simp add: screen_frame_def)

lemma screen_frame_print_char [simp]: "screen_frame s (snd (print_char c col row attr s))"
proof (cases "col \<ge> 0 \<and> row \<ge> 0")
  case True
  then show ?thesis by (simp add: print_char_def Let_def split: if_split)
next
  case False
  obtain off s1 where g: "get_cursor_offset s = (off, s1)" by fastforce
  have "screen_frame s s1" using screen_frame_get_cursor[of s s] by (simp add: g)
  then show ?thesis using False by (simp add: print_char_def Let_def g split: if_split)
qed

lemma screen_frame_kputchar [simp]: "screen_frame s (kputchar c s)"
  by (simp add: kputchar_def)

lemma screen_frame_kputs [simp]: "screen_frame s (kputs cs s)"
proof (induction cs arbitrary: s)
  case (Cons c cs)
  show ?case unfolding kputs.simps by (rule screen_frame_trans[OF screen_frame_kputchar Cons.IH])
qed simp

lemma screen_frame_kprint_loop [simp]: "screen_frame s (kprint_loop cs col row s)"
proof (induction cs arbitrary: col row s)
  case (Cons c cs)
  show ?case unfolding kprint_loop.simps split_beta Let_def
    by (rule screen_frame_trans[OF screen_frame_print_char Cons.IH])
qed simp

lemma screen_frame_kprint_at [simp]: "screen_frame s (kprint_at cs col row s)"
  unfolding kprint_at_def
  using screen_frame_trans[OF _ screen_frame_kprint_loop, of s "snd (get_cursor_offset s)"] by (simp add: split_beta)

lemma screen_frame_kprint [simp]: "screen_frame s (kprint msg s)"
  by (simp add: kprint_def)

lemma screen_frame_kprintint: "kprintint x base sign s = Some s' \<Longrightarrow> screen_frame s s'"
  by (auto simp: kprintint_def Let_def Option.bind_eq_Some_conv)

lemma screen_frame_kprintf_loop: "kprintf_loop fmt args s = Some s' \<Longrightarrow> screen_frame s s'"
proof (induction fmt args s arbitrary: s' rule: kprintf_loop.induct)
  case (3 c f fmt args s)
  then show ?case
    using screen_frame_trans[OF screen_frame_kputchar] screen_frame_trans[OF screen_frame_kputs] screen_frame_kprintint screen_frame_trans
    by (auto split: if_splits list.splits karg.splits simp: Option.bind_eq_Some_conv) blast+
qed (auto split: if_splits)

lemma screen_frame_kprintf: "kprintf fmt args s = Some s' \<Longrightarrow> screen_frame s s'"
  unfolding kprintf_def using screen_frame_trans[OF screen_frame_kprint] screen_frame_kprintf_loop by blast

text \<open>A format without conversions is printed as it is.\<close>

lemma kprintf_loop_plain: "0x25 \<notin> set fmt \<Longrightarrow> kprintf_loop fmt args s = Some (kputs fmt s)"
proof (induction fmt args s rule: kprintf_loop.induct)
  case (3 c f fmt args s)
  then show ?case by auto
qed auto

lemma kprintf_plain: "0x25 \<notin> set (cstr fmt) \<Longrightarrow> kprintf fmt args s = Some (kputs (cstr fmt) (kprint ''kern:'' s))"
  by (simp add: kprintf_def kprintf_loop_plain)

section \<open>The layers above the machine\<close>

lemma screen_frame_ide:
  assumes "screen_frame s (s' :: 'a ide_scheme)"
  shows "disk s' = disk s" "bufs s' = bufs s" "idequeue s' = idequeue s" "havedisk1 s' = havedisk1 s" "ide.more s' = ide.more s"
    "bio_ok s' = bio_ok s" "pins s' = pins s" "bkey s' = bkey s" "blocks s' = blocks s"
proof -
  show a: "disk s' = disk s" "bufs s' = bufs s" "idequeue s' = idequeue s" "havedisk1 s' = havedisk1 s" "ide.more s' = ide.more s"
    using assms by (cases s; cases s'; simp add: screen_frame_def)+
  have "env_in s' = env_in s" "in_pos s' = in_pos s" using assms by (simp_all add: screen_frame_def)
  then show "bio_ok s' = bio_ok s" "pins s' = pins s" "bkey s' = bkey s" "blocks s' = blocks s"
    by (simp_all add: a bio_ok_def env_ok_def ata_live_def ata_clean_def ring_def nx_eta pv_eta buf_ok_def
      pins_def bkey_def blocks_def fun_eq_iff)
qed

lemma screen_frame_kmem:
  assumes "screen_frame s (s' :: 'a kmem_scheme)"
  shows "sb s' = sb s" "icache s' = icache s" "devsw s' = devsw s" "ftable s' = ftable s" "ram s' = ram s" "freelist s' = freelist s"
    "kmem.more s' = kmem.more s" "bc.room k s' = bc.room k s" "file_ok ip s' = file_ok ip s" "contents ip s' = contents ip s"
    "free_pages s' ps = free_pages s ps" "vm_ok d s' ps = vm_ok d s ps" "own d s' ps = own d s ps"
proof -
  have e: "ide.more s' = ide.more s" using screen_frame_ide(5)[OF assms] .
  then show a: "sb s' = sb s" "icache s' = icache s" "devsw s' = devsw s" "ftable s' = ftable s" "ram s' = ram s" "freelist s' = freelist s"
    "kmem.more s' = kmem.more s"
    by (cases s; cases s'; simp)+
  show "bc.room k s' = bc.room k s" "file_ok ip s' = file_ok ip s" "contents ip s' = contents ip s"
    using screen_frame_ide[OF assms] by (simp_all add: bc.room_def file_ok_def contents_def a)
  show f: "free_pages s' ps = free_pages s ps" by (simp add: free_pages_def a)
  show "vm_ok d s' ps = vm_ok d s ps" "own d s' ps = own d s ps" by (simp_all add: vm_ok_def own_def f a)
qed

text \<open>The invariant of the buffer cache depends on the buffers, the disk and its controller only.\<close>

lemma bio_ok_same:
  assumes "bufs s' = bufs s" "disk s' = disk s" "env_ok s' = env_ok s"
  shows "bio_ok s' = bio_ok s" "bc.room k s' = bc.room k s" "blocks s' = blocks s"
  using assms by (simp_all add: bio_ok_def ring_def nx_eta pv_eta nx_def pv_def buf_ok_def bc.room_def pins_def blocks_def fun_eq_iff)

end
