(* ===== verification/Intr.thy ===== *)
theory Intr
  imports Frames
begin

text \<open>
  Setting up interrupts: the descriptor table (cpu/idt.c, cpu/idt.h), its contents and the programming of the two
  interrupt controllers (\<open>isr_install\<close> in cpu/isr.c), the table of C handlers, the timer (cpu/timer.c), the
  keyboard's initialisation (drivers/keyboard.c), \<open>ide_register\<close> and \<open>init_syscall\<close>. What the handlers do is in
  the theory \<open>Trap\<close>. The entry stubs are assembly: their addresses are the argument \<open>stub\<close>.
\<close>

unbundle bit_operations_syntax

record idt_gate =
  low_offset :: u16
  sel :: u16
  always0 :: u8
  flags :: u8
  high_offset :: u16

text \<open>The C functions that are ever registered as handlers.\<close>

datatype handler = Timer_callback | Ideint_callback | Keyboard_callback | Syscall

record intr = vm +
  idt :: "nat \<Rightarrow> idt_gate"
  idt_reg :: "u16 \<times> u32"
  interrupt_handlers :: "nat \<Rightarrow> handler option"
  tick :: u32
  capslock :: bool
  key_buffer :: "u8 list"

definition KERNEL_CS :: u16 where "KERNEL_CS = 8"
definition IDT_ENTRIES :: nat where "IDT_ENTRIES = 256"
definition IRQ0 :: nat where "IRQ0 = 32"
definition IRQ1 :: nat where "IRQ1 = 33"
definition IRQ14 :: nat where "IRQ14 = 46"

definition low_16 :: "u32 \<Rightarrow> u16" where "low_16 a = ucast (a AND 0xFFFF)"
definition high_16 :: "u32 \<Rightarrow> u16" where "high_16 a = ucast (drop_bit 16 a AND 0xFFFF)"

definition set_idt_gate :: "nat \<Rightarrow> u32 \<Rightarrow> 'a intr_scheme \<Rightarrow> 'a intr_scheme" where
  "set_idt_gate n h s = s\<lparr>idt := (idt s)(n := \<lparr>low_offset = low_16 h, sel = KERNEL_CS, always0 = 0,
     flags = (if n = 64 then 0xEF else 0x8E), high_offset = high_16 h\<rparr>)\<rparr>"

text \<open>\<open>idt_addr\<close> is the address of the table; an entry has eight bytes.\<close>

definition set_idt :: "u32 \<Rightarrow> 'a intr_scheme \<Rightarrow> 'a intr_scheme" where
  "set_idt idt_addr s = s\<lparr>idt_reg := (of_nat (IDT_ENTRIES * 8 - 1), idt_addr)\<rparr>"

definition register_interrupt_handler :: "u8 \<Rightarrow> handler \<Rightarrow> 'a intr_scheme \<Rightarrow> 'a intr_scheme" where
  "register_interrupt_handler n h s = s\<lparr>interrupt_handlers := (interrupt_handlers s)(unat n := Some h)\<rparr>"

definition init_timer :: "u32 \<Rightarrow> 'a intr_scheme \<Rightarrow> 'a intr_scheme" where
  "init_timer freq s =
     (let s1 = register_interrupt_handler (of_nat IRQ0) Timer_callback s;
          divisor = 1193180 div freq;
          low = ucast (divisor AND 0xFF);
          high = ucast (drop_bit 8 divisor AND 0xFF)
      in port_byte_out 0x40 high (port_byte_out 0x40 low (port_byte_out 0x43 0x36 s1)))"

definition ide_register :: "'a intr_scheme \<Rightarrow> 'a intr_scheme" where
  "ide_register s = register_interrupt_handler (of_nat IRQ14) Ideint_callback s"

partial_function (option) await_ack :: "'a intr_scheme \<Rightarrow> 'a intr_scheme option" where
  [code]: "await_ack s = (case port_byte_in 0x60 s of (v, s1) \<Rightarrow> if v \<noteq> 0xfa then await_ack s1 else Some s1)"

definition init_keyboard :: "'a intr_scheme \<Rightarrow> 'a intr_scheme option" where
  "init_keyboard s = do {
     s1 \<leftarrow> await_ack (port_byte_out 0x60 0xED s);
     s2 \<leftarrow> kprintf ''kern:capslock:disable!\<newline>'' [] (port_byte_out 0x60 0 s1);
     Some (register_interrupt_handler (of_nat IRQ1) Keyboard_callback (screeninit s2))
   }"

definition init_syscall :: "'a intr_scheme \<Rightarrow> 'a intr_scheme" where
  "init_syscall s = register_interrupt_handler 64 Syscall s"

definition irq_install :: "'a intr_scheme \<Rightarrow> 'a intr_scheme option" where
  "irq_install s = do {
     s1 \<leftarrow> init_keyboard (ide_register (init_timer 50 (cli s)));
     Some (init_syscall s1)
   }"

primrec set_gates :: "(nat \<Rightarrow> u32) \<Rightarrow> nat list \<Rightarrow> 'a intr_scheme \<Rightarrow> 'a intr_scheme" where
  "set_gates stub [] s = s"
| "set_gates stub (n # ns) s = set_gates stub ns (set_idt_gate n (stub n) s)"

primrec port_bytes_out :: "(u16 \<times> u8) list \<Rightarrow> 'a intr_scheme \<Rightarrow> 'a intr_scheme" where
  "port_bytes_out [] s = s"
| "port_bytes_out (x # xs) s = port_bytes_out xs (port_byte_out (fst x) (snd x) s)"

definition isr_install :: "(nat \<Rightarrow> u32) \<Rightarrow> u32 \<Rightarrow> 'a intr_scheme \<Rightarrow> 'a intr_scheme option" where
  "isr_install stub idt_addr s = do {
     let s1 = set_gates stub (1 # 0 # [2..<32]) s;
     let s2 = port_bytes_out [(0x20, 0x11), (0xA0, 0x11), (0x21, 0x20), (0xA1, 0x28), (0x21, 0x04), (0xA1, 0x02),
       (0x21, 0x01), (0xA1, 0x01), (0x21, 0), (0xA1, 0)] s1;
     let s3 = set_gates stub ([32..<48] @ [64]) s2;
     s4 \<leftarrow> irq_install s3;
     Some (set_idt idt_addr s4)
   }"

section \<open>The table after installation\<close>

definition gate_target :: "idt_gate \<Rightarrow> u32" where
  "gate_target g = ucast (low_offset g) OR push_bit 16 (ucast (high_offset g))"

lemma gate_target_split: fixes h :: u32 shows "ucast (low_16 h) OR push_bit 16 (ucast (high_16 h)) = h"
  (is "?l = _")
proof (rule bit_word_eqI)
  have m: "(0xFFFF :: u32) = mask 16" by (simp add: mask_eq_exp_minus_1)
  fix i assume "i < LENGTH(32)"
  then show "bit ?l i = bit h i"
    unfolding low_16_def high_16_def m by (cases "i < 16") (auto simp: bit_simps)
qed

lemma idt_set_gates: "idt (set_gates stub ns s) n =
    (if n \<in> set ns then \<lparr>low_offset = low_16 (stub n), sel = KERNEL_CS, always0 = 0,
       flags = (if n = 64 then 0xEF else 0x8E), high_offset = high_16 (stub n)\<rparr> else idt s n)"
  by (induction ns arbitrary: s) (auto simp: set_idt_gate_def)

text \<open>Console output and port output touch nothing above the machine.\<close>

lemma intr_machine_more:
  assumes "machine.more s' = machine.more (s :: 'a intr_scheme)"
  shows "idt s' = idt s" "interrupt_handlers s' = interrupt_handlers s" "intr_on s' = intr_on s" "devsw s' = devsw s"
    "idt_reg s' = idt_reg s" "icache s' = icache s" "tick s' = tick s" "capslock s' = capslock s" "key_buffer s' = key_buffer s"
  using assms by (cases s; cases s'; simp)+

lemma port_bytes_out_more [simp]: "machine.more (port_bytes_out pvs s) = machine.more s"
  by (induction pvs arbitrary: s) simp_all

lemma port_byte_in_more: "port_byte_in p s = (v, s') \<Longrightarrow> machine.more s' = machine.more s"
  by (auto simp: port_byte_in_def split: if_splits)

lemma await_ack_more:
  assumes "await_ack s = Some s'"
  shows "machine.more s' = machine.more s"
proof (rule await_ack.raw_induct[where P = "\<lambda>s s'. machine.more s' = machine.more s", OF _ assms])
  fix f :: "'a intr_scheme \<Rightarrow> 'a intr_scheme option" and s s'
  assume ih: "\<And>t t'. f t = Some t' \<Longrightarrow> machine.more t' = machine.more t"
    and e: "(case port_byte_in 0x60 s of (v, s1) \<Rightarrow> if v \<noteq> 0xfa then f s1 else Some s1) = Some s'"
  obtain v s1 where p: "port_byte_in 0x60 s = (v, s1)" by fastforce
  then show "machine.more s' = machine.more s"
    using e ih[of s1 s'] port_byte_in_more[OF p] by (simp split: if_splits)
qed

lemma await_ack_returns:
  assumes "env_in s 0x60 (in_pos s 0x60 + k) = 0xfa"
  shows "\<exists>s'. await_ack s = Some s'"
  using assms
proof (induction k arbitrary: s)
  case 0
  then show ?case by (subst await_ack.simps) (simp add: port_byte_in_def)
next
  case (Suc k)
  then have "\<exists>s'. await_ack (s\<lparr>in_pos := (in_pos s)(0x60 := Suc (in_pos s 0x60))\<rparr>) = Some s'" by (intro Suc.IH) simp
  then show ?case by (subst await_ack.simps) (simp add: port_byte_in_def)
qed

text \<open>
  After \<open>isr_install\<close>: vectors 0 to 47 and the system call vector lead to their stubs, only the latter may be raised by the
  user; timer, keyboard, disk and system calls have their handlers; the console is a device. It returns once the keyboard acknowledges.
\<close>

definition installed :: "(nat \<Rightarrow> u32) \<Rightarrow> 'a intr_scheme \<Rightarrow> bool" where
  "installed stub s \<longleftrightarrow>
     (\<forall>n. n < 48 \<or> n = 64 \<longrightarrow> gate_target (idt s n) = stub n \<and> sel (idt s n) = KERNEL_CS
        \<and> (flags (idt s n) AND 0x60 \<noteq> 0 \<longleftrightarrow> n = 64))
   \<and> interrupt_handlers s IRQ0 = Some Timer_callback \<and> interrupt_handlers s IRQ1 = Some Keyboard_callback
   \<and> interrupt_handlers s IRQ14 = Some Ideint_callback \<and> interrupt_handlers s 64 = Some Syscall
   \<and> dev_write (devsw s CONSOLE) = Some Screenewrite \<and> \<not> intr_on s"

lemma register_fields [simp]:
  "idt (register_interrupt_handler n h s) = idt s"
  "interrupt_handlers (register_interrupt_handler n h s) = (interrupt_handlers s)(unat n := Some h)"
  "devsw (register_interrupt_handler n h s) = devsw s" "intr_on (register_interrupt_handler n h s) = intr_on s"
  "env_in (register_interrupt_handler n h s) = env_in s" "in_pos (register_interrupt_handler n h s) = in_pos s"
  by (simp_all add: register_interrupt_handler_def)

lemma set_gates_fields [simp]:
  "env_in (set_gates stub ns s) = env_in s" "in_pos (set_gates stub ns s) = in_pos s"
  by (induction ns arbitrary: s) (simp_all add: set_idt_gate_def)

lemma port_bytes_out_fields [simp]:
  "env_in (port_bytes_out pvs s) = env_in s" "in_pos (port_bytes_out pvs s) = in_pos s"
  by (induction pvs arbitrary: s) simp_all

lemma port_byte_out_intr [simp]:
  fixes s :: "'a intr_scheme"
  shows "idt (port_byte_out p v s) = idt s" "interrupt_handlers (port_byte_out p v s) = interrupt_handlers s"
    "intr_on (port_byte_out p v s) = intr_on s" "devsw (port_byte_out p v s) = devsw s"
  by (rule intr_machine_more; simp)+

lemma port_bytes_out_intr [simp]:
  fixes s :: "'a intr_scheme"
  shows "idt (port_bytes_out xs s) = idt s" "interrupt_handlers (port_bytes_out xs s) = interrupt_handlers s"
  by (rule intr_machine_more; simp)+

lemma init_keyboard_ok:
  assumes "env_in s 0x60 (in_pos s 0x60 + k) = 0xfa"
  obtains s' where "init_keyboard s = Some s'" "idt s' = idt s" "intr_on s' = intr_on s"
    "interrupt_handlers s' = (interrupt_handlers s)(IRQ1 := Some Keyboard_callback)"
    "dev_write (devsw s' CONSOLE) = Some Screenewrite"
proof -
  let ?s0 = "port_byte_out 0x60 0xED s"
  obtain s1 where s1: "await_ack ?s0 = Some s1" using await_ack_returns[of ?s0 k] assms by auto
  let ?m = "''kern:capslock:disable!\<newline>''"
  obtain s2 where s2: "kprintf ?m [] (port_byte_out 0x60 0 s1) = Some s2"
  proof -
    have "0x25 \<notin> set (cstr ?m)" by (simp add: cstr_def)
    then show ?thesis using that kprintf_plain by blast
  qed
  have "machine.more s2 = machine.more s"
    using screen_frame_kprintf[OF s2] await_ack_more[OF s1] by (simp add: screen_frame_def)
  note M = intr_machine_more[OF this]
  have i: "init_keyboard s = Some (register_interrupt_handler (of_nat IRQ1) Keyboard_callback (screeninit s2))"
    using s1 s2 by (simp add: init_keyboard_def)
  show ?thesis by (rule that[OF i]) (simp_all add: screeninit_def M IRQ1_def)
qed

lemma isr_install_ok:
  assumes "env_in s 0x60 (in_pos s 0x60 + k) = 0xfa"
  shows "\<exists>s'. isr_install stub idt_addr s = Some s' \<and> installed stub s' \<and> idt_reg s' = (2047, idt_addr)"
proof -
  define s3 where "s3 = set_gates stub ([32..<48] @ [64]) (port_bytes_out [(0x20, 0x11), (0xA0, 0x11), (0x21, 0x20), (0xA1, 0x28),
     (0x21, 0x04), (0xA1, 0x02), (0x21, 0x01), (0xA1, 0x01), (0x21, 0), (0xA1, 0)] (set_gates stub (1 # 0 # [2..<32]) s))"
  have idt3: "idt s3 n = \<lparr>low_offset = low_16 (stub n), sel = KERNEL_CS, always0 = 0,
      flags = (if n = 64 then 0xEF else 0x8E), high_offset = high_16 (stub n)\<rparr>" if "n < 48 \<or> n = 64" for n
    
  proof -
    have "n \<in> set ([32..<48] @ [64]) \<or> n \<in> set (1 # 0 # [2..<32])" using that unfolding set_append set_upt list.set by auto
    then show ?thesis unfolding s3_def idt_set_gates port_bytes_out_intr by presburger
  qed
  let ?s4 = "ide_register (init_timer 50 (cli s3))"
  have e: "env_in ?s4 0x60 (in_pos ?s4 0x60 + k) = 0xfa"
  proof -
    have "env_in s3 = env_in s" "in_pos s3 = in_pos s" unfolding s3_def by (simp_all only: set_gates_fields port_bytes_out_fields)
    then show ?thesis using assms by (simp add: ide_register_def init_timer_def cli_def Let_def)
  qed
  obtain s5 where s5: "init_keyboard ?s4 = Some s5" "idt s5 = idt ?s4" "intr_on s5 = intr_on ?s4"
    "interrupt_handlers s5 = (interrupt_handlers ?s4)(IRQ1 := Some Keyboard_callback)"
    "dev_write (devsw s5 CONSOLE) = Some Screenewrite"
    by (rule init_keyboard_ok[OF e])
  have r: "isr_install stub idt_addr s = Some (set_idt idt_addr (init_syscall s5))"
    unfolding isr_install_def Let_def s3_def[symmetric] by (simp add: irq_install_def s5(1))
  have i4: "idt ?s4 = idt s3" "\<not> intr_on ?s4" "interrupt_handlers ?s4 IRQ0 = Some Timer_callback"
    "interrupt_handlers ?s4 IRQ14 = Some Ideint_callback"
    by (simp_all add: ide_register_def init_timer_def cli_def Let_def IRQ0_def IRQ14_def)
  have "installed stub (set_idt idt_addr (init_syscall s5))"
    unfolding installed_def using s5 i4 idt3
    by (auto simp: set_idt_def init_syscall_def IRQ0_def IRQ1_def IRQ14_def gate_target_def gate_target_split)
  then show ?thesis using r by (simp add: set_idt_def IDT_ENTRIES_def)
qed

end
