(* ===== verification/Proc.thy ===== *)
theory Proc
  imports Intr
begin

text \<open>
  Processes (kernel/proc.c, include/proc.h) and the switch to a process's address space (\<open>switchuvm\<close> of
  kernel/vm.c). A process is an index into \<open>ptable\<close>; its trap frame and saved context lie on its kernel stack
  in memory, at the offsets of the C structs. What the linker decides (addresses of C and assembly symbols, the embedded
  first program) is the argument \<open>L\<close>. The switch of stacks \<open>swtch\<close> is assembly: \<open>scheduler\<close> is modelled up to its call.
\<close>

unbundle bit_operations_syntax

datatype procstate = UNUSED | EMBYRO | SLEEPING | RUNNABLE | RUNNING

record process =
  p_sz :: u32
  p_pgdir :: u32
  p_kstack :: u32
  p_state :: procstate
  p_pid :: int
  p_parent :: "nat option"
  p_tf :: u32
  p_context :: u32
  p_chan :: u32
  p_killed :: int
  p_ofile :: "nat option list"
  p_cwd :: "nat option"
  p_name :: "u8 list"

definition NPROC :: nat where "NPROC = 64"
definition KSTACKSIZE :: u32 where "KSTACKSIZE = 4096"
definition EFL_IF :: u32 where "EFL_IF = 0x200"

record link =
  l_data :: u32
  l_end :: u32
  l_gdt :: u32
  l_idt :: u32
  l_ts :: u32
  l_stub :: "nat \<Rightarrow> u32"
  l_trapret :: u32
  l_forkret :: u32
  l_ptable :: u32
  l_stack_p :: u32
  l_init :: "u8 list"

record kern = intr +
  ptable :: "nat \<Rightarrow> process"
  curproc :: "nat option"
  initproc :: "nat option"
  nextpid :: int
  first :: bool

definition upd_proc :: "nat \<Rightarrow> (process \<Rightarrow> process) \<Rightarrow> 'a kern_scheme \<Rightarrow> 'a kern_scheme" where
  "upd_proc p f s = s\<lparr>ptable := (ptable s)(p := f (ptable s p))\<rparr>"

text \<open>Offsets in \<open>registers_t\<close> and \<open>struct context\<close>, and their sizes.\<close>

definition TF_EAX :: u32 where "TF_EAX = 28"
definition TF_DS :: u32 where "TF_DS = 32"
definition TF_ES :: u32 where "TF_ES = 36"
definition TF_INT_NO :: u32 where "TF_INT_NO = 48"
definition TF_ERR_CODE :: u32 where "TF_ERR_CODE = 52"
definition TF_EIP :: u32 where "TF_EIP = 56"
definition TF_CS :: u32 where "TF_CS = 60"
definition TF_EFLAGS :: u32 where "TF_EFLAGS = 64"
definition TF_ESP :: u32 where "TF_ESP = 68"
definition TF_SS :: u32 where "TF_SS = 72"
definition TF_SIZE :: u32 where "TF_SIZE = 76"
definition CTX_EIP :: u32 where "CTX_EIP = 16"
definition CTX_SIZE :: u32 where "CTX_SIZE = 20"

definition rd_mem :: "u32 \<Rightarrow> 'a kmem_scheme \<Rightarrow> u32" where "rd_mem a s = ld32 (ram s) (unat a)"
definition wr_mem :: "u32 \<Rightarrow> u32 \<Rightarrow> 'a kmem_scheme \<Rightarrow> 'a kmem_scheme" where
  "wr_mem a w s = s\<lparr>ram := st32 (unat a) w (ram s)\<rparr>"

definition getcurproc :: "'a kern_scheme \<Rightarrow> nat option" where "getcurproc s = curproc s"

section \<open>Creating a process\<close>

text \<open>The loop of \<open>allocproc\<close> counts \<open>i\<close> but never moves \<open>p\<close> on from the first slot.\<close>

fun allocproc_loop :: "link \<Rightarrow> nat \<Rightarrow> nat \<Rightarrow> 'a kern_scheme \<Rightarrow> nat option \<times> 'a kern_scheme" where
  "allocproc_loop L p 0 s = (None, s)"
| "allocproc_loop L p (Suc i) s =
     (if p_state (ptable s p) = UNUSED
      then let s1 = (upd_proc p (\<lambda>x. x\<lparr>p_state := EMBYRO, p_pid := nextpid s\<rparr>) s)\<lparr>nextpid := nextpid s + 1\<rparr>;
               (k, s2) = kalloc s1;
               s3 = upd_proc p (\<lambda>x. x\<lparr>p_kstack := k\<rparr>) s2
           in if k = 0 then (None, upd_proc p (\<lambda>x. x\<lparr>p_state := UNUSED\<rparr>) s3)
              else let tf = k + KSTACKSIZE - TF_SIZE;
                       ctx = tf - 4 - CTX_SIZE;
                       s4 = wr_mem (tf - 4) (l_trapret L) (upd_proc p (\<lambda>x. x\<lparr>p_tf := tf\<rparr>) s3);
                       s5 = upd_proc p (\<lambda>x. x\<lparr>p_context := ctx\<rparr>) s4;
                       s6 = s5\<lparr>ram := memset (unat ctx) 0 (unat CTX_SIZE) (ram s5)\<rparr>
                   in (Some p, wr_mem (ctx + CTX_EIP) (l_forkret L) s6)
      else allocproc_loop L p i s)"

definition allocproc :: "link \<Rightarrow> 'a kern_scheme \<Rightarrow> nat option \<times> 'a kern_scheme" where
  "allocproc L s = allocproc_loop L 0 NPROC s"

section \<open>Running a process\<close>

definition switchuvm :: "link \<Rightarrow> nat option \<Rightarrow> 'a kern_scheme \<Rightarrow> 'a kern_scheme option" where
  "switchuvm L q s = do {
     p \<leftarrow> q;
     let s1 = (if p_kstack (ptable s p) = 0 then kprint ''switchuvm: no kstack'' s else s);
     let s2 = (if p_pgdir (ptable s1 p) = 0 then kprint ''switchuvm: no pgdir'' s1 else s1);
     let s3 = cli s2;
     let g = (SEG16 STS_T32A (l_ts L) (104 - 1) 0)\<lparr>seg_s := 0\<rparr>;
     let s4 = s3\<lparr>gdt := (gdt s3)(SEG_TSS := g),
                 ts := (ts s3)\<lparr>ts_ss0 := push_bit 3 (of_nat SEG_KDATA), ts_esp0 := p_kstack (ptable s3 p) + KSTACKSIZE, ts_iomb := 0xFFFF\<rparr>\<rparr>;
     Some (sti (lcr3 (V2P (p_pgdir (ptable s4 p))) (ltr (push_bit 3 (of_nat SEG_TSS)) s4)))
   }"

text \<open>The scheduler looks for the first process that can run and starts it; while there is none it looks again, with
  interrupts on. The result is the process whose context \<open>swtch\<close> then loads.\<close>

partial_function (option) scheduler :: "link \<Rightarrow> 'a kern_scheme \<Rightarrow> (nat \<times> 'a kern_scheme) option" where
  [code]: "scheduler L s =
     (let s1 = sti s
      in case find (\<lambda>p. p_state (ptable s1 p) = RUNNABLE) [0..<NPROC] of
           Some p \<Rightarrow> Option.bind (switchuvm L (Some p) s1) (\<lambda>s2.
             Some (p, (upd_proc p (\<lambda>x. x\<lparr>p_state := RUNNING\<rparr>) s2)\<lparr>curproc := Some p\<rparr>))
         | None \<Rightarrow> scheduler L s1)"

definition set_tf :: "u32 \<Rightarrow> 'a kern_scheme \<Rightarrow> 'a kern_scheme" where
  "set_tf tf s =
     (let s1 = s\<lparr>ram := memset (unat tf) 0 (unat TF_SIZE) (ram s)\<rparr>;
          s2 = wr_mem (tf + TF_CS) (push_bit 3 (of_nat SEG_UCODE) OR 3) s1;
          s3 = wr_mem (tf + TF_DS) (push_bit 3 (of_nat SEG_UDATA) OR 3) s2;
          s4 = wr_mem (tf + TF_ES) (rd_mem (tf + TF_DS) s3) s3;
          s5 = wr_mem (tf + TF_SS) (rd_mem (tf + TF_DS) s4) s4;
          s6 = wr_mem (tf + TF_EFLAGS) EFL_IF s5;
          s7 = wr_mem (tf + TF_ESP) PGSIZE s6
      in wr_mem (tf + TF_EIP) 0 s7)"

text \<open>\<open>namei\<close> starts at the root for an absolute path, so the current directory, not yet set, does not matter.\<close>

definition uinit :: "link \<Rightarrow> 'a kern_scheme \<Rightarrow> (nat \<times> 'a kern_scheme) option" where
  "uinit L s = (case allocproc L s of (q, s0) \<Rightarrow> do {
     p \<leftarrow> q;
     let s1 = s0\<lparr>initproc := Some p\<rparr>;
     (d, s2) \<leftarrow> setupkvm (l_data L) s1;
     let s3 = upd_proc p (\<lambda>x. x\<lparr>p_pgdir := d\<rparr>) s2;
     s4 \<leftarrow> (if d = 0 then None else inituvm d (l_init L) (of_nat (length (l_init L))) s3);
     let s5 = set_tf (p_tf (ptable s4 p)) (upd_proc p (\<lambda>x. x\<lparr>p_sz := PGSIZE\<rparr>) s4);
     nm \<leftarrow> safestrcpy (p_name (ptable s5 p)) (cstr ''init'' @ [0]) 16;
     (ip, s6) \<leftarrow> namei 0 [47, 0] (upd_proc p (\<lambda>x. x\<lparr>p_name := nm\<rparr>) s5);
     let s7 = upd_proc p (\<lambda>x. x\<lparr>p_cwd := ip, p_state := RUNNABLE\<rparr>) s6;
     s8 \<leftarrow> kprintf ''initialized:get proc:%x ;pggir addr:%x\<newline>'' [KInt (l_stack_p L), KInt (l_ptable L + 4)] s7;
     s9 \<leftarrow> isr_install (l_stub L) (l_idt L) s8;
     s10 \<leftarrow> kprintf ''set IDT  done!\<newline>scheduler.....\<newline>'' [] s9;
     scheduler L s10
   })"

definition forkret :: "'a kern_scheme \<Rightarrow> 'a kern_scheme option" where
  "forkret s = (if first s then iinit ROOTDEV (s\<lparr>first := False\<rparr>) else Some s)"

section \<open>Leaving\<close>

primrec close_all :: "nat \<Rightarrow> nat list \<Rightarrow> 'a kern_scheme \<Rightarrow> 'a kern_scheme option" where
  "close_all p [] s = Some s"
| "close_all p (fd # fds) s =
     (case p_ofile (ptable s p) ! fd of
        None \<Rightarrow> close_all p fds s
      | Some f \<Rightarrow> do {
          s1 \<leftarrow> fileclose f s;
          close_all p fds (upd_proc p (\<lambda>x. x\<lparr>p_ofile := (p_ofile x)[fd := None]\<rparr>) s1)
        })"

definition exit :: "'a kern_scheme \<Rightarrow> 'a kern_scheme option" where
  "exit s = do {
     p \<leftarrow> getcurproc s;
     let s1 = (if Some p = initproc s then kprint ''init exiting\<newline>'' s else s);
     s2 \<leftarrow> close_all p [0..<NOFILE] s1;
     cwd \<leftarrow> p_cwd (ptable s2 p);
     s3 \<leftarrow> iput cwd s2;
     let s4 = upd_proc p (\<lambda>x. x\<lparr>p_cwd := None\<rparr>) s3;
     Some (s4\<lparr>ptable := (\<lambda>q. if q < NPROC \<and> p_parent (ptable s4 q) = Some p then (ptable s4 q)\<lparr>p_parent := initproc s4\<rparr> else ptable s4 q)\<rparr>)
   }"

section \<open>Properties\<close>

lemma upd_proc_fields [simp]:
  "ptable (upd_proc p f s) = (ptable s)(p := f (ptable s p))" "ram (upd_proc p f s) = ram s" "freelist (upd_proc p f s) = freelist s"
  "curproc (upd_proc p f s) = curproc s" "initproc (upd_proc p f s) = initproc s" "nextpid (upd_proc p f s) = nextpid s"
  "icache (upd_proc p f s) = icache s" "ftable (upd_proc p f s) = ftable s" "cr3 (upd_proc p f s) = cr3 s"
  by (simp_all add: upd_proc_def)

lemma free_pages_mem: "ram s' = ram s \<Longrightarrow> freelist s' = freelist s \<Longrightarrow> free_pages s' ps = free_pages s ps"
  by (simp add: free_pages_def)

lemma mem_step_kern:
  assumes "mem_step s (s' :: 'a kern_scheme)"
  shows "ptable s' = ptable s" "curproc s' = curproc s" "initproc s' = initproc s" "nextpid s' = nextpid s" "first s' = first s"
  using mem_stepD(8)[OF assms] by (cases s; cases s'; simp)+

text \<open>A slot that is not free makes \<open>allocproc\<close> give up, whatever the other slots are.\<close>

lemma allocproc_loop_busy: "p_state (ptable s p) \<noteq> UNUSED \<Longrightarrow> allocproc_loop L p i s = (None, s)"
  by (induction i) simp_all

lemma allocproc_busy: "p_state (ptable s 0) \<noteq> UNUSED \<Longrightarrow> allocproc L s = (None, s)"
  by (simp add: allocproc_def allocproc_loop_busy)

lemma kalloc_kern: "kalloc s = (k, s') \<Longrightarrow> ptable s' = ptable s \<and> nextpid s' = nextpid s"
  for s :: "'a kern_scheme"
  using mem_step_kern[OF mem_step_kalloc] by blast

lemma allocproc_full:
  assumes "p_state (ptable s 0) = UNUSED" "free_pages s []"
  shows "\<exists>s'. allocproc L s = (None, s') \<and> p_state (ptable s' 0) = UNUSED"
proof -
  let ?s1 = "(upd_proc 0 (\<lambda>x. x\<lparr>p_state := EMBYRO, p_pid := nextpid s\<rparr>) s)\<lparr>nextpid := nextpid s + 1\<rparr>"
  have "free_pages ?s1 []" using assms(2) by (simp add: free_pages_def)
  then have "kalloc ?s1 = (0, ?s1)" by (rule kalloc_empty)
  then show ?thesis using assms(1) by (simp add: allocproc_def NPROC_def numeral_eq_Suc)
qed

text \<open>The stack of a new process: the trap frame on top, below it the address \<open>trapret\<close> that the return from \<open>forkret\<close>
  pops, below it a context of zeros whose \<open>eip\<close> is \<open>forkret\<close>.\<close>

lemma allocproc_ok:
  assumes un: "p_state (ptable s 0) = UNUSED" and fp: "free_pages s (k # ks)"
  shows "\<exists>s'. allocproc L s = (Some 0, s') \<and> free_pages s' ks \<and> nextpid s' = nextpid s + 1
    \<and> ptable s' = (ptable s)(0 := (ptable s 0)\<lparr>p_state := EMBYRO, p_pid := nextpid s, p_kstack := k,
         p_tf := k + 4020, p_context := k + 3996\<rparr>)
    \<and> rd_mem (k + 4016) s' = l_trapret L \<and> rd_mem (k + 3996 + CTX_EIP) s' = l_forkret L
    \<and> (\<forall>i<4. rd_mem (k + 3996 + 4 * i) s' = 0) \<and> same_outside {k} (ram s) (ram s')"
proof -
  define s1 where "s1 = (upd_proc 0 (\<lambda>x. x\<lparr>p_state := EMBYRO, p_pid := nextpid s\<rparr>) s)\<lparr>nextpid := nextpid s + 1\<rparr>"
  have fp1: "free_pages s1 (k # ks)" using fp by (simp add: free_pages_def s1_def)
  obtain s2 where s2: "kalloc s1 = (k, s2)" "s2 = s1\<lparr>freelist := ld32 (ram s1) (unat k)\<rparr>" "free_pages s2 ks"
    by (rule kalloc_cons[OF fp1])
  have k: "page_al k" "k \<noteq> 0" "k \<notin> set ks" using free_pagesD[OF fp1, of k] fp1 by (auto simp: free_pages_def)
  have u: "unat (k + of_nat j) = unat k + j" if "j < 4096" for j
    using that page_al_bound[OF k(1)] by (simp add: unat_word_ariths unat_of_nat)
  have a: "k + KSTACKSIZE - TF_SIZE = k + 4020" "k + 4020 - 4 = k + 4016" "k + 4020 - 4 - CTX_SIZE = k + 3996" "k + 4016 - CTX_SIZE = k + 3996"
    by (simp_all add: KSTACKSIZE_def TF_SIZE_def CTX_SIZE_def)
  have ua: "unat (k + 4016) = unat k + 4016" "unat (k + 3996) = unat k + 3996" "unat (k + 3996 + CTX_EIP) = unat k + 4012"
    using u[of 4016] u[of 3996] u[of 4012] by (simp_all add: CTX_EIP_def add.assoc)
  let ?m = "st32 (unat k + 4012) (l_forkret L) (memset (unat k + 3996) 0 20 (st32 (unat k + 4016) (l_trapret L) (ram s)))"
  define s' where "s' = snd (allocproc L s)"
  have e: "allocproc L s = (Some 0, wr_mem (k + 3996 + CTX_EIP) (l_forkret L)
     ((upd_proc 0 (\<lambda>x. x\<lparr>p_context := k + 3996\<rparr>) (wr_mem (k + 4016) (l_trapret L) (upd_proc 0 (\<lambda>x. x\<lparr>p_tf := k + 4020\<rparr>)
        (upd_proc 0 (\<lambda>x. x\<lparr>p_kstack := k\<rparr>) s2))))\<lparr>ram := memset (unat (k + 3996)) 0 (unat CTX_SIZE)
          (ram (wr_mem (k + 4016) (l_trapret L) s2))\<rparr>))"
  proof -
    have n: "NPROC = Suc 63" by (simp add: NPROC_def)
    show ?thesis
      unfolding allocproc_def n allocproc_loop.simps(2) s1_def[symmetric] using un s2(1) k(2) by (simp add: Let_def a wr_mem_def)
  qed
  have rm: "ram s' = ?m"
    unfolding s'_def e by (simp add: wr_mem_def ua s2(2) s1_def CTX_SIZE_def)
  have pt: "ptable s' = (ptable s)(0 := (ptable s 0)\<lparr>p_state := EMBYRO, p_pid := nextpid s, p_kstack := k,
         p_tf := k + 4020, p_context := k + 3996\<rparr>)" "nextpid s' = nextpid s + 1" "freelist s' = freelist s2"
    unfolding s'_def e by (simp_all add: wr_mem_def s2(2) s1_def fun_eq_iff)
  have so: "same_outside {k} (ram s) (ram s')"
    by (auto simp: same_outside_def rm st32_def memset_apply in_page_def)
  have "free_pages s' ks"
    using free_pages_cong[OF s2(3), of "{k}" s'] so k pt(3) by (simp add: s2(2) s1_def)
  moreover have "rd_mem (k + 4016) s' = l_trapret L"
  proof -
    have "ld32 ?m (unat k + 4016) = ld32 (st32 (unat k + 4016) (l_trapret L) (ram s)) (unat k + 4016)"
      by (rule ld32_cong) (auto simp: st32_def memset_apply)
    then show ?thesis by (simp add: rd_mem_def rm ua)
  qed
  moreover have "rd_mem (k + 3996 + CTX_EIP) s' = l_forkret L" by (simp add: rd_mem_def rm ua)
  moreover have "rd_mem (k + 3996 + 4 * i) s' = 0" if "i < 4" for i
  proof -
    have i: "unat i < 4" using that by (simp add: word_less_nat_alt)
    have "k + 3996 + 4 * i = k + of_nat (3996 + 4 * unat i)" by simp
    then have "unat (k + 3996 + 4 * i) = unat k + (3996 + 4 * unat i)" using u[of "3996 + 4 * unat i"] i by (simp only:)
    then show ?thesis using i by (simp add: rd_mem_def rm ld32_def st32_def memset_apply)
  qed
  moreover have "fst (allocproc L s) = Some 0" unfolding e by simp
  ultimately show ?thesis using pt so s'_def by (metis prod.collapse)
qed

lemma sti_fields [simp]: "ptable (sti s) = ptable s" "machine.more (sti s) = machine.more (sti s)"
  by (simp_all add: sti_def)

lemma switchuvm_ok:
  assumes "p_kstack (ptable s p) \<noteq> 0" "p_pgdir (ptable s p) \<noteq> 0"
  obtains s' where "switchuvm L (Some p) s = Some s'" "ptable s' = ptable s" "ram s' = ram s"
    "cr3 s' = V2P (p_pgdir (ptable s p))" "ts_esp0 (ts s') = p_kstack (ptable s p) + KSTACKSIZE" "ts_ss0 (ts s') = 16" "tr s' = 40"
    "intr_on s'" "seg_s (gdt s' SEG_TSS) = 0" "icache s' = icache s"
  using assms by (simp add: switchuvm_def Let_def ltr_def lcr3_def cli_def sti_def SEG_TSS_def SEG_KDATA_def)

lemma find_least: "p < n \<Longrightarrow> P p \<Longrightarrow> \<forall>q<p. \<not> P q \<Longrightarrow> find P [0..<n] = Some p"
proof (induction n)
  case (Suc n)
  have app: "find P (xs @ ys) = (case find P xs of None \<Rightarrow> find P ys | Some x \<Rightarrow> Some x)" for xs ys by (induction xs) auto
  show ?case
  proof (cases "p < n")
    case False
    then have "p = n" using Suc.prems(1) by simp
    moreover have "find P [0..<p] = None" using Suc.prems(3) by (simp add: find_None_iff)
    ultimately show ?thesis using Suc.prems(2) by (simp add: app)
  qed (use Suc in \<open>simp add: app\<close>)
qed simp

lemma scheduler_ok:
  assumes "p < NPROC" "p_state (ptable s p) = RUNNABLE" "\<forall>q<p. p_state (ptable s q) \<noteq> RUNNABLE"
    and "p_kstack (ptable s p) \<noteq> 0" "p_pgdir (ptable s p) \<noteq> 0"
  shows "\<exists>s'. scheduler L s = Some (p, s') \<and> ptable s' = (ptable s)(p := (ptable s p)\<lparr>p_state := RUNNING\<rparr>)
    \<and> curproc s' = Some p \<and> cr3 s' = V2P (p_pgdir (ptable s p)) \<and> ts_esp0 (ts s') = p_kstack (ptable s p) + KSTACKSIZE \<and> intr_on s'"
proof -
  have f: "find (\<lambda>q. p_state (ptable s q) = RUNNABLE) [0..<NPROC] = Some p"
    using assms(1-3) by (intro find_least) simp_all
  obtain s2 where s2: "switchuvm L (Some p) (sti s) = Some s2" "ptable s2 = ptable s" "cr3 s2 = V2P (p_pgdir (ptable s p))"
    "ts_esp0 (ts s2) = p_kstack (ptable s p) + KSTACKSIZE" "intr_on s2"
    using switchuvm_ok[of "sti s" p L] assms(4,5) by auto
  show ?thesis using s2 by (subst scheduler.simps) (simp add: Let_def f upd_proc_def)
qed

end
