(* ===== verification/Syscall.thy ===== *)
theory Syscall
  imports Proc
begin

text \<open>
  kernel/syscall.c: fetching the arguments of a system call from the user's stack. The kernel runs on the page
  tables of the current process and dereferences user addresses directly: \<open>uload\<close> is the load of one byte as the
  processor does it in supervisor mode, \<open>None\<close> on a page fault (the kernel's handler for it returns to the faulting
  instruction, so the access never completes). A result of type \<open>int\<close> is the C return value.
\<close>

unbundle bit_operations_syntax

section \<open>User addresses\<close>

definition uload :: "u32 \<Rightarrow> 'a vm_scheme \<Rightarrow> u8 option" where
  "uload va s =
     (let d = P2V (PTE_ADDR (cr3 s)); e = rd_pte (d + 4 * PDX va) s
      in if e AND PTE_P = 0 then None
         else let e2 = rd_pte (P2V (PTE_ADDR e) + 4 * PTX va) s
              in if e2 AND PTE_P = 0 then None
                 else Some (ram s (unat (P2V (PTE_ADDR e2)) + unat va mod 4096)))"

text \<open>Stores also need the page to be writable (write protection is on in supervisor mode).\<close>

definition ustore :: "u32 \<Rightarrow> u8 \<Rightarrow> 'a vm_scheme \<Rightarrow> 'a vm_scheme option" where
  "ustore va b s =
     (let d = P2V (PTE_ADDR (cr3 s)); e = rd_pte (d + 4 * PDX va) s
      in if e AND PTE_P = 0 \<or> e AND PTE_W = 0 then None
         else let e2 = rd_pte (P2V (PTE_ADDR e) + 4 * PTX va) s
              in if e2 AND PTE_P = 0 \<or> e2 AND PTE_W = 0 then None
                 else Some (s\<lparr>ram := (ram s)(unat (P2V (PTE_ADDR e2)) + unat va mod 4096 := b)\<rparr>))"

fun uloads :: "u32 \<Rightarrow> nat \<Rightarrow> 'a vm_scheme \<Rightarrow> u8 list option" where
  "uloads va 0 s = Some []"
| "uloads va (Suc n) s = do { b \<leftarrow> uload va s; bs \<leftarrow> uloads (va + 1) n s; Some (b # bs) }"

fun ustores :: "u32 \<Rightarrow> u8 list \<Rightarrow> 'a vm_scheme \<Rightarrow> 'a vm_scheme option" where
  "ustores va [] s = Some s"
| "ustores va (b # bs) s = do { s1 \<leftarrow> ustore va b s; ustores (va + 1) bs s1 }"

section \<open>Fetching\<close>

definition cur :: "'a kern_scheme \<Rightarrow> process option" where
  "cur s = map_option (ptable s) (getcurproc s)"

text \<open>The pair of the C functions: the return value and what was stored through the pointer, if anything was.\<close>

definition getint :: "u32 \<Rightarrow> 'a kern_scheme \<Rightarrow> (int \<times> u32 option) option" where
  "getint addr s = do {
     p \<leftarrow> cur s;
     if addr \<ge> p_sz p \<or> addr + 4 > p_sz p then Some (- 1, None)
     else do { bs \<leftarrow> uloads addr 4 s; Some (0, Some (of_le bs)) }
   }"

partial_function (option) getstr_loop :: "u32 \<Rightarrow> u32 \<Rightarrow> u32 \<Rightarrow> 'a kern_scheme \<Rightarrow> int option" where
  [code]: "getstr_loop start a ep s =
     (if a < ep
      then Option.bind (uload a s) (\<lambda>b. if b = 0 then Some (sint (a - start)) else getstr_loop start (a + 1) ep s)
      else Some (- 1))"

definition getstr :: "u32 \<Rightarrow> 'a kern_scheme \<Rightarrow> (int \<times> u32 option) option" where
  "getstr addr s = do {
     p \<leftarrow> cur s;
     if addr \<ge> p_sz p then Some (- 1, None)
     else do { r \<leftarrow> getstr_loop addr addr (p_sz p) s; Some (r, Some addr) }
   }"

definition argint :: "u32 \<Rightarrow> 'a kern_scheme \<Rightarrow> (int \<times> u32 option) option" where
  "argint n s = do { p \<leftarrow> cur s; getint (rd_mem (p_tf p + TF_ESP) s + 4 + 4 * n) s }"

definition argptr :: "u32 \<Rightarrow> u32 \<Rightarrow> 'a kern_scheme \<Rightarrow> (int \<times> u32 option) option" where
  "argptr n sz s = do {
     p \<leftarrow> cur s;
     (r, v) \<leftarrow> argint n s;
     if r < 0 then Some (- 1, None)
     else do {
       i \<leftarrow> v;
       if sint sz < 0 \<or> i \<ge> p_sz p \<or> i + sz > p_sz p then Some (- 1, None) else Some (0, Some i)
     }
   }"

definition argstr :: "u32 \<Rightarrow> 'a kern_scheme \<Rightarrow> (int \<times> u32 option) option" where
  "argstr n s = do {
     (r, v) \<leftarrow> argint n s;
     if r < 0 then Some (- 1, None) else do { addr \<leftarrow> v; getstr addr s }
   }"

text \<open>The bytes of a string that \<open>getstr\<close> accepted, with its terminating zero, and a write into the memory that
  \<open>argptr\<close> accepted.\<close>

definition ustring :: "u32 \<Rightarrow> int \<Rightarrow> 'a kern_scheme \<Rightarrow> u8 list option" where
  "ustring a len s = uloads a (nat len + 1) s"

section \<open>Properties\<close>

text \<open>The processor's walk agrees with the view of the page tables as a map.\<close>

lemma P2V_cr3:
  assumes "page_al d" "cr3 s = V2P d"
  shows "P2V (PTE_ADDR (cr3 s)) = d"
proof -
  have "PTE_ADDR (V2P d) = V2P d"
  proof -
    have m: "(0xFFF :: u32) = mask 12" by (simp add: mask_eq_exp_minus_1)
    have "page_al (V2P d)" using page_al_KERNBASE(2)[OF assms(1)] by (simp add: V2P_def)
    then show ?thesis using unat_and_not_mask12[of "V2P d"] by (simp only: PTE_ADDR_def m page_al_def word_unat_eq_iff) simp
  qed
  then show ?thesis by (simp add: assms(2) V2P_def P2V_def)
qed

lemma uload_pmap:
  assumes ok: "vm_ok d s ps" and c: "cr3 s = V2P d"
  shows "uload va s = (if present (pmap d (ram s) va) then Some (user_byte d (ram s) va) else None)"
proof -
  note d = P2V_cr3[OF vm_okD(2)[OF ok] c]
  let ?e = "ent (ram s) d (pdx va)"
  have e: "rd_pte (d + 4 * PDX va) s = ?e" by (rule rd_pde[OF vm_okD(2)[OF ok]])
  have e2: "rd_pte (P2V (PTE_ADDR ?e) + 4 * PTX va) s = ent (ram s) (pt_page ?e) (ptx va)"
    using rd_pte_ent[of ?e va s] by (simp add: pt_page_def)
  show ?thesis
    unfolding uload_def Let_def d e e2 by (simp add: pmap_def present_def user_byte_def pt_page_def)
qed

lemma uload_wr: "ram s' = ram s \<Longrightarrow> cr3 s' = cr3 s \<Longrightarrow> uload va s' = uload va s"
  by (simp add: uload_def rd_pte_def Let_def)

lemma uloads_nth: "uloads va n s = Some bs \<Longrightarrow> length bs = n \<and> (\<forall>i<n. uload (va + of_nat i) s = Some (bs ! i))"
proof (induction n arbitrary: va bs)
  case (Suc n)
  then obtain b cs where b: "uload va s = Some b" "uloads (va + 1) n s = Some cs" "bs = b # cs"
    by (auto simp: Option.bind_eq_Some_conv)
  have "uload (va + of_nat i) s = Some ((b # cs) ! i)" if "i < Suc n" for i
    using b(1) Suc.IH[OF b(2)] that by (cases i) (auto simp: add.assoc[symmetric])
  then show ?case using b(3) Suc.IH[OF b(2)] by simp
qed simp

lemma uloads_total:
  assumes "\<And>i. i < n \<Longrightarrow> uload (va + of_nat i) s \<noteq> None"
  shows "uloads va n s \<noteq> None"
  using assms
proof (induction n arbitrary: va)
  case (Suc n)
  have "uload va s \<noteq> None" using Suc.prems[of 0] by simp
  moreover have "uloads (va + 1) n s \<noteq> None"
    using Suc.prems[of "Suc i" for i] by (intro Suc.IH) (simp add: add.assoc)
  ultimately show ?case by auto
qed simp

text \<open>What \<open>argptr\<close> accepts lies inside the process, without wrap-around: sizes are at most \<open>KERNBASE\<close>.\<close>

lemma sint_nonneg_u32: "0 \<le> sint (x :: u32) \<Longrightarrow> unat x < 2 ^ 31"
proof (rule ccontr)
  assume nn: "0 \<le> sint x" and "\<not> unat x < 2 ^ 31"
  then have "int (2 ^ 31) \<le> int (unat x)" by (simp only: of_nat_le_iff not_less)
  then have u: "2 ^ 31 \<le> uint x" by simp
  have u2: "uint x < 2 ^ 32" using uint_bounded[of x] by simp
  then have "uint x div 2 ^ 31 = 1" using u u2 by (intro int_div_pos_eq[of _ _ _ "uint x - 2 ^ 31"]) simp_all
  then have "bit (uint x) 31" by (simp add: bit_iff_odd)
  moreover have "sint x = take_bit 32 (uint x) - 2 ^ 32 * of_bool (bit (uint x) 31)"
    by (simp add: sint_uint signed_take_bit_eq_take_bit_minus)
  moreover have "take_bit 32 (uint x) = uint x" using u2 by (simp add: take_bit_int_eq_self)
  ultimately show False using nn u2 by simp
qed

lemma argptr_bounds:
  assumes "argptr n sz s = Some (0, Some a)" "cur s = Some p" "p_sz p \<le> KERNBASE"
  shows "0 \<le> sint sz \<and> unat a + unat sz \<le> unat (p_sz p)"
proof -
  have h: "\<not> (sint sz < 0 \<or> a \<ge> p_sz p \<or> a + sz > p_sz p)"
    using assms(1,2) by (auto simp: argptr_def Option.bind_eq_Some_conv split: if_splits prod.splits)
  then have s0: "0 \<le> sint sz" and a: "a < p_sz p" "a + sz \<le> p_sz p" by (simp_all only: de_Morgan_disj not_le not_less)
  have "unat sz < 2 ^ 31"
    by (rule sint_nonneg_u32[OF s0])
  moreover have "unat (p_sz p) \<le> 2 ^ 31" using assms(3) by (simp add: word_le_nat_alt KERNBASE_def)
  ultimately have "unat (a + sz) = unat a + unat sz" using a(1) by (simp add: unat_word_ariths word_less_nat_alt)
  then show ?thesis using a(2) s0 by (simp add: word_le_nat_alt)
qed

lemma getint_bounds:
  assumes "getint a s = Some (0, Some v)" "cur s = Some p" "p_sz p \<le> KERNBASE"
  shows "unat a + 4 \<le> unat (p_sz p)"
proof -
  have a: "a < p_sz p" "a + 4 \<le> p_sz p"
    using assms(1,2) by (auto simp: getint_def Option.bind_eq_Some_conv not_le not_less split: if_splits)
  have "unat (p_sz p) \<le> 2 ^ 31" using assms(3) by (simp add: word_le_nat_alt KERNBASE_def)
  then have "unat (a + 4) = unat a + 4" using a(1) by (simp add: unat_word_ariths word_less_nat_alt)
  then show ?thesis using a(2) by (simp add: word_le_nat_alt)
qed

text \<open>\<open>getstr\<close>: the length of the zero-terminated string at \<open>addr\<close> inside the process, or -1.\<close>

lemma getstr_loop_ok:
  assumes "start \<le> a" "a \<le> ep" "unat ep < 2 ^ 31" "\<And>v. a \<le> v \<Longrightarrow> v < ep \<Longrightarrow> uload v s \<noteq> None"
  shows "\<exists>r. getstr_loop start a ep s = Some r \<and>
    (if r < 0 then r = - 1 \<and> (\<forall>v. a \<le> v \<longrightarrow> v < ep \<longrightarrow> uload v s \<noteq> Some 0)
     else unat a \<le> unat start + nat r \<and> unat start + nat r < unat ep \<and> uload (start + of_int r) s = Some 0
       \<and> (\<forall>v. a \<le> v \<longrightarrow> v < start + of_int r \<longrightarrow> uload v s \<noteq> Some 0))"
  using assms
proof (induction "unat ep - unat a" arbitrary: a)
  case 0
  then have "a = ep" by (simp add: word_le_nat_alt word_unat_eq_iff)
  then show ?case by (subst getstr_loop.simps) auto
next
  case (Suc d)
  have lt: "a < ep" using Suc.hyps(2) by (simp add: word_less_nat_alt)
  have ua: "unat (a + 1) = unat a + 1" using Suc.prems(3) lt by (simp add: unat_word_ariths word_less_nat_alt)
  obtain b where b: "uload a s = Some b" using Suc.prems(4)[of a] lt by auto
  show ?case
  proof (cases "b = 0")
    case True
    obtain k where k: "unat a = unat start + k" using Suc.prems(1) by (auto simp: word_le_nat_alt le_iff_add)
    have us: "unat (a - start) = k" using unat_sub[OF Suc.prems(1)] k by simp
    have kb: "k < 2 ^ 31" using Suc.prems(3) lt k by (simp add: word_less_nat_alt)
    have si: "sint (a - start) = int k" using sint_small_u32[of "a - start"] us kb by simp
    have ak: "start + of_nat k = a"
    proof (rule word_unat_eq_iff[THEN iffD2])
      have "unat a < 2 ^ 32" using unsigned_less[of a] by simp
      then have "unat start + k < 2 ^ 32" using k by simp
      then show "unat (start + of_nat k) = unat a" using kb k by (simp add: unat_word_ariths unat_of_nat)
    qed
    have "getstr_loop start a ep s = Some (int k)" using lt b True si by (subst getstr_loop.simps) simp
    moreover have "unat start + k < unat ep" using lt k by (simp add: word_less_nat_alt)
    ultimately show ?thesis using b True k ak by (intro exI[of _ "int k"]) auto
  next
    case False
    have st: "getstr_loop start a ep s = getstr_loop start (a + 1) ep s" using lt b False by (subst getstr_loop.simps) simp
    have "\<exists>r. getstr_loop start (a + 1) ep s = Some r \<and>
      (if r < 0 then r = - 1 \<and> (\<forall>v. a + 1 \<le> v \<longrightarrow> v < ep \<longrightarrow> uload v s \<noteq> Some 0)
       else unat (a + 1) \<le> unat start + nat r \<and> unat start + nat r < unat ep \<and> uload (start + of_int r) s = Some 0
         \<and> (\<forall>v. a + 1 \<le> v \<longrightarrow> v < start + of_int r \<longrightarrow> uload v s \<noteq> Some 0))"
      using Suc.hyps(2) Suc.prems lt ua by (intro Suc.hyps(1)) (auto simp: word_le_nat_alt word_less_nat_alt)
    then obtain r where r: "getstr_loop start (a + 1) ep s = Some r"
      "r < 0 \<Longrightarrow> r = - 1 \<and> (\<forall>v. a + 1 \<le> v \<longrightarrow> v < ep \<longrightarrow> uload v s \<noteq> Some 0)"
      "\<not> r < 0 \<Longrightarrow> unat (a + 1) \<le> unat start + nat r \<and> unat start + nat r < unat ep \<and> uload (start + of_int r) s = Some 0
         \<and> (\<forall>v. a + 1 \<le> v \<longrightarrow> v < start + of_int r \<longrightarrow> uload v s \<noteq> Some 0)"
      by (metis (full_types))
    have sp: "v = a \<or> a + 1 \<le> v" if "a \<le> v" for v
      using that ua by (auto simp: word_le_nat_alt word_unat_eq_iff)
    have na: "uload a s \<noteq> Some 0" using b False by simp
    show ?thesis unfolding st
    proof (intro exI[of _ r] conjI)
      show "if r < 0 then r = - 1 \<and> (\<forall>v. a \<le> v \<longrightarrow> v < ep \<longrightarrow> uload v s \<noteq> Some 0)
        else unat a \<le> unat start + nat r \<and> unat start + nat r < unat ep \<and> uload (start + of_int r) s = Some 0
          \<and> (\<forall>v. a \<le> v \<longrightarrow> v < start + of_int r \<longrightarrow> uload v s \<noteq> Some 0)"
      proof (cases "r < 0")
        case True
        then show ?thesis using r(2) sp na by auto
      next
        case False
        have "unat a \<le> unat start + nat r" using r(3)[OF False] ua by simp
        then show ?thesis using r(3)[OF False] sp na False by auto
      qed
    qed (rule r(1))
  qed
qed

end
