(* ===== verification/Exec.thy ===== *)
theory Exec
  imports Syscall
begin

text \<open>
  kernel/exec.c and include/elf.h: replacing the memory of the current process by a program read from a file. The
  path is a string in user memory; the arguments are addresses of strings in the old user memory, still current
  while they are copied to the new one. A jump to \<open>bad\<close> is an inner \<open>None\<close>.
\<close>

unbundle bit_operations_syntax

definition ELF_MAGIC :: u32 where "ELF_MAGIC = 0x464C457F"
definition ELF_PROG_LOAD :: u32 where "ELF_PROG_LOAD = 1"
definition MAXARG :: nat where "MAXARG = 5"

record elfhdr =
  e_magic :: u32
  e_elf :: "u8 list"
  e_type :: u16
  e_machine :: u16
  e_version :: u32
  e_entry :: u32
  e_phoff :: u32
  e_shoff :: u32
  e_flags :: u32
  e_ehsize :: u16
  e_phentsize :: u16
  e_phnum :: u16
  e_shentsize :: u16
  e_shnum :: u16
  e_shstrndx :: u16

record proghdr =
  ph_type :: u32
  ph_off :: u32
  ph_vaddr :: u32
  ph_paddr :: u32
  ph_filesz :: u32
  ph_memsz :: u32
  ph_flags :: u32
  ph_align :: u32

definition dec_elfhdr :: "u8 list \<Rightarrow> elfhdr" where
  "dec_elfhdr b = \<lparr>e_magic = rd32 0 b, e_elf = slice 4 12 b, e_type = rd16 16 b, e_machine = rd16 18 b, e_version = rd32 20 b,
     e_entry = rd32 24 b, e_phoff = rd32 28 b, e_shoff = rd32 32 b, e_flags = rd32 36 b, e_ehsize = rd16 40 b,
     e_phentsize = rd16 42 b, e_phnum = rd16 44 b, e_shentsize = rd16 46 b, e_shnum = rd16 48 b, e_shstrndx = rd16 50 b\<rparr>"

definition dec_proghdr :: "u8 list \<Rightarrow> proghdr" where
  "dec_proghdr b = \<lparr>ph_type = rd32 0 b, ph_off = rd32 4 b, ph_vaddr = rd32 8 b, ph_paddr = rd32 12 b, ph_filesz = rd32 16 b,
     ph_memsz = rd32 20 b, ph_flags = rd32 24 b, ph_align = rd32 28 b\<rparr>"

definition ELF_SIZE :: nat where "ELF_SIZE = 52"
definition PH_SIZE :: nat where "PH_SIZE = 32"

section \<open>Loading\<close>

text \<open>The loop over the program headers: \<open>Some sz\<close> when all are loaded.\<close>

fun exec_segments :: "u32 \<Rightarrow> nat \<Rightarrow> nat \<Rightarrow> u32 \<Rightarrow> u32 \<Rightarrow> 'a kern_scheme \<Rightarrow> (u32 option \<times> 'a kern_scheme) option" where
  "exec_segments pgdir ip 0 off sz s = Some (Some sz, s)"
| "exec_segments pgdir ip (Suc n) off sz s = do {
     (r, b, s1) \<leftarrow> readi ip (replicate PH_SIZE 0) off (of_nat PH_SIZE) s;
     let ph = dec_proghdr b;
     if r \<noteq> int PH_SIZE then Some (None, s1)
     else if ph_type ph \<noteq> ELF_PROG_LOAD then exec_segments pgdir ip n (off + of_nat PH_SIZE) sz s1
     else if ph_memsz ph < ph_filesz ph then Some (None, s1)
     else if ph_vaddr ph + ph_memsz ph < ph_vaddr ph then Some (None, s1)
     else do {
       (sz', s2) \<leftarrow> allocuvm pgdir sz (ph_vaddr ph + ph_memsz ph) s1;
       if sz' = 0 then Some (None, s2)
       else if ph_vaddr ph mod PGSIZE \<noteq> 0 then Some (None, s2)
       else do {
         (r2, s3) \<leftarrow> loaduvm pgdir (ph_vaddr ph) ip (ph_off ph) (ph_filesz ph) s2;
         if r2 < 0 then Some (None, s3) else exec_segments pgdir ip n (off + of_nat PH_SIZE) sz' s3
       }
     }
   }"

section \<open>Arguments\<close>

text \<open>\<open>strlen\<close> of a string in user memory.\<close>

partial_function (option) ustrlen :: "u32 \<Rightarrow> 'a vm_scheme \<Rightarrow> nat option" where
  [code]: "ustrlen a s = Option.bind (uload a s) (\<lambda>b. if b = 0 then Some 0 else Option.bind (ustrlen (a + 1) s) (\<lambda>n. Some (Suc n)))"

text \<open>The argument strings are pushed one by one; the result is the stack pointer and the addresses pushed.\<close>

fun exec_args :: "u32 \<Rightarrow> u32 list \<Rightarrow> u32 \<Rightarrow> u32 list \<Rightarrow> 'a kern_scheme \<Rightarrow> ((u32 \<times> u32 list) option \<times> 'a kern_scheme) option" where
  "exec_args pgdir [] sp ustack s = None"
| "exec_args pgdir (a # as) sp ustack s =
     (if a = 0 then Some (Some (sp, ustack), s)
      else if length ustack \<ge> MAXARG then Some (None, s)
      else do {
        len \<leftarrow> ustrlen a s;
        let sp' = (sp - (of_nat len + 1)) AND NOT 3;
        str \<leftarrow> uloads a (len + 1) s;
        (r, s1) \<leftarrow> copyout pgdir sp' str (of_nat len + 1) s;
        if r < 0 then Some (None, s1) else exec_args pgdir as sp' (ustack @ [sp']) s1
      })"

text \<open>The first page of the stack that \<open>main\<close> finds: return address, \<open>argc\<close>, \<open>argv\<close>, and the argument pointers with their null.\<close>

definition user_stack :: "u32 \<Rightarrow> u32 list \<Rightarrow> u32 list" where
  "user_stack sp ustack = [0xFFFFFFFF, of_nat (length ustack), sp - (of_nat (length ustack) + 1) * 4] @ ustack @ [0]"

fun last_elem :: "u8 list \<Rightarrow> u8 list \<Rightarrow> u8 list" where
  "last_elem lst [] = lst"
| "last_elem lst (c # cs) = (if c = 0 then lst else last_elem (if c = 47 then cs else lst) cs)"

section \<open>The call\<close>

text \<open>The directory where \<open>namex\<close> starts: it does not look at the current directory for an absolute path.\<close>

definition start_dir :: "nat \<Rightarrow> u8 list \<Rightarrow> 'a kern_scheme \<Rightarrow> nat option" where
  "start_dir p path s = (if path \<noteq> [] \<and> hd path = 47 then Some 0 else p_cwd (ptable s p))"

definition exec_bad :: "u32 \<Rightarrow> nat option \<Rightarrow> 'a kern_scheme \<Rightarrow> (int \<times> 'a kern_scheme) option" where
  "exec_bad pgdir ip s = do {
     s1 \<leftarrow> (if pgdir \<noteq> 0 then freevm pgdir s else Some s);
     s2 \<leftarrow> (case ip of Some i \<Rightarrow> iunlockput i s1 | None \<Rightarrow> Some s1);
     Some (- 1, s2)
   }"

text \<open>The switch of the process to its new memory.\<close>

definition exec_switch :: "link \<Rightarrow> nat \<Rightarrow> u8 list \<Rightarrow> u32 \<Rightarrow> u32 \<Rightarrow> u32 \<Rightarrow> u32 \<Rightarrow> 'a kern_scheme \<Rightarrow> (int \<times> 'a kern_scheme) option" where
  "exec_switch L p path pgdir eip sz sp s = do {
     nm \<leftarrow> safestrcpy (p_name (ptable s p)) (last_elem path path) 16;
     let oldpgdir = p_pgdir (ptable s p);
     let s1 = upd_proc p (\<lambda>x. x\<lparr>p_name := nm, p_pgdir := pgdir, p_sz := sz\<rparr>) s;
     let s2 = wr_mem (p_tf (ptable s1 p) + TF_EIP) eip s1;
     let s3 = wr_mem (p_tf (ptable s2 p) + TF_ESP) sp s2;
     s4 \<leftarrow> kprintf ''load elf proc:%s\<newline>'' [KStr (str_of nm)] s3;
     s5 \<leftarrow> switchuvm L (Some p) s4;
     s6 \<leftarrow> freevm oldpgdir s5;
     Some (0, s6)
   }"

text \<open>From the stack set-up on, with the file already released.\<close>

definition exec_commit :: "link \<Rightarrow> nat \<Rightarrow> u8 list \<Rightarrow> u32 list \<Rightarrow> u32 \<Rightarrow> u32 \<Rightarrow> u32 \<Rightarrow> 'a kern_scheme \<Rightarrow> (int \<times> 'a kern_scheme) option" where
  "exec_commit L p path argv pgdir eip sz0 s = do {
     (sz, s1) \<leftarrow> allocuvm pgdir (PGROUNDUP sz0) (PGROUNDUP sz0 + 2 * PGSIZE) s;
     if sz = 0 then exec_bad pgdir None s1
     else do {
       s2 \<leftarrow> clearpteu pgdir (sz - 2 * PGSIZE) s1;
       (a, s3) \<leftarrow> exec_args pgdir argv sz [] s2;
       case a of None \<Rightarrow> exec_bad pgdir None s3
       | Some (sp0, ustack) \<Rightarrow> do {
           let words = user_stack sp0 ustack;
           let len = (3 + of_nat (length ustack) + 1) * 4;
           let sp = sp0 - len;
           (r, s4) \<leftarrow> copyout pgdir sp (enc_words words) len s3;
           if r < 0 then exec_bad pgdir None s4 else exec_switch L p path pgdir eip sz sp s4
         }
     }
   }"

definition exec :: "link \<Rightarrow> u8 list \<Rightarrow> u32 list \<Rightarrow> 'a kern_scheme \<Rightarrow> (int \<times> 'a kern_scheme) option" where
  "exec L path argv s = do {
     p \<leftarrow> getcurproc s;
     s0 \<leftarrow> kprintf ''real exec: \<newline>'' [] s;
     cwd \<leftarrow> start_dir p path s0;
     (q, s1) \<leftarrow> namei cwd path s0;
     case q of None \<Rightarrow> do { s2 \<leftarrow> kprintf ''exec: fail\<newline>'' [] s1; Some (- 1, s2) }
     | Some ip \<Rightarrow> do {
         s2 \<leftarrow> ilock ip s1;
         s3 \<leftarrow> kprintf ''ready check elf header\<newline>'' [] s2;
         (r, b, s4) \<leftarrow> readi ip (replicate ELF_SIZE 0) 0 (of_nat ELF_SIZE) s3;
         let elf = dec_elfhdr b;
         if r \<noteq> int ELF_SIZE then exec_bad 0 (Some ip) s4
         else if e_magic elf \<noteq> ELF_MAGIC then exec_bad 0 (Some ip) s4
         else do {
           (pgdir, s5) \<leftarrow> setupkvm (l_data L) s4;
           if pgdir = 0 then exec_bad 0 (Some ip) s5
           else do {
             s6 \<leftarrow> kprintf ''check elf header:OK\<newline>'' [] s5;
             (sz, s7) \<leftarrow> exec_segments pgdir ip (unat (e_phnum elf)) (e_phoff elf) 0 s6;
             case sz of None \<Rightarrow> exec_bad pgdir (Some ip) s7
             | Some sz0 \<Rightarrow> do {
                 s8 \<leftarrow> iunlockput ip s7;
                 exec_commit L p path argv pgdir (e_entry elf) sz0 s8
               }
           }
         }
       }
   }"

end
