(* ===== verification/Sh.thy ===== *)
theory Sh
  imports Intr
begin

text \<open>
  kernel/sh.c: the commands typed at the keyboard. The \<open>struct buf\<close> on the stack of the two disk tests is the
  buffer at the address \<open>stack_buf\<close>, outside the cache; it is uninitialised, so it holds what the state holds there.
  \<open>hlt\<close> runs inside an interrupt handler, with interrupts off, and never returns.
\<close>

unbundle bit_operations_syntax

definition stack_buf :: nat where "stack_buf = 31"

definition kprint_array :: "u8 list \<Rightarrow> 'a machine_scheme \<Rightarrow> 'a machine_scheme option" where
  "kprint_array str s = (if terminated str then Some (kprint_at (str_of str) (- 1) (- 1) s) else None)"

definition sh_page :: "'a machine_scheme \<Rightarrow> 'a machine_scheme option" where
  "sh_page s = do {
     page_str \<leftarrow> hex_to_ascii 0 (replicate 16 0);
     phys_str \<leftarrow> hex_to_ascii 0 (replicate 16 0);
     s1 \<leftarrow> kprint_array page_str (kprint ''Page:'' s);
     s2 \<leftarrow> kprint_array phys_str (kprint '',physical address: '' s1);
     Some (kprint ''\<newline>'' s2)
   }"

definition sh_testidew :: "'a ide_scheme \<Rightarrow> 'a ide_scheme option" where
  "sh_testidew s = do {
     s1 \<leftarrow> iderw stack_buf (upd_buf stack_buf
       (\<lambda>b. b\<lparr>b_blockno := 1, b_flags := B_DIRTY, b_data := blit 0 (cstr ''eeeeee'') (b_data b), b_dev := 1\<rparr>) s);
     kprintf ''ide write:%s\<newline>'' [KStr (cstr ''eeeeee'')] s1
   }"

definition sh_testider :: "'a ide_scheme \<Rightarrow> 'a ide_scheme option" where
  "sh_testider s = do {
     s1 \<leftarrow> iderw stack_buf (upd_buf stack_buf (\<lambda>b. b\<lparr>b_blockno := 1, b_flags := B_DIRTY, b_dev := 1\<rparr>) s);
     kprintf ''ide read:%c\<newline>'' [KInt (scast (b_data (bufs s1 stack_buf) ! 0))] s1
   }"

definition user_input :: "u8 list \<Rightarrow> 'a ide_scheme \<Rightarrow> 'a ide_scheme option" where
  "user_input input s = do {
     cls \<leftarrow> strcmp input (cstr ''CLS'' @ [0]);
     s1 \<leftarrow> (if cls = 0 then Some (clear_screen s) else do {
       fin \<leftarrow> strcmp input (cstr ''END'' @ [0]);
       if fin = 0 then None else do {
         page \<leftarrow> strcmp input (cstr ''PAGE'' @ [0]);
         if page = 0 then sh_page s else do {
           tw \<leftarrow> strcmp input (cstr ''TESTIDEW'' @ [0]);
           if tw = 0 then sh_testidew s else do {
             tr \<leftarrow> strcmp input (cstr ''TESTIDER'' @ [0]);
             if tr = 0 then sh_testider s else Some s
           } } } });
     s2 \<leftarrow> kprint_array input (kprint ''You said:'' s1);
     Some (kprint ''\<newline>>'' s2)
   }"

end
