(* ===== verification/Calls.thy ===== *)
theory Calls
  imports Exec Sh
begin

text \<open>
  kernel/calls.c: the system calls, on top of the argument fetching of \<open>Syscall\<close>, the open files and the paths. A
  result \<open>(r, s')\<close> is the value the process gets in \<open>eax\<close>. Buffers and strings stay in user memory: the bytes a
  call reads are loaded from there, and the bytes it writes are stored there, by the page tables in force.
\<close>

unbundle bit_operations_syntax

definition O_RDONLY :: u32 where "O_RDONLY = 0"
definition O_WRONLY :: u32 where "O_WRONLY = 1"
definition O_RDWR :: u32 where "O_RDWR = 2"
definition O_CREATE :: u32 where "O_CREATE = 0x200"

section \<open>User memory\<close>

text \<open>The string at a user address, without its zero; the bytes from an address on, as far as they can be loaded.\<close>

definition user_str :: "u32 \<Rightarrow> 'a vm_scheme \<Rightarrow> u8 list option" where
  "user_str a s = do { n \<leftarrow> ustrlen a s; uloads a n s }"

fun uprefix :: "u32 \<Rightarrow> nat \<Rightarrow> 'a vm_scheme \<Rightarrow> u8 list" where
  "uprefix va 0 s = []"
| "uprefix va (Suc n) s = (case uload va s of None \<Rightarrow> [] | Some b \<Rightarrow> b # uprefix (va + 1) n s)"

section \<open>Programs\<close>

text \<open>The loop that collects \<open>argv\<close>: \<open>Some None\<close> when the call fails.\<close>

primrec exec_argv :: "u32 \<Rightarrow> nat list \<Rightarrow> u32 list \<Rightarrow> 'a kern_scheme \<Rightarrow> u32 list option option" where
  "exec_argv uargv [] argv s = Some None"
| "exec_argv uargv (i # is) argv s = do {
     (r, v) \<leftarrow> getint (uargv + 4 * of_nat i) s;
     if r < 0 then Some None else do {
       uarg \<leftarrow> v;
       if uarg = 0 then Some (Some (argv @ [0])) else do {
         (r2, a) \<leftarrow> getstr uarg s;
         if r2 < 0 then Some None else exec_argv uargv is (argv @ [uarg]) s
       } } }"

definition sys_exec :: "link \<Rightarrow> 'a kern_scheme \<Rightarrow> (int \<times> 'a kern_scheme) option" where
  "sys_exec L s = do {
     (r, v) \<leftarrow> argstr 0 s;
     if r < 0 then Some (- 1, s) else do {
       path \<leftarrow> v;
       (r2, v2) \<leftarrow> argint 1 s;
       if r2 < 0 then Some (- 1, s) else do {
         uargv \<leftarrow> v2;
         q \<leftarrow> exec_argv uargv [0..<MAXARG] [] s;
         case q of None \<Rightarrow> Some (- 1, s)
         | Some argv \<Rightarrow> do {
             str \<leftarrow> user_str path s;
             arg0 \<leftarrow> user_str (hd argv) s;
             s1 \<leftarrow> kprintf ''exec:%s,%s\<newline>'' [KStr str, KStr arg0] s;
             s2 \<leftarrow> user_input (cstr ''test IDE'' @ [0]) s1;
             exec L (str @ [0]) argv s2
           } } } }"

definition sys_exit :: "'a kern_scheme \<Rightarrow> (int \<times> 'a kern_scheme) option" where
  "sys_exit s = do { s1 \<leftarrow> exit s; Some (0, s1) }"

section \<open>Files by path\<close>

definition fdalloc :: "nat \<Rightarrow> 'a kern_scheme \<Rightarrow> (int \<times> 'a kern_scheme) option" where
  "fdalloc f s = do {
     p \<leftarrow> getcurproc s;
     Some (case find (\<lambda>fd. p_ofile (ptable s p) ! fd = None) [0..<NOFILE] of
       None \<Rightarrow> (- 1, s)
     | Some fd \<Rightarrow> (int fd, upd_proc p (\<lambda>x. x\<lparr>p_ofile := (p_ofile x)[fd := Some f]\<rparr>) s))
   }"

text \<open>The two entries of a new directory, in the order and with the short circuit of the C condition.\<close>

definition create_dots :: "nat \<Rightarrow> nat \<Rightarrow> 'a fs_scheme \<Rightarrow> 'a fs_scheme option" where
  "create_dots dp ip s = do {
     s1 \<leftarrow> iupdate dp (upd_inode dp (\<lambda>x. x\<lparr>i_nlink := i_nlink x + 1\<rparr>) s);
     (r, s2) \<leftarrow> dirlink ip [46, 0] (i_inum (icache s1 ip)) s1;
     (bad, s3) \<leftarrow> (if r < 0 then Some (True, s2)
        else do { (r2, s3) \<leftarrow> dirlink ip [46, 46, 0] (i_inum (icache s2 dp)) s2; Some (r2 < 0, s3) });
     Some (if bad then kprint ''create dots'' s3 else s3)
   }"

text \<open>When there is no free inode the code reports it and goes on with the null pointer.\<close>

definition create :: "nat \<Rightarrow> u8 list \<Rightarrow> u16 \<Rightarrow> u16 \<Rightarrow> u16 \<Rightarrow> 'a fs_scheme \<Rightarrow> (nat option \<times> 'a fs_scheme) option" where
  "create cwd path type major minor s = do {
     (d, name, s1) \<leftarrow> nameiparent cwd path (replicate DIRSIZ 0) s;
     case d of None \<Rightarrow> Some (None, s1)
     | Some dp \<Rightarrow> do {
         s2 \<leftarrow> ilock dp s1;
         (found, s3) \<leftarrow> dirlookup dp name s2;
         case found of
           Some (ip, off) \<Rightarrow> do {
             s4 \<leftarrow> iunlockput dp s3;
             s5 \<leftarrow> ilock ip s4;
             if type = T_FILE \<and> i_type (icache s5 ip) = T_FILE then Some (Some ip, s5)
             else do { s6 \<leftarrow> iunlockput ip s5; Some (None, s6) }
           }
         | None \<Rightarrow> do {
             (q, s4) \<leftarrow> ialloc (i_dev (icache s3 dp)) type s3;
             ip \<leftarrow> q;
             s5 \<leftarrow> ilock ip s4;
             s6 \<leftarrow> iupdate ip (upd_inode ip (\<lambda>x. x\<lparr>i_major := major, i_minor := minor, i_nlink := 1\<rparr>) s5);
             s7 \<leftarrow> (if type = T_DIR then create_dots dp ip s6 else Some s6);
             (r, s8) \<leftarrow> dirlink dp name (i_inum (icache s7 ip)) s7;
             s9 \<leftarrow> iunlockput dp (if r < 0 then kprint ''create: dirlink'' s8 else s8);
             Some (Some ip, s9)
           }
       }
   }"

section \<open>Open files\<close>

text \<open>The first half of \<open>sys_open\<close>: the inode, locked and with a reference, or null.\<close>

definition open_inode :: "nat \<Rightarrow> u8 list \<Rightarrow> u32 \<Rightarrow> 'a fs_scheme \<Rightarrow> (nat option \<times> 'a fs_scheme) option" where
  "open_inode cwd path omode s =
     (if omode AND O_CREATE \<noteq> 0 then create cwd path T_FILE 0 0 s
      else do {
        (q, s1) \<leftarrow> namei cwd path s;
        case q of None \<Rightarrow> Some (None, s1)
        | Some ip \<Rightarrow> do {
            s2 \<leftarrow> ilock ip s1;
            if i_type (icache s2 ip) = T_DIR \<and> omode \<noteq> O_RDONLY
            then do { s3 \<leftarrow> iunlockput ip s2; Some (None, s3) }
            else Some (Some ip, s2)
          }
      })"

text \<open>The second half: a table entry and a descriptor for it; failing, both are given back.\<close>

definition open_file_of :: "nat \<Rightarrow> u32 \<Rightarrow> 'a kern_scheme \<Rightarrow> (int \<times> 'a kern_scheme) option" where
  "open_file_of ip omode s =
     (case filealloc s of
        (None, s1) \<Rightarrow> do { s2 \<leftarrow> iunlockput ip s1; Some (- 1, s2) }
      | (Some f, s1) \<Rightarrow> do {
          (fd, s2) \<leftarrow> fdalloc f s1;
          if fd < 0 then do { s3 \<leftarrow> fileclose f s2; s4 \<leftarrow> iunlockput ip s3; Some (- 1, s4) }
          else Some (fd, upd_file f (\<lambda>x. x\<lparr>f_type := FD_INODE, f_ip := Some ip, f_off := 0,
            f_readable := (omode AND O_WRONLY = 0),
            f_writable := (omode AND O_WRONLY \<noteq> 0 \<or> omode AND O_RDWR \<noteq> 0)\<rparr>) (iunlock ip s2))
        })"

definition sys_open :: "'a kern_scheme \<Rightarrow> (int \<times> 'a kern_scheme) option" where
  "sys_open s = do {
     (r, v) \<leftarrow> argstr 0 s;
     if r < 0 then Some (- 1, s) else do {
       path \<leftarrow> v;
       (r2, v2) \<leftarrow> argint 1 s;
       if r2 < 0 then Some (- 1, s) else do {
         omode \<leftarrow> v2;
         str \<leftarrow> user_str path s;
         p \<leftarrow> getcurproc s;
         cwd \<leftarrow> start_dir p (str @ [0]) s;
         (q, s1) \<leftarrow> open_inode cwd (str @ [0]) omode s;
         case q of None \<Rightarrow> Some (- 1, s1) | Some ip \<Rightarrow> open_file_of ip omode s1
       } } }"

definition sys_mknod :: "'a kern_scheme \<Rightarrow> (int \<times> 'a kern_scheme) option" where
  "sys_mknod s = do {
     (r, v) \<leftarrow> argstr 0 s;
     if r < 0 then Some (- 1, s) else do {
       path \<leftarrow> v;
       (r2, v2) \<leftarrow> argint 1 s;
       if r2 < 0 then Some (- 1, s) else do {
         major \<leftarrow> v2;
         (r3, v3) \<leftarrow> argint 2 s;
         if r3 < 0 then Some (- 1, s) else do {
           minor \<leftarrow> v3;
           str \<leftarrow> user_str path s;
           p \<leftarrow> getcurproc s;
           cwd \<leftarrow> start_dir p (str @ [0]) s;
           (q, s1) \<leftarrow> create cwd (str @ [0]) T_DEV (ucast major) (ucast minor) s;
           case q of None \<Rightarrow> Some (- 1, s1)
           | Some ip \<Rightarrow> do { s2 \<leftarrow> iunlockput ip s1; Some (0, s2) }
         } } } }"

text \<open>\<open>argfd\<close>: the descriptor and the open file behind it, if argument \<open>n\<close> is a descriptor in use.\<close>

definition argfd :: "u32 \<Rightarrow> 'a kern_scheme \<Rightarrow> (nat \<times> nat) option option" where
  "argfd n s = do {
     (r, v) \<leftarrow> argint n s;
     if r < 0 then Some None else do {
       fd \<leftarrow> v;
       p \<leftarrow> getcurproc s;
       if sint fd < 0 \<or> sint fd \<ge> int NOFILE then Some None
       else Some (map_option (\<lambda>f. (unat fd, f)) (p_ofile (ptable s p) ! unat fd))
     } }"

text \<open>The common beginning of \<open>sys_read\<close> and \<open>sys_write\<close>: the file, the address of the buffer and its size.\<close>

definition rw_args :: "'a kern_scheme \<Rightarrow> (nat \<times> u32 \<times> u32) option option" where
  "rw_args s = do {
     a \<leftarrow> argfd 0 s;
     case a of None \<Rightarrow> Some None
     | Some (fd, f) \<Rightarrow> do {
         (r, v) \<leftarrow> argint 2 s;
         if r < 0 then Some None else do {
           n \<leftarrow> v;
           (r2, v2) \<leftarrow> argptr 1 n s;
           if r2 < 0 then Some None else do { p \<leftarrow> v2; Some (Some (f, p, n)) }
         } } }"

definition sys_write :: "'a kern_scheme \<Rightarrow> (int \<times> 'a kern_scheme) option" where
  "sys_write s = do {
     a \<leftarrow> rw_args s;
     case a of None \<Rightarrow> Some (- 1, s)
     | Some (f, p, n) \<Rightarrow> filewrite f (uprefix p (unat n) s) (sint n) s
   }"

definition sys_read :: "'a kern_scheme \<Rightarrow> (int \<times> 'a kern_scheme) option" where
  "sys_read s = do {
     a \<leftarrow> rw_args s;
     case a of None \<Rightarrow> Some (- 1, s)
     | Some (f, p, n) \<Rightarrow> do {
         (r, buf, s1) \<leftarrow> fileread f (replicate (unat n) 0) (sint n) s;
         s2 \<leftarrow> ustores p (take (nat r) buf) s1;
         Some (r, s2)
       } }"

definition sys_close :: "'a kern_scheme \<Rightarrow> (int \<times> 'a kern_scheme) option" where
  "sys_close s = do {
     a \<leftarrow> argfd 0 s;
     case a of None \<Rightarrow> Some (- 1, s)
     | Some (fd, f) \<Rightarrow> do {
         p \<leftarrow> getcurproc s;
         s1 \<leftarrow> fileclose f (upd_proc p (\<lambda>x. x\<lparr>p_ofile := (p_ofile x)[fd := None]\<rparr>) s);
         Some (0, s1)
       } }"

text \<open>\<open>struct stat\<close> in memory: \<open>stati\<close> stores the members, not the padding behind the two short ones.\<close>

definition put_stat :: "u32 \<Rightarrow> stat \<Rightarrow> 'a vm_scheme \<Rightarrow> 'a vm_scheme option" where
  "put_stat a st s = do {
     s1 \<leftarrow> ustores (a + 4) (to_le 4 (st_dev st)) s;
     s2 \<leftarrow> ustores (a + 8) (to_le 4 (st_ino st)) s1;
     s3 \<leftarrow> ustores a (to_le 2 (st_type st)) s2;
     s4 \<leftarrow> ustores (a + 12) (to_le 2 (st_nlink st)) s3;
     ustores (a + 16) (to_le 4 (st_size st)) s4
   }"

definition sys_fstat :: "'a kern_scheme \<Rightarrow> (int \<times> 'a kern_scheme) option" where
  "sys_fstat s = do {
     a \<leftarrow> argfd 0 s;
     case a of None \<Rightarrow> Some (- 1, s)
     | Some (fd, f) \<Rightarrow> do {
         (r, v) \<leftarrow> argptr 1 20 s;
         if r < 0 then Some (- 1, s) else do {
           st \<leftarrow> v;
           (r2, x, s1) \<leftarrow> filestat f s;
           s2 \<leftarrow> (case x of Some y \<Rightarrow> put_stat st y s1 | None \<Rightarrow> Some s1);
           Some (r2, s2)
         } } }"

end
