(* ===== verification/User_IO.thy ===== *)
theory User_IO
  imports Calls
begin

text \<open>
  The system calls that move data between a process and a file (\<open>sys_read\<close>, \<open>sys_write\<close> of kernel/calls.c), over all layers:
  the checks of the arguments, the page tables through which the buffer is accessed, the open file, the blocks on disk.
  Stores to user memory never change the page tables, because the frames of user pages are apart from them (\<open>frames_ok\<close>).
\<close>

unbundle bit_operations_syntax

section \<open>Stores to user memory\<close>

definition uwritable :: "u32 \<Rightarrow> (nat \<Rightarrow> u8) \<Rightarrow> u32 \<Rightarrow> bool" where
  "uwritable d m v \<longleftrightarrow> umapped d m v \<and> ent m d (pdx v) AND PTE_W \<noteq> 0 \<and> pmap d m v AND PTE_W \<noteq> 0"

lemma ustore_ok:
  assumes ok: "vm_ok d s ps" and c: "cr3 s = V2P d" and w: "uwritable d (ram s) va"
  shows "ustore va b s = Some (s\<lparr>ram := (ram s)(unat (pt_page (pmap d (ram s) va)) + unat va mod 4096 := b)\<rparr>)"
proof -
  note d = P2V_cr3[OF vm_okD(2)[OF ok] c]
  let ?e = "ent (ram s) d (pdx va)"
  have e: "rd_pte (d + 4 * PDX va) s = ?e" by (rule rd_pde[OF vm_okD(2)[OF ok]])
  have e2: "rd_pte (P2V (PTE_ADDR ?e) + 4 * PTX va) s = ent (ram s) (pt_page ?e) (ptx va)"
    using rd_pte_ent[of ?e va s] by (simp add: pt_page_def)
  have p: "present ?e" using w by (auto simp: uwritable_def umapped_def pmap_def present_def split: if_splits)
  then show ?thesis using w
    unfolding ustore_def Let_def d e e2 by (simp add: uwritable_def umapped_def pmap_def present_def pt_page_def)
qed

text \<open>One byte stored: the page tables stay, and no other byte of user memory changes.\<close>

lemma frame_byte:
  fixes b :: u8
  assumes ok: "vm_ok d s ps" and fr: "frames_ok d s ps" and u: "umapped d (ram s) va"
  defines "s' \<equiv> s\<lparr>ram := (ram s)(unat (pt_page (pmap d (ram s) va)) + unat va mod 4096 := b)\<rparr>"
  shows "vm_ok d s' ps" "pmap d (ram s') = pmap d (ram s)" "frames_ok d s' ps"
    "umapped d (ram s) v \<Longrightarrow> user_byte d (ram s') v = (if v = va then b else user_byte d (ram s) v)"
    "uwritable d (ram s') v = uwritable d (ram s) v"
proof -
  define f where "f = pt_page (pmap d (ram s) va)"
  have f: "page_al f" "f \<notin> insert d (own d s ps)" using fr u by (auto simp: frames_ok_def f_def)
  have ra: "ram s' = (ram s)(unat f + unat va mod 4096 := b)" by (simp add: s'_def f_def)
  have so: "same_outside {f} (ram s) (ram s')" unfolding ra by (auto simp: same_outside_def in_page_def)
  note F = vm_ok_frame[OF ok so f]
  have fl: "freelist s' = freelist s" by (simp add: s'_def)
  show "vm_ok d s' ps" and pm: "pmap d (ram s') = pmap d (ram s)" by (rule F[OF fl])+
  have um: "umapped d (ram s') = umapped d (ram s)" by (rule umapped_cong[OF pm])
  show "frames_ok d s' ps" using fr unfolding frames_ok_def um pm F(3)[OF fl] .
  have "ent (ram s') d (pdx v) = ent (ram s) d (pdx v)" 
    by (rule ent_other[OF so]) (use f vm_okD(2)[OF ok] in auto)
  then show "uwritable d (ram s') v = uwritable d (ram s) v" by (simp add: uwritable_def um pm)
  show "user_byte d (ram s') v = (if v = va then b else user_byte d (ram s) v)" if v: "umapped d (ram s) v"
  proof (cases "PGROUNDDOWN v = PGROUNDDOWN va")
    case True
    then have "pmap d (ram s) v = pmap d (ram s) va" using pmap_page by metis
    moreover have "unat v mod 4096 = unat va mod 4096 \<longleftrightarrow> v = va"
    proof
      assume m: "unat v mod 4096 = unat va mod 4096"
      have "unat v div 4096 * 4096 = unat va div 4096 * 4096" using True unat_PGROUNDDOWN by metis
      then have "unat v = unat va" using m by (metis div_mult_mod_eq)
      then show "v = va" by (simp add: word_unat_eq_iff)
    qed simp
    ultimately show ?thesis unfolding user_byte_def pm unfolding ra by (simp add: f_def)
  next
    case False
    then have "pt_page (pmap d (ram s) v) \<noteq> f" using fr v u unfolding frames_ok_def f_def by blast
    then have "\<not> in_page f (unat (pt_page (pmap d (ram s) v)) + unat v mod 4096)"
      using in_page_unique[OF page_al_pt_page f(1) in_page_start(1)[of "unat v mod 4096"]] by auto
    then show ?thesis using so False unfolding user_byte_def pm by (auto simp: same_outside_def)
  qed
qed

lemma ustores_ok:
  assumes "vm_ok d s ps" "frames_ok d s ps" "cr3 s = V2P d" "unat va + length bs \<le> 2 ^ 32"
    and "\<And>v. unat va \<le> unat v \<Longrightarrow> unat v < unat va + length bs \<Longrightarrow> uwritable d (ram s) v"
  shows "\<exists>m. ustores va bs s = Some (s\<lparr>ram := m\<rparr>) \<and> vm_ok d (s\<lparr>ram := m\<rparr>) ps \<and> frames_ok d (s\<lparr>ram := m\<rparr>) ps \<and> pmap d m = pmap d (ram s)
    \<and> (\<forall>v. umapped d (ram s) v \<longrightarrow> user_byte d m v =
         (if unat va \<le> unat v \<and> unat v < unat va + length bs then bs ! (unat v - unat va) else user_byte d (ram s) v))"
  using assms
proof (induction bs arbitrary: va s)
  case Nil
  then show ?case by (intro exI[of _ "ram s"]) auto
next
  case (Cons b bs)
  note P = Cons.prems
  have w: "uwritable d (ram s) va" using P(5)[of va] by simp
  then have u: "umapped d (ram s) va" by (simp add: uwritable_def)
  define s1 where "s1 = s\<lparr>ram := (ram s)(unat (pt_page (pmap d (ram s) va)) + unat va mod 4096 := b)\<rparr>"
  note F = frame_byte[OF P(1,2) u, where b = b, folded s1_def]
  have e: "ustores va (b # bs) s = ustores (va + 1) bs s1" by (simp add: ustore_ok[OF P(1,3) w] s1_def)
  show ?case
  proof (cases bs)
    case Nil
    have s1: "s\<lparr>ram := ram s1\<rparr> = s1" by (simp add: s1_def)
    have "user_byte d (ram s1) v = (if unat va \<le> unat v \<and> unat v < unat va + length (b # bs) then (b # bs) ! (unat v - unat va)
        else user_byte d (ram s) v)" if "umapped d (ram s) v" for v
      using F(4)[OF that] Nil by (auto simp: word_unat_eq_iff)
    then show ?thesis using e F(1-3) Nil by (intro exI[of _ "ram s1"]) (simp add: s1)
  next
    case (Cons b2 bs2)
    then have ua: "unat (va + 1) = unat va + 1" using P(4) by (simp add: unat_word_ariths)
    have c1: "cr3 s1 = V2P d" using P(3) by (simp add: s1_def)
    have "\<exists>m. ustores (va + 1) bs s1 = Some (s1\<lparr>ram := m\<rparr>) \<and> vm_ok d (s1\<lparr>ram := m\<rparr>) ps \<and> frames_ok d (s1\<lparr>ram := m\<rparr>) ps
      \<and> pmap d m = pmap d (ram s1) \<and> (\<forall>v. umapped d (ram s1) v \<longrightarrow> user_byte d m v =
         (if unat (va + 1) \<le> unat v \<and> unat v < unat (va + 1) + length bs then bs ! (unat v - unat (va + 1)) else user_byte d (ram s1) v))"
      using P(4,5) by (intro Cons.IH[OF F(1,3) c1]) (auto simp: ua F(5))
    then obtain m where m: "ustores (va + 1) bs s1 = Some (s1\<lparr>ram := m\<rparr>)" "vm_ok d (s1\<lparr>ram := m\<rparr>) ps" "frames_ok d (s1\<lparr>ram := m\<rparr>) ps"
      "pmap d m = pmap d (ram s)" "\<And>v. umapped d (ram s) v \<Longrightarrow> user_byte d m v =
         (if unat va + 1 \<le> unat v \<and> unat v < unat va + 1 + length bs then bs ! (unat v - (unat va + 1)) else user_byte d (ram s1) v)"
      unfolding ua F(2) umapped_cong[OF F(2)] by blast
    have "user_byte d m v =
        (if unat va \<le> unat v \<and> unat v < unat va + length (b # bs) then (b # bs) ! (unat v - unat va) else user_byte d (ram s) v)"
      if "umapped d (ram s) v" for v
    proof (cases "v = va")
      case True
      then show ?thesis using m(5)[OF that] F(4)[OF that] by simp
    next
      case False
      then have "unat v \<noteq> unat va" by (simp add: word_unat_eq_iff)
      then show ?thesis using m(5)[OF that] F(4)[OF that] False by (auto simp: nth_Cons')
    qed
    moreover have "s1\<lparr>ram := m\<rparr> = s\<lparr>ram := m\<rparr>" by (simp add: s1_def)
    ultimately show ?thesis using e m(1-4) by (intro exI[of _ m]) simp
  qed
qed

section \<open>Reading and writing files from a process\<close>

definition user_bytes :: "u32 \<Rightarrow> (nat \<Rightarrow> u8) \<Rightarrow> u32 \<Rightarrow> nat \<Rightarrow> u8 list" where
  "user_bytes d m a n = map (\<lambda>i. user_byte d m (a + of_nat i)) [0..<n]"

lemma uprefix_all:
  assumes "\<And>i. i < n \<Longrightarrow> uload (a + of_nat i) s = Some (g i)"
  shows "uprefix a n s = map g [0..<n]"
  using assms
proof (induction n arbitrary: a g)
  case (Suc n)
  have "uload a s = Some (g 0)" using Suc.prems[of 0] by simp
  moreover have "uprefix (a + 1) n s = map (\<lambda>i. g (Suc i)) [0..<n]"
    using Suc.prems[of "Suc i" for i] by (intro Suc.IH) (simp add: add.assoc)
  moreover have "[0..<Suc n] = 0 # map Suc [0..<n]" by (simp add: upt_conv_Cons map_Suc_upt)
  ultimately show ?case by (simp add: comp_def)
qed simp

lemma uprefix_user:
  assumes ok: "vm_ok d s ps" and c: "cr3 s = V2P d" and fit: "unat a + n \<le> 2 ^ 32"
    and pr: "\<And>v. unat a \<le> unat v \<Longrightarrow> unat v < unat a + n \<Longrightarrow> present (pmap d (ram s) v)"
  shows "uprefix a n s = user_bytes d (ram s) a n"
  unfolding user_bytes_def
proof (rule uprefix_all)
  fix i assume i: "i < n"
  then have "unat (a + of_nat i) = unat a + i" using fit by (simp add: unat_word_ariths unat_of_nat)
  then show "uload (a + of_nat i) s = Some (user_byte d (ram s) (a + of_nat i))"
    using i by (simp add: uload_pmap[OF ok c] pr)
qed

lemma more_kern:
  fixes s s' :: "'a kern_scheme"
  assumes "ftab.more s' = ftab.more s"
  shows "ram s' = ram s" "freelist s' = freelist s" "cr3 s' = cr3 s" "ptable s' = ptable s" "curproc s' = curproc s"
  using assms by (cases s; cases s'; simp)+

text \<open>What \<open>sys_read\<close> and \<open>sys_write\<close> know after their checks: the file is the one behind the descriptor, and the buffer lies
  inside the process.\<close>

lemma argfd_some:
  assumes "argfd k s = Some (Some (fd, f))"
  shows "\<exists>p. getcurproc s = Some p \<and> fd < NOFILE \<and> p_ofile (ptable s p) ! fd = Some f"
proof -
  obtain r v fdw p where h: "argint k s = Some (r, v)" "\<not> r < 0" "v = Some fdw" "getcurproc s = Some p"
    "\<not> (sint fdw < 0 \<or> int NOFILE \<le> sint fdw)" "map_option (\<lambda>f. (unat fdw, f)) (p_ofile (ptable s p) ! unat fdw) = Some (fd, f)"
    using assms by (auto simp: argfd_def Option.bind_eq_Some_conv split: if_splits prod.splits)
  have "unat fdw < 2 ^ 31" using h(5) by (intro sint_nonneg_u32) simp
  then have si: "sint fdw = int (unat fdw)" by (rule sint_small_u32)
  have "unat fdw < NOFILE" using h(5) unfolding si by (simp only: de_Morgan_disj not_less not_le of_nat_less_iff)
  then show ?thesis using h(4,6) by auto
qed

lemma rw_args_some:
  assumes "rw_args s = Some (Some (f, a, n))" "cur s = Some p" "p_sz p \<le> KERNBASE"
  shows "0 \<le> sint n \<and> unat a + unat n \<le> unat (p_sz p) \<and> (\<exists>fd<NOFILE. p_ofile p ! fd = Some f)"
proof -
  obtain fd r r2 where h: "argfd 0 s = Some (Some (fd, f))" "argint 2 s = Some (r, Some n)" "argptr 1 n s = Some (r2, Some a)" "\<not> r2 < 0"
    using assms(1) by (auto simp: rw_args_def Option.bind_eq_Some_conv split: if_splits prod.splits option.splits)
  have "r2 = 0" using h(3,4) by (auto simp: argptr_def Option.bind_eq_Some_conv split: if_splits prod.splits)
  then have "0 \<le> sint n \<and> unat a + unat n \<le> unat (p_sz p)" using argptr_bounds[OF _ assms(2,3)] h(3) by simp
  then show ?thesis using argfd_some[OF h(1)] assms(2) by (auto simp: cur_def)
qed

lemma sys_write_ok:
  assumes args: "rw_args s = Some (Some (f, a, n))" and p: "cur s = Some p" "p_sz p \<le> KERNBASE"
    and vm: "vm_ok d s ps" "cr3 s = V2P d"
    and pages: "\<And>v. unat a \<le> unat v \<Longrightarrow> unat v < unat a + unat n \<Longrightarrow> present (pmap d (ram s) v)"
    and o: "opened f ip s" "f_writable (ftable s f)"
    and ok: "bio_ok s" "wf_disk (sb s) (blocks s)" "file_ok ip s" "bc.room 2 s" "i_type (icache s ip) \<noteq> T_DEV"
    and off: "f_off (ftable s f) \<le> i_size (icache s ip)" and max: "unat (f_off (ftable s f)) + unat n \<le> MAXFILE * BSIZE"
    and free: "8 * ((unat n + 1535) div 1536) \<le> nfree (sb s) (blocks s)"
  shows "\<exists>s'. sys_write s = Some (int (unat n), s') \<and> wrote f ip (user_bytes d (ram s) a (unat n)) s s'"
proof -
  note B = rw_args_some[OF args p]
  have sz: "unat (p_sz p) \<le> 2 ^ 31" using p(2) by (simp add: word_le_nat_alt KERNBASE_def)
  have "unat a + unat n \<le> unat (p_sz p)" using B by blast
  then have fit: "unat a + unat n \<le> 2 ^ 32" using sz by simp
  have b: "uprefix a (unat n) s = user_bytes d (ram s) a (unat n)" by (rule uprefix_user[OF vm fit pages])
  have n: "sint n = int (unat n)" by (rule sint_small_u32) (use B sint_nonneg_u32 in blast)
  have l: "unat n \<le> length (user_bytes d (ram s) a (unat n))" by (simp add: user_bytes_def)
  have e: "sys_write s = filewrite f (user_bytes d (ram s) a (unat n)) (int (unat n)) s"
    using args by (simp add: sys_write_def b n)
  show ?thesis unfolding e using filewrite_ok[OF o ok off l max free] by (simp add: user_bytes_def)
qed

lemma sys_read_ok:
  assumes args: "rw_args s = Some (Some (f, a, n))" and p: "cur s = Some p" "p_sz p \<le> KERNBASE"
    and vm: "vm_ok d s ps" "frames_ok d s ps" "cr3 s = V2P d"
    and pages: "\<And>v. unat a \<le> unat v \<Longrightarrow> unat v < unat a + unat n \<Longrightarrow> uwritable d (ram s) v"
    and o: "opened f ip s" "f_readable (ftable s f)"
    and ok: "bio_ok s" "wf_disk (sb s) (blocks s)" "file_ok ip s" "bc.room 2 s" "i_type (icache s ip) \<noteq> T_DEV"
    and off: "f_off (ftable s f) \<le> i_size (icache s ip)"
  defines "data \<equiv> take (unat n) (drop (unat (f_off (ftable s f))) (contents ip s))"
  shows "\<exists>s'. sys_read s = Some (int (length data), s')
    \<and> (\<forall>v. umapped d (ram s) v \<longrightarrow> user_byte d (ram s') v =
         (if unat a \<le> unat v \<and> unat v < unat a + length data then data ! (unat v - unat a) else user_byte d (ram s) v))
    \<and> pmap d (ram s') = pmap d (ram s) \<and> vm_ok d s' ps \<and> frames_ok d s' ps \<and> bio_ok s' \<and> blocks s' = blocks s \<and> icache s' = icache s
    \<and> ftable s' = (ftable s)(f := (ftable s f)\<lparr>f_off := f_off (ftable s f) + of_nat (length data)\<rparr>)"
proof -
  note B = rw_args_some[OF args p]
  have sz: "unat (p_sz p) \<le> 2 ^ 31" using p(2) by (simp add: word_le_nat_alt KERNBASE_def)
  have n31: "unat n < 2 ^ 31" using B sint_nonneg_u32 by blast
  have n: "sint n = int (unat n)" by (rule sint_small_u32[OF n31])
  have ln: "length data \<le> unat n" by (simp add: data_def)
  have "\<exists>s1. fileread f (replicate (unat n) 0) (int (unat n)) s = Some (int (length data), blit 0 data (replicate (unat n) 0), s1) \<and>
    ftable s1 = (ftable s)(f := (ftable s f)\<lparr>f_off := f_off (ftable s f) + of_nat (length data)\<rparr>) \<and>
    bio_ok s1 \<and> blocks s1 = blocks s \<and> icache s1 = icache s \<and> ftab.more s1 = ftab.more s"
    unfolding data_def
  proof (rule fileread_ok[OF o ok off, of "unat n" "replicate (unat n) 0"])
    show "unat n \<le> length (replicate (unat n) (0 :: u8))" by simp
    show "unat n < 2 ^ 31" by (rule n31)
  qed blast
  then obtain s1 where r: "fileread f (replicate (unat n) 0) (int (unat n)) s = Some (int (length data), blit 0 data (replicate (unat n) 0), s1)"
    "ftable s1 = (ftable s)(f := (ftable s f)\<lparr>f_off := f_off (ftable s f) + of_nat (length data)\<rparr>)"
    "bio_ok s1" "blocks s1 = blocks s" "icache s1 = icache s" "ftab.more s1 = ftab.more s" by blast
  note M = more_kern[OF r(6)]
  have v1: "vm_ok d s1 ps" "frames_ok d s1 ps" "cr3 s1 = V2P d"
    using vm unfolding vm_ok_def free_pages_def frames_ok_def own_def M .
  have "\<exists>m. ustores a data s1 = Some (s1\<lparr>ram := m\<rparr>) \<and> vm_ok d (s1\<lparr>ram := m\<rparr>) ps \<and> frames_ok d (s1\<lparr>ram := m\<rparr>) ps \<and> pmap d m = pmap d (ram s1)
    \<and> (\<forall>v. umapped d (ram s1) v \<longrightarrow> user_byte d m v =
         (if unat a \<le> unat v \<and> unat v < unat a + length data then data ! (unat v - unat a) else user_byte d (ram s1) v))"
  proof (rule ustores_ok[OF v1])
    have "unat a + unat n \<le> unat (p_sz p)" using B by blast
    then show "unat a + length data \<le> 2 ^ 32" using sz ln by simp
    show "uwritable d (ram s1) v" if "unat a \<le> unat v" "unat v < unat a + length data" for v
      unfolding M(1) using that ln by (intro pages) simp_all
  qed
  then obtain m where m: "ustores a data s1 = Some (s1\<lparr>ram := m\<rparr>)" "vm_ok d (s1\<lparr>ram := m\<rparr>) ps" "frames_ok d (s1\<lparr>ram := m\<rparr>) ps"
    "pmap d m = pmap d (ram s)" "\<forall>v. umapped d (ram s) v \<longrightarrow> user_byte d m v =
         (if unat a \<le> unat v \<and> unat v < unat a + length data then data ! (unat v - unat a) else user_byte d (ram s) v)"
    unfolding M by blast
  have bl: "take (length data) (blit 0 data (replicate (unat n) 0)) = data" by (simp add: blit_def)
  have e: "sys_read s = Some (int (length data), s1\<lparr>ram := m\<rparr>)"
    by (simp only: sys_read_def args n r(1) bl m(1) bind.bind_lunit option.case prod.case nat_int)
  show ?thesis by (rule exI[of _ "s1\<lparr>ram := m\<rparr>"]) (use e m r(2-5) in simp)
qed

end
