(* ===== verification/Sample_Kern.thy ===== *)
theory Sample_Kern
  imports Sample User_IO
begin

text \<open>
  A small concrete kernel, on which the hypotheses of the theorems about memory, processes and system calls are checked:
  one process that has called the kernel with the arguments 0, 0x200, 2 on its stack, with the string "/init" at 0, a null-terminated array of
  one pointer at 0x200, and the string "ab" that it points to at 0x210; a page directory at 0x80001000 with one
  table at 0x80002000 that maps user page 0 to the frame 0x80003000; its kernel stack at 0x80004000; two free pages; open
  file 0 is descriptor 0 of the process, on an inode whose contents are the two bytes "hi".
\<close>

unbundle bit_operations_syntax

section \<open>Memory\<close>

definition poke :: "(nat \<times> u32) list \<Rightarrow> nat \<Rightarrow> u8" where
  "poke ws = foldr (\<lambda>(a, w) m. st32 a w m) ws (\<lambda>_. 0)"

lemma poke_Nil [simp]: "ld32 (poke []) b = 0"
  by (simp add: poke_def ld32_def)

lemma poke_Cons [simp]:
  "ld32 (poke ((a, w) # ws)) a = w" "a + 4 \<le> b \<or> b + 4 \<le> a \<Longrightarrow> ld32 (poke ((a, w) # ws)) b = ld32 (poke ws) b"
  by (simp_all add: poke_def ld32_st32_other)

definition sample_words :: "(nat \<times> u32) list" where
  "sample_words = [(0x80001000, 0x2007), (0x80002000, 0x3007), (0x80004FF8, 0x100), (0x80003104, 0), (0x80003108, 0x200), (0x8000310C, 2),
     (0x80003000, 0x696E692F), (0x80003004, 0x74), (0x80003200, 0x210), (0x80003210, 0x6261), (0x80005000, 0x80006000)]"

lemma poke_byte: "x < a \<or> a + 4 \<le> x \<Longrightarrow> poke ((a, w) # ws) x = poke ws x" "k < 4 \<Longrightarrow> poke ((a, w) # ws) (a + k) = to_le 4 w ! k"
  by (auto simp: poke_def st32_def)

definition sample_dir :: u32 where "sample_dir = 0x80001000"

definition sample_ram :: "nat \<Rightarrow> u8" where "sample_ram = poke sample_words"

lemma sample_ld32:
  "ld32 sample_ram 0x80004FF8 = 0x100" "ld32 sample_ram 0x80003104 = 0" "ld32 sample_ram 0x80003108 = 0x200"
  "ld32 sample_ram 0x8000310C = 2" "ld32 sample_ram 0x80003200 = 0x210" "ld32 sample_ram 0x80003204 = 0" "ld32 sample_ram 0x80005000 = 0x80006000" "ld32 sample_ram 0x80006000 = 0"
  by (simp_all add: sample_ram_def sample_words_def)

lemma sample_bytes:
  "sample_ram 0x80003200 = 16" "sample_ram 0x80003201 = 2" "sample_ram 0x80003202 = 0"
  "sample_ram 0x80003210 = 97" "sample_ram 0x80003211 = 98" "sample_ram 0x80003212 = 0"
  "map (\<lambda>k. sample_ram (0x80003000 + k)) [0..<6] = [47, 105, 110, 105, 116, 0]"
proof -
  have 1: "sample_ram (0x80003200 + k) = to_le 4 (0x210 :: u32) ! k" and 2: "sample_ram (0x80003210 + k) = to_le 4 (0x6261 :: u32) ! k"
    and 3: "sample_ram (0x80003000 + k) = to_le 4 (0x696E692F :: u32) ! k" and 4: "sample_ram (0x80003004 + k) = to_le 4 (0x74 :: u32) ! k"
    if "k < 4" for k
    using that by (simp_all add: sample_ram_def sample_words_def poke_byte)
  from 1[of 0] 1[of 1] 1[of 2] 2[of 0] 2[of 1] 2[of 2]
  show "sample_ram 0x80003200 = 16" "sample_ram 0x80003201 = 2" "sample_ram 0x80003202 = 0"
    "sample_ram 0x80003210 = 97" "sample_ram 0x80003211 = 98" "sample_ram 0x80003212 = 0"
    by (simp_all add: nth_to_le drop_bit_eq_div)
  have "map (\<lambda>k. sample_ram (0x80003000 + k)) [0..<6] = map (\<lambda>k. sample_ram (0x80003000 + k)) [0..<4] @ map (\<lambda>k. sample_ram (0x80003004 + k)) [0..<2]"
    by (simp add: upt_rec)
  then show "map (\<lambda>k. sample_ram (0x80003000 + k)) [0..<6] = [47, 105, 110, 105, 116, 0]"
    using 3[of 0] 3[of 1] 3[of 2] 3[of 3] 4[of 0] 4[of 1] by (simp add: upt_rec nth_to_le drop_bit_eq_div)
qed

lemma sample_ent: "i < 1024 \<Longrightarrow> ent sample_ram sample_dir i = (if i = 0 then 0x2007 else 0)"
  by (cases "i = 0") (simp_all add: ent_def sample_dir_def sample_ram_def sample_words_def)

lemma sample_ent2: "i < 1024 \<Longrightarrow> ent sample_ram 0x80002000 i = (if i = 0 then 0x3007 else 0)"
  by (cases "i = 0") (simp_all add: ent_def sample_ram_def sample_words_def)

lemma sample_flags:
  "present 0x2007" "present 0x3007" "\<not> present 0" "pt_page 0x2007 = 0x80002000" "pt_page 0x3007 = 0x80003000"
  "(0x2007 :: u32) AND PTE_W \<noteq> 0" "(0x3007 :: u32) AND PTE_W \<noteq> 0" "(0x3007 :: u32) AND PTE_U \<noteq> 0"
  by (simp_all add: present_def PTE_P_def PTE_W_def PTE_U_def pt_page_def PTE_ADDR_def P2V_def KERNBASE_def)

lemma sample_tables: "tables sample_dir sample_ram = {0x80002000}"
proof -
  have "{i. i < 1024 \<and> present (ent sample_ram sample_dir i)} = {0}" by (auto simp: sample_ent sample_flags split: if_splits)
  then show ?thesis by (simp add: tables_def sample_ent sample_flags)
qed

lemma sample_pt_wf: "pt_wf sample_dir sample_ram"
proof -
  have "{i. i < 1024 \<and> present (ent sample_ram sample_dir i)} = {0}" by (auto simp: sample_ent sample_flags split: if_splits)
  then show ?thesis by (simp add: pt_wf_def sample_tables) (simp add: sample_dir_def page_al_def)
qed

lemma low_page: "unat (v :: u32) < 4096 \<longleftrightarrow> pdx v = 0 \<and> ptx v = 0"
proof -
  have e: "(pdx v = pdx 0 \<and> ptx v = ptx 0) = in_page 0 (unat v)" by (rule same_page) (simp add: page_al_def)
  have z: "pdx 0 = 0" "ptx 0 = 0" by (simp_all add: pdx_def ptx_def)
  show ?thesis using e unfolding z in_page_def by simp
qed

lemma sample_pmap: "pmap sample_dir sample_ram v = (if unat v < 4096 then 0x3007 else 0)"
  by (auto simp: pmap_def sample_ent sample_ent2 sample_flags low_page)

lemma sample_umapped: "umapped sample_dir sample_ram v \<longleftrightarrow> unat v < 4096"
  by (auto simp: umapped_def sample_pmap sample_flags)

lemma sample_uwritable: "unat v < 4096 \<Longrightarrow> uwritable sample_dir sample_ram v"
  by (auto simp: uwritable_def sample_umapped sample_pmap sample_flags sample_ent low_page)

section \<open>The state\<close>

definition hi_inode :: dinode where
  "hi_inode = \<lparr>d_type = T_FILE, d_major = 0, d_minor = 0, d_nlink = 1, d_size = 2, d_addrs = 4 # replicate 12 0\<rparr>"

definition hi_disk :: "u32 \<Rightarrow> u8 list" where
  "hi_disk n =
     (if n = 2 then replicate 64 0 @ enc_dinode (sample_dinode T_DIR) @ enc_dinode hi_inode @ replicate 320 0
      else if n = 3 then 31 # replicate 511 0
      else if n = 4 then 104 # 105 # replicate 510 0
      else sample_disk n)"

definition hi_fs :: fs where
  "hi_fs = upd_inode 1 (load_dinode hi_inode) (booted hi_disk)"

definition sample_proc :: process where
  "sample_proc = \<lparr>p_sz = 4096, p_pgdir = sample_dir, p_kstack = 0x80004000, p_state = RUNNABLE, p_pid = 1, p_parent = None,
     p_tf = 0x80004FB4, p_context = 0, p_chan = 0, p_killed = 0, p_ofile = Some 0 # replicate 15 None, p_cwd = Some 0,
     p_name = replicate 16 0\<rparr>"

definition null_gate :: idt_gate where
  "null_gate = \<lparr>low_offset = 0, sel = 0, always0 = 0, flags = 0, high_offset = 0\<rparr>"

definition sample_kern :: kern where
  "sample_kern = \<lparr>vidmem = vidmem hi_fs, crtc_reg = crtc_reg hi_fs, out_reg = out_reg hi_fs, out_log = out_log hi_fs, env_in = env_in hi_fs,
     in_pos = in_pos hi_fs, disk = disk hi_fs, bufs = bufs hi_fs, idequeue = idequeue hi_fs, havedisk1 = havedisk1 hi_fs, sb = sb hi_fs,
     icache = icache hi_fs, devsw = devsw hi_fs,
     ftable = (\<lambda>f. \<lparr>f_type = (if f = 0 then FD_INODE else FD_NONE), f_ref = (if f = 0 then 1 else 0), f_readable = True,
       f_writable = True, f_ip = (if f = 0 then Some 1 else None), f_off = 0\<rparr>),
     ram = sample_ram, freelist = 0x80005000,
     kpgdir = sample_dir, gdt = (\<lambda>_. SEG 0 0 0 0), ts = \<lparr>ts_esp0 = 0, ts_ss0 = 0, ts_iomb = 0\<rparr>, gdtr = (0, 0), tr = 0,
     cr3 = V2P sample_dir, intr_on = False,
     idt = (\<lambda>_. null_gate), idt_reg = (0, 0), interrupt_handlers = (\<lambda>_. None), tick = 0, capslock = False, key_buffer = replicate 256 0,
     ptable = (\<lambda>p. if p = 0 then sample_proc else sample_proc\<lparr>p_state := UNUSED, p_ofile := replicate 16 None\<rparr>), curproc = Some 0, initproc = Some 0,
     nextpid = 2, first = False\<rparr>"

lemma sample_kern_fields [simp]:
  "ram sample_kern = sample_ram" "freelist sample_kern = 0x80005000" "cr3 sample_kern = V2P sample_dir" "curproc sample_kern = Some 0"
  "ptable sample_kern = (\<lambda>p. if p = 0 then sample_proc else sample_proc\<lparr>p_state := UNUSED, p_ofile := replicate 16 None\<rparr>)" "nextpid sample_kern = 2"
  "ftable sample_kern = (\<lambda>f. \<lparr>f_type = (if f = 0 then FD_INODE else FD_NONE), f_ref = (if f = 0 then 1 else 0), f_readable = True,
          f_writable = True, f_ip = (if f = 0 then Some 1 else None), f_off = 0\<rparr>)"
  "sb sample_kern = sb hi_fs" "icache sample_kern = icache hi_fs" "blocks sample_kern = blocks hi_fs" "kpgdir sample_kern = sample_dir"
  "env_in sample_kern = env_in hi_fs" "in_pos sample_kern = in_pos hi_fs" "key_buffer sample_kern = replicate 256 0"
  by (simp_all add: sample_kern_def blocks_def fun_eq_iff)

lemma sample_kern_bio: "bio_ok sample_kern = bio_ok hi_fs" "bc.room k sample_kern = bc.room k hi_fs"
  by (rule bio_ok_same; simp add: sample_kern_def env_ok_def ata_live_def ata_clean_def)+

lemma length_hi_disk: "length (hi_disk n) = 512"
  by (simp add: hi_disk_def length_sample_disk sample_dinode_def hi_inode_def)

lemma hi_bio_ok: "bio_ok hi_fs" "k \<le> 30 \<Longrightarrow> bc.room k hi_fs"
  using booted_ok(2,3)[of hi_disk, OF length_hi_disk] bio_ok_same[of hi_fs "booted hi_disk"]
  by (simp_all add: hi_fs_def upd_inode_def env_ok_def ata_live_def ata_clean_def)

lemma hi_fields [simp]:
  "blocks hi_fs = hi_disk" "sb hi_fs = sample_sb" "icache hi_fs 1 = load_dinode hi_inode (sample_inode 2 T_FILE)"
  "icache hi_fs (Suc 0) = load_dinode hi_inode (sample_inode 2 T_FILE)"
  by (simp_all add: hi_fs_def upd_inode_def)

lemma hi_used: "k < 4096 \<Longrightarrow> used sample_sb hi_disk k \<longleftrightarrow> k < 5"
proof -
  assume k: "k < 4096"
  have b: "bit (31 :: u8) n \<longleftrightarrow> n < 5" for n
  proof -
    have "(31 :: u8) = mask 5" by (simp add: mask_eq_exp_minus_1)
    then have "bit (31 :: u8) n \<longleftrightarrow> n < min LENGTH(8) 5" by (simp only: bit_mask_iff possible_bit_word) auto
    then show ?thesis by simp
  qed
  have u: "used sample_sb hi_disk k \<longleftrightarrow> bit_set (31 # replicate 511 0) k" by (simp add: used_def sample_sb_def hi_disk_def)
  show ?thesis
  proof (cases "k < 8")
    case True
    then show ?thesis unfolding u bit_set_def by (simp only: div_less mod_less nth_Cons_0 b)
  next
    case False
    then have "k div 8 < 512" "k div 8 \<noteq> 0" using k by auto
    then show ?thesis using False by (simp add: u bit_set_def nth_Cons')
  qed
qed

lemma hi_wf_disk: "wf_disk (sb hi_fs) (blocks hi_fs)"
proof -
  have "sb_ok sample_sb" "sb_bmapstart sample_sb < sb_size sample_sb" "unat (sb_bmapstart sample_sb) = 3"
    by (simp_all add: sb_ok_def sample_sb_def FSSIZE_def)
  then show ?thesis by (auto simp: wf_disk_def length_hi_disk BSIZE_def hi_used)
qed

lemma hi_inode_fields:
  "i_dev (load_dinode hi_inode (sample_inode 2 T_FILE)) = 1" "i_inum (load_dinode hi_inode (sample_inode 2 T_FILE)) = 2"
  "i_ref (load_dinode hi_inode (sample_inode 2 T_FILE)) = 1" "i_valid (load_dinode hi_inode (sample_inode 2 T_FILE))"
  "i_type (load_dinode hi_inode (sample_inode 2 T_FILE)) = T_FILE" "i_size (load_dinode hi_inode (sample_inode 2 T_FILE)) = 2"
  "i_addrs (load_dinode hi_inode (sample_inode 2 T_FILE)) = 4 # replicate 12 0"
  by (simp_all add: load_dinode_def hi_inode_def sample_inode_fields)

lemma hi_addr: "i < MAXFILE \<Longrightarrow> file_addr hi_disk (4 # replicate 12 0) i = (if i = 0 then 4 else 0)"
  by (simp add: file_addr_def fs_consts nth_Cons')

lemma hi_wf_file: "wf_file sample_sb hi_disk (4 # replicate 12 0)"
proof -
  have "data_blk sample_sb hi_disk 4" by (simp add: data_blk_def hi_used) (simp add: sample_sb_def)
  then show ?thesis by (simp add: wf_file_def hi_addr) (simp add: fs_consts)
qed

lemma hi_file_ok: "file_ok 1 hi_fs"
proof -
  have "disk_inode sample_sb hi_disk 2 = hi_inode"
    by (simp add: disk_inode_def IBLOCK_def fs_consts sample_sb_def hi_disk_def dinode_off_def sample_dinode_def hi_inode_def dec_enc_dinode)
  moreover have "dinode_of (load_dinode hi_inode (sample_inode 2 T_FILE)) = hi_inode"
    by (simp add: dinode_of_def load_dinode_def hi_inode_def)
  moreover have "file_addr hi_disk (4 # replicate 12 0) 0 = 4" by (simp add: hi_addr fs_consts)
  moreover have "\<forall>i. BSIZE * i < 2 \<longrightarrow> i = 0" by (simp add: BSIZE_def)
  ultimately show ?thesis
    by (simp add: file_ok_def hi_inode_fields hi_wf_file) (simp add: IBLOCK_def fs_consts sample_sb_def)
qed

lemma hi_contents: "contents 1 hi_fs = [104, 105]"
proof -
  have a: "file_addr hi_disk (4 # replicate 12 0) 0 = 4" by (simp add: hi_addr fs_consts)
  have "fbyte hi_disk (4 # replicate 12 0) 0 = 104" "fbyte hi_disk (4 # replicate 12 0) 1 = 105"
    by (simp_all add: fbyte_def fblock_def BSIZE_def a hi_disk_def)
  moreover have "[0..<unat (2 :: u32)] = [0, 1]" by (simp add: upt_rec)
  ultimately show ?thesis
    by (simp only: contents_def hi_fields hi_inode_fields list.map)
qed

lemma hi_nfree: "15 \<le> nfree (sb hi_fs) (blocks hi_fs)"
proof -
  have "{5..<20} \<subseteq> {k. k < unat (sb_size sample_sb) \<and> \<not> used sample_sb hi_disk k}"
    by (auto simp: hi_used) (simp add: sample_sb_def)
  then have "card {5..<20 :: nat} \<le> nfree sample_sb hi_disk"
    unfolding nfree_def by (intro card_mono) simp_all
  then show ?thesis by simp
qed

lemma sample_free_pages: "free_pages sample_kern [0x80005000, 0x80006000]"
  by (simp add: free_pages_def page_al_def sample_ld32)

lemma sample_vm_ok: "vm_ok sample_dir sample_kern [0x80005000, 0x80006000]"
  using sample_free_pages sample_pt_wf by (simp add: vm_ok_def sample_tables) (simp add: sample_dir_def)

lemma sample_frames_ok: "frames_ok sample_dir sample_kern [0x80005000, 0x80006000]"
proof -
  have "PGROUNDDOWN v = 0" if "unat v < 4096" for v using that by (simp add: word_unat_eq_iff unat_PGROUNDDOWN)
  then show ?thesis
    by (simp add: frames_ok_def sample_umapped sample_pmap sample_flags own_def sample_tables) (simp add: sample_dir_def)
qed

lemma sample_uload: "unat v < 4096 \<Longrightarrow> uload v sample_kern = Some (sample_ram (0x80003000 + unat v))"
  using uload_pmap[OF sample_vm_ok, of v] by (simp add: sample_pmap sample_flags user_byte_def)

lemma sample_word:
  assumes "unat v + 4 \<le> 4096"
  shows "\<exists>bs. uloads v 4 sample_kern = Some bs \<and> of_le bs = ld32 sample_ram (0x80003000 + unat v)"
proof -
  have u: "unat (v + 1) = unat v + 1" "unat (v + 2) = unat v + 2" "unat (v + 3) = unat v + 3"
    using assms by (simp_all add: unat_word_ariths)
  have e: "v + 1 + 1 = v + 2" "v + 2 + 1 = v + 3" by simp_all
  have n: "(4 :: nat) = Suc (Suc (Suc (Suc 0)))" by simp
  let ?m = "\<lambda>i. sample_ram (0x80003000 + unat v + i)"
  have "uload v sample_kern = Some (?m 0)" "uload (v + 1) sample_kern = Some (?m 1)" "uload (v + 2) sample_kern = Some (?m 2)"
    "uload (v + 3) sample_kern = Some (?m 3)" using assms by (simp_all add: sample_uload u add.assoc)
  then have "uloads v 4 sample_kern = Some [?m 0, ?m 1, ?m 2, ?m 3]"
    unfolding n by (simp only: uloads.simps e bind.bind_lunit)
  then show ?thesis by (simp add: ld32_def)
qed

lemma sample_getint:
  assumes "unat v + 4 \<le> 4096" "v < 4096"
  shows "getint v sample_kern = Some (0, Some (ld32 sample_ram (0x80003000 + unat v)))"
proof -
  have "\<not> v + 4 > 4096" using assms by (simp add: word_less_nat_alt unat_word_ariths)
  then show ?thesis using sample_word[OF assms(1)] assms(2)
    by (auto simp: getint_def cur_def getcurproc_def sample_proc_def)
qed

lemma sample_argints: "argint 0 sample_kern = Some (0, Some 0)" "argint 1 sample_kern = Some (0, Some 0x200)" "argint 2 sample_kern = Some (0, Some 2)"
proof -
  have "rd_mem (p_tf sample_proc + TF_ESP) sample_kern = 0x100"
    by (simp add: rd_mem_def sample_proc_def TF_ESP_def sample_ld32)
  then show "argint 0 sample_kern = Some (0, Some 0)" "argint 1 sample_kern = Some (0, Some 0x200)" "argint 2 sample_kern = Some (0, Some 2)"
    by (simp_all add: argint_def cur_def getcurproc_def sample_getint sample_ld32)
qed

lemma sample_argfd: "argfd 0 sample_kern = Some (Some (0, 0))"
  using sample_argints by (simp add: argfd_def getcurproc_def sample_proc_def NOFILE_def)

lemma sample_args: "rw_args sample_kern = Some (Some (0, 0x200, 2))"
proof -
  have "argptr 1 2 sample_kern = Some (0, Some 0x200)"
    using sample_argints by (simp add: argptr_def cur_def getcurproc_def sample_proc_def)
  then show ?thesis using sample_argints sample_argfd by (simp add: rw_args_def)
qed

lemma hi_fs_ok: "fs_ok sample_kern"
proof -
  have "dec_superblock (hi_disk 1) = sample_sb" by (simp add: hi_disk_def sample_disk_def dec_enc_superblock)
  then show ?thesis using wf_diskD(1)[OF hi_wf_disk] hi_bio_ok(1) by (simp add: fs_ok_def sample_kern_bio) (simp add: sample_sb_def)
qed

lemma hi_file_blocks: "unat ` set (file_blocks hi_disk (4 # replicate 12 0)) = {4}"
proof -
  have "set (map (file_addr hi_disk (4 # replicate 12 0)) [0..<MAXFILE]) = (\<lambda>i. if i = 0 then 4 else 0) ` {0..<MAXFILE}"
    by (auto simp: hi_addr image_iff)
  then have "set (file_blocks hi_disk (4 # replicate 12 0)) = {4}" by (auto simp: file_blocks_def fs_consts)
  then show ?thesis by simp
qed

end
