(* ===== verification/Uvm.thy ===== *)
theory Uvm
  imports Frames
begin

text \<open>
  kernel/vm.c, the memory of a process: \<open>allocuvm\<close>, \<open>deallocuvm\<close> and \<open>freevm\<close> neither lose nor duplicate a page. The pages of an
  address space are its tables, the frames behind its user addresses and the free list; \<open>uspace\<close> says that no page has two of
  these roles, and \<open>pages\<close> is their union, which growing and shrinking leave as it is and \<open>freevm\<close> moves to the free list.
\<close>

unbundle bit_operations_syntax

section \<open>Address spaces\<close>

definition uframes :: "u32 \<Rightarrow> (nat \<Rightarrow> u8) \<Rightarrow> u32 set" where
  "uframes d m = {pt_page (pmap d m v) | v. v < KERNBASE \<and> present (pmap d m v)}"

definition pages :: "u32 \<Rightarrow> 'a kmem_scheme \<Rightarrow> u32 list \<Rightarrow> u32 set" where
  "pages d s ps = own d s ps \<union> uframes d (ram s)"

text \<open>Page 0 of physical memory, \<open>KERNBASE\<close>, is never handed out: it lies below the kernel.\<close>

definition uspace :: "u32 \<Rightarrow> 'a kmem_scheme \<Rightarrow> u32 list \<Rightarrow> bool" where
  "uspace d s ps \<longleftrightarrow> vm_ok d s ps \<and> uframes d (ram s) \<inter> insert d (own d s ps) = {} \<and> 0 \<notin> uframes d (ram s) \<and> KERNBASE \<notin> pages d s ps
   \<and> (\<forall>v w. v < KERNBASE \<longrightarrow> w < KERNBASE \<longrightarrow> present (pmap d (ram s) v) \<longrightarrow> present (pmap d (ram s) w) \<longrightarrow>
        pt_page (pmap d (ram s) v) = pt_page (pmap d (ram s) w) \<longrightarrow> PGROUNDDOWN v = PGROUNDDOWN w)"

lemma uspaceD:
  assumes "uspace d s ps"
  shows "vm_ok d s ps" "f \<in> uframes d (ram s) \<Longrightarrow> f \<notin> insert d (own d s ps)" "0 \<notin> uframes d (ram s)" "KERNBASE \<notin> pages d s ps"
    "v < KERNBASE \<Longrightarrow> w < KERNBASE \<Longrightarrow> present (pmap d (ram s) v) \<Longrightarrow> present (pmap d (ram s) w) \<Longrightarrow>
        pt_page (pmap d (ram s) v) = pt_page (pmap d (ram s) w) \<Longrightarrow> PGROUNDDOWN v = PGROUNDDOWN w"
  using assms unfolding uspace_def by blast+

text \<open>No byte outside the pages of an address space changes.\<close>

definition inside :: "u32 \<Rightarrow> 'a kmem_scheme \<Rightarrow> u32 list \<Rightarrow> 'a kmem_scheme \<Rightarrow> bool" where
  "inside d s ps s' \<longleftrightarrow> same_outside (insert d (pages d s ps)) (ram s) (ram s')"

lemma inside_same [simp]: "ram s' = ram s \<Longrightarrow> inside d s ps s'"
  by (simp add: inside_def)

lemma inside_trans: "inside d s ps t \<Longrightarrow> inside d t qs u \<Longrightarrow> pages d t qs = pages d s ps \<Longrightarrow> inside d s ps u"
  by (simp add: inside_def same_outside_trans)

lemma insideI: "same_outside P (ram s) (ram s') \<Longrightarrow> P \<subseteq> insert d (pages d s ps) \<Longrightarrow> inside d s ps s'"
  unfolding inside_def by (rule same_outside_mono)

lemma uframesI: "v < KERNBASE \<Longrightarrow> present (pmap d m v) \<Longrightarrow> pt_page (pmap d m v) \<in> uframes d m"
  by (auto simp: uframes_def)

text \<open>Operations on memory touch nothing of the layers below, and above only the console's output.\<close>

definition mem_frame :: "'a kmem_scheme \<Rightarrow> 'a kmem_scheme \<Rightarrow> bool" where
  "mem_frame s s' \<longleftrightarrow> bio_ok s' = bio_ok s \<and> pins s' = pins s \<and> blocks s' = blocks s \<and> sb s' = sb s \<and> icache s' = icache s
     \<and> devsw s' = devsw s \<and> ftable s' = ftable s \<and> kmem.more s' = kmem.more s"

lemma mem_frame_refl [simp]: "mem_frame s s"
  by (simp add: mem_frame_def)

lemma mem_frame_trans: "mem_frame s t \<Longrightarrow> mem_frame t u \<Longrightarrow> mem_frame s u"
  by (simp add: mem_frame_def)

lemma mem_frame_step: "mem_step s t \<Longrightarrow> mem_frame s t"
  using mem_stepD[of s t] by (simp add: mem_frame_def)

lemma mem_frame_screen: "screen_frame s t \<Longrightarrow> mem_frame s t"
  using screen_frame_kmem[of s t] screen_frame_ide[of s t] by (simp add: mem_frame_def)

lemma uspace_screen:
  assumes "screen_frame s t"
  shows "uspace d t ps = uspace d s ps" "pages d t ps = pages d s ps" "ram t = ram s"
  using screen_frame_kmem[OF assms] by (simp_all add: uspace_def pages_def)

text \<open>What a user address reads, and that the pages still there read as before.\<close>

definition same_bytes :: "u32 \<Rightarrow> (nat \<Rightarrow> u8) \<Rightarrow> (nat \<Rightarrow> u8) \<Rightarrow> bool" where
  "same_bytes d m m' \<longleftrightarrow> (\<forall>v<KERNBASE. present (pmap d m v) \<longrightarrow> present (pmap d m' v) \<longrightarrow> user_byte d m' v = user_byte d m v)"

lemma user_byte_same:
  assumes "same_outside P m m'" "\<forall>p\<in>P. page_al p" "pt_page (pmap d m v) \<notin> P" "pmap d m' v = pmap d m v"
  shows "user_byte d m' v = user_byte d m v"
proof -
  have "in_page (pt_page (pmap d m v)) (unat (pt_page (pmap d m v)) + unat v mod 4096)" by simp
  then have "\<forall>p\<in>P. \<not> in_page p (unat (pt_page (pmap d m v)) + unat v mod 4096)"
    using assms(2,3) in_page_unique[OF page_al_pt_page] by blast
  then show ?thesis using assms(1,4) by (simp add: user_byte_def same_outside_def)
qed

section \<open>Giving a page back\<close>

lemma kfree_vm:
  assumes ok: "vm_ok d s ps" and f: "page_al f" "f \<noteq> 0" "f \<notin> insert d (own d s ps)"
  shows "vm_ok d (kfree f s) (f # ps)" "pmap d (ram (kfree f s)) = pmap d (ram s)" "tables d (ram (kfree f s)) = tables d (ram s)"
    "own d (kfree f s) (f # ps) = insert f (own d s ps)" "same_outside {f} (ram s) (ram (kfree f s))"
proof -
  note W = vm_okD[OF ok]
  have fn: "f \<notin> set ps" "f \<noteq> d" "f \<notin> tables d (ram s)" using f(3) by (auto simp: own_def)
  note k = kfree_free[OF W(1) f(1,2) fn(1)]
  show "same_outside {f} (ram s) (ram (kfree f s))" by (rule k(2))
  have "\<forall>p\<in>{f}. page_al p" "d \<notin> {f}" "tables d (ram s) \<inter> {f} = {}" using f(1) fn by auto
  note c = pmap_cong[OF k(2) this(1) W(2) this(2,3)]
  show "pmap d (ram (kfree f s)) = pmap d (ram s)" "tables d (ram (kfree f s)) = tables d (ram s)" by (rule c)+
  show "own d (kfree f s) (f # ps) = insert f (own d s ps)" by (auto simp: own_def c)
  show "vm_ok d (kfree f s) (f # ps)" using k(1) c W fn ok by (auto simp: vm_ok_def)
qed

lemma kfree_uspace:
  assumes U: "uspace d s ps" and f: "page_al f" "f \<noteq> 0" "f \<noteq> KERNBASE" "f \<notin> insert d (pages d s ps)"
  shows "uspace d (kfree f s) (f # ps)" "pages d (kfree f s) (f # ps) = insert f (pages d s ps)"
proof -
  have fo: "f \<notin> insert d (own d s ps)" "f \<notin> uframes d (ram s)" using f(4) by (auto simp: pages_def)
  note k = kfree_vm[OF uspaceD(1)[OF U] f(1,2) fo(1)]
  have uf: "uframes d (ram (kfree f s)) = uframes d (ram s)" by (simp add: uframes_def k(2))
  show pg: "pages d (kfree f s) (f # ps) = insert f (pages d s ps)" by (auto simp: pages_def k(4) uf)
  show "uspace d (kfree f s) (f # ps)"
    unfolding uspace_def pg uf k(2,4) using U k(1) f(3) fo(2) unfolding uspace_def by blast
qed

text \<open>Unmapping one present page of the user and giving its frame back.\<close>

lemma same_page_iff: "page_al a \<Longrightarrow> in_page a (unat v) \<longleftrightarrow> PGROUNDDOWN v = a"
  using PGROUNDDOWN_in_page[of a v] div_4096_iff[of "unat v" "unat v div 4096"]
  by (auto simp: in_page_def unat_PGROUNDDOWN mult.commute)

lemma pt_page_P2V: "pt_page e = P2V (PTE_ADDR e)" and pt_page_KERNBASE: "PTE_ADDR e = 0 \<Longrightarrow> pt_page e = KERNBASE"
  by (simp_all add: pt_page_def P2V_def)

lemma unmap_page:
  assumes U: "uspace d s ps" and al: "page_al a" and a: "a < KERNBASE" and p: "present (pmap d (ram s) a)"
  defines "f \<equiv> pt_page (pmap d (ram s) a)"
  shows "\<exists>pte. walkpgdir d a False s = (pte, s) \<and> pte \<noteq> 0 \<and> rd_pte pte s = pmap d (ram s) a \<and> PTE_ADDR (pmap d (ram s) a) \<noteq> 0
    \<and> (let s' = wr_pte pte 0 (kfree f s) in uspace d s' (f # ps) \<and> pages d s' (f # ps) = pages d s ps
      \<and> pmap d (ram s') = (\<lambda>v. if PGROUNDDOWN v = a then 0 else pmap d (ram s) v) \<and> tables d (ram s') = tables d (ram s)
      \<and> same_bytes d (ram s) (ram s') \<and> mem_frame s s' \<and> inside d s ps s')"
proof -
  note V = uspaceD[OF U] and W = vm_okD[OF uspaceD(1)[OF U]]
  have fu: "f \<in> uframes d (ram s)" unfolding f_def by (rule uframesI[OF a p])
  have f: "page_al f" "f \<noteq> 0" "f \<notin> insert d (own d s ps)" using V(2)[OF fu] V(3) fu by (auto simp: f_def)
  have fk: "f \<noteq> KERNBASE" using V(4) fu by (auto simp: pages_def)
  note k = kfree_vm[OF V(1) f]
  let ?e = "ent (ram s) d (pdx a)" and ?s1 = "kfree f s"
  have q: "present ?e" using p by (auto simp: pmap_def present_def split: if_splits)
  let ?t = "pt_page ?e"
  have t: "?t \<in> tables d (ram s)" by (rule table_in[OF pdx_less q])
  have e1: "ent (ram ?s1) d i = ent (ram s) d i" if "i < 1024" for i
    using ent_other[OF k(5) W(2) _ _ that] f by auto
  have e1a: "ent (ram ?s1) d (pdx a) = ?e" by (rule e1[OF pdx_less])
  have q1: "present (ent (ram ?s1) d (pdx a))" unfolding e1a by (rule q)
  let ?s2 = "wr_pte (?t + 4 * PTX a) 0 ?s1"
  note w = write_pte[OF k(1) q1, where w = 0, unfolded e1a k(2,3)]
  have pm: "pmap d (ram ?s2) = (\<lambda>v. if PGROUNDDOWN v = a then 0 else pmap d (ram s) v)"
    unfolding w(2) same_page[OF al] same_page_iff[OF al] ..
  have z: "\<not> present 0" by (simp add: present_def)
  have pa: "pmap d (ram s) v = pmap d (ram s) a" if "PGROUNDDOWN v = a" for v using pmap_page[of d "ram s" v] that by simp
  have ow: "own d ?s2 (f # ps) = insert f (own d s ps)" using k(4) by (simp add: own_def k(3) w(4))
  have aa: "PGROUNDDOWN a = a" using al same_page_iff[OF al, of a] by simp
  have uf: "uframes d (ram ?s2) = uframes d (ram s) - {f}"
  proof -
    have "pt_page (pmap d (ram s) v) = f \<longleftrightarrow> PGROUNDDOWN v = a" if "v < KERNBASE" "present (pmap d (ram s) v)" for v
      using V(5)[OF that(1) a that(2) p] pa[of v] aa by (auto simp: f_def)
    then show ?thesis unfolding uframes_def pm using z by auto
  qed
  have pg: "pages d ?s2 (f # ps) = pages d s ps" using fu by (auto simp: pages_def ow uf)
  have us: "uspace d ?s2 (f # ps)"
    unfolding uspace_def
  proof (intro conjI allI impI)
    show "uframes d (ram ?s2) \<inter> insert d (own d ?s2 (f # ps)) = {}" unfolding uf ow using V(2) by auto
    show "0 \<notin> uframes d (ram ?s2)" unfolding uf using V(3) by simp
    show "KERNBASE \<notin> pages d ?s2 (f # ps)" unfolding pg by (rule V(4))
    fix v w assume "v < KERNBASE" "w < KERNBASE" "present (pmap d (ram ?s2) v)" "present (pmap d (ram ?s2) w)"
      "pt_page (pmap d (ram ?s2) v) = pt_page (pmap d (ram ?s2) w)"
    then show "PGROUNDDOWN v = PGROUNDDOWN w" unfolding pm using V(5)[of v w] z by (auto split: if_splits)
  qed (rule w(1))
  have so: "same_outside {f, ?t} (ram s) (ram ?s2)"
    by (rule same_outside_trans[OF same_outside_mono[OF k(5)] same_outside_mono[OF w(3)]]) simp_all
  have sb: "same_bytes d (ram s) (ram ?s2)"
    unfolding same_bytes_def
  proof (intro allI impI)
    fix v assume v: "v < KERNBASE" "present (pmap d (ram s) v)" "present (pmap d (ram ?s2) v)"
    then have ne: "PGROUNDDOWN v \<noteq> a" unfolding pm using z by (auto split: if_splits)
    have "pt_page (pmap d (ram s) v) \<noteq> f" using V(5)[OF v(1) a v(2) p] ne aa by (auto simp: f_def)
    moreover have "pt_page (pmap d (ram s) v) \<noteq> ?t" using V(2)[OF uframesI[OF v(1,2)]] t by (auto simp: own_def)
    ultimately show "user_byte d (ram ?s2) v = user_byte d (ram s) v"
      using f(1) ne by (intro user_byte_same[OF so]) (simp_all add: pm)
  qed
  have ins: "inside d s ps ?s2" by (rule insideI[OF so]) (use fu t in \<open>auto simp: pages_def own_def\<close>)
  have "mem_step s ?s2" by (rule mem_step_trans[OF mem_step_kfree mem_step_wr_pte])
  then have mf: "mem_frame s ?s2" by (rule mem_frame_step)
  have "?t \<noteq> 0" using W(5) t by metis
  then have "?t + 4 * PTX a \<noteq> 0" by (intro pte_nonzero) simp
  moreover have "rd_pte (?t + 4 * PTX a) s = pmap d (ram s) a" using q by (simp add: rd_pte_ent pmap_def)
  moreover have "PTE_ADDR (pmap d (ram s) a) \<noteq> 0" using fk pt_page_KERNBASE[of "pmap d (ram s) a"] by (auto simp: f_def)
  ultimately show ?thesis using walk_present[OF W(2) q, of False] us pg pm w(4) sb mf ins unfolding Let_def by auto
qed

section \<open>deallocuvm\<close>

text \<open>The user pages in \<open>C\<close> are gone from \<open>s\<close> to \<open>s'\<close>, their frames on top of the free list; everything else is as before.\<close>

definition unmapped :: "u32 \<Rightarrow> (u32 \<Rightarrow> bool) \<Rightarrow> 'a kmem_scheme \<Rightarrow> u32 list \<Rightarrow> 'a kmem_scheme \<Rightarrow> u32 list \<Rightarrow> bool" where
  "unmapped d C s ps s' ps' \<longleftrightarrow> uspace d s' ps' \<and> mem_frame s s' \<and> tables d (ram s') = tables d (ram s)
     \<and> pmap d (ram s') = (\<lambda>v. if C v \<and> present (pmap d (ram s) v) then 0 else pmap d (ram s) v)
     \<and> pages d s' ps' = pages d s ps \<and> same_bytes d (ram s) (ram s') \<and> (\<exists>fs. ps' = fs @ ps) \<and> inside d s ps s'"

lemma unmappedD:
  assumes "unmapped d C s ps s' ps'"
  shows "uspace d s' ps'" "mem_frame s s'" "tables d (ram s') = tables d (ram s)"
    "pmap d (ram s') = (\<lambda>v. if C v \<and> present (pmap d (ram s) v) then 0 else pmap d (ram s) v)"
    "pages d s' ps' = pages d s ps" "same_bytes d (ram s) (ram s')" "\<exists>fs. ps' = fs @ ps" "inside d s ps s'"
  using assms unfolding unmapped_def by blast+

lemma not_present_0 [simp]: "\<not> present 0"
  by (simp add: present_def)

lemma unmapped_none:
  assumes "uspace d s ps" "\<And>v. C v \<Longrightarrow> \<not> present (pmap d (ram s) v)"
  shows "unmapped d C s ps s ps"
proof -
  have "pmap d (ram s) = (\<lambda>v. if C v \<and> present (pmap d (ram s) v) then 0 else pmap d (ram s) v)" using assms(2) by (auto simp: fun_eq_iff)
  then show ?thesis using assms(1) by (simp add: unmapped_def same_bytes_def)
qed

lemma unmapped_trans:
  assumes "unmapped d C s ps t qs" "unmapped d D t qs u rs" "\<And>v. present (pmap d (ram s) v) \<Longrightarrow> E v \<longleftrightarrow> C v \<or> D v"
  shows "unmapped d E s ps u rs"
proof -
  note A = unmappedD[OF assms(1)] and B = unmappedD[OF assms(2)]
  have pm: "pmap d (ram u) = (\<lambda>v. if E v \<and> present (pmap d (ram s) v) then 0 else pmap d (ram s) v)"
    unfolding B(4) A(4) using assms(3) by auto
  have "user_byte d (ram u) v = user_byte d (ram s) v" if "v < KERNBASE" "present (pmap d (ram s) v)" "present (pmap d (ram u) v)" for v
  proof -
    have "present (pmap d (ram t) v)" using that(2,3) unfolding B(4) by (auto split: if_splits)
    then show ?thesis using A(6) B(6) that unfolding same_bytes_def by metis
  qed
  then have "same_bytes d (ram s) (ram u)" unfolding same_bytes_def by blast
  then show ?thesis
    using A B pm mem_frame_trans[OF A(2) B(2)] inside_trans[OF A(8) B(8) A(5)] unfolding unmapped_def by auto
qed

definition in_span :: "u32 \<Rightarrow> u32 \<Rightarrow> u32 \<Rightarrow> bool" where
  "in_span a e v \<longleftrightarrow> unat a \<le> unat v \<and> unat (PGROUNDDOWN v) < unat e"

lemma unat_KERNBASE: "unat KERNBASE = 2147483648"
  by (simp add: KERNBASE_def)

lemma next_directory:
  assumes "unat a < 2147483648"
  shows "unat (PGADDR (PDX a + 1) 0 0 - PGSIZE + PGSIZE) = (pdx a + 1) * 4194304" "page_al (PGADDR (PDX a + 1) 0 0 - PGSIZE + PGSIZE)"
proof -
  have p: "pdx a < 512" using assms by (simp add: pdx_def div_less_iff_less_mult)
  have u: "unat (PDX a + 1) = pdx a + 1" using p by (simp add: unat_word_ariths unat_PDX)
  have e: "PGADDR (PDX a + 1) 0 0 - PGSIZE + PGSIZE = push_bit 22 (PDX a + 1)" by (simp add: PGADDR_def)
  have "unat (push_bit 22 x) = unat x * 4194304 mod 4294967296" for x :: u32
    by (simp add: push_bit_eq_mult unat_word_ariths mult.commute)
  then have "unat (push_bit 22 (PDX a + 1)) = (pdx a + 1) * 4194304 mod 4294967296" unfolding u[symmetric] .
  then show g: "unat (PGADDR (PDX a + 1) 0 0 - PGSIZE + PGSIZE) = (pdx a + 1) * 4194304" unfolding e using p by simp
  show "page_al (PGADDR (PDX a + 1) 0 0 - PGSIZE + PGSIZE)" unfolding page_al_def g by (rule dvd_mult) simp
qed

lemma deallocuvm_loop_ok:
  assumes "uspace d s ps" "page_al a" "unat e \<le> 2147483648"
  shows "\<exists>s' ps'. deallocuvm_loop d a e s = Some s' \<and> unmapped d (in_span a e) s ps s' ps'"
  using assms(1,2)
proof (induction "unat e - unat a" arbitrary: a s ps rule: less_induct)
  case less
  note U = less.prems(1) and al = less.prems(2)
  note V = uspaceD[OF U] and W = vm_okD[OF uspaceD(1)[OF U]]
  show ?case
  proof (cases "a < e")
    case False
    have "\<not> in_span a e v" for v
    proof
      assume i: "in_span a e v"
      obtain k where "unat a = 4096 * k" using al unfolding page_al_def by (rule dvdE)
      moreover have "4096 * k \<le> unat v \<Longrightarrow> 4096 * k \<le> unat v div 4096 * 4096" by (simp add: less_eq_div_iff_mult_less_eq mult.commute)
      ultimately show False using i False by (simp add: in_span_def unat_PGROUNDDOWN word_less_nat_alt)
    qed
    then have "unmapped d (in_span a e) s ps s ps" by (intro unmapped_none[OF U]) blast
    then show ?thesis using False by (subst deallocuvm_loop.simps) auto
  next
    case True
    then have ae: "unat a < unat e" "unat a < 2147483648" using assms(3) by (simp_all add: word_less_nat_alt)
    have un: "unat (a + PGSIZE) = unat a + 4096" using ae(2) by (simp add: unat_word_ariths PGSIZE_def)
    have aln: "page_al (a + PGSIZE)" using al by (simp add: page_al_def un)
    have smaller: "unat e - unat (a + PGSIZE) < unat e - unat a" using un ae by simp
    have next_span: "in_span a e v \<longleftrightarrow> PGROUNDDOWN v = a \<or> in_span (a + PGSIZE) e v" for v
      using ae(1) unfolding in_span_def un same_page_iff[OF al, symmetric] unfolding in_page_def
      using same_page_iff[OF al, of v] by (auto simp: in_page_def)
    have step: "\<exists>s' ps'. deallocuvm_loop d (a + PGSIZE) e t = Some s' \<and> unmapped d (in_span a e) s ps s' ps'"
      if t: "unmapped d (\<lambda>v. PGROUNDDOWN v = a) s ps t qs" for t qs
    proof -
      obtain s' ps' where s': "deallocuvm_loop d (a + PGSIZE) e t = Some s'" "unmapped d (in_span (a + PGSIZE) e) t qs s' ps'"
        using less.hyps[OF smaller unmappedD(1)[OF t] aln] by blast
      have "unmapped d (in_span a e) s ps s' ps'" by (rule unmapped_trans[OF t s'(2) next_span])
      then show ?thesis using s'(1) by blast
    qed
    show ?thesis
    proof (cases "present (ent (ram s) d (pdx a))")
      case absent: False
      let ?b = "PGADDR (PDX a + 1) 0 0 - PGSIZE + PGSIZE"
      note b = next_directory[OF ae(2)]
      have ab: "unat a < unat ?b" unfolding b(1) pdx_def by (metis Suc_eq_plus1 dividend_less_div_times mult_Suc add.commute zero_less_numeral)
      obtain s' ps' where s': "deallocuvm_loop d ?b e s = Some s'" "unmapped d (in_span ?b e) s ps s' ps'"
        using less.hyps[OF diff_less_mono2[OF ab ae(1)] U b(2)] by blast
      have skip: "in_span a e v \<longleftrightarrow> False \<or> in_span ?b e v" if "present (pmap d (ram s) v)" for v
      proof -
        have "pdx v \<noteq> pdx a" using that absent by (auto simp: pmap_def)
        have "unat ?b \<le> unat v" if le: "unat a \<le> unat v"
        proof -
          have "pdx a \<le> pdx v" unfolding pdx_def using le by (rule div_le_mono)
          then have "(pdx a + 1) * 4194304 \<le> pdx v * 4194304" using \<open>pdx v \<noteq> pdx a\<close> by (intro mult_le_mono1) simp
          also have "\<dots> \<le> unat v" unfolding pdx_def by (rule div_times_less_eq_dividend)
          finally show ?thesis unfolding b(1) .
        qed
        then have "unat a \<le> unat v \<longleftrightarrow> unat ?b \<le> unat v" using ab by linarith
        then show ?thesis by (simp add: in_span_def)
      qed
      have "unmapped d (\<lambda>v. False) s ps s ps" by (rule unmapped_none[OF U]) simp
      from unmapped_trans[OF this s'(2) skip] have "unmapped d (in_span a e) s ps s' ps'" .
      then show ?thesis using s'(1) True walk_absent[OF W(2) absent] by (subst deallocuvm_loop.simps) auto
    next
      case table: True
      show ?thesis
      proof (cases "present (pmap d (ram s) a)")
        case True
        have "a < KERNBASE" using ae(2) by (simp add: word_less_nat_alt unat_KERNBASE)
        obtain pte where p: "walkpgdir d a False s = (pte, s)" "pte \<noteq> 0" "rd_pte pte s = pmap d (ram s) a" "PTE_ADDR (pmap d (ram s) a) \<noteq> 0"
          and t: "let s' = wr_pte pte 0 (kfree (pt_page (pmap d (ram s) a)) s) in uspace d s' (pt_page (pmap d (ram s) a) # ps)
            \<and> pages d s' (pt_page (pmap d (ram s) a) # ps) = pages d s ps
            \<and> pmap d (ram s') = (\<lambda>v. if PGROUNDDOWN v = a then 0 else pmap d (ram s) v) \<and> tables d (ram s') = tables d (ram s)
            \<and> same_bytes d (ram s) (ram s') \<and> mem_frame s s' \<and> inside d s ps s'"
          using unmap_page[OF U al \<open>a < KERNBASE\<close> True] by blast
        have pa: "pmap d (ram s) v = pmap d (ram s) a" if "PGROUNDDOWN v = a" for v using pmap_page[of d "ram s" v] that by simp
        let ?t = "wr_pte pte 0 (kfree (pt_page (pmap d (ram s) a)) s)"
        have pm: "(\<lambda>v. if PGROUNDDOWN v = a then 0 else pmap d (ram s) v)
            = (\<lambda>v. if PGROUNDDOWN v = a \<and> present (pmap d (ram s) v) then 0 else pmap d (ram s) v)"
          using pa True by fastforce
        have un: "unmapped d (\<lambda>v. PGROUNDDOWN v = a) s ps ?t (pt_page (pmap d (ram s) a) # ps)"
          using t unfolding Let_def unmapped_def pm[symmetric] by auto
        have "deallocuvm_loop d a e s = deallocuvm_loop d (a + PGSIZE) e ?t"
          using p True \<open>a < e\<close> by (subst deallocuvm_loop.simps) (simp add: Let_def present_def pt_page_P2V)
        then show ?thesis using step[OF un] by simp
      next
        case False
        have t: "pt_page (ent (ram s) d (pdx a)) \<in> tables d (ram s)" by (rule table_in[OF pdx_less table])
        have "pt_page (ent (ram s) d (pdx a)) \<noteq> 0" using W(5) t by metis
        then have "pt_page (ent (ram s) d (pdx a)) + 4 * PTX a \<noteq> 0" by (intro pte_nonzero) simp
        moreover have "rd_pte (pt_page (ent (ram s) d (pdx a)) + 4 * PTX a) s = pmap d (ram s) a" using table by (simp add: rd_pte_ent pmap_def)
        ultimately have "deallocuvm_loop d a e s = deallocuvm_loop d (a + PGSIZE) e s"
          using walk_present[OF W(2) table] False \<open>a < e\<close> by (subst deallocuvm_loop.simps) (simp add: Let_def present_def)
        moreover have "unmapped d (\<lambda>v. PGROUNDDOWN v = a) s ps s ps"
          by (rule unmapped_none[OF U]) (use pmap_page[of d "ram s"] False in metis)
        ultimately show ?thesis using step by simp
      qed
    qed
  qed
qed

text \<open>\<open>deallocuvm\<close>: the pages that start at or above the new and below the old size go.\<close>

definition cut_off :: "u32 \<Rightarrow> u32 \<Rightarrow> u32 \<Rightarrow> bool" where
  "cut_off new old v \<longleftrightarrow> new \<le> PGROUNDDOWN v \<and> PGROUNDDOWN v < old"

lemma span_cut:
  assumes "unat new \<le> 2147483648"
  shows "in_span (PGROUNDUP new) old v \<longleftrightarrow> cut_off new old v"
proof -
  have u: "unat (PGROUNDUP new) = (unat new + 4095) div 4096 * 4096" using assms by (intro unat_PGROUNDUP) simp
  have "(x + 4095) div 4096 * 4096 \<le> y \<longleftrightarrow> x \<le> y div 4096 * 4096" for x y :: nat
  proof -
    have "(x + 4095) div 4096 * 4096 \<le> y \<longleftrightarrow> (x + 4095) div 4096 < Suc (y div 4096)"
      by (simp only: less_eq_div_iff_mult_less_eq[symmetric] less_Suc_eq_le zero_less_numeral)
    also have "\<dots> \<longleftrightarrow> x \<le> y div 4096 * 4096" by (simp only: div_less_iff_less_mult zero_less_numeral) (simp; linarith)
    finally show ?thesis .
  qed
  then show ?thesis by (simp add: in_span_def cut_off_def u unat_PGROUNDDOWN word_le_nat_alt word_less_nat_alt)
qed

lemma deallocuvm_ok:
  assumes "uspace d s ps" "old \<le> KERNBASE"
  shows "\<exists>s' ps'. deallocuvm d old new s = Some (if new \<ge> old then old else new, s') \<and> unmapped d (cut_off new old) s ps s' ps'"
proof (cases "new \<ge> old")
  case True
  then have "unmapped d (cut_off new old) s ps s ps" by (intro unmapped_none[OF assms(1)]) (auto simp: cut_off_def)
  then show ?thesis using True by (auto simp: deallocuvm_def)
next
  case False
  have o: "unat old \<le> 2147483648" using assms(2) by (simp add: word_le_nat_alt unat_KERNBASE)
  then have n: "unat new \<le> 2147483648" using False by (simp add: word_le_nat_alt)
  have "in_span (PGROUNDUP new) old = cut_off new old" using span_cut[OF n] by blast
  then show ?thesis
    using deallocuvm_loop_ok[OF assms(1) page_al_PGROUNDUP[of new] o] False by (auto simp: deallocuvm_def)
qed

section \<open>freevm\<close>

lemma rd_pde_nat: "page_al d \<Longrightarrow> i < 1024 \<Longrightarrow> rd_pte (d + of_nat (4 * i)) s = ent (ram s) d i"
proof -
  assume d: "page_al d" "i < 1024"
  have "unat (d + of_nat (4 * i)) = unat d + 4 * i"
    using page_al_bound[OF d(1)] d(2) by (simp add: unat_word_ariths unat_of_nat del: of_nat_mult)
  then show ?thesis by (simp add: rd_pte_def ent_def)
qed

lemma freevm_loop_ok:
  assumes "free_pages s ps" "page_al d" "d \<notin> set ps" "distinct is" "set is \<subseteq> {..<1024}"
    and "\<And>i. i \<in> set is \<Longrightarrow> present (ent (ram s) d i) \<Longrightarrow> pt_page (ent (ram s) d i) \<notin> insert 0 (insert d (set ps))"
    and "inj_on (\<lambda>i. pt_page (ent (ram s) d i)) {i \<in> set is. present (ent (ram s) d i)}"
  shows "\<exists>fs. free_pages (freevm_loop d is s) (fs @ ps) \<and> mem_step s (freevm_loop d is s)
    \<and> set fs = (\<lambda>i. pt_page (ent (ram s) d i)) ` {i \<in> set is. present (ent (ram s) d i)}
    \<and> same_outside (set fs) (ram s) (ram (freevm_loop d is s))"
  using assms
proof (induction "is" arbitrary: s ps)
  case Nil
  then show ?case by (intro exI[of _ "[]"]) simp
next
  case (Cons i "is")
  have i: "i < 1024" "i \<notin> set is" "distinct is" "set is \<subseteq> {..<1024}" using Cons.prems(4,5) by auto
  have rd: "rd_pte (d + of_nat (4 * i)) s = ent (ram s) d i" by (rule rd_pde_nat[OF Cons.prems(2) i(1)])
  show ?case
  proof (cases "present (ent (ram s) d i)")
    case False
    have S: "{j \<in> set (i # is). present (ent (ram s) d j)} = {j \<in> set is. present (ent (ram s) d j)}" using False by auto
    have l: "freevm_loop d (i # is) s = freevm_loop d is s" using False rd by (simp add: present_def)
    show ?thesis unfolding l S by (rule Cons.IH) (use Cons.prems i S in auto)
  next
    case True
    let ?f = "pt_page (ent (ram s) d i)" and ?s = "kfree (pt_page (ent (ram s) d i)) s"
    have f: "?f \<noteq> 0" "?f \<noteq> d" "?f \<notin> set ps" using Cons.prems(6)[of i] True by auto
    note k = kfree_free[OF Cons.prems(1) page_al_pt_page f(1,3)]
    have e: "ent (ram ?s) d j = ent (ram s) d j" if "j < 1024" for j using ent_other[OF k(2) Cons.prems(2) _ _ that] f(2) by auto
    have inj: "j \<in> set is \<Longrightarrow> present (ent (ram s) d j) \<Longrightarrow> pt_page (ent (ram s) d j) \<noteq> ?f" for j
      using Cons.prems(7) i(2) True unfolding inj_on_def by auto
    have S: "{j \<in> set is. present (ent (ram ?s) d j)} = {j \<in> set is. present (ent (ram s) d j)}" using e i(4) by auto
    have img: "(\<lambda>j. pt_page (ent (ram ?s) d j)) ` {j \<in> set is. present (ent (ram s) d j)}
        = (\<lambda>j. pt_page (ent (ram s) d j)) ` {j \<in> set is. present (ent (ram s) d j)}" using e i(4) by (intro image_cong) auto
    have "\<exists>fs. free_pages (freevm_loop d is ?s) (fs @ ?f # ps) \<and> mem_step ?s (freevm_loop d is ?s)
      \<and> set fs = (\<lambda>j. pt_page (ent (ram ?s) d j)) ` {j \<in> set is. present (ent (ram ?s) d j)}
      \<and> same_outside (set fs) (ram ?s) (ram (freevm_loop d is ?s))"
    proof (rule Cons.IH[OF k(1) Cons.prems(2) _ i(3,4)])
      show "d \<notin> set (?f # ps)" using Cons.prems(3) f(2) by auto
      show "pt_page (ent (ram ?s) d j) \<notin> insert 0 (insert d (set (?f # ps)))" if "j \<in> set is" "present (ent (ram ?s) d j)" for j
        using e[of j] that Cons.prems(6)[of j] inj[of j] i(4) by auto
      show "inj_on (\<lambda>j. pt_page (ent (ram ?s) d j)) {j \<in> set is. present (ent (ram ?s) d j)}"
        using Cons.prems(7) e i(4) unfolding S inj_on_def by (auto simp: subset_iff)
    qed
    then obtain fs where fs: "free_pages (freevm_loop d is ?s) (fs @ ?f # ps)" "mem_step ?s (freevm_loop d is ?s)"
      "set fs = (\<lambda>j. pt_page (ent (ram s) d j)) ` {j \<in> set is. present (ent (ram s) d j)}"
      "same_outside (set fs) (ram ?s) (ram (freevm_loop d is ?s))" unfolding S img by blast
    have l: "freevm_loop d (i # is) s = freevm_loop d is ?s" using True rd by (simp add: present_def pt_page_P2V)
    have "{j \<in> set (i # is). present (ent (ram s) d j)} = insert i {j \<in> set is. present (ent (ram s) d j)}" using True by auto
    then have "set (fs @ [?f]) = (\<lambda>j. pt_page (ent (ram s) d j)) ` {j \<in> set (i # is). present (ent (ram s) d j)}"
      using fs(3) by simp
    moreover have "same_outside (set (fs @ [?f])) (ram s) (ram (freevm_loop d is ?s))"
      by (rule same_outside_trans[OF same_outside_mono[OF k(2)] same_outside_mono[OF fs(4)]]) auto
    moreover have "mem_step s (freevm_loop d is ?s)" by (rule mem_step_trans[OF mem_step_kfree fs(2)])
    ultimately show ?thesis unfolding l using fs(1) by (intro exI[of _ "fs @ [?f]"]) simp
  qed
qed

lemma freevm_ok:
  assumes U: "uspace d s ps"
  shows "\<exists>s' ps'. freevm d s = Some s' \<and> free_pages s' ps' \<and> set ps' = insert d (pages d s ps) \<and> mem_frame s s' \<and> inside d s ps s'"
proof -
  obtain s1 ps1 where s1: "deallocuvm d KERNBASE 0 s = Some (0, s1)" "unmapped d (cut_off 0 KERNBASE) s ps s1 ps1"
    using deallocuvm_ok[OF U order_refl, of 0] by (auto simp: KERNBASE_def)
  note A = unmappedD[OF s1(2)]
  note V = uspaceD[OF A(1)] and W = vm_okD[OF uspaceD(1)[OF A(1)]]
  have "uframes d (ram s1) = {}"
  proof -
    have "cut_off 0 KERNBASE v" if "v < KERNBASE" for v
    proof -
      have "unat v div 4096 * 4096 \<le> unat v" by (rule div_times_less_eq_dividend)
      then show ?thesis using that by (simp add: cut_off_def word_less_nat_alt word_le_nat_alt unat_PGROUNDDOWN)
    qed
    then show ?thesis unfolding uframes_def A(4) by auto
  qed
  then have pg: "pages d s ps = tables d (ram s1) \<union> set ps1" using A(5) by (simp add: pages_def own_def)
  have S: "{i \<in> set [0..<NPDENTRIES]. present (ent (ram s1) d i)} = {i. i < 1024 \<and> present (ent (ram s1) d i)}"
    by (auto simp: NPDENTRIES_def)
  have "\<exists>fs. free_pages (freevm_loop d [0..<NPDENTRIES] s1) (fs @ ps1) \<and> mem_step s1 (freevm_loop d [0..<NPDENTRIES] s1)
      \<and> set fs = (\<lambda>i. pt_page (ent (ram s1) d i)) ` {i \<in> set [0..<NPDENTRIES]. present (ent (ram s1) d i)}
      \<and> same_outside (set fs) (ram s1) (ram (freevm_loop d [0..<NPDENTRIES] s1))"
  proof (rule freevm_loop_ok[OF W(1,2,6)])
    show "inj_on (\<lambda>i. pt_page (ent (ram s1) d i)) {i \<in> set [0..<NPDENTRIES]. present (ent (ram s1) d i)}" unfolding S by (rule W(8))
    fix i assume "i \<in> set [0..<NPDENTRIES]" "present (ent (ram s1) d i)"
    then have "pt_page (ent (ram s1) d i) \<in> tables d (ram s1)" by (intro table_in) (simp_all add: NPDENTRIES_def)
    then show "pt_page (ent (ram s1) d i) \<notin> insert 0 (insert d (set ps1))" using W(4,5,7) by auto
  qed (auto simp: NPDENTRIES_def)
  then obtain fs where fs: "free_pages (freevm_loop d [0..<NPDENTRIES] s1) (fs @ ps1)" "mem_step s1 (freevm_loop d [0..<NPDENTRIES] s1)"
    "set fs = tables d (ram s1)" "same_outside (set fs) (ram s1) (ram (freevm_loop d [0..<NPDENTRIES] s1))" unfolding S tables_def[symmetric] by blast
  have "d \<notin> set (fs @ ps1)" using fs(3) W(4,6) by simp
  note k = kfree_free[OF fs(1) W(2,3) this]
  have "mem_frame s1 (kfree d (freevm_loop d [0..<NPDENTRIES] s1))"
    by (rule mem_frame_trans[OF mem_frame_step[OF fs(2)] mem_frame_step[OF mem_step_kfree]])
  then have "mem_frame s (kfree d (freevm_loop d [0..<NPDENTRIES] s1))" by (rule mem_frame_trans[OF A(2)])
  moreover have "same_outside (insert d (pages d s ps)) (ram s1) (ram (kfree d (freevm_loop d [0..<NPDENTRIES] s1)))"
    by (rule same_outside_trans[OF same_outside_mono[OF fs(4)] same_outside_mono[OF k(2)]]) (auto simp: pg fs(3))
  then have "inside d s ps (kfree d (freevm_loop d [0..<NPDENTRIES] s1))"
    using A(8) unfolding inside_def by (rule same_outside_trans[rotated])
  moreover have "set (d # fs @ ps1) = insert d (pages d s ps)" using fs(3) by (simp add: pg)
  ultimately show ?thesis using k(1) s1(1) unfolding freevm_def by auto
qed

section \<open>allocuvm\<close>

text \<open>The pages of a process of a size.\<close>

definition pg_up :: "u32 \<Rightarrow> nat" where
  "pg_up sz = (unat sz + 4095) div 4096"

text \<open>A page of zeros that the user can write.\<close>

definition fresh :: "u32 \<Rightarrow> (nat \<Rightarrow> u8) \<Rightarrow> u32 \<Rightarrow> bool" where
  "fresh d m v \<longleftrightarrow> umapped d m v \<and> pmap d m v AND PTE_W \<noteq> 0 \<and> user_byte d m v = 0"

text \<open>The user pages in \<open>C\<close> are new from \<open>s\<close> to \<open>s'\<close>.\<close>

definition grown :: "u32 \<Rightarrow> (u32 \<Rightarrow> bool) \<Rightarrow> 'a kmem_scheme \<Rightarrow> u32 list \<Rightarrow> 'a kmem_scheme \<Rightarrow> u32 list \<Rightarrow> bool" where
  "grown d C s ps s' ps' \<longleftrightarrow> uspace d s' ps' \<and> mem_frame s s' \<and> pages d s' ps' = pages d s ps
     \<and> (\<forall>v. \<not> C v \<longrightarrow> pmap d (ram s') v = pmap d (ram s) v) \<and> (\<forall>v. C v \<longrightarrow> fresh d (ram s') v)
     \<and> (\<forall>v<KERNBASE. \<not> C v \<longrightarrow> present (pmap d (ram s) v) \<longrightarrow> user_byte d (ram s') v = user_byte d (ram s) v)
     \<and> inside d s ps s'"

lemma grownD:
  assumes "grown d C s ps s' ps'"
  shows "uspace d s' ps'" "mem_frame s s'" "pages d s' ps' = pages d s ps" "\<not> C v \<Longrightarrow> pmap d (ram s') v = pmap d (ram s) v"
    "C v \<Longrightarrow> fresh d (ram s') v"
    "v < KERNBASE \<Longrightarrow> \<not> C v \<Longrightarrow> present (pmap d (ram s) v) \<Longrightarrow> user_byte d (ram s') v = user_byte d (ram s) v" "inside d s ps s'"
  using assms unfolding grown_def by blast+

lemma grown_none: "uspace d s ps \<Longrightarrow> (\<And>v. \<not> C v) \<Longrightarrow> grown d C s ps s ps"
  by (simp add: grown_def)

lemma grown_trans:
  assumes A: "grown d C s ps t qs" and B: "grown d D t qs u rs" and dj: "\<And>v. C v \<Longrightarrow> \<not> D v \<and> v < KERNBASE" and E: "\<And>v. E v \<longleftrightarrow> C v \<or> D v"
  shows "grown d E s ps u rs"
proof -
  note a = grownD[OF A] and b = grownD[OF B]
  have "fresh d (ram u) v" if "C v" for v
  proof -
    have f: "fresh d (ram t) v" by (rule a(5)[OF that])
    then have "present (pmap d (ram t) v)" by (simp add: fresh_def umapped_def)
    then show ?thesis using f b(4,6)[of v] dj[OF that] by (simp add: fresh_def umapped_def)
  qed
  then have "E v \<Longrightarrow> fresh d (ram u) v" for v using b(5) E by blast
  moreover have "mem_frame s u" by (rule mem_frame_trans[OF a(2) b(2)])
  moreover have "pages d u rs = pages d s ps" using a(3) b(3) by simp
  moreover have "inside d s ps u" by (rule inside_trans[OF a(7) b(7) a(3)])
  ultimately show ?thesis unfolding grown_def using a(4,6) b(1,4,6) E by simp
qed

text \<open>The way back: the pages in \<open>D\<close> are gone, no page is lost, what is still there reads as before.\<close>

definition undone :: "u32 \<Rightarrow> (u32 \<Rightarrow> bool) \<Rightarrow> 'a kmem_scheme \<Rightarrow> u32 list \<Rightarrow> 'a kmem_scheme \<Rightarrow> u32 list \<Rightarrow> bool" where
  "undone d D s ps s' ps' \<longleftrightarrow> uspace d s' ps' \<and> mem_frame s s' \<and> pages d s' ps' = pages d s ps
     \<and> (\<forall>v. present (pmap d (ram s') v) \<longleftrightarrow> present (pmap d (ram s) v) \<and> \<not> D v)
     \<and> (\<forall>v. present (pmap d (ram s') v) \<longrightarrow> pmap d (ram s') v = pmap d (ram s) v) \<and> same_bytes d (ram s) (ram s')
     \<and> inside d s ps s'"

lemma unmapped_undone: "unmapped d D s ps s' ps' \<Longrightarrow> undone d D s ps s' ps'"
  using unmappedD[of d D s ps s' ps'] unfolding undone_def by auto

lemma grown_undone:
  assumes A: "grown d C s ps t qs" and B: "undone d D t qs u rs" and CD: "\<And>v. C v \<Longrightarrow> D v"
  shows "undone d D s ps u rs"
proof -
  note a = grownD[OF A]
  have b: "uspace d u rs" "mem_frame t u" "pages d u rs = pages d t qs"
    "\<And>v. present (pmap d (ram u) v) \<longleftrightarrow> present (pmap d (ram t) v) \<and> \<not> D v"
    "\<And>v. present (pmap d (ram u) v) \<Longrightarrow> pmap d (ram u) v = pmap d (ram t) v" "same_bytes d (ram t) (ram u)" "inside d t qs u"
    using B unfolding undone_def by blast+
  have p: "present (pmap d (ram u) v) \<longleftrightarrow> present (pmap d (ram s) v) \<and> \<not> D v" for v using a(4)[of v] b(4)[of v] CD[of v] by (cases "C v") simp_all
  have e: "pmap d (ram u) v = pmap d (ram s) v" if "present (pmap d (ram u) v)" for v using a(4)[of v] b(4,5)[of v] CD[of v] that by auto
  have "user_byte d (ram u) v = user_byte d (ram s) v" if "v < KERNBASE" "present (pmap d (ram s) v)" "present (pmap d (ram u) v)" for v
  proof -
    have "\<not> C v" "present (pmap d (ram t) v)" using that(3) b(4)[of v] CD[of v] by auto
    then show ?thesis using b(6) a(6)[OF that(1)] that unfolding same_bytes_def by metis
  qed
  then have "same_bytes d (ram s) (ram u)" unfolding same_bytes_def by blast
  moreover have "mem_frame s u" by (rule mem_frame_trans[OF a(2) b(2)])
  moreover have "inside d s ps u" by (rule inside_trans[OF a(7) b(7) a(3)])
  ultimately show ?thesis unfolding undone_def using b(1,3) a(3) p e by simp
qed

text \<open>One page: a page is taken from the free list, cleared and mapped. When there is no page left for a table, the tables are as before
  and the page taken is in nobody's hands.\<close>

lemma pt_page_perm:
  assumes "page_al q"
  defines "e \<equiv> V2P q OR (PTE_W OR PTE_U) OR PTE_P"
  shows "pt_page e = q" "present e" "e AND PTE_U \<noteq> 0" "e AND PTE_W \<noteq> 0"
proof -
  have e: "e = V2P q OR PTE_P OR PTE_W OR PTE_U" by (simp add: e_def ac_simps)
  show "pt_page e = q" "present e" unfolding e by (rule pt_page_new[OF assms(1)])+
  have "bit (e AND PTE_U) 2" "bit (e AND PTE_W) 1" by (simp_all add: e_def bit_simps PTE_U_def PTE_W_def PTE_P_def)
  then show "e AND PTE_U \<noteq> 0" "e AND PTE_W \<noteq> 0" by auto
qed

lemma alloc_page:
  assumes U: "uspace d s (q # ps)" and al: "page_al a" and a: "unat a < 2147483648" and np: "\<not> present (pmap d (ram s) a)"
    and s1: "kalloc s = (q, s1)"
  defines "s2 \<equiv> s1\<lparr>ram := memset (unat q) 0 (unat PGSIZE) (ram s1)\<rparr>"
  shows "\<exists>r s3 ps3. mappages d a PGSIZE (V2P q) (PTE_W OR PTE_U) s2 = Some (r, s3)
    \<and> (r = 0 \<and> length ps \<le> Suc (length ps3) \<and> grown d (\<lambda>v. PGROUNDDOWN v = a) s (q # ps) s3 ps3
      \<or> r = - 1 \<and> ps = [] \<and> uspace d s3 ps3 \<and> mem_frame s s3 \<and> insert q (pages d s3 ps3) = pages d s (q # ps) \<and> q \<notin> insert d (pages d s3 ps3)
        \<and> pmap d (ram s3) = pmap d (ram s) \<and> same_bytes d (ram s) (ram s3) \<and> inside d s (q # ps) s3)"
proof -
  note V = uspaceD[OF U] and W = vm_okD[OF uspaceD(1)[OF U]]
  have q: "page_al q" "q \<noteq> 0" "q \<noteq> d" "q \<notin> tables d (ram s)" "q \<notin> set ps" "q \<notin> uframes d (ram s)"
    using free_pagesD[OF W(1), of q] W(1,6,7) V(2)[of q] by (auto simp: free_pages_def own_def)
  obtain s1' where "kalloc s = (q, s1')" and s1d: "s1' = s\<lparr>freelist := ld32 (ram s) (unat q)\<rparr>" "free_pages s1' ps"
    by (rule kalloc_cons[OF W(1)])
  then have s1e: "s1' = s1" using s1 by simp
  have r1: "ram s1 = ram s" using s1d(1) s1e by simp
  have ok1: "vm_ok d s1 ps" using W s1d(2) s1e V(1) unfolding vm_ok_def r1 by auto
  have ow1: "own d s1 ps = own d s (q # ps) - {q}" "q \<notin> insert d (own d s1 ps)" using q by (auto simp: own_def r1)
  have so12: "same_outside {q} (ram s1) (ram s2)" unfolding s2_def PGSIZE_mask by (simp add: same_outside_memset)
  note F = vm_ok_frame[OF ok1 so12 q(1) ow1(2)]
  have fl: "freelist s2 = freelist s1" by (simp add: s2_def)
  note ok2 = F(1)[OF fl] and pm2 = F(2)[OF fl, unfolded r1] and ow2 = F(3)[OF fl]
  have np1: "npages a PGSIZE = 1"
  proof -
    obtain k where "unat a = 4096 * k" using al unfolding page_al_def by (rule dvdE)
    then show ?thesis unfolding npages_def PGSIZE_mask by simp
  qed
  have ga: "PGROUNDDOWN a = a" using al same_page_iff[OF al, of a] by simp
  have range: "mapped_range a 1 (V2P q) perm M = (\<lambda>v. if PGROUNDDOWN v = a then V2P q OR perm OR PTE_P else M v)" for perm M
    using same_page_iff[OF al] by (auto simp: mapped_range_def in_page_def fun_eq_iff)
  have range0: "mapped_range a 0 (V2P q) perm M = M" for perm M by (auto simp: mapped_range_def fun_eq_iff)
  let ?e = "V2P q OR (PTE_W OR PTE_U) OR PTE_P"
  note pe = pt_page_perm[OF q(1)]
  obtain r s3 ps3 where m: "mappages d a PGSIZE (V2P q) (PTE_W OR PTE_U) s2 = Some (r, s3)"
    and rs: "r = 0 \<and> length ps \<le> Suc (length ps3) \<and> vm_step d s2 ps (\<lambda>v. if PGROUNDDOWN v = a then ?e else pmap d (ram s) v) s3 ps3
       \<or> r = - 1 \<and> ps = [] \<and> ps3 = [] \<and> vm_step d s2 ps (pmap d (ram s)) s3 ps3"
    using mappages_ok[OF ok2, of PGSIZE a "V2P q" "PTE_W OR PTE_U"] a unfolding np1 ga range pm2
    by (auto simp: PGSIZE_mask range0)
  obtain M where st: "vm_step d s2 ps M s3 ps3" using rs by blast
  note S = vm_stepD[OF st]
  have so: "same_outside (insert q (insert d (own d s1 ps))) (ram s) (ram s3)"
    using same_outside_trans[OF same_outside_mono[OF so12] same_outside_mono[OF S(6)]] unfolding r1 ow2 by auto
  have ow3: "own d s3 ps3 = own d s (q # ps) - {q}" using S(4) ow2 ow1(1) by simp
  have qo: "q \<in> own d s (q # ps)" by (simp add: own_def)
  have al_own: "\<forall>p\<in>insert q (insert d (own d s1 ps)). page_al p"
    using q(1) W(2) free_pagesD(1)[OF s1d(2)] tables_al by (auto simp: own_def r1)
  have old: "user_byte d (ram s3) v = user_byte d (ram s) v"
    if "v < KERNBASE" "present (pmap d (ram s) v)" "pmap d (ram s3) v = pmap d (ram s) v" for v
  proof (rule user_byte_same[OF so al_own _ that(3)])
    have u: "pt_page (pmap d (ram s) v) \<in> uframes d (ram s)" by (rule uframesI[OF that(1,2)])
    show "pt_page (pmap d (ram s) v) \<notin> insert q (insert d (own d s1 ps))" using V(2)[OF u] qo ow1(1) by auto
  qed
  have "mem_step s s1" using s1 by (rule mem_step_kalloc)
  then have "mem_step s s2" unfolding s2_def by (rule mem_step_trans) simp
  then have "mem_step s s3" by (rule mem_step_trans[OF _ S(2)])
  then have mf: "mem_frame s s3" by (rule mem_frame_step)
  have ins: "inside d s (q # ps) s3" by (rule insideI[OF so]) (use ow1(1) qo in \<open>auto simp: pages_def\<close>)
  from rs consider (ok) "r = 0" "length ps \<le> Suc (length ps3)" "pmap d (ram s3) = (\<lambda>v. if PGROUNDDOWN v = a then ?e else pmap d (ram s) v)"
    | (full) "r = - 1" "ps = []" "pmap d (ram s3) = pmap d (ram s)" using vm_stepD(3) by blast
  then show ?thesis
  proof cases
    case full
    have uf: "uframes d (ram s3) = uframes d (ram s)" by (simp add: uframes_def full(3))
    have pg: "insert q (pages d s3 ps3) = pages d s (q # ps)" "q \<notin> insert d (pages d s3 ps3)"
      using qo q(3,6) by (auto simp: pages_def ow3 uf)
    have "uspace d s3 ps3"
      unfolding uspace_def uf full(3) ow3 using S(1) V pg(1) by blast
    moreover have "same_bytes d (ram s) (ram s3)" unfolding same_bytes_def using old full(3) by simp
    ultimately show ?thesis using m full mf pg ins by blast
  next
    case ok
    have aK: "a < KERNBASE" using a by (simp add: word_less_nat_alt unat_KERNBASE)
    have na: "\<not> present (pmap d (ram s) v)" if "PGROUNDDOWN v = a" for v using pmap_page[of d "ram s" v] that np by simp
    have uf: "uframes d (ram s3) = insert q (uframes d (ram s))"
    proof -
      have "v < KERNBASE" if "PGROUNDDOWN v = a" for v
        using that a same_page_iff[OF al, of v] al by (auto simp: in_page_def word_less_nat_alt unat_KERNBASE page_al_def elim!: dvdE)
      then show ?thesis unfolding uframes_def ok(3) using na pe(1,2) aK ga by (auto split: if_splits)
    qed
    have pg: "pages d s3 ps3 = pages d s (q # ps)" using qo by (auto simp: pages_def ow3 uf)
    have us: "uspace d s3 ps3"
      unfolding uspace_def
    proof (intro conjI allI impI)
      show "vm_ok d s3 ps3" by (rule S(1))
      show "uframes d (ram s3) \<inter> insert d (own d s3 ps3) = {}" unfolding uf ow3 using V(2) q(3) by auto
      show "0 \<notin> uframes d (ram s3)" unfolding uf using V(3) q(2) by auto
      show "KERNBASE \<notin> pages d s3 ps3" unfolding pg by (rule V(4))
      fix v w assume vw: "v < KERNBASE" "w < KERNBASE" "present (pmap d (ram s3) v)" "present (pmap d (ram s3) w)"
        "pt_page (pmap d (ram s3) v) = pt_page (pmap d (ram s3) w)"
      have "pt_page (pmap d (ram s) x) \<noteq> q" if "x < KERNBASE" "present (pmap d (ram s) x)" for x using uframesI[OF that] q(6) by auto
      then show "PGROUNDDOWN v = PGROUNDDOWN w" using vw V(5)[of v w] pe(1) unfolding ok(3) by (auto split: if_splits)
    qed
    have fr: "fresh d (ram s3) v" if "PGROUNDDOWN v = a" for v
    proof -
      have e: "pmap d (ram s3) v = ?e" unfolding ok(3) using that by simp
      have "\<not> in_page p (unat q + unat v mod 4096)" if "p \<in> insert d (own d s2 ps)" for p
        using in_page_unique[of p q] q(1) al_own ow1(2) that unfolding ow2 by fastforce
      then have "ram s3 (unat q + unat v mod 4096) = ram s2 (unat q + unat v mod 4096)" using S(6) by (simp add: same_outside_def)
      also have "\<dots> = 0" by (simp add: s2_def PGSIZE_mask memset_apply)
      finally show ?thesis using pe q(2) by (simp add: fresh_def umapped_def user_byte_def e)
    qed
    have "grown d (\<lambda>v. PGROUNDDOWN v = a) s (q # ps) s3 ps3"
      unfolding grown_def using us mf pg fr ok(3) old ins by simp
    then show ?thesis using m ok(1,2) by blast
  qed
qed

text \<open>Console messages on the way.\<close>

lemma uspace_kprintf:
  assumes "uspace d s ps" "kprintf fmt args s = Some s'"
  shows "uspace d s' ps" "pages d s' ps = pages d s ps" "ram s' = ram s" "mem_frame s s'"
  using uspace_screen[OF screen_frame_kprintf[OF assms(2)]] mem_frame_screen[OF screen_frame_kprintf[OF assms(2)]] assms(1) by simp_all

lemma kprintf_text: "0x25 \<notin> set (cstr fmt) \<Longrightarrow> \<exists>s'. kprintf fmt args s = Some s'"
  using kprintf_plain by blast

lemma undone_from:
  assumes U: "uspace d t qs" and D: "unmapped d C t qs u rs"
    and st: "mem_frame s t" "pages d t qs = pages d s ps" "pmap d (ram t) = pmap d (ram s)" "same_bytes d (ram s) (ram t)" "inside d s ps t"
  shows "undone d C s ps u rs"
proof -
  note A = unmappedD[OF D]
  have "same_bytes d (ram s) (ram u)"
    unfolding same_bytes_def
  proof (intro allI impI)
    fix v assume v: "v < KERNBASE" "present (pmap d (ram s) v)" "present (pmap d (ram u) v)"
    then have "present (pmap d (ram t) v)" by (simp add: st(3))
    then show "user_byte d (ram u) v = user_byte d (ram s) v" using A(6) st(4) v unfolding same_bytes_def by metis
  qed
  then show ?thesis
    unfolding undone_def A(4) st(3) using A(1,2,5) st(1,2) mem_frame_trans inside_trans[OF st(5) A(8) st(2)] by auto
qed

lemma allocuvm_loop_ok:
  assumes "uspace d s ps" "page_al a" "old \<le> a" "new < KERNBASE" "\<And>v. in_span a new v \<Longrightarrow> \<not> present (pmap d (ram s) v)"
  shows "\<exists>r s' ps'. allocuvm_loop d a old new s = Some (r, s')
    \<and> (r = new \<and> length ps \<le> length ps' + 2 * (pg_up new - unat a div 4096) \<and> grown d (in_span a new) s ps s' ps'
      \<or> r = 0 \<and> length ps < 2 * (pg_up new - unat a div 4096) \<and> undone d (cut_off old new) s ps s' ps')"
  using assms(1,2,3,5)
proof (induction "unat new - unat a" arbitrary: a s ps rule: less_induct)
  case less
  note U = less.prems(1) and al = less.prems(2)
  note V = uspaceD[OF U] and W = vm_okD[OF uspaceD(1)[OF U]]
  have nk: "unat new < 2147483648" using assms(4) by (simp add: word_less_nat_alt unat_KERNBASE)
  have nk2: "new \<le> KERNBASE" using assms(4) by (rule less_imp_le)
  show ?case
  proof (cases "a < new")
    case False
    have "\<not> in_span a new v" for v
    proof
      assume i: "in_span a new v"
      obtain k where "unat a = 4096 * k" using al unfolding page_al_def by (rule dvdE)
      moreover have "4096 * k \<le> unat v \<Longrightarrow> 4096 * k \<le> unat v div 4096 * 4096" by (simp add: less_eq_div_iff_mult_less_eq mult.commute)
      ultimately show False using i False by (simp add: in_span_def unat_PGROUNDDOWN word_less_nat_alt)
    qed
    then have "grown d (in_span a new) s ps s ps" by (rule grown_none[OF U])
    then have "length ps \<le> length ps + 2 * (pg_up new - unat a div 4096) \<and> grown d (in_span a new) s ps s ps" by simp
    moreover have "allocuvm_loop d a old new s = Some (new, s)" using False by (subst allocuvm_loop.simps) simp
    ultimately show ?thesis by blast
  next
    case True
    then have ae: "unat a < unat new" "unat a < 2147483648" using nk by (simp_all add: word_less_nat_alt)
    have un: "unat (a + PGSIZE) = unat a + 4096" using ae(2) by (simp add: unat_word_ariths PGSIZE_def)
    have aln: "page_al (a + PGSIZE)" using al by (simp add: page_al_def un)
    have smaller: "unat new - unat (a + PGSIZE) < unat new - unat a" using un ae by simp
    have next_span: "in_span a new v \<longleftrightarrow> PGROUNDDOWN v = a \<or> in_span (a + PGSIZE) new v" for v
      using ae(1) unfolding in_span_def un same_page_iff[OF al, symmetric] unfolding in_page_def
      using same_page_iff[OF al, of v] by (auto simp: in_page_def)
    have ga: "PGROUNDDOWN a = a" using al same_page_iff[OF al, of a] by simp
    have np: "\<not> present (pmap d (ram s) a)" using less.prems(4)[of a] ga next_span by blast
    have cut: "cut_off old new v" if "PGROUNDDOWN v = a" for v using that less.prems(3) True by (simp add: cut_off_def)
    have nz: "\<not> new \<le> a" using True by simp
    have cnt: "pg_up new - unat a div 4096 = Suc (pg_up new - unat (a + PGSIZE) div 4096)"
    proof -
      obtain k where k: "unat a = 4096 * k" using al unfolding page_al_def by (rule dvdE)
      then have "Suc k \<le> pg_up new" using ae(1) by (simp add: pg_up_def less_eq_div_iff_mult_less_eq)
      moreover have "unat (a + PGSIZE) = 4096 * Suc k" using un k by simp
      ultimately show ?thesis using k by simp
    qed
    have old_new: "\<not> old \<ge> new" using less.prems(3) True by simp
    show ?thesis
    proof (cases ps)
      case Nil
      then have k: "kalloc s = (0, s)" using kalloc_empty W(1) by simp
      obtain s2 where s2: "kprintf ''allocuvm out of memory\<newline>'' [] s = Some s2"
        using kprintf_text[of "''allocuvm out of memory\<newline>''"] by (auto simp: cstr_def)
      note P = uspace_kprintf[OF U s2]
      obtain s3 ps3 where s3: "deallocuvm d new old s2 = Some (old, s3)" "unmapped d (cut_off old new) s2 ps s3 ps3"
        using deallocuvm_ok[OF P(1) nk2, of old] old_new by auto
      have "undone d (cut_off old new) s ps s3 ps3"
        by (rule undone_from[OF P(1) s3(2) P(4,2)]) (simp_all add: P(3) same_bytes_def)
      then show ?thesis using k s2 s3(1) True Nil by (subst allocuvm_loop.simps) (auto simp: cnt)
    next
      case (Cons q qs)
      obtain s1 where s1: "kalloc s = (q, s1)" using W(1) kalloc_cons unfolding Cons by metis
      have q0: "q \<noteq> 0" using free_pagesD(2)[OF W(1)] Cons by auto
      let ?s2 = "s1\<lparr>ram := memset (unat q) 0 (unat PGSIZE) (ram s1)\<rparr>"
      obtain r s3 ps3 where m: "mappages d a PGSIZE (V2P q) (PTE_W OR PTE_U) ?s2 = Some (r, s3)"
        and rs: "r = 0 \<and> length qs \<le> Suc (length ps3) \<and> grown d (\<lambda>v. PGROUNDDOWN v = a) s ps s3 ps3
          \<or> r = - 1 \<and> qs = [] \<and> uspace d s3 ps3 \<and> mem_frame s s3 \<and> insert q (pages d s3 ps3) = pages d s ps \<and> q \<notin> insert d (pages d s3 ps3)
            \<and> pmap d (ram s3) = pmap d (ram s) \<and> same_bytes d (ram s) (ram s3) \<and> inside d s ps s3"
        using alloc_page[OF U[unfolded Cons] al ae(2) np s1] unfolding Cons by blast
      have head: "allocuvm_loop d a old new s =
          (if r < 0
             then Option.bind (kprintf ''allocuvm out of memory (2)\<newline>'' [] s3) (\<lambda>s3.
                  Option.bind (deallocuvm d new old s3) (\<lambda>(r, s4). Some (0, kfree q s4)))
             else allocuvm_loop d (a + PGSIZE) old new s3)"
        using True s1 q0 m by (subst allocuvm_loop.simps) simp
      from rs show ?thesis
      proof
        assume gg: "r = 0 \<and> length qs \<le> Suc (length ps3) \<and> grown d (\<lambda>v. PGROUNDDOWN v = a) s ps s3 ps3"
        then have g: "r = 0 \<and> grown d (\<lambda>v. PGROUNDDOWN v = a) s ps s3 ps3" by simp
        have lq: "length ps \<le> Suc (Suc (length ps3))" using gg by (simp add: Cons)
        note G = grownD[OF conjunct2[OF g]]
        have "old \<le> a + PGSIZE" using less.prems(3) un by (simp add: word_le_nat_alt)
        moreover have "\<not> present (pmap d (ram s3) v)" if "in_span (a + PGSIZE) new v" for v
        proof -
          have "PGROUNDDOWN v \<noteq> a" using that same_page_iff[OF al, of v] by (auto simp: in_span_def un in_page_def)
          then show ?thesis using G(4)[of v] less.prems(4)[of v] that next_span by simp
        qed
        ultimately obtain r' s' ps' where i: "allocuvm_loop d (a + PGSIZE) old new s3 = Some (r', s')"
          "r' = new \<and> length ps3 \<le> length ps' + 2 * (pg_up new - unat (a + PGSIZE) div 4096) \<and> grown d (in_span (a + PGSIZE) new) s3 ps3 s' ps'
            \<or> r' = 0 \<and> length ps3 < 2 * (pg_up new - unat (a + PGSIZE) div 4096) \<and> undone d (cut_off old new) s3 ps3 s' ps'"
          using less.hyps[OF smaller G(1) aln] by blast
        have dj: "\<not> in_span (a + PGSIZE) new v \<and> v < KERNBASE" if "PGROUNDDOWN v = a" for v
        proof -
          obtain k where "unat a = 4096 * k" using al unfolding page_al_def by (rule dvdE)
          then show ?thesis
            using that ae(2) same_page_iff[OF al, of v] by (auto simp: in_span_def un in_page_def word_less_nat_alt unat_KERNBASE)
        qed
        have "grown d (in_span (a + PGSIZE) new) s3 ps3 s' ps' \<Longrightarrow> grown d (in_span a new) s ps s' ps'"
          by (rule grown_trans[OF conjunct2[OF g] _ dj next_span])
        moreover have "undone d (cut_off old new) s3 ps3 s' ps' \<Longrightarrow> undone d (cut_off old new) s ps s' ps'"
          by (rule grown_undone[OF conjunct2[OF g] _ cut])
        moreover have "length ps3 \<le> length ps' + 2 * c \<Longrightarrow> length ps \<le> length ps' + 2 * Suc c" "length ps3 < 2 * c \<Longrightarrow> length ps < 2 * Suc c" for c
          using lq by simp_all
        ultimately show ?thesis using head g i unfolding cnt by auto
      next
        assume f: "r = - 1 \<and> qs = [] \<and> uspace d s3 ps3 \<and> mem_frame s s3 \<and> insert q (pages d s3 ps3) = pages d s ps \<and> q \<notin> insert d (pages d s3 ps3)
            \<and> pmap d (ram s3) = pmap d (ram s) \<and> same_bytes d (ram s) (ram s3) \<and> inside d s ps s3"
        then have U3: "uspace d s3 ps3" by simp
        obtain s4 where s4: "kprintf ''allocuvm out of memory (2)\<newline>'' [] s3 = Some s4"
          using kprintf_text[of "''allocuvm out of memory (2)\<newline>''"] by (auto simp: cstr_def)
        note P = uspace_kprintf[OF U3 s4]
        obtain s5 ps5 where s5: "deallocuvm d new old s4 = Some (old, s5)" "unmapped d (cut_off old new) s4 ps3 s5 ps5"
          using deallocuvm_ok[OF P(1) nk2, of old] old_new by auto
        note A = unmappedD[OF s5(2)]
        have p5: "pages d s5 ps5 = pages d s3 ps3" using A(5) P(2) by simp
        have qs: "page_al q" "q \<noteq> KERNBASE" "q \<notin> insert d (pages d s5 ps5)"
          using free_pagesD(1)[OF W(1), of q] Cons V(4) f unfolding p5 by auto
        note K = kfree_uspace[OF A(1) qs(1) q0 qs(2,3)]
        have kv: "q \<notin> insert d (own d s5 ps5)" using qs(3) by (auto simp: pages_def)
        note k = kfree_vm[OF uspaceD(1)[OF A(1)] qs(1) q0 kv]
        have un: "undone d (cut_off old new) s ps (kfree q s5) (q # ps5)"
        proof -
          have sb5: "same_bytes d (ram s) (ram (kfree q s5))"
            unfolding same_bytes_def
          proof (intro allI impI)
            fix v assume v: "v < KERNBASE" "present (pmap d (ram s) v)" "present (pmap d (ram (kfree q s5)) v)"
            have p: "present (pmap d (ram s5) v)" "present (pmap d (ram s4) v)" "present (pmap d (ram s3) v)"
              using v k(2) A(4) P(3) by (auto split: if_splits)
            have "pt_page (pmap d (ram s5) v) \<noteq> q" using uframesI[OF v(1) p(1)] qs(3) by (auto simp: pages_def)
            then have "user_byte d (ram (kfree q s5)) v = user_byte d (ram s5) v"
              using qs(1) by (intro user_byte_same[OF k(5)]) (simp_all add: k(2))
            then show "user_byte d (ram (kfree q s5)) v = user_byte d (ram s) v"
              using A(6) f v p P(3) unfolding same_bytes_def by metis
          qed
          have o1: "same_outside (insert d (pages d s ps)) (ram s) (ram s3)" using f unfolding inside_def by simp
          have "insert d (pages d s4 ps3) \<subseteq> insert d (pages d s ps)" using P(2) f by auto
          from same_outside_mono[OF A(8)[unfolded inside_def] this]
          have o2: "same_outside (insert d (pages d s ps)) (ram s3) (ram s5)" unfolding P(3) .
          have "{q} \<subseteq> insert d (pages d s ps)" using f by auto
          note o3 = same_outside_mono[OF k(5) this]
          have "inside d s ps (kfree q s5)"
            unfolding inside_def by (rule same_outside_trans[OF o1 same_outside_trans[OF o2 o3]])
          moreover have "mem_frame s (kfree q s5)"
            using f P(4) A(2) mem_frame_step[OF mem_step_kfree[of s5 q]] mem_frame_trans by blast
          moreover have "pages d (kfree q s5) (q # ps5) = pages d s ps" using K(2) p5 f by simp
          ultimately show ?thesis unfolding undone_def using K(1) sb5 A(4) P(3) f by (simp add: k(2)) auto
        qed
        moreover have "length ps < 2 * (pg_up new - unat a div 4096)" using f by (simp add: cnt Cons)
        ultimately show ?thesis using head f s4 s5(1) by auto
      qed
    qed
  qed
qed

text \<open>\<open>allocuvm\<close>, on every branch.\<close>

lemma allocuvm_ok:
  assumes U: "uspace d s ps" and new: "new < KERNBASE" "old \<le> new" and free: "\<And>v. cut_off old new v \<Longrightarrow> \<not> present (pmap d (ram s) v)"
  shows "\<exists>r s' ps'. allocuvm d old new s = Some (r, s')
    \<and> (r = new \<and> length ps \<le> length ps' + 2 * (pg_up new - pg_up old) \<and> grown d (cut_off old new) s ps s' ps'
      \<or> r = 0 \<and> length ps < 2 * (pg_up new - pg_up old) \<and> undone d (cut_off old new) s ps s' ps')"
proof -
  have o: "unat old \<le> 2147483648" using new by (simp add: word_le_nat_alt word_less_nat_alt unat_KERNBASE)
  have sp: "in_span (PGROUNDUP old) new = cut_off old new" using span_cut[OF o] by blast
  have "unat old \<le> unat (PGROUNDUP old)"
  proof -
    have "unat old \<le> (unat old + 4095) div 4096 * 4096" by linarith
    then show ?thesis using o unat_PGROUNDUP[of old] by simp
  qed
  then have "old \<le> PGROUNDUP old" by (simp add: word_le_nat_alt)
  have pu: "unat (PGROUNDUP old) div 4096 = pg_up old" using o unat_PGROUNDUP[of old] by (simp add: pg_up_def)
  have ng: "\<not> new \<ge> KERNBASE" "\<not> new < old" using new by (simp_all add: not_le not_less)
  from allocuvm_loop_ok[OF U page_al_PGROUNDUP \<open>old \<le> PGROUNDUP old\<close> new(1)] free show ?thesis
    unfolding sp pu using ng by (simp add: allocuvm_def)
qed

end
