(* ===== verification/Kernel_Map.thy ===== *)
theory Kernel_Map
  imports Uvm
begin

text \<open>
  kernel/vm.c, the kernel's half of an address space: \<open>setupkvm\<close> builds the direct map of physical memory, or gives back
  every page it took.
\<close>

unbundle bit_operations_syntax

section \<open>A new directory\<close>

lemma ent_zero: "i < 1024 \<Longrightarrow> ent (memset (unat d) 0 4096 m) d i = 0"
  by (simp add: ent_def ld32_zero)

lemma new_directory:
  assumes fp: "free_pages s (d # ps)" and k: "kalloc s = (d, s1)"
  defines "s2 \<equiv> s1\<lparr>ram := memset (unat d) 0 (unat PGSIZE) (ram s1)\<rparr>"
  shows "vm_ok d s2 ps" "pmap d (ram s2) = (\<lambda>_. 0)" "tables d (ram s2) = {}" "mem_frame s s2" "same_outside {d} (ram s) (ram s2)"
proof -
  have d: "page_al d" "d \<noteq> 0" "d \<notin> set ps" using free_pagesD[OF fp, of d] fp by (auto simp: free_pages_def)
  obtain s1' where "kalloc s = (d, s1')" "free_pages s1' ps" by (rule kalloc_cons[OF fp])
  then have f1: "free_pages s1 ps" using k by simp
  have e: "ent (ram s2) d i = 0" if "i < 1024" for i unfolding s2_def PGSIZE_mask using ent_zero[OF that] by simp
  then show tb: "tables d (ram s2) = {}" by (auto simp: tables_def)
  show "pmap d (ram s2) = (\<lambda>_. 0)" using e[OF pdx_less] by (simp add: pmap_def fun_eq_iff)
  have so: "same_outside {d} (ram s1) (ram s2)" unfolding s2_def PGSIZE_mask by (simp add: same_outside_memset)
  then have f2: "free_pages s2 ps" by (rule free_pages_cong[OF f1]) (use d in \<open>auto simp: s2_def\<close>)
  have n: "{i. i < 1024 \<and> present (ent (ram s2) d i)} = {}" using e by auto
  show "vm_ok d s2 ps" unfolding vm_ok_def pt_wf_def tb n using f2 d by simp
  have "ram s1 = ram s" using k d(2) by (auto simp: kalloc_def Let_def split: if_splits)
  then show "same_outside {d} (ram s) (ram s2)" using so by simp
  have "mem_step s s1" using k by (rule mem_step_kalloc)
  then have "mem_step s s2" unfolding s2_def by (rule mem_step_trans) simp
  then show "mem_frame s s2" by (rule mem_frame_step)
qed

section \<open>The kernel's mappings\<close>

text \<open>What a list of ranges maps, in the order of \<open>setupkvm_loop\<close>.\<close>

fun kmapped :: "(u32 \<times> u32 \<times> u32 \<times> u32) list \<Rightarrow> (u32 \<Rightarrow> u32) \<Rightarrow> u32 \<Rightarrow> u32" where
  "kmapped [] M = M"
| "kmapped ((virt, b, e, perm) # ks) M = kmapped ks (mapped_range (PGROUNDDOWN virt) (npages virt (e - b)) b perm M)"

definition kernel_range :: "u32 \<times> u32 \<times> u32 \<times> u32 \<Rightarrow> bool" where
  "kernel_range k \<longleftrightarrow> (case k of (virt, b, e, perm) \<Rightarrow> KERNBASE \<le> virt \<and> 0 < unat (e - b) \<and> unat virt + unat (e - b) \<le> 2 ^ 32)"

lemma kernel_range_user: "KERNBASE \<le> virt \<Longrightarrow> v < KERNBASE \<Longrightarrow> mapped_range (PGROUNDDOWN virt) n b perm M v = M v"
proof -
  assume k: "KERNBASE \<le> virt" "v < KERNBASE"
  have "2147483648 \<le> unat virt" "unat v < 2147483648" using k by (simp_all add: word_le_nat_alt word_less_nat_alt unat_KERNBASE)
  moreover have "unat virt < 2147483648" if "unat virt div 4096 * 4096 < 2147483648"
    using that by (simp add: div_less_iff_less_mult[symmetric, of 4096 _ 524288])
  ultimately have "\<not> unat (PGROUNDDOWN virt) \<le> unat v" unfolding unat_PGROUNDDOWN by linarith
  then show ?thesis by (simp add: mapped_range_def)
qed

text \<open>An address space with nothing for the user.\<close>

lemma bare_uspace:
  assumes ok: "vm_ok d s ps" and u: "\<And>v. v < KERNBASE \<Longrightarrow> \<not> present (pmap d (ram s) v)" and kb: "KERNBASE \<notin> own d s ps"
  shows "uspace d s ps" "pages d s ps = own d s ps"
proof -
  have "uframes d (ram s) = {}" using u by (auto simp: uframes_def)
  then show "pages d s ps = own d s ps" "uspace d s ps" using assms by (auto simp: uspace_def pages_def)
qed

lemma setupkvm_loop_ok:
  assumes "vm_ok d s ps" "\<And>v. v < KERNBASE \<Longrightarrow> \<not> present (pmap d (ram s) v)" "KERNBASE \<notin> own d s ps" "\<forall>k\<in>set ks. kernel_range k"
  shows "\<exists>r s' ps'. setupkvm_loop d ks s = Some (r, s') \<and> mem_frame s s' \<and> same_outside (insert d (own d s ps)) (ram s) (ram s')
    \<and> (r = d \<and> vm_step d s ps (kmapped ks (pmap d (ram s))) s' ps'
      \<or> r = 0 \<and> free_pages s' ps' \<and> set ps' = insert d (own d s ps) \<and> card (own d s ps) \<le> 1024)"
  using assms
proof (induction ks arbitrary: s ps)
  case Nil
  have "vm_step d s ps (pmap d (ram s)) s ps" by (rule vm_step_refl[OF Nil(1)])
  then show ?case by (intro exI[of _ d] exI[of _ s] exI[of _ ps] conjI disjI1) simp_all
next
  case (Cons k ks)
  obtain virt b e perm where k: "k = (virt, b, e, perm)" by (cases k)
  have kr: "KERNBASE \<le> virt" "0 < unat (e - b)" "unat virt + unat (e - b) \<le> 2 ^ 32" using Cons.prems(4) by (simp_all add: k kernel_range_def)
  let ?M = "mapped_range (PGROUNDDOWN virt) (npages virt (e - b)) b perm (pmap d (ram s))"
  obtain r s1 ps1 where m: "mappages d virt (e - b) b perm s = Some (r, s1)"
    and rs: "r = 0 \<and> length ps \<le> length ps1 + npages virt (e - b) \<and> vm_step d s ps ?M s1 ps1
       \<or> r = - 1 \<and> ps1 = [] \<and> length ps < npages virt (e - b)
       \<and> (\<exists>j<npages virt (e - b). vm_step d s ps (mapped_range (PGROUNDDOWN virt) j b perm (pmap d (ram s))) s1 ps1)"
    using mappages_ok[OF Cons.prems(1) kr(2,3), of b perm] by (elim exE conjE) (rule that)
  obtain M j where st: "vm_step d s ps M s1 ps1" "M = mapped_range (PGROUNDDOWN virt) j b perm (pmap d (ram s))"
    using rs by blast
  note S = vm_stepD[OF st(1)]
  have mf: "mem_frame s s1" by (rule mem_frame_step[OF S(2)])
  have u1: "\<not> present (pmap d (ram s1) v)" if "v < KERNBASE" for v
    using kernel_range_user[OF kr(1) that] Cons.prems(2)[OF that] S(3) st(2) by simp
  have kb1: "KERNBASE \<notin> own d s1 ps1" using S(4) Cons.prems(3) by simp
  show ?case
  proof (cases "r < 0")
    case True
    then have r: "r = - 1" "ps1 = []" using rs by auto
    note B = bare_uspace[OF S(1) u1 kb1]
    obtain s2 ps2 where f: "freevm d s1 = Some s2" "free_pages s2 ps2" "set ps2 = insert d (own d s ps)" "mem_frame s1 s2" "inside d s1 ps1 s2"
      using freevm_ok[OF B(1)] B(2) S(4) by auto
    have "same_outside (insert d (own d s ps)) (ram s) (ram s2)"
      using f(5) B(2) S(4) by (intro same_outside_trans[OF S(6)]) (simp add: inside_def)
    moreover have "own d s ps = tables d (ram s1)" using S(4) r(2) by (simp add: own_def)
    moreover have "card (tables d (ram s1)) \<le> card {i :: nat. i < 1024 \<and> present (ent (ram s1) d i)}"
      unfolding tables_def by (rule card_image_le) simp
    moreover have "card {i :: nat. i < 1024 \<and> present (ent (ram s1) d i)} \<le> card {..<1024 :: nat}" by (rule card_mono) auto
    ultimately have "card (own d s ps) \<le> 1024" "same_outside (insert d (own d s ps)) (ram s) (ram s2)" by simp_all
    then show ?thesis using m f True mem_frame_trans[OF mf f(4)] by (auto simp: k)
  next
    case False
    then have st: "vm_step d s ps ?M s1 ps1" using rs by auto
    have "\<forall>k\<in>set ks. kernel_range k" using Cons.prems(4) by simp
    from Cons.IH[OF S(1) u1 kb1 this] obtain r' s' ps' where i: "setupkvm_loop d ks s1 = Some (r', s')" "mem_frame s1 s'"
      "same_outside (insert d (own d s ps)) (ram s1) (ram s')"
      "r' = d \<and> vm_step d s1 ps1 (kmapped ks ?M) s' ps'
        \<or> r' = 0 \<and> free_pages s' ps' \<and> set ps' = insert d (own d s ps) \<and> card (own d s ps) \<le> 1024"
      unfolding S(4) vm_stepD(3)[OF st] by blast
    have "setupkvm_loop d (k # ks) s = Some (r', s')" using m False i(1) by (simp add: k)
    then show ?thesis using i(4) vm_step_trans[OF st] mem_frame_trans[OF mf i(2)] same_outside_trans[OF S(6) i(3)] by (auto simp: k)
  qed
qed

text \<open>The direct map: physical memory from 0 to \<open>PHYSTOP\<close> at \<open>KERNBASE\<close>, the kernel's code read-only, devices where they are.\<close>

definition kernel_entry :: "u32 \<Rightarrow> u32 \<Rightarrow> u32" where
  "kernel_entry data v =
     (if v < KERNBASE then 0
      else if v < P2V PHYSTOP then V2P (PGROUNDDOWN v) OR (if KERNLINK \<le> v \<and> v < data then 0 else PTE_W) OR PTE_P
      else if DEVSPACE \<le> v then PGROUNDDOWN v OR PTE_W OR PTE_P
      else 0)"

lemma npages_al:
  assumes "page_al a" "page_al n" "0 < unat n"
  shows "4096 * npages a n = unat n"
proof -
  obtain i j where i: "unat a = 4096 * i" and j: "unat n = 4096 * j" using assms(1,2) unfolding page_al_def by (meson dvdE)
  obtain m where m: "j = Suc m" using assms(3) j by (cases j) auto
  have "(4096 * i + 4096 * Suc m - 1) div 4096 = i + m" by (rule div_nat_eqI) simp_all
  then show ?thesis unfolding npages_def i j m by simp
qed

lemma mapped_span:
  assumes "page_al virt" "page_al (e - b)" "0 < unat (e - b)" "unat virt + unat (e - b) = lim"
  shows "mapped_range (PGROUNDDOWN virt) (npages virt (e - b)) b perm M v
    = (if unat virt \<le> unat v \<and> unat v < lim then (b + (PGROUNDDOWN v - virt)) OR perm OR PTE_P else M v)"
proof -
  have "PGROUNDDOWN virt = virt" using assms(1) same_page_iff[OF assms(1), of virt] by simp
  then show ?thesis using npages_al[OF assms(1-3)] assms(4) by (simp add: mapped_range_def)
qed

lemma kmapped_kernel:
  assumes al: "page_al data" and lo: "KERNLINK < data" and hi: "data < P2V PHYSTOP"
  shows "kmapped (kmap data) (\<lambda>_. 0) = kernel_entry data" "\<forall>k\<in>set (kmap data). kernel_range k"
proof -
  have n: "unat KERNBASE = 2147483648" "unat KERNLINK = 2148532224" "unat (P2V PHYSTOP) = 2382364672" "unat DEVSPACE = 4261412864"
    by (simp_all add: KERNBASE_def KERNLINK_def P2V_def PHYSTOP_def DEVSPACE_def)
  have d: "2148532224 < unat data" "unat data < 2382364672" using lo hi n by (simp_all add: word_less_nat_alt)
  have le: "KERNLINK \<le> data" "data \<le> P2V PHYSTOP" using lo hi by (simp_all add: less_imp_le)
  have e1: "EXTMEM - 0 = 1048576" by (simp add: EXTMEM_def)
  have e2: "V2P data - V2P KERNLINK = data - KERNLINK" by (simp add: V2P_def)
  have e3: "PHYSTOP - V2P data = P2V PHYSTOP - data" by (simp add: V2P_def P2V_def)
  have e4: "0 - DEVSPACE = 33554432" by (simp add: DEVSPACE_def)
  have u2: "unat (data - KERNLINK) = unat data - 2148532224" and u3: "unat (P2V PHYSTOP - data) = 2382364672 - unat data"
    using le by (simp_all add: unat_sub n)
  have "4096 dvd unat data" using al by (simp add: page_al_def)
  then have al2: "page_al (V2P data - V2P KERNLINK)" "page_al (PHYSTOP - V2P data)"
    unfolding e2 e3 page_al_def u2 u3 by (auto intro!: dvd_diff_nat)
  have al1: "page_al KERNBASE" "page_al KERNLINK" "page_al DEVSPACE" "page_al (EXTMEM - 0)" "page_al (0 - DEVSPACE)"
    unfolding e1 e4 page_al_def n by simp_all
  have kr: "kernel_range (KERNBASE, 0, EXTMEM, PTE_W)" "kernel_range (KERNLINK, V2P KERNLINK, V2P data, 0)"
    "kernel_range (data, V2P data, PHYSTOP, PTE_W)" "kernel_range (DEVSPACE, DEVSPACE, 0, PTE_W)"
    unfolding kernel_range_def prod.case e1 e2 e3 e4 u2 u3 using d by (simp_all add: n word_le_nat_alt)
  then show "\<forall>k\<in>set (kmap data). kernel_range k" by (simp add: kmap_def)
  have r1: "mapped_range (PGROUNDDOWN KERNBASE) (npages KERNBASE (EXTMEM - 0)) 0 perm M v
      = (if unat KERNBASE \<le> unat v \<and> unat v < 2148532224 then (0 + (PGROUNDDOWN v - KERNBASE)) OR perm OR PTE_P else M v)" for perm M v
    by (rule mapped_span[OF al1(1,4)]) (simp_all only: e1 n, simp_all)
  have r2: "mapped_range (PGROUNDDOWN KERNLINK) (npages KERNLINK (V2P data - V2P KERNLINK)) (V2P KERNLINK) perm M v
      = (if unat KERNLINK \<le> unat v \<and> unat v < unat data then (V2P KERNLINK + (PGROUNDDOWN v - KERNLINK)) OR perm OR PTE_P else M v)" for perm M v
    by (rule mapped_span[OF al1(2) al2(1)]) (use d in \<open>simp_all add: e2 u2 n\<close>)
  have r3: "mapped_range (PGROUNDDOWN data) (npages data (PHYSTOP - V2P data)) (V2P data) perm M v
      = (if unat data \<le> unat v \<and> unat v < 2382364672 then (V2P data + (PGROUNDDOWN v - data)) OR perm OR PTE_P else M v)" for perm M v
    by (rule mapped_span[OF al al2(2)]) (use d in \<open>simp_all add: e3 u3 n\<close>)
  have r4: "mapped_range (PGROUNDDOWN DEVSPACE) (npages DEVSPACE (0 - DEVSPACE)) DEVSPACE perm M v
      = (if unat DEVSPACE \<le> unat v \<and> unat v < 4294967296 then (DEVSPACE + (PGROUNDDOWN v - DEVSPACE)) OR perm OR PTE_P else M v)" for perm M v
    by (rule mapped_span[OF al1(3,5)]) (simp_all only: e4 n, simp_all)
  have o: "0 + (p - KERNBASE) = V2P p" "V2P KERNLINK + (p - KERNLINK) = V2P p" "V2P data + (p - data) = V2P p" "DEVSPACE + (p - DEVSPACE) = p" for p
    by (simp_all add: V2P_def)
  show "kmapped (kmap data) (\<lambda>_. 0) = kernel_entry data"
  proof
    fix v :: u32
    have v: "unat v < 4294967296" using unsigned_less[of v] by simp
    have "kmapped (kmap data) (\<lambda>_. 0) v =
       (if 4261412864 \<le> unat v \<and> unat v < 4294967296 then PGROUNDDOWN v OR PTE_W OR PTE_P
        else if unat data \<le> unat v \<and> unat v < 2382364672 then V2P (PGROUNDDOWN v) OR PTE_W OR PTE_P
        else if 2148532224 \<le> unat v \<and> unat v < unat data then V2P (PGROUNDDOWN v) OR 0 OR PTE_P
        else if 2147483648 \<le> unat v \<and> unat v < 2148532224 then V2P (PGROUNDDOWN v) OR PTE_W OR PTE_P
        else 0)"
      unfolding kmap_def kmapped.simps r1 r2 r3 r4 unfolding o n ..
    also have "\<dots> = kernel_entry data v" using v d by (simp add: kernel_entry_def n word_le_nat_alt word_less_nat_alt)
    finally show "kmapped (kmap data) (\<lambda>_. 0) v = kernel_entry data v" .
  qed
qed

lemma setupkvm_ok:
  assumes fp: "free_pages s ps" and kb: "KERNBASE \<notin> set ps" and data: "page_al data" "KERNLINK < data" "data < P2V PHYSTOP"
  shows "\<exists>r s' ps'. setupkvm data s = Some (r, s') \<and> mem_frame s s' \<and> same_outside (set ps) (ram s) (ram s')
    \<and> (r \<noteq> 0 \<and> uspace r s' ps' \<and> pmap r (ram s') = kernel_entry data \<and> insert r (pages r s' ps') = set ps
      \<or> r = 0 \<and> free_pages s' ps' \<and> set ps' = set ps \<and> length ps \<le> 1025)"
proof (cases ps)
  case Nil
  then have "setupkvm data s = Some (0, s)" using kalloc_empty[of s] fp by (simp add: setupkvm_def)
  then show ?thesis using fp Nil by auto
next
  case (Cons d qs)
  obtain s1 where k: "kalloc s = (d, s1)" using fp kalloc_cons unfolding Cons by metis
  let ?s2 = "s1\<lparr>ram := memset (unat d) 0 (unat PGSIZE) (ram s1)\<rparr>"
  note N = new_directory[OF fp[unfolded Cons] k]
  have d0: "d \<noteq> 0" using free_pagesD(2)[OF fp, of d] Cons by simp
  have ow: "own d ?s2 qs = set qs" unfolding own_def N(3) by simp
  have kb2: "KERNBASE \<notin> own d ?s2 qs" using kb by (simp add: ow Cons)
  have "\<not> present (pmap d (ram ?s2) v)" for v unfolding N(2) by simp
  from setupkvm_loop_ok[OF N(1) this kb2 kmapped_kernel(2)[OF data]] obtain r s' ps' where
    l: "setupkvm_loop d (kmap data) ?s2 = Some (r, s')" "mem_frame ?s2 s'" "same_outside (insert d (set qs)) (ram ?s2) (ram s')"
    "r = d \<and> vm_step d ?s2 qs (kernel_entry data) s' ps' \<or> r = 0 \<and> free_pages s' ps' \<and> set ps' = insert d (set qs) \<and> card (set qs) \<le> 1024"
    unfolding N(2) ow kmapped_kernel(1)[OF data] by blast
  have e: "setupkvm data s = Some (r, s')" using k d0 l(1) by (simp add: setupkvm_def Let_def)
  have mf: "mem_frame s s'" by (rule mem_frame_trans[OF N(4) l(2)])
  have dist: "distinct qs" using fp Cons by (simp add: free_pages_def)
  have so: "same_outside (set ps) (ram s) (ram s')"
    unfolding Cons by (rule same_outside_trans[OF same_outside_mono[OF N(5)] same_outside_mono[OF l(3)]]) auto
  from l(4) show ?thesis
  proof
    assume "r = d \<and> vm_step d ?s2 qs (kernel_entry data) s' ps'"
    then have r: "r = d" and st: "vm_step d ?s2 qs (kernel_entry data) s' ps'" by simp_all
    note S = vm_stepD[OF st]
    have "\<not> present (pmap d (ram s') v)" if "v < KERNBASE" for v using S(3) that by (simp add: kernel_entry_def)
    note B = bare_uspace[OF S(1) this S(4)[THEN arg_cong[where f = "\<lambda>X. KERNBASE \<notin> X"], THEN iffD2, OF kb2]]
    have "insert d (pages d s' ps') = set ps" using B(2) S(4) ow Cons by simp
    then show ?thesis using e mf so d0 r B(1) S(3) by blast
  next
    assume "r = 0 \<and> free_pages s' ps' \<and> set ps' = insert d (set qs) \<and> card (set qs) \<le> 1024"
    then show ?thesis using e mf so distinct_card[OF dist] Cons by auto
  qed
qed

end
