(* ===== verification/Loader.thy ===== *)
theory Loader
  imports Kernel_Map Exec
begin

text \<open>
  Loading a program: \<open>loaduvm\<close> (kernel/vm.c) copies bytes of a file into the pages of an address space, and the loop of
  \<open>exec\<close> (kernel/exec.c) over the program headers is safe whatever the file contains.
\<close>

unbundle bit_operations_syntax

section \<open>What loading leaves alone\<close>

definition quiet :: "'a kmem_scheme \<Rightarrow> 'a kmem_scheme \<Rightarrow> bool" where
  "quiet s s' \<longleftrightarrow> bio_ok s' \<and> pins s' = pins s \<and> blocks s' = blocks s \<and> sb s' = sb s \<and> icache s' = icache s
     \<and> devsw s' = devsw s \<and> ftable s' = ftable s \<and> kmem.more s' = kmem.more s"

lemma quietD:
  assumes "quiet s s'"
  shows "bio_ok s'" "pins s' = pins s" "blocks s' = blocks s" "sb s' = sb s" "icache s' = icache s" "devsw s' = devsw s"
    "ftable s' = ftable s" "kmem.more s' = kmem.more s" "bc.room k s' = bc.room k s" "file_ok ip s' = file_ok ip s" "contents ip s' = contents ip s"
  using assms by (simp_all add: quiet_def bc.room_def file_ok_def contents_def)

lemma quiet_refl: "bio_ok s \<Longrightarrow> quiet s s"
  by (simp add: quiet_def)

lemma quiet_trans: "quiet s t \<Longrightarrow> quiet t u \<Longrightarrow> quiet s u"
  by (simp add: quiet_def)

lemma quiet_mem: "bio_ok s \<Longrightarrow> mem_frame s s' \<Longrightarrow> quiet s s'"
  by (simp add: quiet_def mem_frame_def)

lemma kmem_more: "fs.more s' = fs.more (s :: 'a kmem_scheme) \<Longrightarrow>
    ftable s' = ftable s \<and> ram s' = ram s \<and> freelist s' = freelist s \<and> kmem.more s' = kmem.more s"
  by (cases s; cases s') simp

lemma quiet_advances:
  assumes "advances s (blocks s) (icache s) (s' :: 'a kmem_scheme)"
  shows "quiet s s'" "ram s' = ram s" "freelist s' = freelist s"
proof -
  note A = advancesD[OF assms]
  have "pins s' = pins s" using assms by (simp add: advances_def fs_step_def)
  then show "quiet s s'" "ram s' = ram s" "freelist s' = freelist s" using A kmem_more[OF A(7)] by (simp_all add: quiet_def)
qed

text \<open>A file that can be read.\<close>

definition readable :: "nat \<Rightarrow> 'a fs_scheme \<Rightarrow> bool" where
  "readable ip s \<longleftrightarrow> bio_ok s \<and> wf_disk (sb s) (blocks s) \<and> file_ok ip s \<and> bc.room 2 s \<and> i_type (icache s ip) \<noteq> T_DEV"

lemma readable_quiet: "quiet s s' \<Longrightarrow> readable ip s \<Longrightarrow> readable ip s'"
  using quietD[of s s'] by (simp add: readable_def)

text \<open>\<open>readi\<close> of any range into any buffer that is long enough.\<close>

lemma readi_any:
  fixes s :: "'a kmem_scheme"
  assumes R: "readable ip s" and dst: "unat n \<le> length dst"
  shows "\<exists>r b s'. readi ip dst off n s = Some (r, b, s') \<and> quiet s s' \<and> ram s' = ram s \<and> freelist s' = freelist s \<and> length b = length dst
    \<and> - 1 \<le> r \<and> r \<le> int (unat n)
    \<and> (r = int (unat n) \<longrightarrow> n = 0 \<or> unat off + unat n \<le> length (contents ip s) \<and> b = blit 0 (take (unat n) (drop (unat off) (contents ip s))) dst)
    \<and> (unat off + unat n \<le> length (contents ip s) \<longrightarrow> r = int (unat n))"
proof (cases "off \<le> i_size (icache s ip) \<and> off \<le> off + n")
  case True
  let ?d = "take (unat n) (drop (unat off) (contents ip s))"
  have ok: "bio_ok s" "wf_disk (sb s) (blocks s)" "file_ok ip s" "bc.room 2 s" "i_type (icache s ip) \<noteq> T_DEV" using R by (simp_all add: readable_def)
  obtain s' where s': "readi ip dst off n s = Some (int (length ?d), blit 0 ?d dst, s')" "advances s (blocks s) (icache s) s'"
    by (rule readi_ok[OF ok conjunct1[OF True] conjunct2[OF True] dst])
  have l: "unat off \<le> length (contents ip s)" using True by (simp add: word_le_nat_alt)
  have "length (blit 0 ?d dst) = length dst" using dst by (simp add: blit_def)
  moreover have "length ?d = unat n \<longleftrightarrow> unat off + unat n \<le> length (contents ip s)" using l by auto
  moreover have "length ?d \<le> unat n" by simp
  ultimately show ?thesis using s'(1) quiet_advances[OF s'(2)] by (intro exI[of _ "int (length ?d)"] exI[of _ "blit 0 ?d dst"] exI[of _ s'] conjI) (auto simp del: of_nat_unat)
next
  case False
  have "i_type (icache s ip) \<noteq> T_DEV" "bio_ok s" using R by (simp_all add: readable_def)
  moreover have "readi ip dst off n s = Some (- 1, dst, s)" using False calculation by (auto simp: readi_def not_le)
  moreover have "\<not> unat off + unat n \<le> length (contents ip s)"
  proof
    assume a: "unat off + unat n \<le> length (contents ip s)"
    have "unat (i_size (icache s ip)) < 2 ^ 32" using unsigned_less[of "i_size (icache s ip)"] by simp
    then have "unat (off + n) = unat off + unat n" using a by (simp add: unat_word_ariths)
    then show False using False a by (simp add: word_le_nat_alt)
  qed
  ultimately show ?thesis by (intro exI[of _ "- 1"] exI[of _ dst] exI[of _ s]) (simp add: quiet_refl del: of_nat_unat)
qed

section \<open>Writing into the pages of an address space\<close>

lemma frame_store:
  assumes U: "uspace d s ps" and a: "a < KERNBASE" "present (pmap d (ram s) a)" and n: "length b \<le> 4096"
  defines "s' \<equiv> s\<lparr>ram := store_bytes (unat (pt_page (pmap d (ram s) a))) b (ram s)\<rparr>"
  shows "uspace d s' ps" "pages d s' ps = pages d s ps" "pmap d (ram s') = pmap d (ram s)" "mem_frame s s'" "inside d s ps s'"
    "v < KERNBASE \<Longrightarrow> present (pmap d (ram s) v) \<Longrightarrow> user_byte d (ram s') v =
       (if PGROUNDDOWN v = PGROUNDDOWN a \<and> unat v mod 4096 < length b then b ! (unat v mod 4096) else user_byte d (ram s) v)"
proof -
  note V = uspaceD[OF U]
  define f where "f = pt_page (pmap d (ram s) a)"
  have f: "page_al f" "f \<notin> insert d (own d s ps)" using V(2)[OF uframesI[OF a]] by (simp_all add: f_def)
  have so: "same_outside {f} (ram s) (ram s')" using store_bytes_outside[of 0 b f "ram s"] n by (simp add: s'_def f_def)
  have fl: "freelist s' = freelist s" by (simp add: s'_def)
  note F = vm_ok_frame[OF V(1) so f fl]
  show pm: "pmap d (ram s') = pmap d (ram s)" by (rule F(2))
  have uf: "uframes d (ram s') = uframes d (ram s)" by (simp add: uframes_def pm)
  show pg: "pages d s' ps = pages d s ps" by (simp add: pages_def uf F(3))
  show "uspace d s' ps" unfolding uspace_def uf F(3) pm pg using U F(1) unfolding uspace_def by blast
  show "inside d s ps s'" by (rule insideI[OF so]) (use uframesI[OF a] in \<open>auto simp: pages_def f_def\<close>)
  have "mem_step s s'" by (simp add: s'_def)
  then show "mem_frame s s'" by (rule mem_frame_step)
  assume v: "v < KERNBASE" "present (pmap d (ram s) v)"
  show "user_byte d (ram s') v =
      (if PGROUNDDOWN v = PGROUNDDOWN a \<and> unat v mod 4096 < length b then b ! (unat v mod 4096) else user_byte d (ram s) v)"
  proof (cases "PGROUNDDOWN v = PGROUNDDOWN a")
    case True
    then have "pmap d (ram s) v = pmap d (ram s) a" using pmap_page by metis
    then show ?thesis using True unfolding user_byte_def pm by (simp add: s'_def store_bytes_def)
  next
    case False
    then have "pt_page (pmap d (ram s) v) \<notin> {f}" using V(5)[OF v(1) a(1) v(2) a(2)] by (auto simp: f_def)
    then have "user_byte d (ram s') v = user_byte d (ram s) v"
      using f(1) by (intro user_byte_same[OF so]) (simp_all add: pm)
    then show ?thesis using False by simp
  qed
qed

text \<open>One page of \<open>loaduvm\<close>: the first \<open>n\<close> bytes at the page-aligned address \<open>a\<close>.\<close>

lemma load_page:
  assumes U: "uspace d s ps" and R: "readable ip s" and a: "page_al a" "a < KERNBASE" "present (pmap d (ram s) a)" and n: "unat n \<le> 4096"
  defines "f \<equiv> pt_page (pmap d (ram s) a)"
  shows "\<exists>r b s2 s3. readi ip (load_bytes (unat f) (unat n) (ram s)) off n s = Some (r, b, s2)
    \<and> s3 = s2\<lparr>ram := store_bytes (unat f) b (ram s2)\<rparr> \<and> quiet s s3 \<and> uspace d s3 ps \<and> pages d s3 ps = pages d s ps
    \<and> pmap d (ram s3) = pmap d (ram s) \<and> inside d s ps s3
    \<and> (r = int (unat n) \<longrightarrow> n = 0 \<or> unat off + unat n \<le> length (contents ip s)) \<and> (unat off + unat n \<le> length (contents ip s) \<longrightarrow> r = int (unat n))
    \<and> (\<forall>v<KERNBASE. present (pmap d (ram s) v) \<longrightarrow> \<not> (unat a \<le> unat v \<and> unat v < unat a + unat n) \<longrightarrow> user_byte d (ram s3) v = user_byte d (ram s) v)
    \<and> (r = int (unat n) \<longrightarrow> (\<forall>v<KERNBASE. unat a \<le> unat v \<longrightarrow> unat v < unat a + unat n \<longrightarrow>
        user_byte d (ram s3) v = contents ip s ! (unat off + (unat v - unat a))))"
proof -
  let ?l = "load_bytes (unat f) (unat n) (ram s)"
  have ll: "length ?l = unat n" by (simp add: load_bytes_def)
  obtain r b s2 where rd: "readi ip ?l off n s = Some (r, b, s2)" "quiet s s2" "ram s2 = ram s" "freelist s2 = freelist s" "length b = unat n"
    "r = int (unat n) \<longrightarrow> n = 0 \<or> unat off + unat n \<le> length (contents ip s) \<and> b = blit 0 (take (unat n) (drop (unat off) (contents ip s))) ?l"
    "unat off + unat n \<le> length (contents ip s) \<longrightarrow> r = int (unat n)"
    using readi_any[OF R, of n ?l off] unfolding ll by auto
  have e2: "own d s2 ps = own d s ps" "pages d s2 ps = pages d s ps" by (simp_all add: own_def pages_def rd(3))
  have "vm_ok d s2 ps" using uspaceD(1)[OF U] by (simp add: vm_ok_def free_pages_def rd(3,4))
  then have U2: "uspace d s2 ps" using U unfolding uspace_def rd(3) e2 by blast
  have p2: "present (pmap d (ram s2) a)" using a(3) by (simp add: rd(3))
  have bl: "length b \<le> 4096" using rd(5) n by simp
  note F = frame_store[OF U2 a(2) p2 bl, unfolded rd(3), folded f_def]
  let ?s3 = "s2\<lparr>ram := store_bytes (unat f) b (ram s)\<rparr>"
  have ins: "inside d s ps ?s3" using F(5) unfolding inside_def rd(3) e2 by simp
  have q: "quiet s ?s3" by (rule quiet_trans[OF rd(2) quiet_mem[OF quietD(1)[OF rd(2)] F(4)]])
  have ga: "PGROUNDDOWN a = a" using a(1) same_page_iff[OF a(1), of a] by simp
  have rng: "unat a \<le> unat v \<and> unat v < unat a + unat n \<longleftrightarrow> PGROUNDDOWN v = a \<and> unat v mod 4096 < unat n"
    "PGROUNDDOWN v = a \<Longrightarrow> unat v mod 4096 = unat v - unat a" for v
  proof -
    obtain k where k: "unat a = 4096 * k" using a(1) unfolding page_al_def by (rule dvdE)
    show e: "PGROUNDDOWN v = a \<Longrightarrow> unat v mod 4096 = unat v - unat a"
      using unat_PGROUNDDOWN[of v] by (simp add: minus_div_mult_eq_mod)
    show "unat a \<le> unat v \<and> unat v < unat a + unat n \<longleftrightarrow> PGROUNDDOWN v = a \<and> unat v mod 4096 < unat n"
      using same_page_iff[OF a(1), of v] e n unfolding in_page_def by (auto simp: less_diff_conv2)
  qed
  have out: "user_byte d (ram ?s3) v = user_byte d (ram s) v"
    if "v < KERNBASE" "present (pmap d (ram s) v)" "\<not> (unat a \<le> unat v \<and> unat v < unat a + unat n)" for v
    using F(6)[OF that(1,2)] that(3) unfolding ga rng rd(5) by auto
  have inn: "user_byte d (ram ?s3) v = contents ip s ! (unat off + (unat v - unat a))"
    if r: "r = int (unat n)" and v: "v < KERNBASE" "unat a \<le> unat v" "unat v < unat a + unat n" for v
  proof -
    have g: "PGROUNDDOWN v = a" "unat v mod 4096 < unat n" using rng(1)[of v] v by auto
    have pv: "present (pmap d (ram s) v)" using pmap_page[of d "ram s" v] g(1) a(3) by simp
    have nz: "n \<noteq> 0" using g(2) by auto
    have b: "unat off + unat n \<le> length (contents ip s)" "b = blit 0 (take (unat n) (drop (unat off) (contents ip s))) ?l"
      using rd(6) r nz by auto
    have "b ! (unat v mod 4096) = contents ip s ! (unat off + (unat v mod 4096))"
      unfolding b(2) using b(1) g(2) ll by (simp add: blit_def nth_append)
    then show ?thesis using F(6)[OF v(1) pv] g rd(5) rng(2)[OF g(1)] unfolding ga by simp
  qed
  show ?thesis
    
    by (rule exI[of _ r], rule exI[of _ b], rule exI[of _ s2], rule exI[of _ ?s3]) (use rd(1,6,7) q F(1-3) e2 out inn ins in \<open>auto simp: rd(3) simp del: of_nat_unat\<close>)
qed


section \<open>loaduvm\<close>

text \<open>From \<open>s\<close> to \<open>s'\<close> only bytes of the user at \<open>a ..< a + n\<close> have changed.\<close>

definition stored_to :: "u32 \<Rightarrow> u32 list \<Rightarrow> nat \<Rightarrow> nat \<Rightarrow> 'a kmem_scheme \<Rightarrow> 'a kmem_scheme \<Rightarrow> bool" where
  "stored_to d ps a n s s' \<longleftrightarrow> quiet s s' \<and> uspace d s' ps \<and> pages d s' ps = pages d s ps \<and> pmap d (ram s') = pmap d (ram s) \<and> inside d s ps s'
     \<and> (\<forall>v<KERNBASE. present (pmap d (ram s) v) \<longrightarrow> \<not> (a \<le> unat v \<and> unat v < a + n) \<longrightarrow> user_byte d (ram s') v = user_byte d (ram s) v)"

lemma stored_toD:
  assumes "stored_to d ps a n s s'"
  shows "quiet s s'" "uspace d s' ps" "pages d s' ps = pages d s ps" "pmap d (ram s') = pmap d (ram s)"
    "v < KERNBASE \<Longrightarrow> present (pmap d (ram s) v) \<Longrightarrow> \<not> (a \<le> unat v \<and> unat v < a + n) \<Longrightarrow> user_byte d (ram s') v = user_byte d (ram s) v" "inside d s ps s'"
  using assms unfolding stored_to_def by blast+

lemma stored_to_trans:
  assumes "stored_to d ps a n s t" "stored_to d ps b m t u" "a \<le> b" "b + m \<le> a + k" "n \<le> k"
  shows "stored_to d ps a k s u"
proof -
  note A = stored_toD[OF assms(1)] and B = stored_toD[OF assms(2)]
  have "user_byte d (ram u) v = user_byte d (ram s) v"
    if "v < KERNBASE" "present (pmap d (ram s) v)" "\<not> (a \<le> unat v \<and> unat v < a + k)" for v
  proof -
    have "\<not> (a \<le> unat v \<and> unat v < a + n)" "\<not> (b \<le> unat v \<and> unat v < b + m)" using that(3) assms(3-5) by auto
    then show ?thesis using A(5)[OF that(1,2)] B(5)[OF that(1)] that(2) A(4) by simp
  qed
  then show ?thesis using A(3,4) B(2-4) quiet_trans[OF A(1) B(1)] inside_trans[OF A(6) B(6) A(3)] unfolding stored_to_def by simp
qed

lemma loaduvm_loop_ok:
  assumes "uspace d s ps" "readable ip s" "page_al (addr + i)" "unat (addr + i) = unat addr + unat i" "unat i \<le> unat sz"
    and "unat addr + unat sz \<le> 2147483648" "\<forall>v. unat addr \<le> unat v \<longrightarrow> unat v < unat addr + unat sz \<longrightarrow> present (pmap d (ram s) v)"
  shows "\<exists>r s'. loaduvm_loop d addr ip off sz i s = Some (r, s') \<and> stored_to d ps (unat addr + unat i) (unat sz - unat i) s s'
    \<and> (r = 0 \<or> r = - 1) \<and> (r = 0 \<longrightarrow> unat i = unat sz \<or> unat (off + i) + (unat sz - unat i) \<le> length (contents ip s))
    \<and> (unat (off + i) + (unat sz - unat i) \<le> length (contents ip s) \<longrightarrow> r = 0)
    \<and> (r = 0 \<longrightarrow> (\<forall>v<KERNBASE. unat addr + unat i \<le> unat v \<longrightarrow> unat v < unat addr + unat sz \<longrightarrow>
        user_byte d (ram s') v = contents ip s ! (unat (off + i) + (unat v - (unat addr + unat i)))))"
  using assms
proof (induction "unat sz - unat i" arbitrary: i s rule: less_induct)
  case less
  note U = less.prems(1) and R = less.prems(2) and pr = less.prems(7)[rule_format]
  show ?case
  proof (cases "i < sz")
    case False
    then have e: "unat i = unat sz" using less.prems(5) by (simp add: word_less_nat_alt)
    have "stored_to d ps (unat addr + unat i) (unat sz - unat i) s s" using U R by (simp add: stored_to_def quiet_refl readable_def)
    then show ?thesis using False e by (subst loaduvm_loop.simps) auto
  next
    case True
    then have lt: "unat i < unat sz" by (simp add: word_less_nat_alt)
    define n where "n = (if sz - i < PGSIZE then sz - i else PGSIZE)"
    have us: "unat (sz - i) = unat sz - unat i" using True by (simp add: unat_sub less_imp_le)
    have n: "unat n = min (unat sz - unat i) 4096" by (auto simp: n_def word_less_nat_alt us PGSIZE_mask)
    have ua: "unat (addr + i) < 2147483648" using less.prems(4,6) lt by linarith
    have ak: "addr + i < KERNBASE" using ua by (simp add: word_less_nat_alt unat_KERNBASE)
    have p: "present (pmap d (ram s) (addr + i))" using pr[of "addr + i"] less.prems(4) lt by simp
    let ?f = "pt_page (pmap d (ram s) (addr + i))"
    obtain pte where w: "walkpgdir d (addr + i) False s = (pte, s)" "pte \<noteq> 0" "rd_pte pte s = pmap d (ram s) (addr + i)"
      using walk_pmap[OF uspaceD(1)[OF U] p] by blast
    have n4: "unat n \<le> 4096" using n by simp
    obtain r b s2 s3 where l: "readi ip (load_bytes (unat ?f) (unat n) (ram s)) (off + i) n s = Some (r, b, s2)"
      "s3 = s2\<lparr>ram := store_bytes (unat ?f) b (ram s2)\<rparr>" "quiet s s3" "uspace d s3 ps" "pages d s3 ps = pages d s ps"
      "pmap d (ram s3) = pmap d (ram s)" "inside d s ps s3"
      "r = int (unat n) \<longrightarrow> n = 0 \<or> unat (off + i) + unat n \<le> length (contents ip s)"
      "unat (off + i) + unat n \<le> length (contents ip s) \<longrightarrow> r = int (unat n)"
      "\<forall>v<KERNBASE. present (pmap d (ram s) v) \<longrightarrow> \<not> (unat (addr + i) \<le> unat v \<and> unat v < unat (addr + i) + unat n) \<longrightarrow>
          user_byte d (ram s3) v = user_byte d (ram s) v"
      "r = int (unat n) \<longrightarrow> (\<forall>v<KERNBASE. unat (addr + i) \<le> unat v \<longrightarrow> unat v < unat (addr + i) + unat n \<longrightarrow>
        user_byte d (ram s3) v = contents ip s ! (unat (off + i) + (unat v - unat (addr + i))))"
      using load_page[OF U R less.prems(3) ak p n4, of "off + i"] by (elim exE conjE) (rule that)
    have st: "stored_to d ps (unat addr + unat i) (unat n) s s3"
      using l(3-7,10) unfolding less.prems(4) stored_to_def by blast
    have nn: "sint n = int (unat n)"
      by (rule sint_small_u32) (use n4 in simp)
    have step: "loaduvm_loop d addr ip off sz i s = (if r \<noteq> int (unat n) then Some (- 1, s3) else loaduvm_loop d addr ip off sz (i + PGSIZE) s3)"
      using True w l(1) by (subst loaduvm_loop.simps) (simp add: Let_def n_def[symmetric] nn pt_page_P2V[symmetric] l(2)[symmetric] del: of_nat_unat)
    show ?thesis
    proof (cases "r = int (unat n)")
      case False
      have "stored_to d ps (unat addr + unat i) (unat sz - unat i) s s3"
        using st n unfolding stored_to_def by auto
      moreover have "\<not> unat (off + i) + (unat sz - unat i) \<le> length (contents ip s)" using False l(9) n by auto
      ultimately show ?thesis using step False by (intro exI[of _ "- 1"] exI[of _ s3]) simp
    next
      case full: True
      have nz: "0 < unat n" using n lt by simp
      then have len: "unat (off + i) + unat n \<le> length (contents ip s)" using l(8) full by auto
      have bytes: "user_byte d (ram s3) v = contents ip s ! (unat (off + i) + (unat v - (unat addr + unat i)))"
        if "v < KERNBASE" "unat addr + unat i \<le> unat v" "unat v < unat addr + unat i + unat n" for v
        using l(11) full that unfolding less.prems(4) by blast
      have ui: "unat (i + PGSIZE) = unat i + 4096" using less.prems(6) lt by (simp add: unat_word_ariths PGSIZE_def)
      show ?thesis
      proof (cases "unat sz - unat i \<le> 4096")
        case True
        then have n': "unat n = unat sz - unat i" using n by simp
        have "\<not> i + PGSIZE < sz" using True by (simp add: word_less_nat_alt ui)
        then have "loaduvm_loop d addr ip off sz (i + PGSIZE) s3 = Some (0, s3)" by (subst loaduvm_loop.simps) simp
        then show ?thesis using step full st len bytes lt unfolding n' by (intro exI[of _ 0] exI[of _ s3]) simp
      next
        case False
        then have n': "unat n = 4096" using n by simp
        have R3: "readable ip s3" by (rule readable_quiet[OF l(3) R])
        note q = quietD[OF l(3)]
        have ea: "addr + (i + PGSIZE) = addr + i + PGSIZE" by simp
        have u2: "unat (addr + (i + PGSIZE)) = unat addr + unat (i + PGSIZE)"
          unfolding ea using less.prems(4,6) lt by (simp add: unat_word_ariths PGSIZE_def ui)
        have "4096 dvd unat addr + unat i + 4096" using less.prems(3) unfolding page_al_def less.prems(4) by (rule dvd_add) simp
        then have al2: "page_al (addr + (i + PGSIZE))" unfolding page_al_def u2 ui by (simp add: add.assoc)
        have eo: "off + (i + PGSIZE) = off + i + PGSIZE" by simp
        have "length (contents ip s) \<le> 71680" using file_okD(3)[of ip s] R by (simp add: readable_def fs_consts)
        then have uo: "unat (off + (i + PGSIZE)) = unat (off + i) + 4096"
          unfolding eo using len n' by (simp add: unat_word_ariths PGSIZE_def)
        have pr3: "\<forall>v. unat addr \<le> unat v \<longrightarrow> unat v < unat addr + unat sz \<longrightarrow> present (pmap d (ram s3) v)" using pr by (simp add: l(6))
        have le: "unat (i + PGSIZE) \<le> unat sz" and sm: "unat sz - unat (i + PGSIZE) < unat sz - unat i" using False ui by auto
        obtain r' s' where i: "loaduvm_loop d addr ip off sz (i + PGSIZE) s3 = Some (r', s')"
          "stored_to d ps (unat addr + unat (i + PGSIZE)) (unat sz - unat (i + PGSIZE)) s3 s'"
          "r' = 0 \<or> r' = - 1" "r' = 0 \<longrightarrow> unat (i + PGSIZE) = unat sz \<or> unat (off + (i + PGSIZE)) + (unat sz - unat (i + PGSIZE)) \<le> length (contents ip s)"
          "unat (off + (i + PGSIZE)) + (unat sz - unat (i + PGSIZE)) \<le> length (contents ip s) \<longrightarrow> r' = 0"
          "r' = 0 \<longrightarrow> (\<forall>v<KERNBASE. unat addr + unat (i + PGSIZE) \<le> unat v \<longrightarrow> unat v < unat addr + unat sz \<longrightarrow>
              user_byte d (ram s') v = contents ip s ! (unat (off + (i + PGSIZE)) + (unat v - (unat addr + unat (i + PGSIZE)))))"
          using less.hyps[OF sm l(4) R3 al2 u2 le less.prems(6) pr3] unfolding q(11) by (elim exE conjE) (rule that)
        note S = stored_toD[OF i(2)]
        have st': "stored_to d ps (unat addr + unat i) (unat sz - unat i) s s'"
          by (rule stored_to_trans[OF st i(2)]) (use False n' ui in auto)
        have "user_byte d (ram s') v = contents ip s ! (unat (off + i) + (unat v - (unat addr + unat i)))"
          if r0: "r' = 0" and v: "v < KERNBASE" "unat addr + unat i \<le> unat v" "unat v < unat addr + unat sz" for v
        proof (cases "unat addr + unat (i + PGSIZE) \<le> unat v")
          case True
          then have "unat (off + (i + PGSIZE)) + (unat v - (unat addr + unat (i + PGSIZE))) = unat (off + i) + (unat v - (unat addr + unat i))"
            unfolding uo ui by linarith
          then show ?thesis using i(6) r0 v True by metis
        next
          case False
          have "present (pmap d (ram s3) v)" using pr3 v by simp
          then have "user_byte d (ram s') v = user_byte d (ram s3) v" using S(5)[OF v(1)] False by simp
          then show ?thesis using bytes[OF v(1,2)] False n' ui by simp
        qed
        then show ?thesis
          using step full i(1,3-5) st' False unfolding uo ui
          by (intro exI[of _ r'] exI[of _ s']) auto
      qed
    qed
  qed
qed


lemma loaduvm_ok:
  assumes U: "uspace d s ps" and R: "readable ip s" and al: "page_al addr" and top: "unat addr + unat sz \<le> 2147483648"
    and pr: "\<forall>v. unat addr \<le> unat v \<longrightarrow> unat v < unat addr + unat sz \<longrightarrow> present (pmap d (ram s) v)"
  shows "\<exists>r s'. loaduvm d addr ip off sz s = Some (r, s') \<and> stored_to d ps (unat addr) (unat sz) s s'
    \<and> r = (if sz = 0 \<or> unat off + unat sz \<le> length (contents ip s) then 0 else - 1)
    \<and> (r = 0 \<longrightarrow> (\<forall>v<KERNBASE. unat addr \<le> unat v \<longrightarrow> unat v < unat addr + unat sz \<longrightarrow>
        user_byte d (ram s') v = contents ip s ! (unat off + (unat v - unat addr))))"
proof -
  have "unat (addr mod PGSIZE) = 0" using al by (simp add: page_al_def unat_mod_distrib PGSIZE_def)
  then have m: "addr mod PGSIZE = 0" by (simp add: unat_eq_zero)
  have a0: "page_al (addr + 0)" "unat (addr + 0) = unat addr + unat (0 :: u32)" "unat (0 :: u32) \<le> unat sz" using al by simp_all
  obtain r s' where l: "loaduvm_loop d addr ip off sz 0 s = Some (r, s')" "stored_to d ps (unat addr) (unat sz) s s'"
    "r = 0 \<or> r = - 1" "r = 0 \<longrightarrow> 0 = unat sz \<or> unat off + unat sz \<le> length (contents ip s)"
    "unat off + unat sz \<le> length (contents ip s) \<longrightarrow> r = 0"
    "r = 0 \<longrightarrow> (\<forall>v<KERNBASE. unat addr \<le> unat v \<longrightarrow> unat v < unat addr + unat sz \<longrightarrow>
        user_byte d (ram s') v = contents ip s ! (unat off + (unat v - unat addr)))"
    using loaduvm_loop_ok[OF U R a0 top pr, of off, unfolded unat_0 add_0_right diff_zero] by (elim exE conjE) (rule that)
  have "r = 0" if "sz = 0" using l(1) that by (subst (asm) loaduvm_loop.simps) simp
  moreover have "0 = unat sz \<longleftrightarrow> sz = 0" by (metis unat_eq_zero)
  ultimately have "r = (if sz = 0 \<or> unat off + unat sz \<le> length (contents ip s) then 0 else - 1)" using l(3-5) by auto
  moreover have "loaduvm d addr ip off sz s = Some (r, s')" using l(1) m by (simp add: loaduvm_def)
  ultimately show ?thesis using l(2,6) by blast
qed

section \<open>The segments of a program\<close>

lemma PGROUNDDOWN_user: "PGROUNDDOWN v < KERNBASE \<longleftrightarrow> v < KERNBASE"
proof -
  have "unat v div 4096 * 4096 < 524288 * 4096 \<longleftrightarrow> unat v div 4096 < 524288" by simp
  also have "\<dots> \<longleftrightarrow> unat v < 2147483648" by (simp add: div_less_iff_less_mult)
  finally show ?thesis by (simp add: word_less_nat_alt unat_PGROUNDDOWN unat_KERNBASE)
qed

lemma PGROUNDDOWN_le: "unat (PGROUNDDOWN v) \<le> unat v"
  unfolding unat_PGROUNDDOWN by (rule div_times_less_eq_dividend)

text \<open>The pages of the user below \<open>sz\<close> are mapped for it, and no others.\<close>

definition filled :: "u32 \<Rightarrow> (nat \<Rightarrow> u8) \<Rightarrow> u32 \<Rightarrow> bool" where
  "filled d m sz \<longleftrightarrow> (\<forall>v<KERNBASE. (present (pmap d m v) \<longleftrightarrow> PGROUNDDOWN v < sz) \<and> (PGROUNDDOWN v < sz \<longrightarrow> umapped d m v))"

lemma filled_grown:
  assumes F: "filled d (ram s) sz" and G: "grown d (cut_off sz new) s ps s' ps'" and le: "sz \<le> new"
  shows "filled d (ram s') new"
  unfolding filled_def
proof (intro allI impI)
  note g = grownD[OF G]
  fix v assume v: "v < KERNBASE"
  have f: "present (pmap d (ram s) v) \<longleftrightarrow> PGROUNDDOWN v < sz" "PGROUNDDOWN v < sz \<Longrightarrow> umapped d (ram s) v"
    using F v unfolding filled_def by blast+
  show "(present (pmap d (ram s') v) \<longleftrightarrow> PGROUNDDOWN v < new) \<and> (PGROUNDDOWN v < new \<longrightarrow> umapped d (ram s') v)"
  proof (cases "cut_off sz new v")
    case True
    then have u: "umapped d (ram s') v" using g(5) by (simp add: fresh_def)
    then show ?thesis using True by (simp add: cut_off_def umapped_def)
  next
    case False
    then have "PGROUNDDOWN v < sz \<longleftrightarrow> PGROUNDDOWN v < new" using le by (auto simp: cut_off_def not_le)
    then show ?thesis using f g(4)[OF False] by (simp add: umapped_def)
  qed
qed

lemma uspace_same:
  assumes "ram s' = ram s" "freelist s' = freelist s"
  shows "uspace d s' ps = uspace d s ps" "pages d s' ps = pages d s ps"
  using assms by (simp_all add: uspace_def pages_def own_def vm_ok_def free_pages_def)

end
