(* ===== verification/Elf_Image.thy ===== *)
theory Elf_Image
  imports Loader
begin

text \<open>
  What a program file means (include/elf.h): \<open>seg_image\<close> computes, from the bytes of the file alone, the size of the process and the contents
  of its memory, or that the file is no program. The loop of \<open>exec\<close> (kernel/exec.c) over the program headers is safe whatever the file
  contains, and when it succeeds the memory of the new process is this image.
\<close>

unbundle bit_operations_syntax

section \<open>The image of a file\<close>

text \<open>The bytes of a segment replace what was there; a segment that reaches the kernel, is not page-aligned, wraps around or runs off the file
  is refused. \<open>sz\<close> is the end of the segments so far, \<open>f\<close> the memory they make.\<close>

definition put_segment :: "u8 list \<Rightarrow> proghdr \<Rightarrow> (u32 \<Rightarrow> u8) \<Rightarrow> u32 \<Rightarrow> u8" where
  "put_segment c ph f v = (if unat (ph_vaddr ph) \<le> unat v \<and> unat v < unat (ph_vaddr ph) + unat (ph_filesz ph)
     then c ! (unat (ph_off ph) + (unat v - unat (ph_vaddr ph))) else f v)"

definition seg_bad :: "u8 list \<Rightarrow> proghdr \<Rightarrow> u32 \<Rightarrow> bool" where
  "seg_bad c ph sz \<longleftrightarrow> ph_memsz ph < ph_filesz ph \<or> ph_vaddr ph + ph_memsz ph < ph_vaddr ph \<or> KERNBASE \<le> ph_vaddr ph + ph_memsz ph
     \<or> max sz (ph_vaddr ph + ph_memsz ph) = 0 \<or> ph_vaddr ph mod PGSIZE \<noteq> 0
     \<or> ph_filesz ph \<noteq> 0 \<and> length c < unat (ph_off ph) + unat (ph_filesz ph)"

fun seg_image :: "u8 list \<Rightarrow> nat \<Rightarrow> u32 \<Rightarrow> u32 \<Rightarrow> (u32 \<Rightarrow> u8) \<Rightarrow> (u32 \<times> (u32 \<Rightarrow> u8)) option" where
  "seg_image c 0 off sz f = Some (sz, f)"
| "seg_image c (Suc n) off sz f =
     (let ph = dec_proghdr (take PH_SIZE (drop (unat off) c))
      in if length c < unat off + PH_SIZE then None
         else if ph_type ph \<noteq> ELF_PROG_LOAD then seg_image c n (off + of_nat PH_SIZE) sz f
         else if seg_bad c ph sz then None
         else seg_image c n (off + of_nat PH_SIZE) (max sz (ph_vaddr ph + ph_memsz ph)) (put_segment c ph f))"

text \<open>The user's memory reads as \<open>f\<close>; above \<open>sz\<close> there are only zeros; the kernel's half of the address space is as before.\<close>

definition mem_is :: "u32 \<Rightarrow> (nat \<Rightarrow> u8) \<Rightarrow> (u32 \<Rightarrow> u8) \<Rightarrow> bool" where
  "mem_is d m f \<longleftrightarrow> (\<forall>v<KERNBASE. present (pmap d m v) \<longrightarrow> user_byte d m v = f v)"

definition zero_from :: "u32 \<Rightarrow> (u32 \<Rightarrow> u8) \<Rightarrow> bool" where
  "zero_from sz f \<longleftrightarrow> (\<forall>v<KERNBASE. \<not> PGROUNDDOWN v < sz \<longrightarrow> f v = 0)"

definition kernel_same :: "u32 \<Rightarrow> (nat \<Rightarrow> u8) \<Rightarrow> (nat \<Rightarrow> u8) \<Rightarrow> bool" where
  "kernel_same d m m' \<longleftrightarrow> (\<forall>v. KERNBASE \<le> v \<longrightarrow> pmap d m' v = pmap d m v)"

lemma kernel_same_trans: "kernel_same d m m1 \<Longrightarrow> kernel_same d m1 m2 \<Longrightarrow> kernel_same d m m2"
  by (simp add: kernel_same_def)

lemma kernel_same_grown:
  assumes "grown d (cut_off sz new) s ps s' ps'" "new < KERNBASE"
  shows "kernel_same d (ram s) (ram s')"
  unfolding kernel_same_def
proof (intro allI impI)
  fix v :: u32 assume v: "KERNBASE \<le> v"
  have "\<not> cut_off sz new v"
  proof
    assume "cut_off sz new v"
    then have "PGROUNDDOWN v < KERNBASE" using assms(2) by (auto simp: cut_off_def)
    then show False using v by (simp add: PGROUNDDOWN_user)
  qed
  then show "pmap d (ram s') v = pmap d (ram s) v" by (rule grownD(4)[OF assms(1)])
qed

lemma zero_fromD: "zero_from sz f \<Longrightarrow> v < KERNBASE \<Longrightarrow> \<not> PGROUNDDOWN v < sz \<Longrightarrow> f v = 0"
  by (simp add: zero_from_def)

lemma mem_is_grown:
  assumes M: "mem_is d (ram s) f" "zero_from sz f" and F: "filled d (ram s) sz" and G: "grown d (cut_off sz new) s ps s' ps'"
  shows "mem_is d (ram s') f"
  unfolding mem_is_def
proof (intro allI impI)
  note g = grownD[OF G]
  fix v assume v: "v < KERNBASE" "present (pmap d (ram s') v)"
  show "user_byte d (ram s') v = f v"
  proof (cases "cut_off sz new v")
    case True
    then have "user_byte d (ram s') v = 0" using g(5) by (simp add: fresh_def)
    then show ?thesis using True zero_fromD[OF M(2) v(1)] by (simp add: cut_off_def not_less)
  next
    case False
    then show ?thesis using v g(4)[OF False] g(6)[OF v(1) False] M(1) by (simp add: mem_is_def)
  qed
qed

lemma mem_is_stored:
  assumes S: "stored_to d ps a n s s'" and M: "mem_is d (ram s) f" and a: "a = unat (ph_vaddr ph)" "n = unat (ph_filesz ph)"
    and new: "\<forall>v<KERNBASE. a \<le> unat v \<longrightarrow> unat v < a + n \<longrightarrow> user_byte d (ram s') v = c ! (unat (ph_off ph) + (unat v - a))"
  shows "mem_is d (ram s') (put_segment c ph f)"
  using M new stored_toD(4,5)[OF S] unfolding mem_is_def put_segment_def a by auto

lemma pg_up_mono: "x \<le> y \<Longrightarrow> pg_up x \<le> pg_up y"
  unfolding pg_up_def word_le_nat_alt by (intro div_le_mono) simp

lemma seg_image_grows: "seg_image c n off sz f = Some (z, g) \<Longrightarrow> sz \<le> z"
proof (induction c n off sz f rule: seg_image.induct)
  case (2 c n off sz f)
  define ph where "ph = dec_proghdr (take PH_SIZE (drop (unat off) c))"
  have "sz \<le> max sz (ph_vaddr ph + ph_memsz ph)" by simp
  then show ?case using 2 unfolding seg_image.simps Let_def ph_def[symmetric] by (auto split: if_splits intro: order_trans)
qed simp

section \<open>The loop over the program headers\<close>

text \<open>A step towards the image \<open>im\<close> from \<open>sz\<close> on: either it is complete, or \<open>im\<close> is no image, or the free pages ran out.\<close>

definition img_step :: "u32 \<Rightarrow> (u32 \<times> (u32 \<Rightarrow> u8)) option \<Rightarrow> u32 \<Rightarrow> 'a kmem_scheme \<Rightarrow> u32 list \<Rightarrow> u32 option \<Rightarrow> 'a kmem_scheme \<Rightarrow> u32 list \<Rightarrow> bool" where
  "img_step d im sz s ps r s' ps' \<longleftrightarrow> quiet s s' \<and> uspace d s' ps' \<and> pages d s' ps' = pages d s ps \<and> inside d s ps s'
     \<and> (case r of None \<Rightarrow> \<forall>z g. im = Some (z, g) \<longrightarrow> length ps < 2 * (pg_up z - pg_up sz)
        | Some z \<Rightarrow> z < KERNBASE \<and> filled d (ram s') z \<and> kernel_same d (ram s) (ram s') \<and> length ps \<le> length ps' + 2 * (pg_up z - pg_up sz)
            \<and> (\<exists>g. im = Some (z, g) \<and> mem_is d (ram s') g \<and> zero_from z g))"

lemma img_stepD:
  assumes "img_step d im sz s ps r s' ps'"
  shows "quiet s s'" "uspace d s' ps'" "pages d s' ps' = pages d s ps" "inside d s ps s'"
    "r = Some z \<Longrightarrow> z < KERNBASE \<and> filled d (ram s') z \<and> kernel_same d (ram s) (ram s') \<and> length ps \<le> length ps' + 2 * (pg_up z - pg_up sz)
      \<and> (\<exists>g. im = Some (z, g) \<and> mem_is d (ram s') g \<and> zero_from z g)"
    "r = None \<Longrightarrow> im = Some (z, g) \<Longrightarrow> length ps < 2 * (pg_up z - pg_up sz)"
  using assms by (auto simp: img_step_def)

lemma img_step_stop:
  assumes "quiet s s'" "uspace d s' ps'" "pages d s' ps' = pages d s ps" "inside d s ps s'"
    and "\<And>z g. im = Some (z, g) \<Longrightarrow> length ps < 2 * (pg_up z - pg_up sz)"
  shows "img_step d im sz s ps None s' ps'"
  using assms by (simp add: img_step_def)

lemma img_step_trans:
  assumes q: "quiet s t" "pages d t qs = pages d s ps" "inside d s ps t" "kernel_same d (ram s) (ram t)"
    and le: "length ps \<le> length qs + 2 * (pg_up z - pg_up sz)" "sz \<le> z" "\<And>x g. im = Some (x, g) \<Longrightarrow> z \<le> x"
    and L: "img_step d im z t qs r u rs"
  shows "img_step d im sz s ps r u rs"
proof -
  note l = img_stepD[OF L]
  have up: "2 * (pg_up z - pg_up sz) + 2 * (pg_up x - pg_up z) = 2 * (pg_up x - pg_up sz)" if "im = Some (x, g)" for x g
    using pg_up_mono[OF le(2)] pg_up_mono[OF le(3)[OF that]] by simp
  have "quiet s u" "inside d s ps u" by (rule quiet_trans[OF q(1) l(1)], rule inside_trans[OF q(3) l(4) q(2)])
  moreover have "kernel_same d (ram s) (ram u)" if "kernel_same d (ram t) (ram u)" using q(4) that by (rule kernel_same_trans)
  moreover have "length ps \<le> length rs + 2 * (pg_up x - pg_up sz)" if "im = Some (x, g)" "length qs \<le> length rs + 2 * (pg_up x - pg_up z)" for x g
    using le(1) that(2) up[OF that(1)] by linarith
  moreover have "length ps < 2 * (pg_up x - pg_up sz)" if "im = Some (x, g)" "length qs < 2 * (pg_up x - pg_up z)" for x g
    using le(1) that(2) up[OF that(1)] by linarith
  moreover have "pages d u rs = pages d s ps" using l(3) q(2) by simp
  ultimately show ?thesis using l(2,5,6) unfolding img_step_def by (auto split: option.splits)
qed

text \<open>Growing to a size that may be smaller: \<open>allocuvm\<close> as the loader calls it.\<close>

lemma grow_any:
  assumes U: "uspace d s ps" and F: "filled d (ram s) sz" and sz: "sz < KERNBASE"
    and M: "mem_is d (ram s) f" "zero_from sz f" and bio: "bio_ok s"
  shows "\<exists>q s' ps'. allocuvm d sz new s = Some (case q of None \<Rightarrow> 0 | Some z \<Rightarrow> z, s')
    \<and> img_step d (if KERNBASE \<le> new then None else Some (max sz new, f)) sz s ps q s' ps'"
proof (cases "new \<ge> KERNBASE \<or> new < sz")
  case True
  show ?thesis
  proof (cases "KERNBASE \<le> new")
    case k: True
    then have "img_step d (if KERNBASE \<le> new then None else Some (max sz new, f)) sz s ps None s ps"
      using U by (intro img_step_stop quiet_refl bio) simp_all
    then show ?thesis using k by (intro exI[of _ None] exI[of _ s] exI[of _ ps]) (simp add: allocuvm_def)
  next
    case False
    then have n: "new < sz" "max sz new = sz" using True by (simp_all add: max.absorb1)
    then have "img_step d (if KERNBASE \<le> new then None else Some (max sz new, f)) sz s ps (Some sz) s ps"
      using False U F sz M quiet_refl[OF bio] by (simp add: img_step_def kernel_same_def)
    then show ?thesis using False n by (intro exI[of _ "Some sz"] exI[of _ s] exI[of _ ps]) (simp add: allocuvm_def)
  qed
next
  case False
  then have n: "new < KERNBASE" "sz \<le> new" by auto
  have e: "(if KERNBASE \<le> new then None else Some (max sz new, f)) = Some (new, f)" using n by (simp add: max_def)
  have "\<not> present (pmap d (ram s) v)" if "cut_off sz new v" for v
  proof -
    have "v < KERNBASE" using that n(1) PGROUNDDOWN_user[of v] by (auto simp: cut_off_def)
    then show ?thesis using F that unfolding filled_def cut_off_def by auto
  qed
  then obtain r s' ps' where a: "allocuvm d sz new s = Some (r, s')"
    "r = new \<and> length ps \<le> length ps' + 2 * (pg_up new - pg_up sz) \<and> grown d (cut_off sz new) s ps s' ps'
      \<or> r = 0 \<and> length ps < 2 * (pg_up new - pg_up sz) \<and> undone d (cut_off sz new) s ps s' ps'"
    using allocuvm_ok[OF U n] by blast
  from a(2) show ?thesis unfolding e
  proof
    assume g: "r = new \<and> length ps \<le> length ps' + 2 * (pg_up new - pg_up sz) \<and> grown d (cut_off sz new) s ps s' ps'"
    then have G: "grown d (cut_off sz new) s ps s' ps'" by simp
    note D = grownD[OF G]
    have "zero_from new f" using M(2) n(2) unfolding zero_from_def by (meson less_le_trans)
    then have "img_step d (Some (new, f)) sz s ps (Some new) s' ps'"
      unfolding img_step_def
      using D(1,3,7) quiet_mem[OF bio D(2)] filled_grown[OF F G n(2)] mem_is_grown[OF M F G] kernel_same_grown[OF G n(1)] n(1) g by simp
    then show "\<exists>q s' ps'. allocuvm d sz new s = Some (case q of None \<Rightarrow> 0 | Some z \<Rightarrow> z, s') \<and> img_step d (Some (new, f)) sz s ps q s' ps'"
      using a(1) g by (intro exI[of _ "Some new"] exI[of _ s'] exI[of _ ps']) simp
  next
    assume u: "r = 0 \<and> length ps < 2 * (pg_up new - pg_up sz) \<and> undone d (cut_off sz new) s ps s' ps'"
    then have "uspace d s' ps'" "mem_frame s s'" "pages d s' ps' = pages d s ps" "inside d s ps s'" unfolding undone_def by blast+
    then have "img_step d (Some (new, f)) sz s ps None s' ps'" using u by (intro img_step_stop quiet_mem[OF bio]) simp_all
    then show "\<exists>q s' ps'. allocuvm d sz new s = Some (case q of None \<Rightarrow> 0 | Some z \<Rightarrow> z, s') \<and> img_step d (Some (new, f)) sz s ps q s' ps'"
      using a(1) u by (intro exI[of _ None] exI[of _ s'] exI[of _ ps']) simp
  qed
qed

lemma exec_segments_ok:
  fixes s :: "'a kern_scheme"
  assumes "uspace d s ps" "readable ip s" "filled d (ram s) sz" "sz < KERNBASE" "mem_is d (ram s) f" "zero_from sz f" "contents ip s = c"
  shows "\<exists>r s' ps'. exec_segments d ip n off sz s = Some (r, s') \<and> img_step d (seg_image c n off sz f) sz s ps r s' ps'"
  using assms
proof (induction n arbitrary: off sz f s ps)
  case 0
  have "quiet s s" using 0(2) by (simp add: readable_def quiet_refl)
  then have "img_step d (Some (sz, f)) sz s ps (Some sz) s ps" using 0 by (simp add: img_step_def kernel_same_def)
  then show ?case by auto
next
  case (Suc n)
  note U = Suc.prems(1) and R = Suc.prems(2) and F = Suc.prems(3) and sz = Suc.prems(4) and M = Suc.prems(5,6) and C = Suc.prems(7)
  let ?off = "off + of_nat PH_SIZE"
  have "unat (of_nat PH_SIZE :: u32) \<le> length (replicate PH_SIZE (0 :: u8))" by (simp add: PH_SIZE_def)
  then obtain r b s1 where rd: "readi ip (replicate PH_SIZE 0) off (of_nat PH_SIZE) s = Some (r, b, s1)" "quiet s s1"
    "ram s1 = ram s" "freelist s1 = freelist s" "r = int PH_SIZE \<longrightarrow> unat off + PH_SIZE \<le> length c \<and> b = take PH_SIZE (drop (unat off) c)"
    "unat off + PH_SIZE \<le> length c \<longrightarrow> r = int PH_SIZE"
    using readi_any[OF R, of "of_nat PH_SIZE" "replicate PH_SIZE 0" off] unfolding C by (auto simp: PH_SIZE_def blit_def)
  define ph where "ph = dec_proghdr b"
  have C1: "contents ip s1 = c" using quietD(11)[OF rd(2)] C by simp
  have M1: "mem_is d (ram s1) f" and F1: "filled d (ram s1) sz" using M(1) F by (simp_all add: rd(3))
  have U1: "uspace d s1 ps" "pages d s1 ps = pages d s ps" using uspace_same[OF rd(3,4)] U by simp_all
  have I1: "inside d s ps s1" by (simp add: rd(3))
  let ?new = "ph_vaddr ph + ph_memsz ph"
  consider (stop) "r \<noteq> int PH_SIZE \<or> ph_type ph = ELF_PROG_LOAD \<and> (ph_memsz ph < ph_filesz ph \<or> ?new < ph_vaddr ph)"
    | (pass) "r = int PH_SIZE" "ph_type ph \<noteq> ELF_PROG_LOAD"
    | (load) "r = int PH_SIZE" "ph_type ph = ELF_PROG_LOAD" "\<not> ph_memsz ph < ph_filesz ph" "\<not> ?new < ph_vaddr ph" by blast
  then show ?case
  proof cases
    case stop
    then have "exec_segments d ip (Suc n) off sz s = Some (None, s1)" using rd(1) by (auto simp: ph_def Let_def)
    moreover have "seg_image c (Suc n) off sz f = None"
    proof (cases "length c < unat off + PH_SIZE")
      case False
      then have "r = int PH_SIZE" "ph = dec_proghdr (take PH_SIZE (drop (unat off) c))" using rd(5,6) by (auto simp: ph_def)
      then show ?thesis using stop by (auto simp: Let_def seg_bad_def)
    qed (simp add: Let_def)
    moreover have "img_step d None sz s ps None s1 ps" by (rule img_step_stop[OF rd(2) U1 I1]) simp
    ultimately show ?thesis by auto
  next
    case pass
    then have e: "exec_segments d ip (Suc n) off sz s = exec_segments d ip n ?off sz s1" using rd(1) by (simp add: ph_def Let_def)
    have i: "seg_image c (Suc n) off sz f = seg_image c n ?off sz f" using pass rd(5) by (simp add: ph_def Let_def)
    obtain r' s' ps' where "exec_segments d ip n ?off sz s1 = Some (r', s')" "img_step d (seg_image c n ?off sz f) sz s1 ps r' s' ps'"
      using Suc.IH[OF U1(1) readable_quiet[OF rd(2) R] F1 sz M1 M(2) C1, of ?off] by blast
    moreover have "img_step d (seg_image c n ?off sz f) sz s ps r' s' ps'"
      using calculation(2) by (intro img_step_trans[OF rd(2) U1(2) I1 _ _ order_refl seg_image_grows]) (simp_all add: rd(3) kernel_same_def)
    ultimately show ?thesis unfolding e i by blast
  next
    case load
    have im: "seg_image c (Suc n) off sz f = (if seg_bad c ph sz then None else seg_image c n ?off (max sz ?new) (put_segment c ph f))"
      using load rd(5) by (simp add: ph_def Let_def)
    obtain q s2 ps2 where al: "allocuvm d sz ?new s1 = Some (case q of None \<Rightarrow> 0 | Some z \<Rightarrow> z, s2)"
      "img_step d (if KERNBASE \<le> ?new then None else Some (max sz ?new, f)) sz s1 ps q s2 ps2"
      using grow_any[OF U1(1) F1 sz M1 M(2) quietD(1)[OF rd(2)], of ?new] by blast
    note A = img_stepD[OF al(2)]
    define z where "z = (case q of None \<Rightarrow> 0 | Some z \<Rightarrow> z)"
    have p2: "pages d s2 ps2 = pages d s ps" using A(3) U1(2) by simp
    have I2: "inside d s ps s2" by (rule inside_trans[OF I1 A(4) U1(2)])
    have q2: "quiet s s2" by (rule quiet_trans[OF rd(2) A(1)])
    have head: "exec_segments d ip (Suc n) off sz s =
        (if z = 0 \<or> ph_vaddr ph mod PGSIZE \<noteq> 0 then Some (None, s2)
         else do { (r2, s3) \<leftarrow> loaduvm d (ph_vaddr ph) ip (ph_off ph) (ph_filesz ph) s2;
                   if r2 < 0 then Some (None, s3) else exec_segments d ip n ?off z s3 })"
      using rd(1) load al(1)[folded z_def] by (simp add: ph_def Let_def)
    show ?thesis
    proof (cases "z = 0 \<or> ph_vaddr ph mod PGSIZE \<noteq> 0")
      case True
      have "img_step d (seg_image c (Suc n) off sz f) sz s ps None s2 ps2"
      proof (rule img_step_stop[OF q2 A(2) p2 I2])
        fix x g assume i: "seg_image c (Suc n) off sz f = Some (x, g)"
        then have nb: "\<not> seg_bad c ph sz" and i2: "seg_image c n ?off (max sz ?new) (put_segment c ph f) = Some (x, g)"
          unfolding im by (auto split: if_splits)
        then have nk: "\<not> KERNBASE \<le> ?new" "max sz ?new \<noteq> 0" "z = 0" using True by (auto simp: seg_bad_def)
        then have "q = None" using A(5)[of z] by (cases q) (auto simp: z_def)
        then have "length ps < 2 * (pg_up (max sz ?new) - pg_up sz)" using A(6) nk(1) by simp
        also have "\<dots> \<le> 2 * (pg_up x - pg_up sz)" using pg_up_mono[OF seg_image_grows[OF i2]] by simp
        finally show "length ps < 2 * (pg_up x - pg_up sz)" .
      qed
      then show ?thesis using True unfolding head by auto
    next
      case False
      then have nz: "z \<noteq> 0" "ph_vaddr ph mod PGSIZE = 0" by simp_all
      have qz: "q = Some z" using nz(1) by (cases q) (simp_all add: z_def)
      have z: "?new < KERNBASE" "z = max sz ?new" "filled d (ram s2) z" "mem_is d (ram s2) f" "kernel_same d (ram s1) (ram s2)"
        "length ps \<le> length ps2 + 2 * (pg_up z - pg_up sz)" using A(5)[OF qz] by (auto split: if_splits)
      have zk: "z < KERNBASE" "sz \<le> z" "?new \<le> z" using z(1,2) sz by auto
      have "unat (ph_vaddr ph mod PGSIZE) = 0" using False by simp
      then have va: "page_al (ph_vaddr ph)" by (simp add: page_al_def unat_mod_distrib PGSIZE_mask dvd_eq_mod_eq_0)
      have nw: "unat ?new = unat (ph_vaddr ph) + unat (ph_memsz ph)"
        by (rule unat_plus_u32) (use load(4) in \<open>simp add: not_less\<close>)
      have fm: "unat (ph_filesz ph) \<le> unat (ph_memsz ph)" using load(3) by (simp add: word_less_nat_alt)
      have nk: "unat ?new < 2147483648" using z(1) by (simp add: word_less_nat_alt unat_KERNBASE)
      have top: "unat (ph_vaddr ph) + unat (ph_filesz ph) \<le> 2147483648" using nw fm nk by linarith
      have pr: "\<forall>v :: u32. unat (ph_vaddr ph) \<le> unat v \<longrightarrow> unat v < unat (ph_vaddr ph) + unat (ph_filesz ph) \<longrightarrow> present (pmap d (ram s2) v)"
      proof (intro allI impI)
        fix v :: u32 assume that: "unat (ph_vaddr ph) \<le> unat v" "unat v < unat (ph_vaddr ph) + unat (ph_filesz ph)"
        have "unat v < unat ?new" using that nw fm by linarith
        then have "v < KERNBASE" "PGROUNDDOWN v < ?new"
          using nk PGROUNDDOWN_le[of v] by (simp_all add: word_less_nat_alt unat_KERNBASE)
        then show "present (pmap d (ram s2) v)" using z(3) zk(3) unfolding filled_def by (meson less_le_trans)
      qed
      have R2: "readable ip s2" and C2: "contents ip s2 = c" using readable_quiet[OF q2 R] quietD(11)[OF q2] C by simp_all
      obtain r2 s3 where ld: "loaduvm d (ph_vaddr ph) ip (ph_off ph) (ph_filesz ph) s2 = Some (r2, s3)"
        "stored_to d ps2 (unat (ph_vaddr ph)) (unat (ph_filesz ph)) s2 s3"
        "r2 = (if ph_filesz ph = 0 \<or> unat (ph_off ph) + unat (ph_filesz ph) \<le> length c then 0 else - 1)"
        "r2 = 0 \<longrightarrow> (\<forall>v<KERNBASE. unat (ph_vaddr ph) \<le> unat v \<longrightarrow> unat v < unat (ph_vaddr ph) + unat (ph_filesz ph) \<longrightarrow>
          user_byte d (ram s3) v = c ! (unat (ph_off ph) + (unat v - unat (ph_vaddr ph))))"
        using loaduvm_ok[OF A(2) R2 va top pr, of "ph_off ph"] unfolding C2 by (elim exE conjE) (rule that)
      note S = stored_toD[OF ld(2)]
      have q3: "quiet s s3" by (rule quiet_trans[OF q2 S(1)])
      have p3: "pages d s3 ps2 = pages d s ps" using S(3) p2 by simp
      have I3: "inside d s ps s3" by (rule inside_trans[OF I2 S(6) p2])
      have F3: "filled d (ram s3) z" using z(3) S(4) unfolding filled_def umapped_def by simp
      have head2: "exec_segments d ip (Suc n) off sz s = (if r2 < 0 then Some (None, s3) else exec_segments d ip n ?off z s3)"
        unfolding head using False ld(1) by simp
      show ?thesis
      proof (cases "r2 < 0")
        case True
        then have "seg_bad c ph sz" using ld(3) by (auto simp: seg_bad_def split: if_splits)
        then have "img_step d (seg_image c (Suc n) off sz f) sz s ps None s3 ps2" unfolding im by (intro img_step_stop[OF q3 S(2) p3 I3]) simp
        then show ?thesis using True unfolding head2 by auto
      next
        case False
        then have r2: "r2 = 0" "ph_filesz ph = 0 \<or> unat (ph_off ph) + unat (ph_filesz ph) \<le> length c" using ld(3) by (auto split: if_splits)
        have M3: "mem_is d (ram s3) (put_segment c ph f)" using mem_is_stored[OF ld(2) z(4) refl refl] ld(4) r2(1) by blast
        have Z3: "zero_from z (put_segment c ph f)"
        proof (unfold zero_from_def, intro allI impI)
          fix v assume v: "v < KERNBASE" "\<not> PGROUNDDOWN v < z"
          then have "unat ?new \<le> unat v" using zk(3) PGROUNDDOWN_le[of v] by (simp add: not_less word_le_nat_alt)
          moreover have "\<not> PGROUNDDOWN v < sz" using v(2) zk(2) by (simp add: not_less)
          ultimately show "put_segment c ph f v = 0" using zero_fromD[OF M(2) v(1)] nw fm by (simp add: put_segment_def)
        qed
        have C3: "contents ip s3 = c" using quietD(11)[OF q3] C by simp
        have nb: "\<not> seg_bad c ph sz"
          using load(3,4) z(1,2) nz r2(2) by (auto simp: seg_bad_def not_le not_less)
        have i: "seg_image c (Suc n) off sz f = seg_image c n ?off z (put_segment c ph f)" unfolding im using nb z(2) by simp
        have K3: "kernel_same d (ram s) (ram s3)" using z(5) S(4) rd(3) by (simp add: kernel_same_def)
        obtain r' s' ps' where l: "exec_segments d ip n ?off z s3 = Some (r', s')" "img_step d (seg_image c n ?off z (put_segment c ph f)) z s3 ps2 r' s' ps'"
          using Suc.IH[OF S(2) readable_quiet[OF q3 R] F3 zk(1) M3 Z3 C3, of ?off] by blast
        have "img_step d (seg_image c n ?off z (put_segment c ph f)) sz s ps r' s' ps'"
          by (rule img_step_trans[OF q3 p3 I3 K3 z(6) zk(2) seg_image_grows l(2)])
        then show ?thesis using l(1) False unfolding head2 i by auto
      qed
    qed
  qed
qed

text \<open>The whole file: entry point, size and memory.\<close>

definition elf_image :: "u8 list \<Rightarrow> (u32 \<times> u32 \<times> (u32 \<Rightarrow> u8)) option" where
  "elf_image c =
     (let h = dec_elfhdr (take ELF_SIZE c)
      in if length c < ELF_SIZE \<or> e_magic h \<noteq> ELF_MAGIC then None
         else map_option (Pair (e_entry h)) (seg_image c (unat (e_phnum h)) (e_phoff h) 0 (\<lambda>_. 0)))"

text \<open>The free pages that building an address space may take: the directory and its tables, the frames and their tables.\<close>

lemma new_space_pages:
  assumes U: "uspace d s ps" and K: "pmap d (ram s) = kernel_entry D" and pg: "insert d (pages d s ps) = set qs" and qs: "distinct qs"
  shows "length qs \<le> 1025 + length ps"
proof -
  have "uframes d (ram s) = {}" by (auto simp: uframes_def K kernel_entry_def)
  then have e: "set qs = insert d (tables d (ram s) \<union> set ps)" using pg by (simp add: pages_def own_def)
  have f: "finite (tables d (ram s))" by (simp add: tables_def)
  have "card (tables d (ram s)) \<le> card {i :: nat. i < 1024 \<and> present (ent (ram s) d i)}"
    unfolding tables_def by (rule card_image_le) simp
  also have "\<dots> \<le> card {..<1024 :: nat}" by (rule card_mono) auto
  finally have "card (tables d (ram s) \<union> set ps) \<le> 1024 + length ps"
    using card_Un_le[of "tables d (ram s)" "set ps"] card_length[of ps] by simp
  then have "card (set qs) \<le> 1025 + length ps" using card_insert_le_m1[of 0] f unfolding e by (simp add: card_insert_if)
  then show ?thesis using distinct_card[OF qs] by simp
qed

end
