(* ===== verification/Exec_Stack.thy ===== *)
theory Exec_Stack
  imports Elf_Image User_IO
begin

text \<open>
  The last part of \<open>exec\<close> (kernel/exec.c): the stack of the new program. Two address spaces exist side by side, the new one into which
  \<open>copyout\<close> writes and the old one from which the arguments are read; neither sees changes to the other.
\<close>

unbundle bit_operations_syntax

section \<open>Address spaces side by side\<close>

text \<open>The pages an address space consists of, without the free list.\<close>

definition space :: "u32 \<Rightarrow> (nat \<Rightarrow> u8) \<Rightarrow> u32 set" where
  "space d m = insert d (tables d m \<union> uframes d m)"

lemma space_pages: "insert d (pages d s ps) = space d (ram s) \<union> set ps"
  by (auto simp: space_def pages_def own_def)

lemma space_free: "uspace d s ps \<Longrightarrow> space d (ram s) \<inter> set ps = {}"
  using uspaceD(2)[of d s ps] vm_okD(6,7)[of d s ps] uspaceD(1)[of d s ps] by (auto simp: space_def own_def)

lemma space_al: "uspace d s ps \<Longrightarrow> p \<in> space d (ram s) \<Longrightarrow> page_al p"
  using vm_okD(2)[of d s ps] uspaceD(1)[of d s ps] tables_al by (auto simp: space_def uframes_def)

lemma space_KERNBASE: "uspace d s ps \<Longrightarrow> KERNBASE \<notin> tables d (ram s) \<union> uframes d (ram s)"
  using uspaceD(4)[of d s ps] by (auto simp: pages_def own_def)

text \<open>An address space does not notice what happens outside its pages.\<close>

lemma uspace_keep:
  assumes U: "uspace d s ps" and so: "same_outside P (ram s) (ram t)" and al: "\<forall>p\<in>P. page_al p" and dj: "P \<inter> space d (ram s) = {}"
    and fp: "free_pages t qs" "set qs \<inter> space d (ram s) = {}" "KERNBASE \<notin> set qs"
  shows "uspace d t qs" "pmap d (ram t) = pmap d (ram s)" "space d (ram t) = space d (ram s)"
    "v < KERNBASE \<Longrightarrow> present (pmap d (ram s) v) \<Longrightarrow> user_byte d (ram t) v = user_byte d (ram s) v"
proof -
  note V = uspaceD[OF U] and W = vm_okD[OF uspaceD(1)[OF U]]
  have "d \<notin> P" "tables d (ram s) \<inter> P = {}" using dj by (auto simp: space_def)
  note c = pmap_cong[OF so al W(2) this]
  show pm: "pmap d (ram t) = pmap d (ram s)" by (rule c)
  have uf: "uframes d (ram t) = uframes d (ram s)" by (simp add: uframes_def pm)
  show "space d (ram t) = space d (ram s)" by (simp add: space_def c(2) uf)
  have q: "d \<notin> set qs" "tables d (ram s) \<inter> set qs = {}" "uframes d (ram s) \<inter> set qs = {}" using fp(2) by (auto simp: space_def)
  have ok: "vm_ok d t qs" using U c fp(1) q(1,2) by (simp add: uspace_def vm_ok_def)
  have "uframes d (ram s) \<inter> insert d (tables d (ram s) \<union> set qs) = {}" using V(2) q(3) by (auto simp: own_def)
  moreover have "KERNBASE \<notin> tables d (ram s) \<union> set qs \<union> uframes d (ram s)" using space_KERNBASE[OF U] fp(3) by auto
  ultimately show "uspace d t qs"
    unfolding uspace_def pages_def own_def uf c(2) pm using ok V(3,5) by blast
  assume v: "v < KERNBASE" "present (pmap d (ram s) v)"
  have "pt_page (pmap d (ram s) v) \<notin> P" using uframesI[OF v] dj by (auto simp: space_def)
  then show "user_byte d (ram t) v = user_byte d (ram s) v" using al by (intro user_byte_same[OF so]) (simp_all add: pm)
qed

section \<open>The guard page\<close>

lemma clear_user:
  "present (e AND NOT PTE_U) = present e" "pt_page (e AND NOT PTE_U) = pt_page e" "(e AND NOT PTE_U) AND PTE_U = 0"
proof -
  have "(e AND NOT PTE_U) AND PTE_P = e AND PTE_P" by (rule bit_word_eqI) (auto simp: bit_simps PTE_U_def PTE_P_def bit_1_iff)
  then show "present (e AND NOT PTE_U) = present e" by (simp add: present_def)
  have u: "PTE_U = push_bit 2 1" by (simp add: PTE_U_def)
  have m: "(0xFFF :: u32) = mask 12" by (simp add: mask_eq_exp_minus_1)
  have "PTE_ADDR (e AND NOT PTE_U) = PTE_ADDR e"
    unfolding PTE_ADDR_def u m
    by (rule bit_word_eqI) (auto simp del: push_bit_of_1 push_bit_numeral simp: bit_and_iff bit_not_iff bit_push_bit_iff bit_1_iff bit_mask_iff)
  then show "pt_page (e AND NOT PTE_U) = pt_page e" by (simp add: pt_page_def)
  show "(e AND NOT PTE_U) AND PTE_U = 0" by (rule bit_word_eqI) (auto simp: bit_simps)
qed

lemma clearpteu_ok:
  assumes U: "uspace d s ps" and a: "page_al a" "a < KERNBASE" "present (pmap d (ram s) a)"
  shows "\<exists>s'. clearpteu d a s = Some s' \<and> uspace d s' ps \<and> pages d s' ps = pages d s ps \<and> mem_frame s s' \<and> inside d s ps s'
    \<and> pmap d (ram s') = (\<lambda>v. if PGROUNDDOWN v = a then pmap d (ram s) v AND NOT PTE_U else pmap d (ram s) v)
    \<and> (\<forall>v<KERNBASE. present (pmap d (ram s) v) \<longrightarrow> user_byte d (ram s') v = user_byte d (ram s) v)"
proof -
  note V = uspaceD[OF U] and W = vm_okD[OF uspaceD(1)[OF U]]
  let ?e = "ent (ram s) d (pdx a)"
  let ?t = "pt_page ?e"
  have q: "present ?e" using a(3) by (auto simp: pmap_def present_def split: if_splits)
  have t: "?t \<in> tables d (ram s)" by (rule table_in[OF pdx_less q])
  define w where "w = pmap d (ram s) a AND NOT PTE_U"
  define s' where "s' = wr_pte (?t + 4 * PTX a) w s"
  note S = write_pte[OF V(1) q, where w = w, folded s'_def]
  have pa: "pmap d (ram s) v = pmap d (ram s) a" if "PGROUNDDOWN v = a" for v using pmap_page[of d "ram s" v] that by simp
  have pm: "pmap d (ram s') = (\<lambda>v. if PGROUNDDOWN v = a then pmap d (ram s) v AND NOT PTE_U else pmap d (ram s) v)"
    unfolding S(2) same_page[OF a(1)] same_page_iff[OF a(1)] using pa by (auto simp: w_def)
  have same: "present (pmap d (ram s') v) = present (pmap d (ram s) v)" "pt_page (pmap d (ram s') v) = pt_page (pmap d (ram s) v)" for v
    by (simp_all add: pm clear_user)
  have uf: "uframes d (ram s') = uframes d (ram s)" by (simp add: uframes_def same)
  have ow: "own d s' ps = own d s ps" by (simp add: own_def S(4))
  have pg: "pages d s' ps = pages d s ps" by (simp add: pages_def ow uf)
  have us: "uspace d s' ps" unfolding uspace_def uf ow pg same using U S(1) unfolding uspace_def by blast
  have ins: "inside d s ps s'" by (rule insideI[OF S(3)]) (use t in \<open>auto simp: pages_def own_def\<close>)
  have "mem_step s s'" by (simp add: s'_def)
  then have mf: "mem_frame s s'" by (rule mem_frame_step)
  have ub: "user_byte d (ram s') v = user_byte d (ram s) v" if v: "v < KERNBASE" "present (pmap d (ram s) v)" for v
  proof -
    have "pt_page (pmap d (ram s) v) \<noteq> ?t" using V(2)[OF uframesI[OF v]] t by (auto simp: own_def)
    moreover have "in_page (pt_page (pmap d (ram s) v)) (unat (pt_page (pmap d (ram s) v)) + unat v mod 4096)" by simp
    ultimately have "\<not> in_page ?t (unat (pt_page (pmap d (ram s) v)) + unat v mod 4096)"
      using in_page_unique[OF page_al_pt_page page_al_pt_page] by metis
    then show ?thesis using S(3) by (simp add: user_byte_def same same_outside_def)
  qed
  have "?t \<noteq> 0" using W(5) t by metis
  then have "?t + 4 * PTX a \<noteq> 0" by (intro pte_nonzero) simp
  moreover have "rd_pte (?t + 4 * PTX a) s = pmap d (ram s) a" using q by (simp add: rd_pte_ent pmap_def)
  ultimately have "clearpteu d a s = Some s'"
    using walk_present[OF W(2) q, of False] by (simp add: clearpteu_def s'_def w_def)
  then show ?thesis using us pg mf ins pm ub by blast
qed

text \<open>Two address spaces over one free list.\<close>

definition beside :: "u32 \<Rightarrow> u32 \<Rightarrow> 'a kmem_scheme \<Rightarrow> u32 list \<Rightarrow> bool" where
  "beside d0 d s ps \<longleftrightarrow> uspace d s ps \<and> uspace d0 s ps \<and> space d0 (ram s) \<inter> space d (ram s) = {}"

lemma besideD:
  assumes "beside d0 d s ps"
  shows "uspace d s ps" "uspace d0 s ps" "space d0 (ram s) \<inter> space d (ram s) = {}"
  using assms by (simp_all add: beside_def)

definition unchanged :: "u32 \<Rightarrow> 'a kmem_scheme \<Rightarrow> 'a kmem_scheme \<Rightarrow> bool" where
  "unchanged d s t \<longleftrightarrow> pmap d (ram t) = pmap d (ram s) \<and> space d (ram t) = space d (ram s)
     \<and> (\<forall>v<KERNBASE. present (pmap d (ram s) v) \<longrightarrow> user_byte d (ram t) v = user_byte d (ram s) v)"

lemma unchanged_trans: "unchanged d s t \<Longrightarrow> unchanged d t u \<Longrightarrow> unchanged d s u"
  by (simp add: unchanged_def)

text \<open>Whatever happens inside one of them, the other one is unchanged.\<close>

lemma beside_step:
  assumes B: "beside d0 d s ps" and U: "uspace d t qs" and pg: "pages d t qs = pages d s ps" and ins: "inside d s ps t"
  shows "beside d0 d t qs" "unchanged d0 s t"
proof -
  note b = besideD[OF B]
  let ?P = "insert d (pages d s ps)"
  have P: "?P = space d (ram s) \<union> set ps" "?P = space d (ram t) \<union> set qs" using space_pages[of d s ps] space_pages[of d t qs] pg by simp_all
  have so: "same_outside ?P (ram s) (ram t)" using ins by (simp add: inside_def)
  have al: "\<forall>p\<in>?P. page_al p"
    unfolding P(1) using space_al[OF b(1)] free_pagesD(1)[OF vm_okD(1)[OF uspaceD(1)[OF b(1)]]] by auto
  have dj: "?P \<inter> space d0 (ram s) = {}" unfolding P(1) using b(3) space_free[OF b(2)] by auto
  have qs: "set qs \<inter> space d0 (ram s) = {}" "KERNBASE \<notin> set qs" using dj P(2) uspaceD(4)[OF U] by (auto simp: pages_def own_def)
  note k = uspace_keep[OF b(2) so al dj vm_okD(1)[OF uspaceD(1)[OF U]] qs]
  show "unchanged d0 s t" using k(2-4) by (simp add: unchanged_def)
  have "space d0 (ram t) \<inter> space d (ram t) = {}" unfolding k(3) using dj P(2) by auto
  then show "beside d0 d t qs" using U k(1) by (simp add: beside_def)
qed

section \<open>copyout\<close>

lemma frames_ok_uspace:
  assumes U: "uspace d s ps" and k: "\<forall>v. KERNBASE \<le> v \<longrightarrow> \<not> umapped d (ram s) v"
  shows "frames_ok d s ps"
proof -
  have "v < KERNBASE" "present (pmap d (ram s) v)" if "umapped d (ram s) v" for v
    using that k by (auto simp: umapped_def not_le[symmetric])
  then show ?thesis using uspaceD(2,5)[OF U] uframesI unfolding frames_ok_def by meson
qed

lemma copyout_user:
  assumes U: "uspace d s ps" and bio: "bio_ok s" and k: "\<forall>v. KERNBASE \<le> v \<longrightarrow> \<not> umapped d (ram s) v"
    and len: "unat len \<le> length buf" and fit: "unat va + unat len \<le> 2147483648"
    and um: "\<forall>v. unat va \<le> unat v \<longrightarrow> unat v < unat va + unat len \<longrightarrow> umapped d (ram s) v"
  shows "\<exists>s'. copyout d va buf len s = Some (0, s') \<and> stored_to d ps (unat va) (unat len) s s'
    \<and> user_bytes d (ram s') va (unat len) = take (unat len) buf"
proof -
  note V = uspaceD[OF U]
  have f32: "unat va + unat len \<le> 2 ^ 32" using fit by simp
  obtain s' where s': "copyout_loop d va buf len s = Some (0, s')" "vm_ok d s' ps" "mem_step s s'" "pmap d (ram s') = pmap d (ram s)"
    "same_outside (range_frames d (ram s) (unat va) (unat len)) (ram s) (ram s')"
    "\<forall>v. umapped d (ram s) v \<longrightarrow> user_byte d (ram s') v =
         (if unat va \<le> unat v \<and> unat v < unat va + unat len then buf ! (unat v - unat va) else user_byte d (ram s) v)"
    using copyout_loop_ok[OF V(1) frames_ok_uspace[OF U k] len f32 um[rule_format]] by blast
  let ?R = "range_frames d (ram s) (unat va) (unat len)"
  have R: "\<exists>w. w < KERNBASE \<and> umapped d (ram s) w \<and> p = pt_page (pmap d (ram s) w)" if "p \<in> ?R" for p
    using that um k unfolding range_frames_def by (auto simp: not_le[symmetric])
  have Ru: "?R \<subseteq> uframes d (ram s)" using R uframesI by (fastforce simp: umapped_def)
  have al: "\<forall>p\<in>?R. page_al p" by (auto simp: range_frames_def)
  have "d \<notin> ?R" "tables d (ram s) \<inter> ?R = {}" using V(2) Ru by (auto simp: own_def)
  note c = pmap_cong[OF s'(5) al vm_okD(2)[OF V(1)] this]
  have uf: "uframes d (ram s') = uframes d (ram s)" by (simp add: uframes_def s'(4))
  have ow: "own d s' ps = own d s ps" by (simp add: own_def c(2))
  have pg: "pages d s' ps = pages d s ps" by (simp add: pages_def ow uf)
  have us: "uspace d s' ps" unfolding uspace_def uf ow pg s'(4) using U s'(2) unfolding uspace_def by blast
  have ins: "inside d s ps s'" by (rule insideI[OF s'(5)]) (use Ru in \<open>auto simp: pages_def\<close>)
  have "user_byte d (ram s') v = user_byte d (ram s) v"
    if v: "v < KERNBASE" "present (pmap d (ram s) v)" "\<not> (unat va \<le> unat v \<and> unat v < unat va + unat len)" for v
  proof (cases "umapped d (ram s) v")
    case True
    then show ?thesis using s'(6) v(3) by auto
  next
    case False
    have "pt_page (pmap d (ram s) v) \<notin> ?R"
    proof
      assume "pt_page (pmap d (ram s) v) \<in> ?R"
      then obtain w where w: "w < KERNBASE" "umapped d (ram s) w" "pt_page (pmap d (ram s) v) = pt_page (pmap d (ram s) w)" using R by blast
      then have "PGROUNDDOWN v = PGROUNDDOWN w" using V(5)[OF v(1) w(1) v(2) _ w(3)] by (simp add: umapped_def)
      then have "pmap d (ram s) v = pmap d (ram s) w" using pmap_page by metis
      then show False using False w(2) by (simp add: umapped_def)
    qed
    then show ?thesis by (intro user_byte_same[OF s'(5) al]) (simp_all add: s'(4))
  qed
  then have "stored_to d ps (unat va) (unat len) s s'"
    unfolding stored_to_def using us pg s'(4) ins quiet_mem[OF bio mem_frame_step[OF s'(3)]] by blast
  moreover have "user_bytes d (ram s') va (unat len) = take (unat len) buf"
  proof (rule nth_equalityI)
    show "length (user_bytes d (ram s') va (unat len)) = length (take (unat len) buf)" using len by (simp add: user_bytes_def)
    fix i assume "i < length (user_bytes d (ram s') va (unat len))"
    then have i: "i < unat len" by (simp add: user_bytes_def)
    have u: "unat (va + of_nat i) = unat va + i" using fit i by (simp add: unat_word_ariths unat_of_nat)
    then have "umapped d (ram s) (va + of_nat i)" using um i by simp
    then show "user_bytes d (ram s') va (unat len) ! i = take (unat len) buf ! i" using s'(6) i u by (simp add: user_bytes_def)
  qed
  ultimately show ?thesis using s'(1) by (simp add: copyout_def)
qed

section \<open>Strings of the old program\<close>

definition user_string :: "'a vm_scheme \<Rightarrow> u32 \<Rightarrow> u8 list \<Rightarrow> bool" where
  "user_string s a bs \<longleftrightarrow> 0 \<notin> set bs \<and> unat a + length bs < 2147483648 \<and> uloads a (Suc (length bs)) s = Some (bs @ [0])"

lemma uloads_cong: "(\<And>i. i < n \<Longrightarrow> uload (a + of_nat i) t = uload (a + of_nat i) s) \<Longrightarrow> uloads a n t = uloads a n s"
proof (induction n arbitrary: a)
  case (Suc n)
  have "uload a t = uload a s" using Suc.prems[of 0] by simp
  moreover have "uloads (a + 1) n t = uloads (a + 1) n s" using Suc.prems[of "Suc i" for i] by (intro Suc.IH) (simp add: add.assoc)
  ultimately show ?case by simp
qed simp

lemma user_string_keep:
  assumes S: "user_string s a bs" and U: "uspace d0 s ps" "uspace d0 t qs" and c: "cr3 s = V2P d0" "cr3 t = V2P d0" and un: "unchanged d0 s t"
  shows "user_string t a bs"
proof -
  have "uload v t = uload v s" if "v < KERNBASE" for v
    using un that unfolding unchanged_def uload_pmap[OF uspaceD(1)[OF U(1)] c(1)] uload_pmap[OF uspaceD(1)[OF U(2)] c(2)] by simp
  moreover have "a + of_nat i < KERNBASE" if "i < Suc (length bs)" for i
  proof -
    have "unat (a + of_nat i) = unat a + i" using S that by (simp add: user_string_def unat_word_ariths unat_of_nat)
    then show ?thesis using S that by (simp add: user_string_def word_less_nat_alt unat_KERNBASE)
  qed
  ultimately have "uloads a (Suc (length bs)) t = uloads a (Suc (length bs)) s" by (intro uloads_cong) blast
  then show ?thesis using S by (simp add: user_string_def)
qed

lemma ustrlen_string:
  assumes "uloads a (Suc (length bs)) s = Some (bs @ [0])" "0 \<notin> set bs"
  shows "ustrlen a s = Some (length bs)"
  using assms
proof (induction bs arbitrary: a)
  case Nil
  then show ?case by (subst ustrlen.simps) (auto simp: Option.bind_eq_Some_conv)
next
  case (Cons b bs)
  then have b: "uload a s = Some b" "uloads (a + 1) (Suc (length bs)) s = Some (bs @ [0])" "b \<noteq> 0"
    by (auto simp: Option.bind_eq_Some_conv)
  then show ?case using Cons.IH[OF b(2)] Cons.prems(2) by (subst ustrlen.simps) simp
qed

section \<open>The arguments on the stack\<close>

text \<open>Where the strings go, from \<open>sp\<close> downwards, aligned to words; the last of these addresses.\<close>

fun arg_addrs :: "nat \<Rightarrow> u8 list list \<Rightarrow> nat list" where
  "arg_addrs sp [] = []"
| "arg_addrs sp (b # bs) = (let q = (sp - (length b + 1)) div 4 * 4 in q # arg_addrs q bs)"

definition arg_base :: "nat \<Rightarrow> u8 list list \<Rightarrow> nat" where
  "arg_base sp bss = last (sp # arg_addrs sp bss)"

lemma arg_base_simps [simp]:
  "arg_base sp [] = sp" "arg_base sp (b # bs) = arg_base ((sp - (length b + 1)) div 4 * 4) bs"
  by (simp_all add: arg_base_def Let_def)

lemma length_arg_addrs [simp]: "length (arg_addrs sp bss) = length bss"
  by (induction sp bss rule: arg_addrs.induct) (simp_all add: Let_def)

lemma arg_base_le: "arg_base sp bss \<le> sp"
proof (induction bss arbitrary: sp)
  case (Cons b bs)
  have "(sp - (length b + 1)) div 4 * 4 \<le> sp - (length b + 1)" by (rule div_times_less_eq_dividend)
  then show ?case using Cons.IH[of "(sp - (length b + 1)) div 4 * 4"] by simp
qed simp

lemma unat_and_not_3: "unat (x AND NOT 3 :: u32) = unat x div 4 * 4"
proof -
  have m: "(3 :: u32) = mask 2" by (simp add: mask_eq_exp_minus_1)
  have "x AND NOT 3 = push_bit 2 (drop_bit 2 x)"
  proof (rule bit_word_eqI)
    fix n assume "n < LENGTH(32)"
    have "Suc (Suc (n - 2)) = n" if "2 \<le> n" using that by simp
    then show "bit (x AND NOT 3) n = bit (push_bit 2 (drop_bit 2 x)) n"
      using \<open>n < LENGTH(32)\<close> unfolding m by (cases "2 \<le> n") (simp_all add: bit_simps)
  qed
  moreover have x: "unat x < 2 ^ 32" using unsigned_less[of x] by simp
  then have "unat (push_bit 2 (drop_bit 2 x)) = (unat x div 4 * 4) mod 2 ^ 32"
    by (simp only: unsigned_push_bit_eq unsigned_drop_bit_eq) (simp add: take_bit_eq_mod push_bit_eq_mult drop_bit_eq_div)
  ultimately have "unat (x AND NOT 3) = (unat x div 4 * 4) mod 2 ^ 32" by simp
  moreover have "unat x div 4 * 4 \<le> unat x" by (rule div_times_less_eq_dividend)
  ultimately show ?thesis using x by simp
qed

definition strings_at :: "u32 \<Rightarrow> (nat \<Rightarrow> u8) \<Rightarrow> nat list \<Rightarrow> u8 list list \<Rightarrow> bool" where
  "strings_at d m = list_all2 (\<lambda>q bs. user_bytes d m (of_nat q) (Suc (length bs)) = bs @ [0])"

lemma user_bytes_stored:
  assumes S: "stored_to d ps a n s t" and r: "unat v + k \<le> 2147483648" "a + n \<le> unat v \<or> unat v + k \<le> a"
    and p: "\<And>w. unat v \<le> unat w \<Longrightarrow> unat w < unat v + k \<Longrightarrow> present (pmap d (ram s) w)"
  shows "user_bytes d (ram t) v k = user_bytes d (ram s) v k"
  unfolding user_bytes_def
proof (intro map_cong refl)
  fix i assume "i \<in> set [0..<k]"
  then have i: "i < k" by simp
  then have u: "unat (v + of_nat i) = unat v + i" using r(1) by (simp add: unat_word_ariths unat_of_nat)
  show "user_byte d (ram t) (v + of_nat i) = user_byte d (ram s) (v + of_nat i)"
    by (rule stored_toD(5)[OF S _ p]) (use i u r in \<open>auto simp: word_less_nat_alt unat_KERNBASE\<close>)
qed

lemma exec_args_ok:
  fixes s :: "'a kern_scheme"
  assumes "beside d0 d s ps" "cr3 s = V2P d0" "bio_ok s" "\<forall>v. KERNBASE \<le> v \<longrightarrow> \<not> umapped d (ram s) v"
    and "list_all2 (user_string s) as bss" "0 \<notin> set as" "length us + length bss \<le> MAXARG"
    and "unat sp \<le> hi" "low \<le> arg_base (unat sp) bss" "0 < low" "hi \<le> 2147483648"
    and "\<forall>v. low \<le> unat v \<longrightarrow> unat v < hi \<longrightarrow> umapped d (ram s) v"
  shows "\<exists>s'. exec_args d (as @ 0 # r) sp us s =
      Some (Some (of_nat (arg_base (unat sp) bss), us @ map of_nat (arg_addrs (unat sp) bss)), s')
    \<and> stored_to d ps (arg_base (unat sp) bss) (unat sp - arg_base (unat sp) bss) s s'
    \<and> strings_at d (ram s') (arg_addrs (unat sp) bss) bss"
  using assms
proof (induction bss arbitrary: as sp us s)
  case Nil
  have "stored_to d ps (unat sp) 0 s s" using besideD(1)[OF Nil(1)] Nil(3) by (simp add: stored_to_def quiet_refl)
  then show ?case using Nil(5) by (simp add: strings_at_def)
next
  case (Cons b bss)
  obtain a as' where as: "as = a # as'" and str: "user_string s a b" "list_all2 (user_string s) as' bss"
    using Cons.prems(5) by (auto simp: list_all2_Cons2)
  note B = Cons.prems(1)
  let ?n = "unat sp"
  define q where "q = (?n - (length b + 1)) div 4 * 4"
  have lowq: "low \<le> arg_base q bss" using Cons.prems(9) by (simp add: q_def)
  have q0: "low \<le> q" using lowq arg_base_le[of q bss] by simp
  have qn: "q \<le> ?n - (length b + 1)" unfolding q_def by (rule div_times_less_eq_dividend)
  then have fit: "length b + 1 \<le> ?n" "q + (length b + 1) \<le> ?n" using q0 Cons.prems(10) by linarith+
  have n31: "?n \<le> 2147483648" using Cons.prems(8,11) by simp
  have ul: "unat (of_nat (length b) + 1 :: u32) = length b + 1" using fit(1) n31 by (simp add: unat_word_ariths unat_of_nat)
  have "of_nat (length b) + 1 \<le> sp" unfolding word_le_nat_alt ul by (rule fit(1))
  then have usub: "unat (sp - (of_nat (length b) + 1)) = ?n - (length b + 1)" by (simp add: unat_sub ul)
  define sp' where "sp' = (sp - (of_nat (length b) + 1)) AND NOT 3"
  have usp: "unat sp' = q" by (simp only: sp'_def unat_and_not_3 usub q_def)
  have sq: "sp' = of_nat q" using usp by (metis of_nat_unat ucast_id)
  have len: "ustrlen a s = Some (length b)" "uloads a (length b + 1) s = Some (b @ [0])"
    using str(1) ustrlen_string[of a b s] unfolding user_string_def Suc_eq_plus1 by blast+
  have um: "\<forall>v. unat sp' \<le> unat v \<longrightarrow> unat v < unat sp' + unat (of_nat (length b) + 1 :: u32) \<longrightarrow> umapped d (ram s) v"
    unfolding usp ul using Cons.prems(12) q0 fit(2) Cons.prems(8) by auto
  have fit31: "unat sp' + unat (of_nat (length b) + 1 :: u32) \<le> 2147483648" unfolding usp ul using fit(2) n31 by simp
  have l: "unat (of_nat (length b) + 1 :: u32) \<le> length (b @ [0 :: u8])" unfolding ul by simp
  obtain s1 where s1: "copyout d sp' (b @ [0]) (of_nat (length b) + 1) s = Some (0, s1)" "stored_to d ps q (length b + 1) s s1"
    "user_bytes d (ram s1) sp' (length b + 1) = b @ [0]"
    using copyout_user[OF besideD(1)[OF B] Cons.prems(3,4) l fit31 um] unfolding usp ul by auto
  note S = stored_toD[OF s1(2)] and Q = quietD[OF stored_toD(1)[OF s1(2)]]
  have c1: "cr3 s1 = V2P d0" using Q(8) Cons.prems(2) by (cases s; cases s1) simp
  note BS = beside_step[OF B S(2,3,6)]
  have umeq: "umapped d (ram s1) = umapped d (ram s)" by (rule umapped_cong[OF S(4)])
  have strs: "list_all2 (user_string s1) as' bss"
    using str(2) user_string_keep[OF _ besideD(2)[OF B] besideD(2)[OF BS(1)] Cons.prems(2) c1 BS(2)] by (rule list_all2_mono) blast
  have "\<exists>s'. exec_args d (as' @ 0 # r) sp' (us @ [sp']) s1 =
      Some (Some (of_nat (arg_base (unat sp') bss), (us @ [sp']) @ map of_nat (arg_addrs (unat sp') bss)), s')
    \<and> stored_to d ps (arg_base (unat sp') bss) (unat sp' - arg_base (unat sp') bss) s1 s'
    \<and> strings_at d (ram s') (arg_addrs (unat sp') bss) bss"
    by (rule Cons.IH) (use as BS(1) c1 Q(1) Cons.prems strs usp q0 fit(2) lowq in \<open>auto simp: umeq\<close>)
  then obtain s' where s': "exec_args d (as' @ 0 # r) sp' (us @ [sp']) s1 =
      Some (Some (of_nat (arg_base q bss), us @ of_nat q # map of_nat (arg_addrs q bss)), s')"
    "stored_to d ps (arg_base q bss) (q - arg_base q bss) s1 s'" "strings_at d (ram s') (arg_addrs q bss) bss"
    unfolding usp by (auto simp: sq)
  have e: "exec_args d (as @ 0 # r) sp us s = exec_args d (as' @ 0 # r) sp' (us @ [sp']) s1"
    using Cons.prems(6,7) len s1(1)[unfolded sp'_def] as by (simp add: Let_def sp'_def del: uloads.simps)
  have ab: "arg_base ?n (b # bss) = arg_base q bss" "arg_addrs ?n (b # bss) = q # arg_addrs q bss" by (simp_all add: q_def Let_def)
  have "user_bytes d (ram s') (of_nat q) (Suc (length b)) = user_bytes d (ram s1) (of_nat q) (Suc (length b))"
  proof (rule user_bytes_stored[OF s'(2)])
    show "unat (of_nat q :: u32) + Suc (length b) \<le> 2147483648" using fit31 usp ul by (simp add: sq)
    show "arg_base q bss + (q - arg_base q bss) \<le> unat (of_nat q :: u32) \<or> unat (of_nat q :: u32) + Suc (length b) \<le> arg_base q bss"
      using arg_base_le[of q bss] usp by (simp add: sq)
    show "present (pmap d (ram s1) w)" if "unat (of_nat q :: u32) \<le> unat w" "unat w < unat (of_nat q :: u32) + Suc (length b)" for w
      using um that usp ul unfolding S(4) by (simp add: umapped_def sq)
  qed
  then have "strings_at d (ram s') (arg_addrs ?n (b # bss)) (b # bss)"
    using s'(3) s1(3) unfolding ab(2) by (simp add: strings_at_def sq)
  moreover have "stored_to d ps (arg_base q bss) (?n - arg_base q bss) s s'"
  proof -
    have "stored_to d ps (arg_base q bss) (?n - arg_base q bss) s s1"
      using s1(2) fit(2) arg_base_le[of q bss] unfolding stored_to_def by auto
    then show ?thesis by (rule stored_to_trans[OF _ s'(2)]) (use fit(2) in auto)
  qed
  ultimately show ?case unfolding e ab s'(1) by simp
qed

end
