(* ===== verification/Path.thy ===== *)
theory Path
  imports Dir
begin

text \<open>
  Path resolution: what \<open>namei\<close> and \<open>nameiparent\<close> find, in terms of the directories on disk. \<open>walk\<close> follows the elements of a
  path through the directories; \<open>namex\<close> computes it, and with the result in hand the inode cache has exactly one reference more
  (or none more when there is no such file): every directory passed through is released.
\<close>

section \<open>Files and directories on disk\<close>

definition disk_bytes :: "superblock \<Rightarrow> (u32 \<Rightarrow> u8 list) \<Rightarrow> u32 \<Rightarrow> u8 list" where
  "disk_bytes x D i = map (fbyte D (d_addrs (disk_inode x D i))) [0..<unat (d_size (disk_inode x D i))]"

definition disk_file :: "superblock \<Rightarrow> (u32 \<Rightarrow> u8 list) \<Rightarrow> u32 \<Rightarrow> bool" where
  "disk_file x D i \<longleftrightarrow> (let d = disk_inode x D i in wf_file x D (d_addrs d) \<and> unat (d_size d) \<le> MAXFILE * BSIZE
     \<and> (\<forall>j. BSIZE * j < unat (d_size d) \<longrightarrow> file_addr D (d_addrs d) j \<noteq> 0)
     \<and> 1 < IBLOCK i x \<and> IBLOCK i x < sb_bmapstart x \<and> d_type d \<noteq> 0 \<and> d_nlink d \<noteq> 0)"

text \<open>A set of inodes closed under the entries of its directories.\<close>

definition dir_tree :: "superblock \<Rightarrow> (u32 \<Rightarrow> u8 list) \<Rightarrow> u32 set \<Rightarrow> bool" where
  "dir_tree x D I \<longleftrightarrow> (\<forall>i\<in>I. disk_file x D i \<and> (d_type (disk_inode x D i) = T_DIR \<longrightarrow>
     16 dvd unat (d_size (disk_inode x D i)) \<and>
     (\<forall>k<nentries (disk_bytes x D i). de_inum (entry (disk_bytes x D i) k) \<noteq> 0 \<longrightarrow> ucast (de_inum (entry (disk_bytes x D i) k)) \<in> I)))"

text \<open>The inode a path leads to from inode \<open>i\<close>; with \<open>par\<close> the directory that holds its last element.\<close>

primrec walk :: "superblock \<Rightarrow> (u32 \<Rightarrow> u8 list) \<Rightarrow> bool \<Rightarrow> u32 \<Rightarrow> u8 list list \<Rightarrow> u32 option" where
  "walk x D par i [] = (if par then None else Some i)"
| "walk x D par i (e # es) =
     (if d_type (disk_inode x D i) \<noteq> T_DIR then None
      else if par \<and> es = [] then Some i
      else case dir_find e (disk_bytes x D i) of
        None \<Rightarrow> None
      | Some k \<Rightarrow> walk x D par (ucast (de_inum (entry (disk_bytes x D i) k))) es)"

section \<open>The inode cache along a walk\<close>

text \<open>What is valid in the cache is what is on disk.\<close>

definition synced :: "'a fs_scheme \<Rightarrow> bool" where
  "synced s \<longleftrightarrow> (\<forall>q<NINODE. 0 < i_ref (icache s q) \<longrightarrow> i_valid (icache s q) \<longrightarrow>
     dinode_of (icache s q) = disk_inode (sb s) (blocks s) (i_inum (icache s q)))"

text \<open>Since \<open>s0\<close> the disk is unchanged and the entries referenced then are still there, with \<open>n q\<close> references added.\<close>

definition since :: "'a fs_scheme \<Rightarrow> (nat \<Rightarrow> int) \<Rightarrow> 'a fs_scheme \<Rightarrow> bool" where
  "since s0 n s \<longleftrightarrow> fs_step s0 (blocks s0) s \<and> icache_ok (icache s) \<and> synced s
     \<and> (\<forall>q<NINODE. i_ref (icache s q) = i_ref (icache s0 q) + n q)
     \<and> (\<forall>q<NINODE. 0 < i_ref (icache s0 q) \<longrightarrow> i_dev (icache s q) = i_dev (icache s0 q) \<and> i_inum (icache s q) = i_inum (icache s0 q))"

lemma sinceD:
  assumes "since s0 n s"
  shows "fs_step s0 (blocks s0) s" "icache_ok (icache s)" "synced s"
    "q < NINODE \<Longrightarrow> i_ref (icache s q) = i_ref (icache s0 q) + n q"
    "q < NINODE \<Longrightarrow> 0 < i_ref (icache s0 q) \<Longrightarrow> i_dev (icache s q) = i_dev (icache s0 q) \<and> i_inum (icache s q) = i_inum (icache s0 q)"
  using assms unfolding since_def by blast+

abbreviation one :: "nat \<Rightarrow> nat \<Rightarrow> int" where
  "one p q \<equiv> (if q = p then 1 else 0)"

definition walking :: "'a fs_scheme \<Rightarrow> u32 set \<Rightarrow> bool" where
  "walking s I \<longleftrightarrow> bio_ok s \<and> wf_disk (sb s) (blocks s) \<and> bc.room 2 s \<and> icache_ok (icache s) \<and> synced s
     \<and> dir_tree (sb s) (blocks s) I \<and> (\<exists>p q. p \<noteq> q \<and> p < NINODE \<and> q < NINODE \<and> i_ref (icache s p) = 0 \<and> i_ref (icache s q) = 0)"

lemma disk_file_ok:
  assumes "disk_file (sb s) (blocks s) (i_inum (icache s ip))" "i_dev (icache s ip) = 1"
    and d: "dinode_of (icache s ip) = disk_inode (sb s) (blocks s) (i_inum (icache s ip))"
  shows "file_ok ip s" "contents ip s = disk_bytes (sb s) (blocks s) (i_inum (icache s ip))"
    "i_type (icache s ip) = d_type (disk_inode (sb s) (blocks s) (i_inum (icache s ip)))"
    "i_nlink (icache s ip) = d_nlink (disk_inode (sb s) (blocks s) (i_inum (icache s ip)))"
proof -
  let ?d = "disk_inode (sb s) (blocks s) (i_inum (icache s ip))"
  have e: "d_addrs ?d = i_addrs (icache s ip)" "d_size ?d = i_size (icache s ip)" by (simp_all add: d[symmetric] dinode_of_def)
  show "i_type (icache s ip) = d_type ?d" "i_nlink (icache s ip) = d_nlink ?d" by (simp_all add: d[symmetric] dinode_of_def)
  show "contents ip s = disk_bytes (sb s) (blocks s) (i_inum (icache s ip))" unfolding contents_def disk_bytes_def e ..
  show "file_ok ip s" using assms unfolding file_ok_def disk_file_def Let_def e by metis
qed

lemma since_step:
  assumes S: "since s0 n s" and n: "\<And>q. 0 \<le> n q" and F: "fs_step s (blocks s) s1" and I: "icache_ok (icache s1)"
    and R: "\<And>q. q < NINODE \<Longrightarrow> i_ref (icache s1 q) = i_ref (icache s q) + m q"
    and K: "\<And>q. q < NINODE \<Longrightarrow> 0 < i_ref (icache s q) \<Longrightarrow> i_dev (icache s1 q) = i_dev (icache s q) \<and> i_inum (icache s1 q) = i_inum (icache s q)"
    and Y: "\<And>q. q < NINODE \<Longrightarrow> 0 < i_ref (icache s1 q) \<Longrightarrow> i_valid (icache s1 q) \<Longrightarrow>
      dinode_of (icache s1 q) = disk_inode (sb s) (blocks s) (i_inum (icache s1 q))"
  shows "since s0 (\<lambda>q. n q + m q) s1"
  unfolding since_def
proof (intro conjI allI impI)
  note D = sinceD[OF S] and f = fs_stepD[OF F]
  show "fs_step s0 (blocks s0) s1" using fs_step_trans[OF D(1) F] fs_stepD(3)[OF D(1)] by simp
  show "icache_ok (icache s1)" by (rule I)
  show "synced s1" unfolding synced_def f(3,4) using Y by blast
  show "i_ref (icache s1 q) = i_ref (icache s0 q) + (n q + m q)" if "q < NINODE" for q
    using R[OF that] D(4)[OF that] by simp
  fix q assume q: "q < NINODE" "0 < i_ref (icache s0 q)"
  then have "0 < i_ref (icache s q)" using D(4)[of q] n[of q] by simp
  then show "i_dev (icache s1 q) = i_dev (icache s0 q)" "i_inum (icache s1 q) = i_inum (icache s0 q)"
    using K[OF q(1)] D(5)[OF q] by auto
qed

lemma since_quiet:
  assumes "since s0 n s" "\<And>q. 0 \<le> n q" "advances s (blocks s) (icache s) s1"
  shows "since s0 n s1"
proof -
  have e: "icache s1 = icache s" "fs_step s (blocks s) s1" using assms(3) by (simp_all add: advances_def)
  have "since s0 (\<lambda>q. n q + 0) s1"
    by (rule since_step[OF assms(1,2) e(2)]) (use sinceD(2,3)[OF assms(1)] e(1) in \<open>auto simp: synced_def\<close>)
  then show ?thesis by simp
qed

text \<open>Taking and dropping a reference.\<close>

lemma since_iget:
  assumes S: "since s0 n s" and n: "\<And>q. 0 \<le> n q" and g: "iget 1 i s = Some (ip, s1)"
  shows "since s0 (\<lambda>q. n q + one ip q) s1" "ip < NINODE" "i_dev (icache s1 ip) = 1" "i_inum (icache s1 ip) = i"
    "q < NINODE \<Longrightarrow> 0 < i_ref (icache s q) \<Longrightarrow> i_dev (icache s1 q) = i_dev (icache s q) \<and> i_inum (icache s1 q) = i_inum (icache s q)"
proof -
  note D = sinceD[OF S]
  note G = iget_spec[OF D(2) g]
  show "ip < NINODE" "i_dev (icache s1 ip) = 1" "i_inum (icache s1 ip) = i" using G(2,3) by (simp_all add: live_at_def)
  have F: "fs_step s (blocks s) s1"
  proof -
    have "s1 = s\<lparr>icache := icache s1\<rparr>" by (rule G(8))
    moreover have "fs_step s (blocks s) (s\<lparr>icache := c\<rparr>)" for c
      using fs_stepD(1)[OF D(1)] by (simp add: fs_step_def)
    ultimately show ?thesis by metis
  qed
  show K: "i_dev (icache s1 q) = i_dev (icache s q) \<and> i_inum (icache s1 q) = i_inum (icache s q)"
    if "q < NINODE" "0 < i_ref (icache s q)" for q
    using G(4)[of q] G(6,9) that by (cases "q = ip"; cases "live_at (icache s) ip 1 i") simp_all
  show "since s0 (\<lambda>q. n q + one ip q) s1"
  proof (rule since_step[OF S n F G(1)])
    show "i_ref (icache s1 q) = i_ref (icache s q) + one ip q" if "q < NINODE" for q
      using G(4)[of q] G(5) by auto
    show "i_dev (icache s1 q) = i_dev (icache s q) \<and> i_inum (icache s1 q) = i_inum (icache s q)"
      if "q < NINODE" "0 < i_ref (icache s q)" for q by (rule K[OF that])
    show "dinode_of (icache s1 q) = disk_inode (sb s) (blocks s) (i_inum (icache s1 q))"
      if "q < NINODE" "0 < i_ref (icache s1 q)" "i_valid (icache s1 q)" for q
    proof (cases "q = ip")
      case True
      then have l: "live_at (icache s) ip 1 i" using G(7) that(3) by auto
      then show ?thesis using G(6)[OF l] D(3) True that by (simp add: synced_def live_at_def dinode_of_def)
    next
      case False
      then show ?thesis using G(4)[OF False] D(3) that by (simp add: synced_def)
    qed
  qed
qed

lemma since_iput:
  assumes S: "since s0 n s" and n: "\<And>q. 0 \<le> n q" and ip: "ip < NINODE" "0 < i_ref (icache s ip)"
    and nl: "i_valid (icache s ip) \<Longrightarrow> i_nlink (icache s ip) \<noteq> 0"
  shows "\<exists>s1. iput ip s = Some s1 \<and> iunlockput ip s = Some s1 \<and> since s0 (\<lambda>q. n q - one ip q) s1
    \<and> (\<forall>q. i_dev (icache s1 q) = i_dev (icache s q) \<and> i_inum (icache s1 q) = i_inum (icache s q))"
proof -
  note D = sinceD[OF S]
  let ?s1 = "upd_inode ip (\<lambda>x. x\<lparr>i_ref := i_ref x - 1\<rparr>) s"
  have p: "iput ip s = Some ?s1" using nl by (intro iput_drop) blast
  have F: "fs_step s (blocks s) ?s1" by (rule fs_step_upd_inode[OF fs_stepD(1)[OF D(1)]])
  have "live_at (icache s) ip (i_dev (icache s ip)) (i_inum (icache s ip))" using ip by (simp add: live_at_def)
  then have I: "icache_ok (icache ?s1)" by (rule iput_drop_ok[OF D(2)])
  have "since s0 (\<lambda>q. n q + - one ip q) ?s1"
  proof (rule since_step[OF S n F I])
    show "dinode_of (icache ?s1 q) = disk_inode (sb s) (blocks s) (i_inum (icache ?s1 q))"
      if "q < NINODE" "0 < i_ref (icache ?s1 q)" "i_valid (icache ?s1 q)" for q
      using D(3) ip that by (auto simp: synced_def dinode_of_def split: if_splits)
  qed auto
  moreover have "iunlockput ip s = Some ?s1" using p ip(2) by (simp add: iunlockput_def iunlock_def)
  ultimately show ?thesis using p by simp
qed

text \<open>Locking an inode of the tree: afterwards the entry is valid, and nothing else happened.\<close>

lemma ilock_walk:
  assumes S: "since s0 n s" and n: "\<And>q. 0 \<le> n q" and ip: "ip < NINODE" "0 < i_ref (icache s ip)" "i_dev (icache s ip) = 1" "i_inum (icache s ip) = i"
    and f: "disk_file (sb s0) (blocks s0) i" and room: "bc.room 2 s0" and wd: "wf_disk (sb s0) (blocks s0)"
  shows "\<exists>s1. ilock ip s = Some s1 \<and> since s0 n s1 \<and> i_dev (icache s1 ip) = 1 \<and> i_inum (icache s1 ip) = i
    \<and> 0 < i_ref (icache s1 ip) \<and> i_valid (icache s1 ip) \<and> dinode_of (icache s1 ip) = disk_inode (sb s0) (blocks s0) i"
proof (cases "i_valid (icache s ip)")
  case True
  note F = fs_stepD[OF sinceD(1)[OF S]]
  have "dinode_of (icache s ip) = disk_inode (sb s0) (blocks s0) i"
    using sinceD(3)[OF S] ip True F by (simp add: synced_def)
  then show ?thesis using True ip S ilock_valid[of s ip] by simp
next
  case False
  note D = sinceD[OF S]
  note F = fs_stepD[OF D(1)]
  let ?d = "disk_inode (sb s) (blocks s) (i_inum (icache s ip))"
  have d: "?d = disk_inode (sb s0) (blocks s0) i" by (simp add: F(3,4) ip(4))
  let ?x = "loaded ?d (icache s ip)"
  have ib: "IBLOCK (i_inum (icache s ip)) (sb s) < FSSIZE"
    using f F(4) ip(4) wf_diskD(1,4)[OF wd] unfolding disk_file_def Let_def sb_ok_def by auto
  have r1: "bc.room 1 s" using bc.room_mono[OF room, of 1] F(6) by simp
  have ty: "d_type ?d \<noteq> 0" using f unfolding d by (simp add: disk_file_def Let_def)
  have ref: "1 \<le> i_ref (icache s ip)" using ip(2) by simp
  obtain s1 where s1: "ilock ip s = Some s1" "advances s (blocks s) ((icache s)(ip := ?x)) s1"
    by (rule ilock_load[OF F(1) ip(3) ib r1 ref False ty])
  have ic: "icache s1 = (icache s)(ip := ?x)" and fs: "fs_step s (blocks s) s1" using s1(2) by (simp_all add: advances_def)
  have x: "i_dev ?x = i_dev (icache s ip)" "i_inum ?x = i_inum (icache s ip)" "i_ref ?x = i_ref (icache s ip)" "i_valid ?x"
    "dinode_of ?x = ?d"
    by (simp_all add: loaded_def load_dinode_def dinode_of_def)
  have "live_at (icache s1) p dev inum \<longleftrightarrow> live_at (icache s) p dev inum" for p dev inum
    using x(1-3) by (simp add: live_at_def ic)
  then have I: "icache_ok (icache s1)" using D(2) x(3) by (simp add: icache_ok_def ic)
  have "since s0 (\<lambda>q. n q + 0) s1"
  proof (rule since_step[OF S n fs I])
    show "dinode_of (icache s1 q) = disk_inode (sb s) (blocks s) (i_inum (icache s1 q))"
      if "q < NINODE" "0 < i_ref (icache s1 q)" "i_valid (icache s1 q)" for q
      using D(3) that x by (auto simp: ic synced_def split: if_splits)
  qed (auto simp: ic x)
  then show ?thesis using s1(1) x ip d by (simp add: ic)
qed

lemma walkingD:
  assumes "walking s I"
  shows "bio_ok s" "wf_disk (sb s) (blocks s)" "bc.room 2 s" "icache_ok (icache s)" "synced s" "dir_tree (sb s) (blocks s) I"
    "\<exists>p q. p \<noteq> q \<and> p < NINODE \<and> q < NINODE \<and> i_ref (icache s p) = 0 \<and> i_ref (icache s q) = 0"
  using assms unfolding walking_def by blast+

lemma dir_treeD:
  assumes "dir_tree x D I" "i \<in> I"
  shows "disk_file x D i" "d_type (disk_inode x D i) = T_DIR \<Longrightarrow> 16 dvd unat (d_size (disk_inode x D i))"
    "d_type (disk_inode x D i) = T_DIR \<Longrightarrow> k < nentries (disk_bytes x D i) \<Longrightarrow> de_inum (entry (disk_bytes x D i) k) \<noteq> 0 \<Longrightarrow>
       ucast (de_inum (entry (disk_bytes x D i) k)) \<in> I"
  using assms unfolding dir_tree_def by blast+

lemma iget_succeeds:
  assumes "walking s0 I" and S: "since s0 (one ip) s"
  shows "\<exists>ip' s1. iget 1 j s = Some (ip', s1)"
proof (cases "\<exists>q. live_at (icache s) q 1 j")
  case True
  then show ?thesis using iget_hit[OF sinceD(2)[OF S]] by blast
next
  case False
  obtain p q where "p \<noteq> q" "p < NINODE" "q < NINODE" "i_ref (icache s0 p) = 0" "i_ref (icache s0 q) = 0"
    using walkingD(7)[OF assms(1)] by blast
  then have "\<not> icache_full (icache s)"
    using sinceD(4)[OF S, of p] sinceD(4)[OF S, of q] unfolding icache_full_def by (metis add_0 less_irrefl)
  then show ?thesis using iget_miss[OF sinceD(2)[OF S]] False by metis
qed

lemma nlink_walk:
  assumes S: "since s0 n s" and ip: "ip < NINODE" "0 < i_ref (icache s ip)" "i_inum (icache s ip) = i"
    and f: "disk_file (sb s0) (blocks s0) i" and v: "i_valid (icache s ip)"
  shows "i_nlink (icache s ip) \<noteq> 0"
proof -
  note F = fs_stepD[OF sinceD(1)[OF S]]
  have "dinode_of (icache s ip) = disk_inode (sb s0) (blocks s0) i"
    using sinceD(3)[OF S] ip v F by (simp add: synced_def)
  then have "d_nlink (dinode_of (icache s ip)) \<noteq> 0" using f by (simp add: disk_file_def Let_def)
  then show ?thesis by (simp add: dinode_of_def)
qed

text \<open>Looking a name up in a locked directory of the tree.\<close>

lemma dir_find_cut:
  assumes "0 \<notin> set e" "str_of name = take DIRSIZ e"
  shows "dir_find name c = dir_find e c"
proof -
  have "str_of e = e" using str_of_append[OF assms(1), of "[]"] assms(1) by (auto simp: str_of_def takeWhile_eq_all_conv)
  then show ?thesis using assms(2) by (simp add: dir_find_def names_def)
qed

lemma dirlookup_walk:
  assumes wk: "walking s0 I" and S: "since s0 (one ip) s" and ip: "ip < NINODE" "i_dev (icache s ip) = 1" "i_inum (icache s ip) = i"
    and i: "i \<in> I" and d: "dinode_of (icache s ip) = disk_inode (sb s0) (blocks s0) i"
    and ty: "d_type (disk_inode (sb s0) (blocks s0) i) = T_DIR"
    and nm: "length name = DIRSIZ" "str_of name = take DIRSIZ e" "0 \<notin> set e"
  defines "c \<equiv> disk_bytes (sb s0) (blocks s0) i"
  shows "dir_find e c = None \<Longrightarrow> \<exists>s1. dirlookup ip name s = Some (None, s1) \<and> since s0 (one ip) s1 \<and> icache s1 = icache s"
    and "dir_find e c = Some k \<Longrightarrow> \<exists>nxt off s1. dirlookup ip name s = Some (Some (nxt, off), s1)
      \<and> since s0 (\<lambda>q. one ip q + one nxt q) s1 \<and> nxt < NINODE \<and> i_dev (icache s1 nxt) = 1
      \<and> i_inum (icache s1 nxt) = ucast (de_inum (entry c k)) \<and> ucast (de_inum (entry c k)) \<in> I
      \<and> 0 < i_ref (icache s1 ip) \<and> i_inum (icache s1 ip) = i"
proof -
  note D = sinceD[OF S] and W = walkingD[OF wk]
  note F = fs_stepD[OF D(1)] and T = dir_treeD[OF W(6) i]
  have pos: "0 \<le> one ip q" for q by simp
  have d': "dinode_of (icache s ip) = disk_inode (sb s) (blocks s) (i_inum (icache s ip))" using d by (simp add: F(3,4) ip(3))
  have "disk_file (sb s) (blocks s) (i_inum (icache s ip))" using T(1) by (simp add: F(3,4) ip(3))
  note fo = disk_file_ok[OF this ip(2) d']
  have "i_size (icache s ip) = d_size (disk_inode (sb s0) (blocks s0) i)" using d[symmetric] by (simp add: dinode_of_def)
  moreover have "i_type (icache s ip) = T_DIR" using fo(3) ty by (simp add: F(3,4) ip(3))
  ultimately have ok: "dir_ok ip s"
    using fo(1) F W(2,3) T(2)[OF ty] by (simp add: dir_ok_def)
  have c: "contents ip s = c" using fo(2) by (simp add: c_def F(3,4) ip(3))
  have nok: "name_ok name" using nm(1) by (simp add: name_ok_def)
  obtain s1 where s1: "advances s (blocks s) (icache s) s1" "dirlookup ip name s = lookup_result ip c (dir_find e c) s1"
    using dirlookup_ok[OF ok nok] unfolding c dir_find_cut[OF nm(3,2)] by blast
  have S1: "since s0 (one ip) s1" by (rule since_quiet[OF S pos s1(1)])
  have ic: "icache s1 = icache s" using s1(1) by (simp add: advances_def)
  show "\<exists>s1. dirlookup ip name s = Some (None, s1) \<and> since s0 (one ip) s1 \<and> icache s1 = icache s" if "dir_find e c = None"
    using s1(2) S1 ic that by (simp add: lookup_result_def)
  assume k: "dir_find e c = Some k"
  obtain nxt s2 where g: "iget 1 (ucast (de_inum (entry c k))) s1 = Some (nxt, s2)"
    using iget_succeeds[OF wk S1] by blast
  note G = since_iget[OF S1 pos g]
  have "k < nentries c" "de_inum (entry c k) \<noteq> 0"
    using findSomeD[OF k[unfolded dir_find_def]] by (simp_all add: names_def)
  then have "ucast (de_inum (entry c k)) \<in> I" using T(3)[OF ty] by (simp add: c_def)
  moreover have "0 < i_ref (icache s2 ip)" "0 < i_ref (icache s1 ip)"
    using sinceD(4)[OF G(1) ip(1)] sinceD(4)[OF S1 ip(1)] W(4) ip(1) by (auto simp: icache_ok_def)
  moreover have "i_inum (icache s2 ip) = i" using G(5)[OF ip(1) calculation(3)] ip(3) ic by simp
  ultimately show "\<exists>nxt off s1. dirlookup ip name s = Some (Some (nxt, off), s1)
      \<and> since s0 (\<lambda>q. one ip q + one nxt q) s1 \<and> nxt < NINODE \<and> i_dev (icache s1 nxt) = 1
      \<and> i_inum (icache s1 nxt) = ucast (de_inum (entry c k)) \<and> ucast (de_inum (entry c k)) \<in> I
      \<and> 0 < i_ref (icache s1 ip) \<and> i_inum (icache s1 ip) = i"
    using s1(2) k g G by (intro exI[of _ nxt] exI[of _ "of_nat (16 * k)"] exI[of _ s2]) (simp add: lookup_result_def)
qed

text \<open>The outcome of a walk: no inode and every reference given back, or a reference to the inode the path leads to.\<close>

definition walked :: "'a fs_scheme \<Rightarrow> u32 option \<Rightarrow> nat option \<Rightarrow> 'a fs_scheme \<Rightarrow> bool" where
  "walked s0 r res s \<longleftrightarrow> (case r of None \<Rightarrow> res = None \<and> since s0 (\<lambda>q. 0) s
     | Some j \<Rightarrow> \<exists>jp<NINODE. res = Some jp \<and> since s0 (one jp) s \<and> i_dev (icache s jp) = 1 \<and> i_inum (icache s jp) = j)"

lemma walkedD:
  assumes "walked s r res s'"
  shows "bio_ok s'" "icache_ok (icache s')" "blocks s' = blocks s" "sb s' = sb s"
    "case r of None \<Rightarrow> res = None \<and> (\<forall>q<NINODE. i_ref (icache s' q) = i_ref (icache s q))
      | Some j \<Rightarrow> \<exists>q<NINODE. res = Some q \<and> i_dev (icache s' q) = 1 \<and> i_inum (icache s' q) = j
          \<and> (\<forall>q'<NINODE. i_ref (icache s' q') = i_ref (icache s q') + one q q')"
proof -
  obtain n where S: "since s n s'" using assms by (auto simp: walked_def split: option.splits)
  show "bio_ok s'" "blocks s' = blocks s" "sb s' = sb s" using fs_stepD[OF sinceD(1)[OF S]] by simp_all
  show "icache_ok (icache s')" by (rule sinceD(2)[OF S])
  show "case r of None \<Rightarrow> res = None \<and> (\<forall>q<NINODE. i_ref (icache s' q) = i_ref (icache s q))
      | Some j \<Rightarrow> \<exists>q<NINODE. res = Some q \<and> i_dev (icache s' q) = 1 \<and> i_inum (icache s' q) = j
          \<and> (\<forall>q'<NINODE. i_ref (icache s' q') = i_ref (icache s q') + one q q')"
  proof (cases r)
    case None
    then show ?thesis using assms sinceD(4)[of s "\<lambda>q. 0" s'] by (simp add: walked_def)
  next
    case (Some j)
    then obtain q where q: "q < NINODE" "res = Some q" "since s (one q) s'" "i_dev (icache s' q) = 1" "i_inum (icache s' q) = j"
      using assms by (auto simp: walked_def)
    then show ?thesis using sinceD(4)[OF q(3)] Some by auto
  qed
qed

lemma since_ref:
  assumes "walking s0 I" "since s0 n s" "ip < NINODE" "0 < n ip"
  shows "0 < i_ref (icache s ip)"
  using sinceD(4)[OF assms(2,3)] walkingD(4)[OF assms(1)] assms(3,4) by (auto simp: icache_ok_def)

lemma since_cong: "since s0 n s \<Longrightarrow> (\<And>q. n q = m q) \<Longrightarrow> since s0 m s"
  by (simp add: since_def)

lemma give_back:
  assumes wk: "walking s0 I" and S: "since s0 (\<lambda>q. one ip q + m q) s" and m: "\<And>q. 0 \<le> m q" and ip: "ip < NINODE"
    and i: "i_inum (icache s ip) = i" "i \<in> I"
  obtains s1 where "iput ip s = Some s1" "iunlockput ip s = Some s1" "since s0 m s1"
    "\<And>q. i_dev (icache s1 q) = i_dev (icache s q) \<and> i_inum (icache s1 q) = i_inum (icache s q)"
proof -
  have pos: "0 \<le> one ip q + m q" for q using m[of q] by simp
  have r: "0 < i_ref (icache s ip)" by (rule since_ref[OF wk S ip]) (use m[of ip] in simp)
  note nl = nlink_walk[OF S ip r i(1) dir_treeD(1)[OF walkingD(6)[OF wk] i(2)]]
  obtain s1 where s1: "iput ip s = Some s1" "iunlockput ip s = Some s1" "since s0 (\<lambda>q. one ip q + m q - one ip q) s1"
    "\<forall>q. i_dev (icache s1 q) = i_dev (icache s q) \<and> i_inum (icache s1 q) = i_inum (icache s q)"
    using since_iput[OF S pos ip r nl] by blast
  have "since s0 m s1" using s1(3) by (rule since_cong) simp
  then show ?thesis using s1 by (intro that[of s1]) simp_all
qed

lemma namex_loop_ok:
  assumes wk: "walking s0 I" and S: "since s0 (one ip) s" and ip: "ip < NINODE" "i_dev (icache s ip) = 1" "i_inum (icache s ip) = i"
    and i: "i \<in> I" and p: "0 \<notin> set p" and nb: "length name = DIRSIZ"
  shows "\<exists>res name' s'. namex_loop ip (p @ 0 # r) par name s = Some (res, name', s') \<and> length name' = DIRSIZ
    \<and> walked s0 (walk (sb s0) (blocks s0) par i (path_elems p)) res s'
    \<and> (par \<and> res \<noteq> None \<longrightarrow> str_of name' = take DIRSIZ (last (path_elems p)))"
  using S ip i p nb
proof (induction "path_elems p" arbitrary: p ip i s name)
  case Nil
  note S = Nil.prems(1) and ip = Nil.prems(2-4)
  note sk = skipelem_ok(1)[OF Nil.prems(6,7) Nil.hyps[symmetric], of r]
  show ?case
  proof (cases par)
    case True
    have "since s0 (\<lambda>q. one ip q + 0) s" using S by simp
    then obtain s1 where s1: "iput ip s = Some s1" "since s0 (\<lambda>q. 0) s1"
      by (rule give_back[OF wk _ _ ip(1,3) Nil.prems(5)]) simp
    then have "namex_loop ip (p @ 0 # r) par name s = Some (None, name, s1)"
      using sk True by (subst namex_loop.simps) simp
    then show ?thesis using True s1 Nil.prems(7) unfolding Nil.hyps[symmetric] by (simp add: walked_def)
  next
    case False
    then have "namex_loop ip (p @ 0 # r) par name s = Some (Some ip, name, s)"
      using sk by (subst namex_loop.simps) simp
    then show ?thesis using False S ip Nil.prems(7) unfolding Nil.hyps[symmetric] by (simp add: walked_def)
  qed
next
  case (Cons e es)
  note S = Cons.prems(1) and ip = Cons.prems(2-4) and i = Cons.prems(5)
  note W = walkingD[OF wk]
  obtain p' name' where sk: "skipelem (p @ 0 # r) name = Some (Some (p' @ 0 # r, name'))"
    and p': "0 \<notin> set p'" "path_elems p' = es" "length name' = DIRSIZ" "str_of name' = take DIRSIZ e" "0 \<notin> set e" "p' = [] \<longleftrightarrow> es = []"
    using skipelem_ok(2)[OF Cons.prems(6,7) Cons.hyps(2)[symmetric], of r] by blast
  have pos: "0 \<le> one ip q" for q by simp
  have r0: "0 < i_ref (icache s ip)" by (rule since_ref[OF wk S ip(1)]) simp
  obtain s1 where lk: "ilock ip s = Some s1" "since s0 (one ip) s1" "i_dev (icache s1 ip) = 1" "i_inum (icache s1 ip) = i"
    "0 < i_ref (icache s1 ip)" "dinode_of (icache s1 ip) = disk_inode (sb s0) (blocks s0) i"
    using ilock_walk[OF S pos ip(1) r0 ip(2,3) dir_treeD(1)[OF W(6) i] W(3,2)] by blast
  have ty: "i_type (icache s1 ip) = d_type (disk_inode (sb s0) (blocks s0) i)" using lk(6)[symmetric] by (simp add: dinode_of_def)
  have hd': "hd (p' @ 0 # r) = 0 \<longleftrightarrow> es = []"
  proof (cases "p' = []")
    case False
    then have "hd (p' @ 0 # r) \<in> set p'" by simp
    then show ?thesis using False p'(1,6) by metis
  qed (use p'(6) in simp)
  have S0: "since s0 (\<lambda>q. one ip q + 0) t" if "since s0 (one ip) t" for t using that by simp
  have loop: "namex_loop ip (p @ 0 # r) par name s =
      (if d_type (disk_inode (sb s0) (blocks s0) i) \<noteq> T_DIR then Option.bind (iunlockput ip s1) (\<lambda>s2. Some (None, name', s2))
       else if par \<and> es = [] then Some (Some ip, name', iunlock ip s1)
       else Option.bind (dirlookup ip name' s1) (\<lambda>(found, s2).
             case found of
               None \<Rightarrow> Option.bind (iunlockput ip s2) (\<lambda>s3. Some (None, name', s3))
             | Some (nxt, off) \<Rightarrow> Option.bind (iunlockput ip s2) (\<lambda>s3. namex_loop nxt (p' @ 0 # r) par name' s3)))"
    using sk lk(1) by (subst namex_loop.simps) (simp only: bind.simps option.case prod.case ty hd')
  note we = Cons.hyps(2)[symmetric]
  consider (notdir) "d_type (disk_inode (sb s0) (blocks s0) i) \<noteq> T_DIR"
    | (parent) "d_type (disk_inode (sb s0) (blocks s0) i) = T_DIR" "par" "es = []"
    | (none) "d_type (disk_inode (sb s0) (blocks s0) i) = T_DIR" "\<not> (par \<and> es = [])" "dir_find e (disk_bytes (sb s0) (blocks s0) i) = None"
    | (found) k where "d_type (disk_inode (sb s0) (blocks s0) i) = T_DIR" "\<not> (par \<and> es = [])" "dir_find e (disk_bytes (sb s0) (blocks s0) i) = Some k"
    by (cases "dir_find e (disk_bytes (sb s0) (blocks s0) i)") blast+
  then show ?case
  proof cases
    case notdir
    obtain s2 where "iunlockput ip s1 = Some s2" "since s0 (\<lambda>q. 0) s2"
      by (rule give_back[OF wk S0[OF lk(2)] _ ip(1) lk(4) i]) simp
    then show ?thesis unfolding loop we using notdir p'(3) by (simp add: walked_def)
  next
    case parent
    have "iunlock ip s1 = s1" using lk(5) by (simp add: iunlock_def)
    then show ?thesis unfolding loop we using parent p'(3,4) lk(2-4) ip(1) by (simp add: walked_def)
  next
    case none
    obtain s2 where s2: "dirlookup ip name' s1 = Some (None, s2)" "since s0 (one ip) s2" "icache s2 = icache s1"
      using dirlookup_walk(1)[OF wk lk(2) ip(1) lk(3,4) i lk(6) none(1) p'(3-5) none(3)] by blast
    have i2: "i_inum (icache s2 ip) = i" using s2(3) lk(4) by simp
    obtain s3 where "iunlockput ip s2 = Some s3" "since s0 (\<lambda>q. 0) s3"
      by (rule give_back[OF wk S0[OF s2(2)] _ ip(1) i2 i]) simp
    then show ?thesis unfolding loop we using none(1,3) p'(3) s2(1) by (simp only: none(2) simp_thms) (simp add: walked_def none(2))
  next
    case found
    let ?j = "ucast (de_inum (entry (disk_bytes (sb s0) (blocks s0) i) k)) :: u32"
    obtain nxt off s2 where s2: "dirlookup ip name' s1 = Some (Some (nxt, off), s2)" "since s0 (\<lambda>q. one ip q + one nxt q) s2"
      "nxt < NINODE" "i_dev (icache s2 nxt) = 1" "i_inum (icache s2 nxt) = ?j" "?j \<in> I" "i_inum (icache s2 ip) = i"
      using dirlookup_walk(2)[OF wk lk(2) ip(1) lk(3,4) i lk(6) found(1) p'(3-5) found(3)] by blast
    obtain s3 where s3: "iunlockput ip s2 = Some s3" "since s0 (one nxt) s3"
      "\<And>q. i_dev (icache s3 q) = i_dev (icache s2 q) \<and> i_inum (icache s3 q) = i_inum (icache s2 q)"
      by (rule give_back[OF wk s2(2) _ ip(1) s2(7) i]) auto
    have n3: "i_dev (icache s3 nxt) = 1" "i_inum (icache s3 nxt) = ?j" using s3(3)[of nxt] s2(4,5) by simp_all
    obtain res nm s4 where ih: "namex_loop nxt (p' @ 0 # r) par name' s3 = Some (res, nm, s4)" "length nm = DIRSIZ"
      "walked s0 (walk (sb s0) (blocks s0) par ?j (path_elems p')) res s4"
      "par \<and> res \<noteq> None \<longrightarrow> str_of nm = take DIRSIZ (last (path_elems p'))"
      using Cons.hyps(1)[OF p'(2)[symmetric] s3(2) s2(3) n3 s2(6) p'(1,3)] by blast
    have w: "walk (sb s0) (blocks s0) par i (e # es) = walk (sb s0) (blocks s0) par ?j es" using found by simp
    have l: "par \<Longrightarrow> last (e # es) = last es" using found(2) by simp
    have np: "(par \<and> es = []) = False" using found(2) by blast
    show ?thesis unfolding loop we w np if_False using found(1) s2(1) s3(1) ih l unfolding p'(2) by simp
  qed
qed

text \<open>\<open>namei\<close>: an absolute path starts at the root, any other at the current directory.\<close>

lemma namex_ok:
  assumes wk: "walking s I" and p: "0 \<notin> set p" and nb: "length name = DIRSIZ"
    and start: "if p \<noteq> [] \<and> hd p = 47 then i = ROOTINO \<and> i \<in> I
      else cwd < NINODE \<and> 0 < i_ref (icache s cwd) \<and> i_dev (icache s cwd) = 1 \<and> i_inum (icache s cwd) = i \<and> i \<in> I"
  shows "\<exists>res name' s'. namex cwd (p @ 0 # r) par name s = Some (res, name', s') \<and> length name' = DIRSIZ
    \<and> walked s (walk (sb s) (blocks s) par i (path_elems p)) res s'
    \<and> (par \<and> res \<noteq> None \<longrightarrow> str_of name' = take DIRSIZ (last (path_elems p)))"
proof -
  note W = walkingD[OF wk]
  have S0: "since s (\<lambda>q. 0) s" using W by (simp add: since_def fs_step_refl)
  show ?thesis
  proof (cases "p \<noteq> [] \<and> hd p = 47")
    case True
    then have i: "i = 1" "i \<in> I" using start unfolding ROOTINO_def by metis+
    obtain a b where ab: "a \<noteq> b" "a < NINODE" "i_ref (icache s a) = 0" using W(7) by blast
    then have nf: "\<not> icache_full (icache s)" by (auto simp: icache_full_def)
    have "\<exists>ip s1. iget 1 1 s = Some (ip, s1)"
    proof (cases "\<exists>q. live_at (icache s) q 1 1")
      case False
      then have "\<not> live_at (icache s) q 1 1" for q by blast
      from iget_miss[OF W(4) this nf] show ?thesis by blast
    qed (use iget_hit[OF W(4)] in blast)
    then obtain ip s1 where g: "iget 1 1 s = Some (ip, s1)" by blast
    note G = since_iget[OF S0 _ g]
    have S1: "since s (one ip) s1" using G(1) by simp
    have "\<exists>res name' s'. namex_loop ip (p @ 0 # r) par name s1 = Some (res, name', s') \<and> length name' = DIRSIZ
      \<and> walked s (walk (sb s) (blocks s) par i (path_elems p)) res s'
      \<and> (par \<and> res \<noteq> None \<longrightarrow> str_of name' = take DIRSIZ (last (path_elems p)))"
      by (rule namex_loop_ok[OF wk S1 _ _ _ i(2) p nb]) (use G i in auto)
    moreover have "hd (p @ 0 # r) = 47" using True by simp
    ultimately show ?thesis using g by (simp add: namex_def ROOTDEV_def ROOTINO_def)
  next
    case False
    then have c: "cwd < NINODE" "0 < i_ref (icache s cwd)" "i_dev (icache s cwd) = 1" "i_inum (icache s cwd) = i" "i \<in> I"
      using start by (auto split: if_splits)
    have "live_at (icache s) cwd 1 i" using c by (simp add: live_at_def)
    from iget_hit[OF W(4) this] have g: "iget 1 i s = Some (cwd, snd (idup cwd s))" by (simp add: idup_def)
    note G = since_iget[OF S0 _ g]
    have S1: "since s (one cwd) (snd (idup cwd s))" using G(1) by simp
    have "\<exists>res name' s'. namex_loop cwd (p @ 0 # r) par name (snd (idup cwd s)) = Some (res, name', s') \<and> length name' = DIRSIZ
      \<and> walked s (walk (sb s) (blocks s) par i (path_elems p)) res s'
      \<and> (par \<and> res \<noteq> None \<longrightarrow> str_of name' = take DIRSIZ (last (path_elems p)))"
      by (rule namex_loop_ok[OF wk S1 c(1) _ _ c(5) p nb]) (use G in auto)
    moreover have "hd (p @ 0 # r) \<noteq> 47" using False by (cases p) auto
    ultimately show ?thesis by (simp add: namex_def idup_def)
  qed
qed

end
