(* ===== verification/Exec_Ok.thy ===== *)
theory Exec_Ok
  imports Elf_Image Path
begin

text \<open>
  kernel/exec.c, the whole call up to the point of no return: whatever is in the file, \<open>exec\<close> either fails with every page,
  inode reference and byte of other memory as it was, or has a complete new address space when it starts to build the stack.
\<close>

unbundle bit_operations_syntax

section \<open>Walking and quiet steps\<close>

lemma walking_quiet: "quiet s t \<Longrightarrow> walking s I \<Longrightarrow> walking t I"
  using quietD[of s t] by (simp add: walking_def synced_def)

lemma walk_inside:
  assumes "dir_tree x D I" "i \<in> I" "walk x D par i es = Some j"
  shows "j \<in> I"
  using assms(2,3)
proof (induction es arbitrary: i)
  case (Cons e es)
  show ?case
  proof (cases "par \<and> es = []")
    case False
    then obtain k where k: "d_type (disk_inode x D i) = T_DIR" "dir_find e (disk_bytes x D i) = Some k"
      "walk x D par (ucast (de_inum (entry (disk_bytes x D i) k))) es = Some j"
      using Cons.prems(2) by (auto split: if_splits option.splits)
    have "k < nentries (disk_bytes x D i)" "de_inum (entry (disk_bytes x D i) k) \<noteq> 0"
      using findSomeD[OF k(2)[unfolded dir_find_def]] by (simp_all add: names_def)
    then show ?thesis using dir_treeD(3)[OF assms(1) Cons.prems(1) k(1)] Cons.IH[OF _ k(3)] by blast
  qed (use Cons.prems in \<open>auto split: if_splits\<close>)
qed (auto split: if_splits)

lemma quiet_screen:
  assumes "screen_frame s (t :: 'a kmem_scheme)" "bio_ok s"
  shows "quiet s t" "ram t = ram s" "freelist t = freelist s"
  using quiet_mem[OF assms(2) mem_frame_screen[OF assms(1)]] screen_frame_kmem[OF assms(1)] by simp_all

lemma say:
  fixes s :: "'a kmem_scheme"
  assumes "0x25 \<notin> set (cstr fmt)" "bio_ok s"
  obtains t where "kprintf fmt [] s = Some t" "quiet s t" "ram t = ram s" "freelist t = freelist s"
proof -
  obtain t where t: "kprintf fmt [] s = Some t" using kprintf_text[OF assms(1)] by blast
  show ?thesis by (rule that[OF t quiet_screen[OF screen_frame_kprintf[OF t] assms(2)]])
qed

text \<open>Giving back the one reference taken since \<open>s0\<close>.\<close>

lemma release_inode:
  fixes t :: "'a kmem_scheme"
  assumes wk: "walking s0 I" and S: "since s0 (one ip) s2" and ip: "ip < NINODE" "i_inum (icache s2 ip) = j" "j \<in> I" and q: "quiet s2 t"
  shows "\<exists>t'. iunlockput ip t = Some t' \<and> walking t' I \<and> (\<forall>q<NINODE. i_ref (icache t' q) = i_ref (icache s0 q))
    \<and> bio_ok t' \<and> blocks t' = blocks s0 \<and> sb t' = sb s0 \<and> devsw t' = devsw t \<and> ftable t' = ftable t \<and> ram t' = ram t
    \<and> freelist t' = freelist t \<and> kmem.more t' = kmem.more t"
proof -
  let ?t = "upd_inode ip (\<lambda>x. x\<lparr>i_ref := i_ref x - 1\<rparr>) t"
  note W = walkingD[OF wk] and D = sinceD[OF S] and Q = quietD[OF q]
  note F = fs_stepD[OF D(1)]
  have "fs_step t (blocks t) ?t" by (rule fs_step_upd_inode[OF Q(1)])
  note U = fs_stepD[OF this]
  have r: "0 < i_ref (icache s2 ip)" by (rule since_ref[OF wk S ip(1)]) simp
  have "\<not> (i_valid (icache t ip) \<and> i_nlink (icache t ip) = 0 \<and> i_ref (icache t ip) = 1)"
    using nlink_walk[OF S ip(1) r ip(2) dir_treeD(1)[OF W(6) ip(3)]] by (auto simp: Q(5))
  from iput_drop[OF this] have "iunlockput ip t = Some ?t" using r by (simp add: iunlockput_def iunlock_def Q(5))
  moreover have refs: "i_ref (icache ?t q) = i_ref (icache s0 q)" if "q < NINODE" for q
    using D(4)[OF that] by (cases "q = ip") (simp_all add: Q(5))
  moreover have "walking ?t I"
    unfolding walking_def
  proof (intro conjI)
    have "live_at (icache t) ip (i_dev (icache t ip)) (i_inum (icache t ip))" using ip(1) r by (simp add: live_at_def Q(5))
    then show "icache_ok (icache ?t)" using D(2) by (intro iput_drop_ok) (simp_all add: Q(5))
    show "synced ?t"
      using D(3) r by (auto simp: synced_def U Q dinode_of_def split: if_splits)
    show "\<exists>p q. p \<noteq> q \<and> p < NINODE \<and> q < NINODE \<and> i_ref (icache ?t p) = 0 \<and> i_ref (icache ?t q) = 0"
    proof -
      obtain p q where pq: "p \<noteq> q" "p < NINODE" "q < NINODE" "i_ref (icache s0 p) = 0" "i_ref (icache s0 q) = 0" using W(7) by blast
      then have "i_ref (icache ?t p) = 0" "i_ref (icache ?t q) = 0" using refs by simp_all
      then show ?thesis using pq(1-3) by blast
    qed
    show "bio_ok ?t" by (rule U(1))
    show "wf_disk (sb ?t) (blocks ?t)" using W(2) by (simp only: U(3,4) Q(3,4) F(3,4))
    show "bc.room 2 ?t" using W(3) by (simp only: U(6) Q(9) F(6))
    show "dir_tree (sb ?t) (blocks ?t) I" using W(6) by (simp only: U(3,4) Q(3,4) F(3,4))
  qed
  moreover have "blocks ?t = blocks s0" "sb ?t = sb s0" "bio_ok ?t" by (simp_all only: U(1,3,4) Q(3,4) F(3,4))
  moreover have "devsw ?t = devsw t" "ftable ?t = ftable t" "ram ?t = ram t" "freelist ?t = freelist t" "kmem.more ?t = kmem.more t"
    by (simp_all add: upd_inode_def)
  ultimately show ?thesis by blast
qed

section \<open>exec\<close>

text \<open>What a call may have changed between \<open>s\<close> and \<open>t\<close> when the pages \<open>P\<close> were free at the start: the contents of these, and nothing of
  the disk, of the references to inodes, of open files, processes and the rest of memory.\<close>

definition intact :: "u32 set \<Rightarrow> u32 set \<Rightarrow> 'a kmem_scheme \<Rightarrow> 'a kmem_scheme \<Rightarrow> bool" where
  "intact I P s t \<longleftrightarrow> walking t I \<and> (\<forall>q<NINODE. i_ref (icache t q) = i_ref (icache s q)) \<and> blocks t = blocks s \<and> sb t = sb s
     \<and> devsw t = devsw s \<and> ftable t = ftable s \<and> kmem.more t = kmem.more s \<and> same_outside P (ram s) (ram t)"

definition exec_fails :: "u32 set \<Rightarrow> u32 list \<Rightarrow> 'a kmem_scheme \<Rightarrow> (int \<times> 'a kmem_scheme) option \<Rightarrow> bool" where
  "exec_fails I ps s res \<longleftrightarrow> (\<exists>t ps'. res = Some (- 1, t) \<and> intact I (set ps) s t \<and> free_pages t ps' \<and> set ps' = set ps)"

definition exec_loads :: "u32 set \<Rightarrow> u32 list \<Rightarrow> link \<Rightarrow> nat \<Rightarrow> u8 list \<Rightarrow> u32 list \<Rightarrow> u32 \<times> u32 \<times> (u32 \<Rightarrow> u8) \<Rightarrow> 'a kern_scheme \<Rightarrow> (int \<times> 'a kern_scheme) option \<Rightarrow> bool" where
  "exec_loads I ps L p path argv im s res \<longleftrightarrow> (case im of (e, z, g) \<Rightarrow> \<exists>d t ps'. res = exec_commit L p path argv d e z t \<and> intact I (set ps) s t
     \<and> uspace d t ps' \<and> insert d (pages d t ps') = set ps \<and> z < KERNBASE \<and> filled d (ram t) z \<and> mem_is d (ram t) g \<and> zero_from z g
     \<and> (\<forall>v. KERNBASE \<le> v \<longrightarrow> pmap d (ram t) v = kernel_entry (l_data L) v) \<and> length ps \<le> 1025 + 2 * pg_up z + length ps')"

lemma intact_release:
  fixes s :: "'a kern_scheme"
  assumes wk: "walking s I" and q0: "quiet s s0" and S: "since s0 (one ip) s2" and ip: "ip < NINODE" "i_inum (icache s2 ip) = j" "j \<in> I"
    and q: "quiet s2 t" and so: "same_outside P (ram s) (ram t)" and fm: "fs.more s2 = fs.more s0"
  shows "\<exists>t'. iunlockput ip t = Some t' \<and> intact I P s t' \<and> ram t' = ram t \<and> freelist t' = freelist t"
proof -
  note Q0 = quietD[OF q0] and Q = quietD[OF q] and M = kmem_more[OF fm]
  have wk0: "walking s0 I" by (rule walking_quiet[OF q0 wk])
  obtain t' where t': "iunlockput ip t = Some t'" "walking t' I" "\<forall>q<NINODE. i_ref (icache t' q) = i_ref (icache s0 q)"
    "blocks t' = blocks s0" "sb t' = sb s0" "devsw t' = devsw t" "ftable t' = ftable t" "ram t' = ram t" "freelist t' = freelist t"
    "kmem.more t' = kmem.more t"
    using release_inode[OF wk0 S ip q] by blast
  have "devsw s2 = devsw s0" using fs_stepD(5)[OF sinceD(1)[OF S]] .
  then show ?thesis using t' Q0 Q M so by (intro exI[of _ t']) (simp add: intact_def)
qed

lemma exec_ok:
  fixes s :: "'a kern_scheme"
  assumes cp: "getcurproc s = Some p" and wk: "walking s I" and path: "0 \<notin> set pp"
    and start: "if pp \<noteq> [] \<and> hd pp = 47 then i = ROOTINO \<and> i \<in> I
      else \<exists>cwd. p_cwd (ptable s p) = Some cwd \<and> cwd < NINODE \<and> 0 < i_ref (icache s cwd) \<and> i_dev (icache s cwd) = 1
        \<and> i_inum (icache s cwd) = i \<and> i \<in> I"
    and found: "walk (sb s) (blocks s) False i (path_elems pp) = Some j" and ty: "d_type (disk_inode (sb s) (blocks s) j) \<noteq> T_DEV"
    and fp: "free_pages s ps" and kb: "KERNBASE \<notin> set ps"
    and data: "page_al (l_data L)" "KERNLINK < l_data L" "l_data L < P2V PHYSTOP"
  defines "c \<equiv> disk_bytes (sb s) (blocks s) j"
  shows "case elf_image c of None \<Rightarrow> exec_fails I ps s (exec L (pp @ 0 # r) argv s)
    | Some im \<Rightarrow> exec_fails I ps s (exec L (pp @ 0 # r) argv s) \<and> length ps \<le> 1025 + 2 * pg_up (fst (snd im))
        \<or> exec_loads I ps L p (pp @ 0 # r) argv im s (exec L (pp @ 0 # r) argv s)"
proof -
  let ?path = "pp @ 0 # r"
  note W = walkingD[OF wk]
  obtain s0 where s0: "kprintf ''real exec: \<newline>'' [] s = Some s0" "quiet s s0" "ram s0 = ram s" "freelist s0 = freelist s"
    by (rule say[of "''real exec: \<newline>''" s]) (simp_all add: cstr_def W(1))
  note Q0 = quietD[OF s0(2)]
  have wk0: "walking s0 I" by (rule walking_quiet[OF s0(2) wk])
  note W0 = walkingD[OF wk0]
  have pt: "ptable s0 = ptable s" using Q0(8) by (cases s; cases s0) simp
  obtain cwd where cwd: "start_dir p ?path s0 = Some cwd"
    "if pp \<noteq> [] \<and> hd pp = 47 then i = ROOTINO \<and> i \<in> I
     else cwd < NINODE \<and> 0 < i_ref (icache s0 cwd) \<and> i_dev (icache s0 cwd) = 1 \<and> i_inum (icache s0 cwd) = i \<and> i \<in> I"
  proof (cases "pp \<noteq> [] \<and> hd pp = 47")
    case True
    then have "start_dir p ?path s0 = Some 0" by (simp add: start_dir_def)
    then show ?thesis by (rule that) (use start True in auto)
  next
    case False
    then obtain cwd where c: "p_cwd (ptable s p) = Some cwd" "cwd < NINODE \<and> 0 < i_ref (icache s cwd) \<and> i_dev (icache s cwd) = 1
        \<and> i_inum (icache s cwd) = i \<and> i \<in> I" using start by (auto split: if_splits)
    have "hd ?path \<noteq> 47" using False by (cases pp) auto
    then have "start_dir p ?path s0 = Some cwd" using c(1) by (simp add: start_dir_def pt)
    then show ?thesis by (rule that) (use c(2) False Q0(5) in auto)
  qed
  have iI: "i \<in> I" using cwd(2) by (auto split: if_splits)
  have jI: "j \<in> I" by (rule walk_inside[OF W(6) iI found])
  have "length (replicate DIRSIZ (0 :: u8)) = DIRSIZ" by simp
  then obtain ip s1 where n: "namei cwd ?path s0 = Some (Some ip, s1)" "ip < NINODE" "since s0 (one ip) s1" "i_dev (icache s1 ip) = 1" "i_inum (icache s1 ip) = j"
    using namex_ok[OF wk0 path _ cwd(2), where name = "replicate DIRSIZ 0" and par = False and r = r] found
    unfolding Q0(3,4) by (auto simp: namei_def walked_def)
  have pos: "0 \<le> one ip q" for q by simp
  have rf: "0 < i_ref (icache s1 ip)" by (rule since_ref[OF wk0 n(3,2)]) simp
  have df: "disk_file (sb s0) (blocks s0) j" using dir_treeD(1)[OF W0(6) jI] .
  obtain s2 where lk: "ilock ip s1 = Some s2" "since s0 (one ip) s2" "i_dev (icache s2 ip) = 1" "i_inum (icache s2 ip) = j"
    "dinode_of (icache s2 ip) = disk_inode (sb s0) (blocks s0) j"
    using ilock_walk[OF n(3) pos n(2) rf n(4,5) df W0(3,2)] by blast
  note F = fs_stepD[OF sinceD(1)[OF lk(2)]]
  have fm: "fs.more s2 = fs.more s0" using sinceD(1)[OF lk(2)] by (simp add: fs_step_def)
  note M = kmem_more[OF fm]
  have df2: "disk_file (sb s2) (blocks s2) (i_inum (icache s2 ip))" using df by (simp only: F lk(4))
  have dn2: "dinode_of (icache s2 ip) = disk_inode (sb s2) (blocks s2) (i_inum (icache s2 ip))" using lk(5) by (simp only: F lk(4))
  note fo = disk_file_ok[OF df2 lk(3) dn2]
  have c2: "contents ip s2 = c" using fo(2) by (simp only: F lk(4) Q0 c_def)
  have rd2: "readable ip s2"
    using F(1,3,4,6) W0(2,3) fo(1,3) ty unfolding readable_def by (simp add: lk(4) Q0)
  obtain s3 where s3: "kprintf ''ready check elf header\<newline>'' [] s2 = Some s3" "quiet s2 s3" "ram s3 = ram s2" "freelist s3 = freelist s2"
    by (rule say[of "''ready check elf header\<newline>''" s2]) (simp_all add: cstr_def F(1))
  have R3: "readable ip s3" "contents ip s3 = c" using readable_quiet[OF s3(2) rd2] quietD(11)[OF s3(2)] c2 by simp_all
  have "unat (of_nat ELF_SIZE :: u32) \<le> length (replicate ELF_SIZE (0 :: u8))" by (simp add: ELF_SIZE_def)
  from readi_any[OF R3(1) this, of 0] obtain r4 b s4 where s4: "readi ip (replicate ELF_SIZE 0) 0 (of_nat ELF_SIZE) s3 = Some (r4, b, s4)"
    "quiet s3 s4" "ram s4 = ram s3" "freelist s4 = freelist s3"
    "r4 = int ELF_SIZE \<longrightarrow> ELF_SIZE \<le> length c \<and> b = take ELF_SIZE c" "ELF_SIZE \<le> length c \<longrightarrow> r4 = int ELF_SIZE"
    unfolding R3(2) by (auto simp: ELF_SIZE_def blit_def)
  have q24: "quiet s2 s4" by (rule quiet_trans[OF s3(2) s4(2)])
  have mem4: "ram s4 = ram s" "freelist s4 = freelist s" using s4(3,4) s3(3,4) M s0(3,4) by simp_all
  have fp4: "free_pages s4 ps" using fp by (simp add: free_pages_def mem4)
  have ret: "\<exists>t'. iunlockput ip t = Some t' \<and> intact I (set ps) s t' \<and> ram t' = ram t \<and> freelist t' = freelist t"
    if "quiet s4 t" "same_outside (set ps) (ram s) (ram t)" for t :: "'a kern_scheme"
    by (rule intact_release[OF wk s0(2) lk(2) n(2) lk(4) jI quiet_trans[OF q24 that(1)] that(2) fm])
  have plain: "exec_fails I ps s (exec_bad 0 (Some ip) t)"
    if t: "quiet s4 t" "same_outside (set ps) (ram s) (ram t)" "free_pages t ps'" "set ps' = set ps" for t :: "'a kern_scheme" and ps'
  proof -
    obtain t' where t': "iunlockput ip t = Some t'" "intact I (set ps) s t'" "ram t' = ram t" "freelist t' = freelist t" using ret[OF t(1,2)] by blast
    have "free_pages t' ps'" using t(3) t'(3,4) by (simp add: free_pages_def)
    then show ?thesis using t'(1,2) t(4) by (auto simp: exec_fails_def exec_bad_def)
  qed
  have undo: "exec_fails I ps s (exec_bad d (Some ip) t)"
    if t: "quiet s4 t" "same_outside (set ps) (ram s) (ram t)" "uspace d t ps'" "insert d (pages d t ps') = set ps" for t :: "'a kern_scheme" and d ps'
  proof -
    have d0: "d \<noteq> 0" using vm_okD(3)[OF uspaceD(1)[OF t(3)]] .
    obtain t2 ps2 where f: "freevm d t = Some t2" "free_pages t2 ps2" "set ps2 = set ps" "mem_frame t t2" "inside d t ps' t2"
      using freevm_ok[OF t(3)] t(4) by auto
    have "quiet s4 t2" by (rule quiet_trans[OF t(1) quiet_mem[OF quietD(1)[OF t(1)] f(4)]])
    moreover have "same_outside (set ps) (ram s) (ram t2)" using f(5) unfolding inside_def t(4) by (rule same_outside_trans[OF t(2)])
    ultimately have "exec_fails I ps s (exec_bad 0 (Some ip) t2)" using f(2,3) by (rule plain)
    moreover have "exec_bad d (Some ip) t = exec_bad 0 (Some ip) t2" using d0 f(1) by (simp add: exec_bad_def)
    ultimately show ?thesis by simp
  qed
  have q4: "quiet s4 s4" by (rule quiet_refl[OF quietD(1)[OF q24]])
  have so4: "same_outside (set ps) (ram s) (ram s4)" by (simp add: mem4)
  have E: "exec L ?path argv s = (if r4 \<noteq> int ELF_SIZE \<or> e_magic (dec_elfhdr b) \<noteq> ELF_MAGIC then exec_bad 0 (Some ip) s4
      else do {
        (pgdir, s5) \<leftarrow> setupkvm (l_data L) s4;
        if pgdir = 0 then exec_bad 0 (Some ip) s5
        else do {
          s6 \<leftarrow> kprintf ''check elf header:OK\<newline>'' [] s5;
          (sz, s7) \<leftarrow> exec_segments pgdir ip (unat (e_phnum (dec_elfhdr b))) (e_phoff (dec_elfhdr b)) 0 s6;
          case sz of None \<Rightarrow> exec_bad pgdir (Some ip) s7
          | Some sz0 \<Rightarrow> do { s8 \<leftarrow> iunlockput ip s7; exec_commit L p ?path argv pgdir (e_entry (dec_elfhdr b)) sz0 s8 }
        }
      })"
    using cp s0(1) cwd(1) n(1) lk(1) s3(1) s4(1) by (simp add: exec_def Let_def)
  define h where "h = dec_elfhdr (take ELF_SIZE c)"
  have dp: "distinct ps" using fp by (simp add: free_pages_def)
  show ?thesis
  proof (cases "r4 \<noteq> int ELF_SIZE \<or> e_magic (dec_elfhdr b) \<noteq> ELF_MAGIC")
    case True
    then have "exec_fails I ps s (exec L ?path argv s)" using plain[OF q4 so4 fp4 refl] unfolding E by simp
    moreover have "elf_image c = None"
    proof (cases "length c < ELF_SIZE")
      case False
      then have "e_magic h \<noteq> ELF_MAGIC" using True s4(5,6) by (auto simp: h_def)
      then show ?thesis by (simp add: elf_image_def h_def Let_def)
    qed (simp add: elf_image_def Let_def)
    ultimately show ?thesis by simp
  next
    case False
    then have hdr: "ELF_SIZE \<le> length c" "dec_elfhdr b = h" "e_magic h = ELF_MAGIC" using s4(5) by (auto simp: h_def)
    let ?im = "seg_image c (unat (e_phnum h)) (e_phoff h) 0 (\<lambda>_. 0)"
    have ei: "elf_image c = map_option (Pair (e_entry h)) ?im" using hdr(1,3) by (simp add: elf_image_def h_def[symmetric] Let_def)
    obtain d s5 ps5 where k: "setupkvm (l_data L) s4 = Some (d, s5)" "mem_frame s4 s5" "same_outside (set ps) (ram s4) (ram s5)"
      "d \<noteq> 0 \<and> uspace d s5 ps5 \<and> pmap d (ram s5) = kernel_entry (l_data L) \<and> insert d (pages d s5 ps5) = set ps
        \<or> d = 0 \<and> free_pages s5 ps5 \<and> set ps5 = set ps \<and> length ps \<le> 1025"
      using setupkvm_ok[OF fp4 kb data] by blast
    have q5: "quiet s4 s5" by (rule quiet_mem[OF quietD(1)[OF q24] k(2)])
    have so5: "same_outside (set ps) (ram s) (ram s5)" using k(3) by (simp add: mem4)
    from k(4) show ?thesis
    proof
      assume "d = 0 \<and> free_pages s5 ps5 \<and> set ps5 = set ps \<and> length ps \<le> 1025"
      then have "exec_fails I ps s (exec_bad 0 (Some ip) s5)" and "d = 0" and "length ps \<le> 1025" using plain[OF q5 so5] by blast+
      then show ?thesis using False k(1) unfolding E by (auto split: option.splits)
    next
      assume D: "d \<noteq> 0 \<and> uspace d s5 ps5 \<and> pmap d (ram s5) = kernel_entry (l_data L) \<and> insert d (pages d s5 ps5) = set ps"
      obtain s6 where s6: "kprintf ''check elf header:OK\<newline>'' [] s5 = Some s6" "quiet s5 s6" "ram s6 = ram s5" "freelist s6 = freelist s5"
        by (rule say[of "''check elf header:OK\<newline>''" s5]) (simp_all add: cstr_def quietD(1)[OF q5])
      have q6: "quiet s4 s6" by (rule quiet_trans[OF q5 s6(2)])
      have U6: "uspace d s6 ps5" "pages d s6 ps5 = pages d s5 ps5" using D uspace_same[OF s6(3,4)] by simp_all
      have F6: "filled d (ram s6) 0" "mem_is d (ram s6) (\<lambda>_. 0)" "zero_from 0 (\<lambda>_. 0)"
        using D by (simp_all add: filled_def mem_is_def zero_from_def s6(3) kernel_entry_def)
      have R6: "readable ip s6" and C6: "contents ip s6 = c"
        using readable_quiet[OF quiet_trans[OF s4(2) q6] R3(1)] quietD(11)[OF quiet_trans[OF s4(2) q6]] R3(2) by simp_all
      have "(0 :: u32) < KERNBASE" by (simp add: KERNBASE_def)
      from exec_segments_ok[OF U6(1) R6 F6(1) this F6(2,3) C6, of "unat (e_phnum h)" "e_phoff h"] obtain z s7 ps7 where
        l: "exec_segments d ip (unat (e_phnum h)) (e_phoff h) 0 s6 = Some (z, s7)" "img_step d ?im 0 s6 ps5 z s7 ps7"
        by blast
      note A = img_stepD[OF l(2)]
      have p0: "pg_up 0 = 0" by (simp add: pg_up_def)
      have n5: "length ps \<le> 1025 + length ps5" using D by (intro new_space_pages[of d s5 ps5 "l_data L"] dp) simp_all
      have q7: "quiet s4 s7" by (rule quiet_trans[OF q6 A(1)])
      have pg: "insert d (pages d s7 ps7) = set ps" using D A(3) U6(2) by simp
      have "same_outside (set ps) (ram s6) (ram s7)" using A(4) D U6(2) by (simp add: inside_def)
      then have so7: "same_outside (set ps) (ram s) (ram s7)" using so5 unfolding s6(3) by (rule same_outside_trans[rotated])
      show ?thesis
      proof (cases z)
        case None
        then have "exec_fails I ps s (exec L ?path argv s)" using undo[OF q7 so7 A(2) pg] False D k(1) s6(1) l(1) unfolding E hdr(2) by simp
        moreover have "length ps \<le> 1025 + 2 * pg_up x" if "?im = Some (x, g)" for x g
          using A(6)[OF None that] n5 by (simp add: p0)
        ultimately show ?thesis unfolding ei by (auto split: option.splits)
      next
        case (Some x)
        obtain t' where t': "iunlockput ip s7 = Some t'" "intact I (set ps) s t'" "ram t' = ram s7" "freelist t' = freelist s7"
          using ret[OF q7 so7] by blast
        obtain g where g: "x < KERNBASE" "filled d (ram s7) x" "kernel_same d (ram s6) (ram s7)" "length ps5 \<le> length ps7 + 2 * (pg_up x - pg_up 0)"
          "?im = Some (x, g)" "mem_is d (ram s7) g" "zero_from x g" using A(5)[OF Some] by blast
        have "uspace d t' ps7" "insert d (pages d t' ps7) = set ps" using uspace_same[OF t'(3,4)] A(2) pg by simp_all
        moreover have "\<forall>v. KERNBASE \<le> v \<longrightarrow> pmap d (ram t') v = kernel_entry (l_data L) v"
          using g(3) D by (simp add: kernel_same_def s6(3) t'(3))
        moreover have "length ps \<le> 1025 + 2 * pg_up x + length ps7" using g(4) n5 by (simp add: p0)
        ultimately have "exec_loads I ps L p ?path argv (e_entry h, x, g) s (exec_commit L p ?path argv d (e_entry h) x t')"
          unfolding exec_loads_def prod.case t'(3)[symmetric]
          using t'(2) g(1,2,6,7)[folded t'(3)] by blast
        moreover have "exec L ?path argv s = exec_commit L p ?path argv d (e_entry h) x t'"
          using False D k(1) s6(1) l(1) t'(1) Some unfolding E hdr(2) by simp
        ultimately show ?thesis unfolding ei g(5) by simp
      qed
    qed
  qed
qed

end
