(* ===== verification/Exec_Commit.thy ===== *)
theory Exec_Commit
  imports Exec_Stack Exec_Ok
begin

text \<open>
  kernel/exec.c, past the point of no return: the stack and its guard page, the arguments, the switch of the process to the new address space
  and the end of the old one. Together with \<open>Exec_Ok\<close> this covers \<open>exec\<close> from the system call to the first instruction of the new program.
\<close>

unbundle bit_operations_syntax

section \<open>Room for the stack\<close>

lemma PGROUNDUP_user:
  assumes "z < KERNBASE"
  shows "unat (PGROUNDUP z) = 4096 * pg_up z" "unat z \<le> 4096 * pg_up z" "4096 * pg_up z < unat z + 4096" "4096 * pg_up z \<le> 2147483648"
proof -
  have z: "unat z < 2147483648" using assms by (simp add: word_less_nat_alt unat_KERNBASE)
  then show "unat (PGROUNDUP z) = 4096 * pg_up z" by (simp add: unat_PGROUNDUP pg_up_def)
  show "unat z \<le> 4096 * pg_up z" "4096 * pg_up z < unat z + 4096" unfolding pg_up_def by linarith+
  have "(unat z + 4095) div 4096 < 524289" using z by (simp add: div_less_iff_less_mult)
  then show "4096 * pg_up z \<le> 2147483648" by (simp add: pg_up_def)
qed

lemma below_up:
  assumes "z < KERNBASE"
  shows "PGROUNDDOWN v < PGROUNDUP z \<longleftrightarrow> PGROUNDDOWN v < z"
proof -
  note z = PGROUNDUP_user[OF assms]
  have "unat v div 4096 * 4096 < 4096 * pg_up z \<longleftrightarrow> unat v div 4096 * 4096 < unat z"
  proof
    assume "unat v div 4096 * 4096 < 4096 * pg_up z"
    then have "Suc (unat v div 4096) \<le> pg_up z" by linarith
    then have "4096 * Suc (unat v div 4096) \<le> 4096 * pg_up z" by simp
    then show "unat v div 4096 * 4096 < unat z" using z(3) by simp
  qed (use z(2) in linarith)
  then show ?thesis by (simp add: word_less_nat_alt z(1) unat_PGROUNDDOWN)
qed

lemma filled_up: "z < KERNBASE \<Longrightarrow> filled d m (PGROUNDUP z) = filled d m z" "z < KERNBASE \<Longrightarrow> zero_from (PGROUNDUP z) g = zero_from z g"
  by (simp_all add: filled_def zero_from_def below_up)

definition stack_top :: "u32 \<Rightarrow> u32" where
  "stack_top z = PGROUNDUP z + 2 * PGSIZE"

lemma unat_stack_top: "z < KERNBASE \<Longrightarrow> unat (stack_top z) = 4096 * pg_up z + 8192"
  using PGROUNDUP_user[of z] by (simp add: stack_top_def unat_word_ariths PGSIZE_mask mask_eq_exp_minus_1)

lemma pg_up_top: "z < KERNBASE \<Longrightarrow> pg_up (PGROUNDUP z) = pg_up z" "z < KERNBASE \<Longrightarrow> pg_up (stack_top z) = pg_up z + 2"
  using PGROUNDUP_user[of z] unat_stack_top[of z] by (simp_all add: pg_up_def[of "PGROUNDUP z"] pg_up_def[of "stack_top z"])

lemma stack_space:
  assumes U: "uspace d t ps" and F: "filled d (ram t) z" "mem_is d (ram t) g" "zero_from z g" and z: "z < KERNBASE" and bio: "bio_ok t"
  shows "\<exists>q t' ps'. allocuvm d (PGROUNDUP z) (stack_top z) t = Some (case q of None \<Rightarrow> 0 | Some x \<Rightarrow> x, t')
    \<and> img_step d (if stack_top z < KERNBASE then Some (stack_top z, g) else None) (PGROUNDUP z) t ps q t' ps'"
proof (cases "PGROUNDUP z < KERNBASE")
  case True
  have "PGROUNDUP z \<le> stack_top z" using PGROUNDUP_user(1)[OF z] unat_stack_top[OF z] by (simp add: word_le_nat_alt)
  then have e: "(if KERNBASE \<le> stack_top z then None else Some (max (PGROUNDUP z) (stack_top z), g))
      = (if stack_top z < KERNBASE then Some (stack_top z, g) else None)" by (auto simp: max.absorb2 not_le)
  show ?thesis using grow_any[OF U _ True F(2) _ bio, of "stack_top z"] F(1,3) unfolding e filled_up[OF z] by blast
next
  case False
  then have k: "KERNBASE \<le> stack_top z" using PGROUNDUP_user(1)[OF z] unat_stack_top[OF z] by (simp add: word_less_nat_alt word_le_nat_alt)
  then have "img_step d (if stack_top z < KERNBASE then Some (stack_top z, g) else None) (PGROUNDUP z) t ps None t ps"
    using U by (intro img_step_stop quiet_refl bio) (auto simp: not_less split: if_splits)
  then show ?thesis using k by (intro exI[of _ None] exI[of _ t] exI[of _ ps]) (simp add: allocuvm_def)
qed

text \<open>The page below the stack belongs to the process, but the user cannot touch it.\<close>

definition guarded :: "u32 \<Rightarrow> (nat \<Rightarrow> u8) \<Rightarrow> u32 \<Rightarrow> bool" where
  "guarded d m a \<longleftrightarrow> (\<forall>v<KERNBASE. (present (pmap d m v) \<longleftrightarrow> PGROUNDDOWN v < a + 2 * PGSIZE)
     \<and> (PGROUNDDOWN v < a + 2 * PGSIZE \<longrightarrow> umapped d m v = (PGROUNDDOWN v \<noteq> a)))"

lemma guard_page:
  assumes U: "uspace d s ps" and F: "filled d (ram s) (stack_top z)" "mem_is d (ram s) g" and z: "stack_top z < KERNBASE" "z < KERNBASE"
  shows "\<exists>s'. clearpteu d (stack_top z - 2 * PGSIZE) s = Some s' \<and> uspace d s' ps \<and> pages d s' ps = pages d s ps \<and> mem_frame s s' \<and> inside d s ps s'
    \<and> guarded d (ram s') (PGROUNDUP z) \<and> mem_is d (ram s') g \<and> kernel_same d (ram s) (ram s')"
proof -
  let ?a = "PGROUNDUP z"
  have a: "page_al ?a" "?a < KERNBASE" "?a < stack_top z"
    using PGROUNDUP_user(1)[OF z(2)] unat_stack_top[OF z(2)] z(1) by (simp_all add: word_less_nat_alt)
  have ga: "PGROUNDDOWN ?a = ?a" using a(1) same_page_iff[OF a(1), of ?a] by simp
  have p: "present (pmap d (ram s) ?a)" using F(1) a(2,3) ga unfolding filled_def by simp
  obtain s' where s': "clearpteu d ?a s = Some s'" "uspace d s' ps" "pages d s' ps = pages d s ps" "mem_frame s s'" "inside d s ps s'"
    "pmap d (ram s') = (\<lambda>v. if PGROUNDDOWN v = ?a then pmap d (ram s) v AND NOT PTE_U else pmap d (ram s) v)"
    "\<forall>v<KERNBASE. present (pmap d (ram s) v) \<longrightarrow> user_byte d (ram s') v = user_byte d (ram s) v"
    using clearpteu_ok[OF U a(1,2) p] by blast
  have same: "present (pmap d (ram s') v) = present (pmap d (ram s) v)" for v by (simp add: s'(6) clear_user)
  have um: "umapped d (ram s') v = (umapped d (ram s) v \<and> PGROUNDDOWN v \<noteq> ?a)" for v
    by (simp add: umapped_def s'(6) clear_user)
  have "guarded d (ram s') ?a" using F(1) unfolding guarded_def filled_def um same stack_top_def[symmetric] by blast
  moreover have "mem_is d (ram s') g" using F(2) s'(7) by (simp add: mem_is_def same)
  moreover have "kernel_same d (ram s) (ram s')"
  proof -
    have "PGROUNDDOWN v \<noteq> ?a" if "KERNBASE \<le> v" for v
    proof
      assume "PGROUNDDOWN v = ?a"
      then have "PGROUNDDOWN v < KERNBASE" using a(2) by simp
      then show False using that by (simp add: PGROUNDDOWN_user)
    qed
    then show ?thesis by (simp add: kernel_same_def s'(6))
  qed
  moreover have "stack_top z - 2 * PGSIZE = ?a" by (simp add: stack_top_def)
  ultimately show ?thesis using s'(1-5) by (simp only:) blast
qed

section \<open>What is on the stack\<close>

text \<open>The arguments, each with its zero and aligned to words, and below them return address, \<open>argc\<close>, \<open>argv\<close> and the argument pointers
  with a null.\<close>

definition args_size :: "u8 list list \<Rightarrow> nat" where
  "args_size bss = sum_list (map (\<lambda>b. (length b + 4) div 4 * 4) bss)"

definition stack_size :: "u8 list list \<Rightarrow> nat" where
  "stack_size bss = args_size bss + 4 * (length bss + 4)"

lemma arg_base_size: "4 dvd sp \<Longrightarrow> args_size bss \<le> sp \<Longrightarrow> arg_base sp bss = sp - args_size bss"
proof (induction bss arbitrary: sp)
  case (Cons b bss)
  obtain k where k: "sp = 4 * k" using Cons.prems(1) by (rule dvdE)
  define m where "m = (length b + 4) div 4"
  have m: "4 * m \<le> length b + 4" "length b + 4 < 4 * m + 4" by (simp_all add: m_def)
  have le: "4 * m + args_size bss \<le> sp" using Cons.prems(2) by (simp add: args_size_def m_def)
  have "(sp - (length b + 1)) div 4 = k - m" using m le unfolding k by (intro div_nat_eqI) auto
  then have e: "(sp - (length b + 1)) div 4 * 4 = sp - 4 * m" using k by simp
  have "4 dvd sp - 4 * m" "args_size bss \<le> sp - 4 * m" using k le by auto
  then have "arg_base (sp - 4 * m) bss = sp - 4 * m - args_size bss" by (rule Cons.IH)
  moreover have "args_size (b # bss) = 4 * m + args_size bss" by (simp add: args_size_def m_def)
  ultimately show ?case unfolding arg_base_simps e by simp
qed (simp add: args_size_def)

lemma arg_addrs_ge: "q \<in> set (arg_addrs sp bss) \<Longrightarrow> arg_base sp bss \<le> q \<and> q \<le> sp"
proof (induction bss arbitrary: sp)
  case (Cons b bss)
  let ?q = "(sp - (length b + 1)) div 4 * 4"
  have "?q \<le> sp - (length b + 1)" by (rule div_times_less_eq_dividend)
  then have q: "?q \<le> sp" by simp
  then show ?case using Cons.prems Cons.IH[of ?q] arg_base_le[of ?q bss] by (auto simp: Let_def)
qed simp

text \<open>A string starts at its address and ends below the one before it.\<close>

lemma arg_addrs_end: "i < length bss \<Longrightarrow> 0 < arg_base sp bss \<Longrightarrow> arg_addrs sp bss ! i + Suc (length (bss ! i)) \<le> sp"
proof (induction bss arbitrary: sp i)
  case (Cons b bss)
  let ?q = "(sp - (length b + 1)) div 4 * 4"
  have "?q \<le> sp - (length b + 1)" by (rule div_times_less_eq_dividend)
  moreover have "0 < ?q" using Cons.prems(2) arg_base_le[of ?q bss] by simp
  ultimately have q: "?q + Suc (length b) \<le> sp" by simp
  show ?case
  proof (cases i)
    case (Suc j)
    then show ?thesis using Cons.IH[of j ?q] Cons.prems q by (simp add: Let_def)
  qed (use q in \<open>simp add: Let_def\<close>)
qed simp

definition strings_stay :: "u32 \<Rightarrow> (nat \<Rightarrow> u8) \<Rightarrow> (nat \<Rightarrow> u8) \<Rightarrow> nat \<Rightarrow> nat \<Rightarrow> bool" where
  "strings_stay d m m' lo hi \<longleftrightarrow> (\<forall>v. lo \<le> unat v \<longrightarrow> unat v < hi \<longrightarrow> user_byte d m' v = user_byte d m v)"

lemma user_bytes_stay:
  assumes "strings_stay d m m' lo hi" "lo \<le> q" "q + n \<le> hi" "hi \<le> 2147483648"
  shows "user_bytes d m' (of_nat q) n = user_bytes d m (of_nat q) n"
  unfolding user_bytes_def
proof (intro map_cong refl)
  fix i assume "i \<in> set [0..<n]"
  then have i: "i < n" by simp
  have "unat (of_nat q + of_nat i :: u32) = q + i" using assms(2-4) i by (simp add: unat_word_ariths unat_of_nat)
  then show "user_byte d m' (of_nat q + of_nat i) = user_byte d m (of_nat q + of_nat i)"
    using assms i unfolding strings_stay_def by simp
qed

lemma strings_at_stay:
  assumes S: "strings_at d m (arg_addrs sp bss) bss" and st: "strings_stay d m m' (arg_base sp bss) sp" and "0 < arg_base sp bss" "sp \<le> 2147483648"
  shows "strings_at d m' (arg_addrs sp bss) bss"
  unfolding strings_at_def
proof (rule list_all2_all_nthI)
  fix i assume "i < length (arg_addrs sp bss)"
  then have i: "i < length bss" by simp
  let ?q = "arg_addrs sp bss ! i"
  have "?q \<in> set (arg_addrs sp bss)" using i by simp
  then have "arg_base sp bss \<le> ?q" using arg_addrs_ge by blast
  then have "user_bytes d m' (of_nat ?q) (Suc (length (bss ! i))) = user_bytes d m (of_nat ?q) (Suc (length (bss ! i)))"
    by (rule user_bytes_stay[OF st _ arg_addrs_end[OF i assms(3)] assms(4)])
  then show "user_bytes d m' (of_nat ?q) (Suc (length (bss ! i))) = bss ! i @ [0]"
    using S i by (simp add: strings_at_def list_all2_conv_all_nth)
qed simp

section \<open>Building the stack\<close>

definition stack_words :: "nat \<Rightarrow> u8 list list \<Rightarrow> u8 list" where
  "stack_words hi bss = enc_words ([0xFFFFFFFF, of_nat (length bss), of_nat (hi - stack_size bss + 12)] @ map of_nat (arg_addrs hi bss) @ [0])"

lemma stack_words_eq:
  assumes "stack_size bss \<le> hi"
  shows "stack_words hi bss = enc_words (user_stack (of_nat (hi - args_size bss)) (map of_nat (arg_addrs hi bss)))"
    "of_nat (hi - args_size bss) - (3 + of_nat (length bss) + 1) * 4 = (of_nat (hi - stack_size bss) :: u32)"
proof -
  have a: "hi - args_size bss = hi - stack_size bss + 4 * (length bss + 4)" using assms by (simp add: stack_size_def)
  have "(of_nat (hi - args_size bss) :: u32) = of_nat (hi - stack_size bss) + 4 * (of_nat (length bss) + 4)" unfolding a by simp
  then have h: "(of_nat (hi - args_size bss) :: u32) = of_nat (hi - stack_size bss) + 16 + 4 * of_nat (length bss)" by simp
  show "stack_words hi bss = enc_words (user_stack (of_nat (hi - args_size bss)) (map of_nat (arg_addrs hi bss)))"
    unfolding h by (simp add: stack_words_def user_stack_def)
  show "of_nat (hi - args_size bss) - (3 + of_nat (length bss) + 1) * 4 = (of_nat (hi - stack_size bss) :: u32)" unfolding h by simp
qed

lemma build_stack:
  fixes s :: "'a kern_scheme"
  assumes B: "beside d0 d s ps" and cr: "cr3 s = V2P d0" and bio: "bio_ok s"
    and K: "\<forall>v. KERNBASE \<le> v \<longrightarrow> \<not> umapped d (ram s) v" and G: "guarded d (ram s) (PGROUNDUP z)"
    and z: "z < KERNBASE" "stack_top z < KERNBASE"
    and args: "list_all2 (user_string s) as bss" "0 \<notin> set as" "length bss \<le> MAXARG" and size: "stack_size bss \<le> 4096"
  defines "hi \<equiv> unat (stack_top z)"
  shows "\<exists>s3 s4. exec_args d (as @ 0 # r) (stack_top z) [] s = Some (Some (of_nat (hi - args_size bss), map of_nat (arg_addrs hi bss)), s3)
    \<and> copyout d (of_nat (hi - stack_size bss)) (stack_words hi bss) (of_nat (4 * (length bss + 4))) s3 = Some (0, s4)
    \<and> stored_to d ps (hi - 4096) 4096 s s4 \<and> user_bytes d (ram s4) (of_nat (hi - stack_size bss)) (4 * (length bss + 4)) = stack_words hi bss
    \<and> strings_at d (ram s4) (arg_addrs hi bss) bss"
proof -
  have hi: "hi = 4096 * pg_up z + 8192" "hi < 2147483648" using unat_stack_top[OF z(1)] z(2) by (simp_all add: hi_def word_less_nat_alt unat_KERNBASE)
  have d4: "4 dvd hi" unfolding hi(1) by (intro dvd_add) (auto intro: dvd_mult2)
  have sz: "args_size bss + 4 * (length bss + 4) \<le> 4096" using size by (simp add: stack_size_def)
  then have base: "arg_base hi bss = hi - args_size bss" using hi(1) by (intro arg_base_size[OF d4]) simp
  have um: "\<forall>v. hi - 4096 \<le> unat v \<longrightarrow> unat v < hi \<longrightarrow> umapped d (ram s) v"
  proof (intro allI impI)
    fix v :: u32 assume v: "hi - 4096 \<le> unat v" "unat v < hi"
    have ge: "4096 * pg_up z + 4096 \<le> unat v" using v(1) hi(1) by simp
    have "unat (PGROUNDDOWN v) = unat v div 4096 * 4096" by (rule unat_PGROUNDDOWN)
    then have "4096 * pg_up z < unat (PGROUNDDOWN v)" "unat (PGROUNDDOWN v) < hi" using ge v(2) by linarith+
    then have "PGROUNDDOWN v \<noteq> PGROUNDUP z" "PGROUNDDOWN v < PGROUNDUP z + 2 * PGSIZE"
      using PGROUNDUP_user(1)[OF z(1)] by (auto simp: word_less_nat_alt hi_def stack_top_def)
    moreover have "v < KERNBASE" using v(2) hi(2) by (simp add: word_less_nat_alt unat_KERNBASE)
    ultimately show "umapped d (ram s) v" using G unfolding guarded_def by blast
  qed
  have b1: "hi - 4096 \<le> arg_base hi bss" "0 < hi - 4096" "hi \<le> 2147483648" using base sz hi by simp_all
  have l: "length [] + length bss \<le> MAXARG" using args(3) by simp
  obtain s3 where s3: "exec_args d (as @ 0 # r) (stack_top z) [] s = Some (Some (of_nat (arg_base hi bss), map of_nat (arg_addrs hi bss)), s3)"
    "stored_to d ps (arg_base hi bss) (hi - arg_base hi bss) s s3" "strings_at d (ram s3) (arg_addrs hi bss) bss"
    using exec_args_ok[OF B cr bio K args(1,2) l, of "stack_top z" hi "hi - 4096" r, folded hi_def] b1 um by auto
  note S3 = stored_toD[OF s3(2)]
  have um3: "umapped d (ram s3) = umapped d (ram s)" by (rule umapped_cong[OF S3(4)])
  let ?n = "4 * (length bss + 4)"
  let ?sp = "of_nat (hi - stack_size bss) :: u32"
  have usp: "unat ?sp = hi - stack_size bss" using hi(2) by (simp add: unat_of_nat)
  have un: "unat (of_nat ?n :: u32) = ?n" using sz by (simp add: unat_of_nat del: of_nat_mult of_nat_add)
  have len: "length (stack_words hi bss) = ?n" by (simp add: stack_words_def)
  have sp: "hi - 4096 \<le> hi - stack_size bss" "hi - stack_size bss + ?n = hi - args_size bss" using sz hi(1) by (simp_all add: stack_size_def)
  have um4: "\<forall>v. unat ?sp \<le> unat v \<longrightarrow> unat v < unat ?sp + unat (of_nat ?n :: u32) \<longrightarrow> umapped d (ram s3) v"
    unfolding usp un um3 using um sp by auto
  have fit: "unat ?sp + unat (of_nat ?n :: u32) \<le> 2147483648" unfolding usp un sp(2) using hi(2) by simp
  have ln: "unat (of_nat ?n :: u32) \<le> length (stack_words hi bss)" unfolding un len ..
  have K3: "\<forall>v. KERNBASE \<le> v \<longrightarrow> \<not> umapped d (ram s3) v" using K by (simp add: um3)
  obtain s4 where s4: "copyout d ?sp (stack_words hi bss) (of_nat ?n) s3 = Some (0, s4)" "stored_to d ps (hi - stack_size bss) ?n s3 s4"
    "user_bytes d (ram s4) ?sp ?n = stack_words hi bss"
    using copyout_user[OF S3(2) quietD(1)[OF S3(1)] K3 ln fit um4, unfolded usp un take_all[OF eq_refl[OF len]]] by blast
  note S4 = stored_toD[OF s4(2)]
  have "stored_to d ps (hi - 4096) 4096 s s4"
  proof -
    have "stored_to d ps (hi - 4096) 4096 s s3" using s3(2) b1(1) base hi(1) arg_base_le[of hi bss] unfolding stored_to_def by auto
    then show ?thesis by (rule stored_to_trans[OF _ s4(2)]) (use sp sz hi(1) in auto)
  qed
  moreover have "strings_stay d (ram s3) (ram s4) (arg_base hi bss) hi"
    unfolding strings_stay_def
  proof (intro allI impI)
    fix v :: u32 assume v: "arg_base hi bss \<le> unat v" "unat v < hi"
    have "v < KERNBASE" using v(2) hi(2) by (simp add: word_less_nat_alt unat_KERNBASE)
    moreover have "present (pmap d (ram s3) v)" using um v b1(1) by (simp add: S3(4) umapped_def)
    moreover have "\<not> (hi - stack_size bss \<le> unat v \<and> unat v < hi - stack_size bss + ?n)" using v(1) unfolding sp(2) base by simp
    ultimately show "user_byte d (ram s4) v = user_byte d (ram s3) v" by (rule S4(5))
  qed
  then have "strings_at d (ram s4) (arg_addrs hi bss) bss" by (rule strings_at_stay[OF s3(3)]) (use b1 in simp_all)
  ultimately show ?thesis using s3(1) s4(1,3) unfolding base by blast
qed

section \<open>The switch to the new memory\<close>

text \<open>What lies below memory management is as before.\<close>

definition kept :: "'a kern_scheme \<Rightarrow> 'a kern_scheme \<Rightarrow> bool" where
  "kept s t \<longleftrightarrow> bio_ok t = bio_ok s \<and> pins t = pins s \<and> blocks t = blocks s \<and> sb t = sb s \<and> icache t = icache s
     \<and> devsw t = devsw s \<and> ftable t = ftable s"

lemma keptD:
  assumes "kept s t"
  shows "bio_ok t = bio_ok s" "blocks t = blocks s" "sb t = sb s" "icache t = icache s" "devsw t = devsw s" "ftable t = ftable s"
    "walking t I = walking s I"
  using assms by (simp_all add: kept_def walking_def synced_def bc.room_def)

lemma kept_trans: "kept s t \<Longrightarrow> kept t u \<Longrightarrow> kept s u"
  by (simp add: kept_def)

lemma kept_frame: "mem_frame s t \<Longrightarrow> kept s t"
  by (simp add: mem_frame_def kept_def)

lemma kept_quiet: "bio_ok s \<Longrightarrow> quiet s t \<Longrightarrow> kept s t"
  by (simp add: quiet_def kept_def)

lemma kept_bufs:
  assumes "bufs t = bufs s" "disk t = disk s" "env_ok t = env_ok s" "sb t = sb s" "icache t = icache s" "devsw t = devsw s" "ftable t = ftable s"
  shows "kept s t"
  using assms bio_ok_same[OF assms(1-3)] by (simp add: kept_def pins_def fun_eq_iff)

lemma kept_proc: "kept s (upd_proc p f s)" and kept_mem: "kept s (wr_mem a w s)"
  by (rule kept_bufs; simp add: upd_proc_def wr_mem_def env_ok_def ata_live_def ata_clean_def)+

lemma kept_switch:
  assumes "p_kstack (ptable s p) \<noteq> 0" "p_pgdir (ptable s p) \<noteq> 0"
  obtains t where "switchuvm L (Some p) s = Some t" "kept s t" "ptable t = ptable s" "ram t = ram s" "freelist t = freelist s"
    "cr3 t = V2P (p_pgdir (ptable s p))" "ts_esp0 (ts t) = p_kstack (ptable s p) + KSTACKSIZE" "curproc t = curproc s"
proof -
  obtain t where t: "switchuvm L (Some p) s = Some t"
    using assms by (simp add: switchuvm_def Let_def)
  then have d: "t = sti (lcr3 (V2P (p_pgdir (ptable s p))) (ltr (push_bit 3 (of_nat SEG_TSS)) ((cli s)\<lparr>gdt := (gdt s)(SEG_TSS := (SEG16 STS_T32A (l_ts L) (104 - 1) 0)\<lparr>seg_s := 0\<rparr>),
      ts := (ts s)\<lparr>ts_ss0 := push_bit 3 (of_nat SEG_KDATA), ts_esp0 := p_kstack (ptable s p) + KSTACKSIZE, ts_iomb := 0xFFFF\<rparr>\<rparr>)))"
    using assms by (simp add: switchuvm_def Let_def cli_def)
  have "kept s t" by (rule kept_bufs; simp add: d sti_def lcr3_def ltr_def cli_def env_ok_def ata_live_def ata_clean_def)
  from that[OF t this] show ?thesis by (simp add: d sti_def lcr3_def ltr_def cli_def)
qed

text \<open>The name of a process is the last element of the path, as far as it fits.\<close>

definition base_name :: "u8 list \<Rightarrow> u8 list" where
  "base_name pp = rev (takeWhile (\<lambda>c. c \<noteq> 47) (rev pp))"

lemma last_elem_name:
  assumes "0 \<notin> set pp"
  shows "last_elem lst (pp @ 0 # r) = (if 47 \<in> set pp then base_name pp @ 0 # r else lst)"
  using assms
proof (induction pp arbitrary: lst)
  case (Cons c pp)
  have b: "base_name (c # pp) = (if 47 \<in> set pp then base_name pp else if c = 47 then pp else c # pp)"
  proof (cases "47 \<in> set pp")
    case True
    then show ?thesis by (simp add: base_name_def takeWhile_append1)
  next
    case False
    then have "takeWhile (\<lambda>c. c \<noteq> 47) (rev pp) = rev pp" by (auto simp: takeWhile_eq_all_conv)
    then show ?thesis using False by (simp add: base_name_def takeWhile_append)
  qed
  have "last_elem lst ((c # pp) @ 0 # r) = last_elem (if c = 47 then pp @ 0 # r else lst) (pp @ 0 # r)" using Cons.prems by simp
  then show ?case using Cons.IH[of "if c = 47 then pp @ 0 # r else lst"] Cons.prems unfolding b by auto
qed simp

lemma base_name_str: "0 \<notin> set pp \<Longrightarrow> str_of (last_elem (pp @ 0 # r) (pp @ 0 # r)) = base_name pp"
  "0 \<notin> set pp \<Longrightarrow> terminated (last_elem (pp @ 0 # r) (pp @ 0 # r))"
proof -
  assume z: "0 \<notin> set pp"
  have w: "takeWhile (\<lambda>c. c \<noteq> 47) (rev pp) = rev pp" if "47 \<notin> set pp" using that by (auto simp: takeWhile_eq_all_conv)
  have e: "last_elem (pp @ 0 # r) (pp @ 0 # r) = base_name pp @ 0 # r"
    using last_elem_name[OF z, of "pp @ 0 # r" r] by (cases "47 \<in> set pp") (simp_all add: base_name_def w)
  have "0 \<notin> set (base_name pp)" using z by (auto simp: base_name_def dest: set_takeWhileD)
  then show "str_of (last_elem (pp @ 0 # r) (pp @ 0 # r)) = base_name pp" unfolding e by (rule str_of_append)
  show "terminated (last_elem (pp @ 0 # r) (pp @ 0 # r))" unfolding e by (simp add: terminated_def)
qed

lemma say_name:
  fixes s :: "'a kern_scheme"
  obtains t where "kprintf ''load elf proc:%s\<newline>'' [KStr nm] s = Some t" "mem_frame s t" "ram t = ram s" "freelist t = freelist s"
proof -
  obtain t where t: "kprintf ''load elf proc:%s\<newline>'' [KStr nm] s = Some t" by (simp add: kprintf_def cstr_def)
  note f = screen_frame_kprintf[OF t]
  show ?thesis by (rule that[OF t mem_frame_screen[OF f]]) (use screen_frame_kmem[OF f] in simp_all)
qed


section \<open>The point of no return\<close>

text \<open>The kernel stack of a process: a page of its own, with the trap frame at its end.\<close>

definition kstack_ok :: "process \<Rightarrow> u32 \<Rightarrow> bool" where
  "kstack_ok x k \<longleftrightarrow> p_kstack x = k \<and> p_tf x = k + (KSTACKSIZE - TF_SIZE) \<and> page_al k \<and> k \<noteq> 0 \<and> length (p_name x) = 16"

definition switched :: "nat \<Rightarrow> u32 \<Rightarrow> u32 \<Rightarrow> u8 list \<Rightarrow> u32 \<Rightarrow> u32 \<Rightarrow> u32 \<Rightarrow> 'a kern_scheme \<Rightarrow> u32 list \<Rightarrow> 'a kern_scheme \<Rightarrow> u32 list \<Rightarrow> bool" where
  "switched p k d pp eip sz sp s qs t rs \<longleftrightarrow> kept s t \<and> curproc t = curproc s \<and> cr3 t = V2P d
     \<and> (\<exists>nm. str_of nm = take 15 (base_name pp) \<and> ptable t = (ptable s)(p := (ptable s p)\<lparr>p_name := nm, p_pgdir := d, p_sz := sz\<rparr>))
     \<and> rd_mem (p_tf (ptable s p) + TF_EIP) t = eip \<and> rd_mem (p_tf (ptable s p) + TF_ESP) t = sp
     \<and> uspace d t rs \<and> unchanged d s t \<and> set rs = space (p_pgdir (ptable s p)) (ram s) \<union> set qs
     \<and> same_outside (insert k (set rs)) (ram s) (ram t)"

lemma exec_switch_ok:
  fixes s :: "'a kern_scheme"
  assumes B: "beside od d s qs" and p: "p_pgdir (ptable s p) = od" "od \<noteq> KERNBASE" and K: "kstack_ok (ptable s p) k"
    and k: "k \<notin> space od (ram s) \<union> space d (ram s) \<union> set qs" and bio: "bio_ok s" and pp: "0 \<notin> set pp"
  shows "\<exists>t rs. exec_switch L p (pp @ 0 # r) d eip sz sp s = Some (0, t) \<and> switched p k d pp eip sz sp s qs t rs"
proof -
  note b = besideD[OF B]
  have ks: "p_kstack (ptable s p) = k" "p_tf (ptable s p) = k + 4020" "page_al k" "k \<noteq> 0" "length (p_name (ptable s p)) = 16"
    using K by (simp_all add: kstack_ok_def KSTACKSIZE_def TF_SIZE_def)
  let ?pr = "ptable s p" and ?path = "pp @ 0 # r"
  obtain nm where nm: "safestrcpy (p_name ?pr) (last_elem ?path ?path) 16 = Some nm" "str_of nm = take 15 (base_name pp)"
    using safestrcpy_ok[of 16 "p_name ?pr" "last_elem ?path ?path"] ks(5) base_name_str[OF pp, of r] by auto
  define s1 where "s1 = upd_proc p (\<lambda>x. x\<lparr>p_name := nm, p_pgdir := d, p_sz := sz\<rparr>) s"
  define s3 where "s3 = wr_mem (k + 4088) sp (wr_mem (k + 4076) eip s1)"
  have un: "unat (k + 4076) = unat k + 4076" "unat (k + 4088) = unat k + 4088"
    using page_al_bound[OF ks(3)] by (simp_all add: unat_word_ariths)
  have m3: "ram s3 = st32 (unat k + 4088) sp (st32 (unat k + 4076) eip (ram s))" by (simp add: s3_def s1_def wr_mem_def un upd_proc_def)
  have so3: "same_outside {k} (ram s) (ram s3)" unfolding m3 by (rule same_outside_trans[OF same_outside_st32 same_outside_st32]) simp_all
  have w3: "ld32 (ram s3) (unat k + 4088) = sp" "ld32 (ram s3) (unat k + 4076) = eip" by (simp_all add: m3 ld32_st32_other)
  have k3: "kept s s3" unfolding s3_def s1_def by (rule kept_trans[OF kept_trans[OF kept_proc kept_mem] kept_mem])
  have f3: "ptable s3 = (ptable s)(p := ?pr\<lparr>p_name := nm, p_pgdir := d, p_sz := sz\<rparr>)" "curproc s3 = curproc s" "freelist s3 = freelist s"
    by (simp_all add: s3_def s1_def wr_mem_def upd_proc_def)
  obtain s4 where s4: "kprintf ''load elf proc:%s\<newline>'' [KStr (str_of nm)] s3 = Some s4" "mem_frame s3 s4" "ram s4 = ram s3" "freelist s4 = freelist s3"
    by (rule say_name)
  have f4: "ptable s4 = ptable s3" "curproc s4 = curproc s3" using s4(2) unfolding mem_frame_def by (cases s3; cases s4; simp)+
  have d0: "d \<noteq> 0" "od \<noteq> 0" using vm_okD(3)[OF uspaceD(1)[OF b(1)]] vm_okD(3)[OF uspaceD(1)[OF b(2)]] by auto
  have "p_kstack (ptable s4 p) \<noteq> 0" "p_pgdir (ptable s4 p) \<noteq> 0" using ks(1,4) d0 by (simp_all add: f4 f3)
  then obtain s5 where s5: "switchuvm L (Some p) s4 = Some s5" "kept s4 s5" "ptable s5 = ptable s4" "ram s5 = ram s4" "freelist s5 = freelist s4"
    "cr3 s5 = V2P (p_pgdir (ptable s4 p))" "curproc s5 = curproc s4" by (rule kept_switch)
  have m5: "ram s5 = ram s3" "freelist s5 = freelist s" by (simp_all add: s5(4,5) s4(3,4) f3)
  have so5: "same_outside {k} (ram s) (ram s5)" using so3 by (simp add: m5)
  have al: "\<forall>q\<in>{k}. page_al q" using ks(3) by simp
  have fp: "free_pages s5 qs" by (rule free_pages_cong[OF vm_okD(1)[OF uspaceD(1)[OF b(1)]] so5 al]) (use k m5 in auto)
  have kb: "KERNBASE \<notin> set qs" using uspaceD(4)[OF b(1)] by (auto simp: pages_def own_def)
  have dj: "set qs \<inter> space od (ram s) = {}" "set qs \<inter> space d (ram s) = {}" using space_free[OF b(1)] space_free[OF b(2)] by auto
  have "{k} \<inter> space od (ram s) = {}" "{k} \<inter> space d (ram s) = {}" using k by auto
  note O = uspace_keep[OF b(2) so5 al this(1) fp dj(1) kb] and D = uspace_keep[OF b(1) so5 al this(2) fp dj(2) kb]
  obtain s6 rs where s6: "freevm od s5 = Some s6" "free_pages s6 rs" "set rs = insert od (pages od s5 qs)" "mem_frame s5 s6" "inside od s5 qs s6"
    using freevm_ok[OF O(1)] by blast
  have rs: "set rs = space od (ram s) \<union> set qs" using s6(3) space_pages[of od s5 qs] O(3) by simp
  have so6: "same_outside (set rs) (ram s5) (ram s6)" using s6(3,5) by (simp add: inside_def)
  have al6: "\<forall>q\<in>set rs. page_al q" using free_pagesD(1)[OF s6(2)] by blast
  have dj6: "set rs \<inter> space d (ram s5) = {}" unfolding rs D(3) using b(3) dj(2) by auto
  have kb6: "KERNBASE \<notin> set rs" unfolding rs using kb space_KERNBASE[OF b(2)] p(2) by (auto simp: space_def)
  note E = uspace_keep[OF D(1) so6 al6 dj6 s6(2) dj6 kb6]
  have f6: "ptable s6 = ptable s5" "curproc s6 = curproc s5" "cr3 s6 = cr3 s5" using s6(4) unfolding mem_frame_def by (cases s5; cases s6; simp)+
  have kn: "k \<notin> set rs" unfolding rs using k by auto
  have "ld32 (ram s6) (unat k + 4088) = sp" "ld32 (ram s6) (unat k + 4076) = eip"
    using ld32_outside[OF so6 ks(3) kn al6, of 4088] ld32_outside[OF so6 ks(3) kn al6, of 4076] w3 by (simp_all add: m5)
  then have frame: "rd_mem (p_tf ?pr + TF_EIP) s6 = eip" "rd_mem (p_tf ?pr + TF_ESP) s6 = sp"
    by (simp_all add: rd_mem_def ks(2) TF_EIP_def TF_ESP_def un add.assoc)
  have "unchanged d s s6" using D E by (simp add: unchanged_def)
  moreover have "kept s s6" by (rule kept_trans[OF k3 kept_trans[OF kept_frame[OF s4(2)] kept_trans[OF s5(2) kept_frame[OF s6(4)]]]])
  moreover have "same_outside (insert k (set rs)) (ram s) (ram s6)"
    by (rule same_outside_trans[OF same_outside_mono[OF so5] same_outside_mono[OF so6]]) auto
  moreover have "cr3 s6 = V2P d" by (simp add: f6 s5(6) f4 f3)
  ultimately have "switched p k d pp eip sz sp s qs s6 rs"
    unfolding switched_def using nm(2) f3 f4 f6 s5(3,7) frame E(1) rs p(1) by auto
  moreover have "exec_switch L p ?path d eip sz sp s = Some (0, s6)"
  proof -
    have "p_tf (ptable s1 p) = k + 4020" "p_tf (ptable (wr_mem (k + 4076) eip s1) p) = k + 4020"
      by (simp_all add: s1_def upd_proc_def wr_mem_def ks(2))
    then have "exec_switch L p ?path d eip sz sp s = do {
        s4 \<leftarrow> kprintf ''load elf proc:%s\<newline>'' [KStr (str_of nm)] s3; s5 \<leftarrow> switchuvm L (Some p) s4; s6 \<leftarrow> freevm od s5; Some (0, s6) }"
      unfolding exec_switch_def by (simp add: nm(1) p(1) s1_def[symmetric] Let_def TF_EIP_def TF_ESP_def ks(2) add.assoc s3_def)
    then show ?thesis by (simp add: s4(1) s5(1) s6(1))
  qed
  ultimately show ?thesis by blast
qed

text \<open>Before it, everything can be given back.\<close>

lemma give_back_space:
  fixes s t u :: "'a kern_scheme"
  assumes I: "intact I (set ps) s t" and q: "quiet t u" and so: "same_outside (set ps) (ram t) (ram u)"
    and U: "uspace d u qs" "insert d (pages d u qs) = set ps"
  shows "exec_fails I ps s (exec_bad d None u)"
proof -
  obtain v rs where v: "freevm d u = Some v" "free_pages v rs" "set rs = set ps" "mem_frame u v" "inside d u qs v"
    using freevm_ok[OF U(1)] U(2) by auto
  have q2: "quiet t v" by (rule quiet_trans[OF q quiet_mem[OF quietD(1)[OF q] v(4)]])
  note Q = quietD[OF q2]
  have so2: "same_outside (set ps) (ram u) (ram v)" using v(5) U(2) by (simp add: inside_def)
  have "same_outside (set ps) (ram s) (ram t)" using I by (simp add: intact_def)
  then have "same_outside (set ps) (ram s) (ram v)" by (rule same_outside_trans[OF _ same_outside_trans[OF so so2]])
  then have "intact I (set ps) s v" using I Q walking_quiet[OF q2, of I] by (simp add: intact_def)
  moreover have "exec_bad d None u = Some (- 1, v)"
    using vm_okD(3)[OF uspaceD(1)[OF U(1)]] v(1) by (simp add: exec_bad_def)
  ultimately show ?thesis using v(2,3) by (auto simp: exec_fails_def)
qed


section \<open>The new program\<close>

text \<open>The memory of a program whose image is \<open>g\<close> below \<open>z\<close>: image, guard page and stack, and the kernel's half.\<close>

definition program_memory :: "link \<Rightarrow> u32 \<Rightarrow> (nat \<Rightarrow> u8) \<Rightarrow> u32 \<Rightarrow> (u32 \<Rightarrow> u8) \<Rightarrow> u8 list list \<Rightarrow> bool" where
  "program_memory L d m z g bss \<longleftrightarrow> guarded d m (PGROUNDUP z) \<and> (\<forall>v. KERNBASE \<le> v \<longrightarrow> pmap d m v = kernel_entry (l_data L) v)
     \<and> (\<forall>v<KERNBASE. present (pmap d m v) \<longrightarrow> unat v < unat (stack_top z) - 4096 \<longrightarrow> user_byte d m v = g v)
     \<and> user_bytes d m (of_nat (unat (stack_top z) - stack_size bss)) (4 * (length bss + 4)) = stack_words (unat (stack_top z)) bss
     \<and> strings_at d m (arg_addrs (unat (stack_top z)) bss) bss"

lemma page_al_user:
  assumes "page_al a"
  shows "a AND PTE_U = 0"
proof -
  have "a AND NOT (mask 12) = a" using assms unat_and_not_mask12[of a] by (simp add: page_al_def word_unat_eq_iff)
  then have "a AND PTE_U = (a AND NOT (mask 12)) AND PTE_U" by simp
  also have "\<dots> = a AND (NOT (mask 12) AND PTE_U)" by (simp only: and.assoc)
  also have "NOT (mask 12) AND PTE_U = 0" by (simp add: PTE_U_def mask_eq_exp_minus_1)
  finally show ?thesis by simp
qed

lemma kernel_not_user: "KERNBASE \<le> v \<Longrightarrow> pmap d m v = kernel_entry D v \<Longrightarrow> \<not> umapped d m v"
proof -
  assume v: "KERNBASE \<le> v" "pmap d m v = kernel_entry D v"
  have al: "PGROUNDDOWN x AND PTE_U = 0" "V2P (PGROUNDDOWN x) AND PTE_U = 0" for x :: u32
    using page_al_KERNBASE(2)[OF page_al_PGROUNDDOWN, of x] by (simp_all add: page_al_user V2P_def)
  have "kernel_entry D v AND PTE_U = 0"
    unfolding kernel_entry_def by (simp add: bit.conj_disj_distrib2 al) (simp add: PTE_U_def PTE_W_def PTE_P_def)
  then show ?thesis by (simp add: umapped_def v(2))
qed

lemma program_memory_unchanged:
  assumes P: "program_memory L d (ram s) z g bss" and U: "unchanged d s t" and z: "z < KERNBASE" "stack_top z < KERNBASE"
    and sz: "stack_size bss \<le> 4096"
  shows "program_memory L d (ram t) z g bss"
proof -
  let ?hi = "unat (stack_top z)"
  have hi: "?hi = 4096 * pg_up z + 8192" "?hi < 2147483648" using unat_stack_top[OF z(1)] z(2) by (simp_all add: word_less_nat_alt unat_KERNBASE)
  have pm: "pmap d (ram t) = pmap d (ram s)" using U by (simp add: unchanged_def)
  have um: "umapped d (ram t) = umapped d (ram s)" by (simp add: umapped_def pm fun_eq_iff)
  have G: "guarded d (ram s) (PGROUNDUP z)" using P by (simp add: program_memory_def)
  have st: "strings_stay d (ram s) (ram t) 0 ?hi"
    unfolding strings_stay_def
  proof (intro allI impI)
    fix v :: u32 assume v: "unat v < ?hi"
    have "unat (PGROUNDDOWN v) \<le> unat v" unfolding unat_PGROUNDDOWN by (rule div_times_less_eq_dividend)
    then have "PGROUNDDOWN v < PGROUNDUP z + 2 * PGSIZE" "v < KERNBASE" using v hi(2)
      by (simp_all add: word_less_nat_alt unat_KERNBASE stack_top_def)
    then have "present (pmap d (ram s) v)" using G unfolding guarded_def by blast
    then show "user_byte d (ram t) v = user_byte d (ram s) v" using U \<open>v < KERNBASE\<close> by (simp add: unchanged_def)
  qed
  have "user_bytes d (ram t) (of_nat (?hi - stack_size bss)) (4 * (length bss + 4)) = user_bytes d (ram s) (of_nat (?hi - stack_size bss)) (4 * (length bss + 4))"
    by (rule user_bytes_stay[OF st]) (use sz hi in \<open>auto simp: stack_size_def\<close>)
  moreover have "strings_at d (ram t) (arg_addrs ?hi bss) bss"
  proof (rule strings_at_stay)
    show "strings_stay d (ram s) (ram t) (arg_base ?hi bss) ?hi" using st by (simp add: strings_stay_def)
    have "4 dvd ?hi" unfolding hi(1) by (intro dvd_add) (auto intro: dvd_mult2)
    then have "arg_base ?hi bss = ?hi - args_size bss" using sz hi(1) by (intro arg_base_size) (simp_all add: stack_size_def)
    then show "0 < arg_base ?hi bss" using sz hi(1) by (simp add: stack_size_def)
  qed (use P hi(2) in \<open>simp_all add: program_memory_def\<close>)
  ultimately show ?thesis using P U unfolding program_memory_def guarded_def um pm unchanged_def by simp
qed


text \<open>The process that calls \<open>exec\<close>: it runs in its own address space, and its kernel stack \<open>k\<close> belongs neither to this nor to the free
  pages \<open>ps\<close>.\<close>

definition running :: "nat \<Rightarrow> u32 \<Rightarrow> 'a kern_scheme \<Rightarrow> u32 list \<Rightarrow> bool" where
  "running p k s ps \<longleftrightarrow> uspace (p_pgdir (ptable s p)) s ps \<and> p_pgdir (ptable s p) \<noteq> KERNBASE \<and> cr3 s = V2P (p_pgdir (ptable s p))
     \<and> kstack_ok (ptable s p) k \<and> k \<notin> space (p_pgdir (ptable s p)) (ram s) \<union> set ps"

lemma runningD:
  assumes "running p k s ps"
  shows "uspace (p_pgdir (ptable s p)) s ps" "p_pgdir (ptable s p) \<noteq> KERNBASE" "cr3 s = V2P (p_pgdir (ptable s p))"
    "kstack_ok (ptable s p) k" "k \<notin> space (p_pgdir (ptable s p)) (ram s) \<union> set ps"
  using assms by (simp_all add: running_def)

text \<open>The arguments, as the call finds them in memory, and whether they fit.\<close>

definition args_ok :: "u32 list \<Rightarrow> u8 list list \<Rightarrow> 'a kern_scheme \<Rightarrow> bool" where
  "args_ok as bss s \<longleftrightarrow> list_all2 (user_string s) as bss \<and> 0 \<notin> set as \<and> length bss \<le> MAXARG \<and> stack_size bss \<le> 4096"

definition exec_runs :: "u32 set \<Rightarrow> u32 list \<Rightarrow> link \<Rightarrow> nat \<Rightarrow> u32 \<Rightarrow> u8 list \<Rightarrow> u8 list list \<Rightarrow> u32 \<times> u32 \<times> (u32 \<Rightarrow> u8) \<Rightarrow> 'a kern_scheme
    \<Rightarrow> (int \<times> 'a kern_scheme) option \<Rightarrow> bool" where
  "exec_runs I ps L p k pp bss im s res \<longleftrightarrow> (case im of (e, z, g) \<Rightarrow> \<exists>d t qs nm. res = Some (0, t)
     \<and> walking t I \<and> (\<forall>q<NINODE. i_ref (icache t q) = i_ref (icache s q)) \<and> blocks t = blocks s \<and> sb t = sb s \<and> devsw t = devsw s
     \<and> ftable t = ftable s \<and> curproc t = curproc s \<and> cr3 t = V2P d \<and> str_of nm = take 15 (base_name pp)
     \<and> ptable t = (ptable s)(p := (ptable s p)\<lparr>p_name := nm, p_pgdir := d, p_sz := stack_top z\<rparr>)
     \<and> rd_mem (p_tf (ptable s p) + TF_EIP) t = e
     \<and> rd_mem (p_tf (ptable s p) + TF_ESP) t = of_nat (unat (stack_top z) - stack_size bss)
     \<and> uspace d t qs \<and> space d (ram t) \<union> set qs = space (p_pgdir (ptable s p)) (ram s) \<union> set ps
     \<and> same_outside (insert k (space (p_pgdir (ptable s p)) (ram s) \<union> set ps)) (ram s) (ram t)
     \<and> stack_top z < KERNBASE \<and> program_memory L d (ram t) z g bss)"

text \<open>The end of the call, once the stack is built.\<close>

lemma commit_eq:
  assumes "allocuvm d (PGROUNDUP z) (stack_top z) t = Some (stack_top z, t1)" "stack_top z \<noteq> 0"
    and "clearpteu d (stack_top z - 2 * PGSIZE) t1 = Some t2"
    and "exec_args d argv (stack_top z) [] t2 = Some (Some (of_nat (unat (stack_top z) - args_size bss), map of_nat (arg_addrs (unat (stack_top z)) bss)), t3)"
    and "copyout d (of_nat (unat (stack_top z) - stack_size bss)) (stack_words (unat (stack_top z)) bss) (of_nat (4 * (length bss + 4))) t3 = Some (0, t4)"
    and sz: "stack_size bss \<le> unat (stack_top z)"
  shows "exec_commit L p path argv d e z t = exec_switch L p path d e (stack_top z) (of_nat (unat (stack_top z) - stack_size bss)) t4"
proof -
  have len: "(3 + of_nat (length bss) + 1) * 4 = (of_nat (4 * (length bss + 4)) :: u32)" by simp
  have st: "PGROUNDUP z + 2 * PGSIZE = stack_top z" by (simp add: stack_top_def)
  note w = stack_words_eq[OF sz]
  show ?thesis
    unfolding exec_commit_def st assms(1) using assms(2,3,4,5) w(2)
    by (simp only: Option.bind.simps(2) prod.case if_False option.case Let_def length_map length_arg_addrs len w(1)[symmetric])
      (simp add: w)
qed


lemma commit_ok:
  fixes s t :: "'a kern_scheme"
  assumes I: "intact I (set ps) s t" and U: "uspace d t ps'" "insert d (pages d t ps') = set ps"
    and z: "z < KERNBASE" "filled d (ram t) z" "mem_is d (ram t) g" "zero_from z g"
    and K: "\<forall>v. KERNBASE \<le> v \<longrightarrow> pmap d (ram t) v = kernel_entry (l_data L) v"
    and R: "running p k s ps" and A: "args_ok as bss s" and pp: "0 \<notin> set pp"
  shows "exec_fails I ps s (exec_commit L p (pp @ 0 # r) (as @ 0 # r') d e z t) \<and> (KERNBASE \<le> stack_top z \<or> length ps' < 4)
    \<or> exec_runs I ps L p k pp bss (e, z, g) s (exec_commit L p (pp @ 0 # r) (as @ 0 # r') d e z t)"
proof -
  let ?res = "exec_commit L p (pp @ 0 # r) (as @ 0 # r') d e z t"
  let ?od = "p_pgdir (ptable s p)" and ?hi = "unat (stack_top z)"
  note r = runningD[OF R]
  have args: "list_all2 (user_string s) as bss" "0 \<notin> set as" "length bss \<le> MAXARG" "stack_size bss \<le> 4096" using A by (simp_all add: args_ok_def)
  have wt: "walking t I" and It: "\<forall>q<NINODE. i_ref (icache t q) = i_ref (icache s q)" "blocks t = blocks s" "sb t = sb s" "devsw t = devsw s"
    "ftable t = ftable s" "kmem.more t = kmem.more s" "same_outside (set ps) (ram s) (ram t)"
    using I by (simp_all add: intact_def)
  note bio = walkingD(1)[OF wt]
  have mt: "ptable t = ptable s" "cr3 t = cr3 s" "curproc t = curproc s" using It(6) by (cases s; cases t; simp)+
  have al: "\<forall>q\<in>set ps. page_al q" using free_pagesD(1)[OF vm_okD(1)[OF uspaceD(1)[OF r(1)]]] by blast
  have ps: "space d (ram t) \<union> set ps' = set ps" using U(2) space_pages[of d t ps'] by simp
  have dj: "set ps \<inter> space ?od (ram s) = {}" using space_free[OF r(1)] by blast
  have kb: "KERNBASE \<notin> set ps'" using uspaceD(4)[OF U(1)] by (auto simp: pages_def own_def)
  note O = uspace_keep[OF r(1) It(7) al dj vm_okD(1)[OF uspaceD(1)[OF U(1)]] _ kb]
  have dj': "set ps' \<inter> space ?od (ram s) = {}" using dj ps by auto
  have B: "beside ?od d t ps'" unfolding beside_def O(3)[OF dj'] using U(1) O(1)[OF dj'] dj ps by auto
  have un: "unchanged ?od s t" using O(2-4)[OF dj'] by (simp add: unchanged_def)
  obtain q t1 ps1 where a: "allocuvm d (PGROUNDUP z) (stack_top z) t = Some (case q of None \<Rightarrow> 0 | Some x \<Rightarrow> x, t1)"
    "img_step d (if stack_top z < KERNBASE then Some (stack_top z, g) else None) (PGROUNDUP z) t ps' q t1 ps1"
    using stack_space[OF U(1) z(2-4,1) bio] by blast
  note a' = img_stepD[OF a(2)]
  have so1: "same_outside (set ps) (ram t) (ram t1)" using a'(4) by (simp add: inside_def U(2))
  have pg1: "insert d (pages d t1 ps1) = set ps" using a'(3) U(2) by simp
  show ?thesis
  proof (cases q)
    case None
    have "exec_fails I ps s (exec_bad d None t1)" by (rule give_back_space[OF I a'(1) so1 a'(2) pg1])
    moreover have "?res = exec_bad d None t1" using a(1) None by (simp add: exec_commit_def stack_top_def)
    moreover have "length ps' < 4" if "stack_top z < KERNBASE"
      using a'(6)[OF None, of "stack_top z" g] that pg_up_top[OF z(1)] by simp
    ultimately show ?thesis by (auto simp: not_less)
  next
    case (Some x)
    then have x: "x = stack_top z" "stack_top z < KERNBASE" using a'(5)[OF Some] by (auto split: if_splits)
    have f1: "filled d (ram t1) (stack_top z)" "mem_is d (ram t1) g" "kernel_same d (ram t) (ram t1)"
      using a'(5)[OF Some] x by auto
    obtain t2 where t2: "clearpteu d (stack_top z - 2 * PGSIZE) t1 = Some t2" "uspace d t2 ps1" "pages d t2 ps1 = pages d t1 ps1" "mem_frame t1 t2"
      "inside d t1 ps1 t2" "guarded d (ram t2) (PGROUNDUP z)" "mem_is d (ram t2) g" "kernel_same d (ram t1) (ram t2)"
      using guard_page[OF a'(2) f1(1,2) x(2) z(1)] by blast
    note B1 = beside_step[OF B a'(2,3,4)]
    note B2 = beside_step[OF B1(1) t2(2,3,5)]
    have q2: "quiet t t2" by (rule quiet_trans[OF a'(1) quiet_mem[OF quietD(1)[OF a'(1)] t2(4)]])
    have m2: "cr3 t2 = V2P ?od" using quietD(8)[OF q2] mt(2) r(3) by (cases t; cases t2) simp
    have un2: "unchanged ?od s t2" by (rule unchanged_trans[OF un unchanged_trans[OF B1(2) B2(2)]])
    have str2: "list_all2 (user_string t2) as bss"
      using args(1) user_string_keep[OF _ r(1) besideD(2)[OF B2(1)] r(3) m2 un2] by (rule list_all2_mono) blast
    have K2: "\<forall>v. KERNBASE \<le> v \<longrightarrow> pmap d (ram t2) v = kernel_entry (l_data L) v"
      using K kernel_same_trans[OF f1(3) t2(8)] by (simp add: kernel_same_def)
    then have N2: "\<forall>v. KERNBASE \<le> v \<longrightarrow> \<not> umapped d (ram t2) v" using kernel_not_user by blast
    obtain t3 t4 where t4: "exec_args d (as @ 0 # r') (stack_top z) [] t2 = Some (Some (of_nat (?hi - args_size bss), map of_nat (arg_addrs ?hi bss)), t3)"
      "copyout d (of_nat (?hi - stack_size bss)) (stack_words ?hi bss) (of_nat (4 * (length bss + 4))) t3 = Some (0, t4)"
      "stored_to d ps1 (?hi - 4096) 4096 t2 t4"
      "user_bytes d (ram t4) (of_nat (?hi - stack_size bss)) (4 * (length bss + 4)) = stack_words ?hi bss"
      "strings_at d (ram t4) (arg_addrs ?hi bss) bss"
      using build_stack[OF B2(1) m2 quietD(1)[OF q2] N2 t2(6) z(1) x(2) str2 args(2-4)] by blast
    note S = stored_toD[OF t4(3)]
    note B4 = beside_step[OF B2(1) S(2,3,6)]
    have q4: "quiet t t4" by (rule quiet_trans[OF q2 S(1)])
    have m4: "ptable t4 = ptable s" "curproc t4 = curproc s" using quietD(8)[OF q4] mt by (cases t; cases t4; simp)+
    have pg2: "insert d (pages d t2 ps1) = set ps" and pg4: "insert d (pages d t4 ps1) = set ps" using pg1 t2(3) S(3) by simp_all
    have ps4: "space d (ram t4) \<union> set ps1 = set ps" using pg4 space_pages[of d t4 ps1] by simp
    have od4: "space ?od (ram t4) = space ?od (ram s)" using unchanged_trans[OF un2 B4(2)] by (simp add: unchanged_def)
    have so4: "same_outside (set ps) (ram s) (ram t4)"
    proof -
      have "same_outside (set ps) (ram t1) (ram t2)" "same_outside (set ps) (ram t2) (ram t4)"
        using t2(5) S(6) by (simp_all add: inside_def pg1 pg2)
      then show ?thesis by (rule same_outside_trans[OF It(7) same_outside_trans[OF so1 same_outside_trans]])
    qed
    have hi: "?hi = 4096 * pg_up z + 8192" by (rule unat_stack_top[OF z(1)])
    have P4: "program_memory L d (ram t4) z g bss"
      unfolding program_memory_def
    proof (intro conjI)
      show "guarded d (ram t4) (PGROUNDUP z)" using t2(6) unfolding guarded_def umapped_def S(4) .
      show "\<forall>v. KERNBASE \<le> v \<longrightarrow> pmap d (ram t4) v = kernel_entry (l_data L) v" using K2 by (simp add: S(4))
      show "\<forall>v<KERNBASE. present (pmap d (ram t4) v) \<longrightarrow> unat v < ?hi - 4096 \<longrightarrow> user_byte d (ram t4) v = g v"
        using S(5) t2(7) by (simp add: S(4) mem_is_def)
    qed (rule t4)+
    have k4: "k \<notin> space ?od (ram t4) \<union> space d (ram t4) \<union> set ps1" using r(5) ps4 unfolding od4 by blast
    have "p_pgdir (ptable t4 p) = ?od" "kstack_ok (ptable t4 p) k" using r(4) by (simp_all add: m4)
    from exec_switch_ok[OF B4(1) this(1) r(2) this(2) k4 quietD(1)[OF q4] pp, of L r e "stack_top z" "of_nat (?hi - stack_size bss)"]
    obtain t5 rs where t5: "exec_switch L p (pp @ 0 # r) d e (stack_top z) (of_nat (?hi - stack_size bss)) t4 = Some (0, t5)"
      "switched p k d pp e (stack_top z) (of_nat (?hi - stack_size bss)) t4 ps1 t5 rs" by blast
    have "stack_top z \<noteq> 0" using hi by auto
    then have res: "?res = Some (0, t5)" using commit_eq[OF _ _ t2(1) t4(1,2)] a(1) Some x(1) args(4) hi t5(1) by simp
    obtain nm where sw: "kept t4 t5" "curproc t5 = curproc t4" "cr3 t5 = V2P d" "str_of nm = take 15 (base_name pp)"
      "ptable t5 = (ptable s)(p := (ptable s p)\<lparr>p_name := nm, p_pgdir := d, p_sz := stack_top z\<rparr>)"
      "rd_mem (p_tf (ptable s p) + TF_EIP) t5 = e" "rd_mem (p_tf (ptable s p) + TF_ESP) t5 = of_nat (?hi - stack_size bss)"
      "uspace d t5 rs" "unchanged d t4 t5" "set rs = space ?od (ram s) \<union> set ps1" "same_outside (insert k (set rs)) (ram t4) (ram t5)"
      using t5(2) unfolding switched_def m4(1) od4 by blast
    note Q = quietD[OF q4] and kp = keptD[OF sw(1)]
    have "space d (ram t5) = space d (ram t4)" using sw(9) by (simp add: unchanged_def)
    then have all: "space d (ram t5) \<union> set rs = space ?od (ram s) \<union> set ps" using ps4 sw(10) by blast
    have "program_memory L d (ram t5) z g bss" by (rule program_memory_unchanged[OF P4 sw(9) z(1) x(2) args(4)])
    moreover have "same_outside (insert k (space ?od (ram s) \<union> set ps)) (ram s) (ram t5)"
      by (rule same_outside_trans[OF same_outside_mono[OF so4] same_outside_mono[OF sw(11)]]) (use all in auto)
    moreover have "walking t5 I" using kp(7) walking_quiet[OF q4 wt] by simp
    ultimately have "exec_runs I ps L p k pp bss (e, z, g) s (Some (0, t5))"
      unfolding exec_runs_def prod.case using sw(3-8) all x(2) It(1-5) Q(3-7) kp(2-6) m4(2) sw(2)
      by (intro exI[of _ d] exI[of _ t5] exI[of _ rs] exI[of _ nm]) simp
    then show ?thesis unfolding res ..
  qed
qed


text \<open>The whole call.\<close>

lemma exec_whole:
  fixes s :: "'a kern_scheme"
  assumes cp: "getcurproc s = Some p" and wk: "walking s I" and path: "0 \<notin> set pp"
    and start: "if pp \<noteq> [] \<and> hd pp = 47 then i = ROOTINO \<and> i \<in> I
      else \<exists>cwd. p_cwd (ptable s p) = Some cwd \<and> cwd < NINODE \<and> 0 < i_ref (icache s cwd) \<and> i_dev (icache s cwd) = 1
        \<and> i_inum (icache s cwd) = i \<and> i \<in> I"
    and found: "walk (sb s) (blocks s) False i (path_elems pp) = Some j" and ty: "d_type (disk_inode (sb s) (blocks s) j) \<noteq> T_DEV"
    and kb: "KERNBASE \<notin> set ps" and data: "page_al (l_data L)" "KERNLINK < l_data L" "l_data L < P2V PHYSTOP"
    and R: "running p k s ps" and A: "args_ok as bss s"
  shows "case elf_image (disk_bytes (sb s) (blocks s) j) of None \<Rightarrow> exec_fails I ps s (exec L (pp @ 0 # r) (as @ 0 # r') s)
    | Some im \<Rightarrow> exec_fails I ps s (exec L (pp @ 0 # r) (as @ 0 # r') s)
          \<and> (KERNBASE \<le> stack_top (fst (snd im)) \<or> length ps \<le> 1028 + 2 * pg_up (fst (snd im)))
        \<or> exec_runs I ps L p k pp bss im s (exec L (pp @ 0 # r) (as @ 0 # r') s)"
proof -
  have fp: "free_pages s ps" using vm_okD(1)[OF uspaceD(1)[OF runningD(1)[OF R]]] .
  note X = exec_ok[OF cp wk path start found ty fp kb data, of r "as @ 0 # r'"]
  show ?thesis
  proof (cases "elf_image (disk_bytes (sb s) (blocks s) j)")
    case None
    then show ?thesis using X by simp
  next
    case (Some im)
    obtain e z g where im: "im = (e, z, g)" by (cases im)
    let ?res = "exec L (pp @ 0 # r) (as @ 0 # r') s"
    have "exec_fails I ps s ?res \<and> length ps \<le> 1025 + 2 * pg_up z \<or> exec_loads I ps L p (pp @ 0 # r) (as @ 0 # r') im s ?res"
      using X Some im by simp
    then have "exec_fails I ps s ?res \<and> (KERNBASE \<le> stack_top z \<or> length ps \<le> 1028 + 2 * pg_up z) \<or> exec_runs I ps L p k pp bss im s ?res"
    proof
      assume "exec_loads I ps L p (pp @ 0 # r) (as @ 0 # r') im s ?res"
      then obtain d t ps' where l: "?res = exec_commit L p (pp @ 0 # r) (as @ 0 # r') d e z t" "intact I (set ps) s t" "uspace d t ps'"
        "insert d (pages d t ps') = set ps" "z < KERNBASE" "filled d (ram t) z" "mem_is d (ram t) g" "zero_from z g"
        "\<forall>v. KERNBASE \<le> v \<longrightarrow> pmap d (ram t) v = kernel_entry (l_data L) v" "length ps \<le> 1025 + 2 * pg_up z + length ps'"
        unfolding exec_loads_def im prod.case by blast
      show ?thesis using commit_ok[OF l(2-9) R A path, of r r' e] l(10) unfolding l(1) im by auto
    qed auto
    then show ?thesis using Some im by simp
  qed
qed

end
