(* ===== verification/Mkfs.thy ===== *)
theory Mkfs
  imports Clib Fs_Layout
begin

text \<open>
  utils/mkfs.c: the host program that writes the first disk image. The image is the map \<open>img\<close> from sector numbers to their 512
  bytes; reading and writing sectors of the image file is taken to succeed (otherwise the program exits). A file to be stored is the
  pair of its path and its contents. A failed \<open>assert\<close> is \<open>None\<close>. The host is little-endian, as the program assumes.
\<close>

unbundle bit_operations_syntax

definition NINODES :: nat where "NINODES = 200"
definition LOGSIZE :: nat where "LOGSIZE = 30"
definition nbitmap :: nat where "nbitmap = unat FSSIZE div (BSIZE * 8) + 1"
definition ninodeblocks :: nat where "ninodeblocks = NINODES div IPB + 1"
definition nlog :: nat where "nlog = LOGSIZE"
definition nmeta :: nat where "nmeta = 2 + nlog + ninodeblocks + nbitmap"
definition nblocks :: nat where "nblocks = unat FSSIZE - nmeta"

definition xshort :: "u16 \<Rightarrow> u16" where "xshort x = of_le [ucast x, ucast (drop_bit 8 x)]"
definition xint :: "u32 \<Rightarrow> u32" where
  "xint x = of_le [ucast x, ucast (drop_bit 8 x), ucast (drop_bit 16 x), ucast (drop_bit 24 x)]"

record mkfs =
  img :: "u32 \<Rightarrow> u8 list"
  freeinode :: u32
  freeblock :: u32
  msb :: superblock

definition zeroes :: "u8 list" where "zeroes = replicate BSIZE 0"

definition rsect :: "u32 \<Rightarrow> mkfs \<Rightarrow> u8 list" where "rsect sec s = img s sec"
definition wsect :: "u32 \<Rightarrow> u8 list \<Rightarrow> mkfs \<Rightarrow> mkfs" where "wsect sec b s = s\<lparr>img := (img s)(sec := b)\<rparr>"

section \<open>Inodes\<close>

definition winode :: "u32 \<Rightarrow> dinode \<Rightarrow> mkfs \<Rightarrow> mkfs" where
  "winode inum din s =
     (let bn = IBLOCK inum (msb s) in wsect bn (blit (dinode_off inum) (enc_dinode din) (rsect bn s)) s)"

definition rinode :: "u32 \<Rightarrow> mkfs \<Rightarrow> dinode" where
  "rinode inum s = dec_dinode (drop (dinode_off inum) (rsect (IBLOCK inum (msb s)) s))"

definition inoalloc :: "u16 \<Rightarrow> mkfs \<Rightarrow> u32 \<times> mkfs" where
  "inoalloc type s =
     (let inum = freeinode s; s1 = s\<lparr>freeinode := freeinode s + 1\<rparr>;
          din = \<lparr>d_type = xshort type, d_major = 0, d_minor = 0, d_nlink = xshort 1, d_size = xint 0, d_addrs = replicate (NDIRECT + 1) 0\<rparr>
      in (inum, winode inum din s1))"

section \<open>Blocks\<close>

primrec mkfs_bits :: "nat \<Rightarrow> u8 list \<Rightarrow> u8 list" where
  "mkfs_bits 0 b = b"
| "mkfs_bits (Suc i) b = (let b1 = mkfs_bits i b in b1[i div 8 := (b1 ! (i div 8)) OR push_bit (i mod 8) 1])"

definition mkfs_balloc :: "int \<Rightarrow> mkfs \<Rightarrow> mkfs option" where
  "mkfs_balloc n s =
     (if n < int (BSIZE * 8) then Some (wsect (sb_bmapstart (msb s)) (mkfs_bits (nat n) (replicate BSIZE 0)) s) else None)"

definition fresh_block :: "mkfs \<Rightarrow> u32 \<times> mkfs" where
  "fresh_block s = (xint (freeblock s), s\<lparr>freeblock := freeblock s + 1\<rparr>)"

text \<open>The block of a file that holds block number \<open>fbn\<close>, allocated if there is none yet; the inode is a local copy.\<close>

definition file_block :: "nat \<Rightarrow> dinode \<Rightarrow> mkfs \<Rightarrow> u32 \<times> dinode \<times> mkfs" where
  "file_block fbn din s =
     (if fbn < NDIRECT
      then if xint (d_addrs din ! fbn) = 0
           then case fresh_block s of (a, s1) \<Rightarrow> (xint a, din\<lparr>d_addrs := (d_addrs din)[fbn := a]\<rparr>, s1)
           else (xint (d_addrs din ! fbn), din, s)
      else let (din1, s1) = (if xint (d_addrs din ! NDIRECT) = 0
                 then case fresh_block s of (a, t) \<Rightarrow> (din\<lparr>d_addrs := (d_addrs din)[NDIRECT := a]\<rparr>, t)
                 else (din, s));
               ind = xint (d_addrs din1 ! NDIRECT);
               k = 4 * (fbn - NDIRECT);
               indirect = rsect ind s1
           in if rd32 k indirect = 0
              then case fresh_block s1 of (a, s2) \<Rightarrow> (xint a, din1, wsect ind (blit k (to_le 4 a) indirect) s2)
              else (xint (rd32 k indirect), din1, s1))"

function iappend_loop :: "dinode \<Rightarrow> nat \<Rightarrow> u8 list \<Rightarrow> mkfs \<Rightarrow> (dinode \<times> nat \<times> mkfs) option" where
  "iappend_loop din off p s =
     (if p \<noteq> []
      then let fbn = off div BSIZE
           in if fbn < MAXFILE
              then case file_block fbn din s of (x, din1, s1) \<Rightarrow>
                let n1 = min (length p) ((fbn + 1) * BSIZE - off)
                in iappend_loop din1 (off + n1) (drop n1 p) (wsect x (blit (off - fbn * BSIZE) (take n1 p) (rsect x s1)) s1)
              else None
      else Some (din, off, s))"
  by pat_completeness auto
termination
proof (relation "measure (\<lambda>(din, off, p, s). length p)")
  fix off :: nat and p :: "u8 list" and fbn n1
  assume "p \<noteq> []" "fbn = off div BSIZE" "n1 = min (length p) ((fbn + 1) * BSIZE - off)"
  moreover have "off < (off div BSIZE + 1) * BSIZE"
    using dividend_less_div_times[of BSIZE off] by (simp add: BSIZE_def)
  ultimately have "0 < n1" by auto
  then show "((din1, off + n1, drop n1 p, wsect x (blit (off - fbn * BSIZE) (take n1 p) (rsect x s1)) s1), din, off, p, s)
    \<in> measure (\<lambda>(din, off, p, s). length p)" for din1 din x s1 s using \<open>p \<noteq> []\<close> by simp
qed simp

declare iappend_loop.simps [simp del]

definition iappend :: "u32 \<Rightarrow> u8 list \<Rightarrow> mkfs \<Rightarrow> mkfs option" where
  "iappend inum p s = do {
     let din = rinode inum s;
     (din1, off, s1) \<leftarrow> iappend_loop din (unat (xint (d_size din))) p s;
     Some (winode inum (din1\<lparr>d_size := xint (of_nat off)\<rparr>) s1)
   }"

section \<open>The image\<close>

primrec zero_sectors :: "nat \<Rightarrow> mkfs \<Rightarrow> mkfs" where
  "zero_sectors 0 s = s"
| "zero_sectors (Suc i) s = wsect (of_nat i) zeroes (zero_sectors i s)"

definition mkfs_sb :: superblock where
  "mkfs_sb = \<lparr>sb_size = xint FSSIZE, sb_nblocks = xint (of_nat nblocks), sb_ninodes = xint (of_nat NINODES), sb_nlog = xint (of_nat nlog),
     sb_logstart = xint 2, sb_inodestart = xint (of_nat (2 + nlog)), sb_bmapstart = xint (of_nat (2 + nlog + ninodeblocks))\<rparr>"

definition dirent_bytes :: "u32 \<Rightarrow> u8 list \<Rightarrow> u8 list" where
  "dirent_bytes inum name = enc_dirent (xshort (ucast inum)) (padded DIRSIZ name)"

definition mkfs_start :: "mkfs \<Rightarrow> mkfs option" where
  "mkfs_start s = do {
     let s1 = zero_sectors (unat FSSIZE) (s\<lparr>msb := mkfs_sb, freeinode := 1, freeblock := of_nat nmeta\<rparr>);
     let s2 = wsect 1 (blit 0 (enc_superblock mkfs_sb) zeroes) s1;
     let (rootino, s3) = inoalloc T_DIR s2;
     if rootino \<noteq> ROOTINO then None
     else do {
       s4 \<leftarrow> iappend rootino (dirent_bytes rootino [46]) s3;
       iappend rootino (dirent_bytes rootino [46, 46]) s4
     }
   }"

text \<open>The loop that reads a file 512 bytes at a time.\<close>

function append_chunks :: "u32 \<Rightarrow> u8 list \<Rightarrow> mkfs \<Rightarrow> mkfs option" where
  "append_chunks inum c s =
     (if c = [] then Some s
      else Option.bind (iappend inum (take BSIZE c) s) (append_chunks inum (drop BSIZE c)))"
  by pat_completeness auto
termination by (relation "measure (\<lambda>(inum, c, s). length c)") (auto simp: BSIZE_def)

declare append_chunks.simps [simp del]

definition store_file :: "u8 list \<Rightarrow> u8 list \<Rightarrow> mkfs \<Rightarrow> mkfs option" where
  "store_file path content s =
     (if 47 \<in> set path then None
      else do {
        let name = (case path of c # cs \<Rightarrow> if c = 95 then cs else path | [] \<Rightarrow> path);
        let (inum, s1) = inoalloc T_FILE s;
        s2 \<leftarrow> iappend ROOTINO (dirent_bytes inum name) s1;
        append_chunks inum content s2
      })"

primrec store_files :: "(u8 list \<times> u8 list) list \<Rightarrow> mkfs \<Rightarrow> mkfs option" where
  "store_files [] s = Some s"
| "store_files (f # fs) s = Option.bind (store_file (fst f) (snd f) s) (store_files fs)"

definition mkfs_finish :: "mkfs \<Rightarrow> mkfs option" where
  "mkfs_finish s =
     (let din = rinode ROOTINO s; off = (unat (xint (d_size din)) div BSIZE + 1) * BSIZE;
          s1 = winode ROOTINO (din\<lparr>d_size := xint (of_nat off)\<rparr>) s
      in mkfs_balloc (sint (freeblock s1)) s1)"

definition mkfs_main :: "(u8 list \<times> u8 list) list \<Rightarrow> mkfs \<Rightarrow> mkfs option" where
  "mkfs_main files s = do { s1 \<leftarrow> mkfs_start s; s2 \<leftarrow> store_files files s1; mkfs_finish s2 }"

end
