(* ===== verification/Mkfs_Ok.thy ===== *)
theory Mkfs_Ok
  imports Mkfs File_Data
begin
text \<open>
  utils/mkfs.c, appending to a file. While the image is built the bitmap is implicit in \<open>freeblock\<close>; with the bitmap that
  \<open>balloc\<close> writes at the end put in (\<open>vdisk\<close>) the image is a well-formed disk in the sense of the kernel, and allocating
  a block is the kernel's \<open>bmap_abs\<close>. So the lemmas about the kernel's files carry over: \<open>iappend\<close> appends its bytes to one file,
  uses exactly the blocks that the new size needs (\<open>fblocks\<close>) and leaves every other file alone.
\<close>

unbundle bit_operations_syntax

section \<open>The image as the kernel will see it\<close>

lemma xint [simp]: "xint x = x"
proof -
  have "[ucast x, ucast (drop_bit 8 x), ucast (drop_bit 16 x), ucast (drop_bit 24 x)] = to_le 4 x"
    by (simp add: numeral_eq_Suc)
  then show ?thesis by (simp only: xint_def of_le_to_le32)
qed

lemma xshort [simp]: "xshort x = x"
proof -
  have "[ucast x, ucast (drop_bit 8 x)] = to_le 2 x"
    by (simp add: numeral_eq_Suc)
  then show ?thesis by (simp only: xshort_def of_le_to_le16)
qed

lemmas mkfs_consts = NINODES_def LOGSIZE_def nbitmap_def ninodeblocks_def nlog_def nmeta_def nblocks_def fs_consts FSSIZE_def

lemma mkfs_numbers: "nmeta = 59" "sb_size mkfs_sb = 1000" "sb_bmapstart mkfs_sb = 58" "sb_inodestart mkfs_sb = 32"
  by (simp_all add: mkfs_consts mkfs_sb_def)

text \<open>While the image is built the bitmap is implicit in \<open>freeblock\<close>; \<open>vdisk\<close> is the image with the bitmap that
  \<open>balloc\<close> writes at the end.\<close>

definition vdisk :: "mkfs \<Rightarrow> u32 \<Rightarrow> u8 list" where
  "vdisk s = (img s)(58 := mkfs_bits (unat (freeblock s)) (replicate BSIZE 0))"

definition mk_ok :: "mkfs \<Rightarrow> bool" where
  "mk_ok s \<longleftrightarrow> msb s = mkfs_sb \<and> (\<forall>n. length (img s n) = BSIZE) \<and> 59 \<le> unat (freeblock s) \<and> unat (freeblock s) \<le> 1000
     \<and> (\<forall>b. freeblock s \<le> b \<longrightarrow> b < 1000 \<longrightarrow> img s b = replicate BSIZE 0)"

lemma mk_okD:
  assumes "mk_ok s"
  shows "msb s = mkfs_sb" "length (img s n) = BSIZE" "59 \<le> unat (freeblock s)" "unat (freeblock s) \<le> 1000"
    "freeblock s \<le> b \<Longrightarrow> b < 1000 \<Longrightarrow> img s b = replicate BSIZE 0"
  using assms by (auto simp: mk_ok_def)

lemma mkfs_bits_Suc: "mkfs_bits (Suc i) b = set_bit_at i (mkfs_bits i b)"
  by (simp add: set_bit_at_def Let_def)

lemma length_mkfs_bits [simp]: "length (mkfs_bits n b) = length b"
  by (induction n) (simp_all add: Let_def)

lemma bit_set_mkfs_bits: "n \<le> 8 * length b \<Longrightarrow> bit_set (mkfs_bits n b) j \<longleftrightarrow> j < n \<or> bit_set b j"
proof (induction n)
  case (Suc n)
  then show ?case unfolding mkfs_bits_Suc by (subst bit_set_set_bit_at) auto
qed simp

lemma used_vdisk:
  assumes "mk_ok s" "k < 4096"
  shows "used mkfs_sb (vdisk s) k \<longleftrightarrow> k < unat (freeblock s)"
proof -
  have "unat (freeblock s) \<le> 8 * length (replicate BSIZE (0 :: u8))" using mk_okD(4)[OF assms(1)] by (simp add: BSIZE_def)
  moreover have "\<not> bit_set (replicate BSIZE (0 :: u8)) k" using assms(2) by (simp add: bit_set_def BSIZE_def)
  ultimately show ?thesis by (simp add: used_def vdisk_def mkfs_numbers bit_set_mkfs_bits)
qed

lemma vdisk_wf:
  assumes ok: "mk_ok s"
  shows "wf_disk mkfs_sb (vdisk s)"
  unfolding wf_disk_def
proof (intro conjI allI impI)
  show "sb_ok mkfs_sb" "sb_bmapstart mkfs_sb < sb_size mkfs_sb" by (simp_all add: sb_ok_def mkfs_numbers FSSIZE_def)
  show "length (vdisk s n) = BSIZE" for n using mk_okD(2)[OF ok] by (simp add: vdisk_def)
  show "used mkfs_sb (vdisk s) k" if "k \<le> unat (sb_bmapstart mkfs_sb)" for k
    using that mk_okD(3)[OF ok] used_vdisk[OF ok, of k] by (simp add: mkfs_numbers)
qed

lemma vdisk_first_free:
  assumes "mk_ok s" "unat (freeblock s) < 1000"
  shows "first_free mkfs_sb (vdisk s) = Some (unat (freeblock s))"
proof -
  have ff: "find (\<lambda>k. \<not> used mkfs_sb (vdisk s) k) [0..<n] = Some (unat (freeblock s))" if "unat (freeblock s) < n" "n \<le> 1000" for n
    using that
  proof (induction n)
    case (Suc n)
    have app: "find P (xs @ ys) = (case find P xs of None \<Rightarrow> find P ys | Some x \<Rightarrow> Some x)" for P :: "nat \<Rightarrow> bool" and xs ys
      by (induction xs) auto
    show ?case
    proof (cases "unat (freeblock s) < n")
      case False
      then have n: "n = unat (freeblock s)" using Suc.prems by simp
      have "find (\<lambda>k. \<not> used mkfs_sb (vdisk s) k) [0..<n] = None"
        unfolding find_None_iff using used_vdisk[OF assms(1)] n Suc.prems(2) by auto
      then show ?thesis using used_vdisk[OF assms(1), of n] n Suc.prems(2) by (simp add: app)
    qed (use Suc in \<open>simp add: app\<close>)
  qed simp
  show ?thesis using ff[of 1000] assms(2) by (simp add: first_free_def mkfs_numbers)
qed

lemma fresh_block_ok:
  assumes ok: "mk_ok s" and lt: "unat (freeblock s) < 1000"
  defines "s1 \<equiv> s\<lparr>freeblock := freeblock s + 1\<rparr>"
  shows "mk_ok s1" "vdisk s1 = alloc_blk mkfs_sb (unat (freeblock s)) (vdisk s)" "unat (freeblock s1) = unat (freeblock s) + 1"
proof -
  show u: "unat (freeblock s1) = unat (freeblock s) + 1" using lt by (simp add: s1_def unat_word_ariths)
  have z: "img s b = replicate BSIZE 0" if "freeblock s1 \<le> b" "b < 1000" for b
    using mk_okD(5)[OF ok, of b] that u by (simp add: word_le_nat_alt)
  show "mk_ok s1" using mk_okD(1-4)[OF ok] lt u z by (simp add: mk_ok_def) (simp add: s1_def)
  have f: "img s (freeblock s) = replicate BSIZE 0" "freeblock s \<noteq> 58"
    using mk_okD(3)[OF ok] lt by (auto intro: mk_okD(5)[OF ok] simp: word_less_nat_alt)
  have bits: "mkfs_bits (unat (freeblock s1)) (replicate BSIZE 0) = set_bit_at (unat (freeblock s)) (mkfs_bits (unat (freeblock s)) (replicate BSIZE 0))"
    by (simp only: u Suc_eq_plus1[symmetric] mkfs_bits_Suc)
  have i: "img s1 = img s" by (simp add: s1_def)
  show "vdisk s1 = alloc_blk mkfs_sb (unat (freeblock s)) (vdisk s)"
    unfolding vdisk_def[of s1] bits i alloc_blk_def mark_def mkfs_numbers
    using f by (auto simp: vdisk_def fun_eq_iff)
qed

lemma fresh_block_eq: "fresh_block s = (freeblock s, s\<lparr>freeblock := freeblock s + 1\<rparr>)"
  by (simp add: fresh_block_def)

lemma mkfs_sect [simp]:
  "msb (wsect n b s) = msb s" "freeblock (wsect n b s) = freeblock s" "freeinode (wsect n b s) = freeinode s"
  "img (wsect n b s) = (img s)(n := b)"
  by (simp_all add: wsect_def)

lemma vdisk_wsect: "n \<noteq> 58 \<Longrightarrow> vdisk (wsect n b s) = (vdisk s)(n := b)"
  by (auto simp: vdisk_def)

lemma rsect_vdisk: "n \<noteq> 58 \<Longrightarrow> rsect n s = vdisk s n"
  by (simp add: rsect_def vdisk_def)

lemma mk_ok_wsect: "mk_ok s \<Longrightarrow> n < freeblock s \<Longrightarrow> length b = BSIZE \<Longrightarrow> mk_ok (wsect n b s)"
  by (auto simp: mk_ok_def)

lemma data_blk_vdisk:
  assumes "mk_ok s" "data_blk mkfs_sb (vdisk s) a"
  shows "a \<noteq> 58" "a < freeblock s"
proof -
  show "a \<noteq> 58" using assms(2) by (auto simp: data_blk_def mkfs_numbers)
  have "unat a < 4096" using assms(2) by (simp add: data_blk_def mkfs_numbers word_less_nat_alt)
  then show "a < freeblock s" using assms used_vdisk by (simp add: data_blk_def word_less_nat_alt)
qed

text \<open>Allocating a block for a file is what the kernel's \<open>bmap\<close> does.\<close>

lemma bmap_abs_ensure:
  assumes "wf_disk x D" "first_free x D = Some k" "wf_file x D as" "as ! NDIRECT = 0" "NDIRECT \<le> bn" "bn < MAXFILE"
  shows "bmap_abs x bn D as = bmap_abs x bn (alloc_blk x k D) (as[NDIRECT := of_nat k])"
proof -
  have "file_addr D as bn = 0" using assms(4,5) by (simp add: file_addr_def)
  moreover have "as[NDIRECT := of_nat k] ! NDIRECT = of_nat k" using wf_fileD(1)[OF assms(3)] by simp
  ultimately show ?thesis
    using assms add_indirect_block(1)[OF assms(1-4,6)] first_free_data(6)[OF assms(1,2)]
    by (simp add: bmap_abs_def ensure_indirect_def)
qed

definition entry_block :: "nat \<Rightarrow> dinode \<Rightarrow> mkfs \<Rightarrow> u32 \<times> dinode \<times> mkfs" where
  "entry_block fbn din1 s1 =
     (let ind = d_addrs din1 ! NDIRECT; k = 4 * (fbn - NDIRECT); indirect = rsect ind s1
      in if rd32 k indirect = 0
         then case fresh_block s1 of (a, s2) \<Rightarrow> (a, din1, wsect ind (blit k (to_le 4 a) indirect) s2)
         else (rd32 k indirect, din1, s1))"

lemma entry_block_ok:
  assumes ok: "mk_ok s" and wf: "wf_file mkfs_sb (vdisk s) (d_addrs din)" and bn: "NDIRECT \<le> fbn" "fbn < MAXFILE"
    and ind: "d_addrs din ! NDIRECT \<noteq> 0"
    and fits: "unat (freeblock s) + (if file_addr (vdisk s) (d_addrs din) fbn = 0 then 1 else 0) \<le> 1000"
  obtains x s1 where "entry_block fbn din s = (x, din, s1)" "bmap_abs mkfs_sb fbn (vdisk s) (d_addrs din) = Some (x, vdisk s1, d_addrs din)"
    "mk_ok s1" "freeinode s1 = freeinode s"
    "unat (freeblock s1) = unat (freeblock s) + (if file_addr (vdisk s) (d_addrs din) fbn = 0 then 1 else 0)"
proof -
  let ?I = "d_addrs din ! NDIRECT" and ?k = "4 * (fbn - NDIRECT)"
  note I = data_blk_vdisk[OF ok wf_fileD(4)[OF wf ind]]
  have fa: "file_addr (vdisk s) (d_addrs din) fbn = rd32 ?k (rsect ?I s)"
    using bn ind by (simp add: file_addr_def rsect_vdisk[OF I(1)])
  show ?thesis
  proof (cases "rd32 ?k (rsect ?I s) = 0")
    case False
    then show ?thesis using ok fa by (intro that[of "rd32 ?k (rsect ?I s)" s]) (simp_all add: entry_block_def bmap_abs_def Let_def)
  next
    case True
    then have lt: "unat (freeblock s) < 1000" using fits fa by simp
    define t where "t = s\<lparr>freeblock := freeblock s + 1\<rparr>"
    note f = fresh_block_ok[OF ok lt, folded t_def]
    have It: "?I < freeblock t" "img t = img s" "freeinode t = freeinode s"
      using I(2) f(3) by (simp_all add: t_def word_less_nat_alt)
    let ?b = "blit ?k (to_le 4 (freeblock s)) (rsect ?I s)"
    have len: "length ?b = BSIZE"
      using bn mk_okD(2)[OF ok] by (simp add: length_blit rsect_def fs_consts)
    have rs: "rsect ?I s = alloc_blk mkfs_sb (unat (freeblock s)) (vdisk s) ?I"
      using rsect_vdisk[OF I(1), of t] It(2) by (simp add: rsect_def f(2))
    have "vdisk (wsect ?I ?b t) = add_entry mkfs_sb (unat (freeblock s)) ?I (fbn - NDIRECT) (vdisk s)"
      unfolding vdisk_wsect[OF I(1)] f(2) add_entry_def Let_def wr32_def rs by simp
    moreover have "entry_block fbn din s = (freeblock s, din, wsect ?I ?b t)"
      using True by (simp add: entry_block_def Let_def fresh_block_eq t_def)
    ultimately show ?thesis
      using True fa bn ind vdisk_first_free[OF ok lt] mk_ok_wsect[OF f(1) It(1) len] f(3) It(3)
      by (intro that[of "freeblock s" "wsect ?I ?b t"]) (simp_all add: bmap_abs_def ensure_indirect_def)
  qed
qed

lemma file_block_indirect:
  "\<not> fbn < NDIRECT \<Longrightarrow> file_block fbn din s =
     (if d_addrs din ! NDIRECT = 0
      then entry_block fbn (din\<lparr>d_addrs := (d_addrs din)[NDIRECT := freeblock s]\<rparr>) (s\<lparr>freeblock := freeblock s + 1\<rparr>)
      else entry_block fbn din s)"
  by (simp add: file_block_def entry_block_def fresh_block_eq Let_def)

definition block_cost :: "(u32 \<Rightarrow> u8 list) \<Rightarrow> u32 list \<Rightarrow> nat \<Rightarrow> nat" where
  "block_cost D as fbn = (if file_addr D as fbn \<noteq> 0 then 0 else if fbn < NDIRECT \<or> as ! NDIRECT \<noteq> 0 then 1 else 2)"

lemma file_block_ok:
  assumes ok: "mk_ok s" and wf: "wf_file mkfs_sb (vdisk s) (d_addrs din)" and bn: "fbn < MAXFILE"
    and fits: "unat (freeblock s) + block_cost (vdisk s) (d_addrs din) fbn \<le> 1000"
  obtains x as1 s1 where "file_block fbn din s = (x, din\<lparr>d_addrs := as1\<rparr>, s1)"
    "bmap_abs mkfs_sb fbn (vdisk s) (d_addrs din) = Some (x, vdisk s1, as1)" "mk_ok s1" "freeinode s1 = freeinode s"
    "unat (freeblock s1) = unat (freeblock s) + block_cost (vdisk s) (d_addrs din) fbn"
proof (cases "fbn < NDIRECT")
  case True
  then have fa: "file_addr (vdisk s) (d_addrs din) fbn = d_addrs din ! fbn" by (simp add: file_addr_def)
  show ?thesis
  proof (cases "d_addrs din ! fbn = 0")
    case hole: True
    then have lt: "unat (freeblock s) < 1000" using fits True fa by (simp add: block_cost_def)
    show ?thesis
      using hole True fa fresh_block_ok[OF ok lt] vdisk_first_free[OF ok lt]
      by (intro that[of "freeblock s" "(d_addrs din)[fbn := freeblock s]" "s\<lparr>freeblock := freeblock s + 1\<rparr>"])
        (simp_all add: file_block_def fresh_block_eq bmap_abs_def block_cost_def)
  next
    case False
    then show ?thesis
      using True fa ok by (intro that[of "d_addrs din ! fbn" "d_addrs din" s]) (simp_all add: file_block_def bmap_abs_def block_cost_def)
  qed
next
  case False
  then have nb: "NDIRECT \<le> fbn" by simp
  show ?thesis
  proof (cases "d_addrs din ! NDIRECT = 0")
    case ind: False
    have "unat (freeblock s) + (if file_addr (vdisk s) (d_addrs din) fbn = 0 then 1 else 0) \<le> 1000"
      using fits ind by (simp add: block_cost_def split: if_splits)
    then obtain x s1 where "entry_block fbn din s = (x, din, s1)" "bmap_abs mkfs_sb fbn (vdisk s) (d_addrs din) = Some (x, vdisk s1, d_addrs din)"
        "mk_ok s1" "freeinode s1 = freeinode s"
        "unat (freeblock s1) = unat (freeblock s) + (if file_addr (vdisk s) (d_addrs din) fbn = 0 then 1 else 0)"
      by (rule entry_block_ok[OF ok wf nb bn ind])
    then show ?thesis using ind False by (intro that[of x "d_addrs din" s1]) (simp_all add: file_block_indirect block_cost_def)
  next
    case hole: True
    then have fa: "file_addr (vdisk s) (d_addrs din) fbn = 0" using nb by (simp add: file_addr_def)
    then have c: "block_cost (vdisk s) (d_addrs din) fbn = 2" using hole False by (simp add: block_cost_def)
    then have lt: "unat (freeblock s) < 1000" using fits by simp
    define t where "t = s\<lparr>freeblock := freeblock s + 1\<rparr>"
    define din1 where "din1 = din\<lparr>d_addrs := (d_addrs din)[NDIRECT := freeblock s]\<rparr>"
    note f = fresh_block_ok[OF ok lt, folded t_def] and ff = vdisk_first_free[OF ok lt] and wd = vdisk_wf[OF ok]
    have wf1: "wf_file mkfs_sb (vdisk t) (d_addrs din1)"
      using add_indirect_block(2)[OF wd ff wf hole] by (simp add: f(2) din1_def)
    have ind1: "d_addrs din1 ! NDIRECT \<noteq> 0"
      using first_free_data(6)[OF wd ff] wf_fileD(1)[OF wf] by (simp add: din1_def)
    have fa1: "file_addr (vdisk t) (d_addrs din1) fbn = 0"
      using add_indirect_block(1)[OF wd ff wf hole bn] fa by (simp add: f(2) din1_def)
    have "unat (freeblock t) + (if file_addr (vdisk t) (d_addrs din1) fbn = 0 then 1 else 0) \<le> 1000"
      using fits c f(3) fa1 by simp
    then obtain x s1 where "entry_block fbn din1 t = (x, din1, s1)" "bmap_abs mkfs_sb fbn (vdisk t) (d_addrs din1) = Some (x, vdisk s1, d_addrs din1)"
        "mk_ok s1" "freeinode s1 = freeinode t"
        "unat (freeblock s1) = unat (freeblock t) + (if file_addr (vdisk t) (d_addrs din1) fbn = 0 then 1 else 0)"
      by (rule entry_block_ok[OF f(1) wf1 nb bn ind1])
    moreover have "bmap_abs mkfs_sb fbn (vdisk s) (d_addrs din) = bmap_abs mkfs_sb fbn (vdisk t) (d_addrs din1)"
        using bmap_abs_ensure[OF wd ff wf hole nb bn] by (simp add: f(2) din1_def)
    ultimately show ?thesis
        using hole False fa1 c f(3)
        by (intro that[of x "d_addrs din1" s1]) (simp_all add: file_block_indirect din1_def[symmetric] t_def[symmetric], simp_all add: din1_def t_def)
  qed
qed

section \<open>Appending to a file\<close>

text \<open>Exactly what \<open>bmap_abs\<close> adds to the map.\<close>

lemma bmap_abs_exact:
  assumes wd: "wf_disk x D" and wf: "wf_file x D as" and bn: "bn < MAXFILE"
    and b: "bmap_abs x bn D as = Some (a, D', as')"
  shows "i < MAXFILE \<Longrightarrow> i \<noteq> bn \<Longrightarrow> file_addr D' as' i = file_addr D as i"
    and "file_addr D as bn = 0 \<Longrightarrow> as' ! NDIRECT \<noteq> 0 \<longleftrightarrow> as ! NDIRECT \<noteq> 0 \<or> NDIRECT \<le> bn"
    and "file_addr D as bn \<noteq> 0 \<Longrightarrow> as' = as"
proof -
  show "file_addr D as bn \<noteq> 0 \<Longrightarrow> as' = as" using bmap_abs_fresh(3)[OF assms] by blast
  have "(\<forall>i<MAXFILE. i \<noteq> bn \<longrightarrow> file_addr D' as' i = file_addr D as i)
    \<and> (file_addr D as bn = 0 \<longrightarrow> (as' ! NDIRECT \<noteq> 0 \<longleftrightarrow> as ! NDIRECT \<noteq> 0 \<or> NDIRECT \<le> bn))"
  proof (cases "file_addr D as bn = 0 \<and> bn < NDIRECT")
    case True
    then have hole: "as ! bn = 0" by (auto simp: file_addr_def)
    obtain k where k: "first_free x D = Some k" "D' = alloc_blk x k D" "as' = as[bn := of_nat k]"
      using b True by (auto simp: bmap_abs_def)
    show ?thesis using add_direct(1)[OF wd k(1) wf _ hole] True k by simp
  next
    case False
    show ?thesis
    proof (cases "file_addr D as bn = 0")
      case nz: False
      then show ?thesis using b by (simp add: bmap_abs_def)
    next
      case hole: True
      then have nb: "NDIRECT \<le> bn" using False by simp
      obtain D1 as1 where e: "ensure_indirect x D as = Some (D1, as1)"
        and rest: "(if file_addr D1 as1 bn \<noteq> 0 then Some (file_addr D1 as1 bn, D1, as1)
         else do { k \<leftarrow> first_free x D1; Some (of_nat k, add_entry x k (as1 ! NDIRECT) (bn - NDIRECT) D1, as1) }) = Some (a, D', as')"
        and w1: "wf_disk x D1" "wf_file x D1 as1" "as1 ! NDIRECT \<noteq> 0"
        by (rule bmap_abs_indirect[OF wd wf bn nb b])
      have s1: "file_addr D1 as1 i = file_addr D as i" if "i < MAXFILE" for i
      proof (cases "as ! NDIRECT = 0")
        case True
        then obtain k where k: "first_free x D = Some k" "D1 = alloc_blk x k D" "as1 = as[NDIRECT := of_nat k]"
          using e by (auto simp: ensure_indirect_def)
        then show ?thesis using add_indirect_block(1)[OF wd k(1) wf True that] by simp
      qed (use e in \<open>auto simp: ensure_indirect_def\<close>)
      have z: "file_addr D1 as1 bn = 0" using s1[OF bn] hole by simp
      obtain k where k: "first_free x D1 = Some k" "D' = add_entry x k (as1 ! NDIRECT) (bn - NDIRECT) D1" "as' = as1"
      proof -
        have "do { k \<leftarrow> first_free x D1; Some (of_nat k, add_entry x k (as1 ! NDIRECT) (bn - NDIRECT) D1, as1) } = Some (a, D', as')"
          using rest unfolding z by simp
        then show ?thesis using that unfolding Option.bind_eq_Some_conv option.inject prod.inject by blast
      qed
      show ?thesis using add_through_indirect(1)[OF w1(1) k(1) w1(2) nb bn w1(3) z] s1 w1(3) nb k by simp
    qed
  qed
  then show "i < MAXFILE \<Longrightarrow> i \<noteq> bn \<Longrightarrow> file_addr D' as' i = file_addr D as i"
    and "file_addr D as bn = 0 \<Longrightarrow> as' ! NDIRECT \<noteq> 0 \<longleftrightarrow> as ! NDIRECT \<noteq> 0 \<or> NDIRECT \<le> bn" by blast+
qed

text \<open>A file without holes and without blocks behind its size; such a file occupies \<open>fblocks\<close> blocks.\<close>

definition packed :: "superblock \<Rightarrow> (u32 \<Rightarrow> u8 list) \<Rightarrow> u32 list \<Rightarrow> nat \<Rightarrow> bool" where
  "packed x D as sz \<longleftrightarrow> wf_file x D as \<and> sz \<le> MAXFILE * BSIZE
     \<and> (\<forall>i<MAXFILE. file_addr D as i \<noteq> 0 \<longleftrightarrow> BSIZE * i < sz) \<and> (as ! NDIRECT \<noteq> 0 \<longleftrightarrow> NDIRECT * BSIZE < sz)"

lemma block12:
  fixes q w :: nat
  shows "w < 512 \<Longrightarrow> 6144 < 512 * q + w \<longleftrightarrow> (if w = 0 then 12 < q else 12 \<le> q)"
    and "0 < w \<Longrightarrow> w \<le> 512 \<Longrightarrow> 6144 < 512 * q + w \<longleftrightarrow> 12 \<le> q"
proof -
  show w: "6144 < 512 * q + w \<longleftrightarrow> 12 \<le> q" if "0 < w" "w \<le> 512"
  proof (cases "12 \<le> q")
    case True
    then show ?thesis using mult_le_mono2[OF True, of 512] that by simp
  next
    case False
    then have "512 * q \<le> 512 * 11" by (intro mult_le_mono2) simp
    then show ?thesis using False that by simp
  qed
  show "w < 512 \<Longrightarrow> 6144 < 512 * q + w \<longleftrightarrow> (if w = 0 then 12 < q else 12 \<le> q)"
    using w by (cases "w = 0") auto
qed

definition fblocks :: "nat \<Rightarrow> nat" where
  "fblocks sz = (sz + BSIZE - 1) div BSIZE + (if NDIRECT * BSIZE < sz then 1 else 0)"

lemma packedD:
  assumes "packed x D as sz"
  shows "wf_file x D as" "sz \<le> MAXFILE * BSIZE" "i < MAXFILE \<Longrightarrow> file_addr D as i \<noteq> 0 \<longleftrightarrow> BSIZE * i < sz"
    "as ! NDIRECT \<noteq> 0 \<longleftrightarrow> NDIRECT * BSIZE < sz"
  using assms unfolding packed_def by blast+

lemma fblocks_cost:
  assumes p: "packed x D as off" and n: "0 < n" "n \<le> BSIZE - off mod BSIZE" and off: "off div BSIZE < MAXFILE"
  shows "fblocks (off + n) = fblocks off + block_cost D as (off div BSIZE)"
proof -
  obtain q w where qw: "off = 512 * q + w" "w < 512" "off div 512 = q" "off mod 512 = w"
    by (metis mult_div_mod_eq mod_less_divisor zero_less_numeral)
  have n': "n \<le> 512 - w" using n(2) by (simp add: BSIZE_def qw(4))
  have fa: "file_addr D as q \<noteq> 0 \<longleftrightarrow> w \<noteq> 0" using packedD(3)[OF p off] qw by (simp add: BSIZE_def)
  have new: "(off + n + 511) div 512 = Suc q" using n' n(1) qw(1,2) by (intro div_nat_eqI) simp_all
  have old: "(off + 511) div 512 = (if w = 0 then q else Suc q)" using qw(1,2) by (auto intro!: div_nat_eqI)
  have ind: "as ! NDIRECT \<noteq> 0 \<longleftrightarrow> 6144 < off" "6144 < off \<longleftrightarrow> (if w = 0 then 12 < q else 12 \<le> q)" "6144 < off + n \<longleftrightarrow> 12 \<le> q"
    using packedD(4)[OF p] block12(1)[OF qw(2), of q] block12(2)[of "w + n" q] qw(1,2) n(1) n' by (simp_all add: fs_consts add.assoc)
  have "off + n + 512 - 1 = off + n + 511" "off + 512 - 1 = off + 511" by simp_all
  then have f: "fblocks (off + n) = Suc q + (if 12 \<le> q then 1 else 0)"
    "fblocks off = (if w = 0 then q else Suc q) + (if 6144 < off then 1 else 0)"
    unfolding fblocks_def BSIZE_def NDIRECT_def by (simp_all only: new old) (simp_all add: ind)
  have "block_cost D as (off div BSIZE) = (if w \<noteq> 0 then 0 else if q < 12 \<or> 6144 < off then 1 else 2)"
    using fa ind(1) unfolding block_cost_def BSIZE_def qw(3) NDIRECT_def by simp
  then show ?thesis unfolding f ind(2) by auto
qed

lemma packed_add:
  assumes wd: "wf_disk x D" and p: "packed x D as off" and n: "0 < n" "n \<le> BSIZE - off mod BSIZE" and off: "off < MAXFILE * BSIZE"
    and b: "bmap_abs x (off div BSIZE) D as = Some (a, D', as')"
    and D2: "wf_file x D2 as'" "file_addr D2 as' = file_addr D' as'"
  shows "packed x D2 as' (off + n)"
proof -
  have bn: "off div BSIZE < MAXFILE" using off by (simp add: less_mult_imp_div_less)
  note ex = bmap_abs_exact[OF wd packedD(1)[OF p] bn b] and kb = bmap_abs_ok[OF wd packedD(1)[OF p] bn b]
  obtain q w where qw: "off = 512 * q + w" "w < 512" "off div 512 = q" "off mod 512 = w"
    by (metis mult_div_mod_eq mod_less_divisor zero_less_numeral)
  have n': "n \<le> 512 - w" using n(2) by (simp add: BSIZE_def qw(4))
  have fa: "file_addr D as q \<noteq> 0 \<longleftrightarrow> w \<noteq> 0" using packedD(3)[OF p bn] qw by (simp add: BSIZE_def)
  have q: "q < 140" using bn by (simp add: fs_consts qw(3))
  have "file_addr D2 as' i \<noteq> 0 \<longleftrightarrow> BSIZE * i < off + n" if i: "i < MAXFILE" for i
  proof (cases "i = q")
    case True
    then show ?thesis using kb(2,3) D2(2) qw n(1) by (simp add: BSIZE_def)
  next
    case False
    then have "512 * i < 512 * q + w \<longleftrightarrow> 512 * i < 512 * q + w + n" using qw(2) n' by arith
    then show ?thesis using False ex(1)[OF i] packedD(3)[OF p i] D2(2) qw by (simp add: BSIZE_def)
  qed
  moreover have "as' ! NDIRECT \<noteq> 0 \<longleftrightarrow> NDIRECT * BSIZE < off + n"
  proof (cases "w = 0")
    case True
    then show ?thesis using ex(2) fa packedD(4)[OF p] qw n(1) n' by (auto simp: fs_consts)
  next
    case False
    then have "6144 < 512 * q + w \<longleftrightarrow> 6144 < 512 * q + w + n"
      using block12(1)[OF qw(2), of q] block12(2)[of "w + n" q] n' qw(2) by (simp add: add.assoc)
    then show ?thesis using False ex(3) fa packedD(4)[OF p] qw by (simp add: fs_consts)
  qed
  moreover have "off + n \<le> MAXFILE * BSIZE" using q qw(1,2) n' by (simp add: fs_consts)
  ultimately show ?thesis using D2(1) by (simp add: packed_def)
qed

lemma fblocks_mono: "m \<le> n \<Longrightarrow> fblocks m \<le> fblocks n"
  unfolding fblocks_def by (intro add_mono div_le_mono) auto

text \<open>One round of \<open>iappend\<close>.\<close>

lemma append_round:
  fixes c :: "u8 list"
  assumes ok: "mk_ok s" and p: "packed mkfs_sb (vdisk s) (d_addrs din) off" and c: "c \<noteq> []" "length c \<le> BSIZE - off mod BSIZE"
    and off: "off < MAXFILE * BSIZE" and fits: "unat (freeblock s) + fblocks (off + length c) \<le> 1000 + fblocks off"
  obtains x as1 s1 t where "file_block (off div BSIZE) din s = (x, din\<lparr>d_addrs := as1\<rparr>, s1)"
    "t = wsect x (blit (off mod BSIZE) c (rsect x s1)) s1" "mk_ok t" "packed mkfs_sb (vdisk t) as1 (off + length c)"
    "updates mkfs_sb (vdisk s) (d_addrs din) (vdisk t) as1
       (\<lambda>k. if off \<le> k \<and> k < off + length c then c ! (k - off) else fbyte (vdisk s) (d_addrs din) k)"
    "freeinode t = freeinode s" "unat (freeblock t) + fblocks off = unat (freeblock s) + fblocks (off + length c)"
proof -
  let ?D = "vdisk s" and ?as = "d_addrs din"
  have bn: "off div BSIZE < MAXFILE" using off by (simp add: less_mult_imp_div_less)
  note wd = vdisk_wf[OF ok] and wf = packedD(1)[OF p]
  have c0: "0 < length c" using c(1) by simp
  note cost = fblocks_cost[OF p c0 c(2) bn]
  have "unat (freeblock s) + block_cost ?D ?as (off div BSIZE) \<le> 1000" using fits cost by simp
  then obtain x as1 s1 where fb: "file_block (off div BSIZE) din s = (x, din\<lparr>d_addrs := as1\<rparr>, s1)"
    and b: "bmap_abs mkfs_sb (off div BSIZE) ?D ?as = Some (x, vdisk s1, as1)" and s1: "mk_ok s1" "freeinode s1 = freeinode s"
      "unat (freeblock s1) = unat (freeblock s) + block_cost ?D ?as (off div BSIZE)"
    by (rule file_block_ok[OF ok wf bn])
  note o = overwrite_part[OF wd wf off b c(2)]
  note x = data_blk_vdisk[OF s1(1) o(6)]
  let ?t = "wsect x (blit (off mod BSIZE) c (rsect x s1)) s1"
  have t: "vdisk ?t = (vdisk s1)(x := blit (off mod BSIZE) c (vdisk s1 x))" "length (blit (off mod BSIZE) c (rsect x s1)) = BSIZE"
    using vdisk_wsect[OF x(1)] rsect_vdisk[OF x(1)] o(1) by simp_all
  have fa: "file_addr (vdisk ?t) as1 = file_addr (vdisk s1) as1" unfolding t by (rule o(3))
  have u: "updates mkfs_sb ?D ?as (vdisk ?t) as1 (\<lambda>k. if off \<le> k \<and> k < off + length c then c ! (k - off) else fbyte ?D ?as k)"
    unfolding t by (rule o(2))
  have pk: "packed mkfs_sb (vdisk ?t) as1 (off + length c)"
    by (rule packed_add[OF wd p c0 c(2) off b updatesD(2)[OF u] fa])
  show ?thesis
    by (rule that[OF fb refl mk_ok_wsect[OF s1(1) x(2) t(2)] pk u]) (simp_all add: s1 cost)
qed

lemma iappend_loop_ok:
  assumes "mk_ok s" "packed mkfs_sb (vdisk s) (d_addrs din) off" "off + length p \<le> MAXFILE * BSIZE"
    and "unat (freeblock s) + fblocks (off + length p) \<le> 1000 + fblocks off"
  shows "\<exists>as1 t. iappend_loop din off p s = Some (din\<lparr>d_addrs := as1\<rparr>, off + length p, t) \<and> mk_ok t
    \<and> packed mkfs_sb (vdisk t) as1 (off + length p)
    \<and> updates mkfs_sb (vdisk s) (d_addrs din) (vdisk t) as1
       (\<lambda>k. if off \<le> k \<and> k < off + length p then p ! (k - off) else fbyte (vdisk s) (d_addrs din) k)
    \<and> freeinode t = freeinode s \<and> unat (freeblock t) + fblocks off = unat (freeblock s) + fblocks (off + length p)"
  using assms
proof (induction "length p" arbitrary: p off din s rule: less_induct)
  case less
  show ?case
  proof (cases "p = []")
    case True
    have "updates mkfs_sb (vdisk s) (d_addrs din) (vdisk s) (d_addrs din)
      (\<lambda>k. if off \<le> k \<and> k < off + length p then p ! (k - off) else fbyte (vdisk s) (d_addrs din) k)"
      using updates_refl[OF vdisk_wf[OF less.prems(1)] packedD(1)[OF less.prems(2)]] by (rule updates_cong) (use True in auto)
    then show ?thesis
      using less.prems True
      by (intro exI[of _ "d_addrs din"] exI[of _ s]) (simp add: iappend_loop.simps)
  next
    case False
    define n where "n = min (length p) ((off div BSIZE + 1) * BSIZE - off)"
    have off: "off < MAXFILE * BSIZE" using less.prems(3) False by (cases p) auto
    have be: "(off div BSIZE + 1) * BSIZE - off = BSIZE - off mod BSIZE" "off - off div BSIZE * BSIZE = off mod BSIZE"
    proof -
      obtain q w where qw: "off = 512 * q + w" "w < 512" "off div 512 = q" "off mod 512 = w"
        by (metis mult_div_mod_eq mod_less_divisor zero_less_numeral)
      show "(off div BSIZE + 1) * BSIZE - off = BSIZE - off mod BSIZE" "off - off div BSIZE * BSIZE = off mod BSIZE"
        unfolding BSIZE_def qw(3,4) using qw(1,2) by simp_all
    qed
    have "off mod BSIZE < BSIZE" by (simp add: BSIZE_def)
    then have n: "0 < n" "n \<le> length p" "n \<le> BSIZE - off mod BSIZE" using False unfolding n_def be by simp_all
    let ?c = "take n p" and ?r = "drop n p"
    have c: "?c \<noteq> []" "length ?c = n" "length ?r < length p" "length ?r = length p - n" using n False by simp_all
    have cl: "length ?c \<le> BSIZE - off mod BSIZE" using n(3) c(2) by simp
    have fm: "fblocks (off + n) \<le> fblocks (off + length p)" using n(2) by (intro fblocks_mono) simp
    have fits: "unat (freeblock s) + fblocks (off + length ?c) \<le> 1000 + fblocks off"
      using less.prems(4) fm unfolding c(2) by linarith
    obtain x as1 s1 t where r: "file_block (off div BSIZE) din s = (x, din\<lparr>d_addrs := as1\<rparr>, s1)"
      and t: "t = wsect x (blit (off mod BSIZE) ?c (rsect x s1)) s1" "mk_ok t" "packed mkfs_sb (vdisk t) as1 (off + n)"
      and u: "updates mkfs_sb (vdisk s) (d_addrs din) (vdisk t) as1
         (\<lambda>k. if off \<le> k \<and> k < off + n then ?c ! (k - off) else fbyte (vdisk s) (d_addrs din) k)"
      and f: "freeinode t = freeinode s" "unat (freeblock t) + fblocks off = unat (freeblock s) + fblocks (off + n)"
      by (rule append_round[OF less.prems(1,2) c(1) cl off fits, unfolded c(2)])
    have bn: "off div BSIZE < MAXFILE" using off by (simp add: less_mult_imp_div_less)
    have step: "iappend_loop din off p s = iappend_loop (din\<lparr>d_addrs := as1\<rparr>) (off + n) ?r t"
      using False bn r unfolding iappend_loop.simps[of din off p s] Let_def n_def[symmetric] be(2) t(1) by simp
    have e: "d_addrs (din\<lparr>d_addrs := as1\<rparr>) = as1" "din\<lparr>d_addrs := as1\<rparr>\<lparr>d_addrs := bs\<rparr> = din\<lparr>d_addrs := bs\<rparr>" for bs by simp_all
    have on: "off + n + length ?r = off + length p" using n(2) c(4) by simp
    have "\<exists>as2 t2. iappend_loop (din\<lparr>d_addrs := as1\<rparr>) (off + n) ?r t = Some (din\<lparr>d_addrs := as1\<rparr>\<lparr>d_addrs := as2\<rparr>, off + n + length ?r, t2)
      \<and> mk_ok t2 \<and> packed mkfs_sb (vdisk t2) as2 (off + n + length ?r)
      \<and> updates mkfs_sb (vdisk t) (d_addrs (din\<lparr>d_addrs := as1\<rparr>)) (vdisk t2) as2
       (\<lambda>k. if off + n \<le> k \<and> k < off + n + length ?r then ?r ! (k - (off + n)) else fbyte (vdisk t) (d_addrs (din\<lparr>d_addrs := as1\<rparr>)) k)
      \<and> freeinode t2 = freeinode t \<and> unat (freeblock t2) + fblocks (off + n) = unat (freeblock t) + fblocks (off + n + length ?r)"
    proof (rule less.hyps[OF c(3) t(2)])
      show "packed mkfs_sb (vdisk t) (d_addrs (din\<lparr>d_addrs := as1\<rparr>)) (off + n)" using t(3) by simp
      show "off + n + length ?r \<le> MAXFILE * BSIZE" using less.prems(3) unfolding on .
      show "unat (freeblock t) + fblocks (off + n + length ?r) \<le> 1000 + fblocks (off + n)"
        using less.prems(4) f(2) unfolding on by linarith
    qed
    then obtain as2 t2 where q: "iappend_loop (din\<lparr>d_addrs := as1\<rparr>) (off + n) ?r t = Some (din\<lparr>d_addrs := as2\<rparr>, off + length p, t2)"
        "mk_ok t2" "packed mkfs_sb (vdisk t2) as2 (off + length p)" "freeinode t2 = freeinode t"
        "unat (freeblock t2) + fblocks (off + n) = unat (freeblock t) + fblocks (off + length p)"
      and u2: "updates mkfs_sb (vdisk t) as1 (vdisk t2) as2
       (\<lambda>k. if off + n \<le> k \<and> k < off + length p then ?r ! (k - (off + n)) else fbyte (vdisk t) as1 k)"
      unfolding on e by blast
    have g: "(if off + n \<le> k \<and> k < off + length p then ?r ! (k - (off + n)) else fbyte (vdisk t) as1 k)
      = (if off \<le> k \<and> k < off + length p then p ! (k - off) else fbyte (vdisk s) (d_addrs din) k)" if "k < MAXFILE * BSIZE" for k
      using updatesD(3)[OF u that] n by auto
    have "updates mkfs_sb (vdisk s) (d_addrs din) (vdisk t2) as2
       (\<lambda>k. if off \<le> k \<and> k < off + length p then p ! (k - off) else fbyte (vdisk s) (d_addrs din) k)"
      by (rule updates_cong[OF updates_trans[OF u u2] g])
    moreover have "unat (freeblock t2) + fblocks off = unat (freeblock s) + fblocks (off + length p)" using q(5) f(2) by linarith
    ultimately show ?thesis using step q f(1) by (intro exI[of _ as2] exI[of _ t2]) simp
  qed
qed

section \<open>Files on the image\<close>

definition mk_dinode :: "u16 \<Rightarrow> nat \<Rightarrow> u32 list \<Rightarrow> dinode" where
  "mk_dinode t n as = \<lparr>d_type = t, d_major = 0, d_minor = 0, d_nlink = 1, d_size = of_nat n, d_addrs = as\<rparr>"

definition ino :: "(u32 \<Rightarrow> u8 list) \<Rightarrow> nat \<Rightarrow> dinode" where
  "ino D i = disk_inode mkfs_sb D (of_nat i)"

text \<open>Inode \<open>i\<close> on the disk \<open>D\<close> is a file of type \<open>t\<close> with contents \<open>c\<close>, and nothing but zeros behind them.\<close>

definition stored :: "(u32 \<Rightarrow> u8 list) \<Rightarrow> nat \<Rightarrow> u16 \<Rightarrow> u8 list \<Rightarrow> bool" where
  "stored D i t c \<longleftrightarrow> ino D i = mk_dinode t (length c) (d_addrs (ino D i)) \<and> packed mkfs_sb D (d_addrs (ino D i)) (length c)
     \<and> (\<forall>k<MAXFILE * BSIZE. fbyte D (d_addrs (ino D i)) k = (if k < length c then c ! k else 0))"

definition iblocks :: "(u32 \<Rightarrow> u8 list) \<Rightarrow> nat \<Rightarrow> u32 set" where
  "iblocks D i = set (file_blocks D (d_addrs (ino D i)))"

lemma storedD:
  assumes "stored D i t c"
  shows "ino D i = mk_dinode t (length c) (d_addrs (ino D i))" "packed mkfs_sb D (d_addrs (ino D i)) (length c)"
    "k < MAXFILE * BSIZE \<Longrightarrow> fbyte D (d_addrs (ino D i)) k = (if k < length c then c ! k else 0)"
  using assms unfolding stored_def by blast+

lemma mkfs_inode:
  assumes "i < 200"
  shows "unat (of_nat i :: u32) = i" "IBLOCK (of_nat i) mkfs_sb < sb_bmapstart mkfs_sb" "1 < IBLOCK (of_nat i) mkfs_sb"
proof -
  show u: "unat (of_nat i :: u32) = i" using assms by (intro unat_of_nat_u32) simp
  have "unat (IBLOCK (of_nat i) mkfs_sb) = i div 8 + 32"
    using assms by (simp add: IBLOCK_def mkfs_numbers fs_consts unat_word_ariths unat_div u)
  moreover have "i div 8 \<le> 24" using div_le_mono[of i 199 8] assms by simp
  ultimately show "IBLOCK (of_nat i) mkfs_sb < sb_bmapstart mkfs_sb" "1 < IBLOCK (of_nat i) mkfs_sb"
    by (simp_all add: word_less_nat_alt mkfs_numbers)
qed

lemma of_nat_inode: "i < 200 \<Longrightarrow> j < 200 \<Longrightarrow> (of_nat i :: u32) = of_nat j \<longleftrightarrow> i = j"
  using mkfs_inode(1) by metis

text \<open>Writing an inode.\<close>

lemma winode_vdisk:
  assumes "mk_ok s" "i < 200"
  shows "vdisk (winode (of_nat i) d s) = put_inode mkfs_sb (of_nat i) d (vdisk s)"
    and "rinode (of_nat i) s = ino (vdisk s) i"
    and "freeblock (winode (of_nat i) d s) = freeblock s" "freeinode (winode (of_nat i) d s) = freeinode s"
proof -
  have n: "IBLOCK (of_nat i) mkfs_sb \<noteq> 58" using mkfs_inode(2)[OF assms(2)] by (auto simp: mkfs_numbers)
  note m = mk_okD(1)[OF assms(1)]
  show "vdisk (winode (of_nat i) d s) = put_inode mkfs_sb (of_nat i) d (vdisk s)"
    using vdisk_wsect[OF n] rsect_vdisk[OF n] m by (simp add: winode_def put_inode_def Let_def)
  show "rinode (of_nat i) s = ino (vdisk s) i"
    using rsect_vdisk[OF n] m by (simp add: rinode_def ino_def disk_inode_def)
  show "freeblock (winode (of_nat i) d s) = freeblock s" "freeinode (winode (of_nat i) d s) = freeinode s"
    by (simp_all add: winode_def Let_def)
qed

lemma winode_ok:
  assumes "mk_ok s" "i < 200" "length (d_addrs d) = NDIRECT + 1"
  shows "mk_ok (winode (of_nat i) d s)"
proof -
  note m = mk_okD(1)[OF assms(1)] and ib = mkfs_inode(2)[OF assms(2)]
  have "IBLOCK (of_nat i) mkfs_sb < freeblock s"
    using ib mk_okD(3)[OF assms(1)] by (simp add: word_less_nat_alt mkfs_numbers)
  moreover have "length (blit (dinode_off (of_nat i)) (enc_dinode d) (rsect (IBLOCK (of_nat i) mkfs_sb) s)) = BSIZE"
    using dinode_off_bound[of "of_nat i"] mk_okD(2)[OF assms(1)] assms(3) by (simp add: rsect_def length_blit fs_consts)
  ultimately show ?thesis using mk_ok_wsect[OF assms(1)] m by (simp add: winode_def Let_def)
qed

lemma put_inode_ino:
  assumes "wf_disk mkfs_sb D" "i < 200" "j < 200" "length (d_addrs d) = NDIRECT + 1"
  shows "ino (put_inode mkfs_sb (of_nat i) d D) j = (if j = i then d else ino D j)"
  using disk_inode_put[where D = D, OF wf_diskD(2)[OF assms(1)] assms(4), where x = mkfs_sb] of_nat_inode[OF assms(2,3)]
  by (auto simp: ino_def)

lemma put_inode_stored:
  assumes wd: "wf_disk mkfs_sb D" and i: "i < 200" and j: "j < 200" and len: "length (d_addrs d) = NDIRECT + 1"
    and ne: "j \<noteq> i" and st: "stored D j t c"
  shows "stored (put_inode mkfs_sb (of_nat i) d D) j t c" "iblocks (put_inode mkfs_sb (of_nat i) d D) j = iblocks D j"
proof -
  note ib = mkfs_inode(2)[OF i] and pk = storedD(2)[OF st]
  note pf = put_inode_file[OF wd ib len packedD(1)[OF pk]]
  have e: "ino (put_inode mkfs_sb (of_nat i) d D) j = ino D j" using put_inode_ino[OF wd i j len] ne by simp
  have "packed mkfs_sb (put_inode mkfs_sb (of_nat i) d D) (d_addrs (ino D j)) (length c)"
    using pk unfolding packed_def pf(1) using pf(2) by blast
  then show "stored (put_inode mkfs_sb (of_nat i) d D) j t c"
    unfolding stored_def e using storedD(1,3)[OF st] pf(3) by auto
  show "iblocks (put_inode mkfs_sb (of_nat i) d D) j = iblocks D j" by (simp add: iblocks_def e pf(4))
qed

text \<open>\<open>iappend\<close> appends to one file and leaves the others alone.\<close>

lemma iappend_ok:
  assumes ok: "mk_ok s" and st: "stored (vdisk s) i t c" and i: "i < 200" and max: "length c + length p \<le> MAXFILE * BSIZE"
    and fits: "unat (freeblock s) + fblocks (length c + length p) \<le> 1000 + fblocks (length c)"
  obtains s' where "iappend (of_nat i) p s = Some s'" "mk_ok s'" "stored (vdisk s') i t (c @ p)" "freeinode s' = freeinode s"
    "unat (freeblock s') + fblocks (length c) = unat (freeblock s) + fblocks (length c + length p)"
    "\<And>j. j < 200 \<Longrightarrow> j \<noteq> i \<Longrightarrow> ino (vdisk s') j = ino (vdisk s) j" "vdisk s' 1 = vdisk s 1"
    "\<And>j t' c'. j < 200 \<Longrightarrow> j \<noteq> i \<Longrightarrow> stored (vdisk s) j t' c' \<Longrightarrow> iblocks (vdisk s) i \<inter> iblocks (vdisk s) j = {} \<Longrightarrow>
       stored (vdisk s') j t' c' \<and> iblocks (vdisk s') j = iblocks (vdisk s) j \<and> iblocks (vdisk s') i \<inter> iblocks (vdisk s') j = {}"
proof -
  let ?D = "vdisk s" and ?d = "ino (vdisk s) i"
  let ?n = "length c + length p"
  note D = storedD[OF st] and wd = vdisk_wf[OF ok]
  have "d_size ?d = of_nat (length c)" by (subst D(1)) (simp add: mk_dinode_def)
  then have sz: "unat (d_size ?d) = length c" using packedD(2)[OF D(2)] by (simp add: unat_of_nat_u32 fs_consts)
  obtain as1 u where l: "iappend_loop ?d (length c) p s = Some (?d\<lparr>d_addrs := as1\<rparr>, ?n, u)" and u: "mk_ok u"
    "packed mkfs_sb (vdisk u) as1 ?n"
    "updates mkfs_sb ?D (d_addrs ?d) (vdisk u) as1
       (\<lambda>k. if length c \<le> k \<and> k < ?n then p ! (k - length c) else fbyte ?D (d_addrs ?d) k)"
    "freeinode u = freeinode s" "unat (freeblock u) + fblocks (length c) = unat (freeblock s) + fblocks ?n"
    using iappend_loop_ok[OF ok D(2) max fits] by blast
  note U = updatesD[OF u(3)] and ib = mkfs_inode(2) and wf = packedD(1)[OF D(2)]
  define d1 where "d1 = mk_dinode t ?n as1"
  have d1: "?d\<lparr>d_addrs := as1, d_size := of_nat ?n\<rparr> = d1" by (subst D(1)) (simp add: mk_dinode_def d1_def)
  have d1a: "d_addrs d1 = as1" by (simp add: d1_def mk_dinode_def)
  have len: "length (d_addrs d1) = NDIRECT + 1" using wf_fileD(1)[OF U(2)] d1a by simp
  define s' where "s' = winode (of_nat i) d1 u"
  have W: "vdisk s' = put_inode mkfs_sb (of_nat i) d1 (vdisk u)" "freeblock s' = freeblock u" "freeinode s' = freeinode u"
    using winode_vdisk[OF u(1) i] by (simp_all add: s'_def)
  have app: "iappend (of_nat i) p s = Some s'"
    using l d1 by (simp add: iappend_def winode_vdisk(2)[OF ok i] sz s'_def)
  have in1: "ino (vdisk u) j = ino ?D j" if "j < 200" for j
    unfolding ino_def by (rule updates_inode[OF u(3) wd wf ib[OF that]])
  have inos: "ino (vdisk s') j = (if j = i then d1 else ino ?D j)" if "j < 200" for j
    unfolding W(1) using put_inode_ino[OF U(1) i that len] in1[OF that] by simp
  note pf = put_inode_file[OF U(1) ib[OF i] len U(2)]
  have ii: "ino (vdisk s') i = d1" using inos[OF i] by simp
  have "packed mkfs_sb (vdisk s') as1 ?n"
    using u(2) unfolding packed_def W(1) pf(1) using pf(2) by blast
  moreover have "fbyte (vdisk s') as1 k = (if k < length (c @ p) then (c @ p) ! k else 0)" if "k < MAXFILE * BSIZE" for k
    using U(3)[OF that] D(3)[OF that] pf(3)[OF that] unfolding W(1) by (auto simp: nth_append)
  ultimately have st': "stored (vdisk s') i t (c @ p)"
    unfolding stored_def ii d1a by (simp add: d1_def mk_dinode_def)
  have ibl: "iblocks (vdisk s') i = set (file_blocks (vdisk u) as1)"
    unfolding iblocks_def ii d1a unfolding W(1) pf(4) ..
  have oth: "stored (vdisk s') j t' c' \<and> iblocks (vdisk s') j = iblocks ?D j \<and> iblocks (vdisk s') i \<inter> iblocks (vdisk s') j = {}"
    if j: "j < 200" "j \<noteq> i" and sj: "stored ?D j t' c'" and dj: "iblocks ?D i \<inter> iblocks ?D j = {}" for j t' c'
  proof -
    note J = storedD[OF sj]
    note uo = updates_other[OF u(3) packedD(1)[OF J(2)] dj[unfolded iblocks_def]]
    have "packed mkfs_sb (vdisk u) (d_addrs (ino ?D j)) (length c')"
      using J(2) unfolding packed_def uo(1) using uo(2) by blast
    then have su: "stored (vdisk u) j t' c'" unfolding stored_def in1[OF j(1)] using J(1,3) uo(3) by auto
    have "iblocks (vdisk u) j = iblocks ?D j" unfolding iblocks_def in1[OF j(1)] by (simp add: uo(4))
    moreover have "set (file_blocks (vdisk u) as1) \<inter> iblocks (vdisk u) j = {}" unfolding iblocks_def in1[OF j(1)] by (rule uo(5))
    ultimately show ?thesis
      using put_inode_stored[OF U(1) i j(1) len j(2) su] unfolding ibl unfolding W(1) by simp
  qed
  have "1 \<notin> set (file_blocks ?D (d_addrs ?d))" using file_blocks_wf(2)[OF wf] by (auto simp: data_blk_def mkfs_numbers)
  moreover have "used mkfs_sb ?D (unat (1 :: u32))" using wf_diskD(3)[OF wd, of 1] by (simp add: mkfs_numbers)
  ultimately have "vdisk u 1 = ?D 1" using updatesD(7)[OF u(3), of 1] by (simp add: mkfs_numbers)
  then have b1: "vdisk s' 1 = ?D 1" using put_inode_data(5)[OF U(1) ib[OF i] len, of 1] mkfs_inode(3)[OF i] unfolding W(1) by auto
  have mo: "mk_ok s'" unfolding s'_def by (rule winode_ok[OF u(1) i len])
  show ?thesis
    by (rule that[OF app mo st' _ _ _ b1 oth]) (use u(4,5) W(2,3) inos in simp_all)
qed

end
