(* ===== verification/Mkfs_Image.thy ===== *)
theory Mkfs_Image
  imports Mkfs_Ok
begin

text \<open>
  utils/mkfs.c as a whole: what the image holds when \<open>main\<close> is done. The invariant \<open>built\<close> lists the files stored so far; the
  steps of the program (\<open>inoalloc\<close>, \<open>iappend\<close>, the copy loop) preserve it, and \<open>mkfs_main_ok\<close> puts them together.
\<close>

section \<open>The image under construction\<close>

definition total_blocks :: "(u16 \<times> u8 list) list \<Rightarrow> nat" where
  "total_blocks fs = sum_list (map (\<lambda>f. fblocks (length (snd f))) fs)"

text \<open>The files \<open>fs\<close> (types and contents) are inodes 1, 2, \<dots> of the image; no two share a block, and all other
  inodes are free.\<close>

definition super_sector :: "u8 list" where
  "super_sector = blit 0 (enc_superblock mkfs_sb) zeroes"

definition built :: "mkfs \<Rightarrow> (u16 \<times> u8 list) list \<Rightarrow> bool" where
  "built s fs \<longleftrightarrow> mk_ok s \<and> length fs < 200 \<and> freeinode s = of_nat (Suc (length fs))
     \<and> unat (freeblock s) = 59 + total_blocks fs
     \<and> (\<forall>i<length fs. stored (vdisk s) (Suc i) (fst (fs ! i)) (snd (fs ! i)))
     \<and> (\<forall>i<length fs. \<forall>j<length fs. i \<noteq> j \<longrightarrow> iblocks (vdisk s) (Suc i) \<inter> iblocks (vdisk s) (Suc j) = {})
     \<and> (\<forall>j<200. length fs < j \<longrightarrow> d_type (ino (vdisk s) j) = 0) \<and> vdisk s 1 = super_sector"

lemma builtD:
  assumes "built s fs"
  shows "mk_ok s" "length fs < 200" "freeinode s = of_nat (Suc (length fs))" "unat (freeblock s) = 59 + total_blocks fs"
    "i < length fs \<Longrightarrow> stored (vdisk s) (Suc i) (fst (fs ! i)) (snd (fs ! i))"
    "i < length fs \<Longrightarrow> j < length fs \<Longrightarrow> i \<noteq> j \<Longrightarrow> iblocks (vdisk s) (Suc i) \<inter> iblocks (vdisk s) (Suc j) = {}"
    "j < 200 \<Longrightarrow> length fs < j \<Longrightarrow> d_type (ino (vdisk s) j) = 0" "vdisk s 1 = super_sector"
  using assms unfolding built_def by blast+

lemma total_blocks_simps [simp]:
  "total_blocks [] = 0" "total_blocks (f # fs) = fblocks (length (snd f)) + total_blocks fs"
  "total_blocks (fs @ gs) = total_blocks fs + total_blocks gs" "fblocks 0 = 0"
  by (simp_all add: total_blocks_def fblocks_def BSIZE_def)

lemma total_blocks_update:
  "i < length fs \<Longrightarrow> total_blocks (fs[i := f]) + fblocks (length (snd (fs ! i))) = total_blocks fs + fblocks (length (snd f))"
  by (induction fs arbitrary: i) (auto split: nat.splits)

lemma built_append:
  assumes b: "built s fs" and i: "i < length fs" "fs ! i = (t, c)" and max: "length c + length p \<le> MAXFILE * BSIZE"
    and fits: "59 + total_blocks (fs[i := (t, c @ p)]) \<le> 1000"
  shows "\<exists>s'. iappend (of_nat (Suc i)) p s = Some s' \<and> built s' (fs[i := (t, c @ p)])"
proof -
  note B = builtD[OF b]
  let ?gs = "fs[i := (t, c @ p)]"
  have i200: "Suc i < 200" using i(1) B(2) by simp
  have st: "stored (vdisk s) (Suc i) t c" using B(5)[OF i(1)] i(2) by simp
  have tb: "total_blocks ?gs + fblocks (length c) = total_blocks fs + fblocks (length c + length p)"
    using total_blocks_update[OF i(1), of "(t, c @ p)"] i(2) by simp
  have "unat (freeblock s) + fblocks (length c + length p) \<le> 1000 + fblocks (length c)"
    using fits tb B(4) by linarith
  then obtain s' where s': "iappend (of_nat (Suc i)) p s = Some s'" "mk_ok s'" "stored (vdisk s') (Suc i) t (c @ p)" "freeinode s' = freeinode s"
    "unat (freeblock s') + fblocks (length c) = unat (freeblock s) + fblocks (length c + length p)"
    and io: "\<And>j. j < 200 \<Longrightarrow> j \<noteq> Suc i \<Longrightarrow> ino (vdisk s') j = ino (vdisk s) j" "vdisk s' 1 = vdisk s 1"
    and o: "\<And>j t' c'. j < 200 \<Longrightarrow> j \<noteq> Suc i \<Longrightarrow> stored (vdisk s) j t' c' \<Longrightarrow> iblocks (vdisk s) (Suc i) \<inter> iblocks (vdisk s) j = {} \<Longrightarrow>
       stored (vdisk s') j t' c' \<and> iblocks (vdisk s') j = iblocks (vdisk s) j \<and> iblocks (vdisk s') (Suc i) \<inter> iblocks (vdisk s') j = {}"
    by (rule iappend_ok[OF B(1) st i200 max]) blast
  have oj: "stored (vdisk s') (Suc j) (fst (fs ! j)) (snd (fs ! j)) \<and> iblocks (vdisk s') (Suc j) = iblocks (vdisk s) (Suc j)
      \<and> iblocks (vdisk s') (Suc i) \<inter> iblocks (vdisk s') (Suc j) = {}" if "j < length fs" "j \<noteq> i" for j
    by (rule o[OF _ _ B(5)[OF that(1)]]) (use B(2) B(6)[OF i(1) that(1)] that in auto)
  have "built s' ?gs"
    unfolding built_def
  proof (intro conjI allI impI)
    show "unat (freeblock s') = 59 + total_blocks ?gs" using s'(5) tb B(4) by linarith
    show "stored (vdisk s') (Suc j) (fst (?gs ! j)) (snd (?gs ! j))" if "j < length ?gs" for j
      using oj[of j] s'(3) that by (cases "j = i") simp_all
    show "iblocks (vdisk s') (Suc j) \<inter> iblocks (vdisk s') (Suc k) = {}" if "j < length ?gs" "k < length ?gs" "j \<noteq> k" for j k
      using oj[of j] oj[of k] B(6)[of j k] that by (cases "j = i"; cases "k = i") (auto simp: Int_commute)
    show "d_type (ino (vdisk s') j) = 0" if "j < 200" "length ?gs < j" for j
      using io(1)[of j] B(7)[of j] that i(1) by simp
  qed (use s' io(2) B in simp_all)
  then show ?thesis using s'(1) by blast
qed

text \<open>A new inode is an empty file.\<close>

lemma file_addr_empty: "file_addr D (replicate (NDIRECT + 1) 0) i = 0"
  by (simp add: file_addr_def del: replicate_Suc add_Suc_right)

lemma file_blocks_empty: "file_blocks D (replicate (NDIRECT + 1) 0) = []"
proof -
  have "map (file_addr D (replicate (NDIRECT + 1) 0)) [0..<MAXFILE] = replicate MAXFILE 0"
    unfolding file_addr_empty by (rule nth_equalityI) simp_all
  moreover have "replicate (NDIRECT + 1) (0 :: u32) ! NDIRECT = 0" by (rule nth_replicate) simp
  ultimately show ?thesis by (simp add: file_blocks_def live_def)
qed

lemma stored_empty:
  assumes "ino D i = mk_dinode t 0 (replicate (NDIRECT + 1) 0)"
  shows "stored D i t []" "iblocks D i = {}"
proof -
  let ?z = "replicate (NDIRECT + 1) (0 :: u32)"
  have a: "d_addrs (ino D i) = ?z" by (simp add: assms mk_dinode_def)
  have n: "?z ! NDIRECT = 0" by (rule nth_replicate) simp
  have "fbyte D ?z k = 0" if "k < MAXFILE * BSIZE" for k
  proof -
    have "k div BSIZE < MAXFILE" using that by (simp add: less_mult_imp_div_less)
    then show ?thesis unfolding fbyte_def fblock_def file_addr_empty by (simp add: BSIZE_def)
  qed
  moreover have "packed mkfs_sb D ?z 0" unfolding packed_def wf_file_def n using file_addr_empty by simp
  ultimately show "stored D i t []" unfolding stored_def a by (simp add: assms)
  show "iblocks D i = {}" unfolding iblocks_def a file_blocks_empty by simp
qed

lemma inoalloc_ok:
  assumes b: "built s fs" and n: "length fs < 199"
  shows "\<exists>s'. inoalloc t s = (of_nat (Suc (length fs)), s') \<and> built s' (fs @ [(t, [])])"
proof -
  note B = builtD[OF b]
  let ?z = "replicate (NDIRECT + 1) (0 :: u32)" and ?i = "Suc (length fs)"
  define s1 where "s1 = s\<lparr>freeinode := freeinode s + 1\<rparr>"
  define d where "d = mk_dinode t 0 ?z"
  define s' where "s' = winode (of_nat ?i) d s1"
  have i: "?i < 200" using n by simp
  have s1: "mk_ok s1" "vdisk s1 = vdisk s" "freeblock s1 = freeblock s"
    using B(1) by (simp_all add: s1_def mk_ok_def vdisk_def)
  have len: "length (d_addrs d) = NDIRECT + 1" by (simp add: d_def mk_dinode_def)
  note wd = vdisk_wf[OF B(1)]
  have W: "vdisk s' = put_inode mkfs_sb (of_nat ?i) d (vdisk s)" "freeblock s' = freeblock s" "freeinode s' = freeinode s + 1"
    using winode_vdisk[OF s1(1) i] s1(2,3) by (simp_all add: s'_def) (simp add: s1_def)
  have inos: "ino (vdisk s') j = (if j = ?i then d else ino (vdisk s) j)" if "j < 200" for j
    unfolding W(1) by (rule put_inode_ino[OF wd i that len])
  have e: "ino (vdisk s') ?i = mk_dinode t 0 ?z" using inos[OF i] by (simp add: d_def)
  note new = stored_empty[OF e]
  have old: "stored (vdisk s') (Suc j) (fst (fs ! j)) (snd (fs ! j))" "iblocks (vdisk s') (Suc j) = iblocks (vdisk s) (Suc j)"
    if "j < length fs" for j
    unfolding W(1) using put_inode_stored[OF wd i _ len _ B(5)[OF that]] that n by simp_all
  have "built s' (fs @ [(t, [])])"
    unfolding built_def
  proof (intro conjI allI impI)
    show "mk_ok s'" unfolding s'_def by (rule winode_ok[OF s1(1) i len])
    show "freeinode s' = of_nat (Suc (length (fs @ [(t, [])])))" using W(3) B(3) by simp
    show "unat (freeblock s') = 59 + total_blocks (fs @ [(t, [])])" using W(2) B(4) by simp
    show "stored (vdisk s') (Suc j) (fst ((fs @ [(t, [])]) ! j)) (snd ((fs @ [(t, [])]) ! j))" if "j < length (fs @ [(t, [])])" for j
      using old(1)[of j] new(1) that by (cases "j = length fs") (simp_all add: nth_append)
    show "iblocks (vdisk s') (Suc j) \<inter> iblocks (vdisk s') (Suc k) = {}"
      if "j < length (fs @ [(t, [])])" "k < length (fs @ [(t, [])])" "j \<noteq> k" for j k
      using old(2)[of j] old(2)[of k] new(2) B(6)[of j k] that by (cases "j = length fs"; cases "k = length fs") simp_all
    show "d_type (ino (vdisk s') j) = 0" if "j < 200" "length (fs @ [(t, [])]) < j" for j
      using inos[of j] B(7)[of j] that by simp
    show "vdisk s' 1 = super_sector"
      using put_inode_data(5)[OF wd mkfs_inode(2)[OF i] len, of 1] mkfs_inode(3)[OF i] B(8) unfolding W(1) by auto
  qed (use n in simp)
  moreover have "inoalloc t s = (of_nat ?i, s')"
    using B(3) by (simp add: inoalloc_def Let_def s'_def s1_def d_def mk_dinode_def)
  ultimately show ?thesis by blast
qed

text \<open>The copy loop.\<close>

lemma append_chunks_ok:
  assumes "built s fs" and "i < length fs" "fs ! i = (t, c)" and "length c + length p \<le> MAXFILE * BSIZE"
    and "59 + total_blocks (fs[i := (t, c @ p)]) \<le> 1000"
  shows "\<exists>s'. append_chunks (of_nat (Suc i)) p s = Some s' \<and> built s' (fs[i := (t, c @ p)])"
  using assms
proof (induction "length p" arbitrary: p c s fs rule: less_induct)
  case less
  note i = less.prems(2,3)
  show ?case
  proof (cases "p = []")
    case True
    have "fs[i := (t, c)] = fs" using i by (metis list_update_id)
    then show ?thesis using True less.prems(1) by (simp add: append_chunks.simps)
  next
    case False
    let ?a = "take BSIZE p" and ?r = "drop BSIZE p"
    let ?gs = "fs[i := (t, c @ ?a)]"
    have r: "length ?r < length p" using False by (simp add: BSIZE_def)
    have l: "length c + length ?a \<le> length c + length p" by simp
    have la: "length c + length ?a \<le> MAXFILE * BSIZE" using l less.prems(4) by (rule le_trans)
    have "total_blocks ?gs \<le> total_blocks (fs[i := (t, c @ p)])"
      using total_blocks_update[OF i(1), of "(t, c @ ?a)"] total_blocks_update[OF i(1), of "(t, c @ p)"] fblocks_mono[OF l] by simp
    then have fa: "59 + total_blocks ?gs \<le> 1000" using less.prems(5) by linarith
    obtain s1 where s1: "iappend (of_nat (Suc i)) ?a s = Some s1" "built s1 ?gs"
      using built_append[OF less.prems(1) i la fa] by blast
    have up: "?gs[i := (t, (c @ ?a) @ ?r)] = fs[i := (t, c @ p)]" by simp
    have "\<exists>s'. append_chunks (of_nat (Suc i)) ?r s1 = Some s' \<and> built s' (?gs[i := (t, (c @ ?a) @ ?r)])"
    proof (rule less.hyps[OF r s1(2)])
      show "i < length ?gs" "?gs ! i = (t, c @ ?a)" using i by simp_all
      have "length (c @ ?a) + length ?r = length c + length p" by simp
      then show "length (c @ ?a) + length ?r \<le> MAXFILE * BSIZE" using less.prems(4) by presburger
      show "59 + total_blocks (?gs[i := (t, (c @ ?a) @ ?r)]) \<le> 1000" unfolding up by (rule less.prems(5))
    qed
    then show ?thesis unfolding up using False s1(1) by (subst append_chunks.simps) simp
  qed
qed

section \<open>The root directory and the files\<close>

definition mkfs_name :: "u8 list \<Rightarrow> u8 list" where
  "mkfs_name path = (case path of c # cs \<Rightarrow> if c = 95 then cs else path | [] \<Rightarrow> path)"

primrec root_entries :: "nat \<Rightarrow> (u8 list \<times> u8 list) list \<Rightarrow> u8 list" where
  "root_entries k [] = []"
| "root_entries k (f # fs) = dirent_bytes (of_nat k) (mkfs_name (fst f)) @ root_entries (Suc k) fs"

lemma length_dirent_bytes [simp]: "length (dirent_bytes i n) = 16"
  by (simp add: dirent_bytes_def enc_dirent_def DIRSIZ_def)

lemma length_root_entries [simp]: "length (root_entries k fs) = 16 * length fs"
  by (induction fs arbitrary: k) simp_all

abbreviation regular :: "u8 list \<times> u8 list \<Rightarrow> u16 \<times> u8 list" where
  "regular f \<equiv> (T_FILE, snd f)"

lemma store_file_ok:
  assumes b: "built s ((T_DIR, rc) # rest)" and f: "47 \<notin> set path" "length content \<le> MAXFILE * BSIZE"
    and n: "length rest < 198" and rc: "length rc + 16 \<le> MAXFILE * BSIZE"
    and fits: "59 + total_blocks ((T_DIR, rc @ dirent_bytes (of_nat (length rest + 2)) (mkfs_name path)) # rest @ [(T_FILE, content)]) \<le> 1000"
  shows "\<exists>s'. store_file path content s = Some s' \<and>
     built s' ((T_DIR, rc @ dirent_bytes (of_nat (length rest + 2)) (mkfs_name path)) # rest @ [(T_FILE, content)])"
proof -
  let ?e = "dirent_bytes (of_nat (length rest + 2)) (mkfs_name path)" and ?k = "Suc (length rest)"
  let ?fs = "((T_DIR, rc) # rest) @ [(T_FILE, [])]"
  let ?gs = "((T_DIR, rc @ ?e) # rest) @ [(T_FILE, [])]"
  obtain s1 where s1: "inoalloc T_FILE s = (of_nat (Suc ?k), s1)" "built s1 ?fs"
    using inoalloc_ok[OF b, of T_FILE] n by auto
  have up: "?fs[0 := (T_DIR, rc @ ?e)] = ?gs" by simp
  have "59 + total_blocks (?fs[0 := (T_DIR, rc @ ?e)]) \<le> 1000" unfolding up using fits by simp
  then obtain s2 where s2: "iappend (of_nat (Suc 0)) ?e s1 = Some s2" "built s2 ?gs"
    using built_append[OF s1(2), of 0 T_DIR rc ?e] rc unfolding up by auto
  have up2: "?gs[?k := (T_FILE, [] @ content)] = (T_DIR, rc @ ?e) # rest @ [(T_FILE, content)]" by simp
  have k: "?k < length ?gs" "?gs ! ?k = (T_FILE, [])" by (simp_all add: nth_append)
  obtain s3 where s3: "append_chunks (of_nat (Suc ?k)) content s2 = Some s3" "built s3 ((T_DIR, rc @ ?e) # rest @ [(T_FILE, content)])"
    using append_chunks_ok[OF s2(2) k, of content] f(2) fits unfolding up2 by auto
  have "(of_nat (Suc ?k) :: u32) = of_nat (length rest + 2)" "ROOTINO = of_nat (Suc 0)" by (simp_all add: ROOTINO_def)
  then show ?thesis
    using f(1) s1(1) s2(1) s3 by (simp add: store_file_def mkfs_name_def[symmetric] del: of_nat_Suc of_nat_add)
qed

lemma store_files_ok:
  assumes "built s ((T_DIR, rc) # rest)" and "\<forall>f\<in>set files. 47 \<notin> set (fst f) \<and> length (snd f) \<le> MAXFILE * BSIZE"
    and "length rest + length files \<le> 198" and "length rc + 16 * length files \<le> MAXFILE * BSIZE"
    and "59 + total_blocks ((T_DIR, rc @ root_entries (length rest + 2) files) # rest @ map regular files) \<le> 1000"
  shows "\<exists>s'. store_files files s = Some s' \<and> built s' ((T_DIR, rc @ root_entries (length rest + 2) files) # rest @ map regular files)"
  using assms
proof (induction files arbitrary: s rc rest)
  case (Cons f files)
  let ?e = "dirent_bytes (of_nat (length rest + 2)) (mkfs_name (fst f))"
  have len: "length (rest @ [regular f]) + 2 = Suc (length rest + 2)" by simp
  have "fblocks (length (rc @ ?e)) \<le> fblocks (length (rc @ root_entries (length rest + 2) (f # files)))" by (rule fblocks_mono) simp
  then have fits: "59 + total_blocks ((T_DIR, rc @ ?e) # rest @ [regular f]) \<le> 1000" using Cons.prems(5) by simp
  obtain s1 where s1: "store_file (fst f) (snd f) s = Some s1" "built s1 ((T_DIR, rc @ ?e) # rest @ [regular f])"
    using store_file_ok[OF Cons.prems(1) _ _ _ _ fits] Cons.prems(2-4) by auto
  have "\<exists>s'. store_files files s1 = Some s' \<and>
      built s' ((T_DIR, (rc @ ?e) @ root_entries (length (rest @ [regular f]) + 2) files) # (rest @ [regular f]) @ map regular files)"
    by (rule Cons.IH[OF s1(2)]) (use Cons.prems(2-5) len in simp_all)
  then show ?case unfolding len using s1(1) by simp
qed simp

section \<open>The whole program\<close>

lemma zero_sectors_img: "n \<le> 1000 \<Longrightarrow> img (zero_sectors n s) b = (if unat b < n then zeroes else img s b)"
proof (induction n)
  case (Suc n)
  then have "unat (of_nat n :: u32) = n" by (intro unat_of_nat_u32) simp
  then have "b = of_nat n \<longleftrightarrow> unat b = n" by (auto simp: word_eq_iff_unsigned)
  then show ?case using Suc by (auto simp: less_Suc_eq)
qed simp

lemma zero_sectors_fields [simp]:
  "msb (zero_sectors n s) = msb s" "freeblock (zero_sectors n s) = freeblock s" "freeinode (zero_sectors n s) = freeinode s"
  by (induction n) simp_all

lemma zero_dinode:
  assumes "i < 200" "D (IBLOCK (of_nat i) mkfs_sb) = zeroes"
  shows "d_type (ino D i) = 0"
proof -
  have "dinode_off (of_nat i) + 2 \<le> BSIZE" using dinode_off_bound[of "of_nat i"] by simp
  then show ?thesis using assms(2)
    by (simp add: ino_def disk_inode_def dec_dinode_def rd16_def slice_def zeroes_def numeral_2_eq_2)
qed

text \<open>The empty file system.\<close>

lemma built_empty:
  assumes len: "\<forall>b. length (img s b) = BSIZE"
  shows "built (wsect 1 super_sector (zero_sectors (unat FSSIZE) (s\<lparr>msb := mkfs_sb, freeinode := 1, freeblock := of_nat nmeta\<rparr>))) []"
proof -
  let ?s = "wsect 1 super_sector (zero_sectors (unat FSSIZE) (s\<lparr>msb := mkfs_sb, freeinode := 1, freeblock := of_nat nmeta\<rparr>))"
  have F: "unat FSSIZE = 1000" by (simp add: FSSIZE_def)
  have i: "img ?s b = (if b = 1 then super_sector else if unat b < 1000 then zeroes else img s b)" for b
    by (simp add: F zero_sectors_img)
  have l: "length super_sector = BSIZE" "length zeroes = BSIZE"
    by (simp_all add: super_sector_def zeroes_def length_blit BSIZE_def)
  have ok: "mk_ok ?s"
    unfolding mk_ok_def
  proof (intro conjI allI impI)
    show "img ?s b = replicate BSIZE 0" if "freeblock ?s \<le> b" "b < 1000" for b
    proof -
      have "unat b < 1000" "59 \<le> unat b" using that by (simp_all add: mkfs_numbers word_less_nat_alt word_le_nat_alt)
      then show ?thesis using i[of b] by (auto simp: zeroes_def)
    qed
    show "length (img ?s b) = BSIZE" for b using i[of b] l len by simp
  qed (simp_all add: mkfs_numbers)
  have "d_type (ino (vdisk ?s) j) = 0" if "j < 200" for j
  proof (rule zero_dinode[OF that])
    note ib = mkfs_inode(2,3)[OF that]
    have "IBLOCK (of_nat j) mkfs_sb \<noteq> 58" "IBLOCK (of_nat j) mkfs_sb \<noteq> 1" "unat (IBLOCK (of_nat j) mkfs_sb) < 1000"
      using ib by (auto simp: mkfs_numbers word_less_nat_alt)
    then show "vdisk ?s (IBLOCK (of_nat j) mkfs_sb) = zeroes" unfolding vdisk_def i by simp
  qed
  moreover have "vdisk ?s 1 = super_sector" using i[of 1] by (simp add: vdisk_def)
  ultimately show ?thesis
    using ok unfolding built_def by (simp add: mkfs_numbers)
qed

lemma mkfs_start_ok:
  assumes len: "\<forall>b. length (img s b) = BSIZE"
  shows "\<exists>s'. mkfs_start s = Some s' \<and> built s' [(T_DIR, dirent_bytes 1 [46] @ dirent_bytes 1 [46, 46])]"
proof -
  define s2 where "s2 = wsect 1 super_sector (zero_sectors (unat FSSIZE) (s\<lparr>msb := mkfs_sb, freeinode := 1, freeblock := of_nat nmeta\<rparr>))"
  let ?a = "dirent_bytes 1 [46]" and ?b = "dirent_bytes 1 [46, 46]"
  have b2: "built s2 []" unfolding s2_def by (rule built_empty[OF len])
  obtain s3 where s3: "inoalloc T_DIR s2 = (1, s3)" "built s3 [(T_DIR, [])]"
    using inoalloc_ok[OF b2, of T_DIR] by auto
  have f: "fblocks 16 = 1" "fblocks 32 = 1" by (simp_all add: fblocks_def fs_consts)
  obtain s4 where s4: "iappend 1 ?a s3 = Some s4" "built s4 [(T_DIR, ?a)]"
    using built_append[OF s3(2), of 0 T_DIR "[]" ?a] by (auto simp: f fs_consts)
  obtain s5 where s5: "iappend 1 ?b s4 = Some s5" "built s5 [(T_DIR, ?a @ ?b)]"
    using built_append[OF s4(2), of 0 T_DIR ?a ?b] by (auto simp: f fs_consts)
  have "mkfs_start s = Some s5"
    using s3(1) s4(1) s5(1) unfolding mkfs_start_def Let_def super_sector_def[symmetric] s2_def[symmetric]
    by (simp add: ROOTINO_def)
  then show ?thesis using s5(2) by blast
qed

text \<open>The image when all is done: the files, the root directory with its size rounded up, the bitmap.\<close>

definition root_bytes :: "(u8 list \<times> u8 list) list \<Rightarrow> u8 list" where
  "root_bytes files = dirent_bytes 1 [46] @ dirent_bytes 1 [46, 46] @ root_entries 2 files"

definition root_size :: "(u8 list \<times> u8 list) list \<Rightarrow> nat" where
  "root_size files = (length (root_bytes files) div BSIZE + 1) * BSIZE"

lemma length_root_bytes [simp]: "length (root_bytes files) = 32 + 16 * length files"
  by (simp add: root_bytes_def)

lemma mkfs_finish_ok:
  assumes b: "built s ((T_DIR, rc) # rest)" and rc: "length rc \<le> 4096" and fb: "total_blocks ((T_DIR, rc) # rest) \<le> 941"
  defines "n \<equiv> (length rc div BSIZE + 1) * BSIZE"
  shows "\<exists>s'. mkfs_finish s = Some s' \<and>
    img s' = put_inode mkfs_sb 1 (mk_dinode T_DIR n (d_addrs (ino (vdisk s) 1))) (vdisk s) \<and> freeblock s' = freeblock s"
proof -
  note B = builtD[OF b]
  have st: "stored (vdisk s) 1 T_DIR rc" using B(5)[of 0] by simp
  note D = storedD[OF st]
  define d where "d = mk_dinode T_DIR n (d_addrs (ino (vdisk s) 1))"
  have "d_size (ino (vdisk s) 1) = of_nat (length rc)" by (subst D(1)) (simp add: mk_dinode_def)
  then have sz: "unat (d_size (ino (vdisk s) 1)) = length rc" using rc by (simp add: unat_of_nat_u32)
  have dd: "(ino (vdisk s) 1)\<lparr>d_size := of_nat n\<rparr> = d" unfolding d_def by (subst D(1)) (simp add: mk_dinode_def)
  define s1 where "s1 = winode 1 d s"
  have W: "vdisk s1 = put_inode mkfs_sb 1 d (vdisk s)" "freeblock s1 = freeblock s" "msb s1 = mkfs_sb"
    using winode_vdisk(1,3)[OF B(1), of 1] mk_okD(1)[OF B(1)] by (simp_all add: s1_def) (simp add: winode_def Let_def)
  have u: "unat (freeblock s) \<le> 1000" using B(4) fb by simp
  then have si: "sint (freeblock s) = int (unat (freeblock s))" by (intro sint_small_u32) simp
  have "int (unat (freeblock s)) < 4096" using u by linarith
  then have lt: "uint (freeblock s) < 4096" by simp
  have "mkfs_finish s = mkfs_balloc (sint (freeblock s1)) s1"
    using winode_vdisk(2)[OF B(1), of 1] sz dd by (simp add: mkfs_finish_def ROOTINO_def n_def s1_def Let_def)
  also have "\<dots> = Some (wsect 58 (mkfs_bits (unat (freeblock s1)) (replicate BSIZE 0)) s1)"
    using lt si W(2,3) by (simp add: mkfs_balloc_def BSIZE_def mkfs_numbers)
  finally show ?thesis using W(1,2) by (simp add: vdisk_def d_def)
qed

definition image_files :: "(u8 list \<times> u8 list) list \<Rightarrow> (u16 \<times> u8 list) list" where
  "image_files files = (T_DIR, root_bytes files) # map regular files"

text \<open>The files fit: at most 198 of them, none too long, and enough blocks for all and the root directory.\<close>

definition mkfs_fits :: "(u8 list \<times> u8 list) list \<Rightarrow> bool" where
  "mkfs_fits files \<longleftrightarrow> length files \<le> 198 \<and> (\<forall>f\<in>set files. 47 \<notin> set (fst f) \<and> length (snd f) \<le> MAXFILE * BSIZE)
     \<and> 59 + total_blocks (image_files files) \<le> 1000"

lemma mkfs_main_built:
  assumes len: "\<forall>b. length (img s b) = BSIZE" and fits: "mkfs_fits files"
  shows "\<exists>s1 s'. mkfs_main files s = Some s' \<and> built s1 (image_files files) \<and>
    img s' = put_inode mkfs_sb 1 (mk_dinode T_DIR (root_size files) (d_addrs (ino (vdisk s1) 1))) (vdisk s1) \<and> freeblock s' = freeblock s1"
proof -
  let ?rc = "dirent_bytes 1 [46] @ dirent_bytes 1 [46, 46]"
  have F: "length files \<le> 198" "\<forall>f\<in>set files. 47 \<notin> set (fst f) \<and> length (snd f) \<le> MAXFILE * BSIZE"
    "59 + total_blocks (image_files files) \<le> 1000"
    using fits by (simp_all add: mkfs_fits_def)
  obtain s0 where s0: "mkfs_start s = Some s0" "built s0 [(T_DIR, ?rc)]" using mkfs_start_ok[OF len] by blast
  have e: "(T_DIR, ?rc @ root_entries (length ([] :: (u16 \<times> u8 list) list) + 2) files) # [] @ map regular files = image_files files"
    by (simp add: image_files_def root_bytes_def numeral_2_eq_2)
  have "\<exists>s1. store_files files s0 = Some s1 \<and> built s1 ((T_DIR, ?rc @ root_entries (length ([] :: (u16 \<times> u8 list) list) + 2) files) # [] @ map regular files)"
  proof (rule store_files_ok[OF s0(2) F(2)])
    show "length ([] :: (u16 \<times> u8 list) list) + length files \<le> 198" "length ?rc + 16 * length files \<le> MAXFILE * BSIZE"
      using F(1) by (simp_all add: fs_consts)
    show "59 + total_blocks ((T_DIR, ?rc @ root_entries (length ([] :: (u16 \<times> u8 list) list) + 2) files) # [] @ map regular files) \<le> 1000"
      unfolding e by (rule F(3))
  qed
  then obtain s1 where s1: "store_files files s0 = Some s1" "built s1 (image_files files)" unfolding e by blast
  have l: "length (root_bytes files) \<le> 4096" using F(1) by simp
  have t: "total_blocks (image_files files) \<le> 941" using F(3) by simp
  obtain s' where "mkfs_finish s1 = Some s'"
    "img s' = put_inode mkfs_sb 1 (mk_dinode T_DIR (root_size files) (d_addrs (ino (vdisk s1) 1))) (vdisk s1)" "freeblock s' = freeblock s1"
    using mkfs_finish_ok[OF s1(2)[unfolded image_files_def] l t[unfolded image_files_def]] unfolding root_size_def by blast
  then show ?thesis using s0(1) s1 by (simp add: mkfs_main_def) blast
qed

text \<open>What the kernel finds on the disk: a well-formed file system, on it the files as inodes 2, 3, \<dots> and the root
  directory as inode 1, none sharing a block, every other inode free, and every block not needed for these still free.\<close>

definition image_of :: "(u8 list \<times> u8 list) list \<Rightarrow> (u32 \<Rightarrow> u8 list) \<Rightarrow> bool" where
  "image_of files D \<longleftrightarrow> wf_disk mkfs_sb D \<and> dec_superblock (D 1) = mkfs_sb
    \<and> nfree mkfs_sb D = 941 - total_blocks (image_files files)
    \<and> (\<forall>i<length files. stored D (i + 2) T_FILE (snd (files ! i)))
    \<and> ino D 1 = mk_dinode T_DIR (root_size files) (d_addrs (ino D 1)) \<and> packed mkfs_sb D (d_addrs (ino D 1)) (length (root_bytes files))
    \<and> (\<forall>k<MAXFILE * BSIZE. fbyte D (d_addrs (ino D 1)) k = (if k < length (root_bytes files) then root_bytes files ! k else 0))
    \<and> (\<forall>i<length files + 1. \<forall>j<length files + 1. i \<noteq> j \<longrightarrow> iblocks D (Suc i) \<inter> iblocks D (Suc j) = {})
    \<and> (\<forall>j<200. length files + 1 < j \<longrightarrow> d_type (ino D j) = 0)"

lemma mkfs_main_ok:
  assumes len: "\<forall>b. length (img s b) = BSIZE" and fits: "mkfs_fits files"
  obtains s' where "mkfs_main files s = Some s'" "image_of files (img s')"
proof -
  obtain s1 s' where m: "mkfs_main files s = Some s'" "built s1 (image_files files)"
    "img s' = put_inode mkfs_sb 1 (mk_dinode T_DIR (root_size files) (d_addrs (ino (vdisk s1) 1))) (vdisk s1)"
    "freeblock s' = freeblock s1"
    using mkfs_main_built[OF assms] by blast
  note B = builtD[OF m(2)]
  let ?as = "d_addrs (ino (vdisk s1) 1)"
  let ?d = "mk_dinode T_DIR (root_size files) ?as"
  have lf: "length (image_files files) = Suc (length files)" "length files < 199"
    using fits by (simp_all add: image_files_def mkfs_fits_def)
  have st: "stored (vdisk s1) 1 T_DIR (root_bytes files)" using B(5)[of 0] by (simp add: image_files_def)
  note D = storedD[OF st] and wd = vdisk_wf[OF B(1)] and ib = mkfs_inode(2)[of 1, simplified]
  have dl: "d_addrs ?d = ?as" by (simp add: mk_dinode_def)
  have L: "length (d_addrs ?d) = NDIRECT + 1" unfolding dl by (rule wf_fileD(1)[OF packedD(1)[OF D(2)]])
  have ib1: "IBLOCK 1 mkfs_sb < sb_bmapstart mkfs_sb" using mkfs_inode(2)[of 1] by simp
  note pd = put_inode_data[OF wd ib1 L] and pf = put_inode_file[OF wd ib1 L packedD(1)[OF D(2)]]
  have oth: "stored (img s') j t c \<and> iblocks (img s') j = iblocks (vdisk s1) j" if "j < 200" "j \<noteq> 1" "stored (vdisk s1) j t c" for j t c
    using put_inode_stored[OF wd, of 1 j ?d] that L by (simp add: m(3))
  have inos: "ino (img s') j = (if j = 1 then ?d else ino (vdisk s1) j)" if "j < 200" for j
    using put_inode_ino[OF wd, of 1 j ?d] that L by (simp add: m(3))
  have i1: "ino (img s') 1 = ?d" using inos[of 1] by simp
  have w: "wf_disk mkfs_sb (img s')" unfolding m(3) by (rule pd(1))
  have b1: "dec_superblock (img s' 1) = mkfs_sb"
  proof -
    have "img s' 1 = super_sector" using pd(5)[of 1] mkfs_inode(3)[of 1] B(8) unfolding m(3) by auto
    then show ?thesis using dec_enc_superblock[of mkfs_sb] by (simp add: super_sector_def blit_def)
  qed
  have nf: "nfree mkfs_sb (img s') = 941 - total_blocks (image_files files)"
  proof -
    have "used mkfs_sb (img s') k \<longleftrightarrow> k < unat (freeblock s1)" if "k < 1000" for k
      using used_vdisk[OF B(1), of k] that pd(2) unfolding m(3) by simp
    then have "{k. k < unat (sb_size mkfs_sb) \<and> \<not> used mkfs_sb (img s') k} = {unat (freeblock s1)..<1000}"
      by (auto simp: mkfs_numbers)
    then show ?thesis unfolding nfree_def using B(4) by simp
  qed
  have files: "stored (img s') (i + 2) T_FILE (snd (files ! i))" if "i < length files" for i
    using oth[of "i + 2"] B(5)[of "Suc i"] lf that by (simp add: image_files_def)
  have ia: "d_addrs (ino (img s') 1) = ?as" by (simp only: i1 dl)
  have root: "ino (img s') 1 = mk_dinode T_DIR (root_size files) ?as \<and> packed mkfs_sb (img s') ?as (length (root_bytes files))
     \<and> (\<forall>k<MAXFILE * BSIZE. fbyte (img s') ?as k = (if k < length (root_bytes files) then root_bytes files ! k else 0))"
    using i1 D(2,3) pf(1-3) unfolding m(3) packed_def by auto
  have ibl: "iblocks (img s') (Suc i) = iblocks (vdisk s1) (Suc i)" if "i < length files + 1" for i
  proof (cases "i = 0")
    case True
    have "iblocks (img s') 1 = iblocks (vdisk s1) 1" unfolding iblocks_def i1 dl unfolding m(3) pf(4) ..
    then show ?thesis using True by simp
  next
    case False
    then show ?thesis using oth[of "Suc i"] B(5)[of i] that lf by simp
  qed
  have dj: "iblocks (img s') (Suc i) \<inter> iblocks (img s') (Suc j) = {}" if "i < length files + 1" "j < length files + 1" "i \<noteq> j" for i j
    using ibl[OF that(1)] ibl[OF that(2)] B(6)[of i j] that lf by simp
  have free: "d_type (ino (img s') j) = 0" if "j < 200" "length files + 1 < j" for j
    using inos[OF that(1)] B(7)[OF that(1)] that lf by auto
  have "image_of files (img s')"
    unfolding image_of_def ia using w b1 nf files root dj free by blast
  then show ?thesis using m(1) by (intro that)
qed

end
