(* ===== verification/Mkfs_Boot.thy ===== *)
theory Mkfs_Boot
  imports Path Mkfs_Image
begin

text \<open>
  The disk image of utils/mkfs.c under the kernel: its root directory and files form a tree in the sense of \<open>Path\<close>, so \<open>namei\<close>
  finds every file stored on it by its name, and \<open>readi\<close> returns what was stored.
\<close>

section \<open>The root directory, entry by entry\<close>

definition root_list :: "(u8 list \<times> u8 list) list \<Rightarrow> (u32 \<times> u8 list) list" where
  "root_list files = (1, [46]) # (1, [46, 46]) # map (\<lambda>k. (of_nat (k + 2), mkfs_name (fst (files ! k)))) [0..<length files]"

definition chunk :: "u32 \<times> u8 list \<Rightarrow> u8 list" where
  "chunk p = dirent_bytes (fst p) (snd p)"

lemma length_chunk [simp]: "length (chunk p) = 16"
  by (simp add: chunk_def)

lemma length_chunks: "length (concat (map chunk ps)) = 16 * length ps"
  by (induction ps) simp_all

lemma entry_chunks: "k < length ps \<Longrightarrow> entry (concat (map chunk ps) @ rest) k = chunk (ps ! k)"
proof (induction ps arbitrary: k)
  case (Cons p ps)
  show ?case
  proof (cases k)
    case (Suc j)
    have "entry (chunk p @ (concat (map chunk ps) @ rest)) (Suc j) = entry (concat (map chunk ps) @ rest) j"
      by (simp add: entry_def slice_def)
    then show ?thesis using Cons Suc by simp
  qed (simp add: entry_def slice_def)
qed simp

lemma root_entries_chunks:
  "root_entries k files = concat (map chunk (map (\<lambda>j. (of_nat (j + k), mkfs_name (fst (files ! j)))) [0..<length files]))"
proof (induction files arbitrary: k)
  case (Cons f files)
  have "[0..<length (f # files)] = 0 # map Suc [0..<length files]" by (simp add: upt_conv_Cons map_Suc_upt del: upt_Suc)
  then show ?case using Cons[of "Suc k"] by (simp add: chunk_def comp_def add.assoc del: upt_Suc)
qed simp

lemma root_bytes_chunks: "root_bytes files = concat (map chunk (root_list files))"
  by (simp add: root_bytes_def root_list_def root_entries_chunks chunk_def)

lemma length_root_list [simp]: "length (root_list files) = length files + 2"
  by (simp add: root_list_def)

lemma chunk_fields: "de_inum (chunk (i, n)) = ucast i" "de_name (chunk (i, n)) = padded DIRSIZ n"
  using dirent_roundtrip[of "padded DIRSIZ n" "ucast i"] by (simp_all add: chunk_def dirent_bytes_def)

lemma str_of_clean: "0 \<notin> set n \<Longrightarrow> str_of n = n"
  by (auto simp: str_of_def takeWhile_eq_all_conv)

lemma names_chunk: "0 \<notin> set n \<Longrightarrow> 0 \<notin> set e \<Longrightarrow> names e (chunk (i, n)) \<longleftrightarrow> (ucast i :: u16) \<noteq> 0 \<and> take DIRSIZ e = take DIRSIZ n"
  using str_of_padded[of DIRSIZ n] by (simp add: names_def chunk_fields str_of_clean)

lemma entry_zeros: "16 * k + 16 \<le> length c + m \<Longrightarrow> length c \<le> 16 * k \<Longrightarrow> de_inum (entry (c @ replicate m 0) k) = 0"
  by (simp add: entry_def slice_def de_inum_def rd16_def min_def drop_replicate numeral_2_eq_2)

lemma ucast_of_nat16: "(ucast (of_nat k :: u32) :: u16) = of_nat k"
  by (rule bit_word_eqI) (auto simp: bit_simps)

text \<open>The names of the files: clean strings, different from each other and from the two dots even when cut to \<open>DIRSIZ\<close> bytes.\<close>

definition names_ok :: "(u8 list \<times> u8 list) list \<Rightarrow> bool" where
  "names_ok files \<longleftrightarrow> (\<forall>f\<in>set files. 0 \<notin> set (fst f) \<and> 47 \<notin> set (fst f) \<and> mkfs_name (fst f) \<noteq> []
       \<and> take DIRSIZ (mkfs_name (fst f)) \<notin> {[46], [46, 46]})
     \<and> distinct (map (\<lambda>f. take DIRSIZ (mkfs_name (fst f))) files)"

lemma set_mkfs_name: "set (mkfs_name p) \<subseteq> set p"
  by (auto simp: mkfs_name_def split: list.splits if_splits)

lemma root_find:
  assumes n: "names_ok files" and l: "length files < 199" and i: "i < length files"
  shows "dir_find (mkfs_name (fst (files ! i))) (root_bytes files @ replicate m 0) = Some (i + 2)"
    and "de_inum (entry (root_bytes files @ replicate m 0) (i + 2)) = of_nat (i + 2)"
proof -
  let ?e = "mkfs_name (fst (files ! i))" and ?c = "root_bytes files @ replicate m 0"
  have clean: "0 \<notin> set (mkfs_name (fst (files ! j)))" if "j < length files" for j
    using n set_mkfs_name[of "fst (files ! j)"] nth_mem[OF that] by (auto simp: names_ok_def)
  have ent: "entry ?c k = chunk (root_list files ! k)" if "k < length files + 2" for k
    unfolding root_bytes_chunks by (rule entry_chunks) (use that in simp)
  have rl: "root_list files ! k = (if k < 2 then (1, replicate (Suc k) 46) else (of_nat k, mkfs_name (fst (files ! (k - 2)))))"
    if "k < length files + 2" for k
    using that by (cases k; cases "k - 1") (auto simp: root_list_def nth_Cons' simp del: of_nat_Suc)
  have nz: "(of_nat k :: u16) \<noteq> 0" if "k < 1000" "k \<noteq> 0" for k
  proof -
    have "unat (of_nat k :: u16) = k mod 65536" by (simp add: unat_of_nat)
    then show ?thesis using that by auto
  qed
  show "de_inum (entry ?c (i + 2)) = of_nat (i + 2)" using ent[of "i + 2"] rl[of "i + 2"] i ucast_of_nat16[of "i + 2"] by (simp add: chunk_fields)
  have tk: "take DIRSIZ ?e \<noteq> [46]" "take DIRSIZ ?e \<noteq> [46, 46]" using n nth_mem[OF i] by (auto simp: names_ok_def)
  show "dir_find ?e ?c = Some (i + 2)"
    unfolding dir_find_def
  proof (rule find_unique)
    show "names ?e (entry ?c (i + 2))"
      using ent[of "i + 2"] rl[of "i + 2"] i l nz[of "i + 2"] ucast_of_nat16[of "i + 2"] clean[OF i] by (simp add: names_chunk)
    have "16 * (length files + 2) \<le> length ?c" by simp
    then show "i + 2 < nentries ?c" using i by (simp add: nentries_def)
    fix k assume k: "k < nentries ?c" "k \<noteq> i + 2"
    show "\<not> names ?e (entry ?c k)"
    proof (cases "k < length files + 2")
      case False
      then have "de_inum (entry ?c k) = 0" using k(1) by (intro entry_zeros) (simp_all add: nentries_def)
      then show ?thesis by (simp add: names_def)
    next
      case True
      show ?thesis
      proof (cases "k < 2")
        case True
        then have "k = 0 \<or> k = 1" by auto
        then show ?thesis using ent[of k] rl[of k] tk clean[OF i]
          by (auto simp: names_chunk fs_consts)
      next
        case False
        let ?j = "k - 2"
        have j: "?j < length files" "?j \<noteq> i" using True False k(2) by auto
        have "take DIRSIZ ?e \<noteq> take DIRSIZ (mkfs_name (fst (files ! ?j)))"
          using n i j unfolding names_ok_def distinct_conv_nth by auto
        then show ?thesis using ent[OF True] rl[OF True] False clean[OF i] clean[OF j(1)] by (simp add: names_chunk)
      qed
    qed
  qed
qed

section \<open>The tree on the image\<close>

lemma ucast_small: "k < 65536 \<Longrightarrow> (ucast (of_nat k :: u16) :: u32) = of_nat k"
  by (simp add: word_eq_iff_unsigned unsigned_ucast_eq unsigned_of_nat take_bit_nat_eq_self)

lemma imageD:
  assumes "image_of files D"
  shows "wf_disk mkfs_sb D" "dec_superblock (D 1) = mkfs_sb" "i < length files \<Longrightarrow> stored D (i + 2) T_FILE (snd (files ! i))"
    "ino D 1 = mk_dinode T_DIR (root_size files) (d_addrs (ino D 1))" "packed mkfs_sb D (d_addrs (ino D 1)) (length (root_bytes files))"
    "k < MAXFILE * BSIZE \<Longrightarrow> fbyte D (d_addrs (ino D 1)) k = (if k < length (root_bytes files) then root_bytes files ! k else 0)"
  using assms unfolding image_of_def by blast+

lemma root_size_bounds:
  assumes "length files \<le> 198"
  shows "length (root_bytes files) \<le> root_size files" "root_size files \<le> 3584" "16 dvd root_size files"
    "length files mod 32 \<noteq> 30 \<Longrightarrow> BSIZE * j < root_size files \<Longrightarrow> BSIZE * j < length (root_bytes files)"
proof -
  let ?n = "length (root_bytes files)"
  obtain q w where qw: "?n = 512 * q + w" "w < 512" "?n div 512 = q" "?n mod 512 = w"
    by (metis mult_div_mod_eq mod_less_divisor zero_less_numeral)
  have rs: "root_size files = 512 * q + 512" unfolding root_size_def BSIZE_def qw(3) by simp
  show "?n \<le> root_size files" using qw(1,2) rs by simp
  have "?n \<le> 3200" using assms by simp
  then have "q \<le> 6" using qw(1) by linarith
  then show "root_size files \<le> 3584" using rs by simp
  show "16 dvd root_size files" unfolding rs by (rule dvd_add) (simp_all add: dvd_mult2)
  show "BSIZE * j < ?n" if "length files mod 32 \<noteq> 30" "BSIZE * j < root_size files"
  proof -
    have "w \<noteq> 0"
    proof
      assume "w = 0"
      then have "512 * q = 16 * (length files + 2)" using qw(1) by simp
      then have "length files + 2 = 32 * q" by simp
      then have "(length files + 2) mod 32 = 0" by simp
      then show False using that(1) by presburger
    qed
    moreover have "j \<le> q" using that(2) rs by (simp add: BSIZE_def)
    ultimately show ?thesis using qw(1) by (simp add: BSIZE_def)
  qed
qed

lemma stored_disk_file:
  assumes st: "stored D i t c" and i: "i < 200" and t: "t \<noteq> 0"
  shows "disk_file mkfs_sb D (of_nat i)" "disk_bytes mkfs_sb D (of_nat i) = c" "d_type (ino D i) = t" "unat (d_size (ino D i)) = length c"
proof -
  note S = storedD[OF st]
  note p = packedD[OF S(2)]
  have f: "d_type (ino D i) = t" "d_nlink (ino D i) = 1" "d_size (ino D i) = of_nat (length c)"
    by (subst S(1), simp add: mk_dinode_def)+
  show sz: "unat (d_size (ino D i)) = length c" using p(2) by (simp add: f(3) unat_of_nat_u32 fs_consts)
  show "d_type (ino D i) = t" by (rule f(1))
  have nh: "file_addr D (d_addrs (ino D i)) j \<noteq> 0" if "BSIZE * j < length c" for j
  proof -
    have "j < MAXFILE" using that p(2) by (simp add: fs_consts)
    then show ?thesis using p(3) that by blast
  qed
  show "disk_file mkfs_sb D (of_nat i)"
    unfolding disk_file_def Let_def ino_def[symmetric] sz
    using p(1,2) nh mkfs_inode(2,3)[OF i] t f(1,2) by simp
  show "disk_bytes mkfs_sb D (of_nat i) = c"
    unfolding disk_bytes_def ino_def[symmetric] sz
    using S(3) p(2) by (intro nth_equalityI) simp_all
qed

lemma root_disk:
  assumes im: "image_of files D" and l: "length files \<le> 198" and h: "length files mod 32 \<noteq> 30"
  shows "disk_file mkfs_sb D 1" "disk_bytes mkfs_sb D 1 = root_bytes files @ replicate (root_size files - length (root_bytes files)) 0"
    "d_type (disk_inode mkfs_sb D 1) = T_DIR" "unat (d_size (disk_inode mkfs_sb D 1)) = root_size files"
proof -
  note I = imageD[OF im] and R = root_size_bounds[OF l]
  note p = packedD[OF I(5)]
  have e: "disk_inode mkfs_sb D 1 = ino D 1" by (simp add: ino_def)
  have f: "d_type (ino D 1) = T_DIR" "d_nlink (ino D 1) = 1" "d_size (ino D 1) = of_nat (root_size files)"
    by (subst I(4), simp add: mk_dinode_def)+
  show sz: "unat (d_size (disk_inode mkfs_sb D 1)) = root_size files" using R(2) unfolding e f by (simp add: unat_of_nat_u32)
  show "d_type (disk_inode mkfs_sb D 1) = T_DIR" unfolding e by (rule f(1))
  have nh: "file_addr D (d_addrs (ino D 1)) j \<noteq> 0" if "BSIZE * j < root_size files" for j
  proof -
    have "j < MAXFILE" using that R(2) by (simp add: fs_consts)
    then show ?thesis using p(3) R(4)[OF h that] by blast
  qed
  have ib: "1 < IBLOCK 1 mkfs_sb" "IBLOCK 1 mkfs_sb < sb_bmapstart mkfs_sb" using mkfs_inode(2,3)[of 1] by simp_all
  show "disk_file mkfs_sb D 1"
    unfolding disk_file_def Let_def sz unfolding e
    using p(1) R(2) nh ib f(1,2) by (simp add: fs_consts)
  show "disk_bytes mkfs_sb D 1 = root_bytes files @ replicate (root_size files - length (root_bytes files)) 0"
    unfolding disk_bytes_def sz unfolding e
  proof (rule nth_equalityI)
    show "length (map (fbyte D (d_addrs (ino D 1))) [0..<root_size files])
      = length (root_bytes files @ replicate (root_size files - length (root_bytes files)) 0)" using R(1) by simp
    fix k assume "k < length (map (fbyte D (d_addrs (ino D 1))) [0..<root_size files])"
    then have "k < root_size files" "k < MAXFILE * BSIZE" using R(2) by (simp_all add: fs_consts)
    then show "map (fbyte D (d_addrs (ino D 1))) [0..<root_size files] ! k
      = (root_bytes files @ replicate (root_size files - length (root_bytes files)) 0) ! k"
      using I(6) by (simp add: nth_append)
  qed
qed

definition image_inodes :: "(u8 list \<times> u8 list) list \<Rightarrow> u32 set" where
  "image_inodes files = of_nat ` {1..length files + 1}"

lemma root_inums:
  assumes k: "k < nentries (root_bytes files @ replicate m 0)" and nz: "de_inum (entry (root_bytes files @ replicate m 0) k) \<noteq> 0"
    and l: "length files \<le> 198"
  shows "ucast (de_inum (entry (root_bytes files @ replicate m 0) k)) \<in> image_inodes files"
proof -
  let ?c = "root_bytes files @ replicate m 0"
  have kn: "k < length files + 2"
  proof (rule ccontr)
    assume "\<not> k < length files + 2"
    then have "de_inum (entry ?c k) = 0" using k by (intro entry_zeros) (simp_all add: nentries_def)
    then show False using nz by simp
  qed
  have ent: "entry ?c k = chunk (root_list files ! k)"
    unfolding root_bytes_chunks by (rule entry_chunks) (use kn in simp)
  obtain j where j: "fst (root_list files ! k) = of_nat j" "1 \<le> j" "j \<le> length files + 1"
  proof (cases "k < 2")
    case True
    then have "fst (root_list files ! k) = of_nat 1" by (auto simp: root_list_def nth_Cons' less_2_cases_iff)
    then show ?thesis by (rule that) auto
  next
    case False
    then have "fst (root_list files ! k) = of_nat k" using kn by (cases k; cases "k - 1") (auto simp: root_list_def simp del: of_nat_Suc)
    then show ?thesis by (rule that) (use False kn in auto)
  qed
  have "de_inum (entry ?c k) = ucast (of_nat j :: u32)" using chunk_fields(1)[of "fst (root_list files ! k)" "snd (root_list files ! k)", unfolded prod.collapse]
    unfolding ent j(1) .
  moreover have "(ucast (ucast (of_nat j :: u32) :: u16) :: u32) = of_nat j"
    unfolding ucast_of_nat16 using j(3) l by (intro ucast_small) simp
  ultimately show ?thesis using j(2,3) by (simp add: image_inodes_def)
qed

lemma image_tree:
  assumes im: "image_of files D" and l: "length files \<le> 198" and h: "length files mod 32 \<noteq> 30"
  shows "dir_tree mkfs_sb D (image_inodes files)"
  unfolding dir_tree_def
proof (intro ballI)
  note R = root_disk[OF assms]
  fix i assume "i \<in> image_inodes files"
  then obtain j where j: "i = of_nat j" "1 \<le> j" "j \<le> length files + 1" by (auto simp: image_inodes_def)
  show "disk_file mkfs_sb D i \<and> (d_type (disk_inode mkfs_sb D i) = T_DIR \<longrightarrow>
      16 dvd unat (d_size (disk_inode mkfs_sb D i)) \<and>
      (\<forall>k<nentries (disk_bytes mkfs_sb D i). de_inum (entry (disk_bytes mkfs_sb D i) k) \<noteq> 0 \<longrightarrow>
        ucast (de_inum (entry (disk_bytes mkfs_sb D i) k)) \<in> image_inodes files))"
  proof (cases "j = 1")
    case True
    then have "i = 1" using j(1) by simp
    then show ?thesis using R root_size_bounds(3)[OF l] root_inums[OF _ _ l] by simp
  next
    case False
    then have "stored D ((j - 2) + 2) T_FILE (snd (files ! (j - 2)))" using j by (intro imageD(3)[OF im]) auto
    moreover have "j - 2 + 2 = j" using False j(2) by simp
    ultimately have st: "stored D j T_FILE (snd (files ! (j - 2)))" by simp
    have "j < 200" "T_FILE \<noteq> 0" using j(3) l by (simp_all add: T_FILE_def)
    note s = stored_disk_file[OF st this]
    have "d_type (disk_inode mkfs_sb D i) = T_FILE" using s(3) by (simp add: ino_def j(1))
    then show ?thesis using s(1) j(1) by (simp add: T_FILE_def T_DIR_def)
  qed
qed

section \<open>Finding and reading a file of the image\<close>

lemma image_walk:
  assumes im: "image_of files D" and l: "length files \<le> 198" and h: "length files mod 32 \<noteq> 30" and n: "names_ok files"
    and i: "i < length files"
  shows "walk mkfs_sb D False 1 [mkfs_name (fst (files ! i))] = Some (of_nat (i + 2))"
proof -
  note R = root_disk[OF im l h]
  have l': "length files < 199" using l by simp
  note F = root_find[OF n l' i]
  have "(ucast (of_nat (i + 2) :: u16) :: u32) = of_nat (i + 2)" using i l by (intro ucast_small) simp
  then show ?thesis using R(2,3) F by (simp del: of_nat_add)
qed

text \<open>The path to the file: a slash and its name.\<close>

definition path_of :: "u8 list \<times> u8 list \<Rightarrow> u8 list" where
  "path_of f = 47 # mkfs_name (fst f)"

lemma path_of_elems:
  assumes "names_ok files" "f \<in> set files"
  shows "path_elems (path_of f) = [mkfs_name (fst f)]" "0 \<notin> set (path_of f)"
proof -
  have c: "0 \<notin> set (mkfs_name (fst f))" "47 \<notin> set (mkfs_name (fst f))" "mkfs_name (fst f) \<noteq> []"
    using assms set_mkfs_name[of "fst f"] by (auto simp: names_ok_def)
  show "0 \<notin> set (path_of f)" using c(1) by (simp add: path_of_def)
  obtain a b where ab: "mkfs_name (fst f) = a # b" using c(3) by (cases "mkfs_name (fst f)") auto
  have "takeWhile (\<lambda>x. x \<noteq> 47) b = b" "dropWhile (\<lambda>x. x \<noteq> 47) b = []" "a \<noteq> 47"
    using c(2) by (auto simp: ab takeWhile_eq_all_conv dropWhile_eq_Nil_conv)
  then show "path_elems (path_of f) = [mkfs_name (fst f)]" by (simp add: path_of_def ab del: dropWhile_eq_Nil_conv)
qed

text \<open>A kernel that has mounted the image and has no inode in use.\<close>

definition mounted :: "(u8 list \<times> u8 list) list \<Rightarrow> 'a fs_scheme \<Rightarrow> bool" where
  "mounted files s \<longleftrightarrow> bio_ok s \<and> bc.room 2 s \<and> image_of files (blocks s) \<and> sb s = dec_superblock (blocks s 1)
     \<and> (\<forall>q<NINODE. i_ref (icache s q) = 0)"

lemma mounted_walking:
  assumes m: "mounted files s" and l: "length files \<le> 198" and h: "length files mod 32 \<noteq> 30"
  shows "walking s (image_inodes files)" "sb s = mkfs_sb" "wf_disk mkfs_sb (blocks s)"
proof -
  have im: "image_of files (blocks s)" using m by (simp add: mounted_def)
  show sb: "sb s = mkfs_sb" using m imageD(2)[OF im] by (simp add: mounted_def)
  show wd: "wf_disk mkfs_sb (blocks s)" by (rule imageD(1)[OF im])
  have z: "i_ref (icache s 0) = 0" "i_ref (icache s 1) = 0" "0 < NINODE" "1 < NINODE" using m by (simp_all add: mounted_def fs_consts)
  have "icache_ok (icache s)" using m by (auto simp: mounted_def icache_ok_def live_at_def)
  moreover have "synced s" using m by (auto simp: mounted_def synced_def)
  moreover have "\<exists>p q. p \<noteq> q \<and> p < NINODE \<and> q < NINODE \<and> i_ref (icache s p) = 0 \<and> i_ref (icache s q) = 0"
    using z by (metis zero_neq_one)
  ultimately show "walking s (image_inodes files)"
    using m wd image_tree[OF im l h] by (simp add: walking_def sb mounted_def)
qed

lemma image_read:
  fixes s :: "'a fs_scheme"
  assumes m: "mounted files s" and l: "length files \<le> 198" and h: "length files mod 32 \<noteq> 30" and n: "names_ok files"
    and i: "i < length files" and dst: "unat k \<le> length dst"
  defines "d \<equiv> take (unat k) (snd (files ! i))"
  shows "\<exists>ip s1 s2 s3. namei cwd (path_of (files ! i) @ 0 # r) s = Some (Some ip, s1) \<and> i_inum (icache s1 ip) = of_nat (i + 2)
    \<and> ilock ip s1 = Some s2 \<and> i_type (icache s2 ip) = T_FILE
    \<and> readi ip dst 0 k s2 = Some (int (length d), blit 0 d dst, s3) \<and> blocks s3 = blocks s"
proof -
  note M = mounted_walking[OF m l h]
  note W = walkingD[OF M(1)]
  have im: "image_of files (blocks s)" using m by (simp add: mounted_def)
  note P = path_of_elems[OF n nth_mem[OF i]]
  have one: "(1 :: u32) \<in> image_inodes files" unfolding image_inodes_def by (rule image_eqI[of _ _ 1]) simp_all
  have st: "if path_of (files ! i) \<noteq> [] \<and> hd (path_of (files ! i)) = 47 then (1 :: u32) = ROOTINO \<and> 1 \<in> image_inodes files
      else cwd < NINODE \<and> 0 < i_ref (icache s cwd) \<and> i_dev (icache s cwd) = 1 \<and> i_inum (icache s cwd) = 1 \<and> 1 \<in> image_inodes files"
    using one by (simp add: path_of_def ROOTINO_def)
  obtain res nm s1 where nx: "namex cwd (path_of (files ! i) @ 0 # r) False (replicate DIRSIZ 0) s = Some (res, nm, s1)"
    "walked s (walk (sb s) (blocks s) False 1 (path_elems (path_of (files ! i)))) res s1"
    using namex_ok[OF M(1) P(2) _ st, where name = "replicate DIRSIZ 0" and par = False and r = r] by auto
  have w: "walk (sb s) (blocks s) False 1 (path_elems (path_of (files ! i))) = Some (of_nat (i + 2))"
    unfolding M(2) P(1) by (rule image_walk[OF im l h n i])
  obtain ip where ip: "ip < NINODE" "res = Some ip" "since s (one ip) s1" "i_dev (icache s1 ip) = 1" "i_inum (icache s1 ip) = of_nat (i + 2)"
    using nx(2) unfolding w by (auto simp: walked_def simp del: of_nat_add)
  have na: "namei cwd (path_of (files ! i) @ 0 # r) s = Some (Some ip, s1)" using nx(1) ip(2) by (simp add: namei_def)
  have stf: "stored (blocks s) (i + 2) T_FILE (snd (files ! i))" by (rule imageD(3)[OF im i])
  have "i + 2 < 200" "T_FILE \<noteq> 0" using i l by (simp_all add: T_FILE_def)
  note S = stored_disk_file[OF stf this]
  have pos: "0 \<le> one ip q" for q by simp
  have r0: "0 < i_ref (icache s1 ip)" by (rule since_ref[OF M(1) ip(3,1)]) simp
  have df: "disk_file (sb s) (blocks s) (of_nat (i + 2))" unfolding M(2) by (rule S(1))
  obtain s2 where lk: "ilock ip s1 = Some s2" "since s (one ip) s2" "i_dev (icache s2 ip) = 1" "i_inum (icache s2 ip) = of_nat (i + 2)"
    "dinode_of (icache s2 ip) = disk_inode (sb s) (blocks s) (of_nat (i + 2))"
    using ilock_walk[OF ip(3) pos ip(1) r0 ip(4,5) df W(3,2)] by blast
  note F = fs_stepD[OF sinceD(1)[OF lk(2)]]
  have df2: "disk_file (sb s2) (blocks s2) (i_inum (icache s2 ip))" using df by (simp only: F lk(4))
  have dn2: "dinode_of (icache s2 ip) = disk_inode (sb s2) (blocks s2) (i_inum (icache s2 ip))" using lk(5) by (simp only: F lk(4))
  note fo = disk_file_ok[OF df2 lk(3) dn2]
  have ty: "i_type (icache s2 ip) = T_FILE" using fo(3) S(3) by (simp only: F lk(4) M(2) ino_def)
  have c: "contents ip s2 = snd (files ! i)" using fo(2) S(2) by (simp only: F lk(4) M(2))
  have wd2: "wf_disk (sb s2) (blocks s2)" and rm2: "bc.room 2 s2" using M(2,3) W(3) F by simp_all
  have nd: "i_type (icache s2 ip) \<noteq> T_DEV" using ty by (simp add: T_FILE_def T_DEV_def)
  have z: "(0 :: u32) \<le> i_size (icache s2 ip)" "(0 :: u32) \<le> 0 + k" by simp_all
  obtain s3 where "readi ip dst 0 k s2 = Some (int (length (take (unat k) (drop (unat (0 :: u32)) (contents ip s2)))),
      blit 0 (take (unat k) (drop (unat (0 :: u32)) (contents ip s2))) dst, s3)" "advances s2 (blocks s2) (icache s2) s3"
    by (rule readi_ok[OF F(1) wd2 fo(1) rm2 nd z dst])
  then have "readi ip dst 0 k s2 = Some (int (length d), blit 0 d dst, s3)" "blocks s3 = blocks s"
    using advancesD(2) F(3) by (simp_all add: c d_def)
  then show ?thesis using na ip(5) lk(1) ty by blast
qed

end
