(* ===== verification/Exec_Image.thy ===== *)
theory Exec_Image
  imports Exec_Commit Mkfs_Boot
begin

text \<open>
  From the tool to the running program: what \<open>exec\<close> (kernel/exec.c) does with a program that \<open>mkfs\<close> (tool/mkfs.c) has put on the disk.
\<close>

text \<open>The pages that are needed at most: directory, tables and frames, and two pages of stack with their tables.\<close>

definition enough_pages :: "u32 \<Rightarrow> u32 list \<Rightarrow> bool" where
  "enough_pages z ps \<longleftrightarrow> 1028 + 2 * pg_up z < length ps"

lemma exec_from_image:
  fixes s :: "'a kern_scheme"
  assumes cp: "getcurproc s = Some p" and wk: "walking s (image_inodes files)" and im: "image_of files (blocks s)" "sb s = mkfs_sb"
    and fs: "length files \<le> 198" "length files mod 32 \<noteq> 30" "names_ok files" "i < length files"
    and elf: "elf_image (snd (files ! i)) = Some (e, z, g)" "stack_top z < KERNBASE" "enough_pages z ps"
    and kb: "KERNBASE \<notin> set ps" and data: "page_al (l_data L)" "KERNLINK < l_data L" "l_data L < P2V PHYSTOP"
    and R: "running p k s ps" and A: "args_ok as bss s"
  shows "exec_runs (image_inodes files) ps L p k (path_of (files ! i)) bss (e, z, g) s (exec L (path_of (files ! i) @ 0 # r) (as @ 0 # r') s)"
proof -
  let ?pp = "path_of (files ! i)"
  note P = path_of_elems[OF fs(3) nth_mem[OF fs(4)]]
  have one: "(1 :: u32) \<in> image_inodes files" unfolding image_inodes_def by (rule image_eqI[of _ _ 1]) simp_all
  have st: "if ?pp \<noteq> [] \<and> hd ?pp = 47 then (1 :: u32) = ROOTINO \<and> 1 \<in> image_inodes files
      else \<exists>cwd. p_cwd (ptable s p) = Some cwd \<and> cwd < NINODE \<and> 0 < i_ref (icache s cwd) \<and> i_dev (icache s cwd) = 1
        \<and> i_inum (icache s cwd) = 1 \<and> 1 \<in> image_inodes files"
    using one by (simp add: path_of_def ROOTINO_def)
  have w: "walk (sb s) (blocks s) False 1 (path_elems ?pp) = Some (of_nat (i + 2))"
    unfolding im(2) P(1) by (rule image_walk[OF im(1) fs])
  have stf: "stored (blocks s) (i + 2) T_FILE (snd (files ! i))" by (rule imageD(3)[OF im(1) fs(4)])
  have "i + 2 < 200" "T_FILE \<noteq> 0" using fs(1,4) by (simp_all add: T_FILE_def)
  note S = stored_disk_file[OF stf this]
  have ty: "d_type (disk_inode (sb s) (blocks s) (of_nat (i + 2))) \<noteq> T_DEV"
    using S(3) unfolding im(2) ino_def by (simp only:) (simp add: T_FILE_def T_DEV_def)
  have c: "disk_bytes (sb s) (blocks s) (of_nat (i + 2)) = snd (files ! i)" unfolding im(2) by (rule S(2))
  from exec_whole[OF cp wk P(2) st w ty kb data R A, of r r', unfolded c elf(1)] elf(2,3) show ?thesis
    by (auto simp: enough_pages_def not_le)
qed

text \<open>What the new program finds: its first instruction and stack pointer, its bytes, and its arguments.\<close>

lemma exec_runsD:
  assumes "exec_runs I ps L p k pp bss (e, z, g) s res"
  obtains d t where "res = Some (0, t)" "cr3 t = V2P d" "p_pgdir (ptable t p) = d" "rd_mem (p_tf (ptable s p) + TF_EIP) t = e"
    "rd_mem (p_tf (ptable s p) + TF_ESP) t = of_nat (unat (stack_top z) - stack_size bss)" "program_memory L d (ram t) z g bss"
  using assms unfolding exec_runs_def prod.case by (elim exE conjE) (rule that; simp)

end
