(* ===== verification/Exec_Call.thy ===== *)
theory Exec_Call
  imports Exec_Image Calls
begin

text \<open>
  The system call \<open>exec\<close> from the trap to the new program (kernel/calls.c, kernel/syscall.c, kernel/exec.c): the path and the argument strings are
  found in the memory of the process, checked, and handed to \<open>exec\<close>.
\<close>

unbundle bit_operations_syntax

section \<open>Strings that the checks accept\<close>

lemma getstr_loop_string:
  assumes "getstr_loop start a ep s = Some r" "0 \<le> r"
  shows "\<exists>bs. 0 \<notin> set bs \<and> unat a + length bs < unat ep \<and> uloads a (Suc (length bs)) s = Some (bs @ [0])"
  using assms(1)
proof (induction "unat ep - unat a" arbitrary: a)
  case 0
  then have "\<not> a < ep" by (simp add: word_less_nat_alt)
  then show ?case using 0(2) assms(2) by (subst (asm) getstr_loop.simps) simp
next
  case (Suc d)
  have lt: "a < ep" using Suc.hyps(2) by (simp add: word_less_nat_alt)
  have "unat ep < 2 ^ 32" using unsigned_less[of ep] by simp
  then have ua: "unat (a + 1) = unat a + 1" using lt by (simp add: unat_word_ariths word_less_nat_alt)
  obtain b where b: "uload a s = Some b" using Suc.prems lt by (subst (asm) getstr_loop.simps) (auto simp: Option.bind_eq_Some_conv)
  show ?case
  proof (cases "b = 0")
    case True
    then show ?thesis using b lt by (intro exI[of _ "[]"]) (simp add: word_less_nat_alt)
  next
    case False
    then have l: "getstr_loop start (a + 1) ep s = Some r" using Suc.prems lt b by (subst (asm) getstr_loop.simps) simp
    have "d = unat ep - unat (a + 1)" using Suc.hyps(2) ua by simp
    from Suc.hyps(1)[OF this l] obtain bs where bs: "0 \<notin> set bs" "unat (a + 1) + length bs < unat ep" "uloads (a + 1) (Suc (length bs)) s = Some (bs @ [0])"
      by blast
    then show ?thesis using b False ua by (intro exI[of _ "b # bs"]) (simp del: uloads.simps add: uloads.simps(2)[of a])
  qed
qed

lemma getstr_string:
  assumes c: "cur s = Some p" "p_sz p < KERNBASE" and g: "getstr a s = Some (r, v)" "0 \<le> r"
  shows "v = Some a \<and> (\<exists>bs. user_string s a bs)"
proof -
  have "getstr_loop a a (p_sz p) s = Some r" "v = Some a"
    using g c(1) by (auto simp: getstr_def Option.bind_eq_Some_conv split: if_splits)
  moreover from getstr_loop_string[OF this(1) g(2)] obtain bs where "0 \<notin> set bs" "unat a + length bs < unat (p_sz p)"
    "uloads a (Suc (length bs)) s = Some (bs @ [0])" by blast
  then have "user_string s a bs" using c(2) by (simp add: user_string_def word_less_nat_alt unat_KERNBASE)
  ultimately show ?thesis by blast
qed

text \<open>Conversely, a string inside the process is accepted.\<close>

lemma getstr_loop_accepts:
  assumes "uloads a (Suc (length bs)) s = Some (bs @ [0])" "0 \<notin> set bs" "unat a + length bs < unat ep"
  shows "getstr_loop start a ep s = Some (sint (a + of_nat (length bs) - start))"
  using assms
proof (induction bs arbitrary: a)
  case Nil
  then have "uload a s = Some 0" by (auto simp: Option.bind_eq_Some_conv)
  then show ?case using Nil(3) by (subst getstr_loop.simps) (simp add: word_less_nat_alt)
next
  case (Cons b bs)
  have "unat ep < 2 ^ 32" using unsigned_less[of ep] by simp
  then have ua: "unat (a + 1) = unat a + 1" using Cons.prems(3) by (simp add: unat_word_ariths)
  have b: "uload a s = Some b" "uloads (a + 1) (Suc (length bs)) s = Some (bs @ [0])" "b \<noteq> 0"
    using Cons.prems(1,2) by (auto simp: Option.bind_eq_Some_conv simp del: uloads.simps simp: uloads.simps(2)[of a])
  have "getstr_loop start (a + 1) ep s = Some (sint (a + 1 + of_nat (length bs) - start))"
    by (rule Cons.IH[OF b(2)]) (use Cons.prems(2,3) ua in auto)
  moreover have "a + 1 + of_nat (length bs) = a + of_nat (length (b # bs))" by simp
  ultimately show ?case using b(1,3) Cons.prems(3) by (subst getstr_loop.simps) (simp add: word_less_nat_alt)
qed

lemma getstr_accepts:
  assumes "cur s = Some p" "user_string s a bs" "unat a + length bs < unat (p_sz p)"
  shows "getstr a s = Some (sint (of_nat (length bs) :: u32), Some a)"
proof -
  have "\<not> p_sz p \<le> a" using assms(3) by (simp add: word_le_nat_alt)
  then show ?thesis using assms getstr_loop_accepts[of a bs s "p_sz p" a] by (simp add: getstr_def user_string_def)
qed

lemma exec_argv_strings:
  assumes "exec_argv u is argv s = Some (Some res)" "cur s = Some p" "p_sz p < KERNBASE"
  shows "\<exists>as bss. res = argv @ as @ [0] \<and> length as < length is \<and> 0 \<notin> set as \<and> list_all2 (user_string s) as bss"
  using assms(1)
proof (induction "is" arbitrary: argv)
  case (Cons i "is")
  obtain r v where g: "getint (u + 4 * of_nat i) s = Some (r, v)" using Cons.prems by (auto simp: Option.bind_eq_Some_conv)
  have nr: "\<not> r < 0" using Cons.prems g by auto
  obtain a where a: "v = Some a" using Cons.prems g nr by (auto simp: Option.bind_eq_Some_conv)
  show ?case
  proof (cases "a = 0")
    case True
    then show ?thesis using Cons.prems g nr a by (intro exI[of _ "[]"]) simp
  next
    case False
    obtain r2 v2 where g2: "getstr a s = Some (r2, v2)" using Cons.prems g nr a False by (auto simp: Option.bind_eq_Some_conv)
    have n2: "\<not> r2 < 0" using Cons.prems g nr a False g2 by auto
    have "exec_argv u is (argv @ [a]) s = Some (Some res)" using Cons.prems g nr a False g2 n2 by simp
    from Cons.IH[OF this] obtain as bss where r: "res = (argv @ [a]) @ as @ [0]" "length as < length is" "0 \<notin> set as" "list_all2 (user_string s) as bss" by blast
    obtain b where "user_string s a b" using getstr_string[OF assms(2,3) g2] n2 by auto
    then show ?thesis using r False by (intro exI[of _ "a # as"] exI[of _ "b # bss"]) simp
  qed
qed simp

lemma user_str_string: "user_string s a bs \<Longrightarrow> user_str a s = Some bs"
proof -
  assume u: "user_string s a bs"
  have p: "uloads x n s = Some cs" if "uloads x (Suc n) s = Some (cs @ [c])" "length cs = n" for x n cs c
    using that
  proof (induction n arbitrary: x cs)
    case (Suc n)
    then obtain d ds where "cs = d # ds" by (cases cs) auto
    then show ?case using Suc.IH[of "x + 1" ds] Suc.prems by (auto simp: Option.bind_eq_Some_conv)
  qed simp
  have l: "uloads a (Suc (length bs)) s = Some (bs @ [0])" "0 \<notin> set bs" using u by (simp_all add: user_string_def)
  then show ?thesis using ustrlen_string[OF l] p[OF l(1)] by (simp add: user_str_def)
qed

text \<open>Loads from mapped pages.\<close>

lemma uloads_user:
  assumes "vm_ok d s ps" "cr3 s = V2P d" "\<And>i. i < n \<Longrightarrow> present (pmap d (ram s) (v + of_nat i))"
  shows "uloads v n s = Some (user_bytes d (ram s) v n)"
  using assms(3)
proof (induction n arbitrary: v)
  case (Suc n)
  have "uload v s = Some (user_byte d (ram s) v)" using Suc.prems[of 0] by (simp add: uload_pmap[OF assms(1,2)])
  moreover have "uloads (v + 1) n s = Some (user_bytes d (ram s) (v + 1) n)"
    using Suc.prems[of "Suc i" for i] by (intro Suc.IH) (simp add: add.assoc)
  moreover have "user_bytes d (ram s) v (Suc n) = user_byte d (ram s) v # user_bytes d (ram s) (v + 1) n"
    unfolding user_bytes_def upt_conv_Cons[OF zero_less_Suc] by (simp add: map_Suc_upt[symmetric] add.assoc del: upt_Suc)
  ultimately show ?case by simp
qed (simp add: user_bytes_def)

lemma user_bytes_slice:
  assumes "user_bytes d m v n = bs" "k + j \<le> n"
  shows "user_bytes d m (v + of_nat k) j = take j (drop k bs)"
proof (rule nth_equalityI)
  have l: "length bs = n" using assms(1) by (auto simp: user_bytes_def)
  then show len: "length (user_bytes d m (v + of_nat k) j) = length (take j (drop k bs))" using assms(2) by (simp add: user_bytes_def)
  fix i assume "i < length (user_bytes d m (v + of_nat k) j)"
  then have i: "i < j" by (simp add: user_bytes_def)
  then show "user_bytes d m (v + of_nat k) j ! i = take j (drop k bs) ! i"
    using assms l by (auto simp: user_bytes_def add.assoc)
qed

section \<open>The messages\<close>

lemma frame_user_input:
  obtains t where "user_input (cstr ''test IDE'' @ [0]) s = Some t" "screen_frame s t"
proof -
  let ?in = "cstr ''test IDE'' @ [0]"
  have c: "\<exists>x. strcmp ?in (cstr ''CLS'' @ [0]) = Some x \<and> x \<noteq> 0" "\<exists>x. strcmp ?in (cstr ''END'' @ [0]) = Some x \<and> x \<noteq> 0"
    "\<exists>x. strcmp ?in (cstr ''PAGE'' @ [0]) = Some x \<and> x \<noteq> 0" "\<exists>x. strcmp ?in (cstr ''TESTIDEW'' @ [0]) = Some x \<and> x \<noteq> 0"
    "\<exists>x. strcmp ?in (cstr ''TESTIDER'' @ [0]) = Some x \<and> x \<noteq> 0"
    by (simp_all add: cstr_def)
  have t: "terminated ?in" by (simp add: terminated_def)
  let ?t1 = "kprint ''You said:'' s" and ?t2 = "kprint_at (str_of ?in) (- 1) (- 1) (kprint ''You said:'' s)"
  have "user_input ?in s = Some (kprint ''\<newline>>'' ?t2)"
    using c t by (auto simp: user_input_def kprint_array_def)
  moreover have "screen_frame s (kprint ''\<newline>>'' ?t2)"
    by (rule screen_frame_trans[OF screen_frame_trans[OF screen_frame_kprint screen_frame_kprint_at] screen_frame_kprint])
  ultimately show ?thesis by (rule that)
qed

lemma say_call:
  fixes s :: "'a kern_scheme"
  obtains t where "kprintf ''exec:%s,%s\<newline>'' [KStr x, KStr y] s = Some t" "screen_frame s t"
proof -
  obtain t where t: "kprintf ''exec:%s,%s\<newline>'' [KStr x, KStr y] s = Some t" by (simp add: kprintf_def cstr_def)
  show ?thesis by (rule that[OF t screen_frame_kprintf[OF t]])
qed

section \<open>The call\<close>

text \<open>Messages on the screen do not matter.\<close>

lemma exec_fails_screen:
  fixes s s2 :: "'a kern_scheme"
  assumes "quiet s s2" "ram s2 = ram s"
  shows "exec_fails I ps s2 res = exec_fails I ps s res"
  using quietD[OF assms(1)] assms(2) by (simp add: exec_fails_def intact_def)

lemma exec_runs_screen:
  fixes s s2 :: "'a kern_scheme"
  assumes "quiet s s2" "ram s2 = ram s"
  shows "exec_runs I ps L p k pp bss im s2 res = exec_runs I ps L p k pp bss im s res"
proof -
  have "ptable s2 = ptable s" "curproc s2 = curproc s" using quietD(8)[OF assms(1)] by (cases s; cases s2; simp)+
  then show ?thesis using quietD[OF assms(1)] assms(2) by (simp add: exec_runs_def)
qed

lemma running_screen:
  fixes s s2 :: "'a kern_scheme"
  assumes q: "quiet s s2" and m: "ram s2 = ram s" "freelist s2 = freelist s" and R: "running p k s ps" and A: "args_ok as bss s"
  shows "running p k s2 ps" "args_ok as bss s2"
proof -
  have k: "ptable s2 = ptable s" "cr3 s2 = cr3 s" using quietD(8)[OF q] by (cases s; cases s2; simp)+
  show R2: "running p k s2 ps" using R uspace_same(1)[OF m] by (simp add: running_def k m(1))
  note r = runningD[OF R]
  have "unchanged (p_pgdir (ptable s p)) s s2" by (simp add: unchanged_def m(1))
  then have "user_string s2 a bs" if "user_string s a bs" for a bs
    using user_string_keep[OF that r(1) _ r(3)] runningD(1,3)[OF R2] by (simp add: k)
  then show "args_ok as bss s2" using A by (auto simp: args_ok_def elim: list_all2_mono)
qed

text \<open>A call whose arguments pass the checks prints its messages and runs \<open>exec\<close> on the strings that the process has in memory.\<close>

definition exec_request :: "u8 list \<Rightarrow> u32 list \<Rightarrow> 'a kern_scheme \<Rightarrow> bool" where
  "exec_request pp as s \<longleftrightarrow> (\<exists>r a u. argstr 0 s = Some (r, Some a) \<and> 0 \<le> r \<and> user_string s a pp \<and> argint 1 s = Some (0, Some u)
     \<and> exec_argv u [0..<MAXARG] [] s = Some (Some (as @ [0])) \<and> as \<noteq> [])"

lemma sys_exec_enters:
  fixes s :: "'a kern_scheme"
  assumes q: "exec_request pp as s" and A: "args_ok as bss s" and bio: "bio_ok s"
  obtains s2 where "sys_exec L s = exec L (pp @ 0 # []) (as @ 0 # []) s2" "quiet s s2" "ram s2 = ram s" "freelist s2 = freelist s" "0 \<notin> set pp"
proof -
  obtain r a u where Q: "argstr 0 s = Some (r, Some a)" "0 \<le> r" "user_string s a pp" "argint 1 s = Some (0, Some u)"
    "exec_argv u [0..<MAXARG] [] s = Some (Some (as @ [0]))" "as \<noteq> []"
    using q by (auto simp: exec_request_def)
  obtain b bs where b: "bss = b # bs" "user_string s (hd as) b" using A Q(6) by (cases as) (auto simp: args_ok_def list_all2_Cons1)
  obtain s1 where s1: "kprintf ''exec:%s,%s\<newline>'' [KStr pp, KStr b] s = Some s1" "screen_frame s s1" by (rule say_call)
  obtain s2 where s2: "user_input (cstr ''test IDE'' @ [0]) s1 = Some s2" "screen_frame s1 s2" by (rule frame_user_input)
  have "hd (as @ [0]) = hd as" using Q(6) by simp
  then have "sys_exec L s = exec L (pp @ 0 # []) (as @ 0 # []) s2"
    using Q(1,2,4,5) user_str_string[OF Q(3)] user_str_string[OF b(2)] s1(1) s2(1) by (simp add: sys_exec_def)
  moreover note quiet_screen[OF screen_frame_trans[OF s1(2) s2(2)] bio]
  moreover have "0 \<notin> set pp" using Q(3) by (simp add: user_string_def)
  ultimately show ?thesis by (rule that)
qed

lemma sys_exec_whole:
  fixes s :: "'a kern_scheme"
  assumes cp: "getcurproc s = Some p" and rq: "exec_request pp as s" and A: "args_ok as bss s" and R: "running p k s ps"
    and wk: "walking s I"
    and start: "if pp \<noteq> [] \<and> hd pp = 47 then i = ROOTINO \<and> i \<in> I
      else \<exists>cwd. p_cwd (ptable s p) = Some cwd \<and> cwd < NINODE \<and> 0 < i_ref (icache s cwd) \<and> i_dev (icache s cwd) = 1
        \<and> i_inum (icache s cwd) = i \<and> i \<in> I"
    and found: "walk (sb s) (blocks s) False i (path_elems pp) = Some j" "d_type (disk_inode (sb s) (blocks s) j) \<noteq> T_DEV"
    and kb: "KERNBASE \<notin> set ps" and data: "page_al (l_data L)" "KERNLINK < l_data L" "l_data L < P2V PHYSTOP"
  shows "case elf_image (disk_bytes (sb s) (blocks s) j) of None \<Rightarrow> exec_fails I ps s (sys_exec L s)
    | Some im \<Rightarrow> exec_fails I ps s (sys_exec L s) \<and> (KERNBASE \<le> stack_top (fst (snd im)) \<or> length ps \<le> 1028 + 2 * pg_up (fst (snd im)))
        \<or> exec_runs I ps L p k pp bss im s (sys_exec L s)"
proof -
  obtain s2 where s2: "sys_exec L s = exec L (pp @ 0 # []) (as @ 0 # []) s2" "quiet s s2" "ram s2 = ram s" "freelist s2 = freelist s" "0 \<notin> set pp"
    by (rule sys_exec_enters[OF rq A walkingD(1)[OF wk]])
  note Q = quietD[OF s2(2)]
  have k: "ptable s2 = ptable s" "curproc s2 = curproc s" using Q(8) by (cases s; cases s2; simp)+
  have cp2: "getcurproc s2 = Some p" using cp k by (simp add: getcurproc_def)
  have "walking s2 I" by (rule walking_quiet[OF s2(2) wk])
  moreover note R2 = running_screen[OF s2(2-4) R A]
  moreover have "walk (sb s2) (blocks s2) False i (path_elems pp) = Some j" "d_type (disk_inode (sb s2) (blocks s2) j) \<noteq> T_DEV"
    using found by (simp_all add: Q(3,4))
  moreover have "if pp \<noteq> [] \<and> hd pp = 47 then i = ROOTINO \<and> i \<in> I
      else \<exists>cwd. p_cwd (ptable s2 p) = Some cwd \<and> cwd < NINODE \<and> 0 < i_ref (icache s2 cwd) \<and> i_dev (icache s2 cwd) = 1
        \<and> i_inum (icache s2 cwd) = i \<and> i \<in> I" using start unfolding k Q(5) .
  ultimately show ?thesis
    using exec_whole[OF cp2 _ s2(5) _ _ _ kb data R2, of I i j "[]" "[]"]
    unfolding s2(1) exec_fails_screen[OF s2(2,3)] exec_runs_screen[OF s2(2,3)] Q(3,4)
    by blast
qed

text \<open>From the tool through the system call to the running program.\<close>

lemma sys_exec_from_image:
  fixes s :: "'a kern_scheme"
  assumes cp: "getcurproc s = Some p" and wk: "walking s (image_inodes files)" and im: "image_of files (blocks s)" "sb s = mkfs_sb"
    and fs: "length files \<le> 198" "length files mod 32 \<noteq> 30" "names_ok files" "i < length files"
    and elf: "elf_image (snd (files ! i)) = Some (e, z, g)" "stack_top z < KERNBASE" "enough_pages z ps"
    and kb: "KERNBASE \<notin> set ps" and data: "page_al (l_data L)" "KERNLINK < l_data L" "l_data L < P2V PHYSTOP"
    and R: "running p k s ps" and A: "args_ok as bss s" and rq: "exec_request (path_of (files ! i)) as s"
  shows "exec_runs (image_inodes files) ps L p k (path_of (files ! i)) bss (e, z, g) s (sys_exec L s)"
proof -
  obtain s2 where s2: "sys_exec L s = exec L (path_of (files ! i) @ 0 # []) (as @ 0 # []) s2" "quiet s s2" "ram s2 = ram s" "freelist s2 = freelist s"
    by (rule sys_exec_enters[OF rq A walkingD(1)[OF wk]])
  note Q = quietD[OF s2(2)]
  have cp2: "getcurproc s2 = Some p" using cp Q(8) by (cases s; cases s2) (simp add: getcurproc_def)
  have im2: "image_of files (blocks s2)" "sb s2 = mkfs_sb" using im by (simp_all add: Q(3,4))
  show ?thesis
    using exec_from_image[OF cp2 walking_quiet[OF s2(2) wk] im2 fs elf kb data running_screen[OF s2(2-4) R A]]
    unfolding s2(1) exec_runs_screen[OF s2(2,3)] .
qed

text \<open>What the checks find depends on the process and its memory only.\<close>

lemma getstr_loop_keep:
  assumes "\<And>v. v < ep \<Longrightarrow> uload v t = uload v s"
  shows "getstr_loop b a ep t = getstr_loop b a ep s"
proof (induction "unat ep - unat a" arbitrary: a)
  case 0
  then show ?case by (subst (1 2) getstr_loop.simps) (simp add: word_less_nat_alt)
next
  case (Suc d)
  have lt: "a < ep" using Suc.hyps(2) by (simp add: word_less_nat_alt)
  then have "unat (a + 1) = unat a + 1" using unsigned_less[of ep, where ?'a = nat] by (simp add: unat_word_ariths word_less_nat_alt)
  then have "getstr_loop b (a + 1) ep t = getstr_loop b (a + 1) ep s" using Suc.hyps by simp
  then show ?case using assms[OF lt] by (subst (1 2) getstr_loop.simps) (simp cong: if_cong)
qed

lemma fetch_keep:
  assumes c: "cur t = cur s" "cur s = Some p" "p_sz p \<le> KERNBASE" and u: "\<And>v. v < KERNBASE \<Longrightarrow> uload v t = uload v s"
  shows "getint v t = getint v s" "getstr v t = getstr v s"
proof -
  have "uloads v 4 t = uloads v 4 s" if "v < p_sz p" "v + 4 \<le> p_sz p"
  proof (rule uloads_cong)
    fix i :: nat assume i: "i < 4"
    have "unat (v + 4) = unat v + 4" using that(1) c(3) by (simp add: unat_word_ariths word_less_nat_alt word_le_nat_alt unat_KERNBASE)
    then have "unat (v + of_nat i) < unat KERNBASE"
      using that c(3) i by (simp add: unat_word_ariths unat_of_nat word_le_nat_alt unat_KERNBASE)
    then show "uload (v + of_nat i) t = uload (v + of_nat i) s" by (intro u) (simp add: word_less_nat_alt)
  qed
  then show "getint v t = getint v s" by (auto simp: getint_def c(1,2) not_le not_less)
  have "getstr_loop v v (p_sz p) t = getstr_loop v v (p_sz p) s" by (rule getstr_loop_keep) (use u c(3) in auto)
  then show "getstr v t = getstr v s" by (simp add: getstr_def c(1,2))
qed

lemma exec_request_keep:
  assumes c: "cur t = cur s" "cur s = Some p" "p_sz p \<le> KERNBASE" and e: "rd_mem (p_tf p + TF_ESP) t = rd_mem (p_tf p + TF_ESP) s"
    and U: "uspace d s ps" "uspace d t qs" and r: "cr3 s = V2P d" "cr3 t = V2P d" and un: "unchanged d s t" and q: "exec_request pp as s"
  shows "exec_request pp as t"
proof -
  have u: "uload v t = uload v s" if "v < KERNBASE" for v
    using un that unfolding unchanged_def uload_pmap[OF uspaceD(1)[OF U(1)] r(1)] uload_pmap[OF uspaceD(1)[OF U(2)] r(2)] by simp
  note k = fetch_keep[OF c u]
  have "exec_argv w is av t = exec_argv w is av s" for w "is" av by (induction "is" arbitrary: av) (simp_all add: k cong: if_cong bind_option_cong)
  moreover have "argint n t = argint n s" for n by (simp add: argint_def c(1,2) e k)
  moreover from this have "argstr n t = argstr n s" for n by (simp add: argstr_def k cong: if_cong)
  ultimately show ?thesis using q user_string_keep[OF _ U r un] unfolding exec_request_def by fastforce
qed

end
