(* ===== verification/Descriptors.thy ===== *)
theory Descriptors
  imports Calls
begin

text \<open>
  The descriptors of the processes and the table of open files (kernel/calls.c, fs/file.c): every descriptor in use names an open
  file of the right kind, the count of an open file is the number of descriptors that name it, and an entry nobody names is
  free and blank. Opening and closing keep this.
\<close>

definition descs :: "'a kern_scheme \<Rightarrow> nat \<Rightarrow> (nat \<times> nat) set" where
  "descs s f = {(p, fd). p < NPROC \<and> fd < NOFILE \<and> p_ofile (ptable s p) ! fd = Some f}"

definition file_typed :: "open_file \<Rightarrow> bool" where
  "file_typed x \<longleftrightarrow> (if f_ref x = 0 then f_type x = FD_NONE else f_type x = FD_INODE \<and> (\<exists>ip<NINODE. f_ip x = Some ip))"

definition descs_ok :: "'a kern_scheme \<Rightarrow> bool" where
  "descs_ok s \<longleftrightarrow> (\<forall>p<NPROC. length (p_ofile (ptable s p)) = NOFILE \<and> (\<forall>fd<NOFILE. \<forall>f. p_ofile (ptable s p) ! fd = Some f \<longrightarrow> f < NFILE))
     \<and> (\<forall>f<NFILE. f_ref (ftable s f) = int (card (descs s f)) \<and> file_typed (ftable s f))"

lemma descs_okD:
  assumes "descs_ok s"
  shows "p < NPROC \<Longrightarrow> length (p_ofile (ptable s p)) = NOFILE"
    "p < NPROC \<Longrightarrow> fd < NOFILE \<Longrightarrow> p_ofile (ptable s p) ! fd = Some f \<Longrightarrow> f < NFILE"
    "f < NFILE \<Longrightarrow> f_ref (ftable s f) = int (card (descs s f))" "f < NFILE \<Longrightarrow> file_typed (ftable s f)"
  using assms unfolding descs_ok_def by blast+

lemma finite_descs [simp]: "finite (descs s f)"
  by (rule finite_subset[of _ "{..<NPROC} \<times> {..<NOFILE}"]) (auto simp: descs_def)

text \<open>One descriptor changes.\<close>

abbreviation set_fd :: "nat \<Rightarrow> nat \<Rightarrow> nat option \<Rightarrow> 'a kern_scheme \<Rightarrow> 'a kern_scheme" where
  "set_fd p fd x s \<equiv> upd_proc p (\<lambda>pr. pr\<lparr>p_ofile := (p_ofile pr)[fd := x]\<rparr>) s"

lemma set_fd_simps [simp]:
  "ptable (set_fd p fd x s) q = (if q = p then (ptable s p)\<lparr>p_ofile := (p_ofile (ptable s p))[fd := x]\<rparr> else ptable s q)"
  "ptable (upd_file f h s) = ptable s" "ftable (upd_proc p g s) = ftable s" "icache (upd_proc p g s) = icache s" "curproc (upd_proc p g s) = curproc s"
  by (simp_all add: upd_proc_def upd_file_def)

lemma descs_set_fd:
  assumes "p < NPROC" "fd < NOFILE" "length (p_ofile (ptable s p)) = NOFILE"
  shows "descs (set_fd p fd x s) f = (if x = Some f then insert (p, fd) (descs s f) else descs s f - {(p, fd)})"
  using assms by (auto simp: descs_def nth_list_update split: if_splits)

lemma descs_cong: "(\<And>p. p < NPROC \<Longrightarrow> p_ofile (ptable s' p) = p_ofile (ptable s p)) \<Longrightarrow> descs s' f = descs s f"
  by (auto simp: descs_def)

lemma descs_ok_cong:
  assumes "ptable s' = ptable s" "ftable s' = ftable s"
  shows "descs_ok s' = descs_ok s"
  using assms by (simp add: descs_ok_def descs_def)

lemma kern_more: "fs.more s' = fs.more (s :: 'a kern_scheme) \<Longrightarrow> ptable s' = ptable s \<and> ftable s' = ftable s \<and> curproc s' = curproc s"
  by (cases s; cases s') simp

text \<open>Giving an inode back without freeing it.\<close>

lemma drop_inode:
  fixes s :: "'a kern_scheme"
  assumes "\<not> (i_valid (icache s ip) \<and> i_nlink (icache s ip) = 0 \<and> i_ref (icache s ip) = 1)" "1 \<le> i_ref (icache s ip)"
  shows "iput ip s = Some (upd_inode ip (\<lambda>x. x\<lparr>i_ref := i_ref x - 1\<rparr>) s)"
    "iunlockput ip s = Some (upd_inode ip (\<lambda>x. x\<lparr>i_ref := i_ref x - 1\<rparr>) s)"
    "descs_ok (upd_inode ip g s) = descs_ok s" "ptable (upd_inode ip g s) = ptable s" "ftable (upd_inode ip g s) = ftable s"
proof -
  show "iput ip s = Some (upd_inode ip (\<lambda>x. x\<lparr>i_ref := i_ref x - 1\<rparr>) s)" by (rule iput_drop[OF assms(1)])
  then show "iunlockput ip s = Some (upd_inode ip (\<lambda>x. x\<lparr>i_ref := i_ref x - 1\<rparr>) s)"
    using assms(2) by (simp add: iunlockput_def iunlock_def)
  show "ptable (upd_inode ip g s) = ptable s" "ftable (upd_inode ip g s) = ftable s" by (simp_all add: upd_inode_def)
  then show "descs_ok (upd_inode ip g s) = descs_ok s" by (rule descs_ok_cong)
qed

lemma free_entry:
  assumes "descs_ok s" "f < NFILE" "f_ref (ftable s f) = 0"
  shows "descs s f = {}"
  using descs_okD(3)[OF assms(1,2)] assms(3) by simp

text \<open>Opening: a table entry and a descriptor for a referenced inode.\<close>

lemma open_file_of_ok:
  fixes s :: "'a kern_scheme"
  assumes ok: "descs_ok s" and p: "getcurproc s = Some p" "p < NPROC" and ip: "ip < NINODE" "1 \<le> i_ref (icache s ip)"
    and keep: "\<not> (i_valid (icache s ip) \<and> i_nlink (icache s ip) = 0 \<and> i_ref (icache s ip) = 1)"
  shows "\<exists>fd s'. open_file_of ip omode s = Some (fd, s') \<and> descs_ok s'
    \<and> (fd = - 1 \<and> ptable s' = ptable s \<and> ftable s' = ftable s \<and> i_ref (icache s' ip) = i_ref (icache s ip) - 1
      \<or> (\<exists>k f. fd = int k \<and> k < NOFILE \<and> f < NFILE \<and> p_ofile (ptable s p) ! k = None \<and> p_ofile (ptable s' p) ! k = Some f
          \<and> f_ref (ftable s f) = 0 \<and> icache s' = icache s
          \<and> ftable s' f = \<lparr>f_type = FD_INODE, f_ref = 1, f_readable = (omode AND O_WRONLY = 0),
              f_writable = (omode AND O_WRONLY \<noteq> 0 \<or> omode AND O_RDWR \<noteq> 0), f_ip = Some ip, f_off = 0\<rparr>))"
proof (cases "filealloc s")
  case (Pair q s1)
  note keepD = drop_inode[OF keep ip(2)]
  show ?thesis
  proof (cases q)
    case None
    then have s1: "s1 = s" using Pair by (auto simp: filealloc_def split: option.splits)
    then show ?thesis using Pair None keepD ok by (intro exI[of _ "- 1"]) (simp add: open_file_of_def)
  next
    case (Some f)
    then have f: "f < NFILE" "f_ref (ftable s f) = 0" "s1 = upd_file f (\<lambda>x. x\<lparr>f_ref := 1\<rparr>) s" using filealloc_some Pair by blast+
    note E = free_entry[OF ok f(1,2)]
    have t: "f_type (ftable s f) = FD_NONE" using descs_okD(4)[OF ok f(1)] f(2) by (simp add: file_typed_def)
    have b: "getcurproc s1 = Some p" "ptable s1 = ptable s" "icache s1 = icache s" using p(1) f(3) by (simp_all add: getcurproc_def upd_file_def)
    show ?thesis
    proof (cases "find (\<lambda>fd. p_ofile (ptable s p) ! fd = None) [0..<NOFILE]")
      case None
      have fd: "fdalloc f s1 = Some (- 1, s1)" using b None by (simp add: fdalloc_def)
      have "(ftable s f)\<lparr>f_ref := 0, f_type := FD_NONE\<rparr> = ftable s f" using t f(2) by (cases "ftable s f") simp
      then have fc: "fileclose f s1 = Some s" using t unfolding f(3) by (simp add: fileclose_def Let_def upd_file_def)
      then show ?thesis using Pair Some fd keepD ok by (intro exI[of _ "- 1"]) (simp add: open_file_of_def)
    next
      case (Some k)
      then have k: "k < NOFILE" "p_ofile (ptable s p) ! k = None" by (auto dest: findSomeD)
      let ?s2 = "set_fd p k (Some f) s1"
      let ?x = "\<lambda>x. x\<lparr>f_type := FD_INODE, f_ip := Some ip, f_off := 0, f_readable := (omode AND O_WRONLY = 0),
            f_writable := (omode AND O_WRONLY \<noteq> 0 \<or> omode AND O_RDWR \<noteq> 0)\<rparr>"
      let ?s3 = "upd_file f ?x ?s2"
      have fd: "fdalloc f s1 = Some (int k, ?s2)" using b Some by (simp add: fdalloc_def)
      have "iunlock ip ?s2 = ?s2" using ip(2) b(3) by (intro iunlock_valid) simp
      then have o: "open_file_of ip omode s = Some (int k, ?s3)" using Pair \<open>q = Some f\<close> fd by (simp add: open_file_of_def)
      have pt: "ptable ?s3 = ptable ?s2" by (simp add: upd_file_def)
      have lp: "length (p_ofile (ptable s1 p)) = NOFILE" using descs_okD(1)[OF ok p(2)] b(2) by simp
      have ft: "ftable ?s3 g = (if g = f then \<lparr>f_type = FD_INODE, f_ref = 1, f_readable = (omode AND O_WRONLY = 0),
              f_writable = (omode AND O_WRONLY \<noteq> 0 \<or> omode AND O_RDWR \<noteq> 0), f_ip = Some ip, f_off = 0\<rparr> else ftable s g)" for g
        by (simp add: f(3))
      have ds: "descs ?s3 g = (if g = f then {(p, k)} else descs s g)" for g
      proof -
        have "descs ?s3 g = descs ?s2 g" by (rule descs_cong) (simp add: pt)
        moreover have "descs s1 g = descs s g" by (rule descs_cong) (simp add: b(2))
        moreover have "(p, k) \<notin> descs s g" using k(2) by (simp add: descs_def)
        ultimately show ?thesis using descs_set_fd[OF p(2) k(1) lp, of "Some f" g] E by auto
      qed
      have "descs_ok ?s3"
        unfolding descs_ok_def
      proof (intro conjI allI impI)
        fix q assume q: "q < NPROC"
        show "length (p_ofile (ptable ?s3 q)) = NOFILE" using descs_okD(1)[OF ok q] lp b(2) by (simp add: pt)
        show "g < NFILE" if "fd < NOFILE" "p_ofile (ptable ?s3 q) ! fd = Some g" for fd g
          using that descs_okD(2)[OF ok q that(1)] f(1) lp b(2) by (cases "fd = k"; cases "q = p") (auto simp: pt)
      next
        fix g assume g: "g < NFILE"
        show "f_ref (ftable ?s3 g) = int (card (descs ?s3 g))" unfolding ft ds using descs_okD(3)[OF ok g] by simp
        show "file_typed (ftable ?s3 g)" using descs_okD(4)[OF ok g] ip(1) unfolding ft by (simp add: file_typed_def)
      qed
      moreover have "p_ofile (ptable ?s3 p) ! k = Some f" using k(1) lp by (simp add: pt)
      moreover have "icache ?s3 = icache s" using b(3) by simp
      ultimately show ?thesis using o f(1,2) k ft[of f] by (intro exI[of _ "int k"] exI[of _ ?s3]) auto
    qed
  qed
qed

text \<open>Closing descriptor \<open>fd\<close> of process \<open>p\<close>, the second half of \<open>sys_close\<close>.\<close>

lemma close_ok:
  fixes s :: "'a kern_scheme"
  assumes ok: "descs_ok s" and p: "p < NPROC" and fd: "fd < NOFILE" "p_ofile (ptable s p) ! fd = Some f"
    and keep: "\<And>ip. f_ip (ftable s f) = Some ip \<Longrightarrow> f_ref (ftable s f) = 1 \<Longrightarrow>
       1 \<le> i_ref (icache s ip) \<and> \<not> (i_valid (icache s ip) \<and> i_nlink (icache s ip) = 0 \<and> i_ref (icache s ip) = 1)"
  shows "\<exists>s'. fileclose f (set_fd p fd None s) = Some s' \<and> descs_ok s' \<and> p_ofile (ptable s' p) ! fd = None
    \<and> (\<forall>q<NPROC. \<forall>k<NOFILE. (q, k) \<noteq> (p, fd) \<longrightarrow> p_ofile (ptable s' q) ! k = p_ofile (ptable s q) ! k)
    \<and> (\<forall>g. g \<noteq> f \<longrightarrow> ftable s' g = ftable s g)"
proof -
  have f: "f < NFILE" by (rule descs_okD(2)[OF ok p fd])
  let ?t = "set_fd p fd None s"
  have lp: "length (p_ofile (ptable s p)) = NOFILE" by (rule descs_okD(1)[OF ok p])
  have mem: "(p, fd) \<in> descs s f" using p fd by (simp add: descs_def)
  have ds: "descs ?t g = descs s g - {(p, fd)}" for g using descs_set_fd[OF p fd(1) lp, of None g] by simp
  have other: "(p, fd) \<notin> descs s g" if "g \<noteq> f" for g using fd(2) that by (simp add: descs_def)
  have cf: "int (card (descs ?t f)) = f_ref (ftable s f) - 1" and pos: "1 \<le> f_ref (ftable s f)"
  proof -
    have "0 < card (descs s f)" using mem by (auto simp: card_gt_0_iff)
    moreover have "card (descs ?t f) = card (descs s f) - 1" unfolding ds by (rule card_Diff_singleton[OF mem])
    ultimately show "int (card (descs ?t f)) = f_ref (ftable s f) - 1" "1 \<le> f_ref (ftable s f)"
      using descs_okD(3)[OF ok f] by simp_all
  qed
  have ty: "f_type (ftable s f) = FD_INODE" "\<exists>ip<NINODE. f_ip (ftable s f) = Some ip"
    using descs_okD(4)[OF ok f] pos by (auto simp: file_typed_def)
  have result: "descs_ok u \<and> p_ofile (ptable u p) ! fd = None
      \<and> (\<forall>q<NPROC. \<forall>k<NOFILE. (q, k) \<noteq> (p, fd) \<longrightarrow> p_ofile (ptable u q) ! k = p_ofile (ptable s q) ! k) \<and> (\<forall>g. g \<noteq> f \<longrightarrow> ftable u g = ftable s g)"
    if u: "ptable u = ptable ?t" "\<And>g. g \<noteq> f \<Longrightarrow> ftable u g = ftable s g" "f_ref (ftable u f) = f_ref (ftable s f) - 1" "file_typed (ftable u f)"
    for u :: "'a kern_scheme"
  proof (intro conjI allI impI)
    have du: "descs u g = descs ?t g" for g by (rule descs_cong) (simp only: u(1))
    show "descs_ok u"
      unfolding descs_ok_def
    proof (intro conjI allI impI)
      fix q assume q: "q < NPROC"
      show "length (p_ofile (ptable u q)) = NOFILE" using descs_okD(1)[OF ok q] lp by (simp add: u(1))
      show "g < NFILE" if "k < NOFILE" "p_ofile (ptable u q) ! k = Some g" for k g
        using that descs_okD(2)[OF ok q that(1)] lp by (cases "k = fd"; cases "q = p") (auto simp: u(1))
    next
      fix g assume g: "g < NFILE"
      show "f_ref (ftable u g) = int (card (descs u g))"
        using cf u(2,3) descs_okD(3)[OF ok g] ds[of g] other[of g] unfolding du by (cases "g = f") simp_all
      show "file_typed (ftable u g)" using u(2,4) descs_okD(4)[OF ok g] by (cases "g = f") simp_all
    qed
  qed (use u lp fd(1) in \<open>auto simp: nth_list_update\<close>)
  show ?thesis
  proof (cases "f_ref (ftable s f) = 1")
    case False
    let ?u = "upd_file f (\<lambda>x. x\<lparr>f_ref := f_ref x - 1\<rparr>) ?t"
    have "fileclose f ?t = Some ?u" using False pos by (simp add: fileclose_def Let_def)
    moreover have "file_typed (ftable ?u f)" using ty False by (simp add: file_typed_def)
    moreover have "ptable ?u = ptable ?t" by (simp add: upd_file_def)
    ultimately show ?thesis using result[of ?u] by (intro exI[of _ ?u]) simp
  next
    case True
    obtain ip where ip: "f_ip (ftable s f) = Some ip" using ty(2) by blast
    let ?v = "upd_file f (\<lambda>x. x\<lparr>f_ref := 0, f_type := FD_NONE\<rparr>) (upd_file f (\<lambda>x. x\<lparr>f_ref := f_ref x - 1\<rparr>) ?t)"
    have kp: "\<not> (i_valid (icache ?v ip) \<and> i_nlink (icache ?v ip) = 0 \<and> i_ref (icache ?v ip) = 1)" "1 \<le> i_ref (icache ?v ip)"
      using keep[OF ip True] by simp_all
    note D = drop_inode[OF kp]
    let ?u = "upd_inode ip (\<lambda>x. x\<lparr>i_ref := i_ref x - 1\<rparr>) ?v"
    have "fileclose f ?t = Some ?u" using True ty(1) ip D(1) by (simp add: fileclose_def Let_def)
    moreover have "file_typed (ftable ?u f)" by (simp add: D(5) file_typed_def)
    moreover have "ptable ?u = ptable ?t" unfolding D(4) by (simp add: upd_file_def)
    ultimately show ?thesis using result[of ?u] True by (intro exI[of _ ?u]) (simp add: D(5))
  qed
qed

lemma sys_close_ok:
  fixes s :: "'a kern_scheme"
  assumes ok: "descs_ok s" and p: "getcurproc s = Some p" "p < NPROC" and fd: "argfd 0 s = Some (Some (fd, f))" "fd < NOFILE" "p_ofile (ptable s p) ! fd = Some f"
    and keep: "\<And>ip. f_ip (ftable s f) = Some ip \<Longrightarrow> f_ref (ftable s f) = 1 \<Longrightarrow>
       1 \<le> i_ref (icache s ip) \<and> \<not> (i_valid (icache s ip) \<and> i_nlink (icache s ip) = 0 \<and> i_ref (icache s ip) = 1)"
  shows "\<exists>s'. sys_close s = Some (0, s') \<and> descs_ok s' \<and> p_ofile (ptable s' p) ! fd = None
    \<and> (\<forall>q<NPROC. \<forall>k<NOFILE. (q, k) \<noteq> (p, fd) \<longrightarrow> p_ofile (ptable s' q) ! k = p_ofile (ptable s q) ! k)
    \<and> (\<forall>g. g \<noteq> f \<longrightarrow> ftable s' g = ftable s g)"
  using close_ok[OF ok p(2) fd(2,3) keep] fd(1) p(1) by (auto simp: sys_close_def)

text \<open>What \<open>argfd\<close> accepts is a descriptor in use.\<close>

lemma argfd_ok:
  assumes "argfd n s = Some (Some (fd, f))" "getcurproc s = Some p"
  shows "fd < NOFILE" "p_ofile (ptable s p) ! fd = Some f"
proof -
  obtain r v w where a: "argint n s = Some (r, v)" "\<not> r < 0" "v = Some w" "\<not> (sint w < 0 \<or> int NOFILE \<le> sint w)"
    "map_option (\<lambda>f. (unat w, f)) (p_ofile (ptable s p) ! unat w) = Some (fd, f)"
    using assms by (auto simp: argfd_def Option.bind_eq_Some_conv split: if_splits)
  have "sint w = int (unat w)" by (rule sint_small_u32[OF sint_nonneg_u32]) (use a(4) in simp)
  then show "fd < NOFILE" "p_ofile (ptable s p) ! fd = Some f" using a(4,5) by (auto simp del: of_nat_unat)
qed

end
