(* ===== verification/Sample_Exec.thy ===== *)
theory Sample_Exec
  imports Sample_Kern Exec_Call Descriptors
begin

text \<open>
  More about the concrete systems of \<open>Sample\<close> and \<open>Sample_Kern\<close>: the address space of the sample process and its pages, the root
  directory as a tree, the descriptors; and a file list for \<open>mkfs\<close>.
\<close>

section \<open>The sample kernel\<close>

lemma sample_uspace: "uspace sample_dir sample_kern [0x80005000, 0x80006000]" "pages sample_dir sample_kern [0x80005000, 0x80006000] =
    {0x80002000, 0x80003000, 0x80005000, 0x80006000}"
proof -
  have o: "own sample_dir sample_kern [0x80005000, 0x80006000] = {0x80002000, 0x80005000, 0x80006000}" by (auto simp: own_def sample_tables)
  have u: "uframes sample_dir sample_ram = {0x80003000}"
    by (auto simp: uframes_def sample_pmap sample_flags KERNBASE_def split: if_splits intro!: exI[of _ 0])
  show p: "pages sample_dir sample_kern [0x80005000, 0x80006000] = {0x80002000, 0x80003000, 0x80005000, 0x80006000}"
    by (auto simp: pages_def o u)
  have "PGROUNDDOWN v = 0" if "present (pmap sample_dir sample_ram v)" for v
    using that by (auto simp: sample_pmap sample_flags word_unat_eq_iff unat_PGROUNDDOWN split: if_splits)
  then show "uspace sample_dir sample_kern [0x80005000, 0x80006000]"
    unfolding uspace_def p o sample_kern_fields u using sample_vm_ok by (simp add: KERNBASE_def) (simp add: sample_dir_def)
qed

lemma sample_kern_walking: "walking sample_kern {1}"
proof -
  have d: "disk_inode sample_sb hi_disk 1 = sample_dinode T_DIR"
    by (simp add: disk_inode_def IBLOCK_def fs_consts sample_sb_def hi_disk_def dinode_off_def sample_dinode_def dec_enc_dinode)
  have d2: "disk_inode sample_sb hi_disk 2 = hi_inode"
    using hi_file_ok by (simp add: file_ok_def hi_inode_fields) (simp add: dinode_of_def load_dinode_def hi_inode_def)
  have ic: "icache hi_fs = (\<lambda>_. free_slot)(0 := sample_inode 1 T_DIR, 1 := load_dinode hi_inode (sample_inode 2 T_FILE))"
    by (simp add: hi_fs_def upd_inode_def fun_eq_iff)
  have "disk_file sample_sb hi_disk 1"
    unfolding disk_file_def Let_def d
    by (simp add: sample_dinode_def no_blocks_wf IBLOCK_def) (simp add: sample_sb_def fs_consts)
  moreover have "disk_bytes sample_sb hi_disk 1 = []" unfolding disk_bytes_def d by (simp add: sample_dinode_def)
  ultimately have "dir_tree sample_sb hi_disk {1}"
    unfolding dir_tree_def by (simp add: d nentries_def) (simp add: sample_dinode_def)
  moreover have "synced sample_kern"
    unfolding synced_def sample_kern_fields hi_fields ic
  proof (intro allI impI)
    fix q :: nat assume "0 < i_ref (((\<lambda>_. free_slot)(0 := sample_inode 1 T_DIR, 1 := load_dinode hi_inode (sample_inode 2 T_FILE))) q)"
    then consider "q = 0" | "q = 1" by (auto simp: free_slot_def split: if_splits)
    then show "dinode_of (((\<lambda>_. free_slot)(0 := sample_inode 1 T_DIR, 1 := load_dinode hi_inode (sample_inode 2 T_FILE))) q) =
        disk_inode sample_sb hi_disk (i_inum (((\<lambda>_. free_slot)(0 := sample_inode 1 T_DIR, 1 := load_dinode hi_inode (sample_inode 2 T_FILE))) q))"
    proof cases
      case 1
      then show ?thesis by (simp add: sample_inode_fields d) (simp add: dinode_of_def sample_inode_fields sample_dinode_def)
    next
      case 2
      then show ?thesis by (simp add: hi_inode_fields d2) (simp add: dinode_of_def load_dinode_def hi_inode_def)
    qed
  qed
  moreover have "\<exists>p q. p \<noteq> q \<and> p < NINODE \<and> q < NINODE \<and> i_ref (icache sample_kern p) = 0 \<and> i_ref (icache sample_kern q) = 0"
    unfolding sample_kern_fields ic by (intro exI[of _ 2] exI[of _ 3]) (simp add: free_slot_def fs_consts)
  moreover have "icache_ok (icache sample_kern)"
    unfolding sample_kern_fields ic by (auto simp: icache_ok_def live_at_def sample_inode_fields hi_inode_fields free_slot_def split: if_splits)
  ultimately show ?thesis
    using hi_bio_ok(1) hi_bio_ok(2)[of 2] hi_wf_disk by (simp add: walking_def sample_kern_bio)
qed

lemma sample_kern_root: "disk_bytes (sb sample_kern) (blocks sample_kern) 1 = []"
  and sample_kern_walk: "walk (sb sample_kern) (blocks sample_kern) False 1 [] = Some 1"
    "d_type (disk_inode (sb sample_kern) (blocks sample_kern) 1) = T_DIR"
proof -
  have d: "disk_inode sample_sb hi_disk 1 = sample_dinode T_DIR"
    by (simp add: disk_inode_def IBLOCK_def fs_consts sample_sb_def hi_disk_def dinode_off_def sample_dinode_def dec_enc_dinode)
  show "disk_bytes (sb sample_kern) (blocks sample_kern) 1 = []" unfolding disk_bytes_def by (simp add: d) (simp add: sample_dinode_def)
  show "walk (sb sample_kern) (blocks sample_kern) False 1 [] = Some 1" "d_type (disk_inode (sb sample_kern) (blocks sample_kern) 1) = T_DIR"
    by (simp_all add: d) (simp add: sample_dinode_def)
qed

lemma sample_readable: "readable 1 sample_kern" "contents 1 sample_kern = [104, 105]"
  using hi_bio_ok(1) hi_bio_ok(2)[of 2] hi_wf_disk hi_file_ok hi_contents
  by (simp_all add: readable_def sample_kern_bio file_ok_def contents_def hi_inode_fields) (simp_all add: T_FILE_def T_DEV_def)

lemma sample_descs: "descs_ok sample_kern"
proof -
  have "descs sample_kern f = (if f = 0 then {(0, 0)} else {})" for f
    by (auto simp: descs_def sample_proc_def NOFILE_def NPROC_def nth_Cons' split: if_splits)
  then show ?thesis
    by (auto simp: descs_ok_def file_typed_def sample_proc_def NOFILE_def NFILE_def fs_consts nth_Cons' split: if_splits)
qed

section \<open>The sample disk\<close>

lemma sample_walking: "walking sample {1}"
proof -
  have d: "disk_inode sample_sb sample_disk 1 = sample_dinode T_DIR" by (rule sample_disk_inode)
  have "disk_file sample_sb sample_disk 1"
    unfolding disk_file_def Let_def d
    by (simp add: sample_dinode_def no_blocks_wf IBLOCK_def) (simp add: sample_sb_def fs_consts)
  moreover have "disk_bytes sample_sb sample_disk 1 = []" unfolding disk_bytes_def d by (simp add: sample_dinode_def)
  ultimately have "dir_tree sample_sb sample_disk {1}"
    unfolding dir_tree_def by (simp add: d nentries_def) (simp add: sample_dinode_def)
  moreover have "synced sample"
    using sample_disk_inode by (auto simp: synced_def sample_inode_fields free_slot_def dinode_of_def) (simp_all add: sample_dinode_def)
  moreover have "\<exists>p q. p \<noteq> q \<and> p < NINODE \<and> q < NINODE \<and> i_ref (icache sample p) = 0 \<and> i_ref (icache sample q) = 0"
    by (intro exI[of _ 2] exI[of _ 3]) (simp add: free_slot_def fs_consts)
  ultimately show ?thesis
    using sample_bio_ok sample_wf_disk sample_room[of 2] sample_icache_ok by (simp add: walking_def)
qed

lemma sample_walk:
  "walk (sb sample) (blocks sample) False 1 [] = Some 1" "walk (sb sample) (blocks sample) False 1 [[120]] = None"
  "walk (sb sample) (blocks sample) True 1 [[120]] = Some 1"
proof -
  have d: "d_type (disk_inode sample_sb sample_disk 1) = T_DIR" "disk_bytes sample_sb sample_disk 1 = []"
    unfolding disk_bytes_def sample_disk_inode by (simp_all add: sample_dinode_def)
  show "walk (sb sample) (blocks sample) False 1 [] = Some 1" "walk (sb sample) (blocks sample) False 1 [[120]] = None"
    "walk (sb sample) (blocks sample) True 1 [[120]] = Some 1"
    by (simp_all add: d dir_find_def nentries_def)
qed

lemma sample_fits: "mkfs_fits [([104, 105], [1, 2, 3])]" "names_ok [([104, 105], [1, 2, 3])]"
  by (simp_all add: mkfs_fits_def names_ok_def image_files_def total_blocks_def mkfs_name_def fs_consts fblocks_def root_bytes_def)


section \<open>A program on a disk\<close>

text \<open>A program of two bytes, a jump to itself, as an ELF file with one segment.\<close>

definition demo_elf :: "u8 list" where
  "demo_elf =
     [127, 69, 76, 70, 0, 0, 0, 0, 0, 0, 0, 0, 0, 0, 0, 0, 2, 0, 3, 0, 1, 0, 0, 0, 0, 0, 0, 0, 52, 0, 0, 0, 0, 0, 0, 0, 0, 0, 0, 0, 52, 0, 32, 0, 1, 0, 0, 0, 0, 0, 0, 0]
     @ [1, 0, 0, 0, 84, 0, 0, 0, 0, 0, 0, 0, 0, 0, 0, 0, 2, 0, 0, 0, 2, 0, 0, 0, 7, 0, 0, 0, 0, 16, 0, 0]
     @ [0xEB, 0xFE]"

definition demo_files :: "(u8 list \<times> u8 list) list" where
  "demo_files = [([105, 110, 105, 116], demo_elf)]"

lemma length_demo_elf [simp]: "length demo_elf = 86"
  by (simp add: demo_elf_def)

lemma demo_image: "\<exists>g. elf_image demo_elf = Some (0, 2, g) \<and> g 0 = 0xEB \<and> g 1 = 0xFE"
proof -
  let ?h = "dec_elfhdr (take ELF_SIZE demo_elf)" and ?ph = "dec_proghdr (take PH_SIZE (drop 52 demo_elf))"
  have h: "e_magic ?h = ELF_MAGIC" "e_entry ?h = 0" "e_phnum ?h = 1" "e_phoff ?h = 52"
    by (simp_all add: dec_elfhdr_def demo_elf_def ELF_SIZE_def ELF_MAGIC_def rd32_def rd16_def slice_def)
  have p: "ph_type ?ph = 1" "ph_off ?ph = 84" "ph_vaddr ?ph = 0" "ph_filesz ?ph = 2" "ph_memsz ?ph = 2"
    by (simp_all add: dec_proghdr_def demo_elf_def PH_SIZE_def rd32_def slice_def)
  have "\<not> seg_bad demo_elf ?ph 0" by (simp add: seg_bad_def p KERNBASE_def max_def)
  then have "seg_image demo_elf (Suc 0) 52 0 (\<lambda>_. 0) = Some (2, put_segment demo_elf ?ph (\<lambda>_. 0))"
    using p by (simp add: Let_def PH_SIZE_def ELF_PROG_LOAD_def max_def)
  then have "elf_image demo_elf = Some (0, 2, put_segment demo_elf ?ph (\<lambda>_. 0))"
    using h by (simp add: elf_image_def Let_def ELF_SIZE_def)
  then show ?thesis by (simp add: put_segment_def p) (simp add: demo_elf_def)
qed


text \<open>The sample kernel with this disk mounted, and 1040 pages from \<open>0x80400000\<close> on given to the allocator.\<close>

lemma sample_space: "space sample_dir sample_ram = {0x80001000, 0x80002000, 0x80003000}"
proof -
  have "uframes sample_dir sample_ram = {0x80003000}"
    by (auto simp: uframes_def sample_pmap sample_flags KERNBASE_def split: if_splits intro!: exI[of _ 0])
  then show ?thesis unfolding space_def sample_tables by (simp only:) (auto simp only: sample_dir_def Un_iff insert_iff)
qed

lemma sample_string: "user_string sample_kern 0x210 [97, 98]" "user_string sample_kern 0 [47, 105, 110, 105, 116]"
proof -
  have "uloads 0x210 (Suc (Suc (Suc 0))) sample_kern = Some [97, 98, 0]" by (simp add: sample_uload sample_bytes)
  then show "user_string sample_kern 0x210 [97, 98]" by (simp add: user_string_def)
  have "sample_ram (0x80003000 + k) = [47, 105, 110, 105, 116, 0] ! k" if "k < 6" for k
    using arg_cong[OF sample_bytes(7), of "\<lambda>xs. xs ! k"] that by simp
  from this[of 0] this[of 1] this[of 2] this[of 3] this[of 4] this[of 5]
  have "uloads 0 (Suc (Suc (Suc (Suc (Suc (Suc 0)))))) sample_kern = Some [47, 105, 110, 105, 116, 0]" by (simp add: sample_uload)
  then show "user_string sample_kern 0 [47, 105, 110, 105, 116]" by (simp add: user_string_def)
qed

lemma sample_args_ok: "args_ok [0x210] [[97, 98]] sample_kern"
  using sample_string by (simp add: args_ok_def MAXARG_def stack_size_def args_size_def)

lemma sample_request: "exec_request [47, 105, 110, 105, 116] [0x210] sample_kern"
proof -
  have c: "cur sample_kern = Some sample_proc" "p_sz sample_proc = 4096" by (simp_all add: cur_def getcurproc_def sample_proc_def)
  have g: "getint 0x200 sample_kern = Some (0, Some 0x210)" "getint 0x204 sample_kern = Some (0, Some 0)"
    by (simp_all add: sample_getint sample_ld32)
  have t: "getstr 0x210 sample_kern = Some (2, Some 0x210)" "getstr 0 sample_kern = Some (5, Some 0)"
    using getstr_accepts[OF c(1) sample_string(1)] getstr_accepts[OF c(1) sample_string(2)] by (simp_all add: c(2))
  have "[0..<MAXARG] = 0 # 1 # [2..<MAXARG]" by (simp add: MAXARG_def upt_conv_Cons)
  then have "exec_argv 0x200 [0..<MAXARG] [] sample_kern = Some (Some ([0x210] @ [0]))" using g t by simp
  moreover have "argstr 0 sample_kern = Some (5, Some 0)" by (simp add: argstr_def sample_argints t)
  ultimately show ?thesis using sample_string(2) sample_argints(2) unfolding exec_request_def by (intro exI[of _ 5] exI[of _ 0] exI[of _ "0x200"]) simp
qed

lemma sample_running: "running 0 0x80004000 sample_kern [0x80005000, 0x80006000]"
  using sample_uspace(1) by (simp add: running_def sample_space kstack_ok_def sample_proc_def KSTACKSIZE_def TF_SIZE_def page_al_def)
    (simp add: sample_dir_def KERNBASE_def)

lemma demo_pages:
  fixes s :: kern
  assumes "ram s = sample_ram" "freelist s = freelist sample_kern" "kmem.more s = kmem.more sample_kern"
  obtains s' ps where "mem_step s s'" "running 0 0x80004000 s' ps" "args_ok [0x210] [[97, 98]] s'" "length ps = 1042" "KERNBASE \<notin> set ps"
    "exec_request [47, 105, 110, 105, 116] [0x210] s'"
proof -
  let ?ps = "[0x80005000, 0x80006000] :: u32 list"
  have fp: "free_pages s ?ps" using sample_free_pages assms by (simp add: free_pages_def)
  have up: "PGROUNDUP 0x80400000 = 0x80400000" by (simp add: PGROUNDUP_def PGSIZE_def)
  let ?r = "page_range 0x80400000 1040"
  have r: "unat (0x80400000 :: u32) \<le> unat q" if "q \<in> set ?r" for q using page_range_member[OF that] by simp
  have dj: "set ?r \<inter> set ?ps = {}" using r by fastforce
  obtain s' where s': "freerange 0x80400000 0x80810000 s = Some s'" "free_pages s' (rev ?r @ ?ps)" "same_outside (set ?r) (ram s) (ram s')" "mem_step s s'"
    using freerange_ok[OF fp, of "0x80400000" "0x80810000"] dj unfolding up by auto
  let ?qs = "rev ?r @ ?ps"
  have kb: "KERNBASE \<notin> set ?qs" using r by (fastforce simp: KERNBASE_def)
  have sp: "{0x80001000, 0x80002000, 0x80003000, 0x80004000} \<inter> set ?r = {}" using r by fastforce
  have al: "\<forall>p\<in>set ?r. page_al p" using free_pagesD(1)[OF s'(2)] by simp
  have d1: "set ?r \<inter> space sample_dir (ram sample_kern) = {}" "set ?qs \<inter> space sample_dir (ram sample_kern) = {}"
    using sp by (auto simp: sample_space)
  have so: "same_outside (set ?r) (ram sample_kern) (ram s')" using s'(3) assms(1) by simp
  note U = uspace_keep[OF sample_uspace(1) so al d1(1) s'(2) d1(2) kb]
  have m: "ptable s' = ptable sample_kern" "cr3 s' = V2P sample_dir" "curproc s' = Some 0"
    using mem_stepD(8)[OF s'(4)] assms(3) by (cases s'; cases s; simp add: sample_kern_def)+
  have un: "unchanged sample_dir sample_kern s'" using U(2-4) by (simp add: unchanged_def)
  have c: "cr3 sample_kern = V2P sample_dir" by (simp add: sample_kern_def)
  have "running 0 0x80004000 s' ?qs"
    using U(1) m sp d1(2) by (simp add: running_def U(3) sample_space kstack_ok_def sample_proc_def KSTACKSIZE_def TF_SIZE_def page_al_def)
      (simp add: sample_dir_def KERNBASE_def)
  moreover have "args_ok [0x210] [[97, 98]] s'"
    using user_string_keep[OF sample_string(1) sample_uspace(1) U(1) c m(2) un] by (simp add: args_ok_def MAXARG_def stack_size_def args_size_def)
  moreover have "length ?qs = 1042" by (simp add: page_range_def)
  moreover have "exec_request [47, 105, 110, 105, 116] [0x210] s'"
  proof (rule exec_request_keep[OF _ _ _ _ sample_uspace(1) U(1) c m(2) un sample_request])
    show "cur s' = cur sample_kern" "cur sample_kern = Some sample_proc" "p_sz sample_proc \<le> KERNBASE"
      using m(1,3) by (simp_all add: cur_def getcurproc_def) (simp add: sample_proc_def KERNBASE_def)
    have "page_al 0x80004000" "0x80004000 \<notin> set ?r" using sp by (simp_all add: page_al_def)
    note ld32_outside[OF so this al, of 4088]
    then show "rd_mem (p_tf sample_proc + TF_ESP) s' = rd_mem (p_tf sample_proc + TF_ESP) sample_kern"
      by (simp add: rd_mem_def sample_proc_def TF_ESP_def)
  qed
  ultimately show ?thesis using that s'(4) kb by blast
qed


lemma demo_fits: "mkfs_fits demo_files" "names_ok demo_files"
  by (simp_all add: demo_files_def mkfs_fits_def names_ok_def image_files_def total_blocks_def mkfs_name_def fs_consts fblocks_def root_bytes_def)

lemma demo_kernel:
  obtains s :: kern and ps where "getcurproc s = Some 0" "walking s (image_inodes demo_files)" "image_of demo_files (blocks s)" "sb s = mkfs_sb"
    "running 0 0x80004000 s ps" "args_ok [0x210] [[97, 98]] s" "length ps = 1042" "KERNBASE \<notin> set ps" "p_tf (ptable s 0) = 0x80004FB4"
    "exec_request [47, 105, 110, 105, 116] [0x210] s"
proof -
  let ?m = "\<lparr>img = \<lambda>_. zeroes, freeinode = 1, freeblock = 0, msb = mkfs_sb\<rparr>"
  have "\<forall>b. length (img ?m b) = BSIZE" by (simp add: zeroes_def)
  then obtain m where m: "mkfs_main demo_files ?m = Some m" "image_of demo_files (img m)"
    by (rule mkfs_main_ok[OF _ demo_fits(1)])
  have len: "length (img m n) = 512" for n using imageD(1)[OF m(2)] by (simp add: wf_disk_def BSIZE_def)
  define s :: kern where "s = sample_kern\<lparr>bufs := bufs (booted (img m)), disk := disk (booted (img m)), sb := mkfs_sb, icache := \<lambda>_. free_slot\<rparr>"
  have "env_ok sample_kern" "env_ok (booted (img m))" using hi_bio_ok(1) booted_ok(2)[OF len] sample_kern_bio by (simp_all add: bio_ok_def)
  then have e: "env_ok s = env_ok (booted (img m))" by (simp add: s_def env_ok_def ata_live_def ata_clean_def)
  have b: "bufs s = bufs (booted (img m))" "disk s = disk (booted (img m))" "sb s = mkfs_sb" "icache s = (\<lambda>_. free_slot)" by (simp_all add: s_def)
  note o = bio_ok_same[OF b(1,2) e]
  have "mounted demo_files s"
    unfolding mounted_def o using booted_ok(2,3)[OF len] m(2) imageD(2)[OF m(2)] by (simp add: b(3,4) free_slot_def)
  from mounted_walking[OF this] have w: "walking s (image_inodes demo_files)" by (simp add: demo_files_def)
  have bl: "blocks s = img m" unfolding o(3) by simp
  have "ram s = sample_ram" "freelist s = freelist sample_kern" "kmem.more s = kmem.more sample_kern" by (simp_all add: s_def sample_kern_def)
  then obtain t ps where t: "mem_step s t" "running 0 0x80004000 t ps" "args_ok [0x210] [[97, 98]] t" "length ps = 1042" "KERNBASE \<notin> set ps"
    "exec_request [47, 105, 110, 105, 116] [0x210] t"
    by (rule demo_pages)
  note M = mem_stepD[OF t(1)]
  have pins: "pins t = pins s" by (rule M(2))
  have "walking t (image_inodes demo_files)" using w by (simp add: walking_def synced_def M)
  moreover have "getcurproc t = Some 0" "p_tf (ptable t 0) = 0x80004FB4"
    using mem_step_kern[OF t(1)] by (simp_all add: getcurproc_def s_def sample_proc_def)
  ultimately show ?thesis using t(2-6) m(2) by (intro that[of t ps]) (simp_all add: M bl b(3))
qed

end
