(* ===== verification/Space_Life.thy ===== *)
theory Space_Life
  imports Exec_Commit
begin

text \<open>
  The life of an address space (kernel/vm.c): set up by \<open>setupkvm\<close>, changed by any sequence of growing, shrinking, loading, storing and
  protecting, and ended by \<open>freevm\<close>. The steps are the code's operations, the reachable states those of any such sequence.
\<close>

unbundle bit_operations_syntax

section \<open>Steps\<close>

text \<open>The size is that of the process; the conditions are what the callers in the kernel see to.\<close>

inductive space_step :: "u32 \<Rightarrow> u32 \<times> 'a kern_scheme \<Rightarrow> u32 \<times> 'a kern_scheme \<Rightarrow> bool" for d where
  space_grow: "allocuvm d sz new s = Some (r, s') \<Longrightarrow> space_step d (sz, s) (if r = 0 then sz else r, s')"
| space_shrink: "deallocuvm d sz new s = Some (r, s') \<Longrightarrow> space_step d (sz, s) (r, s')"
| space_load: "loaduvm d addr ip off n s = Some (r, s') \<Longrightarrow> readable ip s \<Longrightarrow> page_al addr \<Longrightarrow> unat addr + unat n \<le> unat sz
    \<Longrightarrow> space_step d (sz, s) (sz, s')"
| space_store: "copyout d va buf n s = Some (r, s') \<Longrightarrow> unat n \<le> length buf \<Longrightarrow> unat va + unat n \<le> unat sz
    \<Longrightarrow> (\<forall>v. unat va \<le> unat v \<longrightarrow> unat v < unat va + unat n \<longrightarrow> umapped d (ram s) v) \<Longrightarrow> space_step d (sz, s) (sz, s')"
| space_guard: "clearpteu d a s = Some s' \<Longrightarrow> page_al a \<Longrightarrow> a < sz \<Longrightarrow> space_step d (sz, s) (sz, s')"

inductive_cases space_stepE: "space_step d (sz, s) c"

section \<open>The invariant\<close>

text \<open>\<open>Q\<close> are all pages of the address space and the free list \<open>ps\<close>; nothing else has changed since \<open>s0\<close>; \<open>D\<close> is where the kernel's data begin.\<close>

definition living :: "u32 \<Rightarrow> u32 \<Rightarrow> u32 set \<Rightarrow> 'a kern_scheme \<Rightarrow> u32 list \<Rightarrow> u32 \<times> 'a kern_scheme \<Rightarrow> bool" where
  "living d D Q s0 ps c \<longleftrightarrow> (case c of (sz, s) \<Rightarrow> uspace d s ps \<and> insert d (pages d s ps) = Q \<and> quiet s0 s \<and> same_outside Q (ram s0) (ram s)
     \<and> sz < KERNBASE \<and> (\<forall>v<KERNBASE. present (pmap d (ram s) v) \<longleftrightarrow> PGROUNDDOWN v < sz)
     \<and> (\<forall>v. KERNBASE \<le> v \<longrightarrow> present (pmap d (ram s) v) \<longrightarrow> pmap d (ram s) v = kernel_entry D v))"

lemma livingD:
  assumes "living d D Q s0 ps (sz, s)"
  shows "uspace d s ps" "insert d (pages d s ps) = Q" "quiet s0 s" "same_outside Q (ram s0) (ram s)" "sz < KERNBASE"
    "v < KERNBASE \<Longrightarrow> present (pmap d (ram s) v) \<longleftrightarrow> PGROUNDDOWN v < sz"
    "KERNBASE \<le> v \<Longrightarrow> present (pmap d (ram s) v) \<Longrightarrow> pmap d (ram s) v = kernel_entry D v"
    "\<forall>v. KERNBASE \<le> v \<longrightarrow> \<not> umapped d (ram s) v" "bio_ok s"
proof -
  show l: "uspace d s ps" "insert d (pages d s ps) = Q" "quiet s0 s" "same_outside Q (ram s0) (ram s)" "sz < KERNBASE"
    "v < KERNBASE \<Longrightarrow> present (pmap d (ram s) v) \<longleftrightarrow> PGROUNDDOWN v < sz"
    "KERNBASE \<le> v \<Longrightarrow> present (pmap d (ram s) v) \<Longrightarrow> pmap d (ram s) v = kernel_entry D v" for v
    using assms unfolding living_def prod.case by blast+
  show "\<forall>v. KERNBASE \<le> v \<longrightarrow> \<not> umapped d (ram s) v" using l(7) kernel_not_user unfolding umapped_def by metis
  show "bio_ok s" by (rule quietD(1)[OF l(3)])
qed

text \<open>An operation inside the address space keeps what is outside.\<close>

lemma living_step:
  assumes L: "living d D Q s0 ps (sz, s)"
    and step: "uspace d s' ps'" "pages d s' ps' = pages d s ps" "quiet s s'" "inside d s ps s'"
    and sz: "sz' < KERNBASE" "\<And>v. v < KERNBASE \<Longrightarrow> present (pmap d (ram s') v) \<longleftrightarrow> PGROUNDDOWN v < sz'"
    and k: "\<And>v. KERNBASE \<le> v \<Longrightarrow> present (pmap d (ram s') v) \<Longrightarrow> pmap d (ram s') v = pmap d (ram s) v"
  shows "living d D Q s0 ps' (sz', s')"
proof -
  note l = livingD[OF L]
  have "same_outside Q (ram s) (ram s')" using step(4) l(2) by (simp add: inside_def)
  then have so: "same_outside Q (ram s0) (ram s')" by (rule same_outside_trans[OF l(4)])
  have "pmap d (ram s') v = kernel_entry D v" if "KERNBASE \<le> v" "present (pmap d (ram s') v)" for v
    using k[OF that] l(7)[OF that(1)] that(2) by simp
  then show ?thesis
    unfolding living_def prod.case using step(1,2) l(2) quiet_trans[OF l(3) step(3)] so sz by simp
qed

lemma cut_off_user: "cut_off a b v \<Longrightarrow> b \<le> KERNBASE \<Longrightarrow> v < KERNBASE"
  by (meson PGROUNDDOWN_user cut_off_def less_le_trans)

lemma living_grow:
  assumes L: "living d D Q s0 ps (sz, s)"
  shows "\<exists>r s' ps'. allocuvm d sz new s = Some (r, s') \<and> living d D Q s0 ps' (if r = 0 then sz else r, s')"
proof (cases "KERNBASE \<le> new \<or> new < sz")
  case True
  then have "allocuvm d sz new s = Some (if KERNBASE \<le> new then 0 else sz, s)" by (auto simp: allocuvm_def)
  then show ?thesis using L by auto
next
  case False
  then have n: "new < KERNBASE" "sz \<le> new" by auto
  note l = livingD[OF L]
  have no: "\<not> present (pmap d (ram s) v)" if "cut_off sz new v" for v
    using cut_off_user[OF that] n(1) l(6)[of v] that by (auto simp: cut_off_def)
  have kc: "\<not> cut_off sz new v" if "KERNBASE \<le> v" for v using cut_off_user[of sz new v] less_imp_le[OF n(1)] that by auto
  obtain r s' qs where a: "allocuvm d sz new s = Some (r, s')" "r = new \<and> grown d (cut_off sz new) s ps s' qs \<or> r = 0 \<and> undone d (cut_off sz new) s ps s' qs"
    using allocuvm_ok[OF l(1) n no] by blast
  from a(2) have "living d D Q s0 qs (if r = 0 then sz else r, s')"
  proof (elim disjE conjE)
    assume r: "r = new" and G: "grown d (cut_off sz new) s ps s' qs"
    note G' = grownD[OF G]
    have e: "(if r = 0 then sz else r) = new" using r n(2) by auto
    show ?thesis unfolding e
    proof (rule living_step[OF L G'(1,3) quiet_mem[OF l(9) G'(2)] G'(7) n(1)])
      fix v :: u32 assume v: "v < KERNBASE"
      show "present (pmap d (ram s') v) = (PGROUNDDOWN v < new)"
        using G'(4)[of v] G'(5)[of v] l(6)[OF v] n(2) by (cases "cut_off sz new v") (auto simp: fresh_def umapped_def cut_off_def)
    qed (use kc G'(4) in auto)
  next
    assume r: "r = 0" and u: "undone d (cut_off sz new) s ps s' qs"
    have d: "uspace d s' qs" "mem_frame s s'" "pages d s' qs = pages d s ps" "inside d s ps s'"
      "present (pmap d (ram s') v) \<longleftrightarrow> present (pmap d (ram s) v) \<and> \<not> cut_off sz new v" "present (pmap d (ram s') v) \<Longrightarrow> pmap d (ram s') v = pmap d (ram s) v" for v
      using u unfolding undone_def by blast+
    have e: "(if r = 0 then sz else r) = sz" using r by simp
    show ?thesis unfolding e
      by (rule living_step[OF L d(1,3) quiet_mem[OF l(9) d(2)] d(4) l(5)]) (use d(5,6) l(6) in \<open>auto simp: cut_off_def\<close>)
  qed
  then show ?thesis using a(1) by blast
qed

lemma living_shrink:
  assumes L: "living d D Q s0 ps (sz, s)"
  shows "\<exists>r s' ps'. deallocuvm d sz new s = Some (r, s') \<and> living d D Q s0 ps' (r, s')"
proof -
  note l = livingD[OF L]
  have szk: "sz \<le> KERNBASE" using l(5) by simp
  obtain s' qs where a: "deallocuvm d sz new s = Some (if new \<ge> sz then sz else new, s')" "unmapped d (cut_off new sz) s ps s' qs"
    using deallocuvm_ok[OF l(1) szk, of new] by blast
  note A = unmappedD[OF a(2)]
  have "living d D Q s0 qs (if new \<ge> sz then sz else new, s')"
  proof (rule living_step[OF L A(1,5) quiet_mem[OF l(9) A(2)] A(8)])
    show "(if new \<ge> sz then sz else new) < KERNBASE" using l(5) by auto
    show "present (pmap d (ram s') v) = (PGROUNDDOWN v < (if new \<ge> sz then sz else new))" if "v < KERNBASE" for v
      using l(6)[OF that] by (auto simp: A(4) cut_off_def present_def)
    show "pmap d (ram s') v = pmap d (ram s) v" if "KERNBASE \<le> v" for v
      using cut_off_user[of new sz v] szk that by (auto simp: A(4))
  qed
  then show ?thesis using a(1) by blast
qed

lemma living_stored:
  assumes L: "living d D Q s0 ps (sz, s)" and S: "stored_to d ps a n s s'"
  shows "living d D Q s0 ps (sz, s')"
proof -
  note l = livingD[OF L] and S' = stored_toD[OF S]
  show ?thesis by (rule living_step[OF L S'(2,3,1,6) l(5)]) (simp_all add: S'(4) l(6))
qed

lemma below_size: "unat v < unat sz \<Longrightarrow> sz < KERNBASE \<Longrightarrow> v < KERNBASE \<and> PGROUNDDOWN v < sz"
proof -
  assume v: "unat v < unat sz" "sz < KERNBASE"
  have "unat (PGROUNDDOWN v) \<le> unat v" unfolding unat_PGROUNDDOWN by (rule div_times_less_eq_dividend)
  then show ?thesis using v by (simp add: word_less_nat_alt)
qed

lemma living_load:
  assumes L: "living d D Q s0 ps (sz, s)" and R: "readable ip s" and al: "page_al addr" "unat addr + unat n \<le> unat sz"
  shows "\<exists>r s'. loaduvm d addr ip off n s = Some (r, s') \<and> living d D Q s0 ps (sz, s')"
proof -
  note l = livingD[OF L]
  have pr: "\<forall>v. unat addr \<le> unat v \<longrightarrow> unat v < unat addr + unat n \<longrightarrow> present (pmap d (ram s) v)"
    using below_size[OF _ l(5)] l(6) al(2) by (meson less_le_trans)
  have top: "unat addr + unat n \<le> 2147483648" using al(2) l(5) by (simp add: word_less_nat_alt unat_KERNBASE)
  show ?thesis using loaduvm_ok[OF l(1) R al(1) top pr, of off] living_stored[OF L] by blast
qed

lemma living_store:
  assumes L: "living d D Q s0 ps (sz, s)" and len: "unat n \<le> length buf" and va: "unat va + unat n \<le> unat sz"
    and um: "\<forall>v. unat va \<le> unat v \<longrightarrow> unat v < unat va + unat n \<longrightarrow> umapped d (ram s) v"
  shows "\<exists>s'. copyout d va buf n s = Some (0, s') \<and> living d D Q s0 ps (sz, s')"
proof -
  note l = livingD[OF L]
  have top: "unat va + unat n \<le> 2147483648" using va l(5) by (simp add: word_less_nat_alt unat_KERNBASE)
  show ?thesis using copyout_user[OF l(1,9,8) len top um] living_stored[OF L] by blast
qed

lemma living_guard:
  assumes L: "living d D Q s0 ps (sz, s)" and a: "page_al a" "a < sz"
  shows "\<exists>s'. clearpteu d a s = Some s' \<and> living d D Q s0 ps (sz, s')"
proof -
  note l = livingD[OF L]
  have ak: "a < KERNBASE" "PGROUNDDOWN a < sz" using below_size[of a sz] a(2) l(5) by (simp_all add: word_less_nat_alt)
  then have "present (pmap d (ram s) a)" using l(6) by simp
  then obtain s' where s': "clearpteu d a s = Some s'" "uspace d s' ps" "pages d s' ps = pages d s ps" "mem_frame s s'" "inside d s ps s'"
    "pmap d (ram s') = (\<lambda>v. if PGROUNDDOWN v = a then pmap d (ram s) v AND NOT PTE_U else pmap d (ram s) v)"
    using clearpteu_ok[OF l(1) a(1) ak(1)] by blast
  have "living d D Q s0 ps (sz, s')"
  proof (rule living_step[OF L s'(2,3) quiet_mem[OF l(9) s'(4)] s'(5) l(5)])
    show "present (pmap d (ram s') v) = (PGROUNDDOWN v < sz)" if "v < KERNBASE" for v using l(6)[OF that] by (simp add: s'(6) clear_user)
    show "pmap d (ram s') v = pmap d (ram s) v" if "KERNBASE \<le> v" for v
      using PGROUNDDOWN_user[of v] ak(1) that by (auto simp: s'(6))
  qed
  then show ?thesis using s'(1) by blast
qed

section \<open>All sequences of steps\<close>

lemma living_steps:
  assumes "(space_step d)\<^sup>*\<^sup>* c c'" "living d D Q s0 ps c"
  shows "\<exists>ps'. living d D Q s0 ps' c'"
  using assms
proof (induction rule: rtranclp_induct)
  case (step c1 c2)
  obtain qs where L: "living d D Q s0 qs c1" using step by blast
  from step(2) show ?case
  proof cases
    case (space_grow sz new s r s')
    then show ?thesis using living_grow[OF L[unfolded space_grow(1)], of new] by auto
  next
    case (space_shrink sz new s r s')
    then show ?thesis using living_shrink[OF L[unfolded space_shrink(1)], of new] by auto
  next
    case (space_load addr ip off n s r s' sz)
    then show ?thesis using living_load[OF L[unfolded space_load(1)], of ip addr n off] by auto
  next
    case (space_store va buf n s r s' sz)
    then show ?thesis using living_store[OF L[unfolded space_store(1)], of n buf va] by auto
  next
    case (space_guard a s s' sz)
    then show ?thesis using living_guard[OF L[unfolded space_guard(1)], of a] by auto
  qed
qed blast


text \<open>From \<open>setupkvm\<close> to \<open>freevm\<close>: every page comes back.\<close>

lemma space_life:
  fixes s0 s1 s2 :: "'a kern_scheme"
  assumes fp: "free_pages s0 ps" "KERNBASE \<notin> set ps" and data: "page_al D" "KERNLINK < D" "D < P2V PHYSTOP" and bio: "bio_ok s0"
    and new: "setupkvm D s0 = Some (d, s1)" "d \<noteq> 0" and run: "(space_step d)\<^sup>*\<^sup>* (0, s1) (sz, s2)"
  shows "\<exists>qs. living d D (set ps) s0 qs (sz, s2)"
    "\<exists>s3 ps'. freevm d s2 = Some s3 \<and> free_pages s3 ps' \<and> set ps' = set ps \<and> same_outside (set ps) (ram s0) (ram s3) \<and> quiet s0 s3"
proof -
  obtain qs where k: "mem_frame s0 s1" "same_outside (set ps) (ram s0) (ram s1)" "uspace d s1 qs" "pmap d (ram s1) = kernel_entry D"
    "insert d (pages d s1 qs) = set ps"
    using setupkvm_ok[OF fp data] new by auto
  have "living d D (set ps) s0 qs (0, s1)"
    unfolding living_def prod.case using k quiet_mem[OF bio k(1)] by (simp add: kernel_entry_def) (simp add: KERNBASE_def)
  from living_steps[OF run this] show L: "\<exists>qs. living d D (set ps) s0 qs (sz, s2)" .
  then obtain rs where L: "living d D (set ps) s0 rs (sz, s2)" by blast
  note l = livingD[OF L]
  obtain s3 ps' where f: "freevm d s2 = Some s3" "free_pages s3 ps'" "set ps' = insert d (pages d s2 rs)" "mem_frame s2 s3" "inside d s2 rs s3"
    using freevm_ok[OF l(1)] by blast
  have "same_outside (set ps) (ram s2) (ram s3)" using f(5) l(2) by (simp add: inside_def)
  then have "same_outside (set ps) (ram s0) (ram s3)" by (rule same_outside_trans[OF l(4)])
  then show "\<exists>s3 ps'. freevm d s2 = Some s3 \<and> free_pages s3 ps' \<and> set ps' = set ps \<and> same_outside (set ps) (ram s0) (ram s3) \<and> quiet s0 s3"
    using f(1-3) l(2) quiet_trans[OF l(3) quiet_mem[OF l(9) f(4)]] by blast
qed

end
