(* ===== verification/Page_Source.thy ===== *)
theory Page_Source
  imports Kalloc "HOL-Library.Multiset"
begin

text \<open>
  Any use of the page allocator (kernel/kalloc.c). The interface is the locale \<open>page_source\<close>: what \<open>kalloc\<close> and \<open>kfree\<close> promise, and that a
  page in use is the client's own. Its client holds pages and writes into them; however it takes, writes and gives back, no page is ever handed
  out twice or lost, and nobody else writes into a page it holds.
\<close>

locale page_source =
  fixes alloc :: "'s \<Rightarrow> u32 \<times> 's"
    and free :: "u32 \<Rightarrow> 's \<Rightarrow> 's"
    and store :: "nat \<Rightarrow> u8 \<Rightarrow> 's \<Rightarrow> 's"
    and pool :: "'s \<Rightarrow> u32 list \<Rightarrow> bool"
    and mem :: "'s \<Rightarrow> nat \<Rightarrow> u8"
  assumes alloc_none: "pool s [] \<Longrightarrow> alloc s = (0, s)"
    and alloc_some: "pool s (p # ps) \<Longrightarrow> \<exists>s'. alloc s = (p, s') \<and> pool s' ps \<and> mem s' = mem s"
    and free: "pool s ps \<Longrightarrow> page_al p \<Longrightarrow> p \<noteq> 0 \<Longrightarrow> p \<notin> set ps \<Longrightarrow> pool (free p s) (p # ps) \<and> same_outside {p} (mem s) (mem (free p s))"
    and store: "pool s ps \<Longrightarrow> page_al p \<Longrightarrow> p \<notin> set ps \<Longrightarrow> in_page p a \<Longrightarrow> pool (store a x s) ps \<and> mem (store a x s) = (mem s)(a := x)"
    and pool_pages: "pool s ps \<Longrightarrow> distinct ps \<and> (\<forall>p\<in>set ps. page_al p \<and> p \<noteq> 0)"
begin

text \<open>The client holds the pages \<open>hs\<close>, whose contents it knows to be \<open>M\<close>; \<open>ps\<close> are free.\<close>

definition owns :: "u32 list \<Rightarrow> (nat \<Rightarrow> u8) \<Rightarrow> 's \<Rightarrow> u32 list \<Rightarrow> bool" where
  "owns hs M s ps \<longleftrightarrow> pool s ps \<and> distinct (hs @ ps) \<and> (\<forall>p\<in>set hs. page_al p \<and> p \<noteq> 0 \<and> (\<forall>a. in_page p a \<longrightarrow> mem s a = M a))"

lemma owns_start: "pool s ps \<Longrightarrow> owns [] M s ps"
  using pool_pages by (simp add: owns_def)

lemma owns_alloc:
  assumes O: "owns hs M s (p # ps)"
  shows "\<exists>s'. alloc s = (p, s') \<and> p \<noteq> 0 \<and> owns (p # hs) (\<lambda>a. if in_page p a then mem s' a else M a) s' ps"
proof -
  have P: "pool s (p # ps)" using O by (simp add: owns_def)
  obtain s' where s': "alloc s = (p, s')" "pool s' ps" "mem s' = mem s" using alloc_some[OF P] by blast
  have p: "page_al p" "p \<noteq> 0" using pool_pages[OF P] by simp_all
  have "owns (p # hs) (\<lambda>a. if in_page p a then mem s' a else M a) s' ps"
    using O s'(2,3) p unfolding owns_def by auto
  then show ?thesis using s'(1) p(2) by blast
qed

lemma owns_free:
  assumes O: "owns hs M s ps" and p: "p \<in> set hs"
  shows "owns (remove1 p hs) M (free p s) (p # ps)"
proof -
  have al: "page_al p" "p \<noteq> 0" "p \<notin> set ps" "distinct hs" using O p by (auto simp: owns_def)
  have P: "pool s ps" using O by (simp add: owns_def)
  note f = free[OF P al(1-3)]
  have "mem (free p s) a = M a" if "q \<in> set (remove1 p hs)" "in_page q a" for q a
  proof -
    have q: "q \<in> set hs" "q \<noteq> p" using that(1) al(4) by auto
    then have "\<not> in_page p a" using in_page_unique[of q p a] O that(2) al(1) by (auto simp: owns_def)
    then show ?thesis using f O q(1) that(2) by (simp add: same_outside_def owns_def)
  qed
  moreover have "distinct (remove1 p hs @ p # ps)" using O p by (auto simp: owns_def distinct_remove1 dest: notin_set_remove1)
  ultimately show ?thesis using f O al(4) unfolding owns_def by auto
qed

lemma owns_store:
  assumes O: "owns hs M s ps" and p: "p \<in> set hs" "in_page p a"
  shows "owns hs (M(a := x)) (store a x s) ps"
proof -
  have "pool s ps" "page_al p" "p \<notin> set ps" using O p(1) by (auto simp: owns_def)
  then show ?thesis using store[of s ps p a x] O p(2) by (simp add: owns_def)
qed

end

section \<open>The allocator provides it\<close>

definition store_byte :: "nat \<Rightarrow> u8 \<Rightarrow> 'a kmem_scheme \<Rightarrow> 'a kmem_scheme" where
  "store_byte a x s = s\<lparr>ram := (ram s)(a := x)\<rparr>"

interpretation pg: page_source kalloc kfree store_byte free_pages ram
proof unfold_locales
  fix s :: "'a kmem_scheme" and p and ps :: "u32 list" and a and x :: u8
  show "kalloc s = (0, s)" if "free_pages s []" using that by (rule kalloc_empty)
  show "\<exists>s'. kalloc s = (p, s') \<and> free_pages s' ps \<and> ram s' = ram s" if "free_pages s (p # ps)"
    by (rule kalloc_cons[OF that]) auto
  assume P: "free_pages s ps"
  show "distinct ps \<and> (\<forall>p\<in>set ps. page_al p \<and> p \<noteq> 0)" using P free_pagesD[OF P] by (simp add: free_pages_def)
  assume al: "page_al p"
  show "free_pages (kfree p s) (p # ps) \<and> same_outside {p} (ram s) (ram (kfree p s))" if "p \<noteq> 0" "p \<notin> set ps"
    using kfree_free[OF P al that] by blast
  assume q: "p \<notin> set ps" "in_page p a"
  have "same_outside {p} (ram s) (ram (store_byte a x s))" using q(2) by (simp add: same_outside_def store_byte_def)
  then have "free_pages (store_byte a x s) ps"
    by (rule free_pages_cong[OF P]) (use al q(1) in \<open>simp_all add: store_byte_def\<close>)
  then show "free_pages (store_byte a x s) ps \<and> ram (store_byte a x s) = (ram s)(a := x)" by (simp add: store_byte_def)
qed

section \<open>Runs\<close>

text \<open>The pages held and their contents as the client left them.\<close>

inductive alloc_run :: "'a kmem_scheme \<Rightarrow> 'a kmem_scheme \<Rightarrow> u32 list \<Rightarrow> (nat \<Rightarrow> u8) \<Rightarrow> bool" for s0 where
  alloc_start: "alloc_run s0 s0 [] M"
| alloc_take: "alloc_run s0 s hs M \<Longrightarrow> kalloc s = (p, s') \<Longrightarrow> p \<noteq> 0 \<Longrightarrow> alloc_run s0 s' (p # hs) (\<lambda>a. if in_page p a then ram s' a else M a)"
| alloc_fail: "alloc_run s0 s hs M \<Longrightarrow> kalloc s = (0, s') \<Longrightarrow> alloc_run s0 s' hs M"
| alloc_give: "alloc_run s0 s hs M \<Longrightarrow> p \<in> set hs \<Longrightarrow> alloc_run s0 (kfree p s) (remove1 p hs) M"
| alloc_store: "alloc_run s0 s hs M \<Longrightarrow> p \<in> set hs \<Longrightarrow> in_page p a \<Longrightarrow> alloc_run s0 (store_byte a x s) hs (M(a := x))"

lemma kalloc_either:
  assumes "pg.owns hs M s ps" "kalloc s = (p, s')"
  shows "if p = 0 then ps = [] \<and> s' = s else \<exists>qs. ps = p # qs \<and> pg.owns (p # hs) (\<lambda>a. if in_page p a then ram s' a else M a) s' qs"
proof (cases ps)
  case Nil
  then have "kalloc s = (0, s)" using assms(1) kalloc_empty[of s] by (simp add: pg.owns_def)
  then show ?thesis using assms(2) Nil by simp
next
  case (Cons q qs)
  then show ?thesis using pg.owns_alloc[of hs M s q qs] assms by auto
qed

lemma alloc_run_ok:
  assumes "alloc_run s0 s hs M" "free_pages s0 ps0"
  shows "\<exists>ps. pg.owns hs M s ps \<and> mset hs + mset ps = mset ps0"
  using assms
proof (induction rule: alloc_run.induct)
  case (alloc_start M)
  then show ?case using pg.owns_start by fastforce
next
  case (alloc_take s hs M p s')
  then obtain ps where ps: "pg.owns hs M s ps" "mset hs + mset ps = mset ps0" by blast
  obtain qs where "ps = p # qs" "pg.owns (p # hs) (\<lambda>a. if in_page p a then ram s' a else M a) s' qs"
    using kalloc_either[OF ps(1) alloc_take(2)] alloc_take(3) by auto
  then show ?case using ps(2) by (intro exI[of _ qs]) simp
next
  case (alloc_fail s hs M s')
  then obtain ps where ps: "pg.owns hs M s ps" "mset hs + mset ps = mset ps0" by blast
  then show ?case using kalloc_either[OF ps(1) alloc_fail(2)] by auto
next
  case (alloc_give s hs M p)
  then obtain ps where ps: "pg.owns hs M s ps" "mset hs + mset ps = mset ps0" by blast
  have "mset (remove1 p hs) + mset (p # ps) = add_mset p (mset (remove1 p hs)) + mset ps" by simp
  also have "add_mset p (mset (remove1 p hs)) = mset hs" using alloc_give(2) by simp
  finally have "mset (remove1 p hs) + mset (p # ps) = mset ps0" using ps(2) by simp
  then show ?case using pg.owns_free[OF ps(1) alloc_give(2)] by blast
next
  case (alloc_store s hs M p a x)
  then show ?case using pg.owns_store by blast
qed

end
