(* ===== verification/Cache_Runs.thy ===== *)
theory Cache_Runs
  imports Bio
begin

text \<open>
  Any use of the buffer cache (fs/bio.c): sequences of \<open>bread\<close>, \<open>bwrite\<close> and \<open>brelse\<close>, in which buffers may be held across
  other calls and the same block may be held more than once, behave as reads and writes of the blocks of a disk, in order.
\<close>

section \<open>Handles\<close>

text \<open>What a client of the interface has in its hands: buffers, with the block each was read for.\<close>

context block_cache
begin

definition tracks :: "(nat \<times> u32) list \<Rightarrow> 's \<Rightarrow> bool" where
  "tracks hs s \<longleftrightarrow> ok s \<and> (\<forall>b. pins s b = count_list (map fst hs) b) \<and> (\<forall>(b, n)\<in>set hs. key s b = n)"

lemma tracksD:
  assumes "tracks hs s"
  shows "ok s" "pins s b = count_list (map fst hs) b" "(b, n) \<in> set hs \<Longrightarrow> key s b = n"
  using assms by (auto simp: tracks_def)

lemma tracks_pinned: "tracks hs s \<Longrightarrow> (b, n) \<in> set hs \<Longrightarrow> pins s b > 0"
  using count_list_0_iff[of "map fst hs" b] by (force simp: tracks_def)

lemma tracks_sum:
  assumes "tracks hs s"
  shows "sum (pins s) {..<nbuf} = length hs"
proof -
  have "set (map fst hs) \<subseteq> {..<nbuf}"
    using held[OF tracksD(1)[OF assms] tracks_pinned[OF assms]] by auto
  then have "sum (count_list (map fst hs)) {..<nbuf} = length (map fst hs)" by (intro sum_count_set) simp_all
  then show ?thesis using tracksD(2)[OF assms] by simp
qed

lemma tracks_bread:
  assumes T: "tracks hs s" and n: "n < nblocks" and r: "length hs < nbuf"
  shows "\<exists>b s'. bread 1 n s = Some (b, s') \<and> tracks ((b, n) # hs) s' \<and> bdata s' b = blocks s n \<and> blocks s' = blocks s"
proof -
  obtain b s' where b: "bread 1 n s = Some (b, s')" "ok s'" "pins s' = (pins s)(b := pins s b + 1)" "key s' b = n" "bdata s' b = blocks s n"
    "blocks s' = blocks s" "\<forall>c. pins s c > 0 \<longrightarrow> key s' c = key s c"
    using bread[OF tracksD(1)[OF T] n] r tracks_sum[OF T] by auto
  have "key s' c = m" if "(c, m) \<in> set hs" for c m
    using b(7) tracks_pinned[OF T that] tracksD(3)[OF T that] by simp
  then have "tracks ((b, n) # hs) s'" using b(2-4) tracksD(2)[OF T] by (auto simp: tracks_def)
  then show ?thesis using b by blast
qed

lemma tracks_data: "tracks hs s \<Longrightarrow> (b, n) \<in> set hs \<Longrightarrow> bdata s b = blocks s n"
  using held[of s b] tracks_pinned[of hs s b n] tracksD[of hs s] by auto

lemma tracks_bwrite:
  assumes T: "tracks hs s" and b: "(b, n) \<in> set hs" and d: "length d = bsize"
  shows "\<exists>s'. bwrite b (set_bdata b d s) = Some s' \<and> tracks hs s' \<and> blocks s' = (blocks s)(n := d)"
  using bwrite[OF tracksD(1)[OF T] tracks_pinned[OF T b] d] tracksD[OF T] b by (auto simp: tracks_def)

lemma tracks_brelse:
  assumes T: "tracks hs s" and b: "(b, n) \<in> set hs"
  shows "tracks (remove1 (b, n) hs) (brelse b s)" "blocks (brelse b s) = blocks s"
proof -
  note r = brelse[OF tracksD(1)[OF T] tracks_pinned[OF T b]]
  have "count_list (map fst hs) c = count_list (map fst (remove1 (b, n) hs)) c + (if c = b then 1 else 0)" for c
    using b by (induction hs) auto
  then have c: "count_list (map fst (remove1 (b, n) hs)) c = count_list (map fst hs) c - (if c = b then 1 else 0)" for c by simp
  have "set (remove1 (b, n) hs) \<subseteq> set hs" by (rule set_remove1_subset)
  then show "tracks (remove1 (b, n) hs) (brelse b s)" using r tracksD[OF T] unfolding tracks_def c by auto
  show "blocks (brelse b s) = blocks s" using r by blast
qed

end

section \<open>Runs\<close>

datatype cache_event = Got u32 "u8 list" | Put u32 "u8 list"

text \<open>The specification: a disk on which reads and writes take effect one after the other.\<close>

fun replay :: "cache_event list \<Rightarrow> (u32 \<Rightarrow> u8 list) \<Rightarrow> (u32 \<Rightarrow> u8 list) option" where
  "replay [] D = Some D"
| "replay (Got n d # es) D = (if d = D n then replay es D else None)"
| "replay (Put n d # es) D = replay es (D(n := d))"

lemma replay_append: "replay (es @ fs) D = Option.bind (replay es D) (replay fs)"
proof (induction es arbitrary: D)
  case (Cons e es)
  then show ?case by (cases e) (auto simp: fun_upd_def)
qed simp

text \<open>The code: \<open>hs\<close> are the buffers held, with the blocks they were read for.\<close>

inductive cache_run :: "'a ide_scheme \<Rightarrow> cache_event list \<Rightarrow> 'a ide_scheme \<Rightarrow> (nat \<times> u32) list \<Rightarrow> bool" for s0 where
  run_start: "cache_run s0 [] s0 []"
| run_bread: "cache_run s0 es s hs \<Longrightarrow> n < FSSIZE \<Longrightarrow> length hs < NBUF \<Longrightarrow> bread 1 n s = Some (b, s')
    \<Longrightarrow> cache_run s0 (es @ [Got n (bdata s' b)]) s' ((b, n) # hs)"
| run_look: "cache_run s0 es s hs \<Longrightarrow> (b, n) \<in> set hs \<Longrightarrow> cache_run s0 (es @ [Got n (bdata s b)]) s hs"
| run_bwrite: "cache_run s0 es s hs \<Longrightarrow> (b, n) \<in> set hs \<Longrightarrow> length d = BSIZE \<Longrightarrow> bwrite b (set_bdata b d s) = Some s'
    \<Longrightarrow> cache_run s0 (es @ [Put n d]) s' hs"
| run_brelse: "cache_run s0 es s hs \<Longrightarrow> (b, n) \<in> set hs \<Longrightarrow> cache_run s0 es (brelse b s) (remove1 (b, n) hs)"

lemma cache_run_ok:
  assumes "cache_run s0 es s hs" "bio_ok s0" "pins s0 = (\<lambda>_. 0)"
  shows "bc.tracks hs s \<and> replay es (blocks s0) = Some (blocks s)"
  using assms
proof (induction rule: cache_run.induct)
  case run_start
  then show ?case by (simp add: bc.tracks_def)
next
  case (run_bread es s hs n b s')
  then show ?case using bc.tracks_bread[of hs s n] by (auto simp: replay_append)
next
  case (run_look es s hs b n)
  then show ?case using bc.tracks_data[of hs s b n] by (simp add: replay_append)
next
  case (run_bwrite es s hs b n d s')
  then show ?case using bc.tracks_bwrite[of hs s b n d] by (auto simp: replay_append)
next
  case (run_brelse es s hs b n)
  then show ?case using bc.tracks_brelse[of hs s b n] by simp
qed

text \<open>The calls a client may make next all return.\<close>

lemma cache_run_next:
  assumes "cache_run s0 es s hs" "bio_ok s0" "pins s0 = (\<lambda>_. 0)"
  shows "n < FSSIZE \<Longrightarrow> length hs < NBUF \<Longrightarrow> \<exists>b s'. bread 1 n s = Some (b, s')"
    and "(b, n) \<in> set hs \<Longrightarrow> length d = BSIZE \<Longrightarrow> \<exists>s'. bwrite b (set_bdata b d s) = Some s'"
proof -
  have T: "bc.tracks hs s" using cache_run_ok[OF assms] by simp
  show "\<exists>b s'. bread 1 n s = Some (b, s')" if "n < FSSIZE" "length hs < NBUF" using bc.tracks_bread[OF T that] by blast
  show "\<exists>s'. bwrite b (set_bdata b d s) = Some s'" if "(b, n) \<in> set hs" "length d = BSIZE" using bc.tracks_bwrite[OF T that] by blast
qed

end
