(* ===== verification/Trap.thy ===== *)
theory Trap
  imports Calls
begin

text \<open>
  The way into the kernel: kernel/syscall.c (\<open>dispatcher\<close>, \<open>syscall\<close>), cpu/isr.c (\<open>trap_handler\<close>, \<open>irq_handler\<close>),
  the handlers of cpu/timer.c and drivers/keyboard.c, and \<open>kernel_main\<close> of kernel/kernel.c. The argument \<open>r\<close> is the
  address of the \<open>registers_t\<close> that the assembly stub pushed on the kernel stack.
\<close>

unbundle bit_operations_syntax

section \<open>System calls\<close>

definition SYS_exec :: nat where "SYS_exec = 1"
definition SYS_exit :: nat where "SYS_exit = 2"
definition SYS_open :: nat where "SYS_open = 3"
definition SYS_mknod :: nat where "SYS_mknod = 4"
definition SYS_write :: nat where "SYS_write = 5"
definition SYS_read :: nat where "SYS_read = 6"
definition SYS_close :: nat where "SYS_close = 7"
definition SYS_fstat :: nat where "SYS_fstat = 8"

text \<open>The table of function pointers, indexed by the number of the call; slot 0 is null.\<close>

definition syscalls :: "link \<Rightarrow> ('a kern_scheme \<Rightarrow> (int \<times> 'a kern_scheme) option) option list" where
  "syscalls L = (replicate 9 None)[SYS_exec := Some (sys_exec L), SYS_exit := Some sys_exit, SYS_open := Some sys_open,
     SYS_mknod := Some sys_mknod, SYS_write := Some sys_write, SYS_close := Some sys_close, SYS_read := Some sys_read,
     SYS_fstat := Some sys_fstat]"

definition set_eax :: "nat \<Rightarrow> int \<Rightarrow> 'a kern_scheme \<Rightarrow> 'a kern_scheme" where
  "set_eax p r s = wr_mem (p_tf (ptable s p) + TF_EAX) (word_of_int r) s"

definition dispatcher :: "link \<Rightarrow> int \<Rightarrow> nat \<Rightarrow> 'a kern_scheme \<Rightarrow> 'a kern_scheme option" where
  "dispatcher L num p s =
     (let t = syscalls L in case (if num > 0 \<and> num < int (length t) then t ! nat num else None) of
        Some f \<Rightarrow> do { (r, s1) \<leftarrow> f s; Some (set_eax p r s1) }
      | None \<Rightarrow> do { s1 \<leftarrow> kprintf ''unknow syscall\<newline>'' [] s; Some (set_eax p (- 1) s1) })"

definition syscall :: "link \<Rightarrow> u32 \<Rightarrow> 'a kern_scheme \<Rightarrow> 'a kern_scheme option" where
  "syscall L r s = do {
     p \<leftarrow> getcurproc s;
     let s1 = upd_proc p (\<lambda>x. x\<lparr>p_tf := r\<rparr>) s;
     let num = rd_mem (p_tf (ptable s1 p) + TF_EAX) s1;
     s2 \<leftarrow> kprintf ''recv syscall: %d,%d\<newline>'' [KInt num, KInt (rd_mem (r + TF_INT_NO) s1)] s1;
     dispatcher L (sint num) p s2
   }"

section \<open>Devices\<close>

definition timer_callback :: "'a intr_scheme \<Rightarrow> 'a intr_scheme" where
  "timer_callback s = s\<lparr>tick := tick s + 1\<rparr>"

definition BACKSPACE :: u8 where "BACKSPACE = 0x0E"
definition ENTER :: u8 where "ENTER = 0x1c"
definition CAPSLOCK :: u8 where "CAPSLOCK = 0x3a"
definition SC_MAX :: u8 where "SC_MAX = 0x3a"

definition sc_ascii_caps :: "u8 list" where
  "sc_ascii_caps = cstr (''??1234567890-=??QWERTYUIOP[]??ASDFGHJKL;'' @ [CHR 0x27] @ ''`?'' @ [CHR 0x5C] @ ''ZXCVBNM,./??? '')"

definition sc_ascii_normal :: "u8 list" where
  "sc_ascii_normal = cstr (''??1234567890-=??qwertyuiop[]??asdfghjkl;'' @ [CHR 0x27] @ ''`?'' @ [CHR 0x5C] @ ''zxcvbnm,./??? '')"

definition keyboard_callback :: "'a intr_scheme \<Rightarrow> 'a intr_scheme option" where
  "keyboard_callback s0 =
     (let scancode = fst (port_byte_in 0x60 s0); s = snd (port_byte_in 0x60 s0)
      in if scancode > SC_MAX then Some s
      else if scancode = BACKSPACE then do {
        b \<leftarrow> backspace (key_buffer s);
        Some (kprint_backspace (s\<lparr>key_buffer := b\<rparr>))
      }
      else if scancode = ENTER then do {
        s1 \<leftarrow> user_input (key_buffer s) (kprint ''\<newline>'' s);
        Some (s1\<lparr>key_buffer := (key_buffer s1)[0 := 0]\<rparr>)
      }
      else if scancode = CAPSLOCK then
        kprintf ''capslock:%d\<newline>'' [KInt (if capslock s then 0 else 1)] (s\<lparr>capslock := \<not> capslock s\<rparr>)
      else do {
        let letter = (if capslock s then sc_ascii_caps else sc_ascii_normal) ! unat scancode;
        b \<leftarrow> append_char (key_buffer s) letter;
        kprint_array [letter, 0] (s\<lparr>key_buffer := b\<rparr>)
      })"

section \<open>Traps\<close>

definition exception_messages :: "string list" where
  "exception_messages =
     [''Division By Zero'', ''Debug'', ''Non Maslable Interrupt'', ''Breakpoint'', ''Into Detected Overflow'', ''Out of Bounds'',
      ''Invalid Opcode'', ''No Coprovessor'', ''Double Fault'', ''Coprocessor Segment Overrun'', ''Bad TSS'', ''Segment Not Present'',
      ''Stack Fault'', ''General Protection Fault'', ''Page Fault'', ''Unknown Interrupt'', ''Coprocessor Fault'', ''Alignment Check'',
      ''Machine Check''] @ replicate 13 ''Reserved''"

text \<open>An exception without a handler is reported, and then the kernel spins in \<open>while(1)\<close>: the result tells whether the
  handler returned (\<open>True\<close>) or spins in the given state (\<open>False\<close>). \<open>cr2\<close> is the fault address, given by the processor.\<close>

definition irq_handler :: "u32 \<Rightarrow> u32 \<Rightarrow> 'a kern_scheme \<Rightarrow> (bool \<times> 'a kern_scheme) option" where
  "irq_handler cr2 r s =
     (let n = rd_mem (r + TF_INT_NO) s
      in if n = 130 \<or> n = 14 \<or> n = 160 then Some (True, s)
      else do {
        str \<leftarrow> int_to_ascii n (replicate 3 0);
        s1 \<leftarrow> kprint_array str (kprint ''received interrupt:'' s);
        let s2 = kprint ''\<newline>'' s1;
        s3 \<leftarrow> (if unat n < length exception_messages then Some (kprint (exception_messages ! unat n) s2) else None);
        s4 \<leftarrow> kprintf ''error code is:%x\<newline>'' [KInt (rd_mem (r + TF_ERR_CODE) s)] (kprint ''\<newline>'' s3);
        s5 \<leftarrow> kprintf ''cr2 addr is:%x\<newline>'' [KInt cr2] s4;
        Some (False, s5)
      })"

definition run_handler :: "link \<Rightarrow> handler \<Rightarrow> u32 \<Rightarrow> 'a kern_scheme \<Rightarrow> 'a kern_scheme option" where
  "run_handler L h r s = (case h of
     Timer_callback \<Rightarrow> Some (timer_callback s)
   | Ideint_callback \<Rightarrow> ideint_callback s
   | Keyboard_callback \<Rightarrow> keyboard_callback s
   | Syscall \<Rightarrow> syscall L r s)"

definition trap_handler :: "link \<Rightarrow> u32 \<Rightarrow> u32 \<Rightarrow> 'a kern_scheme \<Rightarrow> (bool \<times> 'a kern_scheme) option" where
  "trap_handler L cr2 r s =
     (let n = rd_mem (r + TF_INT_NO) s;
          s1 = (if n \<ge> 40 then port_byte_out 0xA0 0x20 s else s);
          s2 = port_byte_out 0x20 0x20 s1
      in if unat n \<ge> 256 then None
         else case interrupt_handlers s2 (unat n) of
           Some h \<Rightarrow> do { s3 \<leftarrow> run_handler L h r s2; Some (True, s3) }
         | None \<Rightarrow> irq_handler cr2 r s2)"

section \<open>Start\<close>

definition PTE_PS :: u32 where "PTE_PS = 0x80"

definition entrypgdir :: "u32 list" where
  "entrypgdir = (replicate NPDENTRIES 0)[0 := 0 OR PTE_P OR PTE_W OR PTE_PS, 512 := 0 OR PTE_P OR PTE_W OR PTE_PS]"

text \<open>\<open>uinit\<close> ends in the scheduler, so nothing behind it in \<open>kernel_main\<close> is reached; \<open>fileinit\<close> is empty.\<close>

definition kernel_main :: "link \<Rightarrow> 'a kern_scheme \<Rightarrow> (nat \<times> 'a kern_scheme) option" where
  "kernel_main L s = do {
     s1 \<leftarrow> kinit1 (l_end L) (P2V (4 * 1024 * 1024)) s;
     s2 \<leftarrow> kvmalloc (l_data L) s1;
     let s3 = seginit (l_gdt L) s2;
     s4 \<leftarrow> kinit2 (P2V (4 * 1024 * 1024)) (P2V PHYSTOP) s3;
     s5 \<leftarrow> ideinit (binit s4);
     uinit L s5
   }"


section \<open>Dispatch\<close>

text \<open>The dispatcher runs the handler that belongs to the number of the call and stores its result in \<open>eax\<close> of the trap frame.\<close>

lemma dispatcher_correct:
  defines "run p r \<equiv> Option.bind r (\<lambda>(v, s1). Some (set_eax p v s1))"
  shows "dispatcher L 1 p s = run p (sys_exec L s) \<and> dispatcher L 2 p s = run p (sys_exit s)
    \<and> dispatcher L 3 p s = run p (sys_open s) \<and> dispatcher L 4 p s = run p (sys_mknod s)
    \<and> dispatcher L 5 p s = run p (sys_write s) \<and> dispatcher L 6 p s = run p (sys_read s)
    \<and> dispatcher L 7 p s = run p (sys_close s) \<and> dispatcher L 8 p s = run p (sys_fstat s)"
  unfolding run_def
  by (simp add: dispatcher_def syscalls_def SYS_exec_def SYS_exit_def SYS_open_def SYS_mknod_def SYS_write_def SYS_read_def SYS_close_def SYS_fstat_def)

end
