(* ===== verification/Boot.thy ===== *)
theory Boot
  imports Exec
begin

text \<open>
  boot/start.c: the boot loader. It reads the kernel's ELF image from the sectors behind the boot sector, in polled
  mode and into physical memory, and returns the entry point that it jumps to, or nothing when the image is not ELF.
  It runs without paging: addresses are physical, \<open>ram\<close> is indexed by them.
\<close>

unbundle bit_operations_syntax

definition SECTSIZE :: u32 where "SECTSIZE = 512"

partial_function (option) waitdisk :: "'a machine_scheme \<Rightarrow> 'a machine_scheme option" where
  [code]: "waitdisk s =
     (let r = fst (inb 0x1F7 s); s1 = snd (inb 0x1F7 s) in if r AND 0xC0 \<noteq> 0x40 then waitdisk s1 else Some s1)"

definition readsect :: "u32 \<Rightarrow> u32 \<Rightarrow> 'a kmem_scheme \<Rightarrow> 'a kmem_scheme option" where
  "readsect dst offset s = do {
     s1 \<leftarrow> waitdisk s;
     let s2 = outb 0x1F2 1 s1;
     let s3 = outb 0x1F3 (ucast offset) s2;
     let s4 = outb 0x1F4 (ucast (drop_bit 8 offset)) s3;
     let s5 = outb 0x1F5 (ucast (drop_bit 16 offset)) s4;
     let s6 = outb 0x1F6 (ucast (drop_bit 24 offset OR 0xE0)) s5;
     let s7 = outb 0x1F7 0x20 s6;
     s8 \<leftarrow> waitdisk s7;
     Some (s8\<lparr>ram := store_bytes (unat dst) (insl_data s8) (ram s8)\<rparr>)
   }"

partial_function (option) readseg_loop :: "u32 \<Rightarrow> u32 \<Rightarrow> u32 \<Rightarrow> 'a kmem_scheme \<Rightarrow> 'a kmem_scheme option" where
  [code]: "readseg_loop pa epa offset s =
     (if pa < epa then Option.bind (readsect pa offset s) (readseg_loop (pa + SECTSIZE) epa (offset + 1)) else Some s)"

definition readseg :: "u32 \<Rightarrow> u32 \<Rightarrow> u32 \<Rightarrow> 'a kmem_scheme \<Rightarrow> 'a kmem_scheme option" where
  "readseg pa count offset s =
     readseg_loop (pa - offset mod SECTSIZE) (pa + count) (offset div SECTSIZE + 1) s"

partial_function (option) bootmain_loop :: "u32 \<Rightarrow> u32 \<Rightarrow> 'a kmem_scheme \<Rightarrow> 'a kmem_scheme option" where
  [code]: "bootmain_loop ph eph s =
     (if ph < eph
      then let h = dec_proghdr (load_bytes (unat ph) PH_SIZE (ram s)); pa = ph_paddr h
           in Option.bind (readseg pa (ph_filesz h) (ph_off h) s) (\<lambda>s1.
              let h1 = dec_proghdr (load_bytes (unat ph) PH_SIZE (ram s1));
                  s2 = (if ph_memsz h1 > ph_filesz h1
                        then s1\<lparr>ram := stosb (unat (pa + ph_filesz h1)) 0 (unat (ph_memsz h1 - ph_filesz h1)) (ram s1)\<rparr> else s1)
              in bootmain_loop (ph + of_nat PH_SIZE) eph s2)
      else Some s)"

definition bootmain :: "'a kmem_scheme \<Rightarrow> (u32 option \<times> 'a kmem_scheme) option" where
  "bootmain s = do {
     s1 \<leftarrow> readseg 0x10000 4096 0 s;
     let elf = dec_elfhdr (load_bytes 0x10000 ELF_SIZE (ram s1));
     if e_magic elf \<noteq> ELF_MAGIC then Some (None, s1)
     else do {
       let ph = 0x10000 + e_phoff elf;
       s2 \<leftarrow> bootmain_loop ph (ph + ucast (e_phnum elf) * of_nat PH_SIZE) s1;
       Some (Some (e_entry (dec_elfhdr (load_bytes 0x10000 ELF_SIZE (ram s2)))), s2)
     }
   }"

end
