(* ===== verification/User.thy ===== *)
theory User
  imports Clib Screen
begin

text \<open>
  user/printf.c: formatted output of a user program. Every character is one \<open>write(fd, &c, 1)\<close>; the result is the list of the
  characters written, in order. The variable arguments are those of the kernel's \<open>kprintf\<close>; a null string pointer is \<open>KInt 0\<close>.
\<close>

unbundle bit_operations_syntax

definition udigit :: "nat \<Rightarrow> u8" where
  "udigit d = cstr ''0123456789ABCDEF'' ! d"

text \<open>The digits of \<open>x\<close>, lowest first; the first argument is the room left in \<open>buf[16]\<close>.\<close>

fun udigits :: "nat \<Rightarrow> u32 \<Rightarrow> u32 \<Rightarrow> u8 list option" where
  "udigits 0 x base = None"
| "udigits (Suc room) x base =
     (if base = 0 \<or> 16 < base then None
      else let d = udigit (unat (x mod base)); x' = x div base
           in if x' \<noteq> 0 then map_option ((#) d) (udigits room x' base) else Some [d])"

definition printint :: "u32 \<Rightarrow> u32 \<Rightarrow> bool \<Rightarrow> u8 list option" where
  "printint xx base sign =
     (let neg = sign \<and> sint xx < 0; x = (if neg then - xx else xx)
      in do {
        ds \<leftarrow> udigits 16 x base;
        buf \<leftarrow> (if neg then (if length ds < 16 then Some (ds @ [45]) else None) else Some ds);
        Some (rev buf)
      })"

fun printf :: "u8 list \<Rightarrow> karg list \<Rightarrow> u8 list option" where
  "printf [] args = Some []"
| "printf [c] args = (if c = 37 then Some [] else Some [c])"
| "printf (c # f # fmt) args =
     (if c \<noteq> 37 then map_option ((#) c) (printf (f # fmt) args)
      else if f = 100 then
        (case args of KInt i # as \<Rightarrow> do { ds \<leftarrow> printint i 10 True; r \<leftarrow> printf fmt as; Some (ds @ r) } | _ \<Rightarrow> None)
      else if f = 120 \<or> f = 112 then
        (case args of KInt i # as \<Rightarrow> do { ds \<leftarrow> printint i 16 False; r \<leftarrow> printf fmt as; Some (ds @ r) } | _ \<Rightarrow> None)
      else if f = 115 then
        (case args of KStr str # as \<Rightarrow> map_option ((@) str) (printf fmt as)
         | KInt i # as \<Rightarrow> (if i = 0 then map_option ((@) (cstr ''(null)'')) (printf fmt as) else None)
         | _ \<Rightarrow> None)
      else if f = 99 then
        (case args of KInt i # as \<Rightarrow> map_option ((#) (ucast i)) (printf fmt as) | _ \<Rightarrow> None)
      else if f = 37 then map_option ((#) 37) (printf fmt args)
      else map_option (\<lambda>r. 37 # f # r) (printf fmt args))"

end
