(* ===== verification/User_Init.thy ===== *)
theory User_Init
  imports User Calls
begin

text \<open>
  user/init.c: the first user program, a script of system calls. The calls enter the kernel through the assembly stubs of user/usys.S; what
  they do to the system is an argument of the definitions, the record \<open>sys\<close>. A call that never returns is \<open>None\<close>.
\<close>

unbundle bit_operations_syntax

section \<open>The program\<close>

record 's sys =
  u_open :: "u8 list \<Rightarrow> u32 \<Rightarrow> 's \<Rightarrow> (int \<times> 's) option"
  u_mknod :: "u8 list \<Rightarrow> u16 \<Rightarrow> u16 \<Rightarrow> 's \<Rightarrow> (int \<times> 's) option"
  u_write :: "int \<Rightarrow> u8 list \<Rightarrow> 's \<Rightarrow> (int \<times> 's) option"
  u_read :: "int \<Rightarrow> nat \<Rightarrow> 's \<Rightarrow> (int \<times> u8 list \<times> 's) option"
  u_close :: "int \<Rightarrow> 's \<Rightarrow> (int \<times> 's) option"
  u_fstat :: "int \<Rightarrow> stat \<Rightarrow> 's \<Rightarrow> (int \<times> stat \<times> 's) option"

text \<open>\<open>printf\<close> writes character by character.\<close>

fun put_all :: "'s sys \<Rightarrow> int \<Rightarrow> u8 list \<Rightarrow> 's \<Rightarrow> 's option" where
  "put_all C fd [] s = Some s"
| "put_all C fd (c # cs) s = do { (r, s1) \<leftarrow> u_write C fd [c] s; put_all C fd cs s1 }"

definition uprint :: "'s sys \<Rightarrow> string \<Rightarrow> karg list \<Rightarrow> 's \<Rightarrow> 's option" where
  "uprint C fmt args s = do { bs \<leftarrow> printf (cstr fmt) args; put_all C 0 bs s }"

definition user_stat :: "'s sys \<Rightarrow> u8 list \<Rightarrow> stat \<Rightarrow> 's \<Rightarrow> (int \<times> stat \<times> 's) option" where
  "user_stat C path st s = do {
     (fd, s1) \<leftarrow> u_open C path O_RDONLY s;
     s2 \<leftarrow> uprint C ''fs.text 's fd is:%d\<newline>'' [KInt (of_int fd)] s1;
     if fd \<le> 0 then Some (- 1, st, s2)
     else do {
       (r, st', s3) \<leftarrow> u_fstat C fd st s2;
       (c, s4) \<leftarrow> u_close C fd s3;
       Some (r, st', s4)
     }
   }"

definition init_console :: "'s sys \<Rightarrow> 's \<Rightarrow> 's option" where
  "init_console C s = do {
     (r, s1) \<leftarrow> u_open C (cstr ''console'') O_RDWR s;
     if r < 0 then do {
       (q, s2) \<leftarrow> u_mknod C (cstr ''console'') 1 1 s1;
       (q', s3) \<leftarrow> u_open C (cstr ''console'') O_RDWR s2;
       Some s3
     } else Some s1
   }"

fun init_writes :: "'s sys \<Rightarrow> int \<Rightarrow> nat list \<Rightarrow> 's \<Rightarrow> 's option" where
  "init_writes C fd [] s = Some s"
| "init_writes C fd (i # is) s = do {
     (r, s1) \<leftarrow> u_write C fd (cstr ''aaaaaaaaaa'') s;
     s2 \<leftarrow> (if r \<noteq> 10 then uprint C ''error: write aa %d new file failed\<newline>'' [KInt (of_nat i)] s1 else Some s1);
     (r', s3) \<leftarrow> u_write C fd (cstr ''bbbbbbbbbb'') s2;
     s4 \<leftarrow> (if r' \<noteq> 10 then uprint C ''error: write bb %d new file failed\<newline>'' [KInt (of_nat i)] s3 else Some s3);
     init_writes C fd is s4
   }"

definition init_small :: "'s sys \<Rightarrow> 's \<Rightarrow> 's option" where
  "init_small C s = do {
     (fd, s1) \<leftarrow> u_open C (cstr ''small'') (O_CREATE OR O_RDWR) s;
     s2 \<leftarrow> uprint C (if fd \<ge> 0 then ''creat small succeeded; ok\<newline>'' else ''error: creat small failed!\<newline>'') [] s1;
     s3 \<leftarrow> init_writes C fd [0, 1] s2;
     s4 \<leftarrow> uprint C ''writes ok\<newline>'' [] s3;
     (c, s5) \<leftarrow> u_close C fd s4;
     Some s5
   }"

text \<open>\<open>buf\<close> is a zeroed array of 8192 bytes. The local \<open>st\<close> holds anything but the size.\<close>

definition init_read :: "'s sys \<Rightarrow> 's \<Rightarrow> 's option" where
  "init_read C s = do {
     (fd, s1) \<leftarrow> u_open C (cstr ''fs.txt'') O_RDONLY s;
     s2 \<leftarrow> uprint C (if fd \<ge> 0 then ''open fs.txt succeeded ok\<newline>'' else ''error: open small failed!\<newline>'') [] s1;
     (i, bs, s3) \<leftarrow> u_read C fd 8192 s2;
     let buf = blit 0 bs (replicate 8192 0);
     s4 \<leftarrow> (if i \<noteq> 0 then do {
               a \<leftarrow> uprint C ''read succeeded ok\<newline>'' [] s3;
               if terminated buf then uprint C ''content:%s\<newline>'' [KStr (str_of buf)] a else None
             } else uprint C ''read failed\<newline>'' [] s3);
     (c, s5) \<leftarrow> u_close C fd s4;
     Some s5
   }"

definition init_main :: "'s sys \<Rightarrow> stat \<Rightarrow> 's \<Rightarrow> (int \<times> 's) option" where
  "init_main C st s = do {
     s1 \<leftarrow> init_console C s;
     s2 \<leftarrow> uprint C ''init: starting sh\<newline>'' [] s1;
     s3 \<leftarrow> uprint C ''test create file\<newline>'' [] s2;
     s4 \<leftarrow> init_small C s3;
     (r, st', s5) \<leftarrow> user_stat C (cstr ''fs.txt'') (st\<lparr>st_size := 7\<rparr>) s4;
     s6 \<leftarrow> (if r \<noteq> 0 then uprint C ''fs.text size is:%d\<newline>'' [KInt (st_size st')] s5 else Some s5);
     s7 \<leftarrow> init_read C s6;
     Some (0, s7)
   }"


section \<open>What it does\<close>

text \<open>A reference for the calls: files as byte strings, up to 16 descriptors with offsets, and a console that shows what is written to it.\<close>

record ustore =
  ufiles :: "u8 list \<Rightarrow> u8 list option"
  ufds :: "nat \<Rightarrow> (u8 list \<times> nat) option"
  ushown :: "u8 list"

abbreviation "console_name \<equiv> cstr ''console''"

definition ref_open :: "u8 list \<Rightarrow> u32 \<Rightarrow> ustore \<Rightarrow> (int \<times> ustore) option" where
  "ref_open name mode s = Some (case find (\<lambda>k. ufds s k = None) [0..<16] of
       None \<Rightarrow> (- 1, s)
     | Some k \<Rightarrow> (if ufiles s name = None \<and> mode AND O_CREATE = 0 then (- 1, s)
         else (int k, s\<lparr>ufiles := (ufiles s)(name := Some (case ufiles s name of None \<Rightarrow> [] | Some c \<Rightarrow> c)), ufds := (ufds s)(k := Some (name, 0))\<rparr>)))"

definition ref_write :: "int \<Rightarrow> u8 list \<Rightarrow> ustore \<Rightarrow> (int \<times> ustore) option" where
  "ref_write fd bs s = Some (case ufds s (nat fd) of
       None \<Rightarrow> (- 1, s)
     | Some (name, off) \<Rightarrow> (int (length bs), if name = console_name then s\<lparr>ushown := ushown s @ bs\<rparr>
         else s\<lparr>ufiles := (ufiles s)(name := map_option (blit off bs) (ufiles s name)), ufds := (ufds s)(nat fd := Some (name, off + length bs))\<rparr>))"

definition ref_read :: "int \<Rightarrow> nat \<Rightarrow> ustore \<Rightarrow> (int \<times> u8 list \<times> ustore) option" where
  "ref_read fd k s = (case ufds s (nat fd) of
       None \<Rightarrow> Some (- 1, [], s)
     | Some (name, off) \<Rightarrow> map_option (\<lambda>c. let bs = take k (drop off c)
         in (int (length bs), bs, s\<lparr>ufds := (ufds s)(nat fd := Some (name, off + length bs))\<rparr>)) (ufiles s name))"

definition ref_sys :: "ustore sys" where
  "ref_sys = \<lparr>u_open = ref_open, u_mknod = (\<lambda>name ma mi s. Some (0, s\<lparr>ufiles := (ufiles s)(name := Some [])\<rparr>)), u_write = ref_write, u_read = ref_read,
     u_close = (\<lambda>fd s. Some (0, s\<lparr>ufds := (ufds s)(nat fd := None)\<rparr>)),
     u_fstat = (\<lambda>fd st s. Some (case ufds s (nat fd) of None \<Rightarrow> (- 1, st, s)
       | Some (name, off) \<Rightarrow> (0, st\<lparr>st_size := of_nat (length (the (ufiles s name)))\<rparr>, s)))\<rparr>"

lemma ref_sys_simps [simp]:
  "u_open ref_sys = ref_open" "u_write ref_sys = ref_write" "u_read ref_sys = ref_read" "u_close ref_sys fd s = Some (0, s\<lparr>ufds := (ufds s)(nat fd := None)\<rparr>)"
  "u_fstat ref_sys fd st s = Some (case ufds s (nat fd) of None \<Rightarrow> (- 1, st, s)
       | Some (name, off) \<Rightarrow> (0, st\<lparr>st_size := of_nat (length (the (ufiles s name)))\<rparr>, s))"
  by (simp_all add: ref_sys_def)

lemma put_all_console:
  assumes "ufds s 0 = Some (console_name, k)"
  shows "put_all ref_sys 0 bs s = Some (s\<lparr>ushown := ushown s @ bs\<rparr>)"
  using assms by (induction bs arbitrary: s) (simp_all add: ref_write_def)

lemma printf_plain: "37 \<notin> set bs \<Longrightarrow> printf bs args = Some bs"
  by (induction bs args rule: printf.induct) auto

lemma uprint_plain:
  assumes "ufds s 0 = Some (console_name, k)" "37 \<notin> set (cstr msg)"
  shows "uprint ref_sys msg args s = Some (s\<lparr>ushown := ushown s @ cstr msg\<rparr>)"
  using put_all_console[OF assms(1)] printf_plain[OF assms(2)] by (simp add: uprint_def)

lemma uprint_console:
  assumes "ufds s 0 = Some (console_name, k)" "printf (cstr msg) args = Some bs"
  shows "uprint ref_sys msg args s = Some (s\<lparr>ushown := ushown s @ bs\<rparr>)"
  using put_all_console[OF assms(1)] assms(2) by (simp add: uprint_def)

lemma names_differ: "cstr ''small'' \<noteq> console_name" "cstr ''fs.txt'' \<noteq> console_name" "cstr ''small'' \<noteq> cstr ''fs.txt''"
  by (simp_all add: cstr_def)


lemma first_fd:
  assumes "ufds s 0 = Some (console_name, k)" "ufds s 1 = None"
  shows "find (\<lambda>k. ufds s k = None) [0..<16] = Some 1"
proof -
  have "[0..<16 :: nat] = 0 # 1 # [2..<16]" by (simp add: upt_conv_Cons)
  then show ?thesis using assms by simp
qed

definition abab :: "u8 list" where
  "abab = cstr ''aaaaaaaaaabbbbbbbbbbaaaaaaaaaabbbbbbbbbb''"

lemma init_writes_store:
  assumes "ufds s 1 = Some (name, 0)" "name \<noteq> console_name" "ufiles s name = Some []"
  shows "init_writes ref_sys 1 [0, 1] s = Some (s\<lparr>ufiles := (ufiles s)(name := Some abab), ufds := (ufds s)(1 := Some (name, 40))\<rparr>)"
proof -
  have "blit 30 (cstr ''bbbbbbbbbb'') (blit 20 (cstr ''aaaaaaaaaa'') (blit 10 (cstr ''bbbbbbbbbb'') (blit 0 (cstr ''aaaaaaaaaa'') []))) = abab"
    by (simp add: cstr_def abab_def blit_def)
  moreover have "length (cstr ''aaaaaaaaaa'') = 10" "length (cstr ''bbbbbbbbbb'') = 10" by (simp_all add: cstr_def)
  ultimately show ?thesis using assms by (simp add: ref_write_def)
qed

lemma init_small_store:
  assumes f: "ufds s 0 = Some (console_name, k)" "ufds s 1 = None" and n: "ufiles s (cstr ''small'') = None"
  shows "init_small ref_sys s = Some (s\<lparr>ufiles := (ufiles s)(cstr ''small'' := Some abab),
      ushown := ushown s @ cstr ''creat small succeeded; ok\<newline>writes ok\<newline>''\<rparr>)"
proof -
  have m: "O_CREATE OR O_RDWR AND O_CREATE \<noteq> 0" "(O_CREATE OR O_RDWR) AND O_CREATE \<noteq> 0" by (simp_all add: O_CREATE_def O_RDWR_def)
  let ?s1 = "s\<lparr>ufiles := (ufiles s)(cstr ''small'' := Some []), ufds := (ufds s)(1 := Some (cstr ''small'', 0))\<rparr>"
  have o: "ref_open (cstr ''small'') (O_CREATE OR O_RDWR) s = Some (1, ?s1)"
    using n m first_fd[OF f] by (simp add: ref_open_def)
  let ?s2 = "?s1\<lparr>ushown := ushown s @ cstr ''creat small succeeded; ok\<newline>''\<rparr>"
  have p: "uprint ref_sys ''creat small succeeded; ok\<newline>'' [] ?s1 = Some ?s2"
    using uprint_plain[of ?s1 k "''creat small succeeded; ok\<newline>''" "[]"] f(1) by (simp add: cstr_def)
  let ?s3 = "?s2\<lparr>ufiles := (ufiles s)(cstr ''small'' := Some abab), ufds := (ufds s)(1 := Some (cstr ''small'', 40))\<rparr>"
  have w: "init_writes ref_sys 1 [0, 1] ?s2 = Some ?s3"
    using init_writes_store[of ?s2 "cstr ''small''"] names_differ(1) by simp
  have q: "uprint ref_sys ''writes ok\<newline>'' [] ?s3 = Some (?s3\<lparr>ushown := ushown ?s3 @ cstr ''writes ok\<newline>''\<rparr>)"
    using uprint_plain[of ?s3 k "''writes ok\<newline>''" "[]"] f(1) by (simp add: cstr_def)
  have c: "cstr ''creat small succeeded; ok\<newline>'' @ cstr ''writes ok\<newline>'' = cstr ''creat small succeeded; ok\<newline>writes ok\<newline>''"
    by (simp add: cstr_def)
  have "(ufds s)(1 := None) = ufds s" using f(2) by auto
  then show ?thesis unfolding init_small_def ref_sys_simps o using p w q c by (simp del: init_writes.simps)
qed

lemma printint_one: "printint 1 10 True = Some [49]"
proof -
  have n: "(16 :: nat) = Suc 15" by simp
  have "udigits 16 1 10 = Some [49]" by (subst n, subst udigits.simps) (simp add: udigit_def cstr_def)
  then show ?thesis by (simp add: printint_def)
qed

text \<open>The test \<open>if (stat(...))\<close> is the wrong way round: the size is printed when it could not be found out.\<close>

lemma user_stat_store:
  assumes f: "ufds s 0 = Some (console_name, k)" "ufds s 1 = None" and n: "ufiles s (cstr ''fs.txt'') = Some c"
  shows "user_stat ref_sys (cstr ''fs.txt'') st s = Some (0, st\<lparr>st_size := of_nat (length c)\<rparr>, s\<lparr>ushown := ushown s @ cstr ''fs.text 's fd is:1\<newline>''\<rparr>)"
proof -
  let ?s1 = "s\<lparr>ufds := (ufds s)(1 := Some (cstr ''fs.txt'', 0))\<rparr>"
  have e: "(ufiles s)(cstr ''fs.txt'' := Some c) = ufiles s" using n by auto
  have o: "ref_open (cstr ''fs.txt'') O_RDONLY s = Some (1, ?s1)"
    using n e first_fd[OF f] by (simp add: ref_open_def)
  have "printf (cstr ''fs.text 's fd is:%d\<newline>'') [KInt 1] = Some (cstr ''fs.text 's fd is:1\<newline>'')"
    using printint_one by (simp add: cstr_def)
  then have p: "uprint ref_sys ''fs.text 's fd is:%d\<newline>'' [KInt 1] ?s1 = Some (?s1\<lparr>ushown := ushown s @ cstr ''fs.text 's fd is:1\<newline>''\<rparr>)"
    using uprint_console[of ?s1 k] f(1) by simp
  have "(ufds s)(1 := None) = ufds s" using f(2) by auto
  then show ?thesis unfolding user_stat_def ref_sys_simps o using p n by simp
qed


lemma init_read_store:
  assumes f: "ufds s 0 = Some (console_name, k)" "ufds s 1 = None" and n: "ufiles s (cstr ''fs.txt'') = Some c" and c: "c \<noteq> []" "length c < 8192" "0 \<notin> set c"
  shows "init_read ref_sys s = Some (s\<lparr>ushown := ushown s @ cstr ''open fs.txt succeeded ok\<newline>read succeeded ok\<newline>content:'' @ c @ cstr ''\<newline>''\<rparr>)"
proof -
  let ?s1 = "s\<lparr>ufds := (ufds s)(1 := Some (cstr ''fs.txt'', 0))\<rparr>"
  have e: "(ufiles s)(cstr ''fs.txt'' := Some c) = ufiles s" using n by auto
  have o: "ref_open (cstr ''fs.txt'') O_RDONLY s = Some (1, ?s1)"
    using n e first_fd[OF f] by (simp add: ref_open_def)
  let ?s2 = "?s1\<lparr>ushown := ushown s @ cstr ''open fs.txt succeeded ok\<newline>''\<rparr>"
  have p: "uprint ref_sys ''open fs.txt succeeded ok\<newline>'' [] ?s1 = Some ?s2"
    using uprint_plain[of ?s1 k "''open fs.txt succeeded ok\<newline>''" "[]"] f(1) by (simp add: cstr_def)
  let ?s3 = "?s2\<lparr>ufds := (ufds s)(1 := Some (cstr ''fs.txt'', length c))\<rparr>"
  have r: "ref_read 1 8192 ?s2 = Some (int (length c), c, ?s3)" using n c(2) by (simp add: ref_read_def Let_def)
  let ?buf = "blit 0 c (replicate 8192 0)"
  have b: "?buf = c @ replicate (8192 - length c) 0" using c(2) by (simp add: blit_def)
  have rp: "replicate (8192 - length c) (0 :: u8) = 0 # replicate (8191 - length c) 0"
    using c(2) by (simp add: Suc_diff_Suc[symmetric] replicate_Suc[symmetric] del: replicate_Suc)
  have t: "terminated ?buf" "str_of ?buf = c" unfolding b rp using str_of_append[OF c(3)] by (simp_all add: terminated_def)
  let ?s4 = "?s3\<lparr>ushown := ushown ?s3 @ cstr ''read succeeded ok\<newline>''\<rparr>"
  have q: "uprint ref_sys ''read succeeded ok\<newline>'' [] ?s3 = Some ?s4"
    using uprint_plain[of ?s3 k "''read succeeded ok\<newline>''" "[]"] f(1) by (simp add: cstr_def)
  have "printf (cstr ''content:%s\<newline>'') [KStr c] = Some (cstr ''content:'' @ c @ cstr ''\<newline>'')" by (simp add: cstr_def)
  then have u: "uprint ref_sys ''content:%s\<newline>'' [KStr c] ?s4 = Some (?s4\<lparr>ushown := ushown ?s4 @ cstr ''content:'' @ c @ cstr ''\<newline>''\<rparr>)"
    using uprint_console[of ?s4 k] f(1) by simp
  have m: "cstr ''open fs.txt succeeded ok\<newline>'' @ cstr ''read succeeded ok\<newline>'' @ cstr ''content:'' = cstr ''open fs.txt succeeded ok\<newline>read succeeded ok\<newline>content:''"
    by (simp add: cstr_def)
  have fd: "(ufds s)(1 := None) = ufds s" using f(2) by auto
  show ?thesis
    unfolding init_read_def ref_sys_simps o m[symmetric] using p r q u t c(1) fd by (simp add: Let_def)
qed

text \<open>On a system with a console, a file \<open>fs.txt\<close> and no file \<open>small\<close>, the script runs to its end: it leaves a file with the 40 bytes written, closes
  what it opens, and shows the contents of \<open>fs.txt\<close>.\<close>

lemma init_main_store:
  assumes f: "ufds s = (\<lambda>_. None)" and n: "ufiles s console_name = Some d" "ufiles s (cstr ''small'') = None" "ufiles s (cstr ''fs.txt'') = Some c"
    and c: "c \<noteq> []" "length c < 8192" "0 \<notin> set c"
  shows "\<exists>s'. init_main ref_sys st s = Some (0, s') \<and> ufiles s' = (ufiles s)(cstr ''small'' := Some abab)
    \<and> ufds s' = (\<lambda>_. None)(0 := Some (console_name, 0))
    \<and> ushown s' = ushown s @ cstr ''init: starting sh\<newline>test create file\<newline>creat small succeeded; ok\<newline>writes ok\<newline>fs.text 's fd is:1\<newline>''
        @ cstr ''open fs.txt succeeded ok\<newline>read succeeded ok\<newline>content:'' @ c @ cstr ''\<newline>''"
proof -
  let ?s1 = "s\<lparr>ufds := (ufds s)(0 := Some (console_name, 0))\<rparr>"
  have "[0..<16 :: nat] = 0 # [1..<16]" by (simp add: upt_conv_Cons)
  then have "find (\<lambda>k. ufds s k = None) [0..<16] = Some 0" using f by simp
  moreover have "(ufiles s)(console_name := Some d) = ufiles s" using n(1) by auto
  ultimately have o: "init_console ref_sys s = Some ?s1" using n(1) by (simp add: init_console_def ref_open_def)
  have f1: "ufds ?s1 0 = Some (console_name, 0)" "ufds ?s1 1 = None" using f by simp_all
  let ?t = "\<lambda>m. ?s1\<lparr>ushown := ushown s @ m\<rparr>"
  have p: "uprint ref_sys ''init: starting sh\<newline>'' [] ?s1 = Some (?t (cstr ''init: starting sh\<newline>''))"
    using uprint_plain[OF f1(1), of "''init: starting sh\<newline>''"] by (simp add: cstr_def)
  let ?m2 = "cstr ''init: starting sh\<newline>'' @ cstr ''test create file\<newline>''"
  have q: "uprint ref_sys ''test create file\<newline>'' [] (?t (cstr ''init: starting sh\<newline>'')) = Some (?t ?m2)"
    using uprint_plain[of "?t (cstr ''init: starting sh\<newline>'')" 0 "''test create file\<newline>''"] by (simp add: cstr_def)
  let ?m3 = "?m2 @ cstr ''creat small succeeded; ok\<newline>writes ok\<newline>''"
  let ?s4 = "(?t ?m3)\<lparr>ufiles := (ufiles s)(cstr ''small'' := Some abab)\<rparr>"
  have w: "init_small ref_sys (?t ?m2) = Some ?s4" using init_small_store[of "?t ?m2" 0] f n(2) by simp
  let ?m4 = "?m3 @ cstr ''fs.text 's fd is:1\<newline>''"
  let ?s5 = "(?t ?m4)\<lparr>ufiles := (ufiles s)(cstr ''small'' := Some abab)\<rparr>"
  have n5: "ufiles ?s4 (cstr ''fs.txt'') = Some c" "ufiles ?s5 (cstr ''fs.txt'') = Some c" using n(3) names_differ(3) by auto
  have u: "user_stat ref_sys (cstr ''fs.txt'') (st\<lparr>st_size := 7\<rparr>) ?s4 = Some (0, st\<lparr>st_size := of_nat (length c)\<rparr>, ?s5)"
    using user_stat_store[OF _ _ n5(1), of 0] f by simp
  let ?r = "cstr ''open fs.txt succeeded ok\<newline>read succeeded ok\<newline>content:'' @ c @ cstr ''\<newline>''"
  let ?s6 = "(?t (?m4 @ ?r))\<lparr>ufiles := (ufiles s)(cstr ''small'' := Some abab)\<rparr>"
  have r: "init_read ref_sys ?s5 = Some ?s6" using init_read_store[OF _ _ n5(2) c, of 0] f by simp
  have m: "?m4 = cstr ''init: starting sh\<newline>test create file\<newline>creat small succeeded; ok\<newline>writes ok\<newline>fs.text 's fd is:1\<newline>''" by (simp add: cstr_def)
  have "init_main ref_sys st s = Some (0, ?s6)"
    unfolding init_main_def o using p q w u r by simp
  moreover have "ushown ?s6 = ushown s @ ?m4 @ ?r" by simp
  moreover have "ufds ?s6 = (\<lambda>_. None)(0 := Some (console_name, 0))" "ufiles ?s6 = (ufiles s)(cstr ''small'' := Some abab)" using f by simp_all
  ultimately show ?thesis unfolding m by blast
qed

end
