(* ===== verification/Spec2Isabelle.thy ===== *)
theory Spec2Isabelle
  imports Sample_Exec Space_Life Page_Source Cache_Runs Trap Boot User_Init
begin

text \<open>
  LXOS, a small kernel for the i386 in the tradition of xv6: its C code as functions of HOL, and what makes it correct.

  Parts and theories, from the hardware up (sources under src/):
  \<^item> \<open>Prelude\<close>: byte buffers, little-endian words, the option type as "undefined or never returns".
  \<^item> \<open>Machine\<close> (cpu/ports.c, include/x86.h, libc/mem.c): ports, whose reads the environment answers, and the state \<open>machine\<close>.
  \<^item> \<open>Screen\<close>, \<open>Frames\<close> (drivers/screen.c): the console; \<open>Frames\<close> shows that printing changes nothing above the machine.
  \<^item> \<open>Ide\<close> (drivers/ide.c): the disk driver with its request queue. \<open>Bio\<close> (fs/bio.c): the buffer cache, a ring of links;
    its invariant \<open>bio_ok\<close> and its contract, the locale \<open>block_cache\<close> of \<open>Block_Store\<close>, interpreted on \<open>bread\<close>, \<open>bwrite\<close>, \<open>brelse\<close>
    as \<open>bc\<close>; everything above sees the cache as a map \<open>blocks\<close> from block numbers to contents. \<open>Cache_Runs\<close>: any sequence of calls, with
    buffers held meanwhile, is one of reads and writes of a disk.
  \<^item> \<open>Fs_Layout\<close> (include/fs.h, file.h, stat.h): the structures on disk and in memory. \<open>Balloc\<close>, \<open>File_Map\<close>, \<open>Inode\<close>, \<open>File_Data\<close>,
    \<open>Dir\<close> (fs/fs.c): block bitmap; the block map of a file and its specification \<open>bmap_abs\<close>; the inode cache; reading and writing, specified
    byte by byte (\<open>contents\<close>, \<open>blit\<close>); directories and paths, whose resolution \<open>Path\<close> specifies by \<open>walk\<close>, a function of the
    disk. \<open>File\<close> (fs/file.c): open files.
  \<^item> \<open>Clib\<close> (libc/string.c): strings in arrays, conversions, copies.
  \<^item> \<open>Kalloc\<close> (kernel/kalloc.c): the page allocator; its list runs through the free pages in \<open>ram\<close>, abstracted by \<open>free_pages\<close>.
    \<open>Vm\<close> (kernel/vm.c, include/mmu.h): page tables as words in \<open>ram\<close>, abstracted to the map \<open>pmap\<close> from addresses to entries.
    \<open>Uvm\<close>, \<open>Kernel_Map\<close>: whole address spaces (\<open>uspace\<close>: no page has two roles; \<open>pages\<close>: all pages they and the free list own), which
    \<open>allocuvm\<close>, \<open>deallocuvm\<close>, \<open>freevm\<close> and \<open>setupkvm\<close> neither lose nor duplicate. \<open>Page_Source\<close>, \<open>Space_Life\<close>: the reachable states of
    any client of the allocator, whose contract is the locale \<open>page_source\<close>, and of an address space from its set-up to its end.
  \<^item> \<open>Intr\<close> (cpu/idt.c, cpu/isr.c, cpu/timer.c, drivers/keyboard.c): the set-up of interrupts. \<open>Proc\<close> (kernel/proc.c): processes,
    the scheduler up to the switch of stacks. \<open>Syscall\<close> (kernel/syscall.c): arguments fetched from user memory. \<open>Exec\<close> (kernel/exec.c),
    \<open>Sh\<close> (kernel/sh.c), \<open>Calls\<close> (kernel/calls.c): the calls. \<open>Descriptors\<close>: descriptors and counts of open files (\<open>descs_ok\<close>). \<open>Trap\<close>: interrupts and calls dispatched, the keyboard, \<open>kernel_main\<close>.
  \<^item> \<open>exec\<close> in full: \<open>Loader\<close>, \<open>Elf_Image\<close>: loading from arbitrary bytes, whose meaning as a program is \<open>elf_image\<close>; \<open>Exec_Ok\<close>: the call up to
    the new stack; \<open>Exec_Stack\<close>: the old and the new address space side by side, arguments copied from one to the other; \<open>Exec_Commit\<close>: the
    guard page, the whole stack (\<open>stack_words\<close>, \<open>strings_at\<close>), the switch and the end of the old address space; \<open>Exec_Image\<close>: a program that \<open>mkfs\<close>
    has stored runs; \<open>Exec_Call\<close>: the system call, from the path and the strings in the memory of the process (\<open>exec_request\<close>) on.
  \<^item> \<open>User_IO\<close>: \<open>sys_read\<close> and \<open>sys_write\<close> across all layers, from the user's page tables to the blocks on disk.
  \<^item> \<open>Boot\<close> (boot/start.c): the C part of the boot loader. \<open>Mkfs\<close> (utils/mkfs.c): the program that makes the first disk;
    \<open>Mkfs_Ok\<close>, \<open>Mkfs_Image\<close>: what its image holds; \<open>Mkfs_Boot\<close>: the image is a tree in which the kernel finds and reads every file.
    \<open>User\<close> (user/printf.c), \<open>User_Init\<close> (user/init.c): formatted output in user programs, and the first of them over its system calls.
  \<^item> \<open>Sample\<close>, \<open>Sample_Kern\<close>, \<open>Sample_Exec\<close>: a small disk and a small kernel on which every theorem with hypotheses is applied.

  State. Each layer extends the record of the one below: \<open>machine\<close>, \<open>ide\<close>, \<open>fs\<close>, \<open>ftab\<close>, \<open>kmem\<close>, \<open>vm\<close>, \<open>intr\<close>, \<open>kern\<close>; an operation is defined
  on the scheme of its layer, so it can be used, and provably leaves alone, what lies above. Pointers to kernel structures are
  indices (buffers, inodes, open files, processes), null is \<open>None\<close>; addresses of pages, page tables and trap frames are 32-bit words into \<open>ram\<close>.
  Kernel structures lie outside \<open>ram\<close>: a stray store of the kernel into them is not modelled.

  Undefined behaviour and endless loops are \<open>None\<close>, so \<open>f s = Some s'\<close> says that the code is safe and returns. Loops are structural where the
  code counts, \<open>function\<close>s with a measure where they approach a bound, and \<open>partial_function\<close>s where they may not end: polling a device,
  walking links, \<open>freerange\<close> at the end of the address space, a scheduler with nothing to run. There is no fuel anywhere. What the code prints just
  before it halts or uses a null pointer is not kept, as such a branch is \<open>None\<close>. Integers have the width
  of the code, except reference counts and process numbers, which are unbounded (they count up one call at a time); offsets are natural numbers only where a guard has excluded wrap-around. The environment is what the devices answer
  (\<open>env_in\<close>); \<open>env_ok\<close> says the disk controller eventually gets ready and reports no error. What the linker decides (addresses of
  assembly code, the embedded first program) is the parameter \<open>link\<close>.

  The theorems below are the properties, each followed by a witness on a concrete system: files, system calls, directories and paths, the
  first disk, memory, processes and interrupts, equivalences, then the layers beneath them: blocks and inodes, driver and console; further
  facts at the end. The lemmas in the component theories come in groups: invariants (\<open>bio_ok\<close>, \<open>wf_disk\<close>, \<open>wf_file\<close>, \<open>file_ok\<close>, \<open>dir_ok\<close>,
  \<open>walking\<close>, \<open>free_pages\<close>, \<open>vm_ok\<close>, \<open>frames_ok\<close>, \<open>uspace\<close>, \<open>descs_ok\<close>) and their preservation; the effect of each operation on the abstraction
  of its layer; frame lemmas for everything else. Bounds: an image holds at most 198 files, the inodes \<open>mkfs\<close> reserves less the root; 1025
  free pages are enough for \<open>setupkvm\<close>, as a directory has 1024 entries; a page of user memory takes at most two more, itself and its table, so that
  1028 and two for each page of the image are enough for \<open>exec\<close> (\<open>enough_pages\<close>).

  Not modelled: assembly (boot sector, interrupt entry, \<open>swtch\<close>, the embedded start-up code, system call stubs), of which the C code sees the layout of
  the saved registers and some addresses, so that the calls of a user program are an argument (\<open>sys\<close>); real concurrency: the
  kernel runs with interrupts off except while it waits for the disk, where the disk interrupt is modelled, and in the scheduler.
\<close>

section \<open>Files\<close>

text \<open>C1. Writing \<open>n\<close> bytes at an offset inside an ordinary file with \<open>writei\<close> (enough free blocks, no
  wrap-around, within the largest file) returns \<open>n\<close>; afterwards the file reads as before with these bytes
  overwritten or appended, its size is the larger of the old size and the end of the write, the invariants
  of cache, disk and file hold again (in particular the inode on disk is the inode in memory), and no buffer is leaked.\<close>

theorem writei_correct:
  assumes "bio_ok s" "wf_disk (sb s) (blocks s)" "file_ok ip s" "bc.room 2 s"
    and "i_type (icache s ip) \<noteq> T_DEV" "off \<le> i_size (icache s ip)" "off \<le> off + n"
    and "unat off + unat n \<le> MAXFILE * BSIZE" "unat n \<le> length src"
    and "2 * touched (unat off) (unat n) \<le> nfree (sb s) (blocks s)"
  shows "\<exists>s'. writei ip src off n s = Some (int (unat n), s')
    \<and> contents ip s' = blit (unat off) (take (unat n) src) (contents ip s)
    \<and> i_size (icache s' ip) = max (i_size (icache s ip)) (off + n)
    \<and> bio_ok s' \<and> wf_disk (sb s') (blocks s') \<and> file_ok ip s' \<and> bc.room 2 s'"
  by (rule writei_contents[OF assms]) blast

lemma writei_correct_witness:
  "\<exists>s'. writei 1 [104, 105] 0 2 sample = Some (2, s') \<and> contents 1 s' = [104, 105]"
proof -
  have "contents 1 sample = []" by (simp add: contents_def sample_inode_fields)
  moreover have "2 * touched 0 2 \<le> nfree (sb sample) (blocks sample)"
    by (rule order_trans[OF _ sample_nfree]) (simp add: touched_def BSIZE_def)
  ultimately show ?thesis
    using writei_correct[OF sample_bio_ok sample_wf_disk sample_file_ok(2) sample_room, of 0 2 "[104, 105]"]
    by (auto simp: sample_inode_fields fs_consts blit_def)
qed

text \<open>C2. Reading back: after a successful \<open>writei\<close>, \<open>readi\<close> of the same range gives the bytes written.\<close>

theorem write_then_read:
  assumes "bio_ok s" "wf_disk (sb s) (blocks s)" "file_ok ip s" "bc.room 2 s"
    and "i_type (icache s ip) \<noteq> T_DEV" "off \<le> i_size (icache s ip)" "off \<le> off + n"
    and "unat off + unat n \<le> MAXFILE * BSIZE" "unat n \<le> length src"
    and "2 * touched (unat off) (unat n) \<le> nfree (sb s) (blocks s)" "length dst = unat n"
  shows "\<exists>s1 s2. writei ip src off n s = Some (int (unat n), s1)
    \<and> readi ip dst off n s1 = Some (int (unat n), take (unat n) src, s2)"
proof -
  have le: "unat off \<le> unat (i_size (icache s ip))" using assms(6) by (simp add: word_le_nat_alt)
  obtain s1 where w: "writei ip src off n s = Some (int (unat n), s1)" "bio_ok s1" "wf_disk (sb s1) (blocks s1)" "bc.room 2 s1"
    "file_ok ip s1" "contents ip s1 = blit (unat off) (take (unat n) src) (contents ip s)"
    "i_size (icache s1 ip) = max (i_size (icache s ip)) (off + n)" "i_type (icache s1 ip) = i_type (icache s ip)"
    by (rule writei_contents[OF assms(1-10)]) blast
  have "off \<le> i_size (icache s1 ip)" using assms(6) w(7) by (simp add: le_max_iff_disj)
  moreover have "take (unat n) (drop (unat off) (contents ip s1)) = take (unat n) src"
    using slice_blit_same[of "unat off" "take (unat n) src" "contents ip s"] w(6) le assms(9)
    by (simp add: blit_def)
  ultimately obtain s2 where "readi ip dst off n s1 = Some (int (length (take (unat n) src)), blit 0 (take (unat n) src) dst, s2)"
    using readi_ok[OF w(2,3,5,4), of off n dst] assms(5,7,11) w(8) by (metis order_refl)
  then show ?thesis using w(1) assms(9,11) by (simp add: blit_def)
qed

lemma write_then_read_witness:
  "\<exists>s1 s2. writei 1 [104, 105] 0 2 sample = Some (2, s1) \<and> readi 1 [0, 0] 0 2 s1 = Some (2, [104, 105], s2)"
proof -
  have "2 * touched 0 2 \<le> nfree (sb sample) (blocks sample)"
    by (rule order_trans[OF _ sample_nfree]) (simp add: touched_def BSIZE_def)
  then show ?thesis
    using write_then_read[OF sample_bio_ok sample_wf_disk sample_file_ok(2) sample_room, of 0 2 "[104, 105]" "[0, 0]"]
    by (auto simp: sample_inode_fields fs_consts)
qed

text \<open>C3. Isolation: \<open>writei\<close> on one file changes neither the contents nor the well-formedness of a file with
  other blocks and another inode number, nor its entry of the inode cache.\<close>

theorem writei_isolated:
  assumes "bio_ok s" "wf_disk (sb s) (blocks s)" "file_ok ip s" "bc.room 2 s"
    and "i_type (icache s ip) \<noteq> T_DEV" "off \<le> i_size (icache s ip)" "off \<le> off + n"
    and "unat off + unat n \<le> MAXFILE * BSIZE" "unat n \<le> length src"
    and "2 * touched (unat off) (unat n) \<le> nfree (sb s) (blocks s)"
    and "q \<noteq> ip" "file_ok q s" "disjoint_files ip q s" "i_inum (icache s q) \<noteq> i_inum (icache s ip)"
  shows "\<exists>r s'. writei ip src off n s = Some (r, s') \<and> contents q s' = contents q s \<and> file_ok q s'
    \<and> icache s' q = icache s q"
  by (rule writei_contents[OF assms(1-10)]) (use assms(11-14) in blast)

lemma writei_isolated_witness:
  "\<exists>r s'. writei 1 [104, 105] 0 2 sample = Some (r, s') \<and> contents 0 s' = contents 0 sample \<and> file_ok 0 s'
    \<and> icache s' 0 = icache sample 0"
proof -
  have "2 * touched 0 2 \<le> nfree (sb sample) (blocks sample)"
    by (rule order_trans[OF _ sample_nfree]) (simp add: touched_def BSIZE_def)
  moreover have "disjoint_files 1 0 sample"
    by (auto simp: disjoint_files_def file_blocks_def sample_inode_fields no_blocks_addr) (simp add: fs_consts)
  ultimately show ?thesis
    using writei_isolated[OF sample_bio_ok sample_wf_disk sample_file_ok(2) sample_room, of 0 2 "[104, 105]" 0]
      sample_file_ok(1)
    by (auto simp: sample_inode_fields fs_consts)
qed

text \<open>C4. Reading an ordinary file at an offset inside it gives the bytes of the file from there, as many as
  asked for or as there are, and changes neither disk nor inode cache.\<close>

theorem readi_correct:
  assumes "bio_ok s" "wf_disk (sb s) (blocks s)" "file_ok ip s" "bc.room 2 s"
    and "i_type (icache s ip) \<noteq> T_DEV" "off \<le> i_size (icache s ip)" "off \<le> off + n" "unat n \<le> length dst"
  shows "\<exists>s'. let d = take (unat n) (drop (unat off) (contents ip s))
     in readi ip dst off n s = Some (int (length d), blit 0 d dst, s') \<and> bio_ok s' \<and> blocks s' = blocks s \<and> icache s' = icache s"
  unfolding Let_def by (rule readi_ok[OF assms]) (blast dest: advancesD)

lemma readi_correct_witness:
  "\<exists>s'. readi 1 [7] 0 1 sample = Some (0, [7], s') \<and> bio_ok s'"
  using readi_correct[OF sample_bio_ok sample_wf_disk sample_file_ok(2) sample_room, of 0 1 "[7]"]
  by (auto simp: sample_inode_fields fs_consts contents_def blit_def)

text \<open>C5. Out-of-range requests are refused without any change: reading or writing behind the end, wrapping around
  the 32-bit offset, or growing a file beyond \<open>MAXFILE\<close> blocks gives -1.\<close>

theorem file_range_errors:
  assumes "i_type (icache s ip) \<noteq> T_DEV"
  shows "(i_size (icache s ip) < off \<or> off + n < off \<longrightarrow> readi ip dst off n s = Some (- 1, dst, s))
    \<and> (i_size (icache s ip) < off \<or> off + n < off \<or> of_nat (MAXFILE * BSIZE) < off + n \<longrightarrow>
      writei ip src off n s = Some (- 1, s))"
  using assms by (auto simp: readi_def writei_def Let_def)

lemma file_range_errors_witness:
  "readi 1 [] 1 1 sample = Some (- 1, [], sample) \<and> writei 1 [] 0 80000 sample = Some (- 1, sample)"
  using file_range_errors[of sample 1 1 1 "[]" "[]"] file_range_errors[of sample 1 0 80000 "[]" "[]"]
  by (simp_all add: sample_inode_fields fs_consts)

section \<open>System calls\<close>

text \<open>C6. Reading into a process: when the checks of \<open>sys_read\<close> accept its arguments and the pages of the buffer are the process's own
  and writable, the call returns the number of bytes there are from the file offset on, at most as many as asked for; exactly
  these bytes of the file stand in the user's buffer afterwards, no other byte of user memory has changed, nor have the page tables,
  the disk or the inode cache, and the offset has advanced.\<close>

theorem sys_read_correct:
  assumes "rw_args s = Some (Some (f, a, n))" "cur s = Some p" "p_sz p \<le> KERNBASE"
    and "vm_ok d s ps" "frames_ok d s ps" "cr3 s = V2P d"
    and "\<And>v. unat a \<le> unat v \<Longrightarrow> unat v < unat a + unat n \<Longrightarrow> uwritable d (ram s) v"
    and "opened f ip s" "f_readable (ftable s f)"
    and "bio_ok s" "wf_disk (sb s) (blocks s)" "file_ok ip s" "bc.room 2 s" "i_type (icache s ip) \<noteq> T_DEV"
    and "f_off (ftable s f) \<le> i_size (icache s ip)" "data = take (unat n) (drop (unat (f_off (ftable s f))) (contents ip s))"
  shows "\<exists>s'. sys_read s = Some (int (length data), s')
    \<and> (\<forall>v. umapped d (ram s) v \<longrightarrow> user_byte d (ram s') v =
         (if unat a \<le> unat v \<and> unat v < unat a + length data then data ! (unat v - unat a) else user_byte d (ram s) v))
    \<and> pmap d (ram s') = pmap d (ram s) \<and> vm_ok d s' ps \<and> frames_ok d s' ps \<and> bio_ok s' \<and> blocks s' = blocks s \<and> icache s' = icache s
    \<and> ftable s' = (ftable s)(f := (ftable s f)\<lparr>f_off := f_off (ftable s f) + of_nat (length data)\<rparr>)"
  unfolding assms(16) by (rule sys_read_ok[OF assms(1-15)])

lemma sample_kern_cur: "cur sample_kern = Some sample_proc" "p_sz sample_proc \<le> KERNBASE"
  by (simp_all add: cur_def getcurproc_def) (simp add: sample_proc_def KERNBASE_def)

lemma sample_kern_file:
  "opened 0 1 sample_kern" "bio_ok sample_kern" "wf_disk (sb sample_kern) (blocks sample_kern)" "file_ok 1 sample_kern"
  "bc.room 2 sample_kern" "i_type (icache sample_kern 1) \<noteq> T_DEV" "contents 1 sample_kern = [104, 105]"
proof -
  show "opened 0 1 sample_kern" by (simp add: opened_def hi_inode_fields)
  show "bio_ok sample_kern" "bc.room 2 sample_kern" by (simp_all add: sample_kern_bio hi_bio_ok)
  show "wf_disk (sb sample_kern) (blocks sample_kern)" using hi_wf_disk by simp
  show "file_ok 1 sample_kern" using hi_file_ok by (simp add: file_ok_def)
  show "i_type (icache sample_kern 1) \<noteq> T_DEV" by (simp add: hi_inode_fields) (simp add: fs_consts)
  show "contents 1 sample_kern = [104, 105]" using hi_contents by (simp add: contents_def)
qed

lemma sys_read_correct_witness:
  "\<exists>s'. sys_read sample_kern = Some (2, s') \<and> user_byte sample_dir (ram s') 0x200 = 104 \<and> user_byte sample_dir (ram s') 0x201 = 105"
proof -
  have "uwritable sample_dir (ram sample_kern) v" if "unat (0x200 :: u32) \<le> unat v" "unat v < unat (0x200 :: u32) + unat (2 :: u32)" for v
    using that by (simp add: sample_uwritable)
  note pages = this
  have rd: "f_readable (ftable sample_kern 0)" "f_off (ftable sample_kern 0) \<le> i_size (icache sample_kern 1)" by simp_all
  have cr: "cr3 sample_kern = V2P sample_dir" by simp
  have dt: "[104, 105] = take (unat (2 :: u32)) (drop (unat (f_off (ftable sample_kern 0))) (contents 1 sample_kern))"
    unfolding sample_kern_file(7) by simp
  obtain s' where s': "sys_read sample_kern = Some (int (length [104 :: u8, 105]), s')"
    "\<forall>v. umapped sample_dir (ram sample_kern) v \<longrightarrow> user_byte sample_dir (ram s') v =
       (if unat (0x200 :: u32) \<le> unat v \<and> unat v < unat (0x200 :: u32) + length [104 :: u8, 105]
        then [104, 105] ! (unat v - unat (0x200 :: u32)) else user_byte sample_dir (ram sample_kern) v)"
    using sys_read_correct[OF sample_args sample_kern_cur sample_vm_ok sample_frames_ok cr pages sample_kern_file(1) rd(1)
        sample_kern_file(2-6) rd(2) dt] by blast
  have "user_byte sample_dir (ram s') 0x200 = 104" "user_byte sample_dir (ram s') 0x201 = 105"
    using s'(2)[rule_format, of "0x200"] s'(2)[rule_format, of "0x201"] by (simp_all add: sample_umapped)
  then show ?thesis using s'(1) by auto
qed

text \<open>C7. Writing from a process: under the same checks, with the buffer mapped and enough free blocks, \<open>sys_write\<close> returns the size asked
  for, and the file holds the bytes of the user's buffer at its old offset; the offset has advanced, the invariants of the file
  system hold again and everything else of the open files and the inode cache is as before.\<close>

theorem sys_write_correct:
  assumes "rw_args s = Some (Some (f, a, n))" "cur s = Some p" "p_sz p \<le> KERNBASE" "vm_ok d s ps" "cr3 s = V2P d"
    and "\<And>v. unat a \<le> unat v \<Longrightarrow> unat v < unat a + unat n \<Longrightarrow> present (pmap d (ram s) v)"
    and "opened f ip s" "f_writable (ftable s f)"
    and "bio_ok s" "wf_disk (sb s) (blocks s)" "file_ok ip s" "bc.room 2 s" "i_type (icache s ip) \<noteq> T_DEV"
    and "f_off (ftable s f) \<le> i_size (icache s ip)" "unat (f_off (ftable s f)) + unat n \<le> MAXFILE * BSIZE"
    and "8 * ((unat n + 1535) div 1536) \<le> nfree (sb s) (blocks s)"
  shows "\<exists>s'. sys_write s = Some (int (unat n), s')
    \<and> contents ip s' = blit (unat (f_off (ftable s f))) (user_bytes d (ram s) a (unat n)) (contents ip s)
    \<and> ftable s' = (ftable s)(f := (ftable s f)\<lparr>f_off := f_off (ftable s f) + n\<rparr>)
    \<and> bio_ok s' \<and> wf_disk (sb s') (blocks s') \<and> file_ok ip s' \<and> bc.room 2 s' \<and> (\<forall>q. q \<noteq> ip \<longrightarrow> icache s' q = icache s q)"
proof -
  obtain s' where s': "sys_write s = Some (int (unat n), s')" "wrote f ip (user_bytes d (ram s) a (unat n)) s s'"
    using sys_write_ok[OF assms] by blast
  have "length (user_bytes d (ram s) a (unat n)) = unat n" by (simp add: user_bytes_def)
  then show ?thesis using s'(1) wroteD[OF s'(2)] by (intro exI[of _ s']) simp
qed

lemma sys_write_correct_witness: "\<exists>s'. sys_write sample_kern = Some (2, s') \<and> contents 1 s' = [16, 2]"
proof -
  have p: "present (pmap sample_dir (ram sample_kern) v)" if "unat (0x200 :: u32) \<le> unat v" "unat v < unat (0x200 :: u32) + unat (2 :: u32)" for v
    using that by (simp add: sample_pmap sample_flags)
  have "8 * ((unat (2 :: u32) + 1535) div 1536) \<le> nfree (sb sample_kern) (blocks sample_kern)" using hi_nfree by simp
  note r = sys_write_correct[OF sample_args sample_kern_cur sample_vm_ok _ p sample_kern_file(1) _ sample_kern_file(2-6) _ _ this]
  have "user_bytes sample_dir sample_ram 0x200 2 = [16, 2]"
    by (simp add: user_bytes_def upt_rec user_byte_def sample_pmap sample_flags sample_bytes)
  moreover have "\<exists>s'. sys_write sample_kern = Some (int (unat (2 :: u32)), s')
    \<and> contents 1 s' = blit (unat (f_off (ftable sample_kern 0))) (user_bytes sample_dir (ram sample_kern) 0x200 (unat (2 :: u32))) (contents 1 sample_kern)"
    using r by (simp add: hi_inode_fields fs_consts) blast
  ultimately show ?thesis unfolding sample_kern_file(7) by (simp add: blit_def)
qed

text \<open>C8. \<open>exec\<close>, the whole call: whatever bytes the file has that the path leads to, and when the arguments are strings of the calling process
  that fit, one of two things happens. Either the call fails with -1, having given back every page and the reference to the file, with all memory
  outside the free pages, the process table, the open files and the disk as before; this happens if the file is no program, its image does
  not leave room for a stack, or there are not enough free pages for it. Or the process runs the new program: its page directory maps the image that
  \<open>elf_image\<close> computes from the file, a guard page and the stack with the arguments; the trap frame holds the entry point and
  the stack pointer; the old address space and all that was not needed is on the free list; and the file system is as before.\<close>

theorem exec_correct:
  assumes "getcurproc s = Some p" "walking s I" "0 \<notin> set pp"
    and "if pp \<noteq> [] \<and> hd pp = 47 then i = ROOTINO \<and> i \<in> I
      else \<exists>cwd. p_cwd (ptable s p) = Some cwd \<and> cwd < NINODE \<and> 0 < i_ref (icache s cwd) \<and> i_dev (icache s cwd) = 1
        \<and> i_inum (icache s cwd) = i \<and> i \<in> I"
    and "walk (sb s) (blocks s) False i (path_elems pp) = Some j" "d_type (disk_inode (sb s) (blocks s) j) \<noteq> T_DEV"
    and "KERNBASE \<notin> set ps" "page_al (l_data L)" "KERNLINK < l_data L" "l_data L < P2V PHYSTOP"
    and "running p k s ps" "args_ok as bss s"
  shows "case elf_image (disk_bytes (sb s) (blocks s) j) of None \<Rightarrow> exec_fails I ps s (exec L (pp @ 0 # r) (as @ 0 # r') s)
    | Some im \<Rightarrow> exec_fails I ps s (exec L (pp @ 0 # r) (as @ 0 # r') s)
          \<and> (KERNBASE \<le> stack_top (fst (snd im)) \<or> length ps \<le> 1028 + 2 * pg_up (fst (snd im)))
        \<or> exec_runs I ps L p k pp bss im s (exec L (pp @ 0 # r) (as @ 0 # r') s)"
  by (rule exec_whole[OF assms])

lemma exec_correct_witness:
  "\<exists>t ps'. exec \<lparr>l_data = 0x80110000, l_end = 0, l_gdt = 0, l_idt = 0, l_ts = 0, l_stub = \<lambda>_. 0, l_trapret = 0, l_forkret = 0, l_ptable = 0,
      l_stack_p = 0, l_init = []\<rparr> [47, 0] [0x210, 0] sample_kern = Some (- 1, t)
    \<and> free_pages t ps' \<and> set ps' = {0x80005000, 0x80006000} \<and> blocks t = hi_disk"
proof -
  let ?L = "\<lparr>l_data = 0x80110000, l_end = 0, l_gdt = 0, l_idt = 0, l_ts = 0, l_stub = \<lambda>_. 0, l_trapret = 0, l_forkret = 0, l_ptable = 0,
      l_stack_p = 0, l_init = []\<rparr>"
  have a: "getcurproc sample_kern = Some 0" "0 \<notin> set [47 :: u8]"
    "if [47] \<noteq> [] \<and> hd [47 :: u8] = 47 then 1 = ROOTINO \<and> 1 \<in> {1}
      else \<exists>cwd. p_cwd (ptable sample_kern 0) = Some cwd \<and> cwd < NINODE \<and> 0 < i_ref (icache sample_kern cwd) \<and> i_dev (icache sample_kern cwd) = 1
        \<and> i_inum (icache sample_kern cwd) = 1 \<and> 1 \<in> {1}"
    by (simp_all add: getcurproc_def ROOTINO_def)
  have w: "walk (sb sample_kern) (blocks sample_kern) False 1 (path_elems [47]) = Some 1"
    "d_type (disk_inode (sb sample_kern) (blocks sample_kern) 1) \<noteq> T_DEV"
    using sample_kern_walk by (simp_all add: T_DIR_def T_DEV_def)
  have l: "KERNBASE \<notin> set [0x80005000, 0x80006000]" "page_al (l_data ?L)" "KERNLINK < l_data ?L" "l_data ?L < P2V PHYSTOP"
    by (simp_all add: KERNBASE_def KERNLINK_def P2V_def PHYSTOP_def page_al_def)
  have "elf_image (disk_bytes (sb sample_kern) (blocks sample_kern) 1) = None"
    using sample_kern_root by (simp add: elf_image_def ELF_SIZE_def)
  then have "exec_fails {1} [0x80005000, 0x80006000] sample_kern (exec ?L ([47] @ 0 # []) ([0x210] @ 0 # []) sample_kern)"
    using exec_correct[OF a(1) sample_kern_walking a(2,3) w l sample_running sample_args_ok, of "[]" "[]"] by simp
  then show ?thesis by (auto simp: exec_fails_def intact_def)
qed

text \<open>C9. From the tool to the running program: when a process calls \<open>exec\<close> with, in its own memory, a slash and the name of a stored file
  and an array of arguments, on a disk made by \<open>mkfs\<close>, and the file is a program with room for its stack, then the system call succeeds whenever there are enough
  free pages: the process then runs exactly the image of the bytes that were given to \<open>mkfs\<close>, with its arguments on the stack.\<close>

theorem exec_image_correct:
  assumes "getcurproc s = Some p" "walking s (image_inodes files)" "image_of files (blocks s)" "sb s = mkfs_sb"
    and "length files \<le> 198" "length files mod 32 \<noteq> 30" "names_ok files" "i < length files"
    and "elf_image (snd (files ! i)) = Some (e, z, g)" "stack_top z < KERNBASE" "enough_pages z ps"
    and "KERNBASE \<notin> set ps" "page_al (l_data L)" "KERNLINK < l_data L" "l_data L < P2V PHYSTOP"
    and "running p k s ps" "args_ok as bss s" "exec_request (path_of (files ! i)) as s"
  shows "exec_runs (image_inodes files) ps L p k (path_of (files ! i)) bss (e, z, g) s (sys_exec L s)"
  by (rule sys_exec_from_image[OF assms])

lemma exec_image_correct_witness:
  "\<exists>(s :: kern) d t. sys_exec \<lparr>l_data = 0x80110000, l_end = 0, l_gdt = 0, l_idt = 0, l_ts = 0, l_stub = \<lambda>_. 0, l_trapret = 0, l_forkret = 0,
      l_ptable = 0, l_stack_p = 0, l_init = []\<rparr> s = Some (0, t)
    \<and> cr3 t = V2P d \<and> rd_mem (0x80004FB4 + TF_EIP) t = 0 \<and> user_byte d (ram t) 0 = 0xEB \<and> user_byte d (ram t) 1 = 0xFE
    \<and> user_bytes d (ram t) 12284 3 = [97, 98, 0]"
proof -
  let ?L = "\<lparr>l_data = 0x80110000, l_end = 0, l_gdt = 0, l_idt = 0, l_ts = 0, l_stub = \<lambda>_. 0, l_trapret = 0, l_forkret = 0,
      l_ptable = 0, l_stack_p = 0, l_init = []\<rparr>"
  obtain s :: kern and ps where s: "getcurproc s = Some 0" "walking s (image_inodes demo_files)" "image_of demo_files (blocks s)" "sb s = mkfs_sb"
    "running 0 0x80004000 s ps" "args_ok [0x210] [[97, 98]] s" "length ps = 1042" "KERNBASE \<notin> set ps" "p_tf (ptable s 0) = 0x80004FB4"
    "exec_request [47, 105, 110, 105, 116] [0x210] s"
    by (rule demo_kernel)
  have path: "path_of (demo_files ! 0) = [47, 105, 110, 105, 116]" by (simp add: path_of_def mkfs_name_def demo_files_def)
  obtain g where g: "elf_image (snd (demo_files ! 0)) = Some (0, 2, g)" "g 0 = 0xEB" "g 1 = 0xFE"
    using demo_image by (auto simp: demo_files_def)
  have up: "PGROUNDUP 2 = 4096" "stack_top 2 = 12288" "pg_up 2 = 1"
    by (simp_all add: stack_top_def PGROUNDUP_def PGSIZE_def pg_up_def)
  have l: "page_al (l_data ?L)" "KERNLINK < l_data ?L" "l_data ?L < P2V PHYSTOP"
    by (simp_all add: KERNBASE_def KERNLINK_def P2V_def PHYSTOP_def page_al_def)
  have n: "length demo_files \<le> 198" "length demo_files mod 32 \<noteq> 30" "0 < length demo_files" "stack_top 2 < KERNBASE" "enough_pages 2 ps"
    by (simp_all add: demo_files_def up KERNBASE_def enough_pages_def s(7))
  have "exec_runs (image_inodes demo_files) ps ?L 0 0x80004000 (path_of (demo_files ! 0)) [[97, 98]] (0, 2, g) s (sys_exec ?L s)"
    by (rule exec_image_correct[OF s(1-4) n(1,2) demo_fits(2) n(3) g(1) n(4,5) s(8) l s(5,6)]) (simp add: path s(10))
  then obtain d t where t: "sys_exec ?L s = Some (0, t)" "cr3 t = V2P d"
    "rd_mem (p_tf (ptable s 0) + TF_EIP) t = 0" "program_memory ?L d (ram t) 2 g [[97, 98]]" by (rule exec_runsD)
  have "present (pmap d (ram t) v)" "user_byte d (ram t) v = g v" if "unat v < 4096" for v
  proof -
    have "v < KERNBASE" "PGROUNDDOWN v < 4096 + 2 * PGSIZE"
      using that by (simp_all add: word_less_nat_alt KERNBASE_def unat_PGROUNDDOWN PGSIZE_def)
    then show "present (pmap d (ram t) v)" "user_byte d (ram t) v = g v"
      using t(4) that by (auto simp: program_memory_def guarded_def up)
  qed
  moreover have "user_bytes d (ram t) 12284 3 = [97, 98, 0]"
    using t(4) by (simp add: program_memory_def strings_at_def up Let_def numeral_3_eq_3)
  ultimately show ?thesis using t(1-3) g(2,3) s(9) by (intro exI[of _ s] exI[of _ d] exI[of _ t]) simp
qed

text \<open>C10. Opening: if every descriptor in use names an open file of the right kind and every count is the number of its descriptors, then giving
  a referenced inode a descriptor keeps it so, unless the reference is the last one of a file without links, which giving it back would delete. The result is a free descriptor, now naming a fresh entry of the table of open files for
  this inode with the access asked for; or -1, with both tables unchanged and the reference given back.\<close>

theorem open_file_correct:
  assumes "descs_ok s" "getcurproc s = Some p" "p < NPROC" "ip < NINODE" "1 \<le> i_ref (icache s ip)"
    and "\<not> (i_valid (icache s ip) \<and> i_nlink (icache s ip) = 0 \<and> i_ref (icache s ip) = 1)"
  shows "\<exists>fd s'. open_file_of ip omode s = Some (fd, s') \<and> descs_ok s'
    \<and> (fd = - 1 \<and> ptable s' = ptable s \<and> ftable s' = ftable s \<and> i_ref (icache s' ip) = i_ref (icache s ip) - 1
      \<or> (\<exists>k f. fd = int k \<and> k < NOFILE \<and> f < NFILE \<and> p_ofile (ptable s p) ! k = None \<and> p_ofile (ptable s' p) ! k = Some f
          \<and> f_ref (ftable s f) = 0 \<and> icache s' = icache s
          \<and> ftable s' f = \<lparr>f_type = FD_INODE, f_ref = 1, f_readable = (omode AND O_WRONLY = 0),
              f_writable = (omode AND O_WRONLY \<noteq> 0 \<or> omode AND O_RDWR \<noteq> 0), f_ip = Some ip, f_off = 0\<rparr>))"
  by (rule open_file_of_ok[OF assms])

lemma open_file_correct_witness: "\<exists>fd s'. open_file_of 0 0 sample_kern = Some (fd, s') \<and> descs_ok s'"
proof -
  have "getcurproc sample_kern = Some 0" "(0 :: nat) < NPROC" "(0 :: nat) < NINODE" by (simp_all add: getcurproc_def NPROC_def fs_consts)
  moreover have "icache sample_kern 0 = sample_inode 1 T_DIR" by (simp add: hi_fs_def upd_inode_def)
  ultimately show ?thesis using open_file_correct[OF sample_descs, of 0 0] by (fastforce simp: sample_inode_fields)
qed

text \<open>C11. Closing: under the same invariant, \<open>sys_close\<close> of a descriptor in use returns 0, frees exactly this descriptor, leaves every other
  descriptor and open file as it is, and keeps the invariant, whether or not it was the last one of its file.\<close>

theorem sys_close_correct:
  assumes "descs_ok s" "getcurproc s = Some p" "p < NPROC" "argfd 0 s = Some (Some (fd, f))"
    and "\<forall>ip. f_ip (ftable s f) = Some ip \<longrightarrow> 1 \<le> i_ref (icache s ip) \<and> i_nlink (icache s ip) \<noteq> 0"
  shows "\<exists>s'. sys_close s = Some (0, s') \<and> descs_ok s' \<and> p_ofile (ptable s' p) ! fd = None
    \<and> (\<forall>q<NPROC. \<forall>k<NOFILE. (q, k) \<noteq> (p, fd) \<longrightarrow> p_ofile (ptable s' q) ! k = p_ofile (ptable s q) ! k)
    \<and> (\<forall>g. g \<noteq> f \<longrightarrow> ftable s' g = ftable s g)"
  by (rule sys_close_ok[OF assms(1-4) argfd_ok[OF assms(4,2)]]) (use assms(5) in auto)

lemma sys_close_correct_witness: "\<exists>s'. sys_close sample_kern = Some (0, s') \<and> descs_ok s' \<and> p_ofile (ptable s' 0) ! 0 = None"
proof -
  have c: "getcurproc sample_kern = Some 0" "(0 :: nat) < NPROC" by (simp_all add: getcurproc_def NPROC_def)
  have "\<forall>ip. f_ip (ftable sample_kern 0) = Some ip \<longrightarrow> 1 \<le> i_ref (icache sample_kern ip) \<and> i_nlink (icache sample_kern ip) \<noteq> 0"
    by (simp add: hi_inode_fields) (simp add: load_dinode_def hi_inode_def)
  from sys_close_correct[OF sample_descs c sample_argfd this] show ?thesis by blast
qed

text \<open>C12. A buffer or string argument accepted by \<open>argptr\<close> lies inside the process: its size is not negative as a signed number and it ends,
  without wrapping around, at most at the size of the process, which is below the kernel.\<close>

theorem argptr_in_process:
  assumes "argptr n sz s = Some (0, Some a)" "cur s = Some p" "p_sz p \<le> KERNBASE"
  shows "0 \<le> sint sz \<and> unat a + unat sz \<le> unat (p_sz p)"
  by (rule argptr_bounds[OF assms])

lemma argptr_in_process_witness: "argptr 1 2 sample_kern = Some (0, Some 0x200) \<and> unat (0x200 :: u32) + unat (2 :: u32) \<le> 4096"
proof -
  have "argint 1 sample_kern = Some (0, Some 0x200)"
    by (simp add: argint_def cur_def getcurproc_def sample_getint sample_ld32 rd_mem_def sample_proc_def TF_ESP_def)
  then have a: "argptr 1 2 sample_kern = Some (0, Some 0x200)"
    by (simp add: argptr_def cur_def getcurproc_def sample_proc_def)
  show ?thesis using a argptr_in_process[OF a sample_kern_cur] by (simp add: sample_proc_def)
qed

text \<open>C13. The string check terminates and is exact: inside a process whose pages can be read, \<open>getstr\<close> returns the distance to the first zero
  byte at or behind the address, or -1 exactly when there is none below the size of the process.\<close>

theorem getstr_correct:
  assumes "cur s = Some p" "addr < p_sz p" "p_sz p < KERNBASE" "\<And>v. addr \<le> v \<Longrightarrow> v < p_sz p \<Longrightarrow> uload v s \<noteq> None"
  shows "\<exists>r. getstr addr s = Some (r, Some addr) \<and>
    (if r < 0 then r = - 1 \<and> (\<forall>v. addr \<le> v \<longrightarrow> v < p_sz p \<longrightarrow> uload v s \<noteq> Some 0)
     else unat addr + nat r < unat (p_sz p) \<and> uload (addr + of_int r) s = Some 0
       \<and> (\<forall>v. addr \<le> v \<longrightarrow> v < addr + of_int r \<longrightarrow> uload v s \<noteq> Some 0))"
proof -
  have ep: "unat (p_sz p) < 2 ^ 31" using assms(3) by (simp add: word_less_nat_alt KERNBASE_def)
  have le: "addr \<le> p_sz p" using assms(2) by simp
  obtain r where r: "getstr_loop addr addr (p_sz p) s = Some r"
    "if r < 0 then r = - 1 \<and> (\<forall>v. addr \<le> v \<longrightarrow> v < p_sz p \<longrightarrow> uload v s \<noteq> Some 0)
     else unat addr \<le> unat addr + nat r \<and> unat addr + nat r < unat (p_sz p) \<and> uload (addr + of_int r) s = Some 0
       \<and> (\<forall>v. addr \<le> v \<longrightarrow> v < addr + of_int r \<longrightarrow> uload v s \<noteq> Some 0)"
    using getstr_loop_ok[OF order_refl le ep assms(4)] by blast
  have "getstr addr s = Some (r, Some addr)" using assms(1,2) r(1) by (simp add: getstr_def not_le)
  then show ?thesis using r(2) by (intro exI[of _ r]) (simp split: if_splits)
qed

lemma getstr_correct_witness: "\<exists>r. getstr 0x210 sample_kern = Some (r, Some 0x210) \<and> r = 2"
proof -
  have l: "uload v sample_kern = Some (sample_ram (0x80003000 + unat v))" if "unat v < 4096" for v by (rule sample_uload[OF that])
  have "\<exists>r. getstr 0x210 sample_kern = Some (r, Some 0x210) \<and>
    (if r < 0 then r = - 1 \<and> (\<forall>v. 0x210 \<le> v \<longrightarrow> v < 4096 \<longrightarrow> uload v sample_kern \<noteq> Some 0)
     else unat (0x210 :: u32) + nat r < unat (4096 :: u32) \<and> uload (0x210 + of_int r) sample_kern = Some 0
       \<and> (\<forall>v. 0x210 \<le> v \<longrightarrow> v < 0x210 + of_int r \<longrightarrow> uload v sample_kern \<noteq> Some 0))"
  proof -
    have sz: "p_sz sample_proc = 4096" by (simp add: sample_proc_def)
    show ?thesis
      using getstr_correct[OF sample_kern_cur(1), of "0x210", unfolded sz] by (simp add: KERNBASE_def l word_less_nat_alt del: unat_numeral)
  qed
  then obtain r where r: "getstr 0x210 sample_kern = Some (r, Some 0x210)"
    "if r < 0 then r = - 1 \<and> (\<forall>v. 0x210 \<le> v \<longrightarrow> v < 4096 \<longrightarrow> uload v sample_kern \<noteq> Some 0)
     else unat (0x210 :: u32) + nat r < unat (4096 :: u32) \<and> uload (0x210 + of_int r) sample_kern = Some 0
       \<and> (\<forall>v. 0x210 \<le> v \<longrightarrow> v < 0x210 + of_int r \<longrightarrow> uload v sample_kern \<noteq> Some 0)" by blast
  have z: "uload 0x210 sample_kern = Some 97" "uload 0x211 sample_kern = Some 98" "uload 0x212 sample_kern = Some 0"
    by (simp_all add: l sample_bytes)
  have nn: "\<not> r < 0" using r(2) z(3) by (auto split: if_splits)
  obtain k where k: "r = int k" using nn by (metis nonneg_int_cases not_le)
  have kb: "528 + k < 4096" "uload (0x210 + of_nat k) sample_kern = Some 0"
    "\<And>v. 0x210 \<le> v \<Longrightarrow> v < 0x210 + of_nat k \<Longrightarrow> uload v sample_kern \<noteq> Some 0"
    using r(2) by (simp_all add: k)
  have u: "unat (0x210 + of_nat k :: u32) = 528 + k" using kb(1) by (simp add: unat_word_ariths unat_of_nat)
  have "k \<noteq> 0" by (rule notI) (use kb(2) z(1) in simp)
  moreover have "k \<noteq> 1" by (rule notI) (use kb(2) z(2) in simp)
  moreover have "\<not> 2 < k" using kb(3)[of "0x212"] z(3) by (auto simp: word_less_nat_alt u)
  ultimately have "r = 2" using k by simp
  then show ?thesis using r(1) by blast
qed

section \<open>Directories and paths\<close>

text \<open>C14. Path resolution: in a tree of well-formed directories, \<open>namei\<close> of an absolute path, or of a path relative to the
  current directory, finds the inode that following the path's elements through the directories on disk leads to, and nothing
  when there is none. The disk does not change, and of the reference counts in the inode cache only that of the result changes, by one
  more: every directory passed on the way has been released.\<close>

theorem namei_correct:
  assumes "walking s I" "0 \<notin> set p" "i \<in> I"
    and "if p \<noteq> [] \<and> hd p = 47 then i = ROOTINO
      else cwd < NINODE \<and> 0 < i_ref (icache s cwd) \<and> i_dev (icache s cwd) = 1 \<and> i_inum (icache s cwd) = i"
  shows "\<exists>res s'. namei cwd (p @ 0 # r) s = Some (res, s') \<and> bio_ok s' \<and> icache_ok (icache s') \<and> blocks s' = blocks s
    \<and> (case walk (sb s) (blocks s) False i (path_elems p) of
        None \<Rightarrow> res = None \<and> (\<forall>q<NINODE. i_ref (icache s' q) = i_ref (icache s q))
      | Some j \<Rightarrow> \<exists>q<NINODE. res = Some q \<and> i_dev (icache s' q) = 1 \<and> i_inum (icache s' q) = j
          \<and> (\<forall>q'<NINODE. i_ref (icache s' q') = i_ref (icache s q') + (if q' = q then 1 else 0)))"
proof -
  have st: "if p \<noteq> [] \<and> hd p = 47 then i = ROOTINO \<and> i \<in> I
      else cwd < NINODE \<and> 0 < i_ref (icache s cwd) \<and> i_dev (icache s cwd) = 1 \<and> i_inum (icache s cwd) = i \<and> i \<in> I"
    using assms(3,4) by (auto split: if_splits)
  obtain res name' s' where n: "namex cwd (p @ 0 # r) False (replicate DIRSIZ 0) s = Some (res, name', s')"
    "walked s (walk (sb s) (blocks s) False i (path_elems p)) res s'"
    using namex_ok[OF assms(1,2) _ st, where name = "replicate DIRSIZ 0" and par = False and r = r] by auto
  show ?thesis using n(1) walkedD(1-3,5)[OF n(2)] by (simp add: namei_def)
qed

lemma namei_correct_witness:
  "(\<exists>q s'. namei 0 [47, 0] sample = Some (Some q, s') \<and> i_inum (icache s' q) = 1) \<and> (\<exists>s'. namei 0 [120, 0] sample = Some (None, s'))"
proof -
  have r: "if [47] \<noteq> [] \<and> hd [47 :: u8] = 47 then 1 = ROOTINO
    else 0 < NINODE \<and> 0 < i_ref (icache sample 0) \<and> i_dev (icache sample 0) = 1 \<and> i_inum (icache sample 0) = 1"
    by (simp add: ROOTINO_def)
  have c: "if [120] \<noteq> [] \<and> hd [120 :: u8] = 47 then 1 = ROOTINO
    else 0 < NINODE \<and> 0 < i_ref (icache sample 0) \<and> i_dev (icache sample 0) = 1 \<and> i_inum (icache sample 0) = 1"
    by (simp add: sample_inode_fields fs_consts)
  have e: "path_elems [47] = []" "path_elems [120] = [[120]]" by simp_all
  have "\<exists>q s'. namei 0 ([47] @ 0 # []) sample = Some (Some q, s') \<and> i_inum (icache s' q) = 1"
    using namei_correct[OF sample_walking _ _ r, of "[]", unfolded e sample_walk option.case] by fastforce
  moreover have "\<exists>s'. namei 0 ([120] @ 0 # []) sample = Some (None, s')"
    using namei_correct[OF sample_walking _ _ c, of "[]", unfolded e sample_walk option.case] by fastforce
  ultimately show ?thesis by simp
qed

text \<open>C15. The parent of a path: under the same conditions \<open>nameiparent\<close> finds the directory in which the last element of the path
  would be, whether or not it exists there, together with this element, cut to 14 bytes.\<close>

theorem nameiparent_correct:
  assumes "walking s I" "0 \<notin> set p" "i \<in> I" "length name = DIRSIZ"
    and "if p \<noteq> [] \<and> hd p = 47 then i = ROOTINO
      else cwd < NINODE \<and> 0 < i_ref (icache s cwd) \<and> i_dev (icache s cwd) = 1 \<and> i_inum (icache s cwd) = i"
  shows "\<exists>res name' s'. nameiparent cwd (p @ 0 # r) name s = Some (res, name', s') \<and> bio_ok s' \<and> icache_ok (icache s') \<and> blocks s' = blocks s
    \<and> (case walk (sb s) (blocks s) True i (path_elems p) of
        None \<Rightarrow> res = None \<and> (\<forall>q<NINODE. i_ref (icache s' q) = i_ref (icache s q))
      | Some j \<Rightarrow> str_of name' = take DIRSIZ (last (path_elems p))
          \<and> (\<exists>q<NINODE. res = Some q \<and> i_dev (icache s' q) = 1 \<and> i_inum (icache s' q) = j
              \<and> (\<forall>q'<NINODE. i_ref (icache s' q') = i_ref (icache s q') + (if q' = q then 1 else 0))))"
proof -
  have st: "if p \<noteq> [] \<and> hd p = 47 then i = ROOTINO \<and> i \<in> I
      else cwd < NINODE \<and> 0 < i_ref (icache s cwd) \<and> i_dev (icache s cwd) = 1 \<and> i_inum (icache s cwd) = i \<and> i \<in> I"
    using assms(3,5) by (auto split: if_splits)
  obtain res name' s' where n: "namex cwd (p @ 0 # r) True name s = Some (res, name', s')"
    "walked s (walk (sb s) (blocks s) True i (path_elems p)) res s'" "res \<noteq> None \<longrightarrow> str_of name' = take DIRSIZ (last (path_elems p))"
    using namex_ok[OF assms(1,2,4) st, where par = True and r = r] by auto
  show ?thesis
    using n(1,3) walkedD(1-3,5)[OF n(2)] unfolding nameiparent_def
    by (cases "walk (sb s) (blocks s) True i (path_elems p)") auto
qed

lemma nameiparent_correct_witness:
  "\<exists>q name s'. nameiparent 0 [47, 120, 0] (replicate 14 0) sample = Some (Some q, name, s') \<and> i_inum (icache s' q) = 1 \<and> str_of name = [120]"
proof -
  have e: "path_elems [47, 120] = [[120]]" by simp
  have r: "if [47, 120] \<noteq> [] \<and> hd [47 :: u8, 120] = 47 then 1 = ROOTINO
    else 0 < NINODE \<and> 0 < i_ref (icache sample 0) \<and> i_dev (icache sample 0) = 1 \<and> i_inum (icache sample 0) = 1"
    by (simp add: ROOTINO_def)
  have n: "length (replicate 14 (0 :: u8)) = DIRSIZ" by (simp add: DIRSIZ_def)
  have "\<exists>q name s'. nameiparent 0 ([47, 120] @ 0 # []) (replicate 14 0) sample = Some (Some q, name, s') \<and> i_inum (icache s' q) = 1
      \<and> str_of name = take DIRSIZ (last [[120]])"
    using nameiparent_correct[OF sample_walking _ _ n r, of "[]", unfolded e sample_walk option.case] by fastforce
  then show ?thesis by (simp add: DIRSIZ_def)
qed

text \<open>C16. \<open>dirlookup\<close> finds the first used entry of the directory whose name agrees on \<open>DIRSIZ\<close> bytes: it returns that
  entry's offset and what \<open>iget\<close> gives for its inode number, and null when there is none; nothing on disk, in the
  inode cache (before that \<open>iget\<close>) or in the pins of the buffers changes.\<close>

theorem dirlookup_correct:
  assumes "dir_ok dp s" "name_ok name"
  shows "\<exists>s1. advances s (blocks s) (icache s) s1 \<and> dirlookup dp name s =
    (case dir_find name (contents dp s) of
       None \<Rightarrow> Some (None, s1)
     | Some i \<Rightarrow> Option.bind (iget 1 (ucast (de_inum (entry (contents dp s) i))) s1)
                   (\<lambda>(ip, s2). Some (Some (ip, of_nat (16 * i)), s2)))"
  by (rule dirlookup_ok[OF assms]) (auto simp: lookup_result_def)

lemma sample_dir_ok: "dir_ok 0 sample"
  using sample_bio_ok sample_wf_disk sample_file_ok(1) sample_room[of 2]
  by (simp add: dir_ok_def sample_inode_fields)

lemma sample_contents: "contents 0 sample = []" "contents 1 sample = []"
  by (simp_all add: contents_def sample_inode_fields)

lemma sample_dir_find: "dir_find name (contents 0 sample) = None"
  by (simp add: sample_contents dir_find_def nentries_def)

lemma dirlookup_correct_witness: "\<exists>s1. dirlookup 0 [97, 0] sample = Some (None, s1)"
  using dirlookup_correct[OF sample_dir_ok, of "[97, 0]"] unfolding sample_dir_find
  by (auto simp: name_ok_def terminated_def)

text \<open>C17. \<open>dirlink\<close> then lookup: linking a new name returns 0 and leaves a directory in which exactly this name is added:
  the entry is found under the name with the inode number given, in the first unused slot or at the end,
  every other entry is as it was, and the directory is well-formed again.\<close>

theorem dirlink_correct:
  assumes "dir_ok dp s" "name_ok name" "dir_find name (contents dp s) = None"
    and "unat (i_size (icache s dp)) + 16 \<le> MAXFILE * BSIZE" "2 \<le> nfree (sb s) (blocks s)" "(ucast inum :: u16) \<noteq> 0"
  shows "\<exists>s'. dirlink dp name inum s = Some (0, s') \<and> dir_ok dp s'
    \<and> dir_find name (contents dp s') = Some (dir_slot (contents dp s))
    \<and> de_inum (entry (contents dp s') (dir_slot (contents dp s))) = ucast inum
    \<and> (\<forall>i. i < nentries (contents dp s) \<longrightarrow> i \<noteq> dir_slot (contents dp s) \<longrightarrow> entry (contents dp s') i = entry (contents dp s) i)
    \<and> nentries (contents dp s') = max (nentries (contents dp s)) (Suc (dir_slot (contents dp s)))"
proof -
  have "16 dvd length (contents dp s)" using assms(1) by (simp add: dir_ok_def)
  note l = linked_entries[where name = name and inum = "ucast inum", OF this] dir_find_linked[OF this assms(3,6)]
  show ?thesis
    by (rule dirlink_ok[OF assms(1-5), of inum])
      (simp add: l dirent_roundtrip[of "padded DIRSIZ (str_of name)" "ucast inum"])
qed

lemma dirlink_correct_witness:
  "\<exists>s'. dirlink 0 [97, 0] 2 sample = Some (0, s') \<and> dir_find [97, 0] (contents 0 s') = Some 0"
proof -
  have "dir_slot (contents 0 sample) = 0" by (simp add: sample_contents dir_slot_def nentries_def)
  moreover have "2 \<le> nfree (sb sample) (blocks sample)" using sample_nfree by linarith
  ultimately show ?thesis
    using dirlink_correct[OF sample_dir_ok, of "[97, 0]" 2] sample_dir_find[of "[97, 0]"]
    by (auto simp: sample_inode_fields fs_consts name_ok_def terminated_def)
qed

section \<open>The first disk\<close>

text \<open>C18. The program that makes the first disk: whatever was in the image before, \<open>mkfs\<close> of any list of files that fits leaves a
  well-formed file system: each file an inode of its own with exactly its bytes, a root directory naming them, no block
  shared, every other inode free and all remaining blocks free.\<close>

theorem mkfs_correct:
  assumes "\<forall>b. length (img s b) = BSIZE" "mkfs_fits files"
  shows "\<exists>s'. mkfs_main files s = Some s' \<and> wf_disk mkfs_sb (img s') \<and> dec_superblock (img s' 1) = mkfs_sb
    \<and> (\<forall>i<length files. disk_bytes mkfs_sb (img s') (of_nat (i + 2)) = snd (files ! i)) \<and> image_of files (img s')"
proof -
  obtain s' where s': "mkfs_main files s = Some s'" and im: "image_of files (img s')" using mkfs_main_ok[OF assms] by blast
  have "disk_bytes mkfs_sb (img s') (of_nat (i + 2)) = snd (files ! i)" if "i < length files" for i
    by (rule stored_disk_file(2)[OF imageD(3)[OF im that]]) (use that assms(2) in \<open>simp_all add: mkfs_fits_def T_FILE_def\<close>)
  then show ?thesis using s' im imageD(1,2)[OF im] by blast
qed

lemma mkfs_correct_witness:
  "\<exists>s'. mkfs_main [([104, 105], [1, 2, 3])] \<lparr>img = \<lambda>_. zeroes, freeinode = 1, freeblock = 0, msb = mkfs_sb\<rparr> = Some s'
    \<and> disk_bytes mkfs_sb (img s') 2 = [1, 2, 3]"
  using mkfs_correct[of "\<lparr>img = \<lambda>_. zeroes, freeinode = 1, freeblock = 0, msb = mkfs_sb\<rparr>", OF _ sample_fits(1)]
  by (auto simp: zeroes_def)

text \<open>C19. From the tool to the system call: once the kernel has mounted a disk made by \<open>mkfs\<close> (at least one block of the root
  directory not exactly filled), \<open>namei\<close> of a slash and the name of any file stored on it finds its inode, and locking it
  and reading from it returns the bytes that were stored.\<close>

theorem image_read_correct:
  assumes "mounted files s" "length files \<le> 198" "length files mod 32 \<noteq> 30" "names_ok files" "i < length files" "unat k \<le> length dst"
  shows "\<exists>ip s1 s2 s3. namei cwd (47 # mkfs_name (fst (files ! i)) @ 0 # r) s = Some (Some ip, s1) \<and> ilock ip s1 = Some s2
    \<and> readi ip dst 0 k s2 = Some (int (min (unat k) (length (snd (files ! i)))), blit 0 (take (unat k) (snd (files ! i))) dst, s3)
    \<and> blocks s3 = blocks s"
  using image_read[OF assms, of cwd r] by (auto simp: path_of_def min.commute)

lemma image_read_correct_witness:
  "\<exists>(s :: fs) ip s1 s2 s3. namei 0 [47, 104, 105, 0] s = Some (Some ip, s1) \<and> ilock ip s1 = Some s2 \<and> readi ip [0, 0, 0] 0 3 s2 = Some (3, [1, 2, 3], s3)"
proof -
  let ?fs = "[([104, 105], [1, 2, 3])] :: (u8 list \<times> u8 list) list"
  let ?m = "\<lparr>img = \<lambda>_. zeroes, freeinode = 1, freeblock = 0, msb = mkfs_sb\<rparr>"
  have "\<forall>b. length (img ?m b) = BSIZE" by (simp add: zeroes_def)
  then obtain m where m: "mkfs_main ?fs ?m = Some m" "image_of ?fs (img m)"
    by (rule mkfs_main_ok[OF _ sample_fits(1)])
  have len: "length (img m n) = 512" for n using imageD(1)[OF m(2)] by (simp add: wf_disk_def BSIZE_def)
  let ?s = "(booted (img m))\<lparr>sb := mkfs_sb, icache := \<lambda>_. free_slot\<rparr>"
  have o: "bio_ok ?s = bio_ok (booted (img m))" "pins ?s = pins (booted (img m))" "blocks ?s = blocks (booted (img m))"
    by (simp_all add: outside_def)
  have "mounted ?fs ?s"
    unfolding mounted_def bc.room_def o using booted_ok[OF len] m(2) imageD(2)[OF m(2)] by (simp add: free_slot_def NBUF_def)
  from image_read_correct[OF this _ _ sample_fits(2), of 0 3 "[0, 0, 0]" 0 "[]"]
  have "\<exists>ip s1 s2 s3. namei 0 [47, 104, 105, 0] ?s = Some (Some ip, s1) \<and> ilock ip s1 = Some s2
      \<and> readi ip [0, 0, 0] 0 3 s2 = Some (3, [1, 2, 3], s3)" by (auto simp: mkfs_name_def blit_def)
  then show ?thesis by (rule exI)
qed

section \<open>Memory\<close>

text \<open>C20. Growing a process: in an address space where no page has two roles, \<open>allocuvm\<close> to a size below \<open>KERNBASE\<close> either returns that
  size, and exactly the pages between the old and the new end are new, writable by the user and zero, everything mapped before
  being as it was, at the cost of at most two pages per page; or there were fewer free pages than that, it returns 0, and every page it had taken is unmapped again. In both cases no page is lost or gets
  two roles, and no byte outside the pages of this address space and the free list is written.\<close>

theorem allocuvm_correct:
  assumes "uspace d s ps" "new < KERNBASE" "old \<le> new" "\<forall>v. cut_off old new v \<longrightarrow> \<not> present (pmap d (ram s) v)"
  shows "\<exists>r s' ps'. allocuvm d old new s = Some (r, s') \<and> uspace d s' ps' \<and> pages d s' ps' = pages d s ps \<and> inside d s ps s'
    \<and> (r = new \<and> length ps \<le> length ps' + 2 * (pg_up new - pg_up old)
        \<and> (\<forall>v. if cut_off old new v then fresh d (ram s') v else pmap d (ram s') v = pmap d (ram s) v)
      \<or> r = 0 \<and> length ps < 2 * (pg_up new - pg_up old) \<and> (\<forall>v. present (pmap d (ram s') v) = present (pmap d (ram s) v)))
    \<and> (\<forall>v<KERNBASE. present (pmap d (ram s) v) \<longrightarrow> pmap d (ram s') v = pmap d (ram s) v \<and> user_byte d (ram s') v = user_byte d (ram s) v)"
proof -
  obtain r s' ps' where a: "allocuvm d old new s = Some (r, s')"
    "r = new \<and> length ps \<le> length ps' + 2 * (pg_up new - pg_up old) \<and> grown d (cut_off old new) s ps s' ps'
      \<or> r = 0 \<and> length ps < 2 * (pg_up new - pg_up old) \<and> undone d (cut_off old new) s ps s' ps'"
    using allocuvm_ok[OF assms(1-3)] assms(4) by blast
  from a(2) show ?thesis
  proof (elim disjE conjE)
    assume g: "r = new" "length ps \<le> length ps' + 2 * (pg_up new - pg_up old)" "grown d (cut_off old new) s ps s' ps'"
    note G = grownD[OF g(3)]
    have "\<not> cut_off old new v" if "present (pmap d (ram s) v)" for v using assms(4) that by blast
    then have "\<forall>v<KERNBASE. present (pmap d (ram s) v) \<longrightarrow> pmap d (ram s') v = pmap d (ram s) v \<and> user_byte d (ram s') v = user_byte d (ram s) v"
      using G(4,6) by blast
    moreover have "\<forall>v. if cut_off old new v then fresh d (ram s') v else pmap d (ram s') v = pmap d (ram s) v" using G(4,5) by simp
    ultimately show ?thesis using a(1) g G(1,3,7) by blast
  next
    assume u: "r = 0" "length ps < 2 * (pg_up new - pg_up old)" "undone d (cut_off old new) s ps s' ps'"
    then have "present (pmap d (ram s') v) = present (pmap d (ram s) v)" for v using assms(4) by (auto simp: undone_def)
    moreover have "\<forall>v<KERNBASE. present (pmap d (ram s) v) \<longrightarrow> pmap d (ram s') v = pmap d (ram s) v \<and> user_byte d (ram s') v = user_byte d (ram s) v"
      using u calculation unfolding undone_def same_bytes_def by blast
    moreover have "uspace d s' ps'" "pages d s' ps' = pages d s ps" "inside d s ps s'" using u unfolding undone_def by blast+
    ultimately show ?thesis using a(1) u by blast
  qed
qed

lemma allocuvm_correct_witness:
  "\<exists>r s' ps'. allocuvm sample_dir 4096 8192 sample_kern = Some (r, s') \<and> uspace sample_dir s' ps'
    \<and> pages sample_dir s' ps' = {0x80002000, 0x80003000, 0x80005000, 0x80006000}"
proof -
  have "\<forall>v. cut_off 4096 8192 v \<longrightarrow> \<not> present (pmap sample_dir (ram sample_kern) v)"
  proof (intro allI impI)
    fix v assume "cut_off 4096 8192 v"
    then have "4096 \<le> unat v" using PGROUNDDOWN_le[of v] by (simp add: cut_off_def word_le_nat_alt)
    then show "\<not> present (pmap sample_dir (ram sample_kern) v)" by (simp add: sample_pmap)
  qed
  moreover have "(8192 :: u32) < KERNBASE" "(4096 :: u32) \<le> 8192" by (simp_all add: KERNBASE_def)
  ultimately show ?thesis using allocuvm_correct[OF sample_uspace(1)] unfolding sample_uspace(2) by blast
qed

text \<open>C21. Shrinking a process: \<open>deallocuvm\<close> returns the new size; exactly the pages that start between the new and the old end are unmapped,
  their frames are on top of the free list, all other pages keep entry and contents, no page is lost or gets two roles.\<close>

theorem deallocuvm_correct:
  assumes "uspace d s ps" "old \<le> KERNBASE"
  shows "\<exists>s' fs. deallocuvm d old new s = Some (min old new, s') \<and> uspace d s' (fs @ ps) \<and> pages d s' (fs @ ps) = pages d s ps
    \<and> inside d s ps s' \<and> mem_frame s s'
    \<and> (\<forall>v. pmap d (ram s') v = (if cut_off new old v \<and> present (pmap d (ram s) v) then 0 else pmap d (ram s) v))
    \<and> (\<forall>v<KERNBASE. present (pmap d (ram s') v) \<longrightarrow> user_byte d (ram s') v = user_byte d (ram s) v)"
proof -
  obtain s' ps' where a: "deallocuvm d old new s = Some (if new \<ge> old then old else new, s')" "unmapped d (cut_off new old) s ps s' ps'"
    using deallocuvm_ok[OF assms] by blast
  note U = unmappedD[OF a(2)]
  obtain fs where fs: "ps' = fs @ ps" using U(7) by blast
  have "(if new \<ge> old then old else new) = min old new" by (simp add: min_def)
  moreover have "user_byte d (ram s') v = user_byte d (ram s) v" if "v < KERNBASE" "present (pmap d (ram s') v)" for v
    using U(6) that U(4) unfolding same_bytes_def by (auto split: if_splits)
  ultimately show ?thesis using a(1) U fs by (intro exI[of _ s'] exI[of _ fs]) simp
qed

lemma deallocuvm_correct_witness: "\<exists>s'. deallocuvm sample_dir 4096 0 sample_kern = Some (0, s') \<and> pmap sample_dir (ram s') 0 = 0"
proof -
  have "cut_off 0 4096 0" by (simp add: cut_off_def PGROUNDDOWN_def)
  moreover have "pmap sample_dir (ram sample_kern) 0 = 0x3007" by (simp add: sample_pmap)
  moreover have "(4096 :: u32) \<le> KERNBASE" by (simp add: KERNBASE_def)
  ultimately show ?thesis using deallocuvm_correct[OF sample_uspace(1), of 4096 0] by (fastforce simp: sample_flags)
qed

text \<open>C22. The life of an address space: after \<open>setupkvm\<close> made it, let any sequence of growing, shrinking, loading from files, storing
  and protecting happen to it, whatever the sizes and whether or not each call succeeds. Then still no page has two roles, a user page is mapped
  if and only if it starts below the size, and every mapping of the kernel is the kernel's. And \<open>freevm\<close> then returns with exactly the pages on the free list that
  were there at the beginning, without a byte written outside them.\<close>

theorem space_life_correct:
  assumes "free_pages s0 ps" "KERNBASE \<notin> set ps" "page_al D" "KERNLINK < D" "D < P2V PHYSTOP" "bio_ok s0"
    and "setupkvm D s0 = Some (d, s1)" "d \<noteq> 0" "(space_step d)\<^sup>*\<^sup>* (0, s1) (sz, s2)"
  shows "(\<exists>qs. uspace d s2 qs \<and> insert d (pages d s2 qs) = set ps) \<and> (\<forall>v<KERNBASE. present (pmap d (ram s2) v) \<longleftrightarrow> PGROUNDDOWN v < sz)
    \<and> (\<forall>v. KERNBASE \<le> v \<longrightarrow> present (pmap d (ram s2) v) \<longrightarrow> pmap d (ram s2) v = kernel_entry D v)
    \<and> (\<exists>s3 ps'. freevm d s2 = Some s3 \<and> free_pages s3 ps' \<and> set ps' = set ps \<and> same_outside (set ps) (ram s0) (ram s3))"
proof -
  obtain qs where "living d D (set ps) s0 qs (sz, s2)" using space_life(1)[OF assms] by blast
  then show ?thesis using livingD[of d D "set ps" s0 qs sz s2] space_life(2)[OF assms] by blast
qed

lemma space_life_correct_witness:
  "\<exists>(s0 :: kern) d s1 r s2 s3 ps ps'. free_pages s0 ps \<and> setupkvm 0x80110000 s0 = Some (d, s1) \<and> allocuvm d 0 8192 s1 = Some (r, s2)
    \<and> freevm d s2 = Some s3 \<and> free_pages s3 ps' \<and> set ps' = set ps \<and> length ps = 1042"
proof -
  obtain s :: kern and ps where s: "walking s (image_inodes demo_files)" "running 0 0x80004000 s ps" "length ps = 1042" "KERNBASE \<notin> set ps"
    by (rule demo_kernel)
  have fp: "free_pages s ps" using vm_okD(1)[OF uspaceD(1)[OF runningD(1)[OF s(2)]]] .
  have D: "page_al 0x80110000" "KERNLINK < 0x80110000" "0x80110000 < P2V PHYSTOP"
    by (simp_all add: KERNBASE_def KERNLINK_def P2V_def PHYSTOP_def page_al_def)
  obtain d s1 where k: "setupkvm 0x80110000 s = Some (d, s1)" "d \<noteq> 0" using setupkvm_ok[OF fp s(4) D] s(3) by auto
  note bio = walkingD(1)[OF s(1)]
  obtain qs where "living d 0x80110000 (set ps) s qs (0, s1)" using space_life(1)[OF fp s(4) D bio k rtranclp.rtrancl_refl] by blast
  from living_grow[OF this, of 8192] obtain r s2 where g: "allocuvm d 0 8192 s1 = Some (r, s2)" by blast
  have "(space_step d)\<^sup>*\<^sup>* (0, s1) (if r = 0 then 0 else r, s2)" by (rule r_into_rtranclp[where r = "space_step d"]) (rule space_grow[OF g])
  from space_life_correct[OF fp s(4) D bio k this] obtain s3 ps' where "freevm d s2 = Some s3" "free_pages s3 ps'" "set ps' = set ps" by blast
  then show ?thesis using fp k(1) g s(3) by blast
qed

text \<open>C23. The kernel's map: from any free list, \<open>setupkvm\<close> returns a new directory that maps physical memory at \<open>KERNBASE\<close>, the kernel's
  code read-only, the devices where they are and nothing for the user; or memory ran out, it returns 0 and the free list holds the same
  pages as before, which cannot happen with more than 1025 free pages.\<close>

theorem setupkvm_correct:
  assumes "free_pages s ps" "KERNBASE \<notin> set ps" "page_al data" "KERNLINK < data" "data < P2V PHYSTOP"
  shows "\<exists>r s' ps'. setupkvm data s = Some (r, s') \<and> mem_frame s s' \<and> same_outside (set ps) (ram s) (ram s')
    \<and> (r \<noteq> 0 \<and> uspace r s' ps' \<and> pmap r (ram s') = kernel_entry data \<and> insert r (pages r s' ps') = set ps
      \<or> r = 0 \<and> free_pages s' ps' \<and> set ps' = set ps \<and> length ps \<le> 1025)"
  by (rule setupkvm_ok[OF assms])

lemma setupkvm_correct_witness:
  "\<exists>r s'. setupkvm 0x80110000 sample_kern = Some (r, s') \<and> same_outside {0x80005000, 0x80006000} sample_ram (ram s')"
proof -
  have "KERNBASE \<notin> set [0x80005000, 0x80006000]" "page_al 0x80110000" "KERNLINK < 0x80110000" "0x80110000 < P2V PHYSTOP"
    by (simp_all add: KERNBASE_def KERNLINK_def P2V_def PHYSTOP_def page_al_def)
  from setupkvm_correct[OF sample_free_pages this] show ?thesis by auto
qed

text \<open>C24. Loading a segment: \<open>loaduvm\<close> into mapped user pages returns 0 exactly if the file has all the bytes asked for, and then they
  stand at the address asked for; whatever happens no other byte of the user's memory, no page table entry and nothing of the file
  system changes.\<close>

theorem loaduvm_correct:
  assumes "uspace d s ps" "readable ip s" "page_al addr" "unat addr + unat sz \<le> unat KERNBASE"
    and "\<forall>v. unat addr \<le> unat v \<longrightarrow> unat v < unat addr + unat sz \<longrightarrow> present (pmap d (ram s) v)"
  shows "\<exists>r s'. loaduvm d addr ip off sz s = Some (r, s') \<and> stored_to d ps (unat addr) (unat sz) s s'
    \<and> r = (if sz = 0 \<or> unat off + unat sz \<le> length (contents ip s) then 0 else - 1)
    \<and> (r = 0 \<longrightarrow> (\<forall>v<KERNBASE. unat addr \<le> unat v \<longrightarrow> unat v < unat addr + unat sz \<longrightarrow>
        user_byte d (ram s') v = contents ip s ! (unat off + (unat v - unat addr))))"
  by (rule loaduvm_ok[OF assms(1-3) assms(4)[unfolded unat_KERNBASE] assms(5)])

lemma loaduvm_correct_witness:
  "\<exists>s'. loaduvm sample_dir 0 1 0 2 sample_kern = Some (0, s') \<and> user_byte sample_dir (ram s') 1 = 105"
proof -
  have "\<forall>v. unat (0 :: u32) \<le> unat v \<longrightarrow> unat v < unat (0 :: u32) + unat (2 :: u32) \<longrightarrow> present (pmap sample_dir (ram sample_kern) v)"
    by (simp add: sample_pmap sample_flags)
  moreover have "(1 :: u32) < KERNBASE" "page_al 0" "unat (0 :: u32) + unat (2 :: u32) \<le> unat KERNBASE"
    by (simp_all add: KERNBASE_def page_al_def)
  ultimately show ?thesis
    using loaduvm_correct[OF sample_uspace(1) sample_readable(1), of 0 2 0] sample_readable(2) by fastforce
qed

text \<open>C25. \<open>mappages\<close> refines the update of a map: it either returns 0, and then exactly the pages that the range touches are translated
  to the consecutive frames with the permissions given and every other page as before, at the cost of at most a page per page mapped; or there were fewer free pages than pages to map, all are used up, it
  returns -1 and a first part of the range is mapped. It only turns free pages into tables and writes no page outside directory, tables and free list.\<close>

theorem mappages_correct:
  assumes "vm_ok d s ps" "0 < unat sz" "unat va + unat sz \<le> 2 ^ 32"
  shows "\<exists>r s' ps'. mappages d va sz pa perm s = Some (r, s')
    \<and> (r = 0 \<and> length ps \<le> length ps' + npages va sz
         \<and> vm_step d s ps (mapped_range (PGROUNDDOWN va) (npages va sz) pa perm (pmap d (ram s))) s' ps'
       \<or> r = - 1 \<and> ps' = [] \<and> length ps < npages va sz
         \<and> (\<exists>k<npages va sz. vm_step d s ps (mapped_range (PGROUNDDOWN va) k pa perm (pmap d (ram s))) s' ps'))"
  by (rule mappages_ok[OF assms])

lemma mappages_correct_witness:
  "\<exists>r s' ps'. mappages sample_dir 0x1000 0x2000 0x7000 6 sample_kern = Some (r, s') \<and> vm_ok sample_dir s' ps'
     \<and> (r = 0 \<longrightarrow> pmap sample_dir (ram s') 0x2000 = 0x8007)"
proof -
  have e: "PGROUNDDOWN 0x1000 = 0x1000" "PGROUNDDOWN 0x2000 = 0x2000" "npages 0x1000 0x2000 = 2"
    by (simp_all add: PGROUNDDOWN_def PGSIZE_def npages_def)
  obtain r s' ps' where r: "mappages sample_dir 0x1000 0x2000 0x7000 6 sample_kern = Some (r, s')"
    "r = 0 \<and> vm_step sample_dir sample_kern [0x80005000, 0x80006000] (mapped_range 0x1000 2 0x7000 6 (pmap sample_dir sample_ram)) s' ps'
       \<or> r = - 1 \<and> (\<exists>k. vm_step sample_dir sample_kern [0x80005000, 0x80006000] (mapped_range 0x1000 k 0x7000 6 (pmap sample_dir sample_ram)) s' ps')"
    using mappages_correct[OF sample_vm_ok, of "0x2000" "0x1000" "0x7000" 6] unfolding e by auto
  have m: "mapped_range 0x1000 2 0x7000 6 M 0x2000 = 0x8007" for M by (simp add: mapped_range_def e PTE_P_def)
  have "vm_ok sample_dir s' ps'" using r(2) vm_stepD(1) by blast
  moreover have "r = 0 \<longrightarrow> pmap sample_dir (ram s') 0x2000 = 0x8007"
    using r(2) vm_stepD(3) m by (metis zero_neq_neg_one)
  ultimately show ?thesis using r(1) by blast
qed

text \<open>C26. \<open>copyout\<close> writes exactly the user's bytes: when the pages of the range are the user's, it returns 0, the bytes at \<open>va\<close> and up read as
  the kernel's buffer, across page boundaries, every other user byte and the page tables are as before, and no byte of memory outside the
  frames of the range is written.\<close>

theorem copyout_correct:
  assumes "vm_ok d s ps" "frames_ok d s ps" "unat len \<le> length buf" "unat va + unat len \<le> 2 ^ 32"
    and "\<And>v. unat va \<le> unat v \<Longrightarrow> unat v < unat va + unat len \<Longrightarrow> umapped d (ram s) v"
  shows "\<exists>s'. copyout d va buf len s = Some (0, s') \<and> vm_ok d s' ps \<and> mem_step s s' \<and> pmap d (ram s') = pmap d (ram s)
    \<and> same_outside (range_frames d (ram s) (unat va) (unat len)) (ram s) (ram s')
    \<and> (\<forall>v. umapped d (ram s) v \<longrightarrow> user_byte d (ram s') v =
         (if unat va \<le> unat v \<and> unat v < unat va + unat len then buf ! (unat v - unat va) else user_byte d (ram s) v))"
  unfolding copyout_def by (rule copyout_loop_ok[OF assms])

lemma copyout_correct_witness:
  "\<exists>s'. copyout sample_dir 0x200 [120, 121] 2 sample_kern = Some (0, s') \<and> user_byte sample_dir (ram s') 0x201 = 121
     \<and> user_byte sample_dir (ram s') 0x202 = 0"
proof -
  have u: "umapped sample_dir (ram sample_kern) v" if "unat (0x200 :: u32) \<le> unat v" "unat v < unat (0x200 :: u32) + unat (2 :: u32)" for v
    using that by (simp add: sample_umapped)
  have l: "unat (2 :: u32) \<le> length [120 :: u8, 121]" "unat (0x200 :: u32) + unat (2 :: u32) \<le> 2 ^ 32" by simp_all
  obtain s' where s': "copyout sample_dir 0x200 [120, 121] 2 sample_kern = Some (0, s')"
    "\<forall>v. umapped sample_dir (ram sample_kern) v \<longrightarrow> user_byte sample_dir (ram s') v =
       (if unat (0x200 :: u32) \<le> unat v \<and> unat v < unat (0x200 :: u32) + unat (2 :: u32) then [120, 121] ! (unat v - unat (0x200 :: u32))
        else user_byte sample_dir (ram sample_kern) v)"
    using copyout_correct[OF sample_vm_ok sample_frames_ok l u] by blast
  have "user_byte sample_dir (ram s') 0x201 = 121" "user_byte sample_dir (ram s') 0x202 = 0"
    using s'(2)[THEN spec, of "0x201"] s'(2)[THEN spec, of "0x202"]
    by (simp_all add: sample_umapped) (simp add: user_byte_def sample_pmap sample_flags sample_bytes)
  then show ?thesis using s'(1) by blast
qed

text \<open>C27. \<open>freerange\<close> returns, and has put every whole page between its arguments on the free list, each once and in front of what was
  free before; no other byte of memory has changed.\<close>

theorem freerange_correct:
  assumes "free_pages s ps" "0 < unat vstart" "unat vstart \<le> 2 ^ 32 - 4096" "unat vend < 2 ^ 32 - 4096"
    and "unat (PGROUNDUP vstart) \<le> unat vend"
    and "r = page_range (PGROUNDUP vstart) ((unat vend - unat (PGROUNDUP vstart)) div 4096)" "set r \<inter> set ps = {}"
  shows "\<exists>s'. freerange vstart vend s = Some s' \<and> free_pages s' (rev r @ ps) \<and> same_outside (set r) (ram s) (ram s') \<and> mem_step s s'"
  unfolding assms(6) by (rule freerange_ok[OF assms(1-5) assms(7)[unfolded assms(6)]])

lemma freerange_correct_witness:
  "\<exists>s'. freerange 0x80006FFF 0x80009800 sample_kern = Some s' \<and> free_pages s' [0x80008000, 0x80007000, 0x80005000, 0x80006000]"
proof -
  have e: "PGROUNDUP 0x80006FFF = 0x80007000" by (simp add: PGROUNDUP_def PGSIZE_def)
  have r: "[0x80007000, 0x80008000] = page_range (PGROUNDUP 0x80006FFF) ((unat (0x80009800 :: u32) - unat (PGROUNDUP 0x80006FFF)) div 4096)"
    by (simp add: e page_range_def upt_rec)
  show ?thesis using freerange_correct[OF sample_free_pages _ _ _ _ r] by (auto simp: e)
qed

text \<open>C28. Any use of the allocator: let pages be taken with \<open>kalloc\<close>, written into and given back with \<open>kfree\<close>, in any order. The pages
  held and the free ones are together always the pages there were at the beginning, none twice; \<open>kalloc\<close> fails only when all of them are
  held; and a page holds what its holder last wrote into it, or what it found there.\<close>

theorem alloc_runs_correct:
  assumes "free_pages s0 ps0" "alloc_run s0 s hs M"
  shows "(\<exists>ps. free_pages s ps \<and> mset hs + mset ps = mset ps0) \<and> distinct hs \<and> (fst (kalloc s) = 0 \<longleftrightarrow> mset hs = mset ps0)
    \<and> (\<forall>p\<in>set hs. \<forall>a. in_page p a \<longrightarrow> ram s a = M a)"
proof -
  obtain ps where ps: "pg.owns hs M s ps" "mset hs + mset ps = mset ps0" using alloc_run_ok[OF assms(2,1)] by blast
  have "free_pages s ps" "distinct hs" "\<forall>p\<in>set hs. \<forall>a. in_page p a \<longrightarrow> ram s a = M a" using ps(1) by (simp_all add: pg.owns_def)
  moreover have "fst (kalloc s) = 0 \<longleftrightarrow> ps = []"
    using kalloc_either[OF ps(1), of "fst (kalloc s)" "snd (kalloc s)"] free_pagesD(2)[OF \<open>free_pages s ps\<close>] by (auto split: if_splits)
  moreover have "ps = [] \<longleftrightarrow> mset hs = mset ps0" using ps(2) by (metis add_cancel_right_right mset_zero_iff)
  ultimately show ?thesis using ps(2) by blast
qed

lemma alloc_runs_correct_witness: "\<exists>s1 s2. kalloc sample_kern = (0x80005000, s1) \<and> kalloc s1 = (0x80006000, s2) \<and> fst (kalloc s2) = 0"
proof -
  have 1: "kalloc sample_kern = (0x80005000, sample_kern\<lparr>freelist := 0x80006000\<rparr>)" (is "_ = (_, ?s1)") by (simp add: kalloc_def sample_ld32)
  have 2: "kalloc ?s1 = (0x80006000, ?s1\<lparr>freelist := 0\<rparr>)" (is "_ = (_, ?s2)") by (simp add: kalloc_def sample_ld32)
  have "\<exists>M. alloc_run sample_kern ?s2 [0x80006000, 0x80005000] M"
    using alloc_take[OF alloc_take[OF alloc_start 1] 2] by auto
  then have "fst (kalloc ?s2) = 0 \<longleftrightarrow> mset [0x80006000, 0x80005000] = mset [0x80005000, 0x80006000 :: u32]"
    using alloc_runs_correct[OF sample_free_pages] by blast
  then show ?thesis using 1 2 by (auto simp: add_mset_commute)
qed

section \<open>Processes and interrupts\<close>

text \<open>C29. A new process: when slot 0 is free and there is a page, \<open>allocproc\<close> takes slot 0 and the next process number and
  lays out its kernel stack for the first switch: the trap frame on top, below it the address of \<open>trapret\<close>, below it a context of zeros
  that returns to \<open>forkret\<close>; only the stack page is written.\<close>

theorem allocproc_correct:
  assumes "p_state (ptable s 0) = UNUSED" "free_pages s (k # ks)"
  shows "\<exists>s'. allocproc L s = (Some 0, s') \<and> free_pages s' ks \<and> nextpid s' = nextpid s + 1
    \<and> ptable s' = (ptable s)(0 := (ptable s 0)\<lparr>p_state := EMBYRO, p_pid := nextpid s, p_kstack := k,
         p_tf := k + 4020, p_context := k + 3996\<rparr>)
    \<and> rd_mem (k + 4016) s' = l_trapret L \<and> rd_mem (k + 3996 + CTX_EIP) s' = l_forkret L
    \<and> (\<forall>i<4. rd_mem (k + 3996 + 4 * i) s' = 0) \<and> same_outside {k} (ram s) (ram s')"
  by (rule allocproc_ok[OF assms])

lemma allocproc_correct_witness:
  "\<forall>L. \<exists>s'. allocproc L (upd_proc 0 (\<lambda>x. x\<lparr>p_state := UNUSED\<rparr>) sample_kern) = (Some 0, s') \<and> rd_mem 0x80005FB0 s' = l_trapret L"
proof -
  have f: "free_pages (upd_proc 0 (\<lambda>x. x\<lparr>p_state := UNUSED\<rparr>) sample_kern) [0x80005000, 0x80006000]"
    using sample_free_pages by (simp add: free_pages_def)
  show ?thesis using allocproc_correct[OF _ f] by (auto simp: upd_proc_def)
qed

text \<open>C30. The scheduler makes progress: if the first runnable process of the table has a stack and a page directory, it returns that process as the
  running one, with its address space and kernel stack installed and interrupts on.\<close>

theorem scheduler_correct:
  assumes "p < NPROC" "p_state (ptable s p) = RUNNABLE" "\<forall>q<p. p_state (ptable s q) \<noteq> RUNNABLE"
    and "p_kstack (ptable s p) \<noteq> 0" "p_pgdir (ptable s p) \<noteq> 0"
  shows "\<exists>s'. scheduler L s = Some (p, s') \<and> ptable s' = (ptable s)(p := (ptable s p)\<lparr>p_state := RUNNING\<rparr>)
    \<and> curproc s' = Some p \<and> cr3 s' = V2P (p_pgdir (ptable s p)) \<and> ts_esp0 (ts s') = p_kstack (ptable s p) + KSTACKSIZE \<and> intr_on s'"
  by (rule scheduler_ok[OF assms])

lemma scheduler_correct_witness: "\<forall>L. \<exists>s'. scheduler L sample_kern = Some (0, s') \<and> curproc s' = Some 0 \<and> cr3 s' = V2P sample_dir"
proof
  fix L
  show "\<exists>s'. scheduler L sample_kern = Some (0, s') \<and> curproc s' = Some 0 \<and> cr3 s' = V2P sample_dir"
    using scheduler_correct[of 0 sample_kern L] by (auto simp: NPROC_def sample_proc_def sample_dir_def)
qed

section \<open>Equivalences\<close>

text \<open>C31. Writing through an open file in pieces is the same as one write: \<open>filewrite\<close>, which hands at most three blocks to \<open>writei\<close> at a time,
  leaves the same file as a single call of \<open>writei\<close> with all the bytes at the file's offset.\<close>

theorem filewrite_as_one_write:
  assumes "opened f ip s" "f_writable (ftable s f)" "bio_ok s" "wf_disk (sb s) (blocks s)" "file_ok ip s" "bc.room 2 s"
    and "i_type (icache s ip) \<noteq> T_DEV" "f_off (ftable s f) \<le> i_size (icache s ip)" "n \<le> length src"
    and "unat (f_off (ftable s f)) + n \<le> MAXFILE * BSIZE" "8 * ((n + 1535) div 1536) \<le> nfree (sb s) (blocks s)"
    and "2 * touched (unat (f_off (ftable s f))) n \<le> nfree (sb s) (blocks s)"
  shows "\<exists>s1 s2. filewrite f src (int n) s = Some (int n, s1) \<and> writei ip src (f_off (ftable s f)) (of_nat n) s = Some (int n, s2)
    \<and> contents ip s1 = contents ip s2 \<and> (\<forall>q. q \<noteq> ip \<longrightarrow> icache s1 q = icache s2 q)"
proof -
  let ?off = "f_off (ftable s f)"
  have b: "unat ?off + n \<le> 71680" using assms(10) by (simp add: fs_consts)
  then have un: "unat (of_nat n :: u32) = n" by (simp add: unat_of_nat)
  have nw: "?off \<le> ?off + of_nat n" using b un by (intro no_olen_add_nat[THEN iffD2]) simp
  have p: "unat ?off + unat (of_nat n :: u32) \<le> MAXFILE * BSIZE" "unat (of_nat n :: u32) \<le> length src"
    "2 * touched (unat ?off) (unat (of_nat n :: u32)) \<le> nfree (sb s) (blocks s)" unfolding un by (fact assms)+
  obtain s2 where s2: "writei ip src ?off (of_nat n) s = Some (int n, s2)" "contents ip s2 = blit (unat ?off) (take n src) (contents ip s)"
    "\<forall>q. q \<noteq> ip \<longrightarrow> icache s2 q = icache s q"
    using writei_contents[OF assms(3-8) nw p] unfolding un by blast
  obtain s1 where s1: "filewrite f src (int n) s = Some (int n, s1)" "wrote f ip (take n src) s s1"
    using filewrite_ok[OF assms(1-11)] by blast
  note W = wroteD(6,12)[OF s1(2)]
  show ?thesis using s1(1) s2 W by (intro exI[of _ s1] exI[of _ s2]) simp
qed

lemma filewrite_as_one_write_witness:
  "\<exists>s1 s2. filewrite 0 [120] 1 sample_kern = Some (1, s1) \<and> writei 1 [120] 0 1 sample_kern = Some (1, s2) \<and> contents 1 s1 = contents 1 s2"
proof -
  have "8 * ((1 + 1535) div 1536) \<le> nfree (sb sample_kern) (blocks sample_kern)"
    "2 * touched (unat (f_off (ftable sample_kern 0))) 1 \<le> nfree (sb sample_kern) (blocks sample_kern)"
    using hi_nfree by (simp_all add: touched_def BSIZE_def)
  then show ?thesis
    using filewrite_as_one_write[OF sample_kern_file(1) _ sample_kern_file(2-6), of 1 "[120]"] by (auto simp: hi_inode_fields fs_consts)
qed

section \<open>Blocks and inodes\<close>

text \<open>C32. \<open>bmap\<close> implements its specification \<open>bmap_abs\<close>: it returns the block of the file that holds block number
  \<open>bn\<close>, adding the block (and the indirect block) if it is missing; disk and inode change exactly as specified.\<close>

theorem bmap_correct:
  assumes "bio_ok s" "wf_disk (sb s) (blocks s)" "i_dev (icache s ip) = 1"
    and "wf_file (sb s) (blocks s) (i_addrs (icache s ip))" "bc.room 2 s" "bn < MAXFILE"
    and "bmap_abs (sb s) bn (blocks s) (i_addrs (icache s ip)) = Some (a, D', as')"
  shows "\<exists>s'. bmap ip (of_nat bn) s = Some (a, s') \<and> bio_ok s' \<and> blocks s' = D' \<and> sb s' = sb s
    \<and> icache s' = (icache s)(ip := (icache s ip)\<lparr>i_addrs := as'\<rparr>)"
  by (rule bmap_refines[OF assms]) (use advancesD in \<open>fastforce simp: set_addrs_def\<close>)

lemma bmap_correct_witness: "\<exists>a s'. bmap 1 (of_nat 0) sample = Some (a, s') \<and> icache s' 0 = icache sample 0"
proof -
  have w: "wf_file (sb sample) (blocks sample) (i_addrs (icache sample 1))" "i_dev (icache sample 1) = 1"
    by (simp_all add: sample_inode_fields no_blocks_wf)
  have "2 \<le> nfree (sb sample) (blocks sample)" by (rule order_trans[OF _ sample_nfree]) simp
  then obtain a D' as' where "bmap_abs (sb sample) 0 (blocks sample) (i_addrs (icache sample 1)) = Some (a, D', as')"
    using bmap_abs_total[OF sample_wf_disk w(1), of 0] by blast
  then show ?thesis using bmap_correct[OF sample_bio_ok sample_wf_disk w(2,1) sample_room] by (fastforce simp: fs_consts)
qed

text \<open>C33. The cache is a disk: let clients read blocks with \<open>bread\<close>, hold any number of buffers up to the size of the cache, the same block perhaps more than once,
  look at them, change and write them with \<open>bwrite\<close> and release them, in any order. Then everything they see is what a disk would give them on which the
  writes took effect one after the other, and that is what the disk holds in the end; as long as a buffer is left, the next
  \<open>bread\<close> returns.\<close>

theorem cache_runs_correct:
  assumes "bio_ok s0" "pins s0 = (\<lambda>_. 0)" "cache_run s0 es s hs"
  shows "replay es (blocks s0) = Some (blocks s) \<and> bio_ok s \<and> (\<forall>(b, n)\<in>set hs. bdata s b = blocks s n)
    \<and> (\<forall>n<FSSIZE. length hs < NBUF \<longrightarrow> (\<exists>b s'. bread 1 n s = Some (b, s')))"
proof -
  have T: "bc.tracks hs s" and R: "replay es (blocks s0) = Some (blocks s)" using cache_run_ok[OF assms(3,1,2)] by simp_all
  have "bdata s b = blocks s n" if "(b, n) \<in> set hs" for b n by (rule bc.tracks_data[OF T that])
  then show ?thesis using R bc.tracksD(1)[OF T] cache_run_next(1)[OF assms(3,1,2)] by blast
qed

lemma cache_runs_correct_witness:
  "\<exists>b s1 c s2. bread 1 3 sample = Some (b, s1) \<and> bread 1 4 s1 = Some (c, s2) \<and> bdata s2 b = 15 # replicate 511 0"
proof -
  have n: "(3 :: u32) < FSSIZE" "(4 :: u32) < FSSIZE" "length ([] :: (nat \<times> u32) list) < NBUF" by (simp_all add: FSSIZE_def NBUF_def)
  note r0 = run_start[of sample]
  from cache_run_next(1)[OF r0 sample_bio_ok sample_pins n(1,3)] obtain b s1 where b: "bread 1 3 sample = Some (b, s1)" by blast
  note r1 = run_bread[OF r0 n(1,3) b]
  have l1: "length [(b, 3 :: u32)] < NBUF" by (simp add: NBUF_def)
  from cache_run_next(1)[OF r1 sample_bio_ok sample_pins n(2) l1] obtain c s2 where c: "bread 1 4 s1 = Some (c, s2)" by blast
  note r2 = run_bread[OF r1 n(2) l1 c]
  note C = cache_runs_correct[OF sample_bio_ok sample_pins]
  from C[OF r2] have d: "bdata s2 b = blocks s2 3" by simp
  have "blocks s2 3 = blocks sample 3" using C[OF r2] by (auto split: if_splits)
  then show ?thesis using b c d by (auto simp: sample_disk_def)
qed

text \<open>C34. \<open>balloc\<close> marks the first block free in the bitmap as used, zeroes it and returns it; nothing else on the
  disk changes.\<close>

theorem balloc_correct:
  assumes "bio_ok s" "sb_ok (sb s)" "bc.room 1 s" "first_free (sb s) (blocks s) = Some k"
  shows "\<exists>s'. balloc 1 s = Some (of_nat k, s') \<and> blocks s' = alloc_blk (sb s) k (blocks s) \<and> bio_ok s'
    \<and> sb s' = sb s \<and> icache s' = icache s"
  by (rule balloc_ok[OF assms]) (use evolves_fs in blast)

lemma balloc_correct_witness: "\<exists>k s'. balloc 1 sample = Some (of_nat k, s') \<and> blocks s' = alloc_blk (sb sample) k (blocks sample)"
proof -
  have "0 < nfree (sb sample) (blocks sample)" by (rule less_le_trans[OF _ sample_nfree]) simp
  then obtain k where "first_free (sb sample) (blocks sample) = Some k" using first_free_some by blast
  then show ?thesis using balloc_correct[OF sample_bio_ok wf_diskD(1)[OF sample_wf_disk] sample_room] by fastforce
qed

text \<open>C35. \<open>itrunc\<close> of a well-formed file, whose inode is not in the bitmap block, returns, frees exactly the blocks of the file (data blocks,
  entries of the indirect block, the indirect block) and writes the emptied inode to its slot on disk. Nothing else changes: every other inode on
  disk is as before, even those in the same block, of which only the bytes of the slot are replaced; so are all blocks but this one and the bitmap, all other
  entries of the inode cache, and the number of buffers in use.\<close>

theorem itrunc_correct:
  assumes "fs_ok s" "bc.room 2 s" "i_dev (icache s ip) = 1"
    and "wf_file (sb s) (blocks s) (i_addrs (icache s ip))" "IBLOCK (i_inum (icache s ip)) (sb s) < FSSIZE"
    and "IBLOCK (i_inum (icache s ip)) (sb s) \<noteq> sb_bmapstart (sb s)"
  shows "\<exists>s'. itrunc ip s = Some s' \<and> icache s' = (icache s)(ip := trunc_inode (icache s ip))
    \<and> (\<forall>k. used (sb s) (blocks s') k \<longleftrightarrow> used (sb s) (blocks s) k
          \<and> k \<notin> unat ` set (file_blocks (blocks s) (i_addrs (icache s ip))))
    \<and> (\<forall>b. b \<noteq> sb_bmapstart (sb s) \<longrightarrow> b \<noteq> IBLOCK (i_inum (icache s ip)) (sb s) \<longrightarrow> blocks s' b = blocks s b)
    \<and> blocks s' (IBLOCK (i_inum (icache s ip)) (sb s)) = blit (dinode_off (i_inum (icache s ip)))
        (enc_dinode (dinode_of (trunc_inode (icache s ip)))) (blocks s (IBLOCK (i_inum (icache s ip)) (sb s)))
    \<and> (\<forall>j. IBLOCK j (sb s) \<noteq> sb_bmapstart (sb s) \<longrightarrow> disk_inode (sb s) (blocks s') j =
          (if j = i_inum (icache s ip) then dinode_of (trunc_inode (icache s ip)) else disk_inode (sb s) (blocks s) j))
    \<and> disk_inode (sb s) (blocks s') (i_inum (icache s ip)) = dinode_of (trunc_inode (icache s ip))
    \<and> sb s' = sb s \<and> (\<forall>k. bc.room k s' = bc.room k s) \<and> bio_ok s'"
proof -
  obtain s' where s': "itrunc ip s = Some s'"
    "advances s (put_inode (sb s) (i_inum (icache s ip)) (dinode_of (trunc_inode (icache s ip)))
        (unmark_list (sb s) (file_blocks (blocks s) (i_addrs (icache s ip))) (blocks s)))
      ((icache s)(ip := trunc_inode (icache s ip))) s'"
    by (rule itrunc_ok[OF assms(1-5)])
  note A = advancesD[OF s'(2)]
  have "length (d_addrs (dinode_of (trunc_inode (icache s ip)))) = NDIRECT + 1" by (simp add: dinode_of_def trunc_inode_def)
  note F = freed_disk[OF assms(1,4) this assms(6) A(2)]
  show ?thesis using F(1,2) F(3,4) F(4)[OF assms(6)] by (intro exI[of _ s'] conjI) (simp_all add: s'(1) A(1,3,4,6))
qed

lemma itrunc_correct_witness:
  "\<exists>s'. itrunc 1 sample_kern = Some s' \<and> used sample_sb hi_disk 4 \<and> \<not> used sample_sb (blocks s') 4 \<and> used sample_sb (blocks s') 3
    \<and> d_size (disk_inode sample_sb (blocks s') 2) = 0 \<and> disk_inode sample_sb (blocks s') 1 = disk_inode sample_sb hi_disk 1"
proof -
  have e: "IBLOCK 2 sample_sb = 2" "IBLOCK 1 sample_sb = 2" "sb_bmapstart sample_sb = 3" by (simp_all add: IBLOCK_def fs_consts sample_sb_def)
  have r: "bc.room 2 sample_kern" by (simp add: sample_kern_bio hi_bio_ok(2))
  have f: "i_dev (icache sample_kern 1) = 1" "i_inum (icache sample_kern 1) = 2" "i_addrs (icache sample_kern 1) = 4 # replicate 12 0"
    "sb sample_kern = sample_sb" "blocks sample_kern = hi_disk" by (simp_all add: hi_inode_fields)
  have c: "wf_file sample_sb hi_disk (4 # replicate 12 0)" "IBLOCK 2 sample_sb < FSSIZE" "IBLOCK 2 sample_sb \<noteq> sb_bmapstart sample_sb"
    using hi_wf_file by (simp_all add: e FSSIZE_def)
  obtain s' where s': "itrunc 1 sample_kern = Some s'"
    "\<forall>k. used sample_sb (blocks s') k \<longleftrightarrow> used sample_sb hi_disk k \<and> k \<notin> {4}"
    "\<forall>j. IBLOCK j sample_sb \<noteq> sb_bmapstart sample_sb \<longrightarrow> disk_inode sample_sb (blocks s') j =
       (if j = 2 then dinode_of (trunc_inode (icache sample_kern 1)) else disk_inode sample_sb hi_disk j)"
    using itrunc_correct[OF hi_fs_ok r f(1), unfolded f(2-5), OF c] unfolding hi_file_blocks by blast
  show ?thesis
    using s'(1,2) s'(3)[rule_format, of 1] s'(3)[rule_format, of 2] hi_used[of 3] hi_used[of 4]
    by (intro exI[of _ s'] conjI) (simp_all add: e dinode_of_def trunc_inode_def)
qed

text \<open>C36. Dropping the last reference of a well-formed file without links (\<open>iput\<close>), whose inode is loaded and not in the bitmap block, frees its blocks and its inode: exactly the blocks of the file become
  free in the bitmap, its slot on disk holds the emptied inode with type 0, and the cache entry is free, invalid and empty. All other inodes, on disk and in
  the cache, and all blocks but the bitmap and the one with the slot are as before, and no buffer is leaked.\<close>

theorem iput_last:
  assumes "fs_ok s" "bc.room 2 s" "i_dev (icache s ip) = 1"
    and "wf_file (sb s) (blocks s) (i_addrs (icache s ip))" "IBLOCK (i_inum (icache s ip)) (sb s) < FSSIZE"
    and "i_valid (icache s ip)" "i_nlink (icache s ip) = 0" "i_ref (icache s ip) = 1"
    and "IBLOCK (i_inum (icache s ip)) (sb s) \<noteq> sb_bmapstart (sb s)"
  shows "\<exists>s'. iput ip s = Some s' \<and> icache s' = (icache s)(ip := (trunc_inode (icache s ip))\<lparr>i_type := 0, i_valid := False, i_ref := 0\<rparr>)
    \<and> (\<forall>k. used (sb s) (blocks s') k \<longleftrightarrow> used (sb s) (blocks s) k
          \<and> k \<notin> unat ` set (file_blocks (blocks s) (i_addrs (icache s ip))))
    \<and> (\<forall>b. b \<noteq> sb_bmapstart (sb s) \<longrightarrow> b \<noteq> IBLOCK (i_inum (icache s ip)) (sb s) \<longrightarrow> blocks s' b = blocks s b)
    \<and> (\<forall>j. IBLOCK j (sb s) \<noteq> sb_bmapstart (sb s) \<longrightarrow> disk_inode (sb s) (blocks s') j =
          (if j = i_inum (icache s ip) then (dinode_of (trunc_inode (icache s ip)))\<lparr>d_type := 0\<rparr> else disk_inode (sb s) (blocks s) j))
    \<and> blocks s' (IBLOCK (i_inum (icache s ip)) (sb s)) = blit (dinode_off (i_inum (icache s ip)))
        (enc_dinode ((dinode_of (trunc_inode (icache s ip)))\<lparr>d_type := 0\<rparr>)) (blocks s (IBLOCK (i_inum (icache s ip)) (sb s)))
    \<and> d_type (disk_inode (sb s) (blocks s') (i_inum (icache s ip))) = 0
    \<and> sb s' = sb s \<and> (\<forall>k. bc.room k s' = bc.room k s) \<and> bio_ok s'"
proof -
  let ?x = "sb s" and ?n = "i_inum (icache s ip)" and ?t = "trunc_inode (icache s ip)"
  let ?U = "unmark_list ?x (file_blocks (blocks s) (i_addrs (icache s ip))) (blocks s)"
  obtain s' where s': "iput ip s = Some s'"
    "advances s (put_inode ?x ?n (dinode_of (?t\<lparr>i_type := 0\<rparr>)) (put_inode ?x ?n (dinode_of ?t) ?U))
      ((icache s)(ip := (?t\<lparr>i_type := 0\<rparr>)\<lparr>i_valid := False, i_ref := 0\<rparr>)) s'"
    by (rule iput_free[OF assms(1-8)])
  note A = advancesD[OF s'(2)]
  have d: "dinode_of (?t\<lparr>i_type := 0\<rparr>) = (dinode_of ?t)\<lparr>d_type := 0\<rparr>" by (simp add: dinode_of_def)
  have ad: "length (d_addrs ((dinode_of ?t)\<lparr>d_type := 0\<rparr>)) = NDIRECT + 1" "length (d_addrs (dinode_of ?t)) = NDIRECT + 1"
    by (simp_all add: dinode_of_def trunc_inode_def)
  have "length (?U (IBLOCK ?n ?x)) = BSIZE" by (rule length_unmark_list[OF fs_okD(5)[OF assms(1)]])
  from A(2)[unfolded d put_inode_twice[where D = ?U, OF this ad]]
  have "blocks s' = put_inode ?x ?n ((dinode_of ?t)\<lparr>d_type := 0\<rparr>) ?U" .
  note F = freed_disk[OF assms(1,4) ad(1) assms(9) this]
  show ?thesis using F(1,2) F(3,4) F(4)[OF assms(9)] by (intro exI[of _ s'] conjI) (simp_all add: s'(1) A(1,3,4,6))
qed

lemma iput_last_witness:
  "\<exists>s'. iput 1 (upd_inode 1 (i_nlink_update (\<lambda>_. 0)) sample_kern) = Some s' \<and> i_ref (icache s' 1) = 0
    \<and> used sample_sb hi_disk 4 \<and> \<not> used sample_sb (blocks s') 4 \<and> d_type (disk_inode sample_sb (blocks s') 2) = 0"
proof -
  let ?s = "upd_inode 1 (i_nlink_update (\<lambda>_. 0)) sample_kern"
  have "advances sample_kern (blocks sample_kern) (icache ?s) ?s"
    by (rule advances_upd_inode[OF advances_refl]) (simp add: sample_kern_bio hi_bio_ok(1))
  note A = advancesD[OF this]
  have ok: "fs_ok ?s" "bc.room 2 ?s" using hi_fs_ok A hi_bio_ok(2)[of 2] by (simp_all add: fs_ok_def sample_kern_bio)
  have e: "IBLOCK 2 sample_sb = 2" "sb_bmapstart sample_sb = 3" by (simp_all add: IBLOCK_def fs_consts sample_sb_def)
  have f: "i_dev (icache ?s 1) = 1" "i_inum (icache ?s 1) = 2" "i_addrs (icache ?s 1) = 4 # replicate 12 0" "sb ?s = sample_sb" "blocks ?s = hi_disk"
    "i_valid (icache ?s 1)" "i_nlink (icache ?s 1) = 0" "i_ref (icache ?s 1) = 1"
    using A(2,3) by (simp_all add: hi_inode_fields upd_inode_def)
  have c: "wf_file sample_sb hi_disk (4 # replicate 12 0)" "IBLOCK 2 sample_sb < FSSIZE" "IBLOCK 2 sample_sb \<noteq> sb_bmapstart sample_sb"
    using hi_wf_file by (simp_all add: e FSSIZE_def)
  obtain s' where s': "iput 1 ?s = Some s'" "icache s' = (icache ?s)(1 := (trunc_inode (icache ?s 1))\<lparr>i_type := 0, i_valid := False, i_ref := 0\<rparr>)"
    "\<forall>k. used sample_sb (blocks s') k \<longleftrightarrow> used sample_sb hi_disk k \<and> k \<notin> {4}" "d_type (disk_inode sample_sb (blocks s') 2) = 0"
    using iput_last[OF ok f(1), unfolded f(2-5), OF c(1,2) f(6-8) c(3)] unfolding hi_file_blocks by blast
  then show ?thesis using hi_used[of 4] by (intro exI[of _ s'] conjI) simp_all
qed

text \<open>C37. One entry per inode: \<open>iget\<close> keeps the cache free of duplicates and returns an entry of the right inode with
  one more reference; an entry already in use is shared, a fresh one is marked as not loaded, others are unchanged.\<close>

theorem iget_correct:
  assumes "icache_ok (icache s)" "iget dev inum s = Some (ip, s')"
  shows "icache_ok (icache s') \<and> live_at (icache s') ip dev inum \<and> i_ref (icache s' ip) = i_ref (icache s ip) + 1
    \<and> (\<forall>q. q \<noteq> ip \<longrightarrow> icache s' q = icache s q) \<and> blocks s' = blocks s
    \<and> (live_at (icache s) ip dev inum \<longrightarrow> icache s' ip = (icache s ip)\<lparr>i_ref := i_ref (icache s ip) + 1\<rparr>)
    \<and> (\<not> live_at (icache s) ip dev inum \<longrightarrow> \<not> i_valid (icache s' ip))"
proof -
  note g = iget_spec[OF assms]
  have "blocks s' = blocks s" by (subst g(8)) simp
  then show ?thesis using g by blast
qed

lemma iget_correct_witness:
  "\<exists>s'. iget 1 2 sample = Some (1, s') \<and> i_ref (icache s' 1) = 2 \<and> icache_ok (icache s')"
proof -
  have l: "live_at (icache sample) 1 1 2" by (simp add: live_at_def sample_inode_fields NINODE_def)
  note g = iget_hit[OF sample_icache_ok l]
  show ?thesis using iget_correct[OF sample_icache_ok g] g by (simp add: sample_inode_fields)
qed

text \<open>C38. \<open>ialloc\<close> claims the first inode that is free on disk: its slot becomes an empty inode of the given type, no other
  block changes, and the result is the cache entry of that inode.\<close>

theorem ialloc_correct:
  assumes "bio_ok s" "bc.room 1 s" "inodes_ok (sb s)" "first_inode (sb s) (blocks s) = Some m"
    and "\<not> icache_full (icache s)" "icache_ok (icache s)"
  shows "\<exists>ip s'. ialloc 1 type s = Some (Some ip, s') \<and> live_at (icache s') ip 1 (of_nat m) \<and> icache_ok (icache s')
    \<and> blocks s' = put_inode (sb s) (of_nat m) (new_dinode type) (blocks s)
    \<and> disk_inode (sb s) (blocks s') (of_nat m) = new_dinode type"
proof -
  obtain s1 ip s' where a: "bc.evolves s (put_inode (sb s) (of_nat m) (new_dinode type) (blocks s)) s1"
    "iget 1 (of_nat m) s1 = Some (ip, s')" "ialloc 1 type s = Some (Some ip, s')"
    by (rule ialloc_ok[OF assms])
  have ok: "icache_ok (icache s1)" using assms(6) evolves_fs(2)[OF a(1)] by simp
  note g = iget_spec[OF ok a(2)]
  have b: "blocks s' = put_inode (sb s) (of_nat m) (new_dinode type) (blocks s)"
    by (subst g(8)) (simp add: evolves_fs(4)[OF a(1)])
  have "length (d_addrs (new_dinode type)) = NDIRECT + 1" by (simp add: new_dinode_def)
  from disk_inode_put[where D = "blocks s", OF length_blocks[OF assms(1)] this] show ?thesis using a(3) g(1,2) b by simp
qed

lemma ialloc_correct_witness:
  "\<exists>ip s'. ialloc 1 T_DEV sample = Some (Some ip, s') \<and> live_at (icache s') ip 1 (of_nat 3)"
proof -
  have "drop (dinode_off 3) (sample_disk 2) = replicate (64 + 256) 0"
    by (simp add: sample_disk_def dinode_off_def fs_consts sample_dinode_def)
  also have "\<dots> = enc_dinode (new_dinode 0) @ replicate 256 0"
    by (simp only: replicate_add enc_new_dinode) (simp add: numeral_eq_Suc)
  finally have "dec_dinode (drop (dinode_off 3) (sample_disk 2)) = new_dinode 0"
    by (simp add: dec_enc_dinode new_dinode_def)
  then have t: "free_inode sample_sb sample_disk 3" "\<not> free_inode sample_sb sample_disk 1" "\<not> free_inode sample_sb sample_disk 2"
    using sample_disk_inode
    by (simp_all add: free_inode_def disk_inode_def IBLOCK_def fs_consts sample_sb_def new_dinode_def sample_dinode_def)
  have "[1..<8] = [1, 2, 3] @ [4..<8]" by (simp add: upt_rec)
  moreover have "unat (sb_ninodes sample_sb) = 8" by (simp add: sample_sb_def)
  ultimately have f: "first_inode (sb sample) (blocks sample) = Some 3"
    using t by (simp add: first_inode_def del: upt_rec_numeral)
  have "\<not> icache_full (icache sample)" by (auto simp: icache_full_def free_slot_def NINODE_def intro!: exI[of _ 2])
  moreover have "inodes_ok (sb sample)" by (simp add: inodes_ok_def sample_sb_def fs_consts)
  ultimately show ?thesis using ialloc_correct[OF sample_bio_ok sample_room _ f, of T_DEV] sample_icache_ok by fastforce
qed

section \<open>Devices\<close>

text \<open>C39. A request runs to completion: with an idle queue and a controller that gets ready and reports no error, \<open>iderw\<close> of a buffer that is not
  synced, for a disk that is present and a block on it, returns with the buffer valid and clean, its bytes written to the sector (dirty) or filled from it (not
  dirty), the queue empty, and every other buffer and sector unchanged.\<close>

theorem iderw_correct:
  assumes "idequeue s = None" "ata_live s" "ata_clean s" "b_flags (bufs s b) AND (B_VALID OR B_DIRTY) \<noteq> B_VALID"
    and "b_dev (bufs s b) = 0 \<or> havedisk1 s" "b_blockno (bufs s b) < FSSIZE"
  shows "\<exists>s'. iderw b s = Some s' \<and> idequeue s' = None
    \<and> b_flags (bufs s' b) AND (B_VALID OR B_DIRTY) = B_VALID
    \<and> b_data (bufs s' b) = disk s' (b_dev (bufs s b) AND 1) (b_blockno (bufs s b))
    \<and> (b_flags (bufs s b) AND B_DIRTY \<noteq> 0 \<longrightarrow> b_data (bufs s' b) = b_data (bufs s b))
    \<and> (b_flags (bufs s b) AND B_DIRTY = 0 \<longrightarrow> disk s' = disk s)
    \<and> (\<forall>c. c \<noteq> b \<longrightarrow> bufs s' c = bufs s c)
    \<and> (\<forall>d n. d \<noteq> b_dev (bufs s b) AND 1 \<or> n \<noteq> b_blockno (bufs s b) \<longrightarrow> disk s' d n = disk s d n)"
  by (rule iderw_idle[OF assms]) (auto simp: rw_buf_def rw_disk_def rw_dirty_def synced_flags)

lemma iderw_correct_witness:
  "\<exists>s'. iderw 5 sample = Some s' \<and> b_data (bufs s' 5) = disk s' 0 0 \<and> idequeue s' = None"
proof -
  have e: "idequeue sample = None" "ata_live sample" "ata_clean sample"
    using bio_okD(1)[OF sample_bio_ok] by (simp_all add: env_ok_def)
  have b: "b_dev (bufs sample 5) = 0" "b_blockno (bufs sample 5) = 0" "b_flags (bufs sample 5) = 0"
    by (simp_all add: sample_def booted_def cold_machine_def blank_buf_def)
  show ?thesis using iderw_correct[OF e, of 5] b by (fastforce simp: ide_consts)
qed

text \<open>C40. A message never leaves the screen: with the cursor on the screen, \<open>kprint\<close> of any string shows it character
  by character as specified (newline, backspace, scrolling), leaves the cursor on the screen, and writes no byte
  outside the 4000 bytes of video memory.\<close>

theorem kprint_correct:
  assumes "on_screen (cursor s)"
  shows "on_screen (cursor (kprint msg s)) \<and> (\<forall>a. a < 0 \<or> 4000 \<le> a \<longrightarrow> vidmem (kprint msg s) a = vidmem s a)
    \<and> (cursor (kprint msg s), vidmem (kprint msg s)) = put_chars (cstr msg) RED_ON_BLACK (cursor s) (vidmem s)"
  using kprint_eq[OF assms, of msg] put_chars_safe[OF assms, of "cstr msg" RED_ON_BLACK "vidmem s"] by simp_all

lemma kprint_correct_witness: "cursor (kprint ''ok'' sample) = 4 \<and> vidmem (kprint ''ok'' sample) 2 = 107"
proof -
  have o: "outside sample = outside (cold_machine sample_disk)" by (simp add: sample_def booted_def)
  have "cursor sample = 0" "vidmem sample = (\<lambda>_. 0)"
    using outside_fs(5,6)[OF o] by (simp_all add: cursor_def cold_machine_def)
  then show ?thesis
    using kprint_correct[of sample "''ok''"] by (simp add: on_screen_def put_char_def cstr_def Let_def)
qed

section \<open>Further facts\<close>

text \<open>The page allocator is a stack: a page that is freed is the next one that \<open>kalloc\<close> hands out, and then the other free pages are
  as before; between the two only this page's bytes have changed.\<close>

theorem kfree_then_kalloc:
  assumes "free_pages s ps" "page_al v" "v \<noteq> 0" "v \<notin> set ps"
  shows "\<exists>s'. kalloc (kfree v s) = (v, s') \<and> free_pages (kfree v s) (v # ps) \<and> free_pages s' ps \<and> freelist s' = freelist s
    \<and> same_outside {v} (ram s) (ram s')"
proof -
  note k = kfree_free[OF assms]
  obtain s' where s': "kalloc (kfree v s) = (v, s')" "s' = (kfree v s)\<lparr>freelist := ld32 (ram (kfree v s)) (unat v)\<rparr>" "free_pages s' ps"
    by (rule kalloc_cons[OF k(1)])
  have "ld32 (ram (kfree v s)) (unat v) = freelist s" by (simp add: kfree_def)
  then show ?thesis using s' k by simp
qed

lemma kfree_then_kalloc_witness: "\<exists>s'. kalloc (kfree 0x80007000 sample_kern) = (0x80007000, s') \<and> free_pages s' [0x80005000, 0x80006000]"
  using kfree_then_kalloc[OF sample_free_pages, of "0x80007000"] by (auto simp: page_al_def)

text \<open>After \<open>isr_install\<close>, which returns once the keyboard acknowledges: vectors 0 to 47 and 64 lead to their stubs through the kernel's code
  segment, only 64 may be raised by the user; timer, keyboard, disk and system calls have their handlers, and the console is a device.\<close>

theorem isr_install_correct:
  assumes "env_in s 0x60 (in_pos s 0x60 + k) = 0xfa"
  shows "\<exists>s'. isr_install stub idt_addr s = Some s' \<and> installed stub s' \<and> idt_reg s' = (2047, idt_addr)"
  by (rule isr_install_ok[OF assms])

lemma isr_install_correct_witness: "\<forall>stub. \<exists>s'. isr_install stub 0 (sample_kern\<lparr>env_in := (\<lambda>_ _. 0xfa)\<rparr>) = Some s' \<and> installed stub s'"
proof
  fix stub
  show "\<exists>s'. isr_install stub 0 (sample_kern\<lparr>env_in := (\<lambda>_ _. 0xfa)\<rparr>) = Some s' \<and> installed stub s'"
    using isr_install_correct[of "sample_kern\<lparr>env_in := (\<lambda>_ _. 0xfa)\<rparr>" 0 stub 0] by auto
qed

text \<open>A number outside the table runs nothing: \<open>eax\<close> becomes -1, and besides a message on the screen nothing changes.\<close>

theorem dispatcher_unknown:
  assumes "num \<le> 0 \<or> 8 < num"
  shows "\<exists>s1. dispatcher L num p s = Some (set_eax p (- 1) s1) \<and> machine.more s1 = machine.more s
    \<and> rd_mem (p_tf (ptable s1 p) + TF_EAX) (set_eax p (- 1) s1) = 0xFFFFFFFF"
proof -
  have "0x25 \<notin> set (cstr ''unknow syscall\<newline>'')" by (simp add: cstr_def)
  then obtain s1 where s1: "kprintf ''unknow syscall\<newline>'' [] s = Some s1" using kprintf_plain by blast
  have "machine.more s1 = machine.more s" using screen_frame_kprintf[OF s1] by (simp add: screen_frame_def)
  then show ?thesis using assms s1 by (auto simp: dispatcher_def syscalls_def set_eax_def rd_mem_def wr_mem_def)
qed

lemma dispatcher_unknown_witness: "\<forall>L. \<exists>s1. dispatcher L 9 0 sample_kern = Some (set_eax 0 (- 1) s1)"
  using dispatcher_unknown[of 9 _ 0 sample_kern] by auto

text \<open>What \<open>bmap\<close> may change: the specification never gives away a block in use, the file reads the same (a new
  block reads as the zeros of a hole), the map stays well formed, and blocks of others are untouched.\<close>

theorem bmap_safe:
  assumes "wf_disk x D" "wf_file x D as" "bn < MAXFILE" "bmap_abs x bn D as = Some (a, D', as')"
  shows "updates x D as D' as' (fbyte D as) \<and> a \<noteq> 0 \<and> file_addr D' as' bn = a \<and> data_blk x D' a"
  using bmap_abs_ok[OF assms] bmap_abs_updates[OF assms] wf_fileD(2)[OF keepsD(2)[OF bmap_abs_ok(1)[OF assms]] assms(3)]
  by simp

lemma bmap_safe_witness:
  "\<exists>a D' as'. bmap_abs sample_sb 20 sample_disk (replicate 13 0) = Some (a, D', as') \<and> data_blk sample_sb D' a"
proof -
  have n: "2 \<le> nfree sample_sb sample_disk" using sample_nfree by simp
  have wd: "wf_disk sample_sb sample_disk" using sample_wf_disk by simp
  obtain a D' as' where b: "bmap_abs sample_sb 20 sample_disk (replicate 13 0) = Some (a, D', as')"
    using bmap_abs_total[OF wd no_blocks_wf n, of 20] by blast
  have "(20 :: nat) < MAXFILE" by (simp add: fs_consts)
  then show ?thesis using b bmap_safe[OF wd no_blocks_wf _ b] by blast
qed

text \<open>Write-through: \<open>bwrite\<close> of a pinned buffer puts its bytes on the disk at its block, changes no other
  block, and leaves the buffer valid and clean, so the cache stays coherent.\<close>

theorem bwrite_correct:
  assumes "bio_ok s" "pins s b > 0" "length d = BSIZE"
  shows "\<exists>s'. bwrite b (set_bdata b d s) = Some s' \<and> blocks s' = (blocks s)(bkey s b := d) \<and> bio_ok s'
    \<and> pins s' = pins s \<and> bkey s' = bkey s"
  using bwrite_law[OF assms] by blast

lemma bwrite_correct_witness:
  "\<exists>b s1 s2. bread 1 3 sample = Some (b, s1) \<and> bwrite b (set_bdata b (replicate 512 1) s1) = Some s2 \<and> blocks s2 3 = replicate 512 1"
proof -
  have "npins (pins sample) < NBUF" unfolding npins_def sample_pins by (simp add: NBUF_def)
  then obtain b s1 where "bread 1 3 sample = Some (b, s1)" "bio_ok s1" "pins s1 b > 0" "bkey s1 b = 3"
    using bread_law[OF sample_bio_ok, of 3] by (fastforce simp: FSSIZE_def)
  then show ?thesis using bwrite_correct[of s1 b "replicate 512 1"] by (fastforce simp: BSIZE_def)
qed

text \<open>\<open>brelse\<close> of a pinned buffer drops one pin, moves the buffer to the front of the list when the last
  user lets go, and keeps the invariant: the list is still a doubly linked ring of all buffers.\<close>

theorem brelse_correct:
  assumes "bio_ok s" "pins s b > 0" "ring s xs" "b \<in> set xs"
  shows "bio_ok (brelse b s) \<and> pins (brelse b s) = (pins s)(b := pins s b - 1)
    \<and> blocks (brelse b s) = blocks s \<and> ring (brelse b s) (if b_refcnt (bufs s b) = 1 then b # remove1 b xs else xs)"
  using brelse_law[OF assms(1,2)] brelse_ring[OF assms(3,4)] by simp_all

lemma brelse_correct_witness:
  "\<exists>b s1. bread 1 3 sample = Some (b, s1) \<and> bio_ok (brelse b s1) \<and> pins (brelse b s1) = (\<lambda>_. 0)"
proof -
  have "npins (pins sample) < NBUF" unfolding npins_def sample_pins by (simp add: NBUF_def)
  then obtain b s1 where b: "bread 1 3 sample = Some (b, s1)" "bio_ok s1" "pins s1 = (pins sample)(b := pins sample b + 1)" "b < NBUF"
    using bread_law[OF sample_bio_ok, of 3] by (fastforce simp: FSSIZE_def)
  then obtain xs where xs: "ring s1 xs" "set xs = {..<NBUF}" using bio_okD(2) by blast
  have p: "pins s1 b > 0" by (simp add: b(3))
  have "b \<in> set xs" using b(4) xs(2) by simp
  from brelse_correct[OF b(2) p xs(1) this] show ?thesis
    using b(1) by (auto simp: b(3) sample_pins fun_eq_iff)
qed

text \<open>Least recently used: on a well-formed list \<open>bget\<close> returns the cached buffer of the block if there is one,
  and otherwise the last buffer of the list that is neither referenced nor dirty.\<close>

theorem bget_lru:
  assumes "ring s xs"
  shows "bget dev blockno s =
    (case find (\<lambda>b. b_dev (bufs s b) = dev \<and> b_blockno (bufs s b) = blockno) xs of
       Some b \<Rightarrow> Some (Some b, upd_buf b (\<lambda>x. x\<lparr>b_refcnt := b_refcnt x + 1\<rparr>) s)
     | None \<Rightarrow> (case find (\<lambda>b. b_refcnt (bufs s b) = 0 \<and> b_flags (bufs s b) AND B_DIRTY = 0) (rev xs) of
         Some b \<Rightarrow> Some (Some b, upd_buf b (\<lambda>x. x\<lparr>b_flags := 0, b_dev := dev, b_blockno := blockno, b_refcnt := 1\<rparr>) s)
       | None \<Rightarrow> Some (None, kprint ''bget: no buffers'' s)))"
  using assms by (rule bget_ring)

lemma bget_lru_witness: "bget 1 3 (binit sample) =
    (case find (\<lambda>b. b_dev (bufs (binit sample) b) = 1 \<and> b_blockno (bufs (binit sample) b) = 3) (rev [0..<NBUF]) of
       Some b \<Rightarrow> Some (Some b, upd_buf b (\<lambda>x. x\<lparr>b_refcnt := b_refcnt x + 1\<rparr>) (binit sample))
     | None \<Rightarrow> (case find (\<lambda>b. b_refcnt (bufs (binit sample) b) = 0 \<and> b_flags (bufs (binit sample) b) AND B_DIRTY = 0) (rev (rev [0..<NBUF])) of
         Some b \<Rightarrow> Some (Some b, upd_buf b (\<lambda>x. x\<lparr>b_flags := 0, b_dev := 1, b_blockno := 3, b_refcnt := 1\<rparr>) (binit sample))
       | None \<Rightarrow> Some (None, kprint ''bget: no buffers'' (binit sample))))"
  by (rule bget_lru[OF binit_ring])

text \<open>On a full disk \<open>balloc\<close> reports the error and returns -1, the disk being unchanged.\<close>

theorem balloc_full_disk:
  assumes "bio_ok s" "sb_ok (sb s)" "bc.room 1 s" "first_free (sb s) (blocks s) = None" "sb_size (sb s) \<noteq> 0"
  shows "\<exists>s1. balloc 1 s = Some (- 1, kprint ''balloc: out of blocks'' s1) \<and> blocks s1 = blocks s \<and> bio_ok s1"
  by (rule balloc_full[OF assms]) (use bc.evolvesD in blast)

lemma balloc_full_disk_witness:
  "\<exists>s1. balloc 1 (booted (sample_disk(3 := replicate 512 255))) = Some (- 1, kprint ''balloc: out of blocks'' s1)"
proof -
  let ?D = "sample_disk(3 := replicate 512 255)"
  have l: "length (?D n) = 512" for n by (simp add: length_sample_disk)
  have b: "bit (255 :: u8) n" if "n < 8" for n
  proof -
    have "(255 :: u8) = mask 8" by (simp add: mask_eq_exp_minus_1)
    then have "bit (255 :: u8) n \<longleftrightarrow> n < LENGTH(8) \<and> n < 8" by (simp only: bit_mask_iff possible_bit_word)
    then show ?thesis using that by simp
  qed
  have "used sample_sb ?D k" if "k < 20" for k
    using b[of "k mod 8"] that by (simp add: used_def sample_sb_def bit_set_def)
  then have "first_free (sb (booted ?D)) (blocks (booted ?D)) = None"
    by (auto simp: first_free_def find_None_iff) (simp add: sample_sb_def)
  then show ?thesis
    using balloc_full_disk[OF booted_ok(2)[of ?D, OF l] _ booted_ok(3)[of ?D, OF l]] wf_diskD(1)[OF sample_wf_disk] by (fastforce simp: sample_sb_def)
qed

text \<open>\<open>bfree\<close> of a block in use makes it free and changes nothing else (when the super block in memory is the one
  on disk, which \<open>bfree\<close> reads again).\<close>

theorem bfree_correct:
  assumes "bio_ok s" "sb_ok (sb s)" "bc.room 1 s" "dec_superblock (blocks s 1) = sb s"
    and "unat b < unat (sb_size (sb s))" "used (sb s) (blocks s) (unat b)"
  shows "\<exists>s'. bfree 1 b s = Some s' \<and> blocks s' = unmark (sb s) (unat b) (blocks s)
    \<and> (\<forall>k. used (sb s) (blocks s') k \<longleftrightarrow> used (sb s) (blocks s) k \<and> k \<noteq> unat b) \<and> bio_ok s'"
proof -
  obtain s' where s': "bfree 1 b s = Some s'" "bc.evolves s (unmark (sb s) (unat b) (blocks s)) s'"
    by (rule bfree_ok[OF assms])
  have "unat b < 1000" using assms(5) sb_ok_size[OF assms(2)] by simp
  then show ?thesis using s' bc.evolvesD[OF s'(2)] used_unmark[of "blocks s" "sb s" "unat b"] length_blocks[OF assms(1)] by auto
qed

lemma bfree_correct_witness: "\<exists>s'. bfree 1 3 sample = Some s' \<and> \<not> used sample_sb (blocks s') 3"
proof -
  have "dec_superblock (blocks sample 1) = sb sample" by (simp add: sample_disk_def dec_enc_superblock)
  moreover have "used (sb sample) (blocks sample) (unat (3 :: u32))" by (simp add: sample_used_iff)
  moreover have "unat (3 :: u32) < unat (sb_size (sb sample))" by (simp add: sample_sb_def)
  ultimately show ?thesis
    using bfree_correct[OF sample_bio_ok wf_diskD(1)[OF sample_wf_disk] sample_room, of 3] by fastforce
qed

text \<open>\<open>iget\<close> gives up only when it must: it fails exactly when the inode has no entry and every entry is referenced.\<close>

theorem iget_fails_iff:
  assumes "icache_ok (icache s)"
  shows "iget dev inum s = None \<longleftrightarrow> icache_full (icache s) \<and> (\<forall>ip. \<not> live_at (icache s) ip dev inum)"
proof (cases "\<exists>ip. live_at (icache s) ip dev inum")
  case True
  then show ?thesis using iget_hit[OF assms] by auto
next
  case False
  then show ?thesis using iget_full iget_miss[OF assms, of dev inum] by (cases "icache_full (icache s)") (auto, metis option.distinct(1))
qed

lemma iget_fails_iff_witness: "iget 1 7 sample \<noteq> None"
proof -
  have "\<not> icache_full (icache sample)" by (auto simp: icache_full_def free_slot_def NINODE_def intro!: exI[of _ 2])
  then show ?thesis using iget_fails_iff[OF sample_icache_ok, of 1 7] by blast
qed

text \<open>Saving and loading an inode are inverse: after \<open>iupdate\<close> of an inode, \<open>ilock\<close> of an entry that stands for the
  same inode and is not loaded fills it with exactly the saved fields.\<close>

theorem iupdate_then_ilock:
  assumes "bio_ok s" "i_dev (icache s ip) = 1" "IBLOCK (i_inum (icache s ip)) (sb s) < FSSIZE" "bc.room 1 s"
    and "length (i_addrs (icache s ip)) = NDIRECT + 1" "i_type (icache s ip) \<noteq> 0"
    and "q \<noteq> ip" "i_dev (icache s q) = 1" "i_inum (icache s q) = i_inum (icache s ip)" "i_ref (icache s q) \<ge> 1" "\<not> i_valid (icache s q)"
  shows "\<exists>s1 s2. iupdate ip s = Some s1 \<and> ilock q s1 = Some s2 \<and> i_valid (icache s2 q)
    \<and> dinode_of (icache s2 q) = dinode_of (icache s ip)"
proof -
  let ?x = "sb s" and ?n = "i_inum (icache s ip)" and ?d = "dinode_of (icache s ip)"
  obtain s1 where s1: "iupdate ip s = Some s1" "advances s (put_inode ?x ?n ?d (blocks s)) (icache s) s1"
    by (rule iupdate_ok[OF assms(1-5)])
  note A = advancesD[OF s1(2)]
  have ad: "length (d_addrs ?d) = NDIRECT + 1" using assms(5) by (simp add: dinode_of_def)
  have di: "disk_inode (sb s1) (blocks s1) (i_inum (icache s1 q)) = ?d"
    using disk_inode_put[where D = "blocks s", OF length_blocks[OF assms(1)] ad] assms(9) by (simp add: A(2-4))
  have q: "i_dev (icache s1 q) = 1" "IBLOCK (i_inum (icache s1 q)) (sb s1) < FSSIZE" "bc.room 1 s1"
    "i_ref (icache s1 q) \<ge> 1" "\<not> i_valid (icache s1 q)" "d_type (disk_inode (sb s1) (blocks s1) (i_inum (icache s1 q))) \<noteq> 0"
    unfolding di using assms A by (simp_all add: dinode_of_def)
  obtain s2 where s2: "ilock q s1 = Some s2"
    "advances s1 (blocks s1) ((icache s1)(q := loaded (disk_inode (sb s1) (blocks s1) (i_inum (icache s1 q))) (icache s1 q))) s2"
    by (rule ilock_load[OF A(1) q])
  have "icache s2 q = loaded ?d (icache s1 q)" using advancesD(4)[OF s2(2)] di by simp
  then show ?thesis using s1(1) s2(1) by (simp add: loaded_def load_dinode_def dinode_of_def)
qed

lemma iupdate_then_ilock_witness:
  "\<exists>s1 s2. iupdate 1 (upd_inode 2 (\<lambda>x. x\<lparr>i_dev := 1, i_inum := 2, i_ref := 1\<rparr>) sample) = Some s1 \<and> ilock 2 s1 = Some s2
    \<and> dinode_of (icache s2 2) = sample_dinode T_FILE"
proof -
  let ?s = "upd_inode 2 (\<lambda>x. x\<lparr>i_dev := 1, i_inum := 2, i_ref := 1\<rparr>) sample"
  have "advances sample (blocks sample) (icache ?s) ?s" by (rule advances_upd_inode[OF advances_refl[OF sample_bio_ok]])
  note A = advancesD[OF this]
  have "dinode_of (sample_inode 2 T_FILE) = sample_dinode T_FILE"
    by (simp add: dinode_of_def sample_inode_fields) (simp add: sample_dinode_def)
  then show ?thesis
    using iupdate_then_ilock[OF A(1), of 1 2] A(3) A(6)[of 1] sample_room
    by (fastforce simp: sample_inode_fields free_slot_def IBLOCK_def fs_consts sample_sb_def FSSIZE_def)
qed

text \<open>The structures on disk: encoding and decoding the super block, an inode and a directory entry are inverse.\<close>

theorem layout_roundtrip:
  assumes "length (d_addrs d) = NDIRECT + 1" "length name = DIRSIZ"
  shows "dec_superblock (enc_superblock x @ rest) = x \<and> dec_dinode (enc_dinode d @ rest) = d
    \<and> de_inum (enc_dirent inum name) = inum \<and> de_name (enc_dirent inum name) = name"
  using assms by (simp add: dec_enc_superblock dec_enc_dinode dirent_roundtrip)

lemma layout_roundtrip_witness:
  "dec_dinode (enc_dinode (sample_dinode 1) @ [7]) = sample_dinode 1 \<and> de_name (enc_dirent 3 (replicate 14 65)) = replicate 14 65"
  using layout_roundtrip[of "sample_dinode 1" "replicate 14 65" sample_sb "[7]" 3]
  by (simp add: sample_dinode_def fs_consts)

text \<open>\<open>idestart\<close> programs the controller for the right sector: drive and 28-bit sector number in the registers are
  the buffer's device and block, a dirty buffer's bytes go to that sector, a clean one's request leaves the disk alone.\<close>

theorem idestart_correct:
  assumes "ata_live s" "b_blockno (bufs s b) < FSSIZE"
  shows "\<exists>s'. idestart b s = Some s' \<and> ata_drive s' = b_dev (bufs s b) AND 1 \<and> ata_lba s' = b_blockno (bufs s b)
    \<and> bufs s' = bufs s \<and> idequeue s' = idequeue s \<and> disk s' = rw_disk s b"
  by (rule idestart_ok[OF assms]) (auto simp: rw_disk_def rw_dirty_def)

lemma idestart_correct_witness: "\<exists>s'. idestart 5 sample = Some s' \<and> ata_lba s' = 0"
proof -
  have "ata_live sample" using bio_okD(1)[OF sample_bio_ok] by (simp add: env_ok_def)
  moreover have "b_blockno (bufs sample 5) = 0" by (simp add: sample_def booted_def cold_machine_def blank_buf_def)
  ultimately show ?thesis using idestart_correct[of sample 5] by (fastforce simp: FSSIZE_def)
qed

text \<open>\<open>idewait\<close> polls exactly until the status register says ready and not busy, and then reports an error
  only if asked to and the error or fault bit is set.\<close>

theorem idewait_correct:
  assumes "in_pos s 0x1f7 \<le> m" "env_in s 0x1f7 m AND 0xc0 = 0x40"
    and "\<forall>k. in_pos s 0x1f7 \<le> k \<and> k < m \<longrightarrow> env_in s 0x1f7 k AND 0xc0 \<noteq> 0x40"
  shows "idewait ce s = Some (if ce \<and> env_in s 0x1f7 m AND 0x21 \<noteq> 0 then - 1 else 0,
           s\<lparr>in_pos := (in_pos s)(0x1f7 := Suc m)\<rparr>)"
  using assms(3) by (intro idewait_ready[OF assms(1,2)]) blast

lemma idewait_correct_witness: "\<exists>s'. idewait True (cold_machine (\<lambda>_. [])) = Some (0, s')"
  using idewait_correct[of "cold_machine (\<lambda>_. [])" 0 True] by (simp add: cold_machine_def)

text \<open>Cold start: from zeroed buffers \<open>binit\<close> establishes the invariant of the cache, with no buffer in use.\<close>

theorem binit_correct:
  assumes "env_ok s" "\<forall>n. length (disk s 1 n) = BSIZE"
    and "\<forall>i<NBUF. b_dev (bufs s i) = 0 \<and> b_flags (bufs s i) = 0 \<and> b_refcnt (bufs s i) = 0"
  shows "bio_ok (binit s) \<and> pins (binit s) = (\<lambda>_. 0) \<and> ring (binit s) (rev [0..<NBUF])"
  using binit_establishes[OF assms(1)] assms(2,3) binit_ring by blast+

lemma binit_correct_witness: "bio_ok (binit (cold_machine sample_disk))"
proof -
  have "env_ok (cold_machine sample_disk)" by (auto simp: cold_machine_def env_ok_def ata_live_def ata_clean_def)
  then show ?thesis
    by (rule binit_correct[THEN conjunct1]) (simp_all add: cold_machine_def blank_buf_def length_sample_disk BSIZE_def)
qed

text \<open>One character: at a position on the screen \<open>print_char\<close> stores character and attribute in its cell (backspace
  blanks it, newline stores nothing), moves the cursor behind it, and scrolls one row up when that is past the last cell.\<close>

theorem print_char_correct:
  assumes "on_screen (char_pos col row s)" "col < 80" "row < 25" "attr \<noteq> 0"
  shows "fst (print_char c col row attr s) = fst (put_char c attr (char_pos col row s) (vidmem s))
    \<and> vidmem (snd (print_char c col row attr s)) = snd (put_char c attr (char_pos col row s) (vidmem s))
    \<and> cursor (snd (print_char c col row attr s)) = fst (print_char c col row attr s)"
  using print_char_eq[OF assms] by simp_all

lemma print_char_correct_witness: "fst (print_char 65 79 24 15 sample) = 3840"
  using print_char_correct[of 79 24 sample 15 65]
  by (simp add: char_pos_def get_offset_def screen_consts on_screen_def put_char_def Let_def)

text \<open>The hardware cursor: reading back a cursor offset on the screen gives the offset that was set.\<close>

theorem cursor_roundtrip:
  assumes "on_screen off"
  shows "fst (get_cursor_offset (set_cursor_offset off s)) = off"
  using assms cursor_set_cursor_offset[of off s] by (simp add: on_screen_def)

lemma cursor_roundtrip_witness: "fst (get_cursor_offset (set_cursor_offset 3998 sample)) = 3998"
  by (rule cursor_roundtrip) (simp add: on_screen_def)

text \<open>Only slot 0 is ever tried: when the first process exists, \<open>allocproc\<close> gives up, although other slots are free.\<close>

theorem allocproc_first_slot_only:
  assumes "p_state (ptable s 0) \<noteq> UNUSED"
  shows "allocproc L s = (None, s)"
  by (rule allocproc_busy[OF assms])

lemma allocproc_first_slot_only_witness: "\<forall>L. allocproc L sample_kern = (None, sample_kern) \<and> p_state (ptable sample_kern 1) = UNUSED"
  using allocproc_first_slot_only[of sample_kern] by (simp add: sample_proc_def)

text \<open>Overlapping copies: \<open>memmove\<close>, whichever direction it chooses, has the effect of reading all the bytes first and then writing them.\<close>

theorem memmove_correct:
  "memmove d s n m = (\<lambda>a. if d \<le> a \<and> a < d + n then m (s + (a - d)) else m a)"
  by (rule ext) (rule memmove_apply)

end
